(* ===== verification/Prelude.thy ===== *)
theory Prelude
  imports Main "HOL-Library.Multiset"
begin

text \<open>
  Generic material shared by every component: the C integer helpers of
  common/utils.hpp and common/cbasetypes.hpp, the linear search that the
  ARR_FIND macro expands to, and lemmas on lists that are updated by index.
  The collection \<open>sem\<close> gathers the equations that unfold the model of
  an operation; it is filled by the components.
\<close>

named_theorems sem

section \<open>C integers\<close>

text \<open>\<open>u32\<close> is the reduction of a value stored in an unsigned 32-bit variable.\<close>

definition u32 :: "int \<Rightarrow> int" where
  "u32 x = x mod 4294967296"

lemma u32_id [simp]: "0 \<le> x \<Longrightarrow> x < 4294967296 \<Longrightarrow> u32 x = x"
  by (simp add: u32_def)

lemma u32_range: "0 \<le> u32 x" "u32 x < 4294967296"
  by (simp_all add: u32_def)

lemma u32_u32_add: "u32 (u32 x + y) = u32 (x + y)" "u32 (x + u32 y) = u32 (x + y)"
  by (simp_all add: u32_def mod_simps)

lemma u32_u32_diff: "u32 (u32 x - y) = u32 (x - y)" "u32 (x - u32 y) = u32 (x - y)"
  by (simp_all add: u32_def mod_simps)

text \<open>\<open>s16\<close> is the value read back from a short.\<close>

definition s16 :: "int \<Rightarrow> int" where
  "s16 x = (x + 32768) mod 65536 - 32768"

text \<open>\<open>s32\<close> is the value read back from an int.\<close>

definition s32 :: "int \<Rightarrow> int" where
  "s32 x = (x + 2147483648) mod 4294967296 - 2147483648"

lemma s32_id [simp]: "- 2147483648 \<le> x \<Longrightarrow> x \<le> 2147483647 \<Longrightarrow> s32 x = x"
  by (simp add: s32_def)

lemma s16_id [simp]: "- 32768 \<le> x \<Longrightarrow> x \<le> 32767 \<Longrightarrow> s16 x = x"
  by (simp add: s16_def)

text \<open>The macro \<open>cap_value\<close> of common/utils.hpp, in its test order.\<close>

definition cap_value :: "int \<Rightarrow> int \<Rightarrow> int \<Rightarrow> int" where
  "cap_value a lo hi = (if a \<ge> hi then hi else if a \<le> lo then lo else a)"

lemma cap_value_id [simp]: "lo \<le> a \<Longrightarrow> a \<le> hi \<Longrightarrow> cap_value a lo hi = a"
  by (auto simp: cap_value_def)

lemma cap_value_range: "lo \<le> hi \<Longrightarrow> lo \<le> cap_value a lo hi \<and> cap_value a lo hi \<le> hi"
  by (auto simp: cap_value_def)

section \<open>ARR_FIND\<close>

text \<open>
  \<open>ARR_FIND(0, n, i, P i)\<close> leaves the first index that satisfies the test,
  or the length when there is none.
\<close>

fun arr_find :: "('a \<Rightarrow> bool) \<Rightarrow> 'a list \<Rightarrow> nat" where
  "arr_find P [] = 0"
| "arr_find P (x # xs) = (if P x then 0 else Suc (arr_find P xs))"

lemma arr_find_le [simp]: "arr_find P xs \<le> length xs"
  by (induction xs) auto

lemma arr_find_sat: "arr_find P xs < length xs \<Longrightarrow> P (xs ! arr_find P xs)"
  by (induction xs) (auto split: if_splits)

lemma arr_find_first: "j < arr_find P xs \<Longrightarrow> \<not> P (xs ! j)"
  by (induction xs arbitrary: j) (auto split: if_splits simp: less_Suc_eq_0_disj)

lemma arr_find_none: "arr_find P xs = length xs \<longleftrightarrow> (\<forall>x \<in> set xs. \<not> P x)"
  by (induction xs) auto

lemma arr_find_lt: "arr_find P xs < length xs \<longleftrightarrow> (\<exists>x \<in> set xs. P x)"
  using arr_find_le [of P xs] arr_find_none [of P xs]
  by (metis le_neq_implies_less less_irrefl)

lemma arr_find_append:
  "arr_find P (xs @ ys) = (if \<exists>x \<in> set xs. P x then arr_find P xs else length xs + arr_find P ys)"
  by (induction xs) auto

lemma arr_find_replicate: "0 < m \<Longrightarrow> P x \<Longrightarrow> arr_find P (replicate m x) = 0"
  by (cases m) simp_all

section \<open>Lists updated by index\<close>

lemma sum_list_map_update:
  fixes f :: "'a \<Rightarrow> int"
  shows "i < length xs \<Longrightarrow>
    sum_list (map f (xs[i := x])) = sum_list (map f xs) - f (xs ! i) + f x"
  by (induction xs arbitrary: i) (auto split: nat.splits)

lemma sum_list_map_nonneg_ge:
  fixes f :: "'a \<Rightarrow> int"
  assumes "\<forall>x \<in> set xs. 0 \<le> f x" and "i < length xs"
  shows "f (xs ! i) \<le> sum_list (map f xs)"
  using assms
proof (induction xs arbitrary: i)
  case Nil
  then show ?case by simp
next
  case (Cons a xs)
  have "0 \<le> sum_list (map f xs)"
    using Cons.prems(1) by (intro sum_list_nonneg) auto
  then show ?case
    using Cons by (cases i) fastforce+
qed

lemma nth_update_same: "f t = f (xs ! k) \<Longrightarrow> f (xs[k := t] ! i) = f (xs ! i)"
  by (cases "k < length xs"; cases "i = k") (simp_all add: list_update_beyond)

lemma ball_set_update:
  "\<forall>x \<in> set xs. P x \<Longrightarrow> P y \<Longrightarrow> \<forall>x \<in> set (xs[i := y]). P x"
  using set_update_subset_insert by fastforce

section \<open>Closing gaps\<close>

text \<open>
  The loop that several components use to close the gaps of an array: of the \<open>n\<close>
  entries from \<open>i\<close> on, those that are kept are moved to the places from \<open>j\<close> on.
\<close>

fun close_gaps :: "('a \<Rightarrow> bool) \<Rightarrow> nat \<Rightarrow> nat \<Rightarrow> nat \<Rightarrow> 'a list \<Rightarrow> nat \<times> 'a list" where
  "close_gaps P 0 i j xs = (j, xs)"
| "close_gaps P (Suc n) i j xs =
     (if P (xs ! i) then close_gaps P n (i + 1) (j + 1) (if i \<noteq> j then xs[j := xs ! i] else xs)
      else close_gaps P n (i + 1) j xs)"

lemma close_gaps_filter:
  assumes "j \<le> i" "i + n \<le> length xs"
  shows "close_gaps P n i j xs =
    (let ys = filter P (take n (drop i xs)) in (j + length ys, take j xs @ ys @ drop (j + length ys) xs))"
  using assms
proof (induction n arbitrary: i j xs)
  case 0
  then show ?case by simp
next
  case (Suc n)
  have i: "i < length xs" using Suc.prems by simp
  then have d: "take (Suc n) (drop i xs) = xs ! i # take n (drop (Suc i) xs)"
    by (simp add: Cons_nth_drop_Suc [symmetric])
  show ?case
  proof (cases "P (xs ! i)")
    case False
    then show ?thesis using Suc.IH [of j "i + 1" xs] Suc.prems d by (simp add: Let_def)
  next
    case True
    let ?xs = "xs[j := xs ! i]"
    have eq: "(if i \<noteq> j then ?xs else xs) = ?xs" by simp
    have dr: "drop (Suc i) ?xs = drop (Suc i) xs" using Suc.prems(1) by simp
    have c: "j < length xs" using Suc.prems(1) i by simp
    then have tk: "take (Suc j) ?xs = take j xs @ [xs ! i]"
      by (simp add: take_Suc_conv_app_nth)
    have dd: "drop (Suc j + m) ?xs = drop (Suc j + m) xs" for m by simp
    show ?thesis
      using Suc.IH [of "j + 1" "i + 1" ?xs] Suc.prems True d
      by (simp add: Let_def eq dr tk dd)
  qed
qed

end
