(* ===== verification/Bheap.thy ===== *)
theory Bheap
  imports Prelude
begin

text \<open>
  The binary heap macros of common/db.hpp on the vector's list of values. The
  comparator is an argument, as in the macros: negative when the first value
  belongs on top. BHEAP\_PUSH and BHEAP\_POPINDEX serve the timers; the variants
  with a 2, BHEAP\_SIFTUP and BHEAP\_UPDATE serve the path search. The correctness
  lemmas hold for every comparator that agrees in sign with a key function on
  the values in play.
\<close>

section \<open>The macros\<close>

definition heap_swap :: "'a list \<Rightarrow> nat \<Rightarrow> nat \<Rightarrow> 'a list" where
  "heap_swap xs i j = xs[i := xs ! j, j := xs ! i]"

definition VECTOR_POP :: "'a list \<Rightarrow> 'a \<times> 'a list" where
  "VECTOR_POP xs = (last xs, butlast xs)"

definition VECTOR_ERASEN :: "'a list \<Rightarrow> nat \<Rightarrow> nat \<Rightarrow> 'a list" where
  "VECTOR_ERASEN xs i n = take i xs @ drop (i + n) xs"

definition VECTOR_INSERT :: "'a list \<Rightarrow> nat \<Rightarrow> 'a \<Rightarrow> 'a list" where
  "VECTOR_INSERT xs i v = take i xs @ v # drop i xs"

definition par :: "nat \<Rightarrow> nat" where
  "par i = (i - 1) div 2"

lemma par_less: "0 < i \<Longrightarrow> par i < i"
  by (simp add: par_def)

lemma par_children: "0 < j \<Longrightarrow> par j = i \<longleftrightarrow> j = i * 2 + 1 \<or> j = i * 2 + 2"
  by (auto simp: par_def)

text \<open>The loop "restore heap property in parents" of BHEAP\_PUSH and BHEAP\_POPINDEX.\<close>

function heap_parents :: "('a \<Rightarrow> 'a \<Rightarrow> int) \<Rightarrow> 'a list \<Rightarrow> nat \<Rightarrow> 'a list \<times> nat" where
  "heap_parents cmp xs i =
     (if i = 0 then (xs, i)
      else let p = par i
           in if cmp (xs ! p) (xs ! i) < 0 then (xs, i)
              else heap_parents cmp (heap_swap xs p i) p)"
  by pat_completeness auto
termination by (relation "measure (\<lambda>(cmp, xs, i). i)") (auto simp: par_less)

text \<open>The loop "restore heap property in childs" of BHEAP\_POPINDEX.\<close>

function heap_childs :: "('a \<Rightarrow> 'a \<Rightarrow> int) \<Rightarrow> 'a list \<Rightarrow> nat \<Rightarrow> 'a list" where
  "heap_childs cmp xs i =
     (if i \<ge> length xs then xs
      else let l = i * 2 + 1; r = i * 2 + 2
           in if (l \<ge> length xs \<or> cmp (xs ! i) (xs ! l) \<le> 0) \<and> (r \<ge> length xs \<or> cmp (xs ! i) (xs ! r) \<le> 0)
              then xs
              else if r \<ge> length xs \<or> cmp (xs ! l) (xs ! r) \<le> 0
              then heap_childs cmp (heap_swap xs i l) l
              else heap_childs cmp (heap_swap xs i r) r)"
  by pat_completeness auto
termination
  by (relation "measure (\<lambda>(cmp, xs, i). length xs - i)") (auto simp: heap_swap_def)

definition BHEAP_PUSH :: "('a \<Rightarrow> 'a \<Rightarrow> int) \<Rightarrow> 'a list \<Rightarrow> 'a \<Rightarrow> 'a list" where
  "BHEAP_PUSH cmp xs v = fst (heap_parents cmp (xs @ [v]) (length xs))"

definition BHEAP_POPINDEX :: "('a \<Rightarrow> 'a \<Rightarrow> int) \<Rightarrow> 'a list \<Rightarrow> nat \<Rightarrow> 'a list" where
  "BHEAP_POPINDEX cmp xs i =
     (case VECTOR_POP xs of (v, ys) \<Rightarrow>
        if i \<ge> length ys then ys
        else case heap_parents cmp (ys[i := v]) i of (zs, j) \<Rightarrow> heap_childs cmp zs j)"

definition BHEAP_POP :: "('a \<Rightarrow> 'a \<Rightarrow> int) \<Rightarrow> 'a list \<Rightarrow> 'a list" where
  "BHEAP_POP cmp xs = BHEAP_POPINDEX cmp xs 0"

definition BHEAP_PEEK :: "'a list \<Rightarrow> 'a" where
  "BHEAP_PEEK xs = xs ! 0"

function BHEAP_SIFTDOWN :: "('a \<Rightarrow> 'a \<Rightarrow> int) \<Rightarrow> 'a list \<Rightarrow> nat \<Rightarrow> nat \<Rightarrow> 'a list" where
  "BHEAP_SIFTDOWN cmp xs startidx i =
     (if i \<le> startidx then xs
      else let p = par i
           in if cmp (xs ! p) (xs ! i) \<le> 0 then xs
              else BHEAP_SIFTDOWN cmp (heap_swap xs p i) startidx p)"
  by pat_completeness auto
termination by (relation "measure (\<lambda>(cmp, xs, s, i). i)") (auto simp: par_less)

text \<open>The descent of BHEAP\_SIFTUP: the smaller child moves up until the hole is a leaf.\<close>

function heap_descend :: "('a \<Rightarrow> 'a \<Rightarrow> int) \<Rightarrow> 'a list \<Rightarrow> nat \<Rightarrow> 'a list \<times> nat" where
  "heap_descend cmp xs i =
     (let l = i * 2 + 1; r = i * 2 + 2
      in if l < length xs then
           if r \<ge> length xs \<or> cmp (xs ! l) (xs ! r) < 0
           then heap_descend cmp (heap_swap xs i l) l
           else heap_descend cmp (heap_swap xs i r) r
         else (xs, i))"
  by pat_completeness auto
termination
  by (relation "measure (\<lambda>(cmp, xs, i). length xs - i)") (auto simp: heap_swap_def)

definition BHEAP_SIFTUP :: "('a \<Rightarrow> 'a \<Rightarrow> int) \<Rightarrow> 'a list \<Rightarrow> nat \<Rightarrow> 'a list" where
  "BHEAP_SIFTUP cmp xs idx = (case heap_descend cmp xs idx of (ys, i) \<Rightarrow> BHEAP_SIFTDOWN cmp ys idx i)"

definition BHEAP_PUSH2 :: "('a \<Rightarrow> 'a \<Rightarrow> int) \<Rightarrow> 'a list \<Rightarrow> 'a \<Rightarrow> 'a list" where
  "BHEAP_PUSH2 cmp xs v = BHEAP_SIFTDOWN cmp (xs @ [v]) 0 (length xs)"

definition BHEAP_POP2 :: "('a \<Rightarrow> 'a \<Rightarrow> int) \<Rightarrow> 'a list \<Rightarrow> 'a list" where
  "BHEAP_POP2 cmp xs =
     (case VECTOR_POP xs of (v, ys) \<Rightarrow> if ys = [] then ys else BHEAP_SIFTUP cmp (ys[0 := v]) 0)"

definition BHEAP_UPDATE :: "('a \<Rightarrow> 'a \<Rightarrow> int) \<Rightarrow> 'a list \<Rightarrow> nat \<Rightarrow> 'a list" where
  "BHEAP_UPDATE cmp xs idx = BHEAP_SIFTUP cmp (BHEAP_SIFTDOWN cmp xs 0 idx) idx"

definition BHEAP_MINTOPCMP :: "int \<Rightarrow> int \<Rightarrow> int" where
  "BHEAP_MINTOPCMP v1 v2 = (if v1 = v2 then 0 else if v1 < v2 then -1 else 1)"

declare heap_parents.simps [simp del] heap_childs.simps [simp del] BHEAP_SIFTDOWN.simps [simp del]
  heap_descend.simps [simp del]

section \<open>Swapping\<close>

lemma heap_swap_length [simp]: "length (heap_swap xs i j) = length xs"
  by (simp add: heap_swap_def)

lemma heap_swap_nth:
  "i < length xs \<Longrightarrow> j < length xs \<Longrightarrow>
   heap_swap xs i j ! k = (if k = i then xs ! j else if k = j then xs ! i else xs ! k)"
  by (auto simp: heap_swap_def nth_list_update)

lemma heap_swap_mset [simp]: "i < length xs \<Longrightarrow> j < length xs \<Longrightarrow> mset (heap_swap xs i j) = mset xs"
  unfolding heap_swap_def by (rule mset_swap)

lemma heap_swap_set: "i < length xs \<Longrightarrow> j < length xs \<Longrightarrow> set (heap_swap xs i j) = set xs"
  by (metis heap_swap_mset set_mset_mset)

section \<open>Shapes\<close>

text \<open>The heap order, and the order with a hole at \<open>i\<close> that the loops keep.\<close>

definition is_heap :: "('a \<Rightarrow> int) \<Rightarrow> 'a list \<Rightarrow> bool" where
  "is_heap key xs \<longleftrightarrow> (\<forall>j < length xs. 0 < j \<longrightarrow> key (xs ! par j) \<le> key (xs ! j))"

definition hole :: "('a \<Rightarrow> int) \<Rightarrow> 'a list \<Rightarrow> nat \<Rightarrow> bool" where
  "hole key xs i \<longleftrightarrow> i < length xs
     \<and> (\<forall>j < length xs. 0 < j \<longrightarrow> j \<noteq> i \<longrightarrow> par j \<noteq> i \<longrightarrow> key (xs ! par j) \<le> key (xs ! j))
     \<and> (\<forall>j < length xs. 0 < j \<longrightarrow> par j = i \<longrightarrow> 0 < i \<longrightarrow> key (xs ! par i) \<le> key (xs ! j))"

definition above :: "('a \<Rightarrow> int) \<Rightarrow> 'a list \<Rightarrow> nat \<Rightarrow> bool" where
  "above key xs i \<longleftrightarrow> 0 < i \<longrightarrow> key (xs ! par i) \<le> key (xs ! i)"

definition below :: "('a \<Rightarrow> int) \<Rightarrow> 'a list \<Rightarrow> nat \<Rightarrow> bool" where
  "below key xs i \<longleftrightarrow> (\<forall>j < length xs. 0 < j \<longrightarrow> par j = i \<longrightarrow> key (xs ! i) \<le> key (xs ! j))"

lemma is_heap_hole:
  assumes "is_heap key xs" "i < length xs"
  shows "hole key xs i" "above key xs i" "below key xs i"
proof -
  have H: "key (xs ! par j) \<le> key (xs ! j)" if "j < length xs" "0 < j" for j
    using assms(1) that by (simp add: is_heap_def)
  have G: "key (xs ! par i) \<le> key (xs ! j)" if "j < length xs" "0 < j" "par j = i" "0 < i" for j
    using H [OF that(1,2)] H [OF assms(2) that(4)] unfolding that(3) by linarith
  show "hole key xs i" unfolding hole_def using H G assms(2) by blast
  show "above key xs i" unfolding above_def using H assms(2) by blast
  show "below key xs i" unfolding below_def using H by blast
qed

lemma hole_heap:
  assumes "hole key xs i" "above key xs i" "below key xs i"
  shows "is_heap key xs"
  unfolding is_heap_def
proof (intro allI impI)
  fix j
  assume j: "j < length xs" "0 < j"
  consider "j = i" | "par j = i" | "j \<noteq> i" "par j \<noteq> i" by blast
  then show "key (xs ! par j) \<le> key (xs ! j)"
  proof cases
    case 1
    then show ?thesis using assms(2) j by (simp add: above_def)
  next
    case 2
    have "key (xs ! i) \<le> key (xs ! j)" using assms(3) j 2 unfolding below_def by blast
    then show ?thesis by (simp only: 2)
  next
    case 3
    then show ?thesis using assms(1) j unfolding hole_def by blast
  qed
qed

lemma is_heap_top:
  assumes "is_heap key xs" "j < length xs"
  shows "key (xs ! 0) \<le> key (xs ! j)"
  using assms(2)
proof (induction j rule: less_induct)
  case (less j)
  show ?case
  proof (cases "j = 0")
    case False
    then have "par j < j" by (simp add: par_less)
    then have "key (xs ! 0) \<le> key (xs ! par j)" using less by simp
    also have "\<dots> \<le> key (xs ! j)" using assms(1) less.prems False by (simp add: is_heap_def)
    finally show ?thesis .
  qed simp
qed

text \<open>Moving the hole to its parent.\<close>

lemma hole_up:
  assumes h: "hole key xs i" and i: "0 < i" and le: "key (xs ! i) \<le> key (xs ! par i)"
  shows "hole key (heap_swap xs (par i) i) (par i)"
    "below key (heap_swap xs (par i) i) (par i)"
    "below key (heap_swap xs (par i) i) i"
proof -
  let ?p = "par i" and ?ys = "heap_swap xs (par i) i"
  have len: "i < length xs" "?p < length xs" "?p < i" using h i par_less [OF i] by (auto simp: hole_def)
  have ys: "?ys ! k = (if k = ?p then xs ! i else if k = i then xs ! ?p else xs ! k)" for k
    using heap_swap_nth [OF len(2,1)] by simp
  have P: "key (xs ! par j) \<le> key (xs ! j)" if "j < length xs" "0 < j" "j \<noteq> i" "par j \<noteq> i" for j
    using h that by (simp add: hole_def)
  have G: "key (xs ! ?p) \<le> key (xs ! j)" if "j < length xs" "0 < j" "par j = i" for j
    using h i that by (simp add: hole_def)
  have pp: "par ?p \<noteq> i" using len by (auto simp: par_def)
  have 1: "key (?ys ! par j) \<le> key (?ys ! j)" if j: "j < length xs" "0 < j" "j \<noteq> ?p" "par j \<noteq> ?p" for j
  proof (cases "par j = i")
    case True
    then have "j \<noteq> i" using j(2) par_less [of j] by auto
    then show ?thesis using True G [OF j(1,2) True] j len by (simp add: ys)
  next
    case False
    moreover have "j \<noteq> i" using j(4) by auto
    ultimately show ?thesis using P [OF j(1,2)] j by (simp add: ys)
  qed
  have 2: "key (?ys ! par ?p) \<le> key (?ys ! j)" if j: "j < length xs" "0 < j" "par j = ?p" "0 < ?p" for j
  proof -
    have "par ?p < ?p" using j(4) by (simp add: par_less)
    then have yp: "?ys ! par ?p = xs ! par ?p" using len by (simp add: ys)
    have up: "key (xs ! par ?p) \<le> key (xs ! ?p)" using P [of ?p] len j(4) pp by simp
    show ?thesis
    proof (cases "j = i")
      case True
      then show ?thesis using up yp len by (simp add: ys)
    next
      case False
      have "j \<noteq> ?p" using j(2,3) par_less [of j] by auto
      moreover have "key (xs ! ?p) \<le> key (xs ! j)" using P [OF j(1,2) False] j(3) len by simp
      ultimately show ?thesis using up yp False by (simp add: ys)
    qed
  qed
  show "hole key ?ys ?p" unfolding hole_def heap_swap_length using 1 2 len by blast
  show "below key ?ys ?p"
    unfolding below_def
  proof (intro allI impI)
    fix j assume j: "j < length ?ys" "0 < j" "par j = ?p"
    show "key (?ys ! ?p) \<le> key (?ys ! j)"
    proof (cases "j = i")
      case True
      then show ?thesis using le len by (simp add: ys)
    next
      case False
      have "j \<noteq> ?p" using j(2,3) par_less [of j] by auto
      moreover have "key (xs ! ?p) \<le> key (xs ! j)" using P [of j] j False len by simp
      ultimately show ?thesis using le False by (simp add: ys)
    qed
  qed
  show "below key ?ys i"
    unfolding below_def
  proof (intro allI impI)
    fix j assume j: "j < length ?ys" "0 < j" "par j = i"
    have "j \<noteq> i" using j(2,3) par_less [of j] by auto
    moreover have "j \<noteq> ?p"
    proof
      assume "j = ?p"
      then have "par j < j" using j(2) by (simp add: par_less)
      then show False using j(3) \<open>j = ?p\<close> len by simp
    qed
    ultimately show "key (?ys ! i) \<le> key (?ys ! j)" using G [of j] j len by (simp add: ys)
  qed
qed

text \<open>Moving the hole to the smaller child.\<close>

lemma hole_down:
  assumes h: "hole key xs i" and c: "c < length xs" "0 < c" "par c = i"
    and sm: "\<And>j. j < length xs \<Longrightarrow> 0 < j \<Longrightarrow> par j = i \<Longrightarrow> key (xs ! c) \<le> key (xs ! j)"
  shows "hole key (heap_swap xs i c) c"
    "above key xs i \<Longrightarrow> key (xs ! c) \<le> key (xs ! i) \<Longrightarrow> above key (heap_swap xs i c) c"
proof -
  let ?ys = "heap_swap xs i c"
  have len: "i < length xs" "i < c" using h c par_less [of c] by (auto simp: hole_def)
  have ys: "?ys ! k = (if k = i then xs ! c else if k = c then xs ! i else xs ! k)" for k
    using heap_swap_nth [OF len(1) c(1)] by simp
  have P: "key (xs ! par j) \<le> key (xs ! j)" if "j < length xs" "0 < j" "j \<noteq> i" "par j \<noteq> i" for j
    using h that by (simp add: hole_def)
  have G: "key (xs ! par i) \<le> key (xs ! c)" if "0 < i" using h that c by (simp add: hole_def)
  have 1: "key (?ys ! par j) \<le> key (?ys ! j)" if j: "j < length xs" "0 < j" "j \<noteq> c" "par j \<noteq> c" for j
  proof (cases "j = i")
    case True
    then have "par j < i" using j(2) par_less by blast
    then show ?thesis using True G j(2) len by (simp add: ys)
  next
    case False
    show ?thesis
    proof (cases "par j = i")
      case True
      then show ?thesis using sm [OF j(1,2) True] j False by (simp add: ys)
    next
      case nf: False
      then show ?thesis using P [OF j(1,2) False nf] j False by (simp add: ys)
    qed
  qed
  have 2: "key (?ys ! par c) \<le> key (?ys ! j)" if j: "j < length xs" "0 < j" "par j = c" for j
  proof -
    have "c < j" using j(2,3) par_less by blast
    moreover from this have "j \<noteq> c" by simp
    moreover have "j \<noteq> i" using len \<open>c < j\<close> by simp
    moreover have "key (xs ! c) \<le> key (xs ! j)" using P [OF j(1,2)] \<open>j \<noteq> i\<close> j(3) len by simp
    ultimately show ?thesis using c(3) by (simp add: ys)
  qed
  show "hole key ?ys c" unfolding hole_def heap_swap_length using 1 2 c by blast
  show "above key ?ys c" if "key (xs ! c) \<le> key (xs ! i)"
    using that c len by (simp add: above_def ys)
qed

section \<open>The loops restore the order\<close>

definition agrees :: "('a \<Rightarrow> 'a \<Rightarrow> int) \<Rightarrow> ('a \<Rightarrow> int) \<Rightarrow> 'a set \<Rightarrow> bool" where
  "agrees cmp key S \<longleftrightarrow> (\<forall>a \<in> S. \<forall>b \<in> S. (cmp a b < 0 \<longleftrightarrow> key a < key b) \<and> (cmp a b \<le> 0 \<longleftrightarrow> key a \<le> key b))"

lemma agreesD:
  assumes "agrees cmp key (set xs)" "i < length xs" "j < length xs"
  shows "cmp (xs ! i) (xs ! j) < 0 \<longleftrightarrow> key (xs ! i) < key (xs ! j)"
    "cmp (xs ! i) (xs ! j) \<le> 0 \<longleftrightarrow> key (xs ! i) \<le> key (xs ! j)"
  using assms unfolding agrees_def by (meson nth_mem)+

lemma agrees_swap:
  "agrees cmp key (set xs) \<Longrightarrow> i < length xs \<Longrightarrow> j < length xs \<Longrightarrow> agrees cmp key (set (heap_swap xs i j))"
  by (simp add: heap_swap_set)

lemma agrees_subset: "agrees cmp key S \<Longrightarrow> T \<subseteq> S \<Longrightarrow> agrees cmp key T"
  unfolding agrees_def by blast

lemma hole_len: "hole key xs i \<Longrightarrow> i < length xs"
  by (simp add: hole_def)

lemma heap_parents_hole:
  assumes "agrees cmp key (set xs)" "hole key xs i" "heap_parents cmp xs i = (ys, j)"
  shows "mset ys = mset xs \<and> hole key ys j \<and> above key ys j \<and> (below key xs i \<longrightarrow> below key ys j)"
  using assms
proof (induction cmp xs i rule: heap_parents.induct)
  case (1 cmp xs i)
  show ?case
  proof (cases "i = 0")
    case True
    then have "ys = xs \<and> j = i" using 1(4) unfolding heap_parents.simps [of cmp xs i] by simp
    then show ?thesis using 1(3) True by (simp add: above_def)
  next
    case False
    have len: "i < length xs" "par i < length xs" using hole_len [OF 1(3)] par_less [of i] False by auto
    note A = agreesD(1) [OF 1(2) len(2,1)]
    show ?thesis
    proof (cases "cmp (xs ! par i) (xs ! i) < 0")
      case True
      then show ?thesis
        using 1(3,4) False A by (simp add: heap_parents.simps [of cmp xs i] above_def)
    next
      case nb: False
      then have le: "key (xs ! i) \<le> key (xs ! par i)" using A by simp
      note U = hole_up [OF 1(3) _ le]
      have "heap_parents cmp (heap_swap xs (par i) i) (par i) = (ys, j)"
        using 1(4) False nb by (simp add: heap_parents.simps [of cmp xs i] Let_def)
      then show ?thesis
        using 1(1) [OF False refl nb agrees_swap [OF 1(2) len(2,1)] U(1)] U(2) False len by simp
    qed
  qed
qed

lemma heap_childs_heap:
  assumes "agrees cmp key (set xs)" "hole key xs i" "above key xs i"
  shows "mset (heap_childs cmp xs i) = mset xs \<and> is_heap key (heap_childs cmp xs i)"
  using assms
proof (induction cmp xs i rule: heap_childs.induct)
  case (1 cmp xs i)
  let ?l = "i * 2 + 1" and ?r = "i * 2 + 2"
  have len: "i < length xs" by (rule hole_len [OF 1(4)])
  have nlen: "\<not> length xs \<le> i" using len by simp
  have pl: "par ?l = i" "par ?r = i" by (simp_all add: par_def)
  note eq = heap_childs.simps [of cmp xs i, unfolded Let_def]
  have child: "j = ?l \<or> j = ?r" if "0 < j" "par j = i" for j using par_children that by blast
  let ?done = "(?l \<ge> length xs \<or> cmp (xs ! i) (xs ! ?l) \<le> 0) \<and> (?r \<ge> length xs \<or> cmp (xs ! i) (xs ! ?r) \<le> 0)"
  have step: "mset (heap_childs cmp (heap_swap xs i c) c) = mset xs
      \<and> is_heap key (heap_childs cmp (heap_swap xs i c) c)"
    if IH: "agrees cmp key (set (heap_swap xs i c)) \<Longrightarrow> hole key (heap_swap xs i c) c \<Longrightarrow>
        above key (heap_swap xs i c) c \<Longrightarrow>
        mset (heap_childs cmp (heap_swap xs i c) c) = mset (heap_swap xs i c)
        \<and> is_heap key (heap_childs cmp (heap_swap xs i c) c)"
      and c: "c < length xs" "0 < c" "par c = i"
      and sm: "\<And>j. j < length xs \<Longrightarrow> 0 < j \<Longrightarrow> par j = i \<Longrightarrow> key (xs ! c) \<le> key (xs ! j)"
      and lt: "key (xs ! c) \<le> key (xs ! i)" for c
  proof -
    have "hole key (heap_swap xs i c) c" by (rule hole_down(1) [OF 1(4) c]) (rule sm)
    moreover have "above key (heap_swap xs i c) c"
      by (rule hole_down(2) [OF 1(4) c _ 1(5) lt]) (rule sm)
    ultimately show ?thesis
      using IH [OF agrees_swap [OF 1(3) len c(1)]] unfolding heap_swap_mset [OF len c(1)] by blast
  qed
  show ?case
  proof (cases ?done)
    case True
    have "below key xs i"
      unfolding below_def
    proof (intro allI impI)
      fix j assume j: "j < length xs" "0 < j" "par j = i"
      then have "cmp (xs ! i) (xs ! j) \<le> 0" using True child [OF j(2,3)] by auto
      then show "key (xs ! i) \<le> key (xs ! j)" using agreesD(2) [OF 1(3) len j(1)] by simp
    qed
    then have "is_heap key xs" using hole_heap 1(4,5) by blast
    then show ?thesis using True len by (simp add: eq)
  next
    case False
    have ll: "?l < length xs" using False by auto
    show ?thesis
    proof (cases "?r \<ge> length xs \<or> cmp (xs ! ?l) (xs ! ?r) \<le> 0")
      case True
      have sm: "key (xs ! ?l) \<le> key (xs ! j)" if j: "j < length xs" "0 < j" "par j = i" for j
        using child [OF j(2,3)] True j(1) agreesD(2) [OF 1(3) ll] by auto
      have lt: "key (xs ! ?l) \<le> key (xs ! i)"
      proof (rule ccontr)
        assume n: "\<not> ?thesis"
        have d: "j < length xs \<longrightarrow> cmp (xs ! i) (xs ! j) \<le> 0" if j: "0 < j" "par j = i" for j
          using agreesD(2) [OF 1(3) len, of j] sm [OF _ j] n by auto
        from d [of ?l] d [of ?r] pl have ?done by (auto simp: imp_conv_disj not_less)
        then show False using False by contradiction
      qed
      have "mset (heap_childs cmp (heap_swap xs i ?l) ?l) = mset xs
          \<and> is_heap key (heap_childs cmp (heap_swap xs i ?l) ?l)"
        by (rule step [OF 1(1) [OF nlen refl refl False True] ll _ pl(1) sm lt]) simp_all
      then show ?thesis unfolding eq if_not_P [OF nlen] if_not_P [OF False] if_P [OF True] .
    next
      case nl: False
      then have rr: "?r < length xs" by simp
      have rl: "key (xs ! ?r) \<le> key (xs ! ?l)" using nl agreesD(2) [OF 1(3) ll rr] by simp
      have sm: "key (xs ! ?r) \<le> key (xs ! j)" if j: "j < length xs" "0 < j" "par j = i" for j
        using child [OF j(2,3)] rl by auto
      have lt: "key (xs ! ?r) \<le> key (xs ! i)"
      proof (rule ccontr)
        assume n: "\<not> ?thesis"
        have d: "j < length xs \<longrightarrow> cmp (xs ! i) (xs ! j) \<le> 0" if j: "0 < j" "par j = i" for j
          using agreesD(2) [OF 1(3) len, of j] sm [OF _ j] n by auto
        from d [of ?l] d [of ?r] pl have ?done by (auto simp: imp_conv_disj not_less)
        then show False using False by contradiction
      qed
      have "mset (heap_childs cmp (heap_swap xs i ?r) ?r) = mset xs
          \<and> is_heap key (heap_childs cmp (heap_swap xs i ?r) ?r)"
        by (rule step [OF 1(2) [OF nlen refl refl False nl] rr _ pl(2) sm lt]) simp_all
      then show ?thesis unfolding eq if_not_P [OF nlen] if_not_P [OF False] if_not_P [OF nl] .
    qed
  qed
qed

lemma BHEAP_SIFTDOWN_root:
  assumes "agrees cmp key (set xs)" "hole key xs i"
  shows "mset (BHEAP_SIFTDOWN cmp xs 0 i) = mset xs
    \<and> (is_heap key (BHEAP_SIFTDOWN cmp xs 0 i) \<or> BHEAP_SIFTDOWN cmp xs 0 i = xs \<and> above key xs i)
    \<and> (below key xs i \<longrightarrow> is_heap key (BHEAP_SIFTDOWN cmp xs 0 i))"
  using assms
proof (induction cmp xs "0::nat" i rule: BHEAP_SIFTDOWN.induct)
  case (1 cmp xs i)
  note eq = BHEAP_SIFTDOWN.simps [of cmp xs 0 i]
  show ?case
  proof (cases "i = 0")
    case True
    then have "BHEAP_SIFTDOWN cmp xs 0 i = xs" unfolding eq by simp
    moreover have "above key xs i" using True by (simp add: above_def)
    ultimately show ?thesis using hole_heap [OF 1(3)] by simp
  next
    case False
    have len: "i < length xs" "par i < length xs" using hole_len [OF 1(3)] par_less [of i] False by auto
    note A = agreesD(2) [OF 1(2) len(2,1)]
    show ?thesis
    proof (cases "cmp (xs ! par i) (xs ! i) \<le> 0")
      case True
      then have "BHEAP_SIFTDOWN cmp xs 0 i = xs" unfolding eq by (simp add: Let_def)
      moreover have "above key xs i" using A True by (simp add: above_def)
      ultimately show ?thesis using hole_heap [OF 1(3)] by simp
    next
      case nb: False
      have le: "key (xs ! i) \<le> key (xs ! par i)" using A nb by simp
      have i0: "\<not> i \<le> 0" using False by simp
      note U = hole_up [OF 1(3) _ le]
      have e: "BHEAP_SIFTDOWN cmp xs 0 i = BHEAP_SIFTDOWN cmp (heap_swap xs (par i) i) 0 (par i)"
        using False nb unfolding eq by (simp add: Let_def)
      have "is_heap key (BHEAP_SIFTDOWN cmp (heap_swap xs (par i) i) 0 (par i))"
        "mset (BHEAP_SIFTDOWN cmp (heap_swap xs (par i) i) 0 (par i)) = mset (heap_swap xs (par i) i)"
        using 1(1) [OF i0 refl nb agrees_swap [OF 1(2) len(2,1)]] U False by blast+
      then show ?thesis using len by (simp add: e)
    qed
  qed
qed

section \<open>The operations keep the heap and its elements\<close>

lemma is_heap_snoc: "is_heap key xs \<Longrightarrow> hole key (xs @ [v]) (length xs) \<and> below key (xs @ [v]) (length xs)"
proof -
  assume h: "is_heap key xs"
  have par_ne: "par j \<noteq> length xs" if "j \<le> length xs" "0 < j" for j
    using par_less [OF that(2)] that(1) by simp
  have old: "key ((xs @ [v]) ! par j) \<le> key ((xs @ [v]) ! j)" if "j < length xs" "0 < j" for j
    using h that par_less [OF that(2)] by (simp add: is_heap_def nth_append)
  have hole: "hole key (xs @ [v]) (length xs)"
    unfolding hole_def
  proof (intro conjI allI impI)
    fix j assume "j < length (xs @ [v])" "0 < j" "j \<noteq> length xs"
    then show "key ((xs @ [v]) ! par j) \<le> key ((xs @ [v]) ! j)" using old [of j] by simp
  next
    fix j assume "j < length (xs @ [v])" "0 < j" "par j = length xs"
    then show "key ((xs @ [v]) ! par (length xs)) \<le> key ((xs @ [v]) ! j)" using par_ne [of j] by simp
  qed simp
  have "below key (xs @ [v]) (length xs)"
    unfolding below_def using par_ne by (metis length_append_singleton less_Suc_eq_le)
  with hole show ?thesis by blast
qed

lemma BHEAP_PUSH_correct:
  assumes "agrees cmp key (insert v (set xs))" "is_heap key xs"
  shows "is_heap key (BHEAP_PUSH cmp xs v) \<and> mset (BHEAP_PUSH cmp xs v) = add_mset v (mset xs)"
proof -
  obtain ys j where r: "heap_parents cmp (xs @ [v]) (length xs) = (ys, j)" by fastforce
  have a: "agrees cmp key (set (xs @ [v]))" using assms(1) by simp
  note H = is_heap_snoc [OF assms(2), of v]
  from heap_parents_hole [OF a conjunct1 [OF H] r] H show ?thesis
    using hole_heap [of key ys j] by (simp add: BHEAP_PUSH_def r)
qed

lemma hole_update:
  assumes "is_heap key xs" "i < length xs"
  shows "hole key (xs[i := v]) i"
proof -
  have H: "key (xs ! par j) \<le> key (xs ! j)" if "j < length xs" "0 < j" for j
    using assms(1) that by (simp add: is_heap_def)
  have G: "key (xs[i := v] ! par i) \<le> key (xs[i := v] ! j)" if j: "j < length xs" "0 < j" "par j = i" "0 < i" for j
  proof -
    have "j \<noteq> i" "par i \<noteq> i" using par_less [OF j(2)] par_less [OF j(4)] j(3) by simp_all
    moreover have "key (xs ! par i) \<le> key (xs ! i)" "key (xs ! i) \<le> key (xs ! j)"
      using H [OF assms(2) j(4)] H [OF j(1,2)] unfolding j(3) by simp_all
    ultimately show ?thesis by simp
  qed
  have "key (xs[i := v] ! par j) \<le> key (xs[i := v] ! j)" if "j < length xs" "0 < j" "j \<noteq> i" "par j \<noteq> i" for j
    using H [OF that(1,2)] that by simp
  then show ?thesis unfolding hole_def length_list_update using G assms(2) by blast
qed

lemma mset_pop_last:
  assumes "i < length xs" "xs \<noteq> []"
  shows "mset (if i \<ge> length (butlast xs) then butlast xs else (butlast xs)[i := last xs]) = mset xs - {#xs ! i#}"
proof -
  have x: "xs = butlast xs @ [last xs]" using assms(2) by simp
  show ?thesis
  proof (cases "i < length (butlast xs)")
    case True
    then have "xs ! i = butlast xs ! i" by (simp add: nth_butlast)
    moreover have "mset xs = add_mset (last xs) (mset (butlast xs))"
      by (subst x) simp
    ultimately show ?thesis using True by (simp add: mset_update)
  next
    case False
    then have i: "i = length xs - 1" using assms(1) by simp
    then have "xs ! i = last xs" using assms(2) by (simp add: last_conv_nth)
    moreover have "mset xs = add_mset (last xs) (mset (butlast xs))" by (subst x) simp
    ultimately show ?thesis using False by simp
  qed
qed

lemma is_heap_butlast: "is_heap key xs \<Longrightarrow> is_heap key (butlast xs)"
proof -
  assume h: "is_heap key xs"
  have "key (butlast xs ! par j) \<le> key (butlast xs ! j)" if j: "j < length (butlast xs)" "0 < j" for j
  proof -
    have "par j < length (butlast xs)" using par_less [OF j(2)] j(1) by simp
    then have "butlast xs ! par j = xs ! par j" "butlast xs ! j = xs ! j"
      using j(1) by (simp_all only: nth_butlast)
    then show ?thesis using h j by (simp add: is_heap_def)
  qed
  then show ?thesis by (simp add: is_heap_def)
qed

lemma BHEAP_POPINDEX_correct:
  assumes a: "agrees cmp key (set xs)" and h: "is_heap key xs" and i: "i < length xs"
  shows "is_heap key (BHEAP_POPINDEX cmp xs i) \<and> mset (BHEAP_POPINDEX cmp xs i) = mset xs - {#xs ! i#}"
proof -
  have ne: "xs \<noteq> []" using i by auto
  have bl: "is_heap key (butlast xs)" by (rule is_heap_butlast [OF h])
  note M = mset_pop_last [OF i ne]
  show ?thesis
  proof (cases "i \<ge> length (butlast xs)")
    case True
    then show ?thesis using M bl by (simp add: BHEAP_POPINDEX_def VECTOR_POP_def)
  next
    case False
    let ?ys = "(butlast xs)[i := last xs]"
    have "set ?ys \<subseteq> insert (last xs) (set (butlast xs))" by (rule set_update_subset_insert)
    also have "\<dots> \<subseteq> set xs" using ne in_set_butlastD by fastforce
    finally have "set ?ys \<subseteq> set xs" .
    then have a': "agrees cmp key (set ?ys)" by (rule agrees_subset [OF a])
    have ho: "hole key ?ys i" using hole_update [OF bl] False by simp
    obtain zs j where r: "heap_parents cmp ?ys i = (zs, j)" by fastforce
    note P = heap_parents_hole [OF a' ho r]
    have "set zs = set ?ys" using P by (metis set_mset_mset)
    then have "agrees cmp key (set zs)" using a' by simp
    note C = heap_childs_heap [OF this, of j]
    show ?thesis using False M P C by (simp add: BHEAP_POPINDEX_def VECTOR_POP_def r)
  qed
qed

section \<open>The A* variants\<close>

text \<open>\<open>anc s i\<close>: climbing from \<open>i\<close> reaches \<open>s\<close>.\<close>

function anc :: "nat \<Rightarrow> nat \<Rightarrow> bool" where
  "anc s i = (if i \<le> s then i = s else anc s (par i))"
  by pat_completeness auto
termination by (relation "measure (\<lambda>(s, i). i)") (auto simp: par_less)

declare anc.simps [simp del]

lemma anc_le: "anc s i \<Longrightarrow> s \<le> i"
  by (induction s i rule: anc.induct) (metis anc.simps nat_le_linear)

lemma anc_refl: "anc s s"
  by (simp add: anc.simps)

lemma anc_child:
  assumes "anc s (par c)" "0 < c"
  shows "anc s c"
proof -
  have "s < c" using anc_le [OF assms(1)] par_less [OF assms(2)] by simp
  then show ?thesis using assms(1) by (subst anc.simps) simp
qed

lemma BHEAP_SIFTDOWN_start:
  assumes "agrees cmp key (set xs)" "hole key xs i" "below key xs i" "anc s i"
    "0 < s \<longrightarrow> key (xs ! par s) \<le> key (xs ! i)"
  shows "mset (BHEAP_SIFTDOWN cmp xs s i) = mset xs \<and> is_heap key (BHEAP_SIFTDOWN cmp xs s i)"
  using assms
proof (induction cmp xs s i rule: BHEAP_SIFTDOWN.induct)
  case (1 cmp xs s i)
  note eq = BHEAP_SIFTDOWN.simps [of cmp xs s i, unfolded Let_def]
  show ?case
  proof (cases "i \<le> s")
    case True
    then have "i = s" using anc_le [OF 1(5)] by simp
    then have "above key xs i" using 1(6) by (simp add: above_def)
    then have "is_heap key xs" by (rule hole_heap [OF 1(3) _ 1(4)])
    then show ?thesis unfolding eq if_P [OF True] by simp
  next
    case False
    then have i: "0 < i" by simp
    have len: "i < length xs" "par i < length xs" using hole_len [OF 1(3)] par_less [OF i] by auto
    note A = agreesD(2) [OF 1(2) len(2,1)]
    show ?thesis
    proof (cases "cmp (xs ! par i) (xs ! i) \<le> 0")
      case True
      then have "above key xs i" using A by (simp add: above_def)
      then have "is_heap key xs" by (rule hole_heap [OF 1(3) _ 1(4)])
      then show ?thesis unfolding eq if_not_P [OF False] if_P [OF True] by simp
    next
      case nb: False
      then have le: "key (xs ! i) \<le> key (xs ! par i)" using A by simp
      note U = hole_up [OF 1(3) i le]
      let ?ys = "heap_swap xs (par i) i"
      have an: "anc s (par i)" using 1(5) False by (subst (asm) anc.simps) simp
      have st: "0 < s \<longrightarrow> key (?ys ! par s) \<le> key (?ys ! par i)"
      proof
        assume s: "0 < s"
        have "par s < s" by (rule par_less [OF s])
        then have "par s \<noteq> par i" "par s \<noteq> i" using anc_le [OF an] par_less [OF i] by auto
        then show "key (?ys ! par s) \<le> key (?ys ! par i)"
          using 1(6) s len by (simp add: heap_swap_nth)
      qed
      have "mset (BHEAP_SIFTDOWN cmp ?ys s (par i)) = mset ?ys \<and> is_heap key (BHEAP_SIFTDOWN cmp ?ys s (par i))"
        by (rule 1(1) [OF False refl nb agrees_swap [OF 1(2) len(2,1)] U(1,2) an st])
      then show ?thesis
        unfolding eq if_not_P [OF False] if_not_P [OF nb] heap_swap_mset [OF len(2,1)] .
    qed
  qed
qed

lemma heap_descend_leaf:
  assumes "agrees cmp key (set xs)" "hole key xs i" "anc s i" "heap_descend cmp xs i = (ys, j)"
  shows "mset ys = mset xs \<and> hole key ys j \<and> below key ys j \<and> anc s j \<and> ys ! j = xs ! i
    \<and> (0 < s \<longrightarrow> ys ! par s = xs ! par s)"
  using assms
proof (induction cmp xs i rule: heap_descend.induct)
  case (1 cmp xs i)
  let ?l = "i * 2 + 1" and ?r = "i * 2 + 2"
  have len: "i < length xs" by (rule hole_len [OF 1(4)])
  have pl: "par ?l = i" "par ?r = i" by (simp_all add: par_def)
  have child: "k = ?l \<or> k = ?r" if "0 < k" "par k = i" for k using par_children that by blast
  note eq = heap_descend.simps [of cmp xs i, unfolded Let_def]
  have step: "mset ys = mset xs \<and> hole key ys j \<and> below key ys j \<and> anc s j \<and> ys ! j = xs ! i
      \<and> (0 < s \<longrightarrow> ys ! par s = xs ! par s)"
    if IH: "agrees cmp key (set (heap_swap xs i c)) \<Longrightarrow> hole key (heap_swap xs i c) c \<Longrightarrow>
        anc s c \<Longrightarrow> heap_descend cmp (heap_swap xs i c) c = (ys, j) \<Longrightarrow>
        mset ys = mset (heap_swap xs i c) \<and> hole key ys j \<and> below key ys j \<and> anc s j
        \<and> ys ! j = heap_swap xs i c ! c \<and> (0 < s \<longrightarrow> ys ! par s = heap_swap xs i c ! par s)"
      and c: "c < length xs" "0 < c" "par c = i"
      and sm: "\<And>k. k < length xs \<Longrightarrow> 0 < k \<Longrightarrow> par k = i \<Longrightarrow> key (xs ! c) \<le> key (xs ! k)"
      and r: "heap_descend cmp (heap_swap xs i c) c = (ys, j)" for c
  proof -
    have "hole key (heap_swap xs i c) c" by (rule hole_down(1) [OF 1(4) c]) (rule sm)
    moreover have "anc s c" using anc_child [of s c] 1(5) c by simp
    ultimately have I: "mset ys = mset (heap_swap xs i c) \<and> hole key ys j \<and> below key ys j \<and> anc s j
        \<and> ys ! j = heap_swap xs i c ! c \<and> (0 < s \<longrightarrow> ys ! par s = heap_swap xs i c ! par s)"
      using IH [OF agrees_swap [OF 1(3) len c(1)]] r by blast
    have ic: "i < c" using par_less [OF c(2)] c(3) by simp
    have p: "heap_swap xs i c ! par s = xs ! par s" if "0 < s"
      using par_less [OF that] anc_le [OF 1(5)] ic len c(1) by (simp add: heap_swap_nth)
    have v: "heap_swap xs i c ! c = xs ! i" using ic len c(1) by (simp add: heap_swap_nth)
    show ?thesis using I p unfolding v heap_swap_mset [OF len c(1)] by metis
  qed
  show ?case
  proof (cases "?l < length xs")
    case False
    then have "ys = xs" "j = i" using 1(6) unfolding eq if_not_P [OF False] by simp_all
    moreover have "below key xs i"
      unfolding below_def
    proof (intro allI impI)
      fix k assume k: "k < length xs" "0 < k" "par k = i"
      then show "key (xs ! i) \<le> key (xs ! k)" using child [OF k(2,3)] False by (elim disjE) simp_all
    qed
    ultimately show ?thesis using 1(4,5) by simp
  next
    case ll: True
    show ?thesis
    proof (cases "?r \<ge> length xs \<or> cmp (xs ! ?l) (xs ! ?r) < 0")
      case True
      have sm: "key (xs ! ?l) \<le> key (xs ! k)" if k: "k < length xs" "0 < k" "par k = i" for k
        using child [OF k(2,3)] True k(1) agreesD(1) [OF 1(3) ll] by force
      have r: "heap_descend cmp (heap_swap xs i ?l) ?l = (ys, j)"
        using 1(6) unfolding eq if_P [OF ll] if_P [OF True] .
      show ?thesis by (rule step [OF 1(1) [OF refl refl ll True] ll _ pl(1) sm r]) simp_all
    next
      case nl: False
      then have rr: "?r < length xs" by simp
      have "key (xs ! ?r) \<le> key (xs ! ?l)" using nl agreesD(1) [OF 1(3) ll rr] by simp
      then have sm: "key (xs ! ?r) \<le> key (xs ! k)" if k: "k < length xs" "0 < k" "par k = i" for k
        using child [OF k(2,3)] by auto
      have r: "heap_descend cmp (heap_swap xs i ?r) ?r = (ys, j)"
        using 1(6) unfolding eq if_P [OF ll] if_not_P [OF nl] .
      show ?thesis by (rule step [OF 1(2) [OF refl refl ll nl] rr _ pl(2) sm r]) simp_all
    qed
  qed
qed

lemma BHEAP_SIFTUP_correct:
  assumes "agrees cmp key (set xs)" "hole key xs i" "above key xs i"
  shows "mset (BHEAP_SIFTUP cmp xs i) = mset xs \<and> is_heap key (BHEAP_SIFTUP cmp xs i)"
proof -
  obtain ys j where r: "heap_descend cmp xs i = (ys, j)" by fastforce
  note D = heap_descend_leaf [OF assms(1,2) anc_refl r]
  have "set ys = set xs" using D by (metis set_mset_mset)
  then have a: "agrees cmp key (set ys)" using assms(1) by simp
  have "0 < i \<longrightarrow> key (ys ! par i) \<le> key (ys ! j)" using D assms(3) by (simp add: above_def)
  then show ?thesis
    using BHEAP_SIFTDOWN_start [OF a, of j i] D by (simp add: BHEAP_SIFTUP_def r)
qed

lemma BHEAP_PUSH2_correct:
  assumes "agrees cmp key (insert v (set xs))" "is_heap key xs"
  shows "is_heap key (BHEAP_PUSH2 cmp xs v) \<and> mset (BHEAP_PUSH2 cmp xs v) = add_mset v (mset xs)"
proof -
  have a: "agrees cmp key (set (xs @ [v]))" using assms(1) by simp
  note H = is_heap_snoc [OF assms(2), of v]
  show ?thesis using BHEAP_SIFTDOWN_root [OF a conjunct1 [OF H]] H by (simp add: BHEAP_PUSH2_def)
qed

lemma BHEAP_POP2_correct:
  assumes "agrees cmp key (set xs)" "is_heap key xs" "xs \<noteq> []"
  shows "is_heap key (BHEAP_POP2 cmp xs) \<and> mset (BHEAP_POP2 cmp xs) = mset xs - {#xs ! 0#}"
proof -
  have M: "mset (if 0 \<ge> length (butlast xs) then butlast xs else (butlast xs)[0 := last xs]) = mset xs - {#xs ! 0#}"
    by (rule mset_pop_last) (use assms(3) in auto)
  show ?thesis
  proof (cases "butlast xs = []")
    case True
    then show ?thesis using M by (simp add: BHEAP_POP2_def VECTOR_POP_def is_heap_def)
  next
    case False
    let ?ys = "(butlast xs)[0 := last xs]"
    have "set ?ys \<subseteq> insert (last xs) (set (butlast xs))" by (rule set_update_subset_insert)
    also have "\<dots> \<subseteq> set xs" using assms(3) in_set_butlastD by fastforce
    finally have a: "agrees cmp key (set ?ys)" by (rule agrees_subset [OF assms(1)])
    have "0 < length (butlast xs)" using False by blast
    then have h: "hole key ?ys 0" by (rule hole_update [OF is_heap_butlast [OF assms(2)]])
    have ab: "above key ?ys 0" by (simp add: above_def)
    have "\<not> length (butlast xs) \<le> 0" unfolding le_zero_eq length_0_conv by (rule False)
    then have M': "mset ?ys = mset xs - {#xs ! 0#}" using M by (simp only: if_False)
    have "BHEAP_POP2 cmp xs = BHEAP_SIFTUP cmp ?ys 0"
      using False by (simp add: BHEAP_POP2_def VECTOR_POP_def)
    then show ?thesis using BHEAP_SIFTUP_correct [OF a h ab] M' by simp
  qed
qed

text \<open>After the value at \<open>i\<close> has changed in any direction, BHEAP\_UPDATE restores the order.\<close>

lemma BHEAP_UPDATE_correct:
  assumes "agrees cmp key (set xs)" "hole key xs i"
  shows "is_heap key (BHEAP_UPDATE cmp xs i) \<and> mset (BHEAP_UPDATE cmp xs i) = mset xs"
proof -
  let ?ys = "BHEAP_SIFTDOWN cmp xs 0 i"
  note R = BHEAP_SIFTDOWN_root [OF assms]
  have "set ?ys = set xs" "length ?ys = length xs"
    using R mset_eq_setD [of ?ys xs] mset_eq_length [of ?ys xs] by blast+
  then have a: "agrees cmp key (set ?ys)" and l: "i < length ?ys"
    using assms(1) hole_len [OF assms(2)] by simp_all
  have "hole key ?ys i \<and> above key ?ys i"
    using R is_heap_hole(1,2) [OF _ l] assms(2) by metis
  then show ?thesis using BHEAP_SIFTUP_correct [OF a] R by (simp add: BHEAP_UPDATE_def)
qed

section \<open>Priority queues\<close>

text \<open>
  What a client of the heap may rely on: a queue is well formed with respect to
  a set of values, insertion adds a value, and on a non-empty queue the top is
  minimal and removing it removes exactly it.
\<close>

locale priority_queue =
  fixes key :: "'a \<Rightarrow> int"
    and ok :: "'q \<Rightarrow> bool"
    and elems :: "'q \<Rightarrow> 'a multiset"
    and insert_pq :: "'q \<Rightarrow> 'a \<Rightarrow> 'q"
    and top :: "'q \<Rightarrow> 'a"
    and pop :: "'q \<Rightarrow> 'q"
    and val :: "'a \<Rightarrow> bool"
  assumes insert_ok: "ok q \<Longrightarrow> val v \<Longrightarrow> ok (insert_pq q v) \<and> elems (insert_pq q v) = add_mset v (elems q)"
    and top_min: "ok q \<Longrightarrow> elems q \<noteq> {#} \<Longrightarrow> top q \<in># elems q \<and> (\<forall>x \<in># elems q. key (top q) \<le> key x)"
    and pop_ok: "ok q \<Longrightarrow> elems q \<noteq> {#} \<Longrightarrow> ok (pop q) \<and> elems (pop q) = elems q - {#top q#}"
begin

lemma size_pop: "ok q \<Longrightarrow> elems q \<noteq> {#} \<Longrightarrow> Suc (size (elems (pop q))) = size (elems q)"
  using pop_ok top_min by (metis insert_DiffM size_add_mset)

lemma next_top:
  assumes "ok q" "elems q \<noteq> {#}" "elems (pop q) \<noteq> {#}"
  shows "key (top q) \<le> key (top (pop q))"
  using pop_ok [OF assms(1,2)] top_min [of "pop q"] top_min [OF assms(1,2)] assms(3)
  by (metis in_diffD)

end

text \<open>Emptying a queue from the top.\<close>

fun drain :: "('q \<Rightarrow> 'a) \<Rightarrow> ('q \<Rightarrow> 'q) \<Rightarrow> nat \<Rightarrow> 'q \<Rightarrow> 'a list" where
  "drain t p 0 q = []"
| "drain t p (Suc n) q = t q # drain t p n (p q)"

context priority_queue begin

lemma drain_sorted:
  assumes "ok q" "n = size (elems q)"
  shows "mset (drain top pop n q) = elems q \<and> sorted (map key (drain top pop n q))"
  using assms
proof (induction n arbitrary: q)
  case 0
  then show ?case by simp
next
  case (Suc n)
  then have ne: "elems q \<noteq> {#}" by auto
  note P = pop_ok [OF Suc.prems(1) ne] and T = top_min [OF Suc.prems(1) ne]
  have n: "n = size (elems (pop q))" using Suc.prems(2) size_pop [OF Suc.prems(1) ne] by simp
  have I: "mset (drain top pop n (pop q)) = elems (pop q) \<and> sorted (map key (drain top pop n (pop q)))"
    by (rule Suc.IH [OF _ n]) (use P in blast)
  have "key (top q) \<le> key x" if "x \<in> set (drain top pop n (pop q))" for x
  proof -
    have "x \<in># elems (pop q)" using that I by (metis set_mset_mset)
    then show ?thesis using P T by (metis in_diffD)
  qed
  then show ?case using I P T by simp
qed

end

text \<open>Both flavours of the heap implement it, for a comparator that agrees with the keys of \<open>S\<close>.\<close>

definition heap_ok :: "('a \<Rightarrow> 'a \<Rightarrow> int) \<Rightarrow> ('a \<Rightarrow> int) \<Rightarrow> 'a set \<Rightarrow> 'a list \<Rightarrow> bool" where
  "heap_ok cmp key S xs \<longleftrightarrow> agrees cmp key S \<and> set xs \<subseteq> S \<and> is_heap key xs"

lemma heap_top:
  assumes "is_heap key xs" "mset xs \<noteq> {#}"
  shows "BHEAP_PEEK xs \<in># mset xs \<and> (\<forall>x \<in># mset xs. key (BHEAP_PEEK xs) \<le> key x)"
proof -
  have "key (xs ! 0) \<le> key x" if x: "x \<in> set xs" for x
  proof -
    obtain j where "j < length xs" "x = xs ! j" using x by (auto simp: in_set_conv_nth)
    then show ?thesis using is_heap_top [OF assms(1)] by simp
  qed
  moreover have "xs \<noteq> []" using assms(2) by simp
  ultimately show ?thesis by (simp add: BHEAP_PEEK_def)
qed

lemma mset_sub: "mset ys = mset xs - M \<Longrightarrow> set xs \<subseteq> S \<Longrightarrow> set ys \<subseteq> S"
  by (metis in_diffD set_mset_mset subset_iff)

lemma mset_add_sub: "mset ys = add_mset v (mset xs) \<Longrightarrow> v \<in> S \<Longrightarrow> set xs \<subseteq> S \<Longrightarrow> set ys \<subseteq> S"
  by (metis insert_subset set_mset_add_mset_insert set_mset_mset)

interpretation bheap: priority_queue key "heap_ok cmp key S" mset "BHEAP_PUSH cmp" BHEAP_PEEK "BHEAP_POP cmp"
  "\<lambda>v. v \<in> S" for key :: "'a \<Rightarrow> int" and cmp S
proof (unfold_locales, goal_cases)
  case (1 q v)
  then have "agrees cmp key (insert v (set q))" by (auto simp: heap_ok_def intro: agrees_subset)
  then have c: "is_heap key (BHEAP_PUSH cmp q v)" "mset (BHEAP_PUSH cmp q v) = add_mset v (mset q)"
    using BHEAP_PUSH_correct [of cmp key v q] 1(1) by (simp_all add: heap_ok_def)
  then show ?case using 1 mset_add_sub [OF c(2)] by (simp add: heap_ok_def)
next
  case (2 q)
  then show ?case using heap_top [of key q] by (simp add: heap_ok_def)
next
  case (3 q)
  then have "agrees cmp key (set q)" "0 < length q" by (auto simp: heap_ok_def intro: agrees_subset)
  with 3 show ?case
    using BHEAP_POPINDEX_correct [of cmp key q 0] mset_sub [of "BHEAP_POP cmp q" q]
    by (auto simp: heap_ok_def BHEAP_POP_def BHEAP_PEEK_def)
qed

interpretation bheap2: priority_queue key "heap_ok cmp key S" mset "BHEAP_PUSH2 cmp" BHEAP_PEEK "BHEAP_POP2 cmp"
  "\<lambda>v. v \<in> S" for key :: "'a \<Rightarrow> int" and cmp S
proof (unfold_locales, goal_cases)
  case (1 q v)
  then have "agrees cmp key (insert v (set q))" by (auto simp: heap_ok_def intro: agrees_subset)
  then have c: "is_heap key (BHEAP_PUSH2 cmp q v)" "mset (BHEAP_PUSH2 cmp q v) = add_mset v (mset q)"
    using BHEAP_PUSH2_correct [of cmp key v q] 1(1) by (simp_all add: heap_ok_def)
  then show ?case using 1 mset_add_sub [OF c(2)] by (simp add: heap_ok_def)
next
  case (2 q)
  then show ?case using heap_top [of key q] by (simp add: heap_ok_def)
next
  case (3 q)
  then have "agrees cmp key (set q)" "q \<noteq> []" by (auto simp: heap_ok_def intro: agrees_subset)
  with 3 show ?case
    using BHEAP_POP2_correct [of cmp key q] mset_sub [of "BHEAP_POP2 cmp q" q]
    by (auto simp: heap_ok_def BHEAP_PEEK_def)
qed

section \<open>Sorting with the heaps\<close>

lemma foldl_push:
  assumes "agrees cmp key S" "set xs \<subseteq> S" "heap_ok cmp key S q"
  shows "heap_ok cmp key S (foldl (BHEAP_PUSH cmp) q xs) \<and> mset (foldl (BHEAP_PUSH cmp) q xs) = mset q + mset xs"
  using assms(2,3)
proof (induction xs arbitrary: q)
  case (Cons x xs)
  then show ?case using bheap.insert_ok [OF Cons.prems(2), of x] by simp
qed simp

lemma foldl_push2:
  assumes "agrees cmp key S" "set xs \<subseteq> S" "heap_ok cmp key S q"
  shows "heap_ok cmp key S (foldl (BHEAP_PUSH2 cmp) q xs) \<and> mset (foldl (BHEAP_PUSH2 cmp) q xs) = mset q + mset xs"
  using assms(2,3)
proof (induction xs arbitrary: q)
  case (Cons x xs)
  then show ?case using bheap2.insert_ok [OF Cons.prems(2), of x] by simp
qed simp

lemma heap_ok_empty: "agrees cmp key S \<Longrightarrow> heap_ok cmp key S []"
  by (simp add: heap_ok_def is_heap_def)

text \<open>
  C14. Pushing values one by one and taking the top until the heap is empty yields
  the values in the order of their keys, for every comparator that agrees in
  sign with a key.
\<close>

theorem heap_sorts:
  assumes "agrees cmp key (set xs)"
  shows "mset (drain BHEAP_PEEK (BHEAP_POP cmp) (length xs) (foldl (BHEAP_PUSH cmp) [] xs)) = mset xs
    \<and> sorted (map key (drain BHEAP_PEEK (BHEAP_POP cmp) (length xs) (foldl (BHEAP_PUSH cmp) [] xs)))"
proof -
  note P = foldl_push [OF assms subset_refl heap_ok_empty [OF assms]]
  then have m: "mset (foldl (BHEAP_PUSH cmp) [] xs) = mset xs" by simp
  show ?thesis using bheap.drain_sorted [OF conjunct1 [OF P], of "length xs"] by (simp add: m)
qed

lemma MINTOPCMP_agrees: "agrees BHEAP_MINTOPCMP id S"
  by (simp add: agrees_def BHEAP_MINTOPCMP_def)

theorem heap_sorts_witness:
  "mset (drain BHEAP_PEEK (BHEAP_POP BHEAP_MINTOPCMP) (length [5::int, 2, 9, 2]) (foldl (BHEAP_PUSH BHEAP_MINTOPCMP) [] [5::int, 2, 9, 2]))
     = mset [5::int, 2, 9, 2]
   \<and> sorted (map id (drain BHEAP_PEEK (BHEAP_POP BHEAP_MINTOPCMP) (length [5::int, 2, 9, 2])
       (foldl (BHEAP_PUSH BHEAP_MINTOPCMP) [] [5::int, 2, 9, 2])))"
  by (rule heap_sorts [OF MINTOPCMP_agrees])

text \<open>
  C15. The heap of the path search, which sifts in another way, yields the same
  keys in the same order as the heap of the timers.
\<close>

theorem heap_variants_agree:
  assumes "agrees cmp key (set xs)"
  shows "map key (drain BHEAP_PEEK (BHEAP_POP2 cmp) (length xs) (foldl (BHEAP_PUSH2 cmp) [] xs))
    = map key (drain BHEAP_PEEK (BHEAP_POP cmp) (length xs) (foldl (BHEAP_PUSH cmp) [] xs))"
    (is "map key ?a = map key ?b")
proof -
  note P = foldl_push [OF assms subset_refl heap_ok_empty [OF assms]]
    and Q = foldl_push2 [OF assms subset_refl heap_ok_empty [OF assms]]
  have "mset ?b = mset xs \<and> sorted (map key ?b)"
    using bheap.drain_sorted [OF conjunct1 [OF P], of "length xs"] conjunct2 [OF P] by simp
  moreover have "mset ?a = mset xs \<and> sorted (map key ?a)"
    using bheap2.drain_sorted [OF conjunct1 [OF Q], of "length xs"] conjunct2 [OF Q] by simp
  ultimately have "mset (map key ?a) = mset (map key ?b)" "sorted (map key ?a)" "sorted (map key ?b)"
    by simp_all
  then show ?thesis by (metis properties_for_sort sorted_sort_id)
qed

theorem heap_variants_agree_witness:
  "map id (drain BHEAP_PEEK (BHEAP_POP2 BHEAP_MINTOPCMP) (length [5::int, 2, 9, 2]) (foldl (BHEAP_PUSH2 BHEAP_MINTOPCMP) [] [5::int, 2, 9, 2]))
   = map id (drain BHEAP_PEEK (BHEAP_POP BHEAP_MINTOPCMP) (length [5::int, 2, 9, 2]) (foldl (BHEAP_PUSH BHEAP_MINTOPCMP) [] [5::int, 2, 9, 2]))"
  by (rule heap_variants_agree [OF MINTOPCMP_agrees])

end
