(* ===== verification/Timer.thy ===== *)
theory Timer
  imports Bheap
begin

text \<open>
  The timer queue of common/timer.cpp. Timer data sit in an array indexed by
  timer id, ids of free timers on a stack, and the ids of running timers in a
  binary heap ordered by expiry. Ticks are unsigned 32-bit values that wrap
  around, compared by the sign of their difference. A timer function is a number;
  what it does is given by the argument \<open>cb\<close>: from its parameters, the rest
  of the program's state \<open>w\<close> (of any type) and the timer queue, it determines
  the calls of this module that it makes, in order, and the new \<open>w\<close>.
\<close>

section \<open>State\<close>

record timer_data =
  t_tick :: int
  t_func :: "nat option"
  t_type :: nat
  t_interval :: int
  t_id :: int
  t_data :: int

text \<open>
  \<open>timer_data_max\<close> is the length of the array; the top of the free stack is
  the head of \<open>free_list\<close>.
\<close>

record timers =
  tdata :: "timer_data list"
  timer_data_num :: nat
  free_list :: "nat list"
  timer_heap :: "nat list"

definition zero_timer :: timer_data where
  "zero_timer = \<lparr>t_tick = 0, t_func = None, t_type = 0, t_interval = 0, t_id = 0, t_data = 0\<rparr>"

definition no_timers :: timers where
  "no_timers = \<lparr>tdata = [], timer_data_num = 0, free_list = [], timer_heap = []\<rparr>"

definition TIMER_ONCE_AUTODEL :: nat where "TIMER_ONCE_AUTODEL = 1"
definition TIMER_INTERVAL :: nat where "TIMER_INTERVAL = 2"
definition REMOVE_HEAP_BIT :: nat where "REMOVE_HEAP_BIT = 4"
definition TIMER_MIN_INTERVAL :: int where "TIMER_MIN_INTERVAL = 20"
definition TIMER_MAX_INTERVAL :: int where "TIMER_MAX_INTERVAL = 1000"

definition DIFF_TICK :: "int \<Rightarrow> int \<Rightarrow> int" where
  "DIFF_TICK a b = s32 (a - b)"

definition DIFFTICK_MINTOPCMP :: "timer_data list \<Rightarrow> nat \<Rightarrow> nat \<Rightarrow> int" where
  "DIFFTICK_MINTOPCMP ts tid1 tid2 = DIFF_TICK (t_tick (ts ! tid1)) (t_tick (ts ! tid2))"

section \<open>Operations\<close>

definition push_timer_heap :: "nat \<Rightarrow> timers \<Rightarrow> timers" where
  "push_timer_heap tid s = s\<lparr>timer_heap := BHEAP_PUSH (DIFFTICK_MINTOPCMP (tdata s)) (timer_heap s) tid\<rparr>"

text \<open>The do-while loop that takes ids from a non-empty free stack.\<close>

fun pop_free :: "nat \<Rightarrow> nat list \<Rightarrow> nat \<times> nat list" where
  "pop_free num [] = (num, [])"
| "pop_free num (t # ts) = (if t \<ge> num \<and> ts \<noteq> [] then pop_free num ts else (t, ts))"

definition acquire_timer :: "timers \<Rightarrow> nat \<times> timers" where
  "acquire_timer s =
     (let num = timer_data_num s;
          (tid, rest) = pop_free num (free_list s);
          tid = (if tid \<ge> num
                 then num + arr_find (\<lambda>t. t_type t = 0) (drop num (tdata s)) else tid);
          ts = (if tid \<ge> num \<and> tid \<ge> length (tdata s)
                then tdata s @ replicate 256 zero_timer else tdata s)
      in (tid, s\<lparr>tdata := ts, free_list := rest,
                 timer_data_num := (if tid \<ge> num then tid + 1 else num)\<rparr>))"

definition set_timer :: "nat \<Rightarrow> timer_data \<Rightarrow> timers \<Rightarrow> timers" where
  "set_timer tid t s = s\<lparr>tdata := (tdata s)[tid := t]\<rparr>"

definition add_timer :: "timers \<Rightarrow> int \<Rightarrow> nat option \<Rightarrow> int \<Rightarrow> int \<Rightarrow> nat \<times> timers" where
  "add_timer s tick func i dat =
     (case acquire_timer s of (tid, s) \<Rightarrow>
        (tid, push_timer_heap tid (set_timer tid
           \<lparr>t_tick = u32 tick, t_func = func, t_type = TIMER_ONCE_AUTODEL, t_interval = 1000,
            t_id = i, t_data = dat\<rparr> s)))"

text \<open>None is the failure value INVALID\_TIMER.\<close>

definition add_timer_interval ::
    "timers \<Rightarrow> int \<Rightarrow> nat option \<Rightarrow> int \<Rightarrow> int \<Rightarrow> int \<Rightarrow> nat option \<times> timers" where
  "add_timer_interval s tick func i dat interval =
     (if interval < 1 then (None, s)
      else case acquire_timer s of (tid, s) \<Rightarrow>
        (Some tid, push_timer_heap tid (set_timer tid
           \<lparr>t_tick = u32 tick, t_func = func, t_type = TIMER_INTERVAL, t_interval = interval,
            t_id = i, t_data = dat\<rparr> s)))"

definition get_timer :: "timers \<Rightarrow> int \<Rightarrow> timer_data option" where
  "get_timer s tid = (if tid \<ge> 0 \<and> tid < int (timer_data_num s) then Some (tdata s ! nat tid) else None)"

definition delete_timer :: "timers \<Rightarrow> int \<Rightarrow> nat option \<Rightarrow> int \<times> timers" where
  "delete_timer s tid func =
     (if tid < 0 \<or> tid \<ge> int (timer_data_num s) then (-1, s)
      else if t_func (tdata s ! nat tid) \<noteq> func then (-2, s)
      else (0, set_timer (nat tid) ((tdata s ! nat tid)
                 \<lparr>t_func := None, t_type := TIMER_ONCE_AUTODEL\<rparr>) s))"

text \<open>A tick whose int value would read as the error code -1 becomes 0.\<close>

definition settick_timer :: "timers \<Rightarrow> int \<Rightarrow> int \<Rightarrow> int \<times> timers" where
  "settick_timer s tid tick0 =
     (let i = arr_find (\<lambda>t. int t = tid) (timer_heap s)
      in if i = length (timer_heap s) then (-1, s)
         else
           let tick = (if s32 tick0 = -1 then 0 else u32 tick0);
               n = nat tid
           in if t_tick (tdata s ! n) = tick then (s32 tick, s)
              else
                let s = s\<lparr>timer_heap := BHEAP_POPINDEX (DIFFTICK_MINTOPCMP (tdata s)) (timer_heap s) i\<rparr>;
                    s = set_timer n ((tdata s ! n)\<lparr>t_tick := tick\<rparr>) s
                in (s32 tick, push_timer_heap n s))"

text \<open>
  The code reads the entry before \<open>settick_timer\<close> looks the id up; for an id
  that is not in use the sum is irrelevant, the answer is -1.
\<close>

definition addtick_timer :: "timers \<Rightarrow> int \<Rightarrow> int \<Rightarrow> int \<times> timers" where
  "addtick_timer s tid tick = settick_timer s tid (u32 (t_tick (tdata s ! nat tid) + tick))"

section \<open>Running expired timers\<close>

datatype timer_op =
  Op_Add int "nat option" int int
| Op_Add_Interval int "nat option" int int int
| Op_Delete int "nat option"
| Op_Settick int int
| Op_Addtick int int

fun apply_op :: "timer_op \<Rightarrow> timers \<Rightarrow> timers" where
  "apply_op (Op_Add tick f i d) s = snd (add_timer s tick f i d)"
| "apply_op (Op_Add_Interval tick f i d n) s = snd (add_timer_interval s tick f i d n)"
| "apply_op (Op_Delete tid f) s = snd (delete_timer s tid f)"
| "apply_op (Op_Settick tid tick) s = snd (settick_timer s tid tick)"
| "apply_op (Op_Addtick tid tick) s = snd (addtick_timer s tid tick)"

text \<open>
  A timer function gets the timer's id, the tick, and the timer's own id and data
  fields. It sees the whole state, so its calls may depend on what earlier calls of
  this module answered.
\<close>

type_synonym 'w timer_funcs = "nat \<Rightarrow> nat \<Rightarrow> int \<Rightarrow> int \<Rightarrow> int \<Rightarrow> 'w \<times> timers \<Rightarrow> timer_op list \<times> 'w"

text \<open>The body of the loop for an expired top timer: call it, then free or restart it.\<close>

definition call_timer :: "'w timer_funcs \<Rightarrow> int \<Rightarrow> int \<Rightarrow> nat \<Rightarrow> 'w \<times> timers \<Rightarrow> 'w \<times> timers" where
  "call_timer cb now diff tid ws =
     (case ws of (w, s) \<Rightarrow>
        case t_func (tdata s ! tid) of
          None \<Rightarrow> (w, s)
        | Some f \<Rightarrow>
            (case cb f tid (if diff < -1000 then now else t_tick (tdata s ! tid))
                    (t_id (tdata s ! tid)) (t_data (tdata s ! tid)) (w, s) of
               (ops, w) \<Rightarrow> (w, fold apply_op ops s)))"

definition retire_timer :: "int \<Rightarrow> nat \<Rightarrow> timers \<Rightarrow> timers" where
  "retire_timer now tid s =
     (let t = tdata s ! tid
      in if bit (t_type t) REMOVE_HEAP_BIT then
           let t = t\<lparr>t_type := unset_bit REMOVE_HEAP_BIT (t_type t)\<rparr>
           in if t_type t = TIMER_INTERVAL
              then push_timer_heap tid (set_timer tid
                     (if DIFF_TICK (t_tick t) now < -1000
                      then t\<lparr>t_tick := u32 (now + t_interval t)\<rparr>
                      else t\<lparr>t_tick := u32 (t_tick t + t_interval t)\<rparr>) s)
              else (set_timer tid (t\<lparr>t_type := 0\<rparr>) s)\<lparr>free_list := tid # free_list s\<rparr>
         else s)"

definition mark_timer :: "nat \<Rightarrow> timers \<Rightarrow> timers" where
  "mark_timer tid s = set_timer tid ((tdata s ! tid)
     \<lparr>t_type := set_bit REMOVE_HEAP_BIT (t_type (tdata s ! tid))\<rparr>) s"

definition pop_timer_heap :: "timers \<Rightarrow> timers" where
  "pop_timer_heap s = s\<lparr>timer_heap := BHEAP_POP (DIFFTICK_MINTOPCMP (tdata s)) (timer_heap s)\<rparr>"

definition expire_timer :: "'w timer_funcs \<Rightarrow> int \<Rightarrow> 'w \<times> timers \<Rightarrow> 'w \<times> timers" where
  "expire_timer cb now ws =
     (case ws of (w, s) \<Rightarrow>
        let tid = BHEAP_PEEK (timer_heap s);
            diff = DIFF_TICK (t_tick (tdata s ! tid)) now;
            s = mark_timer tid (pop_timer_heap s)
        in apsnd (retire_timer now tid) (call_timer cb now diff tid (w, s)))"

text \<open>
  A timer function may keep the loop busy for ever by adding timers that are
  already due, so the loop has fuel; None means that it ran out.
\<close>

fun do_timer_loop :: "'w timer_funcs \<Rightarrow> int \<Rightarrow> nat \<Rightarrow> int \<Rightarrow> 'w \<times> timers \<Rightarrow> (int \<times> 'w \<times> timers) option" where
  "do_timer_loop cb now fuel diff (w, s) =
     (if timer_heap s = [] then Some (diff, w, s)
      else
        let diff = DIFF_TICK (t_tick (tdata s ! BHEAP_PEEK (timer_heap s))) now
        in if diff > 0 then Some (diff, w, s)
           else case fuel of
                  0 \<Rightarrow> None
                | Suc fuel \<Rightarrow> do_timer_loop cb now fuel diff (expire_timer cb now (w, s)))"

declare do_timer_loop.simps [simp del]

definition do_timer :: "'w timer_funcs \<Rightarrow> int \<Rightarrow> nat \<Rightarrow> 'w \<times> timers \<Rightarrow> (int \<times> 'w \<times> timers) option" where
  "do_timer cb now fuel ws =
     (case do_timer_loop cb now fuel TIMER_MAX_INTERVAL ws of
        None \<Rightarrow> None
      | Some (diff, ws) \<Rightarrow> Some (cap_value diff TIMER_MIN_INTERVAL TIMER_MAX_INTERVAL, ws))"

section \<open>Splitting a duration\<close>

text \<open>C's division truncates; the negative parts of a negative duration are cut to 0.\<close>

definition c_div :: "int \<Rightarrow> int \<Rightarrow> int" where
  "c_div a b = (if a < 0 then - ((- a) div b) else a div b)"

definition split_time :: "int \<Rightarrow> int \<times> int \<times> int \<times> int \<times> int \<times> int" where
  "split_time timein =
     (let year = c_div timein 31556926; timein = timein - year * 31556926;
          month = c_div timein 2629743; timein = timein - month * 2629743;
          day = c_div timein 86400; timein = timein - day * 86400;
          hour = c_div timein 3600; timein = timein - hour * 3600;
          minute = c_div timein 60; timein = timein - minute * 60
      in (max 0 year, max 0 month, max 0 day, max 0 hour, max 0 minute, max 0 timein))"

section \<open>Ticks\<close>

text \<open>
  At a reference time, a tick is read as its signed distance from it. The
  comparison of two ticks is sound while both lie within \<open>2 ^ 30\<close> milliseconds
  (twelve days) of that time.
\<close>

definition in_window :: "int \<Rightarrow> bool" where
  "in_window k \<longleftrightarrow> - 1073741824 \<le> k \<and> k < 1073741824"

definition tkey :: "int \<Rightarrow> timer_data list \<Rightarrow> nat \<Rightarrow> int" where
  "tkey now ts i = DIFF_TICK (t_tick (ts ! i)) now"

lemma s32_eqI:
  assumes "4294967296 dvd (x - y)" "- 2147483648 \<le> y" "y < 2147483648"
  shows "s32 x = y"
proof -
  obtain k where k: "x = y + 4294967296 * k" using assms(1) by (auto simp: dvd_def algebra_simps)
  have "(x + 2147483648) mod 4294967296 = (y + 2147483648 + 4294967296 * k) mod 4294967296"
    by (simp add: k add_ac)
  also have "\<dots> = (y + 2147483648) mod 4294967296" by (rule mod_mult_self2)
  finally show ?thesis using assms(2,3) by (simp add: s32_def)
qed

lemma s32_dvd: "4294967296 dvd (x - s32 x)"
  unfolding s32_def by (simp add: mod_eq_dvd_iff [symmetric] mod_simps)

lemma DIFF_TICK_sub:
  assumes "in_window (DIFF_TICK a now)" "in_window (DIFF_TICK b now)"
  shows "DIFF_TICK a b = DIFF_TICK a now - DIFF_TICK b now"
  unfolding DIFF_TICK_def
proof (rule s32_eqI)
  have "4294967296 dvd ((a - now) - s32 (a - now)) - ((b - now) - s32 (b - now))"
    by (rule dvd_diff [OF s32_dvd s32_dvd])
  then show "4294967296 dvd (a - b) - (s32 (a - now) - s32 (b - now))" by (simp add: algebra_simps)
qed (use assms in \<open>auto simp: in_window_def DIFF_TICK_def\<close>)

lemma DIFF_TICK_add:
  assumes "- 2147483648 \<le> DIFF_TICK a now + n" "DIFF_TICK a now + n < 2147483648"
  shows "DIFF_TICK (u32 (a + n)) now = DIFF_TICK a now + n"
  unfolding DIFF_TICK_def
proof (rule s32_eqI)
  have 1: "4294967296 dvd u32 (a + n) - (a + n)"
    unfolding u32_def by (simp add: mod_eq_dvd_iff [symmetric])
  have "4294967296 dvd (u32 (a + n) - (a + n)) + ((a - now) - s32 (a - now))"
    by (rule dvd_add [OF 1 s32_dvd])
  then show "4294967296 dvd u32 (a + n) - now - (s32 (a - now) + n)" by (simp add: algebra_simps)
qed (use assms in \<open>auto simp: DIFF_TICK_def\<close>)

lemma DIFF_TICK_now: "- 2147483648 \<le> n \<Longrightarrow> n < 2147483648 \<Longrightarrow> DIFF_TICK (u32 (now + n)) now = n"
  using DIFF_TICK_add [of now now n] by (simp add: DIFF_TICK_def)

lemma DIFFTICK_agrees:
  "agrees (DIFFTICK_MINTOPCMP ts) (tkey now ts) {i. in_window (tkey now ts i)}"
  unfolding agrees_def
proof (intro ballI)
  fix a b
  assume "a \<in> {i. in_window (tkey now ts i)}" "b \<in> {i. in_window (tkey now ts i)}"
  then have "DIFFTICK_MINTOPCMP ts a b = tkey now ts a - tkey now ts b"
    unfolding DIFFTICK_MINTOPCMP_def tkey_def by (intro DIFF_TICK_sub) simp_all
  then show "(DIFFTICK_MINTOPCMP ts a b < 0 \<longleftrightarrow> tkey now ts a < tkey now ts b)
      \<and> (DIFFTICK_MINTOPCMP ts a b \<le> 0 \<longleftrightarrow> tkey now ts a \<le> tkey now ts b)" by simp
qed

section \<open>The invariant\<close>

definition timers_inv :: "int \<Rightarrow> nat list \<Rightarrow> timers \<Rightarrow> bool" where
  "timers_inv now R s \<longleftrightarrow>
     distinct (timer_heap s @ free_list s @ R)
     \<and> (\<forall>i \<in> set (timer_heap s @ free_list s @ R). i < timer_data_num s)
     \<and> timer_data_num s \<le> length (tdata s)
     \<and> (\<forall>i \<in> set (timer_heap s). in_window (tkey now (tdata s) i))
     \<and> is_heap (tkey now (tdata s)) (timer_heap s)
     \<and> (\<forall>i \<in> set (timer_heap s @ R). 1 \<le> t_interval (tdata s ! i) \<and> t_interval (tdata s ! i) < 1073741824)"

lemma timers_inv_agrees:
  "timers_inv now R s \<Longrightarrow> S \<subseteq> {i. in_window (tkey now (tdata s) i)} \<Longrightarrow>
   agrees (DIFFTICK_MINTOPCMP (tdata s)) (tkey now (tdata s)) S"
  using agrees_subset [OF DIFFTICK_agrees] .

lemma timers_inv_no_timers: "timers_inv now [] no_timers"
  by (simp add: timers_inv_def no_timers_def is_heap_def)

lemma timers_inv_heap_ok:
  "timers_inv now R s \<Longrightarrow>
   heap_ok (DIFFTICK_MINTOPCMP (tdata s)) (tkey now (tdata s)) {i. in_window (tkey now (tdata s) i)} (timer_heap s)"
  by (auto simp: timers_inv_def heap_ok_def DIFFTICK_agrees)

lemma push_timer_heap_heap:
  assumes "timers_inv now R s" "in_window (tkey now (tdata s) tid)"
  shows "mset (timer_heap (push_timer_heap tid s)) = add_mset tid (mset (timer_heap s))"
    "is_heap (tkey now (tdata s)) (timer_heap (push_timer_heap tid s))"
  using bheap.insert_ok [OF timers_inv_heap_ok [OF assms(1)], of tid] assms(2)
  by (simp_all add: push_timer_heap_def heap_ok_def)

lemma push_timer_heap_fields [simp]:
  "tdata (push_timer_heap tid s) = tdata s" "free_list (push_timer_heap tid s) = free_list s"
  "timer_data_num (push_timer_heap tid s) = timer_data_num s"
  by (simp_all add: push_timer_heap_def)

lemma timers_inv_reheap:
  assumes "timers_inv now R s" "mset H + mset R' = mset (timer_heap s) + mset R"
    "\<forall>i \<in> set H. in_window (tkey now (tdata s) i)" "is_heap (tkey now (tdata s)) H"
  shows "timers_inv now R' (s\<lparr>timer_heap := H\<rparr>)"
proof -
  have M: "mset (H @ free_list s @ R') = mset (timer_heap s @ free_list s @ R)" "mset (H @ R') = mset (timer_heap s @ R)"
    using assms(2) by (simp_all add: union_ac)
  have "distinct (H @ free_list s @ R')" using assms(1) mset_eq_imp_distinct_iff [OF M(1)] by (simp add: timers_inv_def)
  moreover have "set (H @ free_list s @ R') = set (timer_heap s @ free_list s @ R)" by (rule mset_eq_setD [OF M(1)])
  moreover have "set (H @ R') = set (timer_heap s @ R)" by (rule mset_eq_setD [OF M(2)])
  ultimately show ?thesis using assms(1,3,4) unfolding timers_inv_def by simp
qed

lemma push_timer_heap_inv:
  assumes "timers_inv now (tid # R) s" "in_window (tkey now (tdata s) tid)"
  shows "timers_inv now R (push_timer_heap tid s)"
proof -
  note H = push_timer_heap_heap [OF assms]
  have "set (timer_heap (push_timer_heap tid s)) = insert tid (set (timer_heap s))"
    using H(1) by (metis set_mset_add_mset_insert set_mset_mset)
  then have "\<forall>i \<in> set (timer_heap (push_timer_heap tid s)). in_window (tkey now (tdata s) i)"
    using assms by (simp add: timers_inv_def)
  from timers_inv_reheap [OF assms(1) _ this H(2), of R] show ?thesis
    using H(1) by (simp add: push_timer_heap_def)
qed

lemma popindex_inv:
  assumes "timers_inv now R s" "i < length (timer_heap s)"
    "H = BHEAP_POPINDEX (DIFFTICK_MINTOPCMP (tdata s)) (timer_heap s) i"
  shows "timers_inv now (timer_heap s ! i # R) (s\<lparr>timer_heap := H\<rparr>)"
    "mset H = mset (timer_heap s) - {#timer_heap s ! i#}"
proof -
  have a: "agrees (DIFFTICK_MINTOPCMP (tdata s)) (tkey now (tdata s)) (set (timer_heap s))"
    by (rule timers_inv_agrees [OF assms(1)]) (use assms(1) in \<open>auto simp: timers_inv_def\<close>)
  have h: "is_heap (tkey now (tdata s)) (timer_heap s)" using assms(1) by (simp add: timers_inv_def)
  note C = BHEAP_POPINDEX_correct [OF a h assms(2), folded assms(3)]
  then show M: "mset H = mset (timer_heap s) - {#timer_heap s ! i#}" by blast
  have "timer_heap s ! i \<in># mset (timer_heap s)" using assms(2) by simp
  then have 1: "mset H + mset (timer_heap s ! i # R) = mset (timer_heap s) + mset R" by (simp add: M)
  have "\<forall>i \<in> set H. in_window (tkey now (tdata s) i)"
    using M assms(1) unfolding timers_inv_def by (metis in_diffD set_mset_mset)
  then show "timers_inv now (timer_heap s ! i # R) (s\<lparr>timer_heap := H\<rparr>)"
    using timers_inv_reheap [OF assms(1) 1] C by blast
qed

lemma is_heap_cong: "(\<And>i. i \<in> set xs \<Longrightarrow> k i = k' i) \<Longrightarrow> is_heap k xs \<Longrightarrow> is_heap k' xs"
  unfolding is_heap_def using par_less by (metis nth_mem order.strict_trans)

lemma set_timer_fields [simp]:
  "free_list (set_timer tid t s) = free_list s" "timer_heap (set_timer tid t s) = timer_heap s"
  "timer_data_num (set_timer tid t s) = timer_data_num s" "tdata (set_timer tid t s) = (tdata s)[tid := t]"
  by (simp_all add: set_timer_def)

text \<open>Rewriting an entry that is not in the heap, or keeping its tick and interval.\<close>

lemma timers_inv_tdata:
  assumes "timers_inv now R s" "timer_data_num s \<le> length ts"
    "\<And>i. i \<in> set (timer_heap s) \<Longrightarrow> t_tick (ts ! i) = t_tick (tdata s ! i)"
    "\<And>i. i \<in> set (timer_heap s @ R) \<Longrightarrow> 1 \<le> t_interval (ts ! i) \<and> t_interval (ts ! i) < 1073741824"
  shows "timers_inv now R (s\<lparr>tdata := ts\<rparr>)"
proof -
  have k: "tkey now (tdata s) i = tkey now ts i" if "i \<in> set (timer_heap s)" for i
    using assms(3) [OF that] by (simp add: tkey_def)
  then have "is_heap (tkey now ts) (timer_heap s)"
    by (rule is_heap_cong) (use assms(1) in \<open>simp_all add: timers_inv_def\<close>)
  then show ?thesis using assms(1,2,4) k unfolding timers_inv_def by simp
qed

lemma set_timer_running_inv:
  assumes "timers_inv now (tid # R) s" "1 \<le> t_interval t" "t_interval t < 1073741824"
  shows "timers_inv now (tid # R) (set_timer tid t s)"
  unfolding set_timer_def
  by (rule timers_inv_tdata [OF assms(1)]) (use assms in \<open>auto simp: timers_inv_def nth_list_update\<close>)

lemma set_timer_same_inv:
  assumes "timers_inv now R s" "t_tick t = t_tick (tdata s ! tid)" "t_interval t = t_interval (tdata s ! tid)"
  shows "timers_inv now R (set_timer tid t s)"
  unfolding set_timer_def
  by (rule timers_inv_tdata [OF assms(1)])
    (use assms(1) in \<open>simp_all add: timers_inv_def nth_update_same [of t_tick, OF assms(2)]
       nth_update_same [of t_interval, OF assms(3)]\<close>)

lemma timers_inv_drop: "timers_inv now (tid # R) s \<Longrightarrow> timers_inv now R s"
  by (auto simp: timers_inv_def)

lemma timers_inv_free: "timers_inv now (tid # R) s \<Longrightarrow> timers_inv now R (s\<lparr>free_list := tid # free_list s\<rparr>)"
  by (auto simp: timers_inv_def)
section \<open>The operations keep the invariant\<close>

lemma pop_free_cases:
  "pop_free num xs = (tid, ys) \<Longrightarrow> \<forall>x \<in> set xs. x < num \<Longrightarrow>
   xs = [] \<and> tid = num \<and> ys = [] \<or> xs = tid # ys"
  by (cases xs) (auto split: if_splits)

lemma acquire_timer_inv:
  assumes "timers_inv now R s" "acquire_timer s = (tid, s')" "1 \<le> t_interval t" "t_interval t < 1073741824"
  shows "timers_inv now (tid # R) (set_timer tid t s')"
    "tid < length (tdata s')" "timer_heap s' = timer_heap s" "tid \<notin> set (timer_heap s @ R)"
    "\<And>i. i \<in> set (timer_heap s @ R) \<Longrightarrow> tdata s' ! i = tdata s ! i"
proof -
  let ?n = "timer_data_num s"
  obtain x rest where p: "pop_free ?n (free_list s) = (x, rest)" by fastforce
  have L: "\<forall>i \<in> set (timer_heap s @ free_list s @ R). i < ?n" "?n \<le> length (tdata s)"
    "distinct (timer_heap s @ free_list s @ R)" using assms(1) by (simp_all add: timers_inv_def)
  have "free_list s = [] \<and> x = ?n \<and> rest = [] \<or> free_list s = x # rest"
    using pop_free_cases [OF p] L(1) by simp
  then consider (new) "free_list s = []" "x = ?n" "rest = []" | (old) "free_list s = x # rest" "x < ?n"
    using L(1) by auto
  then have P: "timers_inv now (tid # R) (set_timer tid t s') \<and> tid < length (tdata s') \<and> timer_heap s' = timer_heap s
    \<and> tid \<notin> set (timer_heap s @ R) \<and> (\<forall>i \<in> set (timer_heap s @ R). tdata s' ! i = tdata s ! i)"
  proof cases
    case old
    then have s': "tid = x" "s' = s\<lparr>free_list := rest\<rparr>"
      using assms(2) p by (auto simp: acquire_timer_def Let_def)
    have i: "timers_inv now (x # R) (s\<lparr>free_list := rest\<rparr>\<lparr>tdata := (tdata s)[x := t]\<rparr>)"
    proof -
      have "timers_inv now R (s\<lparr>tdata := (tdata s)[x := t]\<rparr>)"
        by (rule timers_inv_tdata [OF assms(1)]) (use L old assms in \<open>auto simp: nth_list_update timers_inv_def\<close>)
      then show ?thesis using old L assms(3,4) unfolding timers_inv_def by (auto simp: nth_list_update)
    qed
    then show ?thesis using old L s' by (auto simp: set_timer_def)
  next
    case new
    define a where "a = arr_find (\<lambda>t. t_type t = 0) (drop ?n (tdata s))"
    have a: "?n + a \<le> length (tdata s)" using arr_find_le [of _ "drop ?n (tdata s)"] L(2)
      unfolding a_def by (metis add.commute le_diff_conv2 length_drop)
    define ts where "ts = (if length (tdata s) \<le> ?n + a then tdata s @ replicate 256 zero_timer else tdata s)"
    have s': "tid = ?n + a" "s' = s\<lparr>tdata := ts, free_list := [], timer_data_num := Suc (?n + a)\<rparr>"
      using assms(2) p new by (auto simp: acquire_timer_def Let_def a_def ts_def)
    have ts: "tid < length ts" "\<And>i. i < ?n \<Longrightarrow> ts ! i = tdata s ! i"
      using a s' L(2) by (auto simp: ts_def nth_append)
    have "timers_inv now R (s\<lparr>tdata := ts[tid := t]\<rparr>)"
      by (rule timers_inv_tdata [OF assms(1)]) (use L ts s' assms(1) in \<open>auto simp: nth_list_update timers_inv_def\<close>)
    then have "timers_inv now (tid # R) (s\<lparr>free_list := [], timer_data_num := Suc tid, tdata := ts[tid := t]\<rparr>)"
      using new L assms(3,4) ts s'(1) unfolding timers_inv_def by (auto simp: less_Suc_eq intro: trans_less_add1)
    then show ?thesis using s' ts L by (auto simp: set_timer_def)
  qed
  from P show "timers_inv now (tid # R) (set_timer tid t s')" "tid < length (tdata s')" "timer_heap s' = timer_heap s"
    "tid \<notin> set (timer_heap s @ R)"
    "\<And>i. i \<in> set (timer_heap s @ R) \<Longrightarrow> tdata s' ! i = tdata s ! i" by blast+
qed
text \<open>
  A call is fine at time \<open>now\<close> when the tick it gives a timer lies in the window.
  A call that moves a timer which is not queued sets no tick.
\<close>

definition tick_ok :: "int \<Rightarrow> int \<Rightarrow> bool" where
  "tick_ok now tick \<longleftrightarrow> in_window (DIFF_TICK (u32 tick) now)"

definition set_tick :: "int \<Rightarrow> int" where
  "set_tick tick = (if s32 tick = -1 then 0 else u32 tick)"

fun op_ok :: "int \<Rightarrow> timers \<Rightarrow> timer_op \<Rightarrow> bool" where
  "op_ok now s (Op_Add tick f i d) = tick_ok now tick"
| "op_ok now s (Op_Add_Interval tick f i d n) = (tick_ok now tick \<and> n < 1073741824)"
| "op_ok now s (Op_Delete tid f) = True"
| "op_ok now s (Op_Settick tid tick) = (tid \<in> int ` set (timer_heap s) \<longrightarrow> tick_ok now (set_tick tick))"
| "op_ok now s (Op_Addtick tid tick) = (tid \<in> int ` set (timer_heap s) \<longrightarrow>
     tick_ok now (set_tick (u32 (t_tick (tdata s ! nat tid) + tick))))"

lemma u32_set_tick [simp]: "u32 (set_tick t) = set_tick t"
  by (simp add: set_tick_def u32_def)

text \<open>What a call leaves of the timers that run: their tick and interval.\<close>

definition keeps :: "nat list \<Rightarrow> timers \<Rightarrow> timers \<Rightarrow> bool" where
  "keeps R s s' \<longleftrightarrow> (\<forall>i \<in> set R. t_tick (tdata s' ! i) = t_tick (tdata s ! i)
     \<and> t_interval (tdata s' ! i) = t_interval (tdata s ! i))"

lemma add_timer_any:
  assumes "timers_inv now R s" "acquire_timer s = (tid, s1)" "1 \<le> t_interval t" "t_interval t < 1073741824"
    "in_window (DIFF_TICK (t_tick t) now)" "s' = push_timer_heap tid (set_timer tid t s1)"
  shows "timers_inv now R s' \<and> keeps R s s' \<and> mset (timer_heap s') = add_mset tid (mset (timer_heap s))
    \<and> tdata s' ! tid = t \<and> (\<forall>i \<in> set (timer_heap s @ R). tdata s' ! i = tdata s ! i) \<and> tid \<notin> set (timer_heap s)"
proof -
  note A = acquire_timer_inv [OF assms(1-4)]
  have t: "tdata (set_timer tid t s1) ! tid = t" using A(2) by simp
  then have w: "in_window (tkey now (tdata (set_timer tid t s1)) tid)" using assms(5) by (simp add: tkey_def)
  have u: "tdata s' ! i = tdata s ! i" if "i \<in> set (timer_heap s @ R)" for i
  proof -
    have "i \<noteq> tid" using A(4) that by blast
    then show ?thesis using A(5) [OF that] by (simp add: assms(6))
  qed
  then have "keeps R s s'" by (simp add: keeps_def)
  moreover have "mset (timer_heap s') = add_mset tid (mset (timer_heap s))"
    using push_timer_heap_heap(1) [OF A(1) w] A(3) by (simp add: assms(6))
  ultimately show ?thesis
    using push_timer_heap_inv [OF A(1) w] t u A(4) by (simp add: assms(6))
qed

lemma settick_timer_cases:
  assumes "timers_inv now R s" "tid \<in> int ` set (timer_heap s) \<longrightarrow> tick_ok now (set_tick tick)"
    "settick_timer s tid tick = (r, s')"
  shows "timers_inv now R s' \<and> keeps R s s' \<and>
    (if tid \<in> int ` set (timer_heap s)
     then r = s32 (set_tick tick) \<and> mset (timer_heap s') = mset (timer_heap s)
       \<and> tdata s' = (tdata s)[nat tid := (tdata s ! nat tid)\<lparr>t_tick := set_tick tick\<rparr>]
     else r = -1 \<and> s' = s)"
proof -
  define i where "i = arr_find (\<lambda>t. int t = tid) (timer_heap s)"
  have st: "s32 (if s32 tick = -1 then 0 else u32 tick) = s32 (set_tick tick)" by (simp add: set_tick_def)
  show ?thesis
  proof (cases "i = length (timer_heap s)")
    case True
    then have "tid \<notin> int ` set (timer_heap s)" using arr_find_none [of "\<lambda>t. int t = tid"] by (auto simp: i_def)
    then show ?thesis using True assms by (simp add: settick_timer_def i_def [symmetric] keeps_def)
  next
    case False
    then have i: "i < length (timer_heap s)" using arr_find_le [of _ "timer_heap s"] by (simp add: i_def le_neq_implies_less)
    have "int (timer_heap s ! i) = tid" using arr_find_sat i unfolding i_def by fastforce
    then have n: "timer_heap s ! i = nat tid" and mem: "tid \<in> int ` set (timer_heap s)"
      using i by (auto intro: rev_image_eqI)
    let ?n = "nat tid"
    show ?thesis
    proof (cases "t_tick (tdata s ! ?n) = set_tick tick")
      case True
      then have "r = s32 (set_tick tick)" "s' = s"
        using False assms(3) by (simp_all add: settick_timer_def Let_def i_def [symmetric] set_tick_def)
      moreover have "(tdata s)[?n := (tdata s ! ?n)\<lparr>t_tick := set_tick tick\<rparr>] = tdata s"
        unfolding True [symmetric] by simp
      ultimately show ?thesis using assms(1) mem by (simp add: keeps_def)
    next
      case ne: False
      define s1 where "s1 = s\<lparr>timer_heap := BHEAP_POPINDEX (DIFFTICK_MINTOPCMP (tdata s)) (timer_heap s) i\<rparr>"
      define s2 where "s2 = set_timer ?n ((tdata s1 ! ?n)\<lparr>t_tick := set_tick tick\<rparr>) s1"
      have r: "r = s32 (set_tick tick)" "s' = push_timer_heap ?n s2"
        using False assms(3) ne
        by (auto simp: settick_timer_def Let_def i_def [symmetric] set_tick_def s1_def s2_def)
      have P: "timers_inv now (?n # R) s1" "mset (timer_heap s1) = mset (timer_heap s) - {#?n#}"
        using popindex_inv [OF assms(1) i refl] n by (simp_all add: s1_def)
      have 2: "timers_inv now (?n # R) s2"
        unfolding s2_def by (rule set_timer_running_inv [OF P(1)]) (use P(1) in \<open>simp_all add: timers_inv_def\<close>)
      have "?n < length (tdata s1)" using P(1) by (auto simp: timers_inv_def)
      then have "tdata s2 ! ?n = (tdata s1 ! ?n)\<lparr>t_tick := set_tick tick\<rparr>" by (simp add: s2_def)
      then have w: "in_window (tkey now (tdata s2) ?n)"
        using assms(2) mem by (simp add: tkey_def tick_ok_def)
      have nin: "?n \<notin> set R" using P(1) by (simp add: timers_inv_def)
      have "?n \<in># mset (timer_heap s)" using i n by (metis nth_mem set_mset_mset)
      then have "mset (timer_heap s') = mset (timer_heap s)"
        using push_timer_heap_heap(1) [OF 2 w] P(2) by (simp add: r(2) s2_def)
      moreover have "tdata s' = (tdata s)[?n := (tdata s ! ?n)\<lparr>t_tick := set_tick tick\<rparr>]"
        by (simp add: r(2) s2_def s1_def)
      moreover have "keeps R s s'" unfolding keeps_def calculation(2)
      proof (intro ballI)
        fix j assume "j \<in> set R"
        then have "?n \<noteq> j" using nin by blast
        then show "t_tick ((tdata s)[?n := (tdata s ! ?n)\<lparr>t_tick := set_tick tick\<rparr>] ! j) = t_tick (tdata s ! j)
          \<and> t_interval ((tdata s)[?n := (tdata s ! ?n)\<lparr>t_tick := set_tick tick\<rparr>] ! j) = t_interval (tdata s ! j)" by simp
      qed
      ultimately show ?thesis using push_timer_heap_inv [OF 2 w] r mem by simp
    qed
  qed
qed

lemma delete_timer_cases:
  assumes "timers_inv now R s"
  shows "timers_inv now R (snd (delete_timer s tid f)) \<and> keeps R s (snd (delete_timer s tid f))
    \<and> timer_heap (snd (delete_timer s tid f)) = timer_heap s
    \<and> (\<forall>i. t_tick (tdata (snd (delete_timer s tid f)) ! i) = t_tick (tdata s ! i))"
proof -
  let ?t = "(tdata s ! nat tid)\<lparr>t_func := None, t_type := TIMER_ONCE_AUTODEL\<rparr>"
  have "timers_inv now R (set_timer (nat tid) ?t s)" by (rule set_timer_same_inv [OF assms]) simp_all
  moreover have "t_tick ((tdata s)[nat tid := ?t] ! i) = t_tick (tdata s ! i)"
    "t_interval ((tdata s)[nat tid := ?t] ! i) = t_interval (tdata s ! i)" for i
    by (rule nth_update_same; simp)+
  ultimately show ?thesis using assms by (simp add: delete_timer_def keeps_def)
qed

lemma apply_op_inv:
  assumes "timers_inv now R s" "op_ok now s t"
  shows "timers_inv now R (apply_op t s) \<and> keeps R s (apply_op t s)"
proof (cases t)
  case (Op_Add tick f i d)
  obtain tid s1 where a: "acquire_timer s = (tid, s1)" by fastforce
  show ?thesis
    using add_timer_any [OF assms(1) a _ _ _ refl] assms(2) by (simp add: Op_Add add_timer_def a tick_ok_def)
next
  case (Op_Add_Interval tick f i d n)
  obtain tid s1 where a: "acquire_timer s = (tid, s1)" by fastforce
  show ?thesis
    using add_timer_any [OF assms(1) a _ _ _ refl] assms
    by (auto simp: Op_Add_Interval add_timer_interval_def a tick_ok_def keeps_def)
next
  case (Op_Delete tid f)
  then show ?thesis using delete_timer_cases [OF assms(1)] by simp
next
  case (Op_Settick tid tick)
  then show ?thesis using settick_timer_cases [OF assms(1)] assms(2) by (metis apply_op.simps(4) op_ok.simps(4) prod.collapse)
next
  case (Op_Addtick tid tick)
  then show ?thesis using settick_timer_cases [OF assms(1)] assms(2) unfolding Op_Addtick apply_op.simps op_ok.simps addtick_timer_def
    by (metis prod.collapse)
qed

text \<open>A call that deletes the running timer \<open>i\<close>, and what it leaves of it.\<close>

fun deletes :: "timer_op \<Rightarrow> timers \<Rightarrow> nat \<Rightarrow> bool" where
  "deletes (Op_Delete tid f) s i \<longleftrightarrow> tid = int i \<and> t_func (tdata s ! i) = f"
| "deletes _ s i \<longleftrightarrow> False"

definition stopped :: "timer_data \<Rightarrow> timer_data" where
  "stopped t = t\<lparr>t_func := None, t_type := TIMER_ONCE_AUTODEL\<rparr>"

lemma apply_op_running:
  assumes "timers_inv now R s" "op_ok now s t" "i \<in> set R"
  shows "tdata (apply_op t s) ! i = (if deletes t s i then stopped (tdata s ! i) else tdata s ! i)"
proof -
  have i: "i \<notin> set (timer_heap s)" "i < timer_data_num s" "i < length (tdata s)"
    using assms(1,3) by (auto simp: timers_inv_def intro: less_le_trans)
  have settick: "tdata s' ! i = tdata s ! i"
    if "tid \<in> int ` set (timer_heap s) \<longrightarrow> tick_ok now (set_tick tick)" "s' = snd (settick_timer s tid tick)" for tid tick s'
  proof -
    have r: "settick_timer s tid tick = (fst (settick_timer s tid tick), s')" using that(2) by simp
    note C = settick_timer_cases [OF assms(1) that(1) r]
    show ?thesis
    proof (cases "tid \<in> int ` set (timer_heap s)")
      case True
      then have "nat tid \<noteq> i" using i(1) by auto
      then show ?thesis using C True by simp
    qed (use C in simp)
  qed
  show ?thesis
  proof (cases t)
    case (Op_Add tick f j d)
    obtain tid s1 where a: "acquire_timer s = (tid, s1)" by fastforce
    show ?thesis
      using add_timer_any [OF assms(1) a _ _ _ refl] assms(2,3) by (simp add: Op_Add add_timer_def a tick_ok_def)
  next
    case (Op_Add_Interval tick f j d n)
    obtain tid s1 where a: "acquire_timer s = (tid, s1)" by fastforce
    show ?thesis
      using add_timer_any [OF assms(1) a _ _ _ refl] assms(2,3)
      by (auto simp: Op_Add_Interval add_timer_interval_def a tick_ok_def)
  next
    case (Op_Delete tid f)
    then show ?thesis using i by (cases "nat tid = i") (auto simp: delete_timer_def stopped_def)
  next
    case (Op_Settick tid tick)
    then show ?thesis using settick [of tid tick] assms(2) by simp
  next
    case (Op_Addtick tid tick)
    then show ?thesis using settick [of tid "u32 (t_tick (tdata s ! nat tid) + tick)"] assms(2)
      by (simp add: addtick_timer_def)
  qed
qed

section \<open>The loop\<close>

text \<open>
  A sequence of calls in which each one meets a condition in the state it is made
  in. The timer functions are safe when, in every well-formed queue, all their calls
  set ticks within the window; the stricter ones set every tick to the future.
\<close>

fun ops_all :: "(timers \<Rightarrow> timer_op \<Rightarrow> bool) \<Rightarrow> timers \<Rightarrow> timer_op list \<Rightarrow> bool" where
  "ops_all P s [] \<longleftrightarrow> True"
| "ops_all P s (t # ts) \<longleftrightarrow> P s t \<and> ops_all P (apply_op t s) ts"

fun future_op :: "int \<Rightarrow> timers \<Rightarrow> timer_op \<Rightarrow> bool" where
  "future_op now s (Op_Add tick f i d) = (0 < DIFF_TICK (u32 tick) now)"
| "future_op now s (Op_Add_Interval tick f i d n) = (0 < DIFF_TICK (u32 tick) now)"
| "future_op now s (Op_Settick tid tick) = (tid \<in> int ` set (timer_heap s) \<longrightarrow> 0 < DIFF_TICK (set_tick tick) now)"
| "future_op now s (Op_Addtick tid tick) = (tid \<in> int ` set (timer_heap s) \<longrightarrow>
     0 < DIFF_TICK (set_tick (u32 (t_tick (tdata s ! nat tid) + tick))) now)"
| "future_op now s (Op_Delete tid f) = True"

definition cb_safe :: "int \<Rightarrow> 'w timer_funcs \<Rightarrow> bool" where
  "cb_safe now cb \<longleftrightarrow> (\<forall>f tid tick i d w s R. timers_inv now R s \<longrightarrow>
     ops_all (op_ok now) s (fst (cb f tid tick i d (w, s))))"

definition cb_future :: "int \<Rightarrow> 'w timer_funcs \<Rightarrow> bool" where
  "cb_future now cb \<longleftrightarrow> (\<forall>f tid tick i d w s R. timers_inv now R s \<longrightarrow>
     ops_all (future_op now) s (fst (cb f tid tick i d (w, s))))"

text \<open>The work that is due: one unit for each expired timer and each millisecond it is late.\<close>

definition late :: "int \<Rightarrow> timer_data list \<Rightarrow> nat \<Rightarrow> nat" where
  "late now ts i = nat (1 - tkey now ts i)"

definition backlog :: "int \<Rightarrow> timers \<Rightarrow> nat" where
  "backlog now s = sum_list (map (late now (tdata s)) (timer_heap s))"

lemma backlog_mset: "backlog now s = (\<Sum>i \<in># mset (timer_heap s). late now (tdata s) i)"
  by (simp add: backlog_def sum_mset_sum_list [symmetric])

lemma backlog_mono:
  assumes "mset (timer_heap s') = mset (timer_heap s)"
    "\<And>i. i \<in> set (timer_heap s) \<Longrightarrow> late now (tdata s') i \<le> late now (tdata s) i"
  shows "backlog now s' \<le> backlog now s"
  unfolding backlog_mset assms(1) by (rule sum_mset_mono) (simp add: assms(2))

lemma backlog_add:
  assumes "mset (timer_heap s') = add_mset tid (mset (timer_heap s))"
    "\<And>i. i \<in> set (timer_heap s) \<Longrightarrow> late now (tdata s') i = late now (tdata s) i"
  shows "backlog now s' = backlog now s + late now (tdata s') tid"
proof -
  have "(\<Sum>i \<in># mset (timer_heap s). late now (tdata s') i) = (\<Sum>i \<in># mset (timer_heap s). late now (tdata s) i)"
    by (rule arg_cong [where f = sum_mset], rule image_mset_cong) (simp add: assms(2))
  then show ?thesis unfolding backlog_mset assms(1) by simp
qed

lemma timers_inv_allocated: "timers_inv now R s \<Longrightarrow> i \<in> set (timer_heap s) \<Longrightarrow> i < length (tdata s)"
  by (auto simp: timers_inv_def intro: less_le_trans)

lemma settick_backlog:
  assumes "timers_inv now R s" "tid \<in> int ` set (timer_heap s) \<longrightarrow> tick_ok now (set_tick tick)"
    "tid \<in> int ` set (timer_heap s) \<longrightarrow> 0 < DIFF_TICK (set_tick tick) now"
  shows "backlog now (snd (settick_timer s tid tick)) \<le> backlog now s"
proof -
  obtain r s' where r: "settick_timer s tid tick = (r, s')" by fastforce
  note C = settick_timer_cases [OF assms(1,2) r]
  show ?thesis
  proof (cases "tid \<in> int ` set (timer_heap s)")
    case True
    then have "nat tid \<in> set (timer_heap s)" by auto
    then have n: "nat tid < length (tdata s)" by (rule timers_inv_allocated [OF assms(1)])
    have "late now (tdata s') i \<le> late now (tdata s) i" for i
      using C True assms(3) n by (cases "i = nat tid") (simp_all add: late_def tkey_def)
    then show ?thesis using C True by (auto intro!: backlog_mono simp: r)
  next
    case False
    then show ?thesis using C by (simp add: r)
  qed
qed

lemma apply_op_backlog:
  assumes "timers_inv now R s" "op_ok now s t" "future_op now s t"
  shows "backlog now (apply_op t s) \<le> backlog now s"
proof -
  have add: "backlog now s' \<le> backlog now s"
    if a: "acquire_timer s = (tid, s1)" "1 \<le> t_interval e" "t_interval e < 1073741824"
      "in_window (DIFF_TICK (t_tick e) now)" "s' = push_timer_heap tid (set_timer tid e s1)"
      and f: "0 < DIFF_TICK (t_tick e) now" for tid s1 e s'
  proof -
    note A = add_timer_any [OF assms(1) a]
    have "backlog now s' = backlog now s + late now (tdata s') tid"
      by (rule backlog_add) (use A in \<open>simp_all add: late_def tkey_def\<close>)
    then show ?thesis using A f by (simp add: late_def tkey_def)
  qed
  show ?thesis
  proof (cases t)
    case (Op_Add tick f i d)
    obtain tid s1 where a: "acquire_timer s = (tid, s1)" by fastforce
    show ?thesis
      using add [OF a _ _ _ refl] assms(2,3) by (simp add: Op_Add add_timer_def a tick_ok_def)
  next
    case (Op_Add_Interval tick f i d n)
    obtain tid s1 where a: "acquire_timer s = (tid, s1)" by fastforce
    show ?thesis
      using add [OF a _ _ _ refl] assms(2,3)
      by (auto simp: Op_Add_Interval add_timer_interval_def a tick_ok_def)
  next
    case (Op_Delete tid f)
    then show ?thesis
      using delete_timer_cases [OF assms(1), of tid f] by (auto intro!: backlog_mono simp: late_def tkey_def)
  next
    case (Op_Settick tid tick)
    then show ?thesis using settick_backlog [OF assms(1)] assms(2,3) by simp
  next
    case (Op_Addtick tid tick)
    then show ?thesis using settick_backlog [OF assms(1)] assms(2,3) by (simp add: addtick_timer_def)
  qed
qed

lemma keeps_refl [simp]: "keeps R s s"
  by (simp add: keeps_def)

lemma keeps_trans: "keeps R s s' \<Longrightarrow> keeps R s' s'' \<Longrightarrow> keeps R s s''"
  by (simp add: keeps_def)

lemma fold_apply_op_inv:
  assumes "timers_inv now R s" "ops_all (op_ok now) s ts"
  shows "timers_inv now R (fold apply_op ts s) \<and> keeps R s (fold apply_op ts s)
    \<and> (ops_all (future_op now) s ts \<longrightarrow> backlog now (fold apply_op ts s) \<le> backlog now s)"
  using assms
proof (induction ts arbitrary: s)
  case (Cons t ts)
  have ok: "op_ok now s t" using Cons.prems(2) by simp
  note A = apply_op_inv [OF Cons.prems(1) ok]
  note I = Cons.IH [OF conjunct1 [OF A]]
  show ?case
    using A I Cons.prems(2) apply_op_backlog [OF Cons.prems(1) ok] keeps_trans by (auto intro: order_trans)
qed simp

lemma call_timer_inv:
  assumes "timers_inv now R s" "cb_safe now cb" "call_timer cb now diff tid (w, s) = (w', s')"
  shows "timers_inv now R s' \<and> keeps R s s' \<and> (cb_future now cb \<longrightarrow> backlog now s' \<le> backlog now s)"
proof (cases "t_func (tdata s ! tid)")
  case None
  then show ?thesis using assms(1,3) by (simp add: call_timer_def)
next
  case (Some f)
  obtain ops where c: "cb f tid (if diff < -1000 then now else t_tick (tdata s ! tid))
      (t_id (tdata s ! tid)) (t_data (tdata s ! tid)) (w, s) = (ops, w')" and s': "s' = fold apply_op ops s"
    using assms(3) Some by (auto simp: call_timer_def split: prod.splits)
  have "ops_all (op_ok now) s ops" using assms(1,2) c unfolding cb_safe_def by (metis fst_conv)
  moreover have "ops_all (future_op now) s ops" if "cb_future now cb"
    using assms(1) that c unfolding cb_future_def by (metis fst_conv)
  ultimately show ?thesis using fold_apply_op_inv [OF assms(1)] s' by blast
qed

lemma in_window_next:
  assumes "in_window k" "k \<le> 0" "1 \<le> n" "n < 1073741824"
  shows "in_window (k + n)" "in_window n" "- 2147483648 \<le> k + n" "k + n < 2147483648"
  using assms by (auto simp: in_window_def)

lemma retire_timer_inv:
  assumes "timers_inv now (tid # R) s" "in_window (tkey now (tdata s) tid)" "tkey now (tdata s) tid \<le> 0"
  shows "timers_inv now R (retire_timer now tid s)
    \<and> backlog now (retire_timer now tid s) < backlog now s + late now (tdata s) tid"
proof -
  let ?t = "tdata s ! tid" and ?k = "tkey now (tdata s) tid"
  have L: "0 < late now (tdata s) tid" using assms(3) by (simp add: late_def)
  have n: "1 \<le> t_interval ?t" "t_interval ?t < 1073741824" and len: "tid < length (tdata s)"
    and nin: "tid \<notin> set (timer_heap s)"
    using assms(1) by (auto simp: timers_inv_def)
  have same: "late now ((tdata s)[tid := e]) i = late now (tdata s) i" if "i \<in> set (timer_heap s)" for e i
  proof -
    have "i \<noteq> tid" using that nin by blast
    then show ?thesis by (simp add: late_def tkey_def)
  qed
  show ?thesis
  proof (cases "bit (t_type ?t) REMOVE_HEAP_BIT")
    case False
    then show ?thesis using timers_inv_drop [OF assms(1)] L by (simp add: retire_timer_def Let_def)
  next
    case b: True
    define ty where "ty = unset_bit REMOVE_HEAP_BIT (t_type ?t)"
    show ?thesis
    proof (cases "ty = TIMER_INTERVAL")
      case True
      define e where "e = ?t\<lparr>t_type := ty, t_tick :=
        (if DIFF_TICK (t_tick ?t) now < -1000 then u32 (now + t_interval ?t) else u32 (t_tick ?t + t_interval ?t))\<rparr>"
      have r: "retire_timer now tid s = push_timer_heap tid (set_timer tid e s)"
        using b True by (simp add: retire_timer_def Let_def ty_def [symmetric] e_def)
      note W = in_window_next [OF assms(2,3) n]
      have k: "DIFF_TICK (t_tick e) now = (if DIFF_TICK (t_tick ?t) now < -1000 then t_interval ?t else ?k + t_interval ?t)"
        using DIFF_TICK_now [of "t_interval ?t" now] DIFF_TICK_add [of "t_tick ?t" now "t_interval ?t"] W(3,4) n
        by (simp add: e_def tkey_def)
      have i: "timers_inv now (tid # R) (set_timer tid e s)"
        by (rule set_timer_running_inv [OF assms(1)]) (use n in \<open>simp_all add: e_def\<close>)
      have ke: "tkey now (tdata (set_timer tid e s)) tid = DIFF_TICK (t_tick e) now" using len by (simp add: tkey_def)
      have w: "in_window (tkey now (tdata (set_timer tid e s)) tid)" unfolding ke k using W(1,2) by simp
      have "backlog now (retire_timer now tid s) = backlog now (set_timer tid e s) + late now (tdata (set_timer tid e s)) tid"
        unfolding r by (rule backlog_add [OF push_timer_heap_heap(1) [OF i w], simplified push_timer_heap_fields]) simp
      moreover have "backlog now (set_timer tid e s) \<le> backlog now s"
        by (rule backlog_mono) (simp_all add: same)
      moreover have "late now (tdata (set_timer tid e s)) tid < late now (tdata s) tid"
        unfolding late_def ke k using n assms(3) by (auto simp: tkey_def)
      ultimately show ?thesis using push_timer_heap_inv [OF i w] by (simp add: r)
    next
      case False
      let ?e = "?t\<lparr>t_type := 0\<rparr>"
      have r: "retire_timer now tid s = (set_timer tid ?e s)\<lparr>free_list := tid # free_list s\<rparr>"
        using b False by (simp add: retire_timer_def Let_def ty_def [symmetric])
      have "timers_inv now (tid # R) (set_timer tid ?e s)"
        by (rule set_timer_running_inv [OF assms(1)]) (use n in simp_all)
      then have "timers_inv now R (retire_timer now tid s)" unfolding r
        using timers_inv_free by fastforce
      moreover have "backlog now (retire_timer now tid s) \<le> backlog now s"
        unfolding r by (rule backlog_mono) (simp_all add: same)
      ultimately show ?thesis using L by simp
    qed
  qed
qed

lemma expire_timer_inv:
  assumes "timers_inv now R s" "timer_heap s \<noteq> []" "tkey now (tdata s) (BHEAP_PEEK (timer_heap s)) \<le> 0" "cb_safe now cb"
    "expire_timer cb now (w, s) = (w', s')"
  shows "timers_inv now R s' \<and> (cb_future now cb \<longrightarrow> backlog now s' < backlog now s)"
proof -
  define tid where "tid = BHEAP_PEEK (timer_heap s)"
  define s1 where "s1 = pop_timer_heap s"
  define s2 where "s2 = mark_timer tid s1"
  obtain s3 where c: "call_timer cb now (tkey now (tdata s) tid) tid (w, s2) = (w', s3)"
    and e: "s' = retire_timer now tid s3"
    using assms(5) unfolding expire_timer_def prod.case Let_def s1_def [symmetric] tid_def [symmetric]
      s2_def [symmetric] tkey_def
    by (metis apsnd_conv prod.exhaust prod.inject)
  have P: "timers_inv now (tid # R) s1" "mset (timer_heap s1) = mset (timer_heap s) - {#tid#}"
    using popindex_inv [OF assms(1) _ refl, of 0] assms(2)
    by (simp_all add: s1_def tid_def pop_timer_heap_def BHEAP_POP_def BHEAP_PEEK_def)
  have ts1: "tdata s1 = tdata s" by (simp add: s1_def pop_timer_heap_def)
  have 2: "timers_inv now (tid # R) s2"
    unfolding s2_def mark_timer_def by (rule set_timer_same_inv [OF P(1)]) simp_all
  have t2: "t_tick (tdata s2 ! i) = t_tick (tdata s ! i)" for i
    unfolding s2_def mark_timer_def set_timer_fields ts1 by (rule nth_update_same) simp
  note C = call_timer_inv [OF 2 assms(4) c]
  have "tid \<in> set (timer_heap s)" using assms(2) by (simp add: tid_def BHEAP_PEEK_def)
  then have w: "in_window (tkey now (tdata s) tid)" using assms(1) by (simp add: timers_inv_def)
  have k: "tkey now (tdata s3) tid = tkey now (tdata s) tid"
    using C t2 by (simp add: keeps_def tkey_def)
  note R = retire_timer_inv [OF conjunct1 [OF C], unfolded k, OF w assms(3) [folded tid_def]]
  have "mset (timer_heap s) = add_mset tid (mset (timer_heap s2))"
    using P(2) \<open>tid \<in> set (timer_heap s)\<close> by (simp add: s2_def mark_timer_def)
  then have "backlog now s = backlog now s2 + late now (tdata s) tid"
    by (rule backlog_add) (simp add: late_def tkey_def t2)
  moreover have "late now (tdata s3) tid = late now (tdata s) tid" by (simp add: late_def k)
  ultimately show ?thesis using C R unfolding e by auto
qed

lemma top_tkey:
  assumes "timers_inv now R s" "i \<in> set (timer_heap s)"
  shows "tkey now (tdata s) (BHEAP_PEEK (timer_heap s)) \<le> tkey now (tdata s) i"
proof -
  have "mset (timer_heap s) \<noteq> {#}" "i \<in># mset (timer_heap s)" using assms(2) by auto
  then show ?thesis using bheap.top_min [OF timers_inv_heap_ok [OF assms(1)]] by blast
qed

text \<open>What the loop leaves, and the difference it returns.\<close>

definition loop_result :: "int \<Rightarrow> int \<Rightarrow> timers \<Rightarrow> int \<Rightarrow> timers \<Rightarrow> bool" where
  "loop_result now diff s d s' \<longleftrightarrow>
     (\<forall>i \<in> set (timer_heap s'). 0 < tkey now (tdata s') i) \<and>
     (if timer_heap s' = [] then (if timer_heap s = [] then d = diff else d \<le> 0)
      else d = tkey now (tdata s') (BHEAP_PEEK (timer_heap s')))"

lemma loop_result_stop:
  assumes "timers_inv now R s" "timer_heap s \<noteq> []" "0 < tkey now (tdata s) (BHEAP_PEEK (timer_heap s))"
  shows "loop_result now diff s (tkey now (tdata s) (BHEAP_PEEK (timer_heap s))) s"
  using top_tkey [OF assms(1)] assms(2,3) unfolding loop_result_def by fastforce

lemma do_timer_loop_cases:
  obtains (empty) "timer_heap s = []" "do_timer_loop cb now fuel diff (w, s) = Some (diff, w, s)"
  | (stop) "timer_heap s \<noteq> []" "0 < tkey now (tdata s) (BHEAP_PEEK (timer_heap s))"
      "do_timer_loop cb now fuel diff (w, s) = Some (tkey now (tdata s) (BHEAP_PEEK (timer_heap s)), w, s)"
  | (go) "timer_heap s \<noteq> []" "tkey now (tdata s) (BHEAP_PEEK (timer_heap s)) \<le> 0"
      "do_timer_loop cb now fuel diff (w, s) = (case fuel of 0 \<Rightarrow> None | Suc fuel \<Rightarrow>
         do_timer_loop cb now fuel (tkey now (tdata s) (BHEAP_PEEK (timer_heap s))) (expire_timer cb now (w, s)))"
proof -
  have "timer_heap s = [] \<or> timer_heap s \<noteq> [] \<and> 0 < tkey now (tdata s) (BHEAP_PEEK (timer_heap s))
    \<or> timer_heap s \<noteq> [] \<and> tkey now (tdata s) (BHEAP_PEEK (timer_heap s)) \<le> 0" by linarith
  then show thesis
    using that do_timer_loop.simps [of cb now fuel diff w s] unfolding tkey_def Let_def by fastforce
qed

lemma do_timer_loop_inv:
  assumes "timers_inv now R s" "cb_safe now cb" "do_timer_loop cb now fuel diff (w, s) = Some (d, w', s')"
  shows "timers_inv now R s' \<and> loop_result now diff s d s'"
  using assms
proof (induction fuel arbitrary: diff w s)
  case 0
  show ?case
  proof (cases rule: do_timer_loop_cases [of s cb now 0 diff w])
    case empty
    then show ?thesis using 0 by (simp add: loop_result_def)
  next
    case stop
    then show ?thesis using 0 loop_result_stop [OF 0(1)] by simp
  qed (use 0 in simp)
next
  case (Suc fuel)
  show ?case
  proof (cases rule: do_timer_loop_cases [of s cb now "Suc fuel" diff w])
    case empty
    then show ?thesis using Suc.prems by (simp add: loop_result_def)
  next
    case stop
    then show ?thesis using Suc.prems loop_result_stop [OF Suc.prems(1)] by simp
  next
    case go
    obtain w1 s1 where e: "expire_timer cb now (w, s) = (w1, s1)" by fastforce
    have "timers_inv now R s1" using expire_timer_inv [OF Suc.prems(1) go(1,2) Suc.prems(2) e] by blast
    from Suc.IH [OF this Suc.prems(2), where w = w1] show ?thesis
      using go Suc.prems(3) unfolding e by (fastforce simp: loop_result_def split: if_splits)
  qed
qed

lemma do_timer_loop_total:
  assumes "timers_inv now R s" "cb_safe now cb" "cb_future now cb" "backlog now s \<le> fuel"
  shows "\<exists>d w' s'. do_timer_loop cb now fuel diff (w, s) = Some (d, w', s')"
  using assms
proof (induction fuel arbitrary: diff w s)
  case 0
  show ?case
  proof (cases rule: do_timer_loop_cases [of s cb now 0 diff w])
    case go
    then have "BHEAP_PEEK (timer_heap s) \<in> set (timer_heap s)" by (simp add: BHEAP_PEEK_def)
    then have "late now (tdata s) (BHEAP_PEEK (timer_heap s)) = 0" using 0(4) by (auto simp: backlog_def)
    then show ?thesis using go(2) by (simp add: late_def)
  qed simp_all
next
  case (Suc fuel)
  show ?case
  proof (cases rule: do_timer_loop_cases [of s cb now "Suc fuel" diff w])
    case go
    obtain w1 s1 where e: "expire_timer cb now (w, s) = (w1, s1)" by fastforce
    have "timers_inv now R s1 \<and> backlog now s1 < backlog now s"
      using expire_timer_inv [OF Suc.prems(1) go(1,2) Suc.prems(2) e] Suc.prems(3) by blast
    then show ?thesis using go(3) Suc.IH [of s1] Suc.prems by (simp add: e)
  qed simp_all
qed

section \<open>Properties\<close>

definition sample_timers :: timers where
  "sample_timers =
     snd (add_timer_interval (snd (add_timer (snd (add_timer no_timers 100 (Some 1) 0 0)) 4294967290 (Some 2) 0 0))
       50 (Some 3) 0 0 1500)"

text \<open>
  Function 2 postpones timer 0 by 300 unless that timer is far from the tick it is
  called with; function 3 starts another timer. The rest of the state counts the calls.
\<close>

definition sample_cb :: "nat timer_funcs" where
  "sample_cb f tid tick i d ws =
     (if f = 2 \<and> in_window (DIFF_TICK (u32 (t_tick (tdata (snd ws) ! 0) + 300)) 120)
         \<and> 0 < DIFF_TICK (u32 (t_tick (tdata (snd ws) ! 0) + 300)) 120 then [Op_Addtick 0 300]
      else if f = 3 then [Op_Add 2000 None 0 0] else [], Suc (fst ws))"

definition sample_after :: timers where
  "sample_after = snd (snd (the (do_timer sample_cb 120 219 (0, sample_timers))))"

lemma sample_timers_inv: "timers_inv 120 [] sample_timers"
  by code_simp

lemma u32_idem: "u32 (u32 t) = u32 t"
  by (simp add: u32_def)

lemma set_tick_future:
  assumes "0 < DIFF_TICK (u32 t) 120"
  shows "set_tick (u32 t) = u32 t"
proof -
  have r: "0 \<le> u32 t" "u32 t < 4294967296" by (simp_all add: u32_def)
  have "s32 (u32 t) \<noteq> -1"
  proof
    assume "s32 (u32 t) = -1"
    then have "(u32 t + 2147483648) mod 4294967296 = 2147483647" by (simp add: s32_def)
    moreover have "(u32 t + 2147483648) mod 4294967296 = u32 t - 2147483648" if "2147483648 \<le> u32 t"
      using that r mod_add_self2 [of "u32 t - 2147483648" "4294967296::int"] by (simp add: add.commute)
    moreover have "(u32 t + 2147483648) mod 4294967296 = u32 t + 2147483648" if "u32 t < 2147483648"
      using that r by (simp add: mod_pos_pos_trivial)
    ultimately have "u32 t = 4294967295" using r by linarith
    then show False using assms by (simp add: DIFF_TICK_def s32_def)
  qed
  then show ?thesis by (simp add: set_tick_def u32_def)
qed

lemma sample_cb_ok: "cb_safe 120 sample_cb" "cb_future 120 sample_cb"
  by (auto simp: cb_safe_def cb_future_def sample_cb_def set_tick_future tick_ok_def in_window_def u32_idem)
    (simp_all add: DIFF_TICK_def)

text \<open>
  C11. Every call of the timer interface that gives a queued timer a tick in the
  window around the current time keeps the queue well formed: the ids in the heap,
  on the free stack and of running timers are distinct and allocated, and the heap
  is ordered by expiry. A timer that is running keeps all its data, unless the call
  deletes it: then its function is cleared and its type becomes that of a single-use
  timer without the flag by which the loop would retire it, so that its id is in
  neither the heap nor the free stack afterwards.
\<close>

theorem timer_calls_invariant:
  assumes "timers_inv now R s" "op_ok now s t"
  shows "timers_inv now R (apply_op t s) \<and>
    (\<forall>i \<in> set R. tdata (apply_op t s) ! i = (if deletes t s i then stopped (tdata s ! i) else tdata s ! i))"
  using apply_op_inv [OF assms] apply_op_running [OF assms] by blast

theorem timer_calls_invariant_witness:
  "timers_inv 120 [1] (apply_op (Op_Delete 1 (Some 2)) (pop_timer_heap sample_timers))
   \<and> tdata (apply_op (Op_Delete 1 (Some 2)) (pop_timer_heap sample_timers)) ! 1
     = stopped (tdata (pop_timer_heap sample_timers) ! 1)"
proof -
  have i: "timers_inv 120 [1] (pop_timer_heap sample_timers)" by code_simp
  have d: "deletes (Op_Delete 1 (Some 2)) (pop_timer_heap sample_timers) 1" by code_simp
  have ok: "op_ok 120 (pop_timer_heap sample_timers) (Op_Delete 1 (Some 2))" by simp
  show ?thesis using timer_calls_invariant [OF i ok] d by (metis list.set_intros(1))
qed

text \<open>
  C12. When \<open>do_timer\<close> returns, the queue is well formed, none of the timers left
  is due, and the result is the time until the next one, capped to the interval
  from 20 to 1000; with no timer left it is 1000 when there was none to start
  with and 20 when the last one has just run.
\<close>

theorem do_timer_result:
  assumes "timers_inv now [] s" "cb_safe now cb" "do_timer cb now fuel (w, s) = Some (d, w', s')"
  shows "timers_inv now [] s' \<and> (\<forall>i \<in> set (timer_heap s'). 0 < tkey now (tdata s') i) \<and>
    d = (if timer_heap s' = [] then (if timer_heap s = [] then 1000 else 20)
         else cap_value (tkey now (tdata s') (BHEAP_PEEK (timer_heap s'))) 20 1000)"
proof -
  obtain d1 where l: "do_timer_loop cb now fuel 1000 (w, s) = Some (d1, w', s')"
    and d: "d = cap_value d1 20 1000"
    using assms(3) by (auto simp: do_timer_def TIMER_MAX_INTERVAL_def TIMER_MIN_INTERVAL_def split: option.splits)
  from do_timer_loop_inv [OF assms(1,2) l] show ?thesis
    unfolding d by (auto simp: loop_result_def cap_value_def split: if_splits)
qed

lemma sample_do_timer: "do_timer sample_cb 120 219 (0, sample_timers) = Some (280, 2, sample_after)"
  by code_simp

theorem do_timer_result_witness:
  "timers_inv 120 [] sample_after \<and> list_all (\<lambda>i. 0 < tkey 120 (tdata sample_after) i) (timer_heap sample_after) \<and>
   280 = (if timer_heap sample_after = [] then (if timer_heap sample_timers = [] then 1000 else 20)
          else cap_value (tkey 120 (tdata sample_after) (BHEAP_PEEK (timer_heap sample_after))) 20 1000)"
  using do_timer_result [OF sample_timers_inv sample_cb_ok(1) sample_do_timer] unfolding list_all_iff .

text \<open>
  C13. Every run of \<open>do_timer\<close> ends when the timer functions set their ticks to
  the future: one round for each millisecond that a timer is late is enough.
\<close>

theorem do_timer_terminates:
  assumes "timers_inv now [] s" "cb_safe now cb" "cb_future now cb" "backlog now s \<le> fuel"
  shows "\<exists>d w' s'. do_timer cb now fuel (w, s) = Some (d, w', s')"
  using do_timer_loop_total [OF assms, of TIMER_MAX_INTERVAL w] by (auto simp: do_timer_def)

theorem do_timer_terminates_witness:
  "\<exists>d w' s'. do_timer sample_cb 120 219 (0, sample_timers) = Some (d, w', s')"
  by (rule do_timer_terminates [OF sample_timers_inv sample_cb_ok]) code_simp
text \<open>
  A timer function that deletes its own timer: the deletion clears the flag that
  the loop sets before the call, so the loop neither restarts the timer nor
  returns its id to the free stack.
\<close>

definition delete_self :: "unit timer_funcs" where
  "delete_self f tid tick i d ws = ([Op_Delete (int tid) (Some f)], ())"

definition one_timer :: timers where
  "one_timer = snd (add_timer_interval no_timers 100 (Some 1) 0 0 1000)"

lemma delete_self_leaks_id:
  "map_option (\<lambda>(d, w, s). (d, timer_heap s, free_list s, timer_data_num s)) (do_timer delete_self 100 5 ((), one_timer))
     = Some (20, [], [], 1)"
  by code_simp

text \<open>
  For a duration that is not negative, the parts of \<open>split_time\<close> add up to
  it and every part but the month is below its bound; the month can be 12,
  since twelve months of 2629743 seconds are 10 seconds short of a year.
\<close>

theorem split_time_exact:
  assumes "0 \<le> t" "split_time t = (y, mo, d, h, mi, sec)"
  shows "t = y * 31556926 + mo * 2629743 + d * 86400 + h * 3600 + mi * 60 + sec \<and>
    0 \<le> y \<and> 0 \<le> mo \<and> mo \<le> 12 \<and> 0 \<le> d \<and> d \<le> 30 \<and> 0 \<le> h \<and> h < 24 \<and> 0 \<le> mi \<and> mi < 60 \<and> 0 \<le> sec \<and> sec < 60"
proof -
  define a where "a = t mod 31556926"
  define b where "b = a mod 2629743"
  define c where "c = b mod 86400"
  define e where "e = c mod 3600"
  have nn: "0 \<le> a" "0 \<le> b" "0 \<le> c" "0 \<le> e" by (simp_all add: a_def b_def c_def e_def)
  have D: "c_div x n = x div n" "x - x div n * n = x mod n" if "0 \<le> x" for x n :: int
    using that by (simp_all add: c_div_def minus_div_mult_eq_mod)
  have "split_time t = (max 0 (t div 31556926), max 0 (a div 2629743), max 0 (b div 86400), max 0 (c div 3600),
      max 0 (e div 60), max 0 (e mod 60))"
    unfolding split_time_def Let_def D(1) [OF assms(1)] D(2) [OF assms(1)] a_def [symmetric]
      D(1) [OF nn(1)] D(2) [OF nn(1)] b_def [symmetric] D(1) [OF nn(2)] D(2) [OF nn(2)] c_def [symmetric]
      D(1) [OF nn(3)] D(2) [OF nn(3)] e_def [symmetric] D(1) [OF nn(4)] D(2) [OF nn(4)] by (rule refl)
  then have r: "y = t div 31556926" "mo = a div 2629743" "d = b div 86400" "h = c div 3600" "mi = e div 60" "sec = e mod 60"
    using assms nn by (simp_all add: max_absorb2 pos_imp_zdiv_nonneg_iff)
  have lt: "a < 31556926" "b < 2629743" "c < 86400" "e < 3600" by (simp_all add: a_def b_def c_def e_def)
  have "t = y * 31556926 + a" "a = mo * 2629743 + b" "b = d * 86400 + c" "c = h * 3600 + e" "e = mi * 60 + sec"
    by (simp_all add: r a_def b_def c_def e_def)
  moreover have "0 \<le> y" "0 \<le> mo" "0 \<le> d" "0 \<le> h" "0 \<le> mi" "0 \<le> sec" "sec < 60"
    using assms(1) nn by (simp_all add: r pos_imp_zdiv_nonneg_iff)
  ultimately show ?thesis using lt nn by auto
qed

theorem split_time_exact_witness:
  "(31556920::int) = 0 * 31556926 + 12 * 2629743 + 0 * 86400 + 0 * 3600 + 0 * 60 + 4 \<and>
    0 \<le> (0::int) \<and> 0 \<le> (12::int) \<and> (12::int) \<le> 12 \<and> 0 \<le> (0::int) \<and> (0::int) \<le> 30 \<and> 0 \<le> (0::int) \<and> (0::int) < 24
    \<and> 0 \<le> (0::int) \<and> (0::int) < 60 \<and> 0 \<le> (4::int) \<and> (4::int) < 60"
  by (rule split_time_exact) code_simp+

lemma split_time_negative: "t < 0 \<Longrightarrow> split_time t = (0, 0, 0, 0, 0, 0)"
proof -
  assume "t < 0"
  have A: "c_div x n \<le> 0 \<and> x - c_div x n * n \<le> 0" if "x \<le> 0" "0 < n" for x n :: int
  proof (cases "x = 0")
    case False
    have "- x div n * n \<le> - x"
      using pos_mod_sign [OF that(2), of "- x"] div_mult_mod_eq [of "- x" n] by linarith
    moreover have "0 \<le> - x div n" using that by (simp add: pos_imp_zdiv_nonneg_iff)
    ultimately show ?thesis using that False by (simp add: c_div_def)
  qed (simp add: c_div_def)
  define t1 where "t1 = t - c_div t 31556926 * 31556926"
  define t2 where "t2 = t1 - c_div t1 2629743 * 2629743"
  define t3 where "t3 = t2 - c_div t2 86400 * 86400"
  define t4 where "t4 = t3 - c_div t3 3600 * 3600"
  define t5 where "t5 = t4 - c_div t4 60 * 60"
  have le: "t \<le> 0" using \<open>t < 0\<close> by simp
  note A1 = A [OF le, of 31556926, folded t1_def]
  then have A2: "c_div t1 2629743 \<le> 0 \<and> t2 \<le> 0" unfolding t2_def by (intro A) simp_all
  then have A3: "c_div t2 86400 \<le> 0 \<and> t3 \<le> 0" unfolding t3_def by (intro A) simp_all
  then have A4: "c_div t3 3600 \<le> 0 \<and> t4 \<le> 0" unfolding t4_def by (intro A) simp_all
  then have A5: "c_div t4 60 \<le> 0 \<and> t5 \<le> 0" unfolding t5_def by (intro A) simp_all
  have "split_time t = (max 0 (c_div t 31556926), max 0 (c_div t1 2629743), max 0 (c_div t2 86400),
      max 0 (c_div t3 3600), max 0 (c_div t4 60), max 0 t5)"
    unfolding split_time_def Let_def t5_def t4_def t3_def t2_def t1_def by (rule refl)
  then show ?thesis using A1 A2 A3 A4 A5 by (simp add: max_absorb1)
qed

end
