(* ===== verification/Map_Cells.thy ===== *)
theory Map_Cells
  imports Prelude
begin

text \<open>
  The cells of a map (map/map.hpp, map/map.cpp): their flags, the gat types they
  are read from, the cell tests of \<open>map_getcellp\<close>, the setters, and the invisible
  walls that scripts put on a map and take off again. A build without
  CELL\_NOSTACK and with the battleground and cell PvP additions is modelled.
\<close>

section \<open>Cells\<close>

record mapcell =
  walkable :: bool
  shootable :: bool
  water :: bool
  npc :: bool
  basilica :: bool
  landprotector :: bool
  novending :: bool
  nochat :: bool
  maelstrom :: bool
  icewall :: bool
  nobattleground :: bool
  pvp :: bool

datatype cell_t = CELL_WALKABLE | CELL_SHOOTABLE | CELL_WATER | CELL_NPC | CELL_BASILICA | CELL_LANDPROTECTOR
  | CELL_NOVENDING | CELL_NOCHAT | CELL_MAELSTROM | CELL_ICEWALL | CELL_NOBATTLEGROUND | CELL_PVP

datatype cell_chk = CELL_GETTYPE | CELL_CHKWALL | CELL_CHKWATER | CELL_CHKCLIFF | CELL_CHKPASS | CELL_CHKREACH
  | CELL_CHKNOPASS | CELL_CHKNOREACH | CELL_CHKSTACK | CELL_CHKNPC | CELL_CHKBASILICA | CELL_CHKLANDPROTECTOR
  | CELL_CHKNOVENDING | CELL_CHKNOCHAT | CELL_CHKMAELSTROM | CELL_CHKICEWALL | CELL_CHKNOBATTLEGROUND | CELL_CHKPVP

text \<open>A map that is not on this server has no cells: the pointer is NULL, the list empty.\<close>

record map_data =
  map_xs :: int
  map_ys :: int
  mcell :: "mapcell list"
  iwall_num :: int

definition no_cell :: mapcell where
  "no_cell = \<lparr>walkable = False, shootable = False, water = False, npc = False, basilica = False,
     landprotector = False, novending = False, nochat = False, maelstrom = False, icewall = False,
     nobattleground = False, pvp = False\<rparr>"

definition map_gat2cell :: "int \<Rightarrow> mapcell" where
  "map_gat2cell gat =
     (if gat = 0 then no_cell\<lparr>walkable := True, shootable := True, water := False\<rparr>
      else if gat = 1 then no_cell\<lparr>walkable := False, shootable := False, water := False\<rparr>
      else if gat = 2 then no_cell\<lparr>walkable := True, shootable := True, water := False\<rparr>
      else if gat = 3 then no_cell\<lparr>walkable := True, shootable := True, water := True\<rparr>
      else if gat = 4 then no_cell\<lparr>walkable := True, shootable := True, water := False\<rparr>
      else if gat = 5 then no_cell\<lparr>walkable := False, shootable := True, water := False\<rparr>
      else if gat = 6 then no_cell\<lparr>walkable := True, shootable := True, water := False\<rparr>
      else no_cell)"

definition map_cell2gat :: "mapcell \<Rightarrow> int" where
  "map_cell2gat c =
     (if walkable c \<and> shootable c \<and> \<not> water c then 0
      else if \<not> walkable c \<and> \<not> shootable c \<and> \<not> water c then 1
      else if walkable c \<and> shootable c \<and> water c then 3
      else if \<not> walkable c \<and> shootable c \<and> \<not> water c then 5
      else 1)"

fun cell_test :: "mapcell \<Rightarrow> cell_chk \<Rightarrow> int" where
  "cell_test c CELL_GETTYPE = map_cell2gat c"
| "cell_test c CELL_CHKWALL = of_bool (\<not> walkable c \<and> \<not> shootable c)"
| "cell_test c CELL_CHKWATER = of_bool (water c)"
| "cell_test c CELL_CHKCLIFF = of_bool (\<not> walkable c \<and> shootable c)"
| "cell_test c CELL_CHKNPC = of_bool (npc c)"
| "cell_test c CELL_CHKBASILICA = of_bool (basilica c)"
| "cell_test c CELL_CHKLANDPROTECTOR = of_bool (landprotector c)"
| "cell_test c CELL_CHKNOVENDING = of_bool (novending c)"
| "cell_test c CELL_CHKNOCHAT = of_bool (nochat c)"
| "cell_test c CELL_CHKMAELSTROM = of_bool (maelstrom c)"
| "cell_test c CELL_CHKICEWALL = of_bool (icewall c)"
| "cell_test c CELL_CHKPASS = of_bool (walkable c)"
| "cell_test c CELL_CHKREACH = of_bool (walkable c)"
| "cell_test c CELL_CHKNOPASS = of_bool (\<not> walkable c)"
| "cell_test c CELL_CHKNOREACH = of_bool (\<not> walkable c)"
| "cell_test c CELL_CHKSTACK = 0"
| "cell_test c CELL_CHKNOBATTLEGROUND = of_bool (nobattleground c)"
| "cell_test c CELL_CHKPVP = of_bool (pvp c)"

definition cell_index :: "map_data \<Rightarrow> int \<Rightarrow> int \<Rightarrow> nat" where
  "cell_index m x y = nat (x + y * map_xs m)"

text \<open>
  The last row and column count as outside. A coordinate that leaves the range of
  int16 is outside before and after the conversion, so it is not wrapped here.
\<close>

definition map_getcellp :: "map_data \<Rightarrow> int \<Rightarrow> int \<Rightarrow> cell_chk \<Rightarrow> int" where
  "map_getcellp m x y cellchk =
     (if x < 0 \<or> x \<ge> map_xs m - 1 \<or> y < 0 \<or> y \<ge> map_ys m - 1 then of_bool (cellchk = CELL_CHKNOPASS)
      else cell_test (mcell m ! cell_index m x y) cellchk)"

definition map_getcell :: "map_data list \<Rightarrow> int \<Rightarrow> int \<Rightarrow> int \<Rightarrow> cell_chk \<Rightarrow> int" where
  "map_getcell maps m x y cellchk =
     (if m < 0 then 0 else map_getcellp (maps ! nat m) x y cellchk)"

fun set_flag :: "cell_t \<Rightarrow> bool \<Rightarrow> mapcell \<Rightarrow> mapcell" where
  "set_flag CELL_WALKABLE b c = c\<lparr>walkable := b\<rparr>"
| "set_flag CELL_SHOOTABLE b c = c\<lparr>shootable := b\<rparr>"
| "set_flag CELL_WATER b c = c\<lparr>water := b\<rparr>"
| "set_flag CELL_NPC b c = c\<lparr>npc := b\<rparr>"
| "set_flag CELL_BASILICA b c = c\<lparr>basilica := b\<rparr>"
| "set_flag CELL_LANDPROTECTOR b c = c\<lparr>landprotector := b\<rparr>"
| "set_flag CELL_NOVENDING b c = c\<lparr>novending := b\<rparr>"
| "set_flag CELL_NOCHAT b c = c\<lparr>nochat := b\<rparr>"
| "set_flag CELL_MAELSTROM b c = c\<lparr>maelstrom := b\<rparr>"
| "set_flag CELL_ICEWALL b c = c\<lparr>icewall := b\<rparr>"
| "set_flag CELL_NOBATTLEGROUND b c = c\<lparr>nobattleground := b\<rparr>"
| "set_flag CELL_PVP b c = c\<lparr>pvp := b\<rparr>"

definition map_setcell :: "map_data list \<Rightarrow> int \<Rightarrow> int \<Rightarrow> int \<Rightarrow> cell_t \<Rightarrow> bool \<Rightarrow> map_data list" where
  "map_setcell maps m x y cell flag =
     (let md = maps ! nat m
      in if m < 0 \<or> x < 0 \<or> x \<ge> map_xs md \<or> y < 0 \<or> y \<ge> map_ys md then maps
         else let j = cell_index md x y
              in maps[nat m := md\<lparr>mcell := (mcell md)[j := set_flag cell flag (mcell md ! j)]\<rparr>])"

definition map_setgatcell :: "map_data list \<Rightarrow> int \<Rightarrow> int \<Rightarrow> int \<Rightarrow> int \<Rightarrow> map_data list" where
  "map_setgatcell maps m x y gat =
     (let md = maps ! nat m
      in if m < 0 \<or> x < 0 \<or> x \<ge> map_xs md \<or> y < 0 \<or> y \<ge> map_ys md then maps
         else let j = cell_index md x y; c = map_gat2cell gat
              in maps[nat m := md\<lparr>mcell := (mcell md)[j := (mcell md ! j)
                   \<lparr>walkable := walkable c, shootable := shootable c, water := water c\<rparr>]\<rparr>])"

section \<open>Invisible walls\<close>

record iwall_data =
  wall_name :: string
  im :: int
  ix :: int
  iy :: int
  isize :: int
  idir :: int
  ishootable :: bool

definition map_iwall_nextxy :: "int \<Rightarrow> int \<Rightarrow> int \<Rightarrow> int \<Rightarrow> int \<times> int" where
  "map_iwall_nextxy x y dir pos =
     (if dir = 0 \<or> dir = 4 then x else if dir > 0 \<and> dir < 4 then s16 (x - pos) else s16 (x + pos),
      if dir = 2 \<or> dir = 6 then y else if dir > 2 \<and> dir < 6 then s16 (y - pos) else s16 (y + pos))"

text \<open>
  The walls are kept by name; \<open>strdb\<close> compares the first 51 characters of its
  keys, and the name in the record is cut to 49.
\<close>

type_synonym iwall_db = "string \<Rightarrow> iwall_data option"

definition strdb_key :: "string \<Rightarrow> string" where
  "strdb_key s = take 51 s"

definition map_iwall_exist :: "iwall_db \<Rightarrow> string \<Rightarrow> bool" where
  "map_iwall_exist wdb name = (wdb (strdb_key name) \<noteq> None)"

text \<open>The loop of \<open>map_iwall_set\<close> with \<open>n\<close> rounds to go from position \<open>i\<close>; the wall's length and the maps.\<close>

fun iwall_build :: "int \<Rightarrow> int \<Rightarrow> int \<Rightarrow> int \<Rightarrow> bool \<Rightarrow> nat \<Rightarrow> int \<Rightarrow> map_data list \<Rightarrow> int \<times> map_data list" where
  "iwall_build m x y dir shoot 0 i maps = (i, maps)"
| "iwall_build m x y dir shoot (Suc n) i maps =
     (case map_iwall_nextxy x y dir i of (x1, y1) \<Rightarrow>
        if map_getcell maps m x1 y1 CELL_CHKNOREACH \<noteq> 0 then (i, maps)
        else iwall_build m x y dir shoot n (i + 1)
               (map_setcell (map_setcell maps m x1 y1 CELL_WALKABLE False) m x1 y1 CELL_SHOOTABLE shoot))"

definition bump_iwalls :: "int \<Rightarrow> int \<Rightarrow> map_data list \<Rightarrow> map_data list" where
  "bump_iwalls m d maps = maps[nat m := (maps ! nat m)\<lparr>iwall_num := iwall_num (maps ! nat m) + d\<rparr>]"

definition map_iwall_set ::
    "map_data list \<Rightarrow> iwall_db \<Rightarrow> int \<Rightarrow> int \<Rightarrow> int \<Rightarrow> int \<Rightarrow> int \<Rightarrow> bool \<Rightarrow> string
     \<Rightarrow> bool \<times> map_data list \<times> iwall_db" where
  "map_iwall_set maps wdb m x y len0 dir shoot name =
     (if len0 < 1 then (False, maps, wdb)
      else if wdb (strdb_key name) \<noteq> None then (False, maps, wdb)
      else if map_getcell maps m x y CELL_CHKNOREACH \<noteq> 0 then (False, maps, wdb)
      else case iwall_build m x y dir shoot (nat len0) 0 maps of (len, maps) \<Rightarrow>
        (True, bump_iwalls m 1 maps,
         wdb(strdb_key (take 49 name) \<mapsto>
           \<lparr>wall_name = take 49 name, im = m, ix = x, iy = y, isize = s16 len, idir = dir, ishootable = shoot\<rparr>)))"

fun iwall_clear :: "int \<Rightarrow> int \<Rightarrow> int \<Rightarrow> int \<Rightarrow> nat \<Rightarrow> int \<Rightarrow> map_data list \<Rightarrow> map_data list" where
  "iwall_clear m x y dir 0 i maps = maps"
| "iwall_clear m x y dir (Suc n) i maps =
     (case map_iwall_nextxy x y dir i of (x1, y1) \<Rightarrow>
        iwall_clear m x y dir n (i + 1)
          (map_setcell (map_setcell maps m x1 y1 CELL_SHOOTABLE True) m x1 y1 CELL_WALKABLE True))"

definition map_iwall_remove :: "map_data list \<Rightarrow> iwall_db \<Rightarrow> string \<Rightarrow> bool \<times> map_data list \<times> iwall_db" where
  "map_iwall_remove maps wdb name =
     (case wdb (strdb_key name) of
        None \<Rightarrow> (False, maps, wdb)
      | Some w \<Rightarrow>
          (True, bump_iwalls (im w) (- 1) (iwall_clear (im w) (ix w) (iy w) (idir w) (nat (isize w)) 0 maps),
           wdb(strdb_key (wall_name w) := None)))"

section \<open>Gat types\<close>

text \<open>
  Reading a gat type into a cell and back gives the type, with the walkable
  types 2, 4 and 6 read back as 0 and unknown types as wall.
\<close>

theorem gat_roundtrip:
  "map_cell2gat (map_gat2cell gat) = (if gat \<in> {0, 2, 4, 6} then 0 else if gat = 3 then 3 else if gat = 5 then 5 else 1)"
  by (simp add: map_cell2gat_def map_gat2cell_def no_cell_def)

section \<open>Cells by position\<close>

definition map_ok :: "map_data \<Rightarrow> bool" where
  "map_ok md \<longleftrightarrow> 0 \<le> map_xs md \<and> 0 \<le> map_ys md \<and> map_xs md \<le> 32767 \<and> map_ys md \<le> 32767 \<and> length (mcell md) = nat (map_xs md * map_ys md)"

definition in_map :: "map_data \<Rightarrow> int \<Rightarrow> int \<Rightarrow> bool" where
  "in_map md x y \<longleftrightarrow> 0 \<le> x \<and> x < map_xs md \<and> 0 \<le> y \<and> y < map_ys md"

lemma cell_index_less:
  assumes "map_ok md" "in_map md x y"
  shows "cell_index md x y < length (mcell md)"
proof -
  have "x + y * map_xs md < map_xs md + y * map_xs md" using assms(2) by (simp add: in_map_def)
  also have "\<dots> = (y + 1) * map_xs md" by (simp add: algebra_simps)
  also have "\<dots> \<le> map_ys md * map_xs md" using assms by (intro mult_right_mono) (simp_all add: in_map_def)
  finally show ?thesis using assms by (simp add: cell_index_def map_ok_def in_map_def mult.commute)
qed

lemma cell_index_inj:
  assumes "in_map md x y" "in_map md x' y'" "cell_index md x y = cell_index md x' y'"
  shows "x = x' \<and> y = y'"
proof -
  have e: "x + y * map_xs md = x' + y' * map_xs md"
    using assms by (simp add: cell_index_def in_map_def nat_eq_iff)
  have "(x + y * map_xs md) mod map_xs md = x" "(x' + y' * map_xs md) mod map_xs md = x'"
    using assms(1,2) by (simp_all add: in_map_def)
  then have x: "x = x'" using e by simp
  then have "y * map_xs md = y' * map_xs md" using e by simp
  then show ?thesis using x assms(1) by (simp add: in_map_def)
qed

definition cell_at :: "map_data \<Rightarrow> int \<Rightarrow> int \<Rightarrow> mapcell" where
  "cell_at md x y = mcell md ! cell_index md x y"

definition maps_ok :: "map_data list \<Rightarrow> int \<Rightarrow> bool" where
  "maps_ok maps m \<longleftrightarrow> 0 \<le> m \<and> nat m < length maps \<and> map_ok (maps ! nat m)"

text \<open>\<open>maps'\<close> differs from \<open>maps\<close> in cells of the map \<open>m\<close> at most.\<close>

definition cells_of :: "int \<Rightarrow> map_data list \<Rightarrow> map_data list \<Rightarrow> bool" where
  "cells_of m maps maps' \<longleftrightarrow> length maps' = length maps \<and> (\<forall>k. k \<noteq> nat m \<longrightarrow> maps' ! k = maps ! k)
     \<and> map_xs (maps' ! nat m) = map_xs (maps ! nat m) \<and> map_ys (maps' ! nat m) = map_ys (maps ! nat m)
     \<and> length (mcell (maps' ! nat m)) = length (mcell (maps ! nat m))"

lemma cells_of_refl [simp]: "cells_of m maps maps"
  by (simp add: cells_of_def)

lemma cells_of_trans: "cells_of m a b \<Longrightarrow> cells_of m b c \<Longrightarrow> cells_of m a c"
  unfolding cells_of_def by (metis (no_types))

lemma cells_of_ok: "cells_of m maps maps' \<Longrightarrow> maps_ok maps m \<Longrightarrow> maps_ok maps' m"
  by (simp add: cells_of_def maps_ok_def map_ok_def)

lemma cells_of_in_map: "cells_of m maps maps' \<Longrightarrow> in_map (maps' ! nat m) x y = in_map (maps ! nat m) x y"
  by (simp add: cells_of_def in_map_def)

lemma map_setcell_cells:
  assumes "maps_ok maps m"
  shows "cells_of m maps (map_setcell maps m x y c b)"
    "in_map (maps ! nat m) x' y' \<Longrightarrow>
     cell_at (map_setcell maps m x y c b ! nat m) x' y' =
       (if x' = x \<and> y' = y then set_flag c b (cell_at (maps ! nat m) x y) else cell_at (maps ! nat m) x' y')"
proof -
  let ?md = "maps ! nat m"
  have ok: "0 \<le> m" "nat m < length maps" "map_ok ?md" using assms by (simp_all add: maps_ok_def)
  show "cells_of m maps (map_setcell maps m x y c b)"
    using ok by (auto simp: map_setcell_def cells_of_def Let_def)
  assume i: "in_map ?md x' y'"
  show "cell_at (map_setcell maps m x y c b ! nat m) x' y' =
     (if x' = x \<and> y' = y then set_flag c b (cell_at ?md x y) else cell_at ?md x' y')"
  proof (cases "in_map ?md x y")
    case False
    then have "map_setcell maps m x y c b = maps" by (auto simp: map_setcell_def in_map_def Let_def)
    then show ?thesis using False i by auto
  next
    case True
    have ci: "cell_index (?md\<lparr>mcell := l\<rparr>) = cell_index ?md" for l by (simp add: cell_index_def fun_eq_iff)
    have "cell_index ?md x y = cell_index ?md x' y' \<longleftrightarrow> x' = x \<and> y' = y"
      using cell_index_inj [OF i True] by auto
    then show ?thesis
      using True ok cell_index_less [OF ok(3) True]
      by (simp add: map_setcell_def in_map_def Let_def cell_at_def ci nth_list_update)
  qed
qed

section \<open>Walls set and removed\<close>

definition in_view :: "map_data \<Rightarrow> int \<Rightarrow> int \<Rightarrow> bool" where
  "in_view md x y \<longleftrightarrow> 0 \<le> x \<and> x < map_xs md - 1 \<and> 0 \<le> y \<and> y < map_ys md - 1"

text \<open>
  Between the building and the removal of a wall every cell that the tests can
  see is as before, or is a walkable cell of the wall that the removal restores.
\<close>

definition walled :: "int \<Rightarrow> (int \<times> int) set \<Rightarrow> map_data list \<Rightarrow> map_data list \<Rightarrow> bool" where
  "walled m K maps maps' \<longleftrightarrow> cells_of m maps maps' \<and>
     (\<forall>x y. in_view (maps ! nat m) x y \<longrightarrow>
        cell_at (maps' ! nat m) x y = cell_at (maps ! nat m) x y
        \<or> (x, y) \<in> K \<and> (cell_at (maps' ! nat m) x y)\<lparr>shootable := True, walkable := True\<rparr> = cell_at (maps ! nat m) x y)
     \<and> (\<forall>(x, y) \<in> K. in_view (maps ! nat m) x y \<longrightarrow>
          walkable (cell_at (maps ! nat m) x y) \<and> shootable (cell_at (maps ! nat m) x y))"

definition shoot_ok :: "map_data \<Rightarrow> bool" where
  "shoot_ok md \<longleftrightarrow> (\<forall>c \<in> set (mcell md). walkable c \<longrightarrow> shootable c)"

lemma in_view_map: "in_view md x y \<Longrightarrow> in_map md x y"
  by (simp add: in_view_def in_map_def)

lemma map_getcell_view:
  "0 \<le> m \<Longrightarrow> map_getcell maps m x y chk =
     (if in_view (maps ! nat m) x y then cell_test (cell_at (maps ! nat m) x y) chk else of_bool (chk = CELL_CHKNOPASS))"
  by (auto simp: map_getcell_def map_getcellp_def in_view_def cell_at_def)

lemma build_step:
  assumes ok: "maps_ok maps m" and s: "shoot_ok (maps ! nat m)" and w: "walled m K maps maps'"
    and free: "map_getcell maps' m x1 y1 CELL_CHKNOREACH = 0"
    and maps2: "maps2 = map_setcell (map_setcell maps' m x1 y1 CELL_WALKABLE False) m x1 y1 CELL_SHOOTABLE b"
  shows "walled m (insert (x1, y1) K) maps maps2"
proof -
  let ?a = "map_setcell maps' m x1 y1 CELL_WALKABLE False"
  have c: "cells_of m maps maps'" using w by (simp add: walled_def)
  note ok' = cells_of_ok [OF c ok]
  note A = map_setcell_cells [OF ok', where x = x1 and y = y1 and c = CELL_WALKABLE and b = False]
  note oka = cells_of_ok [OF A(1) ok']
  note B = map_setcell_cells [OF oka, where x = x1 and y = y1 and c = CELL_SHOOTABLE and b = b, folded maps2]
  have c2: "cells_of m maps maps2" using cells_of_trans [OF c cells_of_trans [OF A(1) B(1)]] .
  have cell: "cell_at (maps2 ! nat m) x y = (if x = x1 \<and> y = y1
      then (cell_at (maps' ! nat m) x y)\<lparr>walkable := False, shootable := b\<rparr> else cell_at (maps' ! nat m) x y)"
    if "in_view (maps ! nat m) x y" for x y
    using A(2) [where x' = x and y' = y] B(2) [where x' = x and y' = y] in_view_map [OF that] cells_of_in_map [OF c] cells_of_in_map [OF A(1)]
    by auto
  have orig: "walkable (cell_at (maps ! nat m) x1 y1) \<and> shootable (cell_at (maps ! nat m) x1 y1)
      \<and> (cell_at (maps' ! nat m) x1 y1)\<lparr>shootable := True, walkable := True\<rparr> = cell_at (maps ! nat m) x1 y1"
    if v: "in_view (maps ! nat m) x1 y1"
  proof -
    have v': "in_view (maps' ! nat m) x1 y1" using v c by (simp add: in_view_def cells_of_def)
    then have wk: "walkable (cell_at (maps' ! nat m) x1 y1)"
      using free ok by (simp add: map_getcell_view maps_ok_def)
    have "cell_at (maps ! nat m) x1 y1 \<in> set (mcell (maps ! nat m))"
      using cell_index_less [OF _ in_view_map [OF v]] ok by (simp add: cell_at_def maps_ok_def)
    then have sh: "walkable (cell_at (maps ! nat m) x1 y1) \<longrightarrow> shootable (cell_at (maps ! nat m) x1 y1)"
      using s by (simp add: shoot_ok_def)
    have "cell_at (maps' ! nat m) x1 y1 = cell_at (maps ! nat m) x1 y1
        \<or> (cell_at (maps' ! nat m) x1 y1)\<lparr>shootable := True, walkable := True\<rparr> = cell_at (maps ! nat m) x1 y1"
      using w v unfolding walled_def by blast
    then show ?thesis
    proof
      assume "cell_at (maps' ! nat m) x1 y1 = cell_at (maps ! nat m) x1 y1"
      then show ?thesis using wk sh by simp
    next
      assume e: "(cell_at (maps' ! nat m) x1 y1)\<lparr>shootable := True, walkable := True\<rparr> = cell_at (maps ! nat m) x1 y1"
      show ?thesis unfolding e [symmetric] by simp
    qed
  qed
  have "cell_at (maps2 ! nat m) x y = cell_at (maps ! nat m) x y
      \<or> (x, y) \<in> insert (x1, y1) K
        \<and> (cell_at (maps2 ! nat m) x y)\<lparr>shootable := True, walkable := True\<rparr> = cell_at (maps ! nat m) x y"
    if v: "in_view (maps ! nat m) x y" for x y
  proof (cases "x = x1 \<and> y = y1")
    case False
    then show ?thesis using w v cell [OF v] unfolding walled_def by auto
  next
    case True
    then show ?thesis using orig cell [OF v] v by simp
  qed
  then show ?thesis using c2 orig w by (simp add: walled_def)
qed

lemma iwall_build_walled:
  assumes ok: "maps_ok maps m" and s: "shoot_ok (maps ! nat m)"
  shows "walled m (map_iwall_nextxy x y dir ` {0..<i}) maps maps' \<Longrightarrow> 0 \<le> i \<Longrightarrow>
    iwall_build m x y dir b n i maps' = (len, maps2) \<Longrightarrow>
    walled m (map_iwall_nextxy x y dir ` {0..<len}) maps maps2 \<and> i \<le> len \<and> len \<le> i + int n"
proof (induction n arbitrary: i maps')
  case (Suc n)
  obtain x1 y1 where xy: "map_iwall_nextxy x y dir i = (x1, y1)" by fastforce
  show ?case
  proof (cases "map_getcell maps' m x1 y1 CELL_CHKNOREACH = 0")
    case False
    then show ?thesis using Suc.prems xy by simp
  next
    case True
    have "{0..<i + 1} = insert i {0..<i}" using Suc.prems(2) by auto
    then have "walled m (map_iwall_nextxy x y dir ` {0..<i + 1}) maps
        (map_setcell (map_setcell maps' m x1 y1 CELL_WALKABLE False) m x1 y1 CELL_SHOOTABLE b)"
      using build_step [OF ok s Suc.prems(1) True refl] xy by simp
    then show ?thesis using Suc.IH [of "i + 1"] Suc.prems(2,3) True xy by fastforce
  qed
qed simp

lemma clear_step:
  assumes ok: "maps_ok maps m" and w: "walled m (insert (x1, y1) K) maps maps'"
    and maps2: "maps2 = map_setcell (map_setcell maps' m x1 y1 CELL_SHOOTABLE True) m x1 y1 CELL_WALKABLE True"
  shows "walled m K maps maps2"
proof -
  let ?a = "map_setcell maps' m x1 y1 CELL_SHOOTABLE True"
  have c: "cells_of m maps maps'" using w by (simp add: walled_def)
  note ok' = cells_of_ok [OF c ok]
  note A = map_setcell_cells [OF ok', where x = x1 and y = y1 and c = CELL_SHOOTABLE and b = True]
  note oka = cells_of_ok [OF A(1) ok']
  note B = map_setcell_cells [OF oka, where x = x1 and y = y1 and c = CELL_WALKABLE and b = True, folded maps2]
  have c2: "cells_of m maps maps2" using cells_of_trans [OF c cells_of_trans [OF A(1) B(1)]] .
  have cell: "cell_at (maps2 ! nat m) x y = (if x = x1 \<and> y = y1
      then (cell_at (maps' ! nat m) x y)\<lparr>shootable := True, walkable := True\<rparr> else cell_at (maps' ! nat m) x y)"
    if "in_view (maps ! nat m) x y" for x y
    using A(2) [where x' = x and y' = y] B(2) [where x' = x and y' = y] in_view_map [OF that] cells_of_in_map [OF c] cells_of_in_map [OF A(1)]
    by auto
  have "cell_at (maps2 ! nat m) x y = cell_at (maps ! nat m) x y
      \<or> (x, y) \<in> K \<and> (cell_at (maps2 ! nat m) x y)\<lparr>shootable := True, walkable := True\<rparr> = cell_at (maps ! nat m) x y"
    if v: "in_view (maps ! nat m) x y" for x y
  proof (cases "x = x1 \<and> y = y1")
    case False
    then show ?thesis using w v cell [OF v] unfolding walled_def by auto
  next
    case True
    let ?o = "cell_at (maps ! nat m) x1 y1" and ?c = "cell_at (maps' ! nat m) x1 y1"
    have "walkable ?o \<and> shootable ?o" "?c = ?o \<or> ?c\<lparr>shootable := True, walkable := True\<rparr> = ?o"
      using w v True unfolding walled_def by blast+
    then have "?c\<lparr>shootable := True, walkable := True\<rparr> = ?o" by (auto intro: mapcell.equality)
    then show ?thesis using True cell [OF v] by simp
  qed
  then show ?thesis using c2 w by (simp add: walled_def)
qed

lemma iwall_clear_walled:
  assumes "maps_ok maps m"
  shows "walled m (map_iwall_nextxy x y dir ` {i..<i + int n}) maps maps' \<Longrightarrow>
    walled m {} maps (iwall_clear m x y dir n i maps')"
proof (induction n arbitrary: i maps')
  case (Suc n)
  obtain x1 y1 where xy: "map_iwall_nextxy x y dir i = (x1, y1)" by fastforce
  have "{i..<i + int (Suc n)} = insert i {i + 1..<(i + 1) + int n}" by auto
  then have "walled m (insert (x1, y1) (map_iwall_nextxy x y dir ` {i + 1..<(i + 1) + int n})) maps maps'"
    using Suc.prems xy by simp
  then show ?case using Suc.IH [OF clear_step [OF assms _ refl]] xy by simp
qed simp

lemma walled_refl: "walled m {} maps maps"
  by (simp add: walled_def)

lemma walled_bump:
  assumes "walled m K maps maps'" "maps_ok maps m"
  shows "walled m K maps (bump_iwalls m d maps')"
proof -
  have c: "cells_of m maps' (bump_iwalls m d maps')" "cell_at (bump_iwalls m d maps' ! nat m) = cell_at (maps' ! nat m)"
    using assms by (auto simp: bump_iwalls_def walled_def cells_of_def maps_ok_def cell_at_def cell_index_def fun_eq_iff)
  then show ?thesis using assms(1) cells_of_trans [OF _ c(1)] by (simp add: walled_def)
qed

lemma iwall_num_setcell [simp]: "iwall_num (map_setcell maps m x y c b ! k) = iwall_num (maps ! k)"
  by (simp add: map_setcell_def Let_def nth_update_same [where f = iwall_num])

lemma iwall_num_build: "iwall_build m x y dir b n i maps = (len, maps') \<Longrightarrow> iwall_num (maps' ! k) = iwall_num (maps ! k)"
  by (induction n arbitrary: i maps) (force split: prod.splits if_splits)+

lemma iwall_num_clear: "iwall_num (iwall_clear m x y dir n i maps ! k) = iwall_num (maps ! k)"
  by (induction n arbitrary: i maps) (auto split: prod.splits)

lemma walled_view:
  assumes "walled m {} maps maps'" "maps_ok maps m"
  shows "map_getcell maps' k x y chk = map_getcell maps k x y chk"
proof (cases "nat k = nat m \<and> 0 \<le> k")
  case True
  then have "k = m" using assms(2) by (metis eq_nat_nat_iff maps_ok_def)
  then show ?thesis using assms unfolding walled_def by (auto simp: map_getcell_view maps_ok_def in_view_def cells_of_def)
next
  case False
  then show ?thesis using assms(1) by (auto simp: walled_def cells_of_def map_getcell_def)
qed

text \<open>
  C22. Setting an invisible wall and removing it by its name leaves the wall
  table, the counter of walls and the answer of every cell test as they were, on
  a map whose walkable cells are shootable (as all cells read from gat types
  are), for a name that fits the record and a length that fits a short.
\<close>

theorem iwall_roundtrip:
  assumes "maps_ok maps m" "shoot_ok (maps ! nat m)" "length name \<le> 49" "len0 \<le> 32767"
    "map_iwall_set maps wdb m x y len0 dir b name = (True, maps1, wdb1)"
    "map_iwall_remove maps1 wdb1 name = (r, maps2, wdb2)"
  shows "r \<and> wdb2 = wdb \<and> iwall_num (maps2 ! nat m) = iwall_num (maps ! nat m)
    \<and> (\<forall>k x y chk. map_getcell maps2 k x y chk = map_getcell maps k x y chk)"
proof -
  obtain len mb where b: "iwall_build m x y dir b (nat len0) 0 maps = (len, mb)" by fastforce
  let ?w = "\<lparr>wall_name = name, im = m, ix = x, iy = y, isize = s16 len, idir = dir, ishootable = b\<rparr>"
  have key: "strdb_key (take 49 name) = name" "strdb_key name = name" "take 49 name = name"
    using assms(3) by (simp_all add: strdb_key_def)
  have set: "maps1 = bump_iwalls m 1 mb" "wdb1 = wdb(name \<mapsto> ?w)" "wdb name = None"
    using assms(5) b by (auto simp: map_iwall_set_def key split: if_splits)
  have W: "walled m (map_iwall_nextxy x y dir ` {0..<len}) maps mb \<and> 0 \<le> len \<and> len \<le> int (nat len0)"
    using iwall_build_walled [OF assms(1,2) _ order_refl b] by (simp add: walled_refl)
  then have "0 \<le> len" "len \<le> 32767" using assms(4) by linarith+
  then have len: "int (nat (s16 len)) = len" by simp
  let ?c = "iwall_clear m x y dir (nat (s16 len)) 0 maps1"
  have "walled m (map_iwall_nextxy x y dir ` {0..<0 + int (nat (s16 len))}) maps maps1"
    unfolding len set(1) add_0 using walled_bump [OF _ assms(1)] W by blast
  from iwall_clear_walled [OF assms(1) this] have C: "walled m {} maps ?c" .
  have rem: "r" "maps2 = bump_iwalls m (- 1) ?c" "wdb2 = wdb1(name := None)"
    using assms(6) by (auto simp: map_iwall_remove_def set(2) key)
  have V: "walled m {} maps maps2" using walled_bump [OF C assms(1)] by (simp add: rem(2))
  have l: "nat m < length mb" "nat m < length ?c"
    using W C assms(1) by (auto simp: walled_def cells_of_def maps_ok_def)
  have "iwall_num (maps2 ! nat m) = iwall_num (maps ! nat m)"
    using l iwall_num_clear iwall_num_build [OF b] by (simp add: rem(2) set(1) bump_iwalls_def)
  moreover have "wdb2 = wdb" using set(2,3) rem(3) by auto
  ultimately show ?thesis using walled_view [OF V assms(1)] rem(1) by blast
qed

definition sample_map :: map_data where
  "sample_map = \<lparr>map_xs = 6, map_ys = 5, mcell = map map_gat2cell
     [0,0,0,0,0,0, 0,3,5,0,0,0, 0,0,0,1,0,0, 0,0,0,0,0,0, 0,0,0,0,0,1], iwall_num = 0\<rparr>"

lemma sample_map_ok: "maps_ok [sample_map] 0" "shoot_ok ([sample_map] ! nat 0)"
  by code_simp+

definition walled_map :: "map_data list" where
  "walled_map = snd (iwall_build 0 3 0 2 True 9 0 [sample_map])"

definition sample_wall :: iwall_data where
  "sample_wall = \<lparr>wall_name = ''w'', im = 0, ix = 3, iy = 0, isize = 9, idir = 2, ishootable = True\<rparr>"

definition unwalled_map :: "map_data list" where
  "unwalled_map = bump_iwalls 0 (- 1) (iwall_clear 0 3 0 2 9 0 (bump_iwalls 0 1 walled_map))"

lemma sample_wall_built: "iwall_build 0 3 0 2 True 9 0 [sample_map] = (9, walled_map)"
  unfolding walled_map_def by (subst prod.collapse [symmetric], simp only: prod.inject, code_simp)

theorem iwall_roundtrip_witness:
  "iwall_num (unwalled_map ! nat 0) = iwall_num ([sample_map] ! nat 0) \<and>
   (\<forall>k x y chk. map_getcell unwalled_map k x y chk = map_getcell [sample_map] k x y chk)"
proof -
  have f: "map_getcell [sample_map] 0 3 0 CELL_CHKNOREACH = 0" by code_simp
  have S: "map_iwall_set [sample_map] (\<lambda>_. None) 0 3 0 9 2 True ''w''
      = (True, bump_iwalls 0 1 walled_map, [''w'' \<mapsto> sample_wall])"
    by (simp add: map_iwall_set_def f strdb_key_def sample_wall_built sample_wall_def)
  have R: "map_iwall_remove (bump_iwalls 0 1 walled_map) [''w'' \<mapsto> sample_wall] ''w'' = (True, unwalled_map, \<lambda>_. None)"
    by (simp add: map_iwall_remove_def strdb_key_def sample_wall_def unwalled_map_def)
  from iwall_roundtrip [OF sample_map_ok _ _ S R] show ?thesis by simp
qed

end
