(* ===== verification/Path.thy ===== *)
theory Path
  imports Timer Map_Cells
begin

text \<open>
  The path functions of map/path.cpp: knockback, line of sight, and the search for
  walking paths, straight or by A* over a table of nodes with a heap of the
  open ones. A pointer to a node is its index in the table.
\<close>

section \<open>Directions and distances\<close>

datatype directions = DIR_CENTER | DIR_NORTH | DIR_NORTHWEST | DIR_WEST | DIR_SOUTHWEST | DIR_SOUTH
  | DIR_SOUTHEAST | DIR_EAST | DIR_NORTHEAST

definition walk_choices :: "directions list list" where
  "walk_choices =
     [[DIR_NORTHWEST, DIR_NORTH, DIR_NORTHEAST],
      [DIR_WEST, DIR_CENTER, DIR_EAST],
      [DIR_SOUTHWEST, DIR_SOUTH, DIR_SOUTHEAST]]"

definition walk_choice :: "int \<Rightarrow> int \<Rightarrow> directions" where
  "walk_choice dx dy = walk_choices ! nat (- dy + 1) ! nat (dx + 1)"

definition direction_diagonal :: "directions \<Rightarrow> bool" where
  "direction_diagonal d \<longleftrightarrow> d = DIR_NORTHWEST \<or> d = DIR_SOUTHWEST \<or> d = DIR_SOUTHEAST \<or> d = DIR_NORTHEAST"

definition distance :: "int \<Rightarrow> int \<Rightarrow> int" where
  "distance dx dy =
     (let dx = (if dx < 0 then - dx else dx); dy = (if dy < 0 then - dy else dy)
      in if dx < dy then dy else dx)"

definition MOVE_COST :: int where "MOVE_COST = 10"
definition MOVE_DIAGONAL_COST :: int where "MOVE_DIAGONAL_COST = 14"
definition MAX_WALKPATH :: nat where "MAX_WALKPATH = 32"

section \<open>Knockback\<close>

text \<open>
  The settings are \<open>path_blown_halt\<close> and \<open>cell_pvp_prevent_blown\<close>; \<open>rnd c\<close> is the
  random number drawn in the round with \<open>c\<close> rounds to go.
\<close>

definition blown_slide :: "map_data \<Rightarrow> int \<Rightarrow> int \<Rightarrow> int \<Rightarrow> int \<Rightarrow> int \<Rightarrow> int \<times> int" where
  "blown_slide md r x0 y0 dx dy =
     (let fx = (dx \<noteq> 0 \<and> map_getcellp md (x0 + dx) y0 CELL_CHKPASS \<noteq> 0);
          fy = (dy \<noteq> 0 \<and> map_getcellp md x0 (y0 + dy) CELL_CHKPASS \<noteq> 0)
      in (if \<not> fx \<or> fx \<and> fy \<and> odd r then 0 else dx, if \<not> fy \<or> fx \<and> fy \<and> even r then 0 else dy))"

primrec blown_loop :: "bool \<Rightarrow> bool \<Rightarrow> map_data \<Rightarrow> (nat \<Rightarrow> int) \<Rightarrow> nat \<Rightarrow> int \<Rightarrow> int \<Rightarrow> int \<Rightarrow> int \<Rightarrow> int \<times> int" where
  "blown_loop halt pvpb md rnd 0 x0 y0 dx dy = (x0, y0)"
| "blown_loop halt pvpb md rnd (Suc c) x0 y0 dx dy =
     (if dx = 0 \<and> dy = 0 then (x0, y0)
      else
        let blocked = (map_getcellp md (x0 + dx) (y0 + dy) CELL_CHKPASS = 0)
        in if blocked \<and> halt then (x0, y0)
           else case (if blocked then blown_slide md (rnd (Suc c)) x0 y0 dx dy else (dx, dy)) of (dx, dy) \<Rightarrow>
             if pvpb \<and> map_getcellp md x0 y0 CELL_CHKPVP \<noteq> 0 \<and> map_getcellp md (x0 + dx) (y0 + dy) CELL_CHKPVP = 0
             then (x0, y0)
             else blown_loop halt pvpb md rnd c (x0 + dx) (y0 + dy) dx dy)"

definition sgn1 :: "int \<Rightarrow> int" where
  "sgn1 d = (if d > 0 then 1 else if d < 0 then -1 else 0)"

definition path_blownpos ::
    "bool \<Rightarrow> bool \<Rightarrow> map_data \<Rightarrow> (nat \<Rightarrow> int) \<Rightarrow> int \<Rightarrow> int \<Rightarrow> int \<Rightarrow> int \<Rightarrow> int \<Rightarrow> int" where
  "path_blownpos halt pvpb md rnd x0 y0 dx dy cnt =
     (if mcell md = [] then -1
      else
        let cnt = (if cnt > 25 then 25 else cnt);
            illegal = (dx > 1 \<or> dx < -1 \<or> dy > 1 \<or> dy < -1);
            dx = (if illegal then sgn1 dx else dx);
            dy = (if illegal then sgn1 dy else dy)
        in case blown_loop halt pvpb md rnd (nat cnt) x0 y0 dx dy of (x, y) \<Rightarrow> or (push_bit 16 x) y)"

section \<open>Line of sight\<close>

record shootpath_data =
  srx :: int
  sry :: int
  scells :: "(int \<times> int) list"

text \<open>
  The loop of \<open>path_search_long\<close>. The code has no bound on its rounds; the fuel
  is the larger of the two distances, and None means that it was not enough.
\<close>

definition long_step :: "int \<Rightarrow> int \<Rightarrow> int \<Rightarrow> int \<times> int \<times> int \<times> int \<Rightarrow> int \<times> int \<times> int \<times> int" where
  "long_step dx dy weight st =
     (case st of (x0, y0, wx, wy) \<Rightarrow>
        let wx = wx + dx; wy = wy + dy;
            (wx, x0) = (if wx \<ge> weight then (wx - weight, x0 + 1) else (wx, x0));
            (wy, y0) = (if wy \<ge> weight then (wy - weight, y0 + 1)
                        else if wy < 0 then (wy + weight, y0 - 1) else (wy, y0))
        in (x0, y0, wx, wy))"

fun long_loop ::
    "map_data \<Rightarrow> cell_chk \<Rightarrow> int \<Rightarrow> int \<Rightarrow> int \<Rightarrow> int \<Rightarrow> int \<Rightarrow> nat \<Rightarrow> int \<times> int \<times> int \<times> int \<Rightarrow> (int \<times> int) list
     \<Rightarrow> (bool \<times> (int \<times> int) list) option" where
  "long_loop md cell dx dy weight x1 y1 fuel st path =
     (if fst st = x1 \<and> fst (snd st) = y1 then Some (True, path)
      else case fuel of
        0 \<Rightarrow> None
      | Suc fuel \<Rightarrow>
          let st = long_step dx dy weight st; x0 = fst st; y0 = fst (snd st);
              path = (if length path < MAX_WALKPATH then path @ [(x0, y0)] else path)
          in if (x0 \<noteq> x1 \<or> y0 \<noteq> y1) \<and> map_getcellp md x0 y0 cell \<noteq> 0 then Some (False, path)
             else long_loop md cell dx dy weight x1 y1 fuel st path)"

declare long_loop.simps [simp del]

text \<open>Without cells the answer is false and the output is not written.\<close>

definition path_search_long ::
    "map_data \<Rightarrow> int \<Rightarrow> int \<Rightarrow> int \<Rightarrow> int \<Rightarrow> cell_chk \<Rightarrow> (bool \<times> shootpath_data option) option" where
  "path_search_long md x0 y0 x1 y1 cell =
     (if mcell md = [] then Some (False, None)
      else
        let dx = x1 - x0;
            (x0, x1, y0, y1, dx) = (if dx < 0 then (x1, x0, y1, y0, - dx) else (x0, x1, y0, y1, dx));
            dy = y1 - y0;
            (weight, rx, ry) = (if dx > \<bar>dy\<bar> then (dx, 0, 1) else (\<bar>y1 - y0\<bar>, 1, 0))
        in case long_loop md cell dx dy weight x1 y1 (nat weight) (x0, y0, 0, 0) [(x0, y0)] of
             None \<Rightarrow> None
           | Some (r, path) \<Rightarrow> Some (r, Some \<lparr>srx = rx, sry = ry, scells = path\<rparr>))"

section \<open>A*\<close>

record path_node =
  parent :: "nat option"
  nx :: int
  ny :: int
  g_cost :: int
  f_cost :: int
  nclosed :: bool

definition zero_node :: path_node where
  "zero_node = \<lparr>parent = None, nx = 0, ny = 0, g_cost = 0, f_cost = 0, nclosed = False\<rparr>"

definition NODE_MINTOPCMP :: "path_node list \<Rightarrow> nat \<Rightarrow> nat \<Rightarrow> int" where
  "NODE_MINTOPCMP tp i j = f_cost (tp ! i) - f_cost (tp ! j)"

definition calc_index :: "int \<Rightarrow> int \<Rightarrow> nat" where
  "calc_index x y = nat ((x + y * 32) mod 1024)"

definition heuristic :: "int \<Rightarrow> int \<Rightarrow> int \<Rightarrow> int \<Rightarrow> int" where
  "heuristic x0 y0 x1 y1 = MOVE_COST * (\<bar>x1 - x0\<bar> + \<bar>y1 - y0\<bar>)"

definition heap_push_node :: "path_node list \<Rightarrow> nat list \<Rightarrow> nat \<Rightarrow> nat list" where
  "heap_push_node tp heap node = BHEAP_PUSH2 (NODE_MINTOPCMP tp) heap node"

definition heap_update_node :: "path_node list \<Rightarrow> nat list \<Rightarrow> nat \<Rightarrow> int \<times> nat list" where
  "heap_update_node tp heap node =
     (let i = arr_find (\<lambda>n. n = node) heap
      in if i = length heap then (1, heap) else (0, BHEAP_UPDATE (NODE_MINTOPCMP tp) heap i))"

definition add_path ::
    "nat list \<Rightarrow> path_node list \<Rightarrow> int \<Rightarrow> int \<Rightarrow> int \<Rightarrow> nat \<Rightarrow> int \<Rightarrow> int \<times> nat list \<times> path_node list" where
  "add_path heap tp x y g from0 h =
     (let i = calc_index x y; nd = tp ! i
      in if nx nd = x \<and> ny nd = y then
           (if g < g_cost nd then
              let tp = tp[i := nd\<lparr>g_cost := s16 g, parent := Some from0, f_cost := s16 (g + h)\<rparr>]
              in if nclosed nd then (0, heap_push_node tp heap i, tp[i := (tp ! i)\<lparr>nclosed := False\<rparr>])
                 else case heap_update_node tp heap i of (e, heap) \<Rightarrow>
                   if e \<noteq> 0 then (1, heap, tp) else (0, heap, tp[i := (tp ! i)\<lparr>nclosed := False\<rparr>])
            else (0, heap, tp))
         else if nx nd \<noteq> 0 \<or> ny nd \<noteq> 0 then (1, heap, tp)
         else
           let tp = tp[i := \<lparr>parent = Some from0, nx = x, ny = y, g_cost = s16 g, f_cost = s16 (g + h), nclosed = False\<rparr>]
           in (0, heap_push_node tp heap i, tp))"

text \<open>The moves from a cell in the order the code tries them: offset and cost.\<close>

definition neighbours :: "map_data \<Rightarrow> cell_chk \<Rightarrow> int \<Rightarrow> int \<Rightarrow> (int \<times> int \<times> int) list" where
  "neighbours md cell x y =
     (let free = (\<lambda>x y. map_getcellp md x y cell = 0);
          n = (y < map_ys md - 1 \<and> free x (y + 1)); s = (y > 0 \<and> free x (y - 1));
          e = (x < map_xs md - 1 \<and> free (x + 1) y); w = (x > 0 \<and> free (x - 1) y)
      in (if s \<and> e \<and> free (x + 1) (y - 1) then [(1, -1, MOVE_DIAGONAL_COST)] else [])
       @ (if e then [(1, 0, MOVE_COST)] else [])
       @ (if n \<and> e \<and> free (x + 1) (y + 1) then [(1, 1, MOVE_DIAGONAL_COST)] else [])
       @ (if n then [(0, 1, MOVE_COST)] else [])
       @ (if n \<and> w \<and> free (x - 1) (y + 1) then [(-1, 1, MOVE_DIAGONAL_COST)] else [])
       @ (if w then [(-1, 0, MOVE_COST)] else [])
       @ (if s \<and> w \<and> free (x - 1) (y - 1) then [(-1, -1, MOVE_DIAGONAL_COST)] else [])
       @ (if s then [(0, -1, MOVE_COST)] else []))"

text \<open>The calls of \<open>add_path\<close> for the moves; the sum of their errors.\<close>

fun add_moves :: "int \<Rightarrow> int \<Rightarrow> int \<Rightarrow> int \<Rightarrow> int \<Rightarrow> nat \<Rightarrow> (int \<times> int \<times> int) list
    \<Rightarrow> nat list \<Rightarrow> path_node list \<Rightarrow> int \<times> nat list \<times> path_node list" where
  "add_moves x1 y1 x y g cur [] heap tp = (0, heap, tp)"
| "add_moves x1 y1 x y g cur ((dx, dy, c) # ms) heap tp =
     (case add_path heap tp (x + dx) (y + dy) (g + c) cur (heuristic (x + dx) (y + dy) x1 y1) of
        (e, heap, tp) \<Rightarrow> (case add_moves x1 y1 x y g cur ms heap tp of (e', heap, tp) \<Rightarrow> (e + e', heap, tp)))"

text \<open>One round of the loop: None when the search fails, otherwise the current node and the new state.\<close>

definition astar_round :: "map_data \<Rightarrow> cell_chk \<Rightarrow> int \<Rightarrow> int \<Rightarrow> nat list \<Rightarrow> path_node list
    \<Rightarrow> (nat \<times> bool \<times> nat list \<times> path_node list) option" where
  "astar_round md cell x1 y1 heap tp =
     (if heap = [] then None
      else
        let cur = BHEAP_PEEK heap;
            heap = BHEAP_POP2 (NODE_MINTOPCMP tp) heap;
            x = nx (tp ! cur); y = ny (tp ! cur); g = g_cost (tp ! cur);
            tp = tp[cur := (tp ! cur)\<lparr>nclosed := True\<rparr>]
        in if x = x1 \<and> y = y1 then Some (cur, True, heap, tp)
           else case add_moves x1 y1 x y g cur (neighbours md cell x y) heap tp of
             (e, heap, tp) \<Rightarrow> if e \<noteq> 0 then None else Some (cur, False, heap, tp))"

text \<open>
  None: out of fuel; Some None: no path; otherwise the node of the destination
  and the table.
\<close>

fun astar_loop :: "map_data \<Rightarrow> cell_chk \<Rightarrow> int \<Rightarrow> int \<Rightarrow> nat \<Rightarrow> nat list \<Rightarrow> path_node list
    \<Rightarrow> (nat \<times> path_node list) option option" where
  "astar_loop md cell x1 y1 0 heap tp = None"
| "astar_loop md cell x1 y1 (Suc fuel) heap tp =
     (case astar_round md cell x1 y1 heap tp of
        None \<Rightarrow> Some None
      | Some (cur, finished, heap, tp) \<Rightarrow>
          if finished then Some (Some (cur, tp)) else astar_loop md cell x1 y1 fuel heap tp)"

text \<open>The directions from the start to a node, read along the parents; None if they do not end in \<open>fuel\<close> steps.\<close>

fun path_back :: "path_node list \<Rightarrow> nat \<Rightarrow> nat \<Rightarrow> directions list option" where
  "path_back tp fuel i =
     (case parent (tp ! i) of
        None \<Rightarrow> Some []
      | Some p \<Rightarrow>
          (case fuel of
             0 \<Rightarrow> None
           | Suc fuel \<Rightarrow>
               map_option (\<lambda>ds. ds @ [walk_choice (nx (tp ! i) - nx (tp ! p)) (ny (tp ! i) - ny (tp ! p))])
                 (path_back tp fuel p)))"

declare path_back.simps [simp del]

definition astar :: "map_data \<Rightarrow> cell_chk \<Rightarrow> nat \<Rightarrow> int \<Rightarrow> int \<Rightarrow> int \<Rightarrow> int \<Rightarrow> directions list option option" where
  "astar md cell fuel x0 y0 x1 y1 =
     (let i = calc_index x0 y0;
          tp = (replicate (MAX_WALKPATH * MAX_WALKPATH) zero_node)[i :=
                 \<lparr>parent = None, nx = x0, ny = y0, g_cost = 0, f_cost = s16 (heuristic x0 y0 x1 y1), nclosed = False\<rparr>]
      in case astar_loop md cell x1 y1 fuel (heap_push_node tp [] i) tp of
           None \<Rightarrow> None
         | Some None \<Rightarrow> Some None
         | Some (Some (cur, tp)) \<Rightarrow>
             (case path_back tp fuel cur of
                None \<Rightarrow> None
              | Some ds \<Rightarrow> Some (if length ds > MAX_WALKPATH then None else Some ds)))"

section \<open>The straight path\<close>

text \<open>
  \<open>n\<close> is the room left in the path array. The result is the path and the cell
  where the loop ended.
\<close>

primrec easy_loop :: "map_data \<Rightarrow> cell_chk \<Rightarrow> int \<Rightarrow> int \<Rightarrow> nat \<Rightarrow> int \<Rightarrow> int \<Rightarrow> int \<Rightarrow> int \<Rightarrow> directions list \<times> int \<times> int" where
  "easy_loop md cell x1 y1 0 x y dx dy = ([], x, y)"
| "easy_loop md cell x1 y1 (Suc n) x y dx dy =
     (let d = walk_choice dx dy; x = x + dx; y = y + dy;
          dx = (if x = x1 then 0 else dx); dy = (if y = y1 then 0 else dy)
      in if dx = 0 \<and> dy = 0 \<or> map_getcellp md x y cell \<noteq> 0 then ([d], x, y)
         else case easy_loop md cell x1 y1 n x y dx dy of (ds, x, y) \<Rightarrow> (d # ds, x, y))"

definition easy_path :: "map_data \<Rightarrow> cell_chk \<Rightarrow> int \<Rightarrow> int \<Rightarrow> int \<Rightarrow> int \<Rightarrow> directions list option" where
  "easy_path md cell x0 y0 x1 y1 =
     (case easy_loop md cell x1 y1 MAX_WALKPATH x0 y0 (sgn1 (x1 - x0)) (sgn1 (y1 - y0)) of
        (ds, x, y) \<Rightarrow> if x = x1 \<and> y = y1 then Some ds else None)"

section \<open>Path search\<close>

text \<open>
  \<open>leave\<close> is the \<open>cell_pvp_canleave_tick\<close> of the walker when it is a player; \<open>now\<close>
  is the tick and \<open>delay\<close> the setting \<open>cell_pvp_delay_leave\<close>. The result is the
  answer and the path written to \<open>wpd\<close>, if any; None: the search ran out of fuel.
\<close>

definition path_search_sub ::
    "int option \<Rightarrow> int \<Rightarrow> int \<Rightarrow> nat \<Rightarrow> map_data \<Rightarrow> int \<Rightarrow> int \<Rightarrow> int \<Rightarrow> int \<Rightarrow> int \<Rightarrow> cell_chk
     \<Rightarrow> (bool \<times> directions list option) option" where
  "path_search_sub leave now delay fuel md x0 y0 x1 y1 flag cell =
     (let found = (\<lambda>p. (p \<noteq> None, p))
      in if bit flag 1 then map_option (\<lambda>r. (fst r, None)) (path_search_long md x0 y0 x1 y1 cell)
         else if mcell md = [] then Some (False, None)
         else if leave \<noteq> None \<and> delay > 0 \<and> map_getcellp md x0 y0 CELL_CHKPVP \<noteq> 0
           \<and> map_getcellp md x1 y1 CELL_CHKPVP = 0 \<and> DIFF_TICK now (the leave) < delay then Some (False, None)
         else if x0 < 0 \<or> x0 \<ge> map_xs md \<or> y0 < 0 \<or> y0 \<ge> map_ys md then Some (False, None)
         else if x1 < 0 \<or> x1 \<ge> map_xs md \<or> y1 < 0 \<or> y1 \<ge> map_ys md \<or> map_getcellp md x1 y1 cell \<noteq> 0
         then Some (False, None)
         else if bit flag 0 then Some (found (easy_path md cell x0 y0 x1 y1))
         else map_option found (astar md cell fuel x0 y0 x1 y1))"

end
