(* ===== verification/Path_Search.thy ===== *)
theory Path_Search
  imports Path
begin

text \<open>
  The A* search of \<open>path_search_sub\<close>: the invariant of its node table and heap,
  the soundness of the path it returns, and the end of its loop.
\<close>

section \<open>Legal walks\<close>

fun delta :: "directions \<Rightarrow> int \<times> int" where
  "delta DIR_CENTER = (0, 0)"
| "delta DIR_NORTH = (0, 1)"
| "delta DIR_NORTHWEST = (-1, 1)"
| "delta DIR_WEST = (-1, 0)"
| "delta DIR_SOUTHWEST = (-1, -1)"
| "delta DIR_SOUTH = (0, -1)"
| "delta DIR_SOUTHEAST = (1, -1)"
| "delta DIR_EAST = (1, 0)"
| "delta DIR_NORTHEAST = (1, 1)"

definition free_cell :: "map_data \<Rightarrow> cell_chk \<Rightarrow> int \<Rightarrow> int \<Rightarrow> bool" where
  "free_cell md cell x y \<longleftrightarrow> in_map md x y \<and> map_getcellp md x y cell = 0"

definition leg_ok :: "map_data \<Rightarrow> cell_chk \<Rightarrow> int \<Rightarrow> int \<Rightarrow> int \<Rightarrow> int \<Rightarrow> bool" where
  "leg_ok md cell x y x' y' \<longleftrightarrow> \<bar>x' - x\<bar> \<le> 1 \<and> \<bar>y' - y\<bar> \<le> 1 \<and> (x' \<noteq> x \<or> y' \<noteq> y) \<and> free_cell md cell x' y'
     \<and> (x' \<noteq> x \<and> y' \<noteq> y \<longrightarrow> free_cell md cell x' y \<and> free_cell md cell x y')"

text \<open>A walk makes legal legs only: free cells, no corner cut, and it ends at the goal.\<close>

fun walk_ok :: "map_data \<Rightarrow> cell_chk \<Rightarrow> int \<Rightarrow> int \<Rightarrow> directions list \<Rightarrow> int \<Rightarrow> int \<Rightarrow> bool" where
  "walk_ok md cell x y [] x1 y1 = (x = x1 \<and> y = y1)"
| "walk_ok md cell x y (d # ds) x1 y1 =
     (leg_ok md cell x y (x + fst (delta d)) (y + snd (delta d))
      \<and> walk_ok md cell (x + fst (delta d)) (y + snd (delta d)) ds x1 y1)"

lemma walk_choice_delta:
  assumes "\<bar>dx\<bar> \<le> 1" "\<bar>dy\<bar> \<le> 1"
  shows "delta (walk_choice dx dy) = (dx, dy)"
proof -
  have "dx = -1 \<or> dx = 0 \<or> dx = 1" "dy = -1 \<or> dy = 0 \<or> dy = 1" using assms by auto
  then show ?thesis by (elim disjE) (simp_all add: walk_choice_def walk_choices_def nat_numeral)
qed

lemma walk_ok_snoc:
  "walk_ok md cell x y ds x1 y1 \<Longrightarrow> leg_ok md cell x1 y1 x2 y2 \<Longrightarrow>
   walk_ok md cell x y (ds @ [walk_choice (x2 - x1) (y2 - y1)]) x2 y2"
proof (induction ds arbitrary: x y)
  case Nil
  then have "delta (walk_choice (x2 - x1) (y2 - y1)) = (x2 - x1, y2 - y1)"
    by (intro walk_choice_delta) (simp_all add: leg_ok_def)
  then show ?case using Nil by simp
qed simp

lemma neighbours_leg:
  assumes "(dx, dy, c) \<in> set (neighbours md cell x y)" "in_map md x y"
  shows "leg_ok md cell x y (x + dx) (y + dy)" "0 < c" "c \<le> 14"
  using assms
  by (auto simp: neighbours_def Let_def leg_ok_def free_cell_def in_map_def MOVE_COST_def MOVE_DIAGONAL_COST_def
      split: if_splits)

section \<open>The invariant\<close>

definition nodes :: "nat \<Rightarrow> path_node list \<Rightarrow> nat set" where
  "nodes s tp = {i. i < length tp \<and> (i = s \<or> parent (tp ! i) \<noteq> None)}"

definition node_ok :: "map_data \<Rightarrow> nat \<Rightarrow> path_node list \<Rightarrow> nat \<Rightarrow> bool" where
  "node_ok md s tp i \<longleftrightarrow> in_map md (nx (tp ! i)) (ny (tp ! i)) \<and> (nx (tp ! i) \<noteq> 0 \<or> ny (tp ! i) \<noteq> 0)
     \<and> 0 \<le> g_cost (tp ! i) \<and> g_cost (tp ! i) + 14 \<le> 14 * int (card (nodes s tp))"

definition link_ok :: "map_data \<Rightarrow> cell_chk \<Rightarrow> nat \<Rightarrow> path_node list \<Rightarrow> nat \<Rightarrow> nat \<Rightarrow> bool" where
  "link_ok md cell s tp i p \<longleftrightarrow> p \<in> nodes s tp
     \<and> leg_ok md cell (nx (tp ! p)) (ny (tp ! p)) (nx (tp ! i)) (ny (tp ! i)) \<and> g_cost (tp ! p) < g_cost (tp ! i)"

definition table_ok :: "map_data \<Rightarrow> cell_chk \<Rightarrow> int \<Rightarrow> int \<Rightarrow> nat \<Rightarrow> path_node list \<Rightarrow> bool" where
  "table_ok md cell x0 y0 s tp \<longleftrightarrow>
     length tp = 1024 \<and> s < 1024 \<and> parent (tp ! s) = None \<and> nx (tp ! s) = x0 \<and> ny (tp ! s) = y0 \<and> g_cost (tp ! s) = 0
     \<and> (\<forall>i \<in> nodes s tp. node_ok md s tp i)
     \<and> (\<forall>i < 1024. \<forall>p. parent (tp ! i) = Some p \<longrightarrow> link_ok md cell s tp i p)
     \<and> (\<forall>i < 1024. i \<notin> nodes s tp \<longrightarrow> tp ! i = zero_node)"

definition open_ok :: "nat \<Rightarrow> nat list \<Rightarrow> path_node list \<Rightarrow> bool" where
  "open_ok s heap tp \<longleftrightarrow> distinct heap \<and> set heap = {i \<in> nodes s tp. \<not> nclosed (tp ! i)}
     \<and> is_heap (\<lambda>i. f_cost (tp ! i)) heap"

lemma nodes_finite [simp]: "finite (nodes s tp)"
  by (simp add: nodes_def)

lemma nodes_card: "length tp = 1024 \<Longrightarrow> card (nodes s tp) \<le> 1024"
  using card_mono [of "{..<1024}" "nodes s tp"] by (auto simp: nodes_def)

text \<open>A node that is new, or reached at lower cost, gets a parent and a cost.\<close>

lemma table_ok_update:
  assumes T: "table_ok md cell x0 y0 s tp" and cur: "cur \<in> nodes s tp" and i: "i < 1024" "i \<noteq> s" "i \<noteq> cur"
    and leg: "leg_ok md cell (nx (tp ! cur)) (ny (tp ! cur)) (nx nd) (ny nd)" and nz: "nx nd \<noteq> 0 \<or> ny nd \<noteq> 0"
    and g: "g_cost (tp ! cur) < g_cost nd" "g_cost nd \<le> g_cost (tp ! cur) + 14" and p: "parent nd = Some cur"
    and old: "i \<in> nodes s tp \<Longrightarrow> nx (tp ! i) = nx nd \<and> ny (tp ! i) = ny nd \<and> g_cost nd < g_cost (tp ! i)"
  shows "table_ok md cell x0 y0 s (tp[i := nd])" "nodes s (tp[i := nd]) = insert i (nodes s tp)"
proof -
  let ?tp = "tp[i := nd]"
  have len: "length tp = 1024" using T by (simp add: table_ok_def)
  have nth: "?tp ! j = (if j = i then nd else tp ! j)" for j
    using i(1) len by (simp add: nth_list_update)
  show N: "nodes s ?tp = insert i (nodes s tp)"
    unfolding nodes_def nth using i len p by auto
  have card: "card (nodes s tp) \<le> card (nodes s ?tp)" unfolding N by (simp add: card_insert_le)
  have cok: "node_ok md s tp cur" using T cur by (simp add: table_ok_def)
  have "node_ok md s ?tp j" if j: "j \<in> nodes s ?tp" for j
  proof (cases "j = i")
    case False
    then have "node_ok md s tp j" using j T by (auto simp: N table_ok_def)
    then show ?thesis using False card by (simp add: node_ok_def nth)
  next
    case True
    have "g_cost nd + 14 \<le> 14 * int (card (nodes s ?tp))"
    proof (cases "i \<in> nodes s tp")
      case True
      then have "node_ok md s tp i" using T by (simp add: table_ok_def)
      then show ?thesis using old [OF True] card by (simp add: node_ok_def)
    next
      case False
      then have "card (nodes s ?tp) = Suc (card (nodes s tp))" unfolding N by simp
      then show ?thesis using cok g(2) by (simp add: node_ok_def)
    qed
    then show ?thesis using True leg nz g(1) cok by (simp add: node_ok_def nth leg_ok_def free_cell_def)
  qed
  moreover have "link_ok md cell s ?tp j q" if j: "j < 1024" "parent (?tp ! j) = Some q" for j q
  proof (cases "j = i")
    case True
    then have "q = cur" using j(2) p by (simp add: nth)
    then show ?thesis using True i leg g cur by (simp add: link_ok_def nth N)
  next
    case False
    then have l: "link_ok md cell s tp j q" using T j by (simp add: table_ok_def nth)
    show ?thesis
    proof (cases "q = i")
      case True
      then have "i \<in> nodes s tp" using l by (simp add: link_ok_def)
      from old [OF this] show ?thesis using l False True by (simp add: link_ok_def nth N)
    next
      case nq: False
      then show ?thesis using l False by (simp add: link_ok_def nth N)
    qed
  qed
  ultimately show "table_ok md cell x0 y0 s ?tp"
    using T i len unfolding table_ok_def by (simp add: nth N)
qed

lemma NODE_agrees: "agrees (NODE_MINTOPCMP tp) (\<lambda>i. f_cost (tp ! i)) S"
  by (simp add: agrees_def NODE_MINTOPCMP_def)

lemma hole_rekey:
  assumes h: "is_heap k xs" and d: "distinct xs" "j < length xs" and k: "\<And>v. v \<in> set xs \<Longrightarrow> v \<noteq> xs ! j \<Longrightarrow> k' v = k v"
  shows "hole k' xs j"
proof -
  have K: "k' (xs ! l) = k (xs ! l)" if "l < length xs" "l \<noteq> j" for l
    using k [of "xs ! l"] that d by (simp add: nth_eq_iff_index_eq)
  have pl: "par l < length xs" "par l < l" if "l < length xs" "0 < l" for l
    using par_less [OF that(2)] that(1) by simp_all
  have H: "k (xs ! par l) \<le> k (xs ! l)" if "l < length xs" "0 < l" for l
    using h that by (simp add: is_heap_def)
  have 1: "k' (xs ! par l) \<le> k' (xs ! l)" if l: "l < length xs" "0 < l" "l \<noteq> j" "par l \<noteq> j" for l
    unfolding K [OF l(1,3)] K [OF pl(1) [OF l(1,2)] l(4)] by (rule H [OF l(1,2)])
  have 2: "k' (xs ! par j) \<le> k' (xs ! l)" if l: "l < length xs" "0 < l" "par l = j" "0 < j" for l
  proof -
    have "k (xs ! par j) \<le> k (xs ! j)" by (rule H [OF d(2) l(4)])
    also have "\<dots> \<le> k (xs ! l)" using H [OF l(1,2)] unfolding l(3) .
    finally have kl: "k (xs ! par j) \<le> k (xs ! l)" .
    have "par j \<noteq> j" "l \<noteq> j" using pl [OF d(2) l(4)] pl [OF l(1,2)] l(3) by auto
    then show ?thesis using kl K [OF l(1)] K [OF pl(1) [OF d(2) l(4)]] by simp
  qed
  show ?thesis unfolding hole_def using 1 2 d(2) by blast
qed

text \<open>Both ways of putting the node on the heap: it is there once, in the order of the new costs.\<close>

lemma heap_push_open:
  assumes o: "open_ok s heap tp" and i: "i \<notin> set heap" "i < length tp"
    and tp2: "nodes s tp2 = insert i (nodes s tp)" "\<And>j. j \<noteq> i \<Longrightarrow> tp2 ! j = tp ! j" "\<not> nclosed (tp2 ! i)"
    and f: "\<And>j. f_cost (tp1 ! j) = f_cost (tp2 ! j)"
  shows "open_ok s (heap_push_node tp1 heap i) tp2"
proof -
  have "is_heap (\<lambda>j. f_cost (tp1 ! j)) heap"
  proof (rule is_heap_cong)
    show "is_heap (\<lambda>i. f_cost (tp ! i)) heap" using o by (simp add: open_ok_def)
    show "f_cost (tp ! j) = f_cost (tp1 ! j)" if "j \<in> set heap" for j
      using that i(1) tp2(2) f by metis
  qed
  from BHEAP_PUSH2_correct [OF NODE_agrees this, of i]
  have P: "is_heap (\<lambda>j. f_cost (tp1 ! j)) (heap_push_node tp1 heap i)"
    "mset (heap_push_node tp1 heap i) = add_mset i (mset heap)"
    by (simp_all add: heap_push_node_def)
  have "set (heap_push_node tp1 heap i) = insert i (set heap)"
    using P(2) by (metis set_mset_add_mset_insert set_mset_mset)
  moreover have "distinct (heap_push_node tp1 heap i)"
    using P(2) o i(1) mset_eq_imp_distinct_iff [of "heap_push_node tp1 heap i" "i # heap"] by (simp add: open_ok_def)
  moreover have "insert i (set heap) = {j \<in> insert i (nodes s tp). \<not> nclosed (tp2 ! j)}"
  proof -
    have "j \<in> insert i {j \<in> nodes s tp. \<not> nclosed (tp ! j)}
        \<longleftrightarrow> j \<in> {j \<in> insert i (nodes s tp). \<not> nclosed (tp2 ! j)}" for j
      by (cases "j = i") (simp_all add: tp2(2,3))
    then show ?thesis using o unfolding open_ok_def by blast
  qed
  ultimately show ?thesis using P(1) by (simp add: open_ok_def tp2(1) f)
qed

lemma heap_update_open:
  assumes o: "open_ok s heap tp" and i: "i \<in> set heap"
    and tp2: "nodes s tp2 = nodes s tp" "\<And>j. j \<noteq> i \<Longrightarrow> tp2 ! j = tp ! j" "\<not> nclosed (tp2 ! i)"
    and f: "\<And>j. f_cost (tp1 ! j) = f_cost (tp2 ! j)"
  shows "\<exists>heap'. heap_update_node tp1 heap i = (0, heap') \<and> open_ok s heap' tp2"
proof -
  define j where "j = arr_find (\<lambda>n. n = i) heap"
  have j: "j < length heap" using i arr_find_lt [of "\<lambda>n. n = i" heap] by (auto simp: j_def)
  then have ji: "heap ! j = i" unfolding j_def by (rule arr_find_sat)
  have h: "hole (\<lambda>j. f_cost (tp1 ! j)) heap j"
  proof (rule hole_rekey)
    show "is_heap (\<lambda>i. f_cost (tp ! i)) heap" "distinct heap" "j < length heap"
      using o j by (simp_all add: open_ok_def)
    show "f_cost (tp1 ! v) = f_cost (tp ! v)" if "v \<noteq> heap ! j" for v
      using tp2(2) that by (simp add: ji f)
  qed
  let ?h = "BHEAP_UPDATE (NODE_MINTOPCMP tp1) heap j"
  have P: "is_heap (\<lambda>j. f_cost (tp1 ! j)) ?h" "mset ?h = mset heap"
    using BHEAP_UPDATE_correct [OF NODE_agrees h] by simp_all
  have "distinct ?h" "set ?h = set heap"
    using o mset_eq_imp_distinct_iff [OF P(2)] mset_eq_setD [OF P(2)] by (simp_all add: open_ok_def)
  moreover have "set heap = {j \<in> nodes s tp. \<not> nclosed (tp2 ! j)}"
  proof -
    have "i \<in> nodes s tp \<and> \<not> nclosed (tp ! i)" using o i unfolding open_ok_def by blast
    then have "j \<in> {j \<in> nodes s tp. \<not> nclosed (tp ! j)}
        \<longleftrightarrow> j \<in> {j \<in> nodes s tp. \<not> nclosed (tp2 ! j)}" for j
      by (cases "j = i") (simp_all add: tp2(2,3))
    then show ?thesis using o unfolding open_ok_def by blast
  qed
  ultimately have "open_ok s ?h tp2" using P(1) by (simp add: open_ok_def tp2(1) f)
  then show ?thesis using j by (simp add: heap_update_node_def j_def [symmetric] Let_def)
qed

section \<open>The rounds\<close>

text \<open>The cost still to lose: a node that is not used yet counts more than any cost.\<close>

definition pending_cost :: "nat \<Rightarrow> path_node list \<Rightarrow> nat \<Rightarrow> nat" where
  "pending_cost s tp i = (if i \<in> nodes s tp then nat (g_cost (tp ! i)) else 14400)"

definition pending :: "nat \<Rightarrow> path_node list \<Rightarrow> nat" where
  "pending s tp = (\<Sum>i<1024. pending_cost s tp i)"

lemma pending_less:
  assumes "i < 1024" "pending_cost s tp' i < pending_cost s tp i"
    "\<And>j. j \<noteq> i \<Longrightarrow> pending_cost s tp' j = pending_cost s tp j"
  shows "pending s tp' < pending s tp"
  unfolding pending_def
proof (rule sum_strict_mono_ex1)
  show "\<forall>j\<in>{..<1024}. pending_cost s tp' j \<le> pending_cost s tp j"
    using assms(2,3) by (metis le_eq_less_or_eq)
qed (use assms(1,2) in auto)

lemma calc_index_less [simp]: "calc_index x y < 1024"
  by (simp add: calc_index_def nat_less_iff)

lemma update_pending:
  assumes T: "table_ok md cell x0 y0 s tp" and i: "i < 1024" and N: "nodes s (tp[i := nd]) = insert i (nodes s tp)"
    and g: "nat (g_cost nd) < pending_cost s tp i"
  shows "pending s (tp[i := nd]) < pending s tp"
proof (rule pending_less [OF i])
  have "i < length tp" using T i by (simp add: table_ok_def)
  then show "pending_cost s (tp[i := nd]) i < pending_cost s tp i" using g by (simp add: pending_cost_def N)
  show "pending_cost s (tp[i := nd]) j = pending_cost s tp j" if "j \<noteq> i" for j
    using that by (simp add: pending_cost_def N)
qed

definition advances :: "map_data \<Rightarrow> cell_chk \<Rightarrow> int \<Rightarrow> int \<Rightarrow> nat \<Rightarrow> nat \<Rightarrow> nat list \<Rightarrow> path_node list
    \<Rightarrow> nat list \<Rightarrow> path_node list \<Rightarrow> bool" where
  "advances md cell x0 y0 s cur heap tp heap' tp' \<longleftrightarrow>
     table_ok md cell x0 y0 s tp' \<and> open_ok s heap' tp' \<and> cur \<in> nodes s tp' \<and> tp' ! cur = tp ! cur
     \<and> (pending s tp' < pending s tp \<or> heap' = heap \<and> tp' = tp)"

lemma node_cost:
  "table_ok md cell x0 y0 s tp \<Longrightarrow> i \<in> nodes s tp \<Longrightarrow>
   0 \<le> g_cost (tp ! i) \<and> g_cost (tp ! i) \<le> 14322 \<and> node_ok md s tp i"
  using nodes_card [of tp s] by (fastforce simp: table_ok_def node_ok_def)

lemma add_path_advances:
  assumes T: "table_ok md cell x0 y0 s tp" and H: "open_ok s heap tp" and cur: "cur \<in> nodes s tp"
    and leg: "leg_ok md cell (nx (tp ! cur)) (ny (tp ! cur)) x y" and c: "0 < c" "c \<le> 14"
    and r: "add_path heap tp x y (g_cost (tp ! cur) + c) cur h = (e, heap', tp')"
  shows "advances md cell x0 y0 s cur heap tp heap' tp'"
proof -
  let ?g = "g_cost (tp ! cur) + c"
  define i where "i = calc_index x y"
  define nd where "nd = tp ! i"
  have il: "i < 1024" "i < length tp" using T by (simp_all add: i_def table_ok_def)
  note gc = node_cost [OF T cur]
  have g: "0 < ?g" "s16 ?g = ?g" using gc c by auto
  have same: "advances md cell x0 y0 s cur heap tp heap tp"
    using T H cur by (simp add: advances_def)
  have go: "advances md cell x0 y0 s cur heap tp heap2 (tp[i := nd2])"
    if "table_ok md cell x0 y0 s (tp[i := nd2])" "nodes s (tp[i := nd2]) = insert i (nodes s tp)"
      "open_ok s heap2 (tp[i := nd2])" "i \<noteq> cur" "nat (g_cost nd2) < pending_cost s tp i" for heap2 nd2
    using that update_pending [OF T il(1) that(2,5)] cur by (simp add: advances_def)
  show ?thesis
  proof (cases "nx nd = x \<and> ny nd = y")
    case True
    show ?thesis
    proof (cases "?g < g_cost nd")
      case False
      then show ?thesis using r True same by (simp add: add_path_def Let_def i_def [symmetric] nd_def)
    next
      case lt: True
      have iN: "i \<in> nodes s tp"
      proof (rule ccontr)
        assume "i \<notin> nodes s tp"
        then have "nd = zero_node" using T il(1) by (simp add: table_ok_def nd_def)
        then show False using lt g(1) by (simp add: zero_node_def)
      qed
      have i_s: "i \<noteq> s" using T lt g(1) by (auto simp: table_ok_def nd_def)
      have ic: "i \<noteq> cur" using leg True by (auto simp: leg_ok_def nd_def)
      define n1 where "n1 = nd\<lparr>g_cost := ?g, parent := Some cur, f_cost := s16 (?g + h)\<rparr>"
      define n2 where "n2 = n1\<lparr>nclosed := False\<rparr>"
      have "table_ok md cell x0 y0 s (tp[i := n2]) \<and> nodes s (tp[i := n2]) = insert i (nodes s tp)"
        using table_ok_update [OF T cur il(1) i_s ic, of n2] leg True c lt node_cost [OF T iN]
        by (simp add: n2_def n1_def nd_def node_ok_def)
      then have U: "table_ok md cell x0 y0 s (tp[i := n2])" "nodes s (tp[i := n2]) = insert i (nodes s tp)" by simp_all
      have f: "f_cost (tp[i := n1] ! j) = f_cost (tp[i := n2] ! j)" for j
        using il(2) by (cases "j = i") (simp_all add: n2_def)
      have b: "nat (g_cost n2) < pending_cost s tp i"
        using iN lt g(1) by (simp add: n2_def n1_def pending_cost_def nd_def)
      have ins: "insert i (nodes s tp) = nodes s tp" using iN by blast
      show ?thesis
      proof (cases "nclosed nd")
        case cl: True
        then have "i \<notin> set heap" using H by (simp add: open_ok_def nd_def)
        then have "open_ok s (heap_push_node (tp[i := n1]) heap i) (tp[i := n2])"
          by (rule heap_push_open [OF H _ il(2) U(2) _ _ f]) (use il(2) in \<open>simp_all add: n2_def\<close>)
        moreover have "heap' = heap_push_node (tp[i := n1]) heap i" "tp' = tp[i := n2]"
          using r True lt cl g(2) il(2)
          by (simp_all add: add_path_def Let_def i_def [symmetric] nd_def [symmetric] n1_def n2_def)
        ultimately show ?thesis using go [OF U _ ic b] by simp
      next
        case op: False
        then have "i \<in> set heap" using H iN by (simp add: open_ok_def nd_def)
        then have "\<exists>h2. heap_update_node (tp[i := n1]) heap i = (0, h2) \<and> open_ok s h2 (tp[i := n2])"
          by (rule heap_update_open [OF H _ U(2) [unfolded ins] _ _ f]) (use il(2) in \<open>simp_all add: n2_def\<close>)
        then obtain h2 where h2: "heap_update_node (tp[i := n1]) heap i = (0, h2)" "open_ok s h2 (tp[i := n2])" by blast
        moreover have "heap' = h2" "tp' = tp[i := n2]"
          using r True lt op g(2) il(2) h2(1)
          by (simp_all add: add_path_def Let_def i_def [symmetric] nd_def [symmetric] n1_def n2_def)
        ultimately show ?thesis using go [OF U _ ic b] by simp
      qed
    qed
  next
    case ne: False
    show ?thesis
    proof (cases "nx nd \<noteq> 0 \<or> ny nd \<noteq> 0")
      case True
      then show ?thesis using r ne same by (auto simp: add_path_def Let_def i_def [symmetric] nd_def)
    next
      case False
      have iN: "i \<notin> nodes s tp" using T False by (auto simp: table_ok_def node_ok_def nd_def)
      then have i_s: "i \<noteq> s" "i \<noteq> cur" using T cur by (auto simp: nodes_def table_ok_def)
      define n2 where "n2 = \<lparr>parent = Some cur, nx = x, ny = y, g_cost = ?g, f_cost = s16 (?g + h), nclosed = False\<rparr>"
      have "x \<noteq> 0 \<or> y \<noteq> 0" using ne False by auto
      then have "table_ok md cell x0 y0 s (tp[i := n2]) \<and> nodes s (tp[i := n2]) = insert i (nodes s tp)"
        using table_ok_update [OF T cur il(1) i_s, of n2] leg c iN by (simp add: n2_def)
      then have U: "table_ok md cell x0 y0 s (tp[i := n2])" "nodes s (tp[i := n2]) = insert i (nodes s tp)" by simp_all
      have b: "nat (g_cost n2) < pending_cost s tp i" 
      proof -
        have "?g < 14400" using gc c by auto
        then show ?thesis using iN by (simp add: n2_def pending_cost_def nat_less_iff)
      qed
      have "i \<notin> set heap" using H iN by (auto simp: open_ok_def)
      then have "open_ok s (heap_push_node (tp[i := n2]) heap i) (tp[i := n2])"
        by (rule heap_push_open [OF H _ il(2) U(2)]) (use il(2) in \<open>simp_all add: n2_def\<close>)
      moreover have "heap' = heap_push_node (tp[i := n2]) heap i" "tp' = tp[i := n2]"
        using r ne False g(2) by (auto simp: add_path_def Let_def i_def [symmetric] nd_def [symmetric] n2_def)
      ultimately show ?thesis using go [OF U _ i_s(2) b] by simp
    qed
  qed
qed

lemma advances_trans:
  assumes "advances md cell x0 y0 s cur heap tp h1 t1" "advances md cell x0 y0 s cur h1 t1 h2 t2"
  shows "advances md cell x0 y0 s cur heap tp h2 t2"
  using assms unfolding advances_def by auto

lemma add_moves_advances:
  assumes "table_ok md cell x0 y0 s tp" "open_ok s heap tp" "cur \<in> nodes s tp"
    "tp ! cur = nd" "\<forall>(dx, dy, c) \<in> set ms. leg_ok md cell (nx nd) (ny nd) (nx nd + dx) (ny nd + dy) \<and> 0 < c \<and> c \<le> 14"
    "add_moves x1 y1 (nx nd) (ny nd) (g_cost nd) cur ms heap tp = (e, heap', tp')"
  shows "advances md cell x0 y0 s cur heap tp heap' tp'"
  using assms
proof (induction ms arbitrary: heap tp e)
  case Nil
  then show ?case by (simp add: advances_def)
next
  case (Cons m ms)
  obtain dx dy c where m: "m = (dx, dy, c)" by (cases m)
  obtain e1 h1 t1 where a: "add_path heap tp (nx nd + dx) (ny nd + dy) (g_cost nd + c) cur
      (heuristic (nx nd + dx) (ny nd + dy) x1 y1) = (e1, h1, t1)" by (metis prod_cases3)
  have A: "advances md cell x0 y0 s cur heap tp h1 t1"
    by (rule add_path_advances [OF Cons.prems(1-3), of "nx nd + dx" "ny nd + dy" c])
      (use Cons.prems(4,5) a m in auto)
  obtain e2 where b: "add_moves x1 y1 (nx nd) (ny nd) (g_cost nd) cur ms h1 t1 = (e2, heap', tp')"
    using Cons.prems(6) a by (auto simp: m split: prod.splits)
  have "advances md cell x0 y0 s cur h1 t1 heap' tp'"
    by (rule Cons.IH [OF _ _ _ _ _ b]) (use A Cons.prems(4,5) in \<open>auto simp: advances_def\<close>)
  with A show ?case by (rule advances_trans)
qed

text \<open>
  A round takes the node of least estimated cost from the heap; it either ends
  the search, or keeps the invariant and makes progress: less cost is pending, or
  as much with one node less on the heap.
\<close>

lemma pop_open:
  assumes H: "open_ok s heap tp" and ne: "heap \<noteq> []" and l: "length tp = 1024"
  defines "cur \<equiv> BHEAP_PEEK heap"
  defines "tp1 \<equiv> tp[cur := (tp ! cur)\<lparr>nclosed := True\<rparr>]" and "h1 \<equiv> BHEAP_POP2 (NODE_MINTOPCMP tp) heap"
  shows "cur \<in> nodes s tp" "\<forall>i \<in> set heap. f_cost (tp ! cur) \<le> f_cost (tp ! i)"
    "open_ok s h1 tp1" "nodes s tp1 = nodes s tp" "Suc (length h1) = length heap"
proof -
  let ?f = "\<lambda>i. f_cost (tp ! i)"
  have h: "is_heap ?f heap" using H by (simp add: open_ok_def)
  have hk: "heap_ok (NODE_MINTOPCMP tp) ?f UNIV heap" using h NODE_agrees by (simp add: heap_ok_def)
  have ne': "mset heap \<noteq> {#}" using ne by simp
  have top: "cur \<in># mset heap" "\<forall>x \<in># mset heap. ?f cur \<le> ?f x"
    using bheap2.top_min [OF hk ne'] by (simp_all add: cur_def)
  then show cN: "cur \<in> nodes s tp" and "\<forall>i \<in> set heap. ?f cur \<le> ?f i"
    using H by (auto simp: open_ok_def)
  have P: "is_heap ?f h1" "mset h1 = mset heap - {#cur#}"
    using bheap2.pop_ok [OF hk ne'] by (simp_all add: heap_ok_def h1_def cur_def)
  show "Suc (length h1) = length heap"
    using bheap2.size_pop [OF hk ne'] by (simp add: h1_def)
  have cl: "cur < length tp" using cN by (simp add: nodes_def)
  have t: "tp1 ! j = (if j = cur then (tp ! cur)\<lparr>nclosed := True\<rparr> else tp ! j)" for j
    using cl by (simp add: tp1_def nth_list_update)
  have f: "f_cost (tp1 ! j) = f_cost (tp ! j)" for j by (simp add: t)
  show N: "nodes s tp1 = nodes s tp" by (auto simp: nodes_def t) (simp_all add: tp1_def)
  have M: "mset heap = mset (cur # h1)" using P(2) top(1) by simp
  have d: "distinct (cur # h1)" using H mset_eq_imp_distinct_iff [OF M] by (simp add: open_ok_def)
  have sh: "set heap = insert cur (set h1)" using mset_eq_setD [OF M] by simp
  have "set h1 = {i \<in> nodes s tp1. \<not> nclosed (tp1 ! i)}"
    using H d sh unfolding N open_ok_def t by auto
  then show "open_ok s h1 tp1" using P(1) d by (simp add: open_ok_def f)
qed

lemma close_table:
  assumes T: "table_ok md cell x0 y0 s tp" and c: "cur \<in> nodes s tp"
  shows "table_ok md cell x0 y0 s (tp[cur := (tp ! cur)\<lparr>nclosed := True\<rparr>])"
    "pending s (tp[cur := (tp ! cur)\<lparr>nclosed := True\<rparr>]) = pending s tp"
proof -
  let ?t = "tp[cur := (tp ! cur)\<lparr>nclosed := True\<rparr>]"
  have cl: "cur < length tp" using c by (simp add: nodes_def)
  have t: "?t ! j = (if j = cur then (tp ! cur)\<lparr>nclosed := True\<rparr> else tp ! j)" for j
    using cl by (simp add: nth_list_update)
  have p: "parent (?t ! j) = parent (tp ! j)" "nx (?t ! j) = nx (tp ! j)" "ny (?t ! j) = ny (tp ! j)"
    "g_cost (?t ! j) = g_cost (tp ! j)" for j by (simp_all add: t)
  have N: "nodes s ?t = nodes s tp" by (simp add: nodes_def p)
  have z: "i \<notin> nodes s tp \<Longrightarrow> ?t ! i = tp ! i" for i using c t by auto
  show "table_ok md cell x0 y0 s ?t"
    using T z unfolding table_ok_def node_ok_def link_ok_def p N by simp
  show "pending s ?t = pending s tp" unfolding pending_def pending_cost_def p N by (rule refl)
qed

lemma astar_round_ok:
  assumes T: "table_ok md cell x0 y0 s tp" and H: "open_ok s heap tp"
    and r: "astar_round md cell x1 y1 heap tp = Some (cur, fin, heap', tp')"
  shows "table_ok md cell x0 y0 s tp' \<and> cur \<in> nodes s tp'"
    "fin \<Longrightarrow> nx (tp' ! cur) = x1 \<and> ny (tp' ! cur) = y1"
    "\<not> fin \<Longrightarrow> open_ok s heap' tp' \<and>
      (pending s tp' < pending s tp \<or> pending s tp' = pending s tp \<and> length heap' < length heap)"
proof -
  have ne: "heap \<noteq> []" using r by (auto simp: astar_round_def)
  have l: "length tp = 1024" using T by (simp add: table_ok_def)
  note P = pop_open [OF H ne l]
  define c where "c = BHEAP_PEEK heap"
  define t1 where "t1 = tp[c := (tp ! c)\<lparr>nclosed := True\<rparr>]"
  define h1 where "h1 = BHEAP_POP2 (NODE_MINTOPCMP tp) heap"
  note P = P [folded c_def, folded t1_def h1_def]
  note C = close_table [OF T P(1), folded t1_def]
  have cl: "c < length tp" using P(1) by (simp add: nodes_def)
  have tc: "t1 ! c = (tp ! c)\<lparr>nclosed := True\<rparr>" using cl by (simp add: t1_def)
  have c1: "c \<in> nodes s t1" using P(1,4) by simp
  have im: "in_map md (nx (t1 ! c)) (ny (t1 ! c))" using node_cost [OF C(1) c1] by (simp add: node_ok_def)
  have P: "(table_ok md cell x0 y0 s tp' \<and> cur \<in> nodes s tp') \<and> (fin \<longrightarrow> nx (tp' ! cur) = x1 \<and> ny (tp' ! cur) = y1)
    \<and> (\<not> fin \<longrightarrow> open_ok s heap' tp' \<and>
      (pending s tp' < pending s tp \<or> pending s tp' = pending s tp \<and> length heap' < length heap))"
  proof (cases "nx (tp ! c) = x1 \<and> ny (tp ! c) = y1")
    case True
    then have "cur = c" "fin" "tp' = t1" "heap' = h1"
      using r ne by (auto simp: astar_round_def Let_def c_def [symmetric] t1_def [symmetric] h1_def [symmetric])
    then show ?thesis using C c1 True tc by simp
  next
    case False
    obtain e h2 t2 where m: "add_moves x1 y1 (nx (t1 ! c)) (ny (t1 ! c)) (g_cost (t1 ! c)) c
        (neighbours md cell (nx (t1 ! c)) (ny (t1 ! c))) h1 t1 = (e, h2, t2)" by (metis prod_cases3)
    have ns: "\<forall>(dx, dy, k) \<in> set (neighbours md cell (nx (t1 ! c)) (ny (t1 ! c))).
        leg_ok md cell (nx (t1 ! c)) (ny (t1 ! c)) (nx (t1 ! c) + dx) (ny (t1 ! c) + dy) \<and> 0 < k \<and> k \<le> 14"
      using neighbours_leg [OF _ im] by auto
    have A: "advances md cell x0 y0 s c h1 t1 h2 t2"
      by (rule add_moves_advances [OF C(1) P(3) c1 refl ns m])
    have "cur = c" "\<not> fin" "tp' = t2" "heap' = h2"
      using r ne False m tc
      by (auto simp: astar_round_def Let_def c_def [symmetric] t1_def [symmetric] h1_def [symmetric] split: if_splits)
    then show ?thesis using A C(2) P(5) by (auto simp: advances_def)
  qed
  from P show "table_ok md cell x0 y0 s tp' \<and> cur \<in> nodes s tp'"
    "fin \<Longrightarrow> nx (tp' ! cur) = x1 \<and> ny (tp' ! cur) = y1"
    "\<not> fin \<Longrightarrow> open_ok s heap' tp' \<and>
      (pending s tp' < pending s tp \<or> pending s tp' = pending s tp \<and> length heap' < length heap)" by blast+
qed

lemma astar_loop_ok:
  assumes "table_ok md cell x0 y0 s tp" "open_ok s heap tp"
    "astar_loop md cell x1 y1 fuel heap tp = Some (Some (cur, tp'))"
  shows "table_ok md cell x0 y0 s tp' \<and> cur \<in> nodes s tp' \<and> nx (tp' ! cur) = x1 \<and> ny (tp' ! cur) = y1"
  using assms
proof (induction fuel arbitrary: heap tp)
  case (Suc fuel)
  show ?case
  proof (cases "astar_round md cell x1 y1 heap tp")
    case None
    then show ?thesis using Suc.prems(3) by simp
  next
    case (Some st)
    obtain c fin h t where st: "st = (c, fin, h, t)" by (cases st)
    note R = astar_round_ok [OF Suc.prems(1,2) Some [unfolded st]]
    show ?thesis
    proof (cases fin)
      case True
      then show ?thesis using R Suc.prems(3) Some st by simp
    next
      case False
      then show ?thesis using Suc.IH [of t h] R Suc.prems(3) Some st by simp
    qed
  qed
qed simp

lemma open_ok_length: "open_ok s heap tp \<Longrightarrow> length tp = 1024 \<Longrightarrow> length heap \<le> 1024"
  using card_mono [of "nodes s tp" "set heap"] nodes_card [of tp s]
  by (fastforce simp: open_ok_def distinct_card [symmetric])

lemma astar_loop_total:
  assumes "table_ok md cell x0 y0 s tp" "open_ok s heap tp" "pending s tp * 1025 + length heap < fuel"
  shows "astar_loop md cell x1 y1 fuel heap tp \<noteq> None"
  using assms
proof (induction fuel arbitrary: heap tp)
  case (Suc fuel)
  show ?case
  proof (cases "astar_round md cell x1 y1 heap tp")
    case None
    then show ?thesis by simp
  next
    case (Some st)
    obtain c fin h t where st: "st = (c, fin, h, t)" by (cases st)
    note R = astar_round_ok [OF Suc.prems(1,2) Some [unfolded st]]
    show ?thesis
    proof (cases fin)
      case True
      then show ?thesis using Some st by simp
    next
      case False
      have l: "length h \<le> 1024" using open_ok_length [of s h t] R False unfolding table_ok_def by blast
      have "pending s t * 1025 + length h < fuel"
      proof (cases "pending s t < pending s tp")
        case True
        then have "(pending s t + 1) * 1025 \<le> pending s tp * 1025" by simp
        then show ?thesis using l Suc.prems(3) by simp
      next
        case nl: False
        then show ?thesis using R(3) False Suc.prems(3) by auto
      qed
      then show ?thesis using Suc.IH [of t h] R False Some st by simp
    qed
  qed
qed simp

section \<open>The search\<close>

lemma path_back_walk:
  assumes T: "table_ok md cell x0 y0 s tp"
  shows "i \<in> nodes s tp \<Longrightarrow> path_back tp fuel i = Some ds \<Longrightarrow> walk_ok md cell x0 y0 ds (nx (tp ! i)) (ny (tp ! i))"
proof (induction fuel arbitrary: i ds)
  case 0
  then have "parent (tp ! i) = None" by (simp add: path_back.simps split: option.splits)
  then show ?case using 0 T by (auto simp: path_back.simps nodes_def table_ok_def)
next
  case (Suc fuel)
  show ?case
  proof (cases "parent (tp ! i)")
    case None
    then show ?thesis using Suc.prems T by (auto simp: path_back.simps nodes_def table_ok_def)
  next
    case (Some p)
    then obtain ds' where d: "path_back tp fuel p = Some ds'"
        "ds = ds' @ [walk_choice (nx (tp ! i) - nx (tp ! p)) (ny (tp ! i) - ny (tp ! p))]"
      using Suc.prems(2) by (subst (asm) path_back.simps) auto
    have "i < 1024" using Suc.prems(1) T by (simp add: nodes_def table_ok_def)
    then have "link_ok md cell s tp i p" using T Some by (simp add: table_ok_def)
    then show ?thesis using walk_ok_snoc [OF Suc.IH [OF _ d(1)]] d(2) by (simp add: link_ok_def)
  qed
qed

lemma path_back_total:
  assumes T: "table_ok md cell x0 y0 s tp"
  shows "i \<in> nodes s tp \<Longrightarrow> nat (g_cost (tp ! i)) \<le> fuel \<Longrightarrow> path_back tp fuel i \<noteq> None"
proof (induction fuel arbitrary: i)
  case 0
  have "i < 1024" using 0 T by (simp add: nodes_def table_ok_def)
  then have "parent (tp ! i) = None"
    using T node_cost [OF T] 0 unfolding table_ok_def link_ok_def by (metis le_zero_eq nat_eq_iff2 not_None_eq not_less nat_0_iff)
  then show ?case by (simp add: path_back.simps)
next
  case (Suc fuel)
  show ?case
  proof (cases "parent (tp ! i)")
    case None
    then show ?thesis by (simp add: path_back.simps)
  next
    case (Some p)
    have "i < 1024" using Suc.prems(1) T by (simp add: nodes_def table_ok_def)
    then have l: "link_ok md cell s tp i p" using T Some by (simp add: table_ok_def)
    then have "g_cost (tp ! p) < g_cost (tp ! i)" "0 \<le> g_cost (tp ! p)"
      using node_cost [OF T, of p] by (simp_all add: link_ok_def)
    then have "nat (g_cost (tp ! p)) \<le> fuel" using Suc.prems(2) by linarith
    then have "path_back tp fuel p \<noteq> None" using l by (intro Suc.IH) (simp add: link_ok_def)
    then show ?thesis using Some by (simp add: path_back.simps [of _ "Suc fuel"])
  qed
qed

definition start_table :: "int \<Rightarrow> int \<Rightarrow> int \<Rightarrow> int \<Rightarrow> path_node list" where
  "start_table x0 y0 x1 y1 = (replicate (MAX_WALKPATH * MAX_WALKPATH) zero_node)[calc_index x0 y0 :=
     \<lparr>parent = None, nx = x0, ny = y0, g_cost = 0, f_cost = s16 (heuristic x0 y0 x1 y1), nclosed = False\<rparr>]"

lemma start_ok:
  fixes x0 y0 x1 y1 :: int
  assumes "in_map md x0 y0" "x0 \<noteq> 0 \<or> y0 \<noteq> 0"
  defines "s \<equiv> calc_index x0 y0" and "tp \<equiv> start_table x0 y0 x1 y1"
  shows "table_ok md cell x0 y0 s tp" "open_ok s (heap_push_node tp [] s) tp"
proof -
  have s: "s < 1024" by (simp add: s_def)
  have len: "length tp = 1024" by (simp add: tp_def start_table_def MAX_WALKPATH_def)
  let ?n = "\<lparr>parent = None, nx = x0, ny = y0, g_cost = 0, f_cost = s16 (heuristic x0 y0 x1 y1), nclosed = False\<rparr>"
  have nth: "tp ! j = (if j = s then ?n else zero_node)" if "j < 1024" for j
    using that s by (simp add: tp_def start_table_def MAX_WALKPATH_def nth_list_update s_def)
  have "j \<in> nodes s tp \<longleftrightarrow> j = s" for j
    using nth [of j] s len by (cases "j < 1024") (auto simp: nodes_def zero_node_def)
  then have N: "nodes s tp = {s}" by blast
  show "table_ok md cell x0 y0 s tp"
    unfolding table_ok_def N using assms(1,2) by (auto simp: len s nth node_ok_def N zero_node_def)
  have "heap_push_node tp [] s = [s]" by (simp add: heap_push_node_def BHEAP_PUSH2_def BHEAP_SIFTDOWN.simps)
  then show "open_ok s (heap_push_node tp [] s) tp" using s by (auto simp: open_ok_def N nth is_heap_def)
qed

lemma astar_start:
  "astar md cell fuel x0 y0 x1 y1 =
     (case astar_loop md cell x1 y1 fuel
         (heap_push_node (start_table x0 y0 x1 y1) [] (calc_index x0 y0)) (start_table x0 y0 x1 y1) of
        None \<Rightarrow> None
      | Some None \<Rightarrow> Some None
      | Some (Some (cur, tp)) \<Rightarrow>
          (case path_back tp fuel cur of
             None \<Rightarrow> None
           | Some ds \<Rightarrow> Some (if length ds > MAX_WALKPATH then None else Some ds)))"
  by (simp add: astar_def Let_def start_table_def)

lemma astar_found:
  assumes "in_map md x0 y0" "x0 \<noteq> 0 \<or> y0 \<noteq> 0" "astar md cell fuel x0 y0 x1 y1 = Some (Some ds)"
  shows "walk_ok md cell x0 y0 ds x1 y1 \<and> length ds \<le> 32 \<and> (x1 \<noteq> 0 \<or> y1 \<noteq> 0)"
proof -
  obtain cur tp where l: "astar_loop md cell x1 y1 fuel
      (heap_push_node (start_table x0 y0 x1 y1) [] (calc_index x0 y0)) (start_table x0 y0 x1 y1) = Some (Some (cur, tp))"
    and p: "path_back tp fuel cur = Some ds" and n: "length ds \<le> 32"
    using assms(3) by (auto simp: astar_start MAX_WALKPATH_def split: option.splits if_splits)
  note L = astar_loop_ok [OF start_ok [OF assms(1,2)] l]
  have "node_ok md (calc_index x0 y0) tp cur" using node_cost L by blast
  then have "x1 \<noteq> 0 \<or> y1 \<noteq> 0" using L by (auto simp: node_ok_def)
  then show ?thesis using path_back_walk [OF _ _ p, of md cell x0 y0 "calc_index x0 y0"] L n by auto
qed

definition astar_fuel :: nat where
  "astar_fuel = 1024 * 14400 * 1025 + 2"

lemma pending_bound:
  assumes "table_ok md cell x0 y0 s tp"
  shows "pending s tp \<le> 1024 * 14400"
proof -
  have "pending_cost s tp i \<le> 14400" for i
    using node_cost [OF assms, of i] by (auto simp: pending_cost_def)
  then have "pending s tp \<le> (\<Sum>i<(1024::nat). 14400)" unfolding pending_def by (intro sum_mono)
  then show ?thesis by simp
qed

lemma astar_total:
  assumes "in_map md x0 y0" "x0 \<noteq> 0 \<or> y0 \<noteq> 0" "astar_fuel \<le> fuel"
  shows "astar md cell fuel x0 y0 x1 y1 \<noteq> None"
proof -
  let ?s = "calc_index x0 y0" and ?tp = "start_table x0 y0 x1 y1"
  let ?h = "heap_push_node ?tp [] ?s"
  note S = start_ok(1) [OF assms(1,2), of cell x1 y1] start_ok(2) [OF assms(1,2), of x1 y1]
  have "length ?h = 1" by (simp add: heap_push_node_def BHEAP_PUSH2_def BHEAP_SIFTDOWN.simps)
  then have "pending ?s ?tp * 1025 + length ?h < fuel"
    using pending_bound [OF S(1)] assms(3) by (simp add: astar_fuel_def)
  from astar_loop_total [OF S this] have l: "astar_loop md cell x1 y1 fuel ?h ?tp \<noteq> None" .
  show ?thesis
  proof (cases "\<exists>cur tp. astar_loop md cell x1 y1 fuel ?h ?tp = Some (Some (cur, tp))")
    case True
    then obtain cur tp where c: "astar_loop md cell x1 y1 fuel ?h ?tp = Some (Some (cur, tp))" by blast
    note L = astar_loop_ok [OF S c]
    have "nat (g_cost (tp ! cur)) \<le> fuel"
      using node_cost [of md cell x0 y0 ?s tp cur] L assms(3) by (auto simp: astar_fuel_def)
    then show ?thesis using path_back_total [of md cell x0 y0 ?s tp cur fuel] L c by (auto simp: astar_start)
  next
    case False
    obtain y where y: "astar_loop md cell x1 y1 fuel ?h ?tp = Some y" using l by blast
    then have "y = None" using False by (cases y) auto
    then show ?thesis using y by (simp add: astar_start)
  qed
qed

section \<open>Properties\<close>

lemma path_search_cases:
  assumes "\<not> bit flag 1"
  shows "path_search_sub leave now delay fuel md x0 y0 x1 y1 flag cell = Some (False, None) \<or>
    in_map md x0 y0 \<and> map_getcellp md x1 y1 cell = 0 \<and>
    path_search_sub leave now delay fuel md x0 y0 x1 y1 flag cell =
      (if bit flag 0 then Some (easy_path md cell x0 y0 x1 y1 \<noteq> None, easy_path md cell x0 y0 x1 y1)
       else map_option (\<lambda>p. (p \<noteq> None, p)) (astar md cell fuel x0 y0 x1 y1))"
proof -
  define A where "A \<longleftrightarrow> leave \<noteq> None \<and> delay > 0 \<and> map_getcellp md x0 y0 CELL_CHKPVP \<noteq> 0
     \<and> map_getcellp md x1 y1 CELL_CHKPVP = 0 \<and> DIFF_TICK now (the leave) < delay"
  define B where "B \<longleftrightarrow> x0 < 0 \<or> x0 \<ge> map_xs md \<or> y0 < 0 \<or> y0 \<ge> map_ys md"
  define C where "C \<longleftrightarrow> x1 < 0 \<or> x1 \<ge> map_xs md \<or> y1 < 0 \<or> y1 \<ge> map_ys md \<or> map_getcellp md x1 y1 cell \<noteq> 0"
  have im: "\<not> B \<Longrightarrow> in_map md x0 y0" "\<not> C \<Longrightarrow> map_getcellp md x1 y1 cell = 0"
    by (auto simp: B_def C_def in_map_def)
  show ?thesis
    unfolding path_search_sub_def Let_def if_not_P [OF assms] A_def [symmetric] B_def [symmetric] C_def [symmetric]
    using im by (cases "mcell md = []"; cases A; cases B; cases C) simp_all
qed

lemma path_search_astar:
  assumes "\<not> bit flag 0" "\<not> bit flag 1" "path_search_sub leave now delay fuel md x0 y0 x1 y1 flag cell = r"
  shows "r = Some (False, None) \<or> in_map md x0 y0 \<and> r = map_option (\<lambda>p. (p \<noteq> None, p)) (astar md cell fuel x0 y0 x1 y1)"
  using path_search_cases [OF assms(2), of leave now delay fuel md x0 y0 x1 y1 cell]
  unfolding assms(3) if_not_P [OF assms(1)] by blast

text \<open>
  C16. Whatever path \<open>path_search_sub\<close> finds by A* is a walk the game allows: each
  of its at most 32 steps leads to a free cell of the map, a diagonal step only
  between two free cells, and the last one to the destination. The start must
  not be the cell (0,0), whose node in the table looks unused.
\<close>

theorem path_search_walk:
  assumes "\<not> bit flag 0" "\<not> bit flag 1" "x0 \<noteq> 0 \<or> y0 \<noteq> 0"
    "path_search_sub leave now delay fuel md x0 y0 x1 y1 flag cell = Some (True, p)"
  shows "\<exists>ds. p = Some ds \<and> length ds \<le> 32 \<and> walk_ok md cell x0 y0 ds x1 y1"
proof -
  from path_search_astar [OF assms(1,2,4)]
  have im: "in_map md x0 y0" and a: "Some (True, p) = map_option (\<lambda>p. (p \<noteq> None, p)) (astar md cell fuel x0 y0 x1 y1)"
    by simp_all
  obtain q where q: "astar md cell fuel x0 y0 x1 y1 = Some q" using a by (cases "astar md cell fuel x0 y0 x1 y1") simp_all
  obtain ds where "p = Some ds" "q = Some ds" using a q by auto
  then show ?thesis using astar_found [OF im assms(3)] q by blast
qed

text \<open>A wall north of (1,0): the walk to (2,1) goes around its corner.\<close>

definition corner_map :: map_data where
  "corner_map = \<lparr>map_xs = 4, map_ys = 4, mcell = map map_gat2cell [0,0,0,0, 0,1,0,0, 0,0,0,0, 0,0,0,0], iwall_num = 0\<rparr>"

lemma corner_map_walk:
  "path_search_sub None 0 0 9 corner_map 1 0 2 1 0 CELL_CHKNOPASS = Some (True, Some [DIR_EAST, DIR_NORTH])"
  by code_simp

theorem path_search_walk_witness:
  "\<exists>ds. Some [DIR_EAST, DIR_NORTH] = Some ds \<and> length ds \<le> 32 \<and> walk_ok corner_map CELL_CHKNOPASS 1 0 ds 2 1"
  by (rule path_search_walk [OF _ _ _ corner_map_walk]) simp_all

text \<open>
  C17. A search that does not start at the cell (0,0) always ends: with the given
  number of rounds, which no such search exceeds, \<open>path_search_sub\<close> returns an
  answer, whatever the map, the destination and the mode. A search from (0,0) need
  not end: \<open>path_search_origin_loops\<close> below is one that never does.
\<close>

theorem path_search_terminates:
  assumes "\<not> bit flag 1" "x0 \<noteq> 0 \<or> y0 \<noteq> 0" "astar_fuel \<le> fuel"
  shows "path_search_sub leave now delay fuel md x0 y0 x1 y1 flag cell \<noteq> None"
  using path_search_cases [OF assms(1), of leave now delay fuel md x0 y0 x1 y1 cell]
proof (elim disjE conjE)
  assume im: "in_map md x0 y0" and r: "path_search_sub leave now delay fuel md x0 y0 x1 y1 flag cell =
      (if bit flag 0 then Some (easy_path md cell x0 y0 x1 y1 \<noteq> None, easy_path md cell x0 y0 x1 y1)
       else map_option (\<lambda>p. (p \<noteq> None, p)) (astar md cell fuel x0 y0 x1 y1))"
  show ?thesis unfolding r using astar_total [OF im assms(2,3)] by (cases "bit flag 0") simp_all
next
  assume r: "path_search_sub leave now delay fuel md x0 y0 x1 y1 flag cell = Some (False, None)"
  show ?thesis unfolding r by simp
qed

theorem path_search_terminates_witness:
  "path_search_sub None 0 0 astar_fuel corner_map 1 0 2 1 0 CELL_CHKNOPASS \<noteq> None"
  by (rule path_search_terminates [OF _ _ order_refl]) simp_all

text \<open>
  C18. No search by A* that starts elsewhere finds a path to the cell (0,0), even
  when it is free: in the zeroed node table that cell counts as visited at no cost.
\<close>

theorem path_search_origin:
  assumes "\<not> bit flag 0" "\<not> bit flag 1" "x0 \<noteq> 0 \<or> y0 \<noteq> 0"
  shows "path_search_sub leave now delay fuel md x0 y0 0 0 flag cell \<noteq> Some (True, p)"
proof
  assume r: "path_search_sub leave now delay fuel md x0 y0 0 0 flag cell = Some (True, p)"
  from path_search_astar [OF assms(1,2) r]
  have im: "in_map md x0 y0" and a: "Some (True, p) = map_option (\<lambda>p. (p \<noteq> None, p)) (astar md cell fuel x0 y0 0 0)"
    by simp_all
  obtain q where q: "astar md cell fuel x0 y0 0 0 = Some q" using a by (cases "astar md cell fuel x0 y0 0 0") simp_all
  obtain ds where "q = Some ds" using a q by auto
  then show False using astar_found [OF im assms(3)] q by blast
qed

lemma corner_map_origin: "map_getcellp corner_map 0 0 CELL_CHKNOPASS = 0"
  by code_simp

theorem path_search_origin_witness:
  "path_search_sub None 0 0 50 corner_map 1 0 0 0 0 CELL_CHKNOPASS \<noteq> Some (True, Some [DIR_WEST])"
  by (rule path_search_origin) simp_all

section \<open>The search from (0,0)\<close>

lemma astar_loop_mono:
  "astar_loop md cell x1 y1 n heap tp = Some r \<Longrightarrow> n \<le> m \<Longrightarrow> astar_loop md cell x1 y1 m heap tp = Some r"
proof (induction n arbitrary: m heap tp)
  case (Suc n)
  then obtain k where "m = Suc k" "n \<le> k" by (cases m) auto
  then show ?case using Suc by (auto split: option.splits prod.splits if_splits)
qed simp

text \<open>Parents that never leave a set of nodes have no end.\<close>

lemma path_back_cycle:
  "\<forall>i \<in> S. \<exists>p \<in> S. parent (tp ! i) = Some p \<Longrightarrow> i \<in> S \<Longrightarrow> path_back tp fuel i = None"
proof (induction fuel arbitrary: i)
  case 0
  then show ?case by (subst path_back.simps) auto
next
  case (Suc fuel)
  then show ?case by (subst path_back.simps) auto
qed

text \<open>A free column; the cells at the east and north edge of a map never count as free.\<close>

definition column_map :: map_data where
  "column_map = \<lparr>map_xs = 2, map_ys = 34, mcell = replicate 68 (map_gat2cell 0), iwall_num = 0\<rparr>"

definition column_start :: "path_node list" where
  "column_start = (replicate (MAX_WALKPATH * MAX_WALKPATH) zero_node)
     [0 := \<lparr>parent = None, nx = 0, ny = 0, g_cost = 0, f_cost = s16 (heuristic 0 0 0 32), nclosed = False\<rparr>]"

lemma column_cells:
  "x \<in> {0} \<Longrightarrow> 0 \<le> y \<Longrightarrow> y < 33 \<Longrightarrow> map_getcellp column_map x y CELL_CHKNOPASS = 0"
proof -
  have "list_all (\<lambda>y. map_getcellp column_map 0 (int y) CELL_CHKNOPASS = 0) [0..<33]" by code_simp
  then have "map_getcellp column_map 0 (int (nat y)) CELL_CHKNOPASS = 0" if "0 \<le> y" "y < 33" for y
    unfolding list_all_iff using that by (intro bspec [where x = "nat y"]) auto
  then show "x \<in> {0} \<Longrightarrow> 0 \<le> y \<Longrightarrow> y < 33 \<Longrightarrow> map_getcellp column_map x y CELL_CHKNOPASS = 0" by simp
qed

lemma column_edge: "map_getcellp column_map 1 y CELL_CHKNOPASS \<noteq> 0"
  by (simp add: map_getcellp_def column_map_def)

lemma column_neighbours:
  assumes "0 \<le> y" "y < 32"
  shows "neighbours column_map CELL_CHKNOPASS 0 y = (0, 1, 10) # (if 0 < y then [(0, -1, 10)] else [])"
  using assms column_cells [of 0 "y + 1"] column_cells [of 0 "y - 1"] column_edge
  by (simp add: neighbours_def MOVE_COST_def) (simp add: column_map_def)

text \<open>After \<open>n\<close> rounds the cells up to the \<open>n\<close>th are in the table, each the parent of the next.\<close>

definition column_inv :: "nat \<Rightarrow> path_node list \<Rightarrow> bool" where
  "column_inv n tp \<longleftrightarrow> length tp = 1024 \<and>
     (\<forall>k < 32. if k \<le> n then nx (tp ! (32 * k)) = 0 \<and> ny (tp ! (32 * k)) = int k \<and> g_cost (tp ! (32 * k)) = 10 * int k
         \<and> (0 < k \<longrightarrow> parent (tp ! (32 * k)) = Some (32 * (k - 1)))
       else tp ! (32 * k) = zero_node)"

lemma columnD:
  assumes "column_inv n tp"
  shows "length tp = 1024"
    "k \<le> n \<Longrightarrow> k < 32 \<Longrightarrow> nx (tp ! (32 * k)) = 0 \<and> ny (tp ! (32 * k)) = int k \<and> g_cost (tp ! (32 * k)) = 10 * int k
       \<and> (0 < k \<longrightarrow> parent (tp ! (32 * k)) = Some (32 * (k - 1)))"
    "n < k \<Longrightarrow> k < 32 \<Longrightarrow> tp ! (32 * k) = zero_node"
  using assms by (auto simp: column_inv_def split: if_splits)

lemma heap_single [simp]: "heap_push_node tp [] i = [i]" "BHEAP_POP2 cmp [i] = []"
proof -
  have "mset (heap_push_node tp [] i) = {#i#}"
    using BHEAP_PUSH2_correct [where xs = "[]" and v = i, OF NODE_agrees] by (simp add: heap_push_node_def is_heap_def)
  then show "heap_push_node tp [] i = [i]" by (metis mset_single_iff)
  show "BHEAP_POP2 cmp [i] = []" by (simp add: BHEAP_POP2_def VECTOR_POP_def)
qed

lemma column_index: "n < 32 \<Longrightarrow> calc_index 0 (int n) = 32 * n" "calc_index 0 32 = 0"
  by (simp_all add: calc_index_def)

lemma column_north:
  assumes "column_inv n tp" "n < 32" "m = (if n = 31 then 0 else 32 * Suc n)"
  shows "add_path [] tp 0 (1 + int n) (10 * int n + 10) (32 * n) h = (0, [m], tp[m :=
    \<lparr>parent = Some (32 * n), nx = 0, ny = 1 + int n, g_cost = 10 * int n + 10, f_cost = s16 (10 * int n + 10 + h), nclosed = False\<rparr>])"
proof -
  have m: "calc_index 0 (1 + int n) = m"
    using column_index(1) [of "Suc n"] column_index(2) assms(2,3) by (cases "n = 31") simp_all
  have "nx (tp ! m) = 0 \<and> ny (tp ! m) = 0"
  proof (cases "n = 31")
    case True
    then show ?thesis using columnD(2) [OF assms(1), of 0] assms(3) by simp
  next
    case False
    then have "tp ! (32 * Suc n) = zero_node" using columnD(3) [OF assms(1), of "Suc n"] assms(2) by simp
    then show ?thesis using False assms(3) by (simp add: zero_node_def)
  qed
  moreover have "s16 (10 * int n + 10) = 10 * int n + 10" using assms(2) by (intro s16_id) auto
  ultimately show ?thesis by (simp add: add_path_def m Let_def)
qed

lemma column_south:
  assumes "nx (tp ! (32 * k)) = 0" "ny (tp ! (32 * k)) = int k" "g_cost (tp ! (32 * k)) \<le> g" "k < 32"
  shows "add_path heap tp 0 (int k) g cur h = (0, heap, tp)"
  using assms by (simp add: add_path_def column_index Let_def)

lemma column_step:
  assumes I: "column_inv n tp" and n: "n < 32" "m = (if n = 31 then 0 else 32 * Suc n)"
  shows "\<exists>f. astar_round column_map CELL_CHKNOPASS 0 32 [32 * n] tp = Some (32 * n, False, [m],
    tp[32 * n := (tp ! (32 * n))\<lparr>nclosed := True\<rparr>, m := \<lparr>parent = Some (32 * n), nx = 0, ny = 1 + int n,
      g_cost = 10 * int n + 10, f_cost = f, nclosed = False\<rparr>])"
proof -
  let ?t = "tp[32 * n := (tp ! (32 * n))\<lparr>nclosed := True\<rparr>]"
  note D = columnD [OF I]
  have N: "nx (tp ! (32 * n)) = 0" "ny (tp ! (32 * n)) = int n" "g_cost (tp ! (32 * n)) = 10 * int n"
    using D(2) [of n] n(1) by simp_all
  have I': "column_inv n ?t"
    using I D(1) n(1) by (auto simp: column_inv_def nth_list_update split: if_splits)
  let ?h = "heuristic 0 (1 + int n) 0 32"
  define u where "u = ?t[m := \<lparr>parent = Some (32 * n), nx = 0, ny = 1 + int n,
      g_cost = 10 * int n + 10, f_cost = s16 (10 * int n + 10 + ?h), nclosed = False\<rparr>]"
  have a: "add_path [] ?t 0 (1 + int n) (10 * int n + 10) (32 * n) ?h = (0, [m], u)"
    using column_north [OF I' n] unfolding u_def .
  have b: "add_path [m] u 0 (int (n - 1)) (10 * int n + 10) (32 * n) h = (0, [m], u)" if "0 < n" for h
  proof (rule column_south)
    have "m \<noteq> 32 * (n - 1)" using n that by auto
    then have "u ! (32 * (n - 1)) = ?t ! (32 * (n - 1))" by (simp add: u_def)
    then show "nx (u ! (32 * (n - 1))) = 0" "ny (u ! (32 * (n - 1))) = int (n - 1)"
      "g_cost (u ! (32 * (n - 1))) \<le> 10 * int n + 10" "n - 1 < 32"
      using columnD(2) [OF I', of "n - 1"] n(1) by simp_all
  qed
  have r: "astar_round column_map CELL_CHKNOPASS 0 32 [32 * n] tp =
      (case add_moves 0 32 0 (int n) (10 * int n) (32 * n) (neighbours column_map CELL_CHKNOPASS 0 (int n)) [] ?t of
         (e, heap, tp) \<Rightarrow> if e \<noteq> 0 then None else Some (32 * n, False, heap, tp))"
    using n(1) by (simp add: astar_round_def BHEAP_PEEK_def N Let_def case_prod_beta)
  have "astar_round column_map CELL_CHKNOPASS 0 32 [32 * n] tp = Some (32 * n, False, [m], u)"
  proof (cases "n = 0")
    case True
    then show ?thesis using a column_neighbours [of 0] unfolding r by simp
  next
    case False
    then have "add_path [m] u 0 (int n - 1) (10 * int n + 10) (32 * n) h = (0, [m], u)" for h
      using b [of h] by (simp add: of_nat_diff)
    then show ?thesis using a column_neighbours [of "int n"] n(1) False unfolding r by (simp add: add.commute)
  qed
  then show ?thesis unfolding u_def by blast
qed

lemma column_step_inv:
  assumes "column_inv n tp" "n < 31"
  shows "column_inv (Suc n) (tp[32 * n := (tp ! (32 * n))\<lparr>nclosed := True\<rparr>, 32 * Suc n :=
    \<lparr>parent = Some (32 * n), nx = 0, ny = 1 + int n, g_cost = 10 * int n + 10, f_cost = f, nclosed = False\<rparr>])"
  using columnD [OF assms(1)] assms(2)
  unfolding column_inv_def by (auto simp: nth_list_update le_Suc_eq)

lemma column_run:
  "n < 32 \<Longrightarrow> \<exists>tp. astar_loop column_map CELL_CHKNOPASS 0 32 (n + k) [0] column_start
     = astar_loop column_map CELL_CHKNOPASS 0 32 k [32 * n] tp \<and> column_inv n tp"
proof (induction n arbitrary: k)
  case 0
  have "column_inv 0 column_start"
    by (auto simp: column_inv_def column_start_def MAX_WALKPATH_def nth_list_update)
  then show ?case by auto
next
  case (Suc n)
  then obtain tp where r: "astar_loop column_map CELL_CHKNOPASS 0 32 (n + Suc k) [0] column_start
      = astar_loop column_map CELL_CHKNOPASS 0 32 (Suc k) [32 * n] tp" and I: "column_inv n tp"
    by fastforce
  have n: "n < 31" using Suc.prems by simp
  from column_step [OF I _ refl] n obtain f where
    "astar_round column_map CELL_CHKNOPASS 0 32 [32 * n] tp = Some (32 * n, False, [32 * Suc n],
      tp[32 * n := (tp ! (32 * n))\<lparr>nclosed := True\<rparr>, 32 * Suc n := \<lparr>parent = Some (32 * n), nx = 0, ny = 1 + int n,
        g_cost = 10 * int n + 10, f_cost = f, nclosed = False\<rparr>])"
    by auto
  then show ?case using r column_step_inv [OF I n, of f] by auto
qed

text \<open>The round at (0,31) takes the destination for a new node and puts it on the entry of the start.\<close>

lemma column_search:
  "\<exists>tp. astar_loop column_map CELL_CHKNOPASS 0 32 33 [0] column_start = Some (Some (0, tp))
     \<and> (\<forall>k < 32. parent (tp ! (32 * k)) = Some (32 * ((k + 31) mod 32)))"
proof -
  obtain tp where r: "astar_loop column_map CELL_CHKNOPASS 0 32 33 [0] column_start
      = astar_loop column_map CELL_CHKNOPASS 0 32 2 [32 * 31] tp" and I: "column_inv 31 tp"
    using column_run [of 31 2] by auto
  note D = columnD [OF I]
  define nd where "nd f = \<lparr>parent = Some (32 * 31), nx = 0, ny = 1 + int 31, g_cost = 10 * int 31 + 10, f_cost = f, nclosed = False\<rparr>" for f
  define u where "u f = tp[32 * 31 := (tp ! (32 * 31))\<lparr>nclosed := True\<rparr>, 0 := nd f]" for f
  obtain f where s: "astar_round column_map CELL_CHKNOPASS 0 32 [32 * 31] tp = Some (32 * 31, False, [0], u f)"
    using column_step [OF I _ refl] unfolding u_def nd_def by auto
  let ?v = "(u f)[0 := (nd f)\<lparr>nclosed := True\<rparr>]"
  have "u f ! 0 = nd f" using D(1) by (simp add: u_def)
  then have "astar_round column_map CELL_CHKNOPASS 0 32 [0] (u f) = Some (0, True, [], ?v)"
    by (simp add: astar_round_def BHEAP_PEEK_def nd_def)
  then have "astar_loop column_map CELL_CHKNOPASS 0 32 33 [0] column_start = Some (Some (0, ?v))"
    unfolding r using s by (simp add: numeral_2_eq_2)
  moreover have "parent (?v ! (32 * k)) = Some (32 * ((k + 31) mod 32))" if "k < 32" for k
  proof (cases "k = 0")
    case True
    then show ?thesis using D(1) by (simp add: u_def nd_def)
  next
    case False
    then have "(k + 31) mod 32 = k - 1" using that mod_add_self2 [of "k - 1" 32] by (simp add: add.commute)
    then show ?thesis using D(1) D(2) [of k] D(2) [of 31] that False by (simp add: u_def nth_list_update)
  qed
  ultimately show ?thesis by blast
qed

text \<open>
  From (0,0) to (0,32) the search never returns, with any amount of fuel: the parents
  that the loop follows to count the steps form a cycle.
\<close>

lemma path_search_origin_loops:
  "path_search_sub None now delay fuel column_map 0 0 0 32 0 CELL_CHKNOPASS = None"
proof -
  let ?go = "\<lambda>n. astar_loop column_map CELL_CHKNOPASS 0 32 n [0] column_start"
  obtain tp where l: "?go 33 = Some (Some (0, tp))"
    and p: "\<forall>k < 32. parent (tp ! (32 * k)) = Some (32 * ((k + 31) mod 32))"
    using column_search by blast
  have c: "\<forall>i \<in> (\<lambda>k. 32 * k) ` {..<32}. \<exists>p \<in> (\<lambda>k. 32 * k) ` {..<32}. parent (tp ! i) = Some p"
    using p by auto
  have b: "path_back tp fuel 0 = None" by (rule path_back_cycle [OF c]) auto
  have "?go fuel = None \<or> ?go fuel = Some (Some (0, tp))"
  proof (cases "?go fuel")
    case (Some r)
    then have "?go (max fuel 33) = Some r" "?go (max fuel 33) = Some (Some (0, tp))"
      using l astar_loop_mono by (blast intro: max.cobounded1 max.cobounded2)+
    then show ?thesis using Some by simp
  qed simp
  then have "astar column_map CELL_CHKNOPASS fuel 0 0 0 32 = None"
    using b column_index(1) [of 0] by (auto simp: astar_def Let_def column_start_def [symmetric])
  then show ?thesis
    using column_cells [of 0 32] by (simp add: path_search_sub_def) (simp add: column_map_def)
qed

end
