(* ===== verification/Path_Lines.thy ===== *)
theory Path_Lines
  imports Path_Search
begin

text \<open>
  What the straight lines of map/path.cpp do: the cells that the line of sight
  visits, the straight walking path, and knockback.
\<close>

section \<open>Line of sight\<close>

definition line_cell :: "int \<Rightarrow> int \<Rightarrow> int \<Rightarrow> int \<Rightarrow> int \<Rightarrow> nat \<Rightarrow> int \<times> int" where
  "line_cell x0 y0 dx dy w k = (x0 + int k * dx div w, y0 + int k * dy div w)"

definition line_state :: "int \<Rightarrow> int \<Rightarrow> int \<Rightarrow> int \<Rightarrow> int \<Rightarrow> nat \<Rightarrow> int \<times> int \<times> int \<times> int" where
  "line_state x0 y0 dx dy w k =
     (x0 + int k * dx div w, y0 + int k * dy div w, int k * dx mod w, int k * dy mod w)"

lemma div_mod_eqI:
  fixes a :: int
  assumes "a = q * w + r" "0 \<le> r" "r < w"
  shows "a div w = q" "a mod w = r"
  using assms by (simp_all add: div_pos_geq mult.commute)

lemma line_axis:
  fixes d w a :: int
  assumes w: "0 < w" "\<bar>d\<bar> \<le> w"
  shows "a mod w + d \<ge> w \<Longrightarrow> (a + d) div w = a div w + 1 \<and> (a + d) mod w = a mod w + d - w"
    "a mod w + d < 0 \<Longrightarrow> (a + d) div w = a div w - 1 \<and> (a + d) mod w = a mod w + d + w"
    "0 \<le> a mod w + d \<Longrightarrow> a mod w + d < w \<Longrightarrow> (a + d) div w = a div w \<and> (a + d) mod w = a mod w + d"
proof -
  have a: "a = a div w * w + a mod w" by simp
  have b: "0 \<le> a mod w" "a mod w < w" using w by simp_all
  have d: "- w \<le> d" "d \<le> w" using w by simp_all
  have c: "a mod w + d - w < w" "0 \<le> a mod w + d + w" using b d by linarith+
  have e: "a + d = (a div w + 1) * w + (a mod w + d - w)" "a + d = (a div w - 1) * w + (a mod w + d + w)"
    "a + d = a div w * w + (a mod w + d)" using a by (simp_all add: algebra_simps)
  show "a mod w + d \<ge> w \<Longrightarrow> (a + d) div w = a div w + 1 \<and> (a + d) mod w = a mod w + d - w"
    using div_mod_eqI [OF e(1) _ c(1)] by simp
  show "a mod w + d < 0 \<Longrightarrow> (a + d) div w = a div w - 1 \<and> (a + d) mod w = a mod w + d + w"
    using div_mod_eqI [OF e(2) c(2)] by simp
  show "0 \<le> a mod w + d \<Longrightarrow> a mod w + d < w \<Longrightarrow> (a + d) div w = a div w \<and> (a + d) mod w = a mod w + d"
    using div_mod_eqI [OF e(3)] by blast
qed

lemma long_step_line:
  assumes "0 < w" "0 \<le> dx" "dx \<le> w" "\<bar>dy\<bar> \<le> w"
  shows "long_step dx dy w (line_state x0 y0 dx dy w k) = line_state x0 y0 dx dy w (Suc k)"
proof -
  have k: "int (Suc k) * d = int k * d + d" for d by (simp add: algebra_simps)
  have X: "int k * dx mod w \<ge> 0" using assms by simp
  note x = line_axis [OF assms(1), of dx "int k * dx"] and y = line_axis [OF assms(1,4), of "int k * dy"]
  show ?thesis
    unfolding long_step_def line_state_def k using x y X assms by (auto simp: Let_def)
qed

text \<open>
  The loop from the cell \<open>k\<close> of a line of \<open>w\<close> cells ends at the destination when the
  cells between are free, and at the first one that is not otherwise.
\<close>

lemma long_loop_line:
  assumes w: "0 < w" "0 \<le> dx" "dx \<le> w" "\<bar>dy\<bar> \<le> w" "dx = w \<or> \<bar>dy\<bar> = w"
  shows "k + n = nat w \<Longrightarrow> \<exists>path'. long_loop md cell dx dy w (x0 + dx) (y0 + dy) n (line_state x0 y0 dx dy w k) path
    = Some (\<forall>j \<in> {k<..<nat w}. map_getcellp md (fst (line_cell x0 y0 dx dy w j)) (snd (line_cell x0 y0 dx dy w j)) cell = 0, path')"
proof (induction n arbitrary: k path)
  case 0
  then have "int k = w" using w(1) by simp
  then show ?case using w(1) 0 by (simp add: long_loop.simps [of _ _ _ _ _ _ _ 0] line_state_def)
next
  case (Suc n)
  let ?c = "\<lambda>j. map_getcellp md (fst (line_cell x0 y0 dx dy w j)) (snd (line_cell x0 y0 dx dy w j)) cell"
  have goal: "line_cell x0 y0 dx dy w j = (x0 + dx, y0 + dy) \<longleftrightarrow> j = nat w" if "j \<le> nat w" for j
  proof
    assume "j = nat w"
    then show "line_cell x0 y0 dx dy w j = (x0 + dx, y0 + dy)" using w(1) by (simp add: line_cell_def)
  next
    assume e: "line_cell x0 y0 dx dy w j = (x0 + dx, y0 + dy)"
    consider "dx = w" | "dy = w" | "dy = - w" using w(5) by linarith
    then have "int j = w"
    proof cases
      case 1
      then show ?thesis using e w(1) by (simp add: line_cell_def)
    next
      case 2
      then show ?thesis using e w(1) by (simp add: line_cell_def)
    next
      case 3
      then have "int j * dy div w = - int j" using w(1) by (simp add: zdiv_zminus1_eq_if)
      then show ?thesis using e 3 by (simp add: line_cell_def)
    qed
    then show "j = nat w" by simp
  qed
  have st: "fst (line_state x0 y0 dx dy w j) = fst (line_cell x0 y0 dx dy w j)"
    "fst (snd (line_state x0 y0 dx dy w j)) = snd (line_cell x0 y0 dx dy w j)" for j
    by (simp_all add: line_state_def line_cell_def)
  have kw: "k < nat w" using Suc.prems by simp
  have 1: "\<not> (fst (line_cell x0 y0 dx dy w k) = x0 + dx \<and> snd (line_cell x0 y0 dx dy w k) = y0 + dy)"
    using goal [of k] kw by (metis less_imp_le nat_neq_iff prod.collapse)
  have 2: "(fst (line_cell x0 y0 dx dy w (Suc k)) \<noteq> x0 + dx \<or> snd (line_cell x0 y0 dx dy w (Suc k)) \<noteq> y0 + dy)
      \<longleftrightarrow> Suc k \<noteq> nat w"
    using goal [of "Suc k"] kw by (metis Suc_leI fst_conv prod.collapse snd_conv)
  note S = long_step_line [OF w(1-4), of x0 y0 k]
  obtain p1 where L: "long_loop md cell dx dy w (x0 + dx) (y0 + dy) (Suc n) (line_state x0 y0 dx dy w k) path
      = (if Suc k \<noteq> nat w \<and> ?c (Suc k) \<noteq> 0 then Some (False, p1)
         else long_loop md cell dx dy w (x0 + dx) (y0 + dy) n (line_state x0 y0 dx dy w (Suc k)) p1)"
    unfolding long_loop.simps [of _ _ _ _ _ _ _ "Suc n"] using 1 2 by (simp add: st S Let_def)
  have set: "{k<..<nat w} = (if Suc k = nat w then {} else insert (Suc k) {Suc k<..<nat w})" using kw by auto
  show ?case
  proof (cases "Suc k \<noteq> nat w \<and> ?c (Suc k) \<noteq> 0")
    case True
    then show ?thesis unfolding L set by simp
  next
    case False
    have "{Suc k<..<nat w} = {}" if "Suc k = nat w" using that by auto
    then show ?thesis using Suc.IH [of "Suc k" p1] Suc.prems False unfolding L set by (cases "Suc k = nat w") auto
  qed
qed

text \<open>The reference: the cells of the line strictly between the two ends are free.\<close>

definition line_free :: "map_data \<Rightarrow> cell_chk \<Rightarrow> int \<Rightarrow> int \<Rightarrow> int \<Rightarrow> int \<Rightarrow> bool" where
  "line_free md cell x0 y0 x1 y1 =
     (let dx = x1 - x0; dy = y1 - y0; w = max dx \<bar>dy\<bar>
      in \<forall>k \<in> {0<..<nat w}. map_getcellp md (x0 + int k * dx div w) (y0 + int k * dy div w) cell = 0)"

lemma path_search_long_line:
  assumes "mcell md \<noteq> []" "x0 \<le> x1"
  shows "map_option fst (path_search_long md x0 y0 x1 y1 cell) = Some (line_free md cell x0 y0 x1 y1)"
proof -
  let ?dx = "x1 - x0" and ?dy = "y1 - y0"
  define w where "w = (if ?dx > \<bar>?dy\<bar> then ?dx else \<bar>?dy\<bar>)"
  have wm: "w = max ?dx \<bar>?dy\<bar>" by (auto simp: w_def)
  have r: "path_search_long md x0 y0 x1 y1 cell =
     (case long_loop md cell ?dx ?dy w x1 y1 (nat w) (x0, y0, 0, 0) [(x0, y0)] of
        None \<Rightarrow> None
      | Some (r, path) \<Rightarrow> Some (r, Some \<lparr>srx = (if ?dx > \<bar>?dy\<bar> then 0 else 1), sry = (if ?dx > \<bar>?dy\<bar> then 1 else 0), scells = path\<rparr>))"
    using assms by (cases "\<bar>?dy\<bar> < ?dx") (simp_all add: path_search_long_def w_def Let_def)
  show ?thesis
  proof (cases "w = 0")
    case True
    then have "x1 = x0" "y1 = y0" using assms(2) by (auto simp: wm)
    then show ?thesis unfolding r by (simp add: True long_loop.simps [of _ _ _ _ _ _ _ 0] line_free_def)
  next
    case False
    then have w: "0 < w" "0 \<le> ?dx" "?dx \<le> w" "\<bar>?dy\<bar> \<le> w" "?dx = w \<or> \<bar>?dy\<bar> = w"
      using assms(2) by (auto simp: wm)
    have "line_state x0 y0 ?dx ?dy w 0 = (x0, y0, 0, 0)" by (simp add: line_state_def)
    with long_loop_line [OF w, of 0 "nat w" md cell x0 y0 "[(x0, y0)]"] show ?thesis
      unfolding r line_free_def Let_def wm [symmetric] by (auto simp: line_cell_def)
  qed
qed

lemma path_search_long_swap:
  assumes "x1 < x0"
  shows "path_search_long md x0 y0 x1 y1 cell = path_search_long md x1 y1 x0 y0 cell"
  using assms by (simp add: path_search_long_def Let_def)

text \<open>
  C19. The line of sight between two cells is decided by the cells of a digital
  line, ordered from left to right: \<open>path_search_long\<close> always ends, and answers
  true exactly when all cells strictly between the ends pass the test.
\<close>

theorem path_search_long_reference:
  assumes "mcell md \<noteq> []"
  shows "map_option fst (path_search_long md x0 y0 x1 y1 cell) =
    Some (if x0 \<le> x1 then line_free md cell x0 y0 x1 y1 else line_free md cell x1 y1 x0 y0)"
proof (cases "x0 \<le> x1")
  case True
  then show ?thesis using path_search_long_line [OF assms True] by simp
next
  case False
  then have "x1 < x0" "x1 \<le> x0" by simp_all
  then show ?thesis using path_search_long_line [OF assms] False unfolding path_search_long_swap [OF \<open>x1 < x0\<close>] by simp
qed

theorem path_search_long_reference_witness:
  "map_option fst (path_search_long sample_map 4 0 0 3 CELL_CHKWALL) =
    Some (if (4::int) \<le> 0 then line_free sample_map CELL_CHKWALL 4 0 0 3 else line_free sample_map CELL_CHKWALL 0 3 4 0)"
  by (rule path_search_long_reference) (simp add: sample_map_def)

lemma line_free_vertical:
  assumes "y0 \<le> y1"
  shows "line_free md cell x y0 x y1 \<longleftrightarrow> (\<forall>y \<in> {y0<..<y1}. map_getcellp md x y cell = 0)"
    "line_free md cell x y1 x y0 \<longleftrightarrow> (\<forall>y \<in> {y0<..<y1}. map_getcellp md x y cell = 0)"
proof -
  let ?d = "y1 - y0"
  show "line_free md cell x y0 x y1 \<longleftrightarrow> (\<forall>y \<in> {y0<..<y1}. map_getcellp md x y cell = 0)"
  proof (cases "?d = 0")
    case False
    then have w: "max (x - x) \<bar>?d\<bar> = ?d" "0 < ?d" using assms by auto
    have c: "int k * ?d div ?d = int k" for k using w(2) by simp
    have "(\<forall>k \<in> {0<..<nat ?d}. map_getcellp md x (y0 + int k) cell = 0)
      \<longleftrightarrow> (\<forall>y \<in> {y0<..<y1}. map_getcellp md x y cell = 0)"
    proof (intro iffI ballI)
      fix y assume a: "\<forall>k \<in> {0<..<nat ?d}. map_getcellp md x (y0 + int k) cell = 0" and y: "y \<in> {y0<..<y1}"
      have "nat (y - y0) \<in> {0<..<nat ?d}" using y by auto
      then show "map_getcellp md x y cell = 0" using a y by fastforce
    qed auto
    then show ?thesis unfolding line_free_def Let_def w(1) c by simp
  qed (simp add: line_free_def)
  show "line_free md cell x y1 x y0 \<longleftrightarrow> (\<forall>y \<in> {y0<..<y1}. map_getcellp md x y cell = 0)"
  proof (cases "?d = 0")
    case False
    then have w: "max (x - x) \<bar>y0 - y1\<bar> = ?d" "0 < ?d" using assms by auto
    have c: "int k * (y0 - y1) div ?d = - int k" for k
    proof -
      have "int k * (y0 - y1) = - int k * ?d" by (simp add: algebra_simps)
      then show ?thesis using w(2) by (metis less_irrefl nonzero_mult_div_cancel_right)
    qed
    have "(\<forall>k \<in> {0<..<nat ?d}. map_getcellp md x (y1 - int k) cell = 0)
      \<longleftrightarrow> (\<forall>y \<in> {y0<..<y1}. map_getcellp md x y cell = 0)"
    proof (intro iffI ballI)
      fix y assume a: "\<forall>k \<in> {0<..<nat ?d}. map_getcellp md x (y1 - int k) cell = 0" and y: "y \<in> {y0<..<y1}"
      have "nat (y1 - y) \<in> {0<..<nat ?d}" using y by auto
      then show "map_getcellp md x y cell = 0" using a y by fastforce
    qed auto
    then show ?thesis unfolding line_free_def Let_def w(1) c by simp
  qed (simp add: line_free_def)
qed

text \<open>Sight is symmetric: two cells see each other or neither sees the other.\<close>

theorem path_search_long_symmetric:
  "map_option fst (path_search_long md x0 y0 x1 y1 cell) = map_option fst (path_search_long md x1 y1 x0 y0 cell)"
proof (cases "mcell md = []")
  case True
  then show ?thesis by (simp add: path_search_long_def)
next
  case False
  note L = path_search_long_line [OF False]
  consider "x0 < x1" | "x1 < x0" | "x0 = x1" by linarith
  then show ?thesis
  proof cases
    case 1
    show ?thesis unfolding path_search_long_swap [OF 1] by (rule refl)
  next
    case 2
    show ?thesis unfolding path_search_long_swap [OF 2] by (rule refl)
  next
    case 3
    have "line_free md cell x0 y0 x0 y1 = line_free md cell x0 y1 x0 y0"
      using line_free_vertical [of y0 y1] line_free_vertical [of y1 y0] by (cases "y0 \<le> y1") simp_all
    then show ?thesis unfolding 3 [symmetric] L [OF order_refl] by simp
  qed
qed

section \<open>The straight path\<close>








section \<open>Knockback\<close>

lemma blown_slide_ok:
  assumes "blown_slide md r x0 y0 dx dy = (dx', dy')" "\<bar>dx\<bar> \<le> 1" "\<bar>dy\<bar> \<le> 1"
  shows "\<bar>dx'\<bar> \<le> 1 \<and> \<bar>dy'\<bar> \<le> 1 \<and> (dx' = 0 \<and> dy' = 0 \<or> map_getcellp md (x0 + dx') (y0 + dy') CELL_CHKPASS \<noteq> 0)"
  using assms by (auto simp: blown_slide_def Let_def split: if_splits)

lemma blown_loop_ok:
  "blown_loop halt pvpb md rnd c x0 y0 dx dy = (x, y) \<Longrightarrow> \<bar>dx\<bar> \<le> 1 \<Longrightarrow> \<bar>dy\<bar> \<le> 1 \<Longrightarrow>
   \<bar>x - x0\<bar> \<le> int c \<and> \<bar>y - y0\<bar> \<le> int c
   \<and> (x = x0 \<and> y = y0 \<or> map_getcellp md x y CELL_CHKPASS \<noteq> 0)
   \<and> (pvpb \<and> map_getcellp md x0 y0 CELL_CHKPVP \<noteq> 0 \<longrightarrow> map_getcellp md x y CELL_CHKPVP \<noteq> 0)"
proof (induction c arbitrary: x0 y0 dx dy)
  case (Suc c)
  define blocked where "blocked \<longleftrightarrow> map_getcellp md (x0 + dx) (y0 + dy) CELL_CHKPASS = 0"
  obtain dx' dy' where s: "(if blocked then blown_slide md (rnd (Suc c)) x0 y0 dx dy else (dx, dy)) = (dx', dy')"
    by fastforce
  have d: "\<bar>dx'\<bar> \<le> 1 \<and> \<bar>dy'\<bar> \<le> 1 \<and> (dx' = 0 \<and> dy' = 0 \<or> map_getcellp md (x0 + dx') (y0 + dy') CELL_CHKPASS \<noteq> 0)"
    using blown_slide_ok [of md _ x0 y0 dx dy dx' dy'] s Suc.prems(2,3) by (cases blocked) (auto simp: blocked_def)
  define P where "P \<longleftrightarrow> pvpb \<and> map_getcellp md x0 y0 CELL_CHKPVP \<noteq> 0 \<and> map_getcellp md (x0 + dx') (y0 + dy') CELL_CHKPVP = 0"
  have r: "blown_loop halt pvpb md rnd (Suc c) x0 y0 dx dy =
      (if dx = 0 \<and> dy = 0 \<or> blocked \<and> halt \<or> P then (x0, y0)
       else blown_loop halt pvpb md rnd c (x0 + dx') (y0 + dy') dx' dy')"
    unfolding blown_loop.simps Let_def blocked_def [symmetric] s prod.case P_def [symmetric] by simp
  show ?case
  proof (cases "dx = 0 \<and> dy = 0 \<or> blocked \<and> halt \<or> P")
    case True
    then show ?thesis using Suc.prems(1) unfolding r by simp
  next
    case False
    then have l: "blown_loop halt pvpb md rnd c (x0 + dx') (y0 + dy') dx' dy' = (x, y)"
      using Suc.prems(1) unfolding r if_not_P [OF False] by blast
    have I: "\<bar>x - (x0 + dx')\<bar> \<le> int c \<and> \<bar>y - (y0 + dy')\<bar> \<le> int c
      \<and> (x = x0 + dx' \<and> y = y0 + dy' \<or> map_getcellp md x y CELL_CHKPASS \<noteq> 0)
      \<and> (pvpb \<and> map_getcellp md (x0 + dx') (y0 + dy') CELL_CHKPVP \<noteq> 0 \<longrightarrow> map_getcellp md x y CELL_CHKPVP \<noteq> 0)"
      by (rule Suc.IH [OF l]) (use d in simp_all)
    have "\<bar>x - x0\<bar> \<le> int (Suc c)" "\<bar>y - y0\<bar> \<le> int (Suc c)" using I d by auto
    moreover have "x = x0 \<and> y = y0 \<or> map_getcellp md x y CELL_CHKPASS \<noteq> 0" using I d by auto
    moreover have "pvpb \<and> map_getcellp md x0 y0 CELL_CHKPVP \<noteq> 0 \<longrightarrow> map_getcellp md x y CELL_CHKPVP \<noteq> 0"
      using I False by (auto simp: P_def)
    ultimately show ?thesis by blast
  qed
qed simp

lemma pack_position:
  fixes x y :: int
  assumes "0 \<le> y" "y < 65536"
  shows "or (push_bit 16 x) y = x * 65536 + y"
proof -
  have t: "take_bit 16 y = y" using assms by (simp add: take_bit_int_eq_self)
  have "or (push_bit 16 x) (take_bit 16 y) = push_bit 16 x + take_bit 16 y"
    by (rule disjunctive_add_eq_or [symmetric]) (auto intro!: bit_eqI simp: bit_simps)
  then show ?thesis by (simp add: t push_bit_eq_mult)
qed

text \<open>
  C21. Knockback from a cell of the map ends at most 25 cells away in both axes,
  on the start itself or on a cell that can be passed, whose coordinates are the
  two halves of the result; and it cannot push a target off a cell PvP area when
  the setting forbids it.
\<close>

theorem path_blownpos_target:
  assumes "mcell md \<noteq> []" "0 \<le> x0" "0 \<le> y0" "y0 < 65536" "map_ys md \<le> 32767"
    "path_blownpos halt pvpb md rnd x0 y0 dx dy cnt = r"
  defines "x \<equiv> r div 65536" and "y \<equiv> r mod 65536"
  shows "\<bar>x - x0\<bar> \<le> max 0 (min 25 cnt) \<and> \<bar>y - y0\<bar> \<le> max 0 (min 25 cnt)
    \<and> (x = x0 \<and> y = y0 \<or> map_getcellp md x y CELL_CHKPASS \<noteq> 0)
    \<and> (pvpb \<and> map_getcellp md x0 y0 CELL_CHKPVP \<noteq> 0 \<longrightarrow> map_getcellp md x y CELL_CHKPVP \<noteq> 0)"
proof -
  let ?c = "if cnt > 25 then 25 else cnt"
  define bad where "bad \<longleftrightarrow> dx > 1 \<or> dx < -1 \<or> dy > 1 \<or> dy < -1"
  define ex where "ex = (if bad then sgn1 dx else dx)"
  define ey where "ey = (if bad then sgn1 dy else dy)"
  obtain u v where l: "blown_loop halt pvpb md rnd (nat ?c) x0 y0 ex ey = (u, v)" by fastforce
  have b: "\<bar>ex\<bar> \<le> 1" "\<bar>ey\<bar> \<le> 1" by (auto simp: ex_def ey_def bad_def sgn1_def)
  note B = blown_loop_ok [OF l b]
  have r: "r = or (push_bit 16 u) v"
    using assms(1,6) l by (simp add: path_blownpos_def Let_def bad_def [symmetric] ex_def [symmetric] ey_def [symmetric])
  have c: "int (nat ?c) = max 0 (min 25 cnt)" by auto
  have "0 \<le> v \<and> v < 65536"
  proof (cases "u = x0 \<and> v = y0")
    case True
    then show ?thesis using assms(3,4) by simp
  next
    case False
    then have "map_getcellp md u v CELL_CHKPASS \<noteq> 0" using B by blast
    then show ?thesis using assms(5) by (auto simp: map_getcellp_def split: if_splits)
  qed
  then have "x = u" "y = v" unfolding x_def y_def r by (simp_all add: pack_position)
  then show ?thesis using B unfolding c by simp
qed

definition pvp_map :: map_data where
  "pvp_map = corner_map\<lparr>mcell := map (\<lambda>c. c\<lparr>pvp := True\<rparr>) (mcell corner_map)\<rparr>"

lemma pvp_map_blown: "path_blownpos False True pvp_map (\<lambda>_. 0) 0 1 1 1 9 = 131074"
  by code_simp

lemma pvp_map_cells: "map_getcellp pvp_map 0 1 CELL_CHKPVP = 1" "map_getcellp pvp_map 2 2 CELL_CHKPASS = 1"
  by code_simp+

theorem path_blownpos_target_witness:
  "\<bar>131074 div 65536 - 0 :: int\<bar> \<le> max 0 (min 25 9) \<and> \<bar>131074 mod 65536 - 1 :: int\<bar> \<le> max 0 (min 25 9)
    \<and> map_getcellp pvp_map 2 2 CELL_CHKPASS = 1 \<and> map_getcellp pvp_map 2 2 CELL_CHKPVP \<noteq> 0"
  using path_blownpos_target [OF _ _ _ _ _ pvp_map_blown] pvp_map_cells by (simp add: pvp_map_def corner_map_def)

end
