(* ===== verification/Des.thy ===== *)
theory Des
  imports Prelude "HOL-Library.Word"
begin

text \<open>
  The cipher of the game archives: common/des.cpp, one round of DES on blocks of eight
  bytes, and the decoding of archive data in common/grfio.cpp on top of it. A block
  is a list of eight bytes; bit \<open>i\<close> of a block counts from the most significant bit
  of its first byte. The theorems show that the block cipher is its own inverse and that
  decoding can be undone.
\<close>

unbundle bit_operations_syntax

type_synonym byte = "8 word"

section \<open>The block cipher\<close>

definition des_mask :: "byte list" where
  "des_mask = [0x80, 0x40, 0x20, 0x10, 0x08, 0x04, 0x02, 0x01]"

definition zero_block :: "byte list" where
  "zero_block = replicate 8 0"

text \<open>The body of the permutation loops: copy a bit of one byte to a bit of another.\<close>

definition copy_bit :: "byte list \<Rightarrow> nat \<Rightarrow> nat \<Rightarrow> nat \<Rightarrow> nat \<Rightarrow> byte list \<Rightarrow> byte list" where
  "copy_bit src sb sm db dm tmp =
     (if src ! sb AND des_mask ! sm \<noteq> 0 then tmp[db := tmp ! db OR des_mask ! dm] else tmp)"

definition ip_table :: "nat list" where
  "ip_table = [58, 50, 42, 34, 26, 18, 10, 2, 60, 52, 44, 36, 28, 20, 12, 4,
    62, 54, 46, 38, 30, 22, 14, 6, 64, 56, 48, 40, 32, 24, 16, 8,
    57, 49, 41, 33, 25, 17, 9, 1, 59, 51, 43, 35, 27, 19, 11, 3,
    61, 53, 45, 37, 29, 21, 13, 5, 63, 55, 47, 39, 31, 23, 15, 7]"

definition des_IP :: "byte list \<Rightarrow> byte list" where
  "des_IP src = fold (\<lambda>i. let j = ip_table ! i - 1
     in copy_bit src (j div 8 mod 8) (j mod 8) (i div 8 mod 8) (i mod 8)) [0..<64] zero_block"

definition fp_table :: "nat list" where
  "fp_table = [40, 8, 48, 16, 56, 24, 64, 32, 39, 7, 47, 15, 55, 23, 63, 31,
    38, 6, 46, 14, 54, 22, 62, 30, 37, 5, 45, 13, 53, 21, 61, 29,
    36, 4, 44, 12, 52, 20, 60, 28, 35, 3, 43, 11, 51, 19, 59, 27,
    34, 2, 42, 10, 50, 18, 58, 26, 33, 1, 41, 9, 49, 17, 57, 25]"

definition des_FP :: "byte list \<Rightarrow> byte list" where
  "des_FP src = fold (\<lambda>i. let j = fp_table ! i - 1
     in copy_bit src (j div 8 mod 8) (j mod 8) (i div 8 mod 8) (i mod 8)) [0..<64] zero_block"

text \<open>The expansion: the variant of the code that is switched off, and the one in use.\<close>

definition expand_table :: "nat list" where
  "expand_table = [32, 1, 2, 3, 4, 5, 4, 5, 6, 7, 8, 9, 8, 9, 10, 11,
    12, 13, 12, 13, 14, 15, 16, 17, 16, 17, 18, 19, 20, 21, 20, 21,
    22, 23, 24, 25, 24, 25, 26, 27, 28, 29, 28, 29, 30, 31, 32, 1]"

definition des_E_table :: "byte list \<Rightarrow> byte list" where
  "des_E_table src = fold (\<lambda>i. let j = expand_table ! i - 1
     in copy_bit src (j div 8 + 4) (j mod 8) (i div 6) (i mod 6)) [0..<48] zero_block"

definition des_E :: "byte list \<Rightarrow> byte list" where
  "des_E src =
    [(push_bit 5 (src ! 7) OR drop_bit 3 (src ! 4)) AND 0x3f,
     (push_bit 1 (src ! 4) OR drop_bit 7 (src ! 5)) AND 0x3f,
     (push_bit 5 (src ! 4) OR drop_bit 3 (src ! 5)) AND 0x3f,
     (push_bit 1 (src ! 5) OR drop_bit 7 (src ! 6)) AND 0x3f,
     (push_bit 5 (src ! 5) OR drop_bit 3 (src ! 6)) AND 0x3f,
     (push_bit 1 (src ! 6) OR drop_bit 7 (src ! 7)) AND 0x3f,
     (push_bit 5 (src ! 6) OR drop_bit 3 (src ! 7)) AND 0x3f,
     (push_bit 1 (src ! 7) OR drop_bit 7 (src ! 4)) AND 0x3f]"

definition tp_table :: "nat list" where
  "tp_table = [16, 7, 20, 21, 29, 12, 28, 17, 1, 15, 23, 26, 5, 18, 31, 10,
    2, 8, 24, 14, 32, 27, 3, 9, 19, 13, 30, 6, 22, 11, 4, 25]"

definition des_TP :: "byte list \<Rightarrow> byte list" where
  "des_TP src = fold (\<lambda>i. let j = tp_table ! i - 1
     in copy_bit src (j div 8) (j mod 8) (i div 8 + 4) (i mod 8)) [0..<32] zero_block"

definition s_table :: "byte list list" where
  "s_table =
    [[0xef, 0x03, 0x41, 0xfd, 0xd8, 0x74, 0x1e, 0x47, 0x26, 0xef, 0xfb, 0x22, 0xb3, 0xd8, 0x84, 0x1e,
     0x39, 0xac, 0xa7, 0x60, 0x62, 0xc1, 0xcd, 0xba, 0x5c, 0x96, 0x90, 0x59, 0x05, 0x3b, 0x7a, 0x85,
     0x40, 0xfd, 0x1e, 0xc8, 0xe7, 0x8a, 0x8b, 0x21, 0xda, 0x43, 0x64, 0x9f, 0x2d, 0x14, 0xb1, 0x72,
     0xf5, 0x5b, 0xc8, 0xb6, 0x9c, 0x37, 0x76, 0xec, 0x39, 0xa0, 0xa3, 0x05, 0x52, 0x6e, 0x0f, 0xd9],
     [0xa7, 0xdd, 0x0d, 0x78, 0x9e, 0x0b, 0xe3, 0x95, 0x60, 0x36, 0x36, 0x4f, 0xf9, 0x60, 0x5a, 0xa3,
     0x11, 0x24, 0xd2, 0x87, 0xc8, 0x52, 0x75, 0xec, 0xbb, 0xc1, 0x4c, 0xba, 0x24, 0xfe, 0x8f, 0x19,
     0xda, 0x13, 0x66, 0xaf, 0x49, 0xd0, 0x90, 0x06, 0x8c, 0x6a, 0xfb, 0x91, 0x37, 0x8d, 0x0d, 0x78,
     0xbf, 0x49, 0x11, 0xf4, 0x23, 0xe5, 0xce, 0x3b, 0x55, 0xbc, 0xa2, 0x57, 0xe8, 0x22, 0x74, 0xce],
     [0x2c, 0xea, 0xc1, 0xbf, 0x4a, 0x24, 0x1f, 0xc2, 0x79, 0x47, 0xa2, 0x7c, 0xb6, 0xd9, 0x68, 0x15,
     0x80, 0x56, 0x5d, 0x01, 0x33, 0xfd, 0xf4, 0xae, 0xde, 0x30, 0x07, 0x9b, 0xe5, 0x83, 0x9b, 0x68,
     0x49, 0xb4, 0x2e, 0x83, 0x1f, 0xc2, 0xb5, 0x7c, 0xa2, 0x19, 0xd8, 0xe5, 0x7c, 0x2f, 0x83, 0xda,
     0xf7, 0x6b, 0x90, 0xfe, 0xc4, 0x01, 0x5a, 0x97, 0x61, 0xa6, 0x3d, 0x40, 0x0b, 0x58, 0xe6, 0x3d],
     [0x4d, 0xd1, 0xb2, 0x0f, 0x28, 0xbd, 0xe4, 0x78, 0xf6, 0x4a, 0x0f, 0x93, 0x8b, 0x17, 0xd1, 0xa4,
     0x3a, 0xec, 0xc9, 0x35, 0x93, 0x56, 0x7e, 0xcb, 0x55, 0x20, 0xa0, 0xfe, 0x6c, 0x89, 0x17, 0x62,
     0x17, 0x62, 0x4b, 0xb1, 0xb4, 0xde, 0xd1, 0x87, 0xc9, 0x14, 0x3c, 0x4a, 0x7e, 0xa8, 0xe2, 0x7d,
     0xa0, 0x9f, 0xf6, 0x5c, 0x6a, 0x09, 0x8d, 0xf0, 0x0f, 0xe3, 0x53, 0x25, 0x95, 0x36, 0x28, 0xcb]]"

definition des_SBOX :: "byte list \<Rightarrow> byte list" where
  "des_SBOX src = fold (\<lambda>i tmp. tmp[i :=
       (s_table ! i ! unat (src ! (i * 2)) AND 0xf0) OR (s_table ! i ! unat (src ! (i * 2 + 1)) AND 0x0f)])
     [0..<4] zero_block"

definition RoundFunction :: "byte list \<Rightarrow> byte list" where
  "RoundFunction src =
     (let tmp = des_TP (des_SBOX (des_E src))
      in src[0 := src ! 0 XOR tmp ! 4, 1 := src ! 1 XOR tmp ! 5,
             2 := src ! 2 XOR tmp ! 6, 3 := src ! 3 XOR tmp ! 7])"

definition des_decrypt_block :: "byte list \<Rightarrow> byte list" where
  "des_decrypt_block b = des_FP (RoundFunction (des_IP b))"

text \<open>\<open>des_decrypt\<close>: the pointer to the block is not moved by its loop.\<close>

definition des_decrypt :: "byte list \<Rightarrow> nat \<Rightarrow> byte list" where
  "des_decrypt buf len = ((\<lambda>d. des_decrypt_block (take 8 d) @ drop 8 d) ^^ ((len + 63) div 64)) buf"

section \<open>Archive data\<close>

text \<open>common/grfio.cpp: nibbles, substitution, shuffling, and the decoding of an entry.\<close>

definition NibbleSwap :: "byte list \<Rightarrow> byte list" where
  "NibbleSwap src = map (\<lambda>b. drop_bit 4 b OR push_bit 4 b) src"

definition grf_substitution :: "byte \<Rightarrow> byte" where
  "grf_substitution b =
     (if b = 0x00 then 0x2B else if b = 0x2B then 0x00
      else if b = 0x6C then 0x80 else if b = 0x01 then 0x68
      else if b = 0x68 then 0x01 else if b = 0x48 then 0x77
      else if b = 0x60 then 0xFF else if b = 0x77 then 0x48
      else if b = 0xB9 then 0xC0 else if b = 0xC0 then 0xB9
      else if b = 0xFE then 0xEB else if b = 0xEB then 0xFE
      else if b = 0x80 then 0x6C else if b = 0xFF then 0x60
      else b)"

definition grf_shuffle_dec :: "byte list \<Rightarrow> byte list" where
  "grf_shuffle_dec src = [src ! 3, src ! 4, src ! 6, src ! 0, src ! 1, src ! 2, src ! 5, grf_substitution (src ! 7)]"

text \<open>Applying an operation to block \<open>i\<close> of a buffer.\<close>

definition on_block :: "(byte list \<Rightarrow> byte list) \<Rightarrow> nat \<Rightarrow> byte list \<Rightarrow> byte list" where
  "on_block f i buf = take (8 * i) buf @ f (take 8 (drop (8 * i) buf)) @ drop (8 * i + 8) buf"

definition grf_decode_header :: "byte list \<Rightarrow> nat \<Rightarrow> byte list" where
  "grf_decode_header buf len = fold (on_block des_decrypt_block) [0..<min 20 (len div 8)] buf"

text \<open>The second loop of \<open>grf_decode_full\<close>: \<open>n\<close> blocks from \<open>i\<close> on, with its counter \<open>j\<close>.\<close>

fun grf_full_loop :: "nat \<Rightarrow> nat \<Rightarrow> int \<Rightarrow> nat \<Rightarrow> byte list \<Rightarrow> byte list" where
  "grf_full_loop 0 i j dcycle buf = buf"
| "grf_full_loop (Suc n) i j dcycle buf =
     (if i mod dcycle = 0 then grf_full_loop n (i + 1) j dcycle (on_block des_decrypt_block i buf)
      else let j = j + 1
           in if j mod 7 = 0 \<and> j \<noteq> 0 then grf_full_loop n (i + 1) j dcycle (on_block grf_shuffle_dec i buf)
              else grf_full_loop n (i + 1) j dcycle buf)"

definition grf_decode_full :: "byte list \<Rightarrow> nat \<Rightarrow> nat \<Rightarrow> byte list" where
  "grf_decode_full buf len cycle =
     grf_full_loop (len div 8 - 20) 20 (-1) cycle (grf_decode_header buf len)"

text \<open>
  The number of digits of the entry length: the loop multiplies an int by ten. None
  when the fuel is used up, which an overflow of \<open>i\<close> can do to any fuel.
\<close>

fun grf_digits :: "nat \<Rightarrow> int \<Rightarrow> nat \<Rightarrow> int \<Rightarrow> nat option" where
  "grf_digits fuel i digits entry_len =
     (if i \<le> entry_len then case fuel of 0 \<Rightarrow> None | Suc fuel \<Rightarrow> grf_digits fuel (s32 (i * 10)) (digits + 1) entry_len
      else Some digits)"

declare grf_digits.simps [simp del]

definition grf_cycle :: "nat \<Rightarrow> nat" where
  "grf_cycle digits = (if digits < 3 then 1 else if digits < 5 then digits + 1
     else if digits < 7 then digits + 9 else digits + 15)"

definition grf_decode :: "nat \<Rightarrow> byte list \<Rightarrow> nat \<Rightarrow> nat \<Rightarrow> int \<Rightarrow> byte list option" where
  "grf_decode fuel buf len entry_type entry_len =
     (if bit entry_type 1 then map_option (\<lambda>d. grf_decode_full buf len (grf_cycle d)) (grf_digits fuel 10 1 entry_len)
      else if bit entry_type 2 then Some (grf_decode_header buf len)
      else Some buf)"

text \<open>The names in an archive of version 1, in steps of eight bytes.\<close>

fun decode_filename :: "nat \<Rightarrow> byte list \<Rightarrow> byte list" where
  "decode_filename 0 buf = buf"
| "decode_filename (Suc n) buf =
     des_decrypt (NibbleSwap (take 8 buf)) 8 @ decode_filename n (drop 8 buf)"

section \<open>Bits of a block\<close>

definition getb :: "byte list \<Rightarrow> nat \<Rightarrow> bool" where
  "getb s i = bit (s ! (i div 8)) (7 - i mod 8)"

lemma des_mask_bit:
  assumes "k < 8" "m < 8"
  shows "bit (des_mask ! k) (7 - m) \<longleftrightarrow> m = k"
proof -
  have "k \<in> {0, 1, 2, 3, 4, 5, 6, 7}" "m \<in> {0, 1, 2, 3, 4, 5, 6, 7}" using assms by auto
  then show ?thesis by (auto simp: des_mask_def bit_numeral_rec numeral_eq_Suc)
qed

lemma des_mask_test:
  assumes "k < 8"
  shows "w AND des_mask ! k \<noteq> 0 \<longleftrightarrow> bit w (7 - k)"
proof -
  have le: "n \<le> 7 \<Longrightarrow> bit (des_mask ! k) n \<longleftrightarrow> n = 7 - k" for n
    using des_mask_bit [OF assms, of "7 - n"] assms by auto
  have "w AND des_mask ! k \<noteq> 0 \<longleftrightarrow> (\<exists>n < 8. bit (w AND des_mask ! k) n)"
    using bit_eq_iff [of "w AND des_mask ! k" 0] by simp
  also have "\<dots> \<longleftrightarrow> (\<exists>n \<le> 7. bit w n \<and> bit (des_mask ! k) n)"
    by (auto simp: bit_and_iff less_Suc_eq_le numeral_eq_Suc)
  also have "\<dots> \<longleftrightarrow> bit w (7 - k)" using le by (auto intro!: exI [of _ "7 - k"])
  finally show ?thesis .
qed

lemma copy_bit_length [simp]: "length (copy_bit src sb sm db dm tmp) = length tmp"
  by (simp add: copy_bit_def)

lemma copy_bit_bit:
  assumes "sm < 8" "dm < 8" "db < length tmp" "m < 8"
  shows "bit (copy_bit src sb sm db dm tmp ! b) (7 - m) \<longleftrightarrow>
    bit (tmp ! b) (7 - m) \<or> b = db \<and> m = dm \<and> bit (src ! sb) (7 - sm)"
  using assms by (auto simp: copy_bit_def des_mask_test nth_list_update bit_or_iff des_mask_bit)

text \<open>
  What a permutation loop leaves: bit \<open>m\<close> of byte \<open>b\<close> is set when some round copies
  a set bit there.
\<close>

lemma fold_copy_bit:
  assumes "\<And>i. i \<in> set js \<Longrightarrow> sm i < 8 \<and> dm i < 8 \<and> db i < length tmp" "m < 8"
  shows "length (fold (\<lambda>i. copy_bit src (sb i) (sm i) (db i) (dm i)) js tmp) = length tmp"
    and "bit (fold (\<lambda>i. copy_bit src (sb i) (sm i) (db i) (dm i)) js tmp ! b) (7 - m) \<longleftrightarrow>
      bit (tmp ! b) (7 - m) \<or> (\<exists>i \<in> set js. b = db i \<and> m = dm i \<and> bit (src ! sb i) (7 - sm i))"
proof -
  have "length (fold (\<lambda>i. copy_bit src (sb i) (sm i) (db i) (dm i)) js tmp) = length tmp
    \<and> (bit (fold (\<lambda>i. copy_bit src (sb i) (sm i) (db i) (dm i)) js tmp ! b) (7 - m) \<longleftrightarrow>
      bit (tmp ! b) (7 - m) \<or> (\<exists>i \<in> set js. b = db i \<and> m = dm i \<and> bit (src ! sb i) (7 - sm i)))"
    using assms(1)
  proof (induction js arbitrary: tmp)
    case Nil
    then show ?case by simp
  next
    case (Cons i js)
    let ?t = "copy_bit src (sb i) (sm i) (db i) (dm i) tmp"
    have i: "sm i < 8" "dm i < 8" "db i < length tmp" using Cons.prems by simp_all
    have "length (fold (\<lambda>i. copy_bit src (sb i) (sm i) (db i) (dm i)) js ?t) = length ?t
    \<and> (bit (fold (\<lambda>i. copy_bit src (sb i) (sm i) (db i) (dm i)) js ?t ! b) (7 - m) \<longleftrightarrow>
      bit (?t ! b) (7 - m) \<or> (\<exists>i \<in> set js. b = db i \<and> m = dm i \<and> bit (src ! sb i) (7 - sm i)))"
      using Cons.prems by (intro Cons.IH) simp
    then show ?case using copy_bit_bit [OF i assms(2), of src "sb i" b] by auto
  qed
  then show "length (fold (\<lambda>i. copy_bit src (sb i) (sm i) (db i) (dm i)) js tmp) = length tmp"
    "bit (fold (\<lambda>i. copy_bit src (sb i) (sm i) (db i) (dm i)) js tmp ! b) (7 - m) \<longleftrightarrow>
      bit (tmp ! b) (7 - m) \<or> (\<exists>i \<in> set js. b = db i \<and> m = dm i \<and> bit (src ! sb i) (7 - sm i))"
    by blast+
qed

lemma zero_block_bit [simp]: "\<not> bit (zero_block ! b) n" if "b < 8"
  using that by (simp add: zero_block_def)

lemma zero_block_length [simp]: "length zero_block = 8"
  by (simp add: zero_block_def)

lemma div_mod_8: "i = i' \<longleftrightarrow> i div 8 = i' div 8 \<and> i mod 8 = i' mod (8 :: nat)"
  by (metis div_mult_mod_eq)

text \<open>The bit that a table permutation puts at place \<open>i\<close>.\<close>

lemma permute_length:
  "length (fold (\<lambda>i. let j = tbl ! i - 1
     in copy_bit src (j div 8 mod 8) (j mod 8) (i div 8 mod 8) (i mod 8)) js tmp) = length tmp"
  by (induction js arbitrary: tmp) (simp_all add: Let_def)

lemma permute_getb:
  fixes src :: "byte list"
  assumes "\<And>k. k < 64 \<Longrightarrow> tbl ! k - 1 < 64" "i < 64"
  shows "getb (fold (\<lambda>i. let j = tbl ! i - 1
     in copy_bit src (j div 8 mod 8) (j mod 8) (i div 8 mod 8) (i mod 8)) [0..<64] zero_block) i
    = getb src (tbl ! i - 1)"
proof -
  define j where "j = (\<lambda>i. tbl ! i - 1)"
  have lt: "i div 8 < 8" using assms(2) by simp
  have "getb (fold (\<lambda>i. let j = tbl ! i - 1
     in copy_bit src (j div 8 mod 8) (j mod 8) (i div 8 mod 8) (i mod 8)) [0..<64] zero_block) i
    \<longleftrightarrow> bit (zero_block ! (i div 8)) (7 - i mod 8)
      \<or> (\<exists>k \<in> set [0..<64]. i div 8 = k div 8 mod 8 \<and> i mod 8 = k mod 8 \<and> bit (src ! (j k div 8 mod 8)) (7 - j k mod 8))"
    unfolding getb_def Let_def j_def by (rule fold_copy_bit(2)) simp_all
  also have "\<dots> \<longleftrightarrow> bit (src ! (j i div 8 mod 8)) (7 - j i mod 8)"
  proof -
    have "k = i" if "k < 64" "i div 8 = k div 8 mod 8" "i mod 8 = k mod 8" for k
      using that div_mod_8 [of k i] by simp
    then have iff: "k \<in> set [0..<64] \<and> i div 8 = k div 8 mod 8 \<and> i mod 8 = k mod 8 \<longleftrightarrow> k = i" for k
      using assms(2) lt by (metis atLeastLessThan_iff mod_less set_upt zero_le)
    have "(\<exists>k \<in> set [0..<64]. i div 8 = k div 8 mod 8 \<and> i mod 8 = k mod 8 \<and> P k)
      \<longleftrightarrow> (\<exists>k. (k \<in> set [0..<64] \<and> i div 8 = k div 8 mod 8 \<and> i mod 8 = k mod 8) \<and> P k)" for P
      by blast
    then show ?thesis unfolding iff using zero_block_bit [OF lt] by (simp only: simp_thms)
  qed
  also have "j i div 8 mod 8 = j i div 8" using assms(1) [OF assms(2)] by (simp add: j_def)
  finally show ?thesis by (simp add: getb_def j_def)
qed

lemma block_eqI:
  assumes "length s = 8" "length t = 8" "\<And>i. i < 64 \<Longrightarrow> getb s i = getb t i"
  shows "s = t"
proof (rule nth_equalityI)
  show "length s = length t" using assms by simp
  show "s ! b = t ! b" if b: "b < length s" for b
  proof (rule bit_word_eqI)
    fix n assume "n < LENGTH(8)"
    then have n: "7 - n < 8" "7 - (7 - n) = n" by simp_all
    have "(8 * b + d) div 8 = b \<and> (8 * b + d) mod 8 = d \<and> 8 * b + d < 64" if "d < 8" for d
      using that b assms(1) by simp
    from this [OF n(1)] n(2) show "bit (s ! b) n = bit (t ! b) n" using assms(3) [of "8 * b + (7 - n)"] by (simp add: getb_def)
  qed
qed

lemma tables_inverse:
  "map (\<lambda>i. ip_table ! (fp_table ! i - 1) - 1) [0..<64] = [0..<64]"
  "map (\<lambda>i. fp_table ! (ip_table ! i - 1) - 1) [0..<64] = [0..<64]"
  "list_all (\<lambda>i. ip_table ! i - 1 < 64 \<and> fp_table ! i - 1 < 64) [0..<64]"
  by code_simp+

lemma tables_inverse_nth:
  assumes "i < 64"
  shows "ip_table ! (fp_table ! i - 1) - 1 = i" "fp_table ! (ip_table ! i - 1) - 1 = i"
    "ip_table ! i - 1 < 64" "fp_table ! i - 1 < 64"
proof -
  show "ip_table ! (fp_table ! i - 1) - 1 = i" "fp_table ! (ip_table ! i - 1) - 1 = i"
    using arg_cong [OF tables_inverse(1), of "\<lambda>xs. xs ! i"] arg_cong [OF tables_inverse(2), of "\<lambda>xs. xs ! i"] assms
    by simp_all
  show "ip_table ! i - 1 < 64" "fp_table ! i - 1 < 64"
    using tables_inverse(3) assms by (simp_all add: list_all_iff)
qed

lemma IP_getb: "i < 64 \<Longrightarrow> getb (des_IP s) i = getb s (ip_table ! i - 1)" "length (des_IP s) = 8"
proof -
  show "i < 64 \<Longrightarrow> getb (des_IP s) i = getb s (ip_table ! i - 1)"
    unfolding des_IP_def by (rule permute_getb, erule tables_inverse_nth)
  show "length (des_IP s) = 8" unfolding des_IP_def permute_length by simp
qed

lemma FP_getb: "i < 64 \<Longrightarrow> getb (des_FP s) i = getb s (fp_table ! i - 1)" "length (des_FP s) = 8"
proof -
  show "i < 64 \<Longrightarrow> getb (des_FP s) i = getb s (fp_table ! i - 1)"
    unfolding des_FP_def by (rule permute_getb, erule tables_inverse_nth)
  show "length (des_FP s) = 8" unfolding des_FP_def permute_length by simp
qed

text \<open>The two permutations are inverse to each other.\<close>

lemma FP_IP: "length s = 8 \<Longrightarrow> des_FP (des_IP s) = s"
  using tables_inverse_nth by (intro block_eqI) (simp_all add: IP_getb FP_getb)

lemma IP_FP: "length s = 8 \<Longrightarrow> des_IP (des_FP s) = s"
  using tables_inverse_nth by (intro block_eqI) (simp_all add: IP_getb FP_getb)

section \<open>The round function\<close>

lemma des_E_cong:
  assumes "s ! 4 = t ! 4" "s ! 5 = t ! 5" "s ! 6 = t ! 6" "s ! 7 = t ! 7"
  shows "des_E s = des_E t"
  using assms by (simp add: des_E_def)

lemma RoundFunction_length [simp]: "length (RoundFunction s) = length s"
  by (simp add: RoundFunction_def Let_def)

text \<open>The round changes only the left half, by a value that depends on the right half.\<close>

lemma RoundFunction_twice:
  assumes "length s = 8"
  shows "RoundFunction (RoundFunction s) = s"
proof -
  define t where "t = des_TP (des_SBOX (des_E s))"
  have r: "RoundFunction s = s[0 := s ! 0 XOR t ! 4, 1 := s ! 1 XOR t ! 5,
             2 := s ! 2 XOR t ! 6, 3 := s ! 3 XOR t ! 7]"
    by (simp add: RoundFunction_def t_def Let_def)
  have "des_E (RoundFunction s) = des_E s" by (rule des_E_cong) (simp_all add: r)
  then have "RoundFunction (RoundFunction s) = (RoundFunction s)[0 := RoundFunction s ! 0 XOR t ! 4,
      1 := RoundFunction s ! 1 XOR t ! 5, 2 := RoundFunction s ! 2 XOR t ! 6, 3 := RoundFunction s ! 3 XOR t ! 7]"
    by (simp add: RoundFunction_def [of "RoundFunction s"] t_def Let_def)
  also have "\<dots> = s"
    unfolding r using assms
    by (intro nth_equalityI) (simp_all add: nth_list_update xor.assoc)
  finally show ?thesis .
qed

lemma des_decrypt_block_length [simp]: "length (des_decrypt_block b) = 8"
  by (simp add: des_decrypt_block_def FP_getb)

lemma des_decrypt_block_twice: "length b = 8 \<Longrightarrow> des_decrypt_block (des_decrypt_block b) = b"
  by (simp add: des_decrypt_block_def IP_FP FP_IP RoundFunction_twice IP_getb)

section \<open>Expansion\<close>

lemma E_table_bit:
  assumes "b < 8" "m < 8"
  shows "bit (des_E_table s ! b) (7 - m) \<longleftrightarrow> m < 6 \<and>
    bit (s ! ((expand_table ! (6 * b + m) - 1) div 8 + 4)) (7 - (expand_table ! (6 * b + m) - 1) mod 8)"
proof -
  define j where "j = (\<lambda>i. expand_table ! i - 1)"
  have "bit (des_E_table s ! b) (7 - m) \<longleftrightarrow> bit (zero_block ! b) (7 - m)
      \<or> (\<exists>k \<in> set [0..<48]. b = k div 6 \<and> m = k mod 6 \<and> bit (s ! (j k div 8 + 4)) (7 - j k mod 8))"
    unfolding des_E_table_def Let_def j_def using assms
    by (intro fold_copy_bit(2)) (simp_all add: less_trans [OF mod_less_divisor])
  also have "\<dots> \<longleftrightarrow> m < 6 \<and> bit (s ! (j (6 * b + m) div 8 + 4)) (7 - j (6 * b + m) mod 8)"
  proof -
    have iff: "(k \<in> set [0..<48] \<and> b = k div 6 \<and> m = k mod 6) \<longleftrightarrow> m < 6 \<and> k = 6 * b + m" for k
      using assms(1) by auto
    have "(\<exists>k \<in> set [0..<48]. b = k div 6 \<and> m = k mod 6 \<and> P k)
      \<longleftrightarrow> (\<exists>k. (k \<in> set [0..<48] \<and> b = k div 6 \<and> m = k mod 6) \<and> P k)" for P
      by blast
    then show ?thesis unfolding iff using zero_block_bit [OF assms(1)] by auto
  qed
  finally show ?thesis by (simp add: j_def)
qed

lemma expand_table_eq:
  assumes "i < 48"
  shows "expand_table ! i - 1 = (4 * (i div 6) + i mod 6 + 31) mod 32"
proof -
  have "map (\<lambda>i. expand_table ! i - 1) [0..<48] = map (\<lambda>i. (4 * (i div 6) + i mod 6 + 31) mod 32) [0..<48]"
    by code_simp
  from arg_cong [OF this, of "\<lambda>xs. xs ! i"] show ?thesis using assms by simp
qed

lemma bit_low6: "bit (w AND 0x3f :: byte) n \<longleftrightarrow> n < 6 \<and> bit w n"
proof -
  have "(0x3f :: byte) = mask 6" by (simp add: mask_eq_exp_minus_1)
  show ?thesis unfolding \<open>(0x3f :: byte) = mask 6\<close> by (auto simp: bit_simps)
qed

text \<open>A field of the expansion: the last bit of one byte and five of another, or the reverse.\<close>

lemma E_field:
  assumes "m < 6"
  shows "bit ((push_bit 5 x OR drop_bit 3 y) AND 0x3f :: byte) (5 - m) \<longleftrightarrow> (if m = 0 then bit x 0 else bit y (8 - m))"
    "bit ((push_bit 1 x OR drop_bit 7 y) AND 0x3f :: byte) (5 - m) \<longleftrightarrow> (if m = 5 then bit y 7 else bit x (4 - m))"
proof -
  have y: "\<not> bit y n" if "8 \<le> n" for n using bit_imp_le_length [of y n] that by auto
  have d: "3 + (5 - m) = 8 - m" using assms by simp
  show "bit ((push_bit 5 x OR drop_bit 3 y) AND 0x3f :: byte) (5 - m) \<longleftrightarrow> (if m = 0 then bit x 0 else bit y (8 - m))"
    unfolding bit_low6 bit_or_iff bit_push_bit_iff bit_drop_bit_eq comp_def d
    using assms y [of 8] by (cases "m = 0") (simp_all, linarith)
  have l: "5 - m - 1 = 4 - m" "m \<noteq> 5 \<Longrightarrow> 1 \<le> 5 - m" "m \<noteq> 5 \<Longrightarrow> \<not> bit y (7 + (5 - m))"
    using assms by (simp_all add: y)
  show "bit ((push_bit 1 x OR drop_bit 7 y) AND 0x3f :: byte) (5 - m) \<longleftrightarrow> (if m = 5 then bit y 7 else bit x (4 - m))"
    unfolding bit_low6 bit_or_iff bit_push_bit_iff bit_drop_bit_eq comp_def l(1)
    using l(2,3) by (cases "m = 5") (simp_all add: less_imp_diff_less)
qed

lemma des_E_bit:
  assumes "b < 8" "m < 6"
  shows "bit (des_E s ! b) (5 - m) \<longleftrightarrow>
    bit (s ! ((expand_table ! (6 * b + m) - 1) div 8 + 4)) (7 - (expand_table ! (6 * b + m) - 1) mod 8)"
proof -
  have b: "b \<in> {0, 1, 2, 3, 4, 5, 6, 7}" and m: "m \<in> {0, 1, 2, 3, 4, 5}" using assms by auto
  have "6 * b + m < 48" "(6 * b + m) div 6 = b" "(6 * b + m) mod 6 = m" using assms by simp_all
  then have e: "expand_table ! (6 * b + m) - 1 = (4 * b + m + 31) mod 32"
    using expand_table_eq [of "6 * b + m"] by simp
  have double: "push_bit 1 x = x * 2" for x :: byte by simp
  show ?thesis
    unfolding e using b
    by (elim insertE emptyE; simp only:; simp add: des_E_def E_field [OF assms(2)] E_field(2) [OF assms(2), unfolded double]; insert m; elim insertE emptyE; simp)
qed

text \<open>
  The expansion that is switched off is not the one in use: its fields sit two bits
  higher, where they would index \<open>s_table\<close> out of bounds.
\<close>

lemma des_E_table_shifted: "des_E_table s = map (push_bit 2) (des_E s)"
proof (rule nth_equalityI)
  have "length (des_E_table s) = 8"
    unfolding des_E_table_def Let_def using fold_copy_bit(1) [of "[0..<48]" "\<lambda>i. (expand_table ! i - 1) mod 8"
      "\<lambda>i. i mod 6" "\<lambda>i. i div 6" zero_block 0 s "\<lambda>i. (expand_table ! i - 1) div 8 + 4"]
    by (simp add: less_trans [OF mod_less_divisor])
  moreover have e: "length (des_E s) = 8" by (simp add: des_E_def)
  ultimately show "length (des_E_table s) = length (map (push_bit 2) (des_E s))" by simp
  fix b assume "b < length (des_E_table s)"
  then have b: "b < 8" "b < length (des_E s)" using \<open>length (des_E_table s) = 8\<close> e by simp_all
  show "des_E_table s ! b = map (push_bit 2) (des_E s) ! b"
  proof (rule bit_word_eqI)
    fix n assume "n < LENGTH(8)"
    then have n: "7 - n < 8" "7 - (7 - n) = n" by simp_all
    have "bit (push_bit 2 (des_E s ! b)) n \<longleftrightarrow> 7 - n < 6 \<and> bit (des_E s ! b) (5 - (7 - n))"
    proof (cases "n < 2")
      case True
      then show ?thesis by (auto simp: bit_push_bit_iff)
    next
      case False
      then have "5 - (7 - n) = n - 2" "7 - n < 6" using \<open>n < LENGTH(8)\<close> by simp_all
      then show ?thesis using False \<open>n < LENGTH(8)\<close> by (simp add: bit_push_bit_iff)
    qed
    then show "bit (des_E_table s ! b) n \<longleftrightarrow> bit (map (push_bit 2) (des_E s) ! b) n"
      using E_table_bit [OF b(1) n(1), of s] des_E_bit [OF b(1), of "7 - n" s] b(2) n(2) by auto
  qed
qed

text \<open>\<open>des_decrypt\<close> works on the first block only, once for every 64 bytes begun.\<close>

lemma des_decrypt_first:
  assumes "8 \<le> length buf"
  shows "des_decrypt buf len = (if even ((len + 63) div 64) then buf
    else des_decrypt_block (take 8 buf) @ drop 8 buf)"
proof -
  let ?f = "\<lambda>d. des_decrypt_block (take 8 d) @ drop 8 d"
  have "(?f ^^ n) buf = (if even n then buf else ?f buf)" for n
    using assms by (induction n) (simp_all add: des_decrypt_block_twice)
  then show ?thesis by (simp add: des_decrypt_def)
qed

section \<open>Decoding by blocks\<close>

text \<open>
  The reference: what happens to block \<open>i\<close> depends only on \<open>i\<close> and the cycle. After
  the first twenty blocks, the blocks at multiples of the cycle are encrypted; of the others
  every seventh is shuffled, not counting the first.
\<close>

datatype block_op = Encrypted | Shuffled | Plain

definition plain_before :: "nat \<Rightarrow> nat \<Rightarrow> nat" where
  "plain_before cycle i = length (filter (\<lambda>k. k mod cycle \<noteq> 0) [20..<i])"

definition block_op :: "nat \<Rightarrow> nat \<Rightarrow> block_op" where
  "block_op cycle i = (if i < 20 \<or> i mod cycle = 0 then Encrypted
     else if plain_before cycle i mod 7 = 0 \<and> plain_before cycle i \<noteq> 0 then Shuffled else Plain)"

fun dec_op :: "block_op \<Rightarrow> byte list \<Rightarrow> byte list" where
  "dec_op Encrypted b = des_decrypt_block b"
| "dec_op Shuffled b = grf_shuffle_dec b"
| "dec_op Plain b = b"

definition block_of :: "byte list \<Rightarrow> nat \<Rightarrow> byte list" where
  "block_of buf i = take 8 (drop (8 * i) buf)"

lemma on_block_frame:
  assumes i: "8 * i + 8 \<le> length buf" and f: "length (f (block_of buf i)) = 8"
  shows "length (on_block f i buf) = length buf"
    "block_of (on_block f i buf) k = (if k = i then f (block_of buf i) else block_of buf k)"
    "8 * i + 8 \<le> m \<Longrightarrow> drop m (on_block f i buf) = drop m buf"
proof -
  have e: "on_block f i buf = take (8 * i) buf @ f (block_of buf i) @ drop (8 * i + 8) buf"
    by (simp add: on_block_def block_of_def)
  have l: "length (take (8 * i) buf) = 8 * i" using i by simp
  show "length (on_block f i buf) = length buf" using i f by (simp add: e)
  show d: "drop m (on_block f i buf) = drop m buf" if "8 * i + 8 \<le> m" for m
    using that i f by (simp add: e min_def)
  consider "k < i" | "k = i" | "i < k" by linarith
  then show "block_of (on_block f i buf) k = (if k = i then f (block_of buf i) else block_of buf k)"
  proof cases
    case 1
    then have "8 * k + 8 \<le> 8 * i" by simp
    then have "8 \<le> 8 * i - 8 * k" by simp
    then have "take 8 (drop (8 * k) (take (8 * i) buf @ r)) = take 8 (drop (8 * k) buf)" for r
      using i by (simp add: drop_take min_def)
    from this [of "f (block_of buf i) @ drop (8 * i + 8) buf"] show ?thesis
      using 1 unfolding e block_of_def [of _ k] by (simp only: if_not_P less_irrefl nat_neq_iff simp_thms if_False)
  next
    case 2
    have "take 8 (drop (8 * i) (take (8 * i) buf @ f (block_of buf i) @ r)) = f (block_of buf i)" for r
      using i f by (simp add: min_def)
    from this [of "drop (8 * i + 8) buf"] show ?thesis
      unfolding e block_of_def [of _ k] using 2 by (simp only: simp_thms if_True)
  next
    case 3
    then have "8 * i + 8 \<le> 8 * k" by simp
    then show ?thesis using 3 d [of "8 * k"] by (simp add: block_of_def)
  qed
qed

lemma dec_op_length: "length b = 8 \<Longrightarrow> length (dec_op x b) = 8"
  by (cases x) (simp_all add: grf_shuffle_dec_def)

lemma block_of_length: "8 * i + 8 \<le> length buf \<Longrightarrow> length (block_of buf i) = 8"
  by (simp add: block_of_def)

text \<open>Two buffers that agree but for the blocks between \<open>i\<close> and \<open>j\<close>, which are decoded.\<close>

definition decoded :: "nat \<Rightarrow> nat \<Rightarrow> nat \<Rightarrow> byte list \<Rightarrow> byte list \<Rightarrow> bool" where
  "decoded c i j buf r \<longleftrightarrow> length r = length buf \<and> drop (8 * j) r = drop (8 * j) buf
     \<and> (\<forall>k. block_of r k = (if i \<le> k \<and> k < j then dec_op (block_op c k) (block_of buf k) else block_of buf k))"

lemma decoded_refl [simp]: "decoded c i i buf buf"
  by (auto simp: decoded_def)

lemma decoded_step:
  assumes d: "decoded c (Suc i) j (on_block (dec_op (block_op c i)) i buf) r" and i: "i < j" "8 * j \<le> length buf"
  shows "decoded c i j buf r"
proof -
  have l: "8 * i + 8 \<le> length buf" using i by simp
  have f: "length (dec_op (block_op c i) (block_of buf i)) = 8"
    by (rule dec_op_length) (rule block_of_length [OF l])
  note F = on_block_frame [OF l, where f = "dec_op (block_op c i)", OF f]
  have "8 * i + 8 \<le> 8 * j" using i by simp
  then show ?thesis using d F(1,2) F(3) [of "8 * j"] i by (auto simp: decoded_def)
qed

lemma on_block_plain: "8 * i + 8 \<le> length buf \<Longrightarrow> on_block (dec_op Plain) i buf = buf"
  unfolding on_block_def by (simp del: drop_drop) (metis add.commute append_take_drop_id drop_drop)

lemma dec_op_fun: "dec_op Encrypted = des_decrypt_block" "dec_op Shuffled = grf_shuffle_dec"
  by (simp_all add: fun_eq_iff)

lemma plain_before_Suc:
  "20 \<le> i \<Longrightarrow> plain_before c (Suc i) = plain_before c i + (if i mod c \<noteq> 0 then 1 else 0)"
  by (simp add: plain_before_def)

lemma grf_full_loop_decoded:
  assumes "20 \<le> i" "8 * (i + n) \<le> length buf" "j = int (plain_before c i) - 1"
  shows "decoded c i (i + n) buf (grf_full_loop n i j c buf)"
  using assms
proof (induction n arbitrary: i j buf)
  case 0
  then show ?case by simp
next
  case (Suc n)
  have l: "8 * i + 8 \<le> length buf" using Suc.prems(2) by simp
  let ?b = "on_block (dec_op (block_op c i)) i buf"
  have f: "length (dec_op (block_op c i) (block_of buf i)) = 8"
    by (rule dec_op_length) (rule block_of_length [OF l])
  have lb: "8 * (Suc i + n) \<le> length ?b"
    using on_block_frame(1) [OF l, where f = "dec_op (block_op c i)", OF f] Suc.prems(2) by simp
  have p: "plain_before c (Suc i) = plain_before c i + (if i mod c \<noteq> 0 then 1 else 0)"
    using plain_before_Suc Suc.prems(1) by simp
  have "grf_full_loop (Suc n) i j c buf = grf_full_loop n (Suc i) (int (plain_before c (Suc i)) - 1) c ?b"
  proof (cases "i mod c = 0")
    case True
    then show ?thesis using Suc.prems(3) p by (simp add: block_op_def dec_op_fun)
  next
    case False
    let ?k = "plain_before c i"
    define P where "P \<longleftrightarrow> ?k mod 7 = 0 \<and> ?k \<noteq> 0"
    have eq: "(int ?k mod 7 = 0 \<and> int ?k \<noteq> 0) \<longleftrightarrow> P" unfolding P_def by presburger
    have loop: "grf_full_loop (Suc n) i j c buf = (if P then grf_full_loop n (Suc i) (int ?k) c (on_block grf_shuffle_dec i buf)
        else grf_full_loop n (Suc i) (int ?k) c buf)"
      using False Suc.prems(3) by (simp add: Let_def eq [symmetric])
    have op: "block_op c i = (if P then Shuffled else Plain)"
      using False Suc.prems(1) by (simp add: block_op_def P_def)
    have "int (plain_before c (Suc i)) - 1 = int ?k" using p False by simp
    then show ?thesis unfolding loop op
      by (cases P) (simp_all only: if_True if_False dec_op_fun on_block_plain [OF l])
  qed
  moreover have "decoded c (Suc i) (Suc i + n) ?b
      (grf_full_loop n (Suc i) (int (plain_before c (Suc i)) - 1) c ?b)"
    using Suc.IH [OF _ lb refl] Suc.prems(1) by simp
  ultimately show ?case using decoded_step [of c i "i + Suc n" buf] Suc.prems(2) by simp
qed

lemma block_op_head: "i < 20 \<Longrightarrow> block_op c i = Encrypted"
  by (simp add: block_op_def)

lemma grf_header_decoded:
  assumes "i + n \<le> 20" "8 * (i + n) \<le> length buf"
  shows "decoded c i (i + n) buf (fold (on_block des_decrypt_block) [i..<i + n] buf)"
  using assms
proof (induction n arbitrary: i buf)
  case 0
  then show ?case by simp
next
  case (Suc n)
  have l: "8 * i + 8 \<le> length buf" using Suc.prems(2) by simp
  let ?b = "on_block (dec_op (block_op c i)) i buf"
  have b: "?b = on_block des_decrypt_block i buf" using Suc.prems(1) by (simp add: block_op_head dec_op_fun)
  have f: "length (dec_op (block_op c i) (block_of buf i)) = 8"
    by (rule dec_op_length) (rule block_of_length [OF l])
  have lb: "8 * (Suc i + n) \<le> length ?b"
    using on_block_frame(1) [OF l, where f = "dec_op (block_op c i)", OF f] Suc.prems(2) by simp
  have "decoded c (Suc i) (Suc i + n) ?b (fold (on_block des_decrypt_block) [Suc i..<Suc i + n] ?b)"
    using Suc.IH [OF _ lb] Suc.prems(1) by simp
  moreover have "[i..<i + Suc n] = i # [Suc i..<Suc i + n]" by (simp add: upt_rec)
  ultimately show ?case using decoded_step [of c i "i + Suc n" buf] Suc.prems(2) b by simp
qed

lemma decoded_trans:
  assumes "decoded c i j a b" "decoded c j k b d" "i \<le> j" "j \<le> k"
  shows "decoded c i k a d"
proof -
  have l: "8 * k = 8 * (k - j) + 8 * j" using assms(4) by simp
  have "drop (8 * j) b = drop (8 * j) a" using assms(1) by (simp add: decoded_def)
  then have "drop (8 * k) b = drop (8 * k) a" unfolding l by (simp flip: drop_drop)
  moreover have "block_of d x = (if i \<le> x \<and> x < k then dec_op (block_op c x) (block_of a x) else block_of a x)" for x
  proof -
    have "block_of b x = (if i \<le> x \<and> x < j then dec_op (block_op c x) (block_of a x) else block_of a x)"
      "block_of d x = (if j \<le> x \<and> x < k then dec_op (block_op c x) (block_of b x) else block_of b x)"
      using assms(1,2) unfolding decoded_def by blast+
    then show ?thesis using assms(3,4) by (cases "x < j") simp_all
  qed
  ultimately show ?thesis using assms(1,2) by (simp add: decoded_def)
qed

text \<open>The two modes as block schedules.\<close>

lemma grf_decode_full_decoded:
  assumes "8 * (len div 8) \<le> length buf"
  shows "decoded c 0 (len div 8) buf (grf_decode_full buf len c)"
proof -
  let ?m = "min 20 (len div 8)"
  let ?h = "grf_decode_header buf len"
  have "8 * ?m \<le> length buf" using assms by (metis le_trans min.cobounded2 mult_le_mono2)
  then have h: "decoded c 0 ?m buf ?h"
    using grf_header_decoded [of 0 ?m buf c] by (simp add: grf_decode_header_def)
  show ?thesis
  proof (cases "len div 8 \<le> 20")
    case True
    then show ?thesis using h by (simp add: grf_decode_full_def)
  next
    case False
    have "8 * (20 + (len div 8 - 20)) \<le> length ?h" using False assms h by (simp add: decoded_def)
    moreover have "plain_before c 20 = 0" by (simp add: plain_before_def)
    ultimately have "decoded c 20 (20 + (len div 8 - 20)) ?h (grf_decode_full buf len c)"
      unfolding grf_decode_full_def by (intro grf_full_loop_decoded) simp_all
    then show ?thesis using decoded_trans [OF h, of "len div 8" "grf_decode_full buf len c"] False by simp
  qed
qed

text \<open>The number of digits, for lengths on which the int does not overflow.\<close>

lemma grf_digits_loop:
  assumes "10 ^ (d - 1) \<le> n \<or> d = 1" "n < 10 ^ 9" "1 \<le> d" "d \<le> 9" "9 - d \<le> fuel"
  shows "\<exists>k. grf_digits fuel (10 ^ d) d n = Some k \<and> n < 10 ^ k \<and> (k = 1 \<or> 10 ^ (k - 1) \<le> n) \<and> 1 \<le> k \<and> k \<le> 9"
  using assms
proof (induction fuel arbitrary: d)
  case 0
  then have d: "d = 9" by simp
  then have n: "\<not> 10 ^ d \<le> n" using 0(2) by simp
  then have "grf_digits 0 (10 ^ d) d n = Some d" by (simp add: grf_digits.simps)
  then show ?case using 0 n d by auto
next
  case (Suc fuel)
  show ?case
  proof (cases "10 ^ d \<le> n")
    case False
    then show ?thesis using Suc.prems by (auto simp: grf_digits.simps)
  next
    case True
    then have "(10 :: int) ^ d < 10 ^ 9" using Suc.prems(2) by simp
    then have d: "d < 9" by (rule power_less_imp_less_exp [rotated]) simp
    then have "(10 :: int) ^ d * 10 \<le> 1000000000"
      using power_increasing [of "Suc d" 9 "10 :: int"] by simp
    moreover have "(0 :: int) \<le> 10 ^ d" by simp
    ultimately have "s32 (10 ^ d * 10) = 10 ^ d * 10" by (intro s32_id) linarith+
    then have "grf_digits (Suc fuel) (10 ^ d) d n = grf_digits fuel (10 ^ Suc d) (Suc d) n"
      using True by (simp add: grf_digits.simps [of "Suc fuel"] mult.commute)
    moreover have "\<exists>k. grf_digits fuel (10 ^ Suc d) (Suc d) n = Some k \<and> n < 10 ^ k \<and> (k = 1 \<or> 10 ^ (k - 1) \<le> n) \<and> 1 \<le> k \<and> k \<le> 9"
      using Suc.prems d True by (intro Suc.IH) simp_all
    ultimately show ?thesis by simp
  qed
qed

section \<open>Encoding\<close>

text \<open>The inverse of each block operation: \<open>grf_shuffle_enc\<close> is a comment in the code.\<close>

definition grf_shuffle_enc :: "byte list \<Rightarrow> byte list" where
  "grf_shuffle_enc src = [src ! 3, src ! 4, src ! 5, src ! 0, src ! 1, src ! 6, src ! 2, grf_substitution (src ! 7)]"

lemma grf_substitution_twice: "grf_substitution (grf_substitution b) = b"
  by (simp add: grf_substitution_def)

lemma list8: "length s = 8 \<Longrightarrow> [s ! 0, s ! 1, s ! 2, s ! 3, s ! 4, s ! 5, s ! 6, s ! 7] = s"
  by (auto simp: numeral_eq_Suc length_Suc_conv)

lemma grf_shuffle_inverse: "length s = 8 \<Longrightarrow> grf_shuffle_dec (grf_shuffle_enc s) = s"
  using list8 [of s] by (simp add: grf_shuffle_dec_def grf_shuffle_enc_def grf_substitution_twice)

fun enc_op :: "block_op \<Rightarrow> byte list \<Rightarrow> byte list" where
  "enc_op Encrypted b = des_decrypt_block b"
| "enc_op Shuffled b = grf_shuffle_enc b"
| "enc_op Plain b = b"

lemma enc_op_length: "length b = 8 \<Longrightarrow> length (enc_op x b) = 8"
  by (cases x) (simp_all add: grf_shuffle_enc_def)

lemma dec_enc: "length b = 8 \<Longrightarrow> dec_op x (enc_op x b) = b"
  by (cases x) (simp_all add: grf_shuffle_inverse des_decrypt_block_twice)

definition grf_encode :: "nat \<Rightarrow> nat \<Rightarrow> byte list \<Rightarrow> byte list" where
  "grf_encode c n buf = concat (map (\<lambda>i. enc_op (block_op c i) (block_of buf i)) [0..<n]) @ drop (8 * n) buf"

lemma buffer_eqI:
  assumes "length xs = length ys" "drop (8 * n) xs = drop (8 * n) ys" "8 * n \<le> length xs"
    "\<And>i. i < n \<Longrightarrow> block_of xs i = block_of ys i"
  shows "xs = ys"
  using assms
proof (induction n arbitrary: xs ys)
  case 0
  then show ?case by simp
next
  case (Suc n)
  have "drop 8 xs = drop 8 ys"
  proof (rule Suc.IH)
    show "drop (8 * n) (drop 8 xs) = drop (8 * n) (drop 8 ys)" using Suc.prems(2) by (simp add: add.commute)
    show "block_of (drop 8 xs) i = block_of (drop 8 ys) i" if "i < n" for i
      using Suc.prems(4) [of "Suc i"] that by (simp add: block_of_def add.commute)
  qed (use Suc.prems in simp_all)
  moreover have "take 8 xs = take 8 ys" using Suc.prems(4) [of 0] by (simp add: block_of_def)
  ultimately show ?case by (metis append_take_drop_id)
qed

lemma concat_blocks:
  assumes "\<And>i. length (f i) = 8"
  shows "length (concat (map f [0..<n])) = 8 * n"
    "k < n \<Longrightarrow> take 8 (drop (8 * k) (concat (map f [0..<n]) @ r)) = f k"
proof -
  show l: "length (concat (map f [0..<n])) = 8 * n" for n
    using assms by (induction n) simp_all
  show "k < n \<Longrightarrow> take 8 (drop (8 * k) (concat (map f [0..<n]) @ r)) = f k" for r
  proof (induction n arbitrary: r)
    case 0
    then show ?case by simp
  next
    case (Suc n)
    then show ?case using l [of n] assms by (cases "k = n") auto
  qed
qed

lemma grf_encode_blocks:
  assumes "8 * n \<le> length buf"
  shows "length (grf_encode c n buf) = length buf" "drop (8 * n) (grf_encode c n buf) = drop (8 * n) buf"
    "i < n \<Longrightarrow> block_of (grf_encode c n buf) i = enc_op (block_op c i) (block_of buf i)"
proof -
  define f where "f = (\<lambda>i. if i < n then enc_op (block_op c i) (block_of buf i) else replicate 8 0)"
  have f: "length (f i) = 8" for i
  proof (cases "i < n")
    case True
    then have "8 * i + 8 \<le> length buf" using assms by simp
    then show ?thesis using True enc_op_length [OF block_of_length] by (simp add: f_def)
  qed (simp add: f_def)
  have e: "grf_encode c n buf = concat (map f [0..<n]) @ drop (8 * n) buf"
    unfolding grf_encode_def by (rule arg_cong [where f = "\<lambda>x. concat x @ drop (8 * n) buf"]) (simp add: f_def)
  show "length (grf_encode c n buf) = length buf" "drop (8 * n) (grf_encode c n buf) = drop (8 * n) buf"
    using concat_blocks(1) [of f n, OF f] assms by (simp_all add: e)
  assume i: "i < n"
  have "block_of (grf_encode c n buf) i = f i"
    unfolding e block_of_def by (rule concat_blocks(2) [OF f i])
  then show "block_of (grf_encode c n buf) i = enc_op (block_op c i) (block_of buf i)"
    using i by (simp add: f_def)
qed

section \<open>What the archive functions guarantee\<close>

text \<open>
  C26. The block cipher is its own inverse on blocks of eight bytes, so the decryption
  function also encrypts.
\<close>

theorem des_decrypt_block_inverse:
  assumes "length b = 8"
  shows "des_decrypt_block (des_decrypt_block b) = b \<and> length (des_decrypt_block b) = 8"
  using assms by (simp add: des_decrypt_block_twice)

theorem des_decrypt_block_inverse_witness:
  "des_decrypt_block (des_decrypt_block [1, 2, 3, 4, 5, 6, 7, 8]) = [1, 2, 3, 4, 5, 6, 7, 8]"
  using des_decrypt_block_inverse [of "[1, 2, 3, 4, 5, 6, 7, 8]"] by simp

text \<open>
  C27. Decoding an entry in the mixed mode, of a length below \<open>10 ^ 9\<close>: it returns, the
  cycle comes from the number of decimal digits of the length, every whole block is
  treated as the schedule says and independently of the others, and the bytes after the
  last whole block are left alone.
\<close>

theorem grf_decode_schedule:
  assumes "bit entry_type 1" "0 \<le> n" "n < 10 ^ 9" "8 * (len div 8) \<le> length buf" "8 \<le> fuel"
  shows "\<exists>d r. grf_decode fuel buf len entry_type n = Some r
    \<and> (d = 1 \<or> 10 ^ (d - 1) \<le> n) \<and> n < 10 ^ d \<and> 1 \<le> d
    \<and> length r = length buf \<and> drop (8 * (len div 8)) r = drop (8 * (len div 8)) buf
    \<and> (\<forall>i < len div 8. block_of r i = dec_op (block_op (grf_cycle d) i) (block_of buf i))"
proof -
  obtain d where d: "grf_digits fuel 10 1 n = Some d" "n < 10 ^ d" "d = 1 \<or> 10 ^ (d - 1) \<le> n" "1 \<le> d"
  proof -
    have "\<exists>k. grf_digits fuel (10 ^ 1) 1 n = Some k \<and> n < 10 ^ k \<and> (k = 1 \<or> 10 ^ (k - 1) \<le> n) \<and> 1 \<le> k \<and> k \<le> 9"
      using assms(3,5) by (intro grf_digits_loop) simp_all
    then show thesis unfolding power_one_right by (elim exE conjE) (rule that)
  qed
  note D = grf_decode_full_decoded [OF assms(4), of "grf_cycle d"]
  let ?r = "grf_decode_full buf len (grf_cycle d)"
  have r: "grf_decode fuel buf len entry_type n = Some ?r" using assms(1) d(1) by (simp add: grf_decode_def)
  have l: "length ?r = length buf" "drop (8 * (len div 8)) ?r = drop (8 * (len div 8)) buf"
    using D by (simp_all add: decoded_def)
  have b: "\<forall>i < len div 8. block_of ?r i = dec_op (block_op (grf_cycle d) i) (block_of buf i)"
    using D by (simp add: decoded_def)
  show ?thesis by (intro exI [of _ d] exI [of _ ?r] conjI) (fact r d l b)+
qed

theorem grf_decode_schedule_witness:
  "\<exists>r. grf_decode 8 (replicate 176 7) 176 2 1234 = Some r \<and> length r = 176 \<and> block_of r 21 = replicate 8 7
     \<and> block_of r 20 = des_decrypt_block (replicate 8 7)"
proof -
  obtain d r where r: "grf_decode 8 (replicate 176 7) 176 2 1234 = Some r" "length r = 176"
    and d: "d = 1 \<or> (10 :: int) ^ (d - 1) \<le> 1234" "(1234 :: int) < 10 ^ d" "1 \<le> d"
    and b: "\<And>i. i < 22 \<Longrightarrow> block_of r i = dec_op (block_op (grf_cycle d) i) (block_of (replicate 176 7) i)"
    using grf_decode_schedule [of 2 1234 176 "replicate 176 7" 8] by (auto simp: bit_iff_odd)
  have "d < 5"
  proof (rule ccontr)
    assume "\<not> d < 5"
    then have "(10 :: int) ^ 4 \<le> 10 ^ (d - 1)" by (intro power_increasing) simp_all
    then show False using d(1) \<open>\<not> d < 5\<close> by auto
  qed
  moreover have "\<not> d \<le> 3"
  proof
    assume "d \<le> 3"
    then have "(10 :: int) ^ d \<le> 10 ^ 3" by (intro power_increasing) simp_all
    then show False using d(2) by simp
  qed
  ultimately have "d = 4" by simp
  then have c: "grf_cycle d = 5" by (simp add: grf_cycle_def)
  have "plain_before 5 21 = 0" by (simp add: plain_before_def upt_rec)
  then have "block_op 5 21 = Plain" "block_op 5 20 = Encrypted" by (simp_all add: block_op_def)
  moreover have "block_of (replicate 176 7) i = replicate 8 7" if "i < 22" for i
    using that by (simp add: block_of_def drop_replicate)
  ultimately show ?thesis using r b [of 21] b [of 20] c by auto
qed

text \<open>
  C28. Every entry can be encoded: for each content there is an archived form, of the same
  length, that decodes to it in the mixed mode.
\<close>

theorem grf_decode_encode:
  assumes "8 * (len div 8) \<le> length buf"
  shows "grf_decode_full (grf_encode c (len div 8) buf) len c = buf"
proof -
  let ?e = "grf_encode c (len div 8) buf"
  note E = grf_encode_blocks [OF assms, where c = c]
  have D: "decoded c 0 (len div 8) ?e (grf_decode_full ?e len c)"
    using grf_decode_full_decoded [of len ?e c] assms E(1) by simp
  show ?thesis
  proof (rule buffer_eqI)
    show "length (grf_decode_full ?e len c) = length buf"
      "drop (8 * (len div 8)) (grf_decode_full ?e len c) = drop (8 * (len div 8)) buf"
      using D E(1,2) by (simp_all add: decoded_def)
    then show "8 * (len div 8) \<le> length (grf_decode_full ?e len c)" using assms by simp
    fix i assume i: "i < len div 8"
    then have "8 * i + 8 \<le> length buf" using assms by linarith
    then have "dec_op (block_op c i) (enc_op (block_op c i) (block_of buf i)) = block_of buf i"
      by (intro dec_enc block_of_length)
    then show "block_of (grf_decode_full ?e len c) i = block_of buf i"
      using D E(3) [OF i] i by (simp add: decoded_def)
  qed
qed

theorem grf_decode_encode_witness:
  "grf_decode_full (grf_encode 5 25 (replicate 203 9)) 203 5 = replicate 203 9"
  using grf_decode_encode [of 203 "replicate 203 9" 5] by simp

end
