(* ===== verification/Items.thy ===== *)
theory Items
  imports Prelude
begin

text \<open>
  The item records of common/mmo.hpp and map/itemdb.hpp and the item database
  queries of map/itemdb.cpp that the containers use. The database itself is a
  partial map from item ids to item data: it is loaded from files at run time.
\<close>

section \<open>struct item\<close>

text \<open>
  A slot of an inventory, cart or storage. A slot is free when its nameid is 0;
  memset to 0 is \<open>empty_item\<close>. The array card is called cards here.
\<close>

record item =
  it_id :: int
  nameid :: nat
  amount :: int
  equip :: nat
  identify :: int
  refine :: int
  attribute :: int
  cards :: "nat list"
  options :: "(int \<times> int \<times> int) list"
  expire_time :: int
  favorite :: int
  bound :: int
  unique_id :: nat

definition MAX_SLOTS :: nat where "MAX_SLOTS = 4"

definition empty_item :: item where
  "empty_item = \<lparr>it_id = 0, nameid = 0, amount = 0, equip = 0, identify = 0, refine = 0,
     attribute = 0, cards = [0, 0, 0, 0], options = replicate 5 (0, 0, 0),
     expire_time = 0, favorite = 0, bound = 0, unique_id = 0\<rparr>"

lemma empty_item_sel [simp]:
  "nameid empty_item = 0" "amount empty_item = 0" "expire_time empty_item = 0"
  "equip empty_item = 0" "unique_id empty_item = 0"
  by (simp_all add: empty_item_def)

definition card_at :: "item \<Rightarrow> nat \<Rightarrow> nat" where
  "card_at it i = (if i < length (cards it) then cards it ! i else 0)"

section \<open>struct item_data\<close>

datatype item_type =
    IT_HEALING | IT_UNKNOWN | IT_USABLE | IT_ETC | IT_ARMOR | IT_WEAPON | IT_CARD
  | IT_PETEGG | IT_PETARMOR | IT_UNKNOWN2 | IT_AMMO | IT_DELAYCONSUME | IT_SHADOWGEAR | IT_CASH

record item_data =
  id_nameid :: nat
  id_type :: item_type
  id_value_buy :: int
  id_value_sell :: int
  id_equip :: nat
  id_weight :: int
  id_slot :: nat
  trade_restriction :: nat
  gm_lv_trade_override :: int
  flag_autoequip :: bool
  flag_guid :: bool
  flag_buyingstore :: bool
  stack_amount :: int
  stack_inventory :: bool
  stack_cart :: bool
  stack_storage :: bool
  stack_guildstorage :: bool
  elvmax :: int

type_synonym itemdb = "nat \<Rightarrow> item_data option"

text \<open>The entry \<open>dummy_item\<close> that itemdb.cpp creates for unknown ids.\<close>

definition dummy_item :: item_data where
  "dummy_item = \<lparr>id_nameid = 500, id_type = IT_ETC, id_value_buy = 0, id_value_sell = 1,
     id_equip = 0, id_weight = 1, id_slot = 0, trade_restriction = 0, gm_lv_trade_override = 0,
     flag_autoequip = False, flag_guid = False, flag_buyingstore = False, stack_amount = 0,
     stack_inventory = False, stack_cart = False, stack_storage = False,
     stack_guildstorage = False, elvmax = 0\<rparr>"

definition itemdb_search :: "itemdb \<Rightarrow> nat \<Rightarrow> item_data" where
  "itemdb_search db n =
     (if n = id_nameid dummy_item then dummy_item
      else case db n of None \<Rightarrow> dummy_item | Some d \<Rightarrow> d)"

definition itemdb_isstackable2 :: "item_data \<Rightarrow> bool" where
  "itemdb_isstackable2 d =
     (case id_type d of
        IT_WEAPON \<Rightarrow> False | IT_ARMOR \<Rightarrow> False | IT_PETEGG \<Rightarrow> False
      | IT_PETARMOR \<Rightarrow> False | IT_SHADOWGEAR \<Rightarrow> False | _ \<Rightarrow> True)"

section \<open>Trade restrictions\<close>

text \<open>
  Each test looks at one bit of the restriction mask and lets game masters of a
  high enough group level through. The item pointer is never null here:
  \<open>itemdb_search\<close> falls back to the dummy entry.
\<close>

type_synonym restriction_test = "item_data \<Rightarrow> int \<Rightarrow> int \<Rightarrow> bool"

definition itemdb_isdropable_sub :: restriction_test where
  "itemdb_isdropable_sub d gmlv unused \<longleftrightarrow>
     \<not> bit (trade_restriction d) 0 \<or> gmlv \<ge> gm_lv_trade_override d"

definition itemdb_cantrade_sub :: restriction_test where
  "itemdb_cantrade_sub d gmlv gmlv2 \<longleftrightarrow>
     \<not> bit (trade_restriction d) 1 \<or> gmlv \<ge> gm_lv_trade_override d
     \<or> gmlv2 \<ge> gm_lv_trade_override d"

definition itemdb_canpartnertrade_sub :: restriction_test where
  "itemdb_canpartnertrade_sub d gmlv gmlv2 \<longleftrightarrow>
     bit (trade_restriction d) 2 \<or> gmlv \<ge> gm_lv_trade_override d
     \<or> gmlv2 \<ge> gm_lv_trade_override d"

definition itemdb_cansell_sub :: restriction_test where
  "itemdb_cansell_sub d gmlv unused \<longleftrightarrow>
     \<not> bit (trade_restriction d) 3 \<or> gmlv \<ge> gm_lv_trade_override d"

definition itemdb_cancartstore_sub :: restriction_test where
  "itemdb_cancartstore_sub d gmlv unused \<longleftrightarrow>
     \<not> bit (trade_restriction d) 4 \<or> gmlv \<ge> gm_lv_trade_override d"

definition itemdb_canstore_sub :: restriction_test where
  "itemdb_canstore_sub d gmlv unused \<longleftrightarrow>
     \<not> bit (trade_restriction d) 5 \<or> gmlv \<ge> gm_lv_trade_override d"

definition itemdb_canguildstore_sub :: restriction_test where
  "itemdb_canguildstore_sub d gmlv unused \<longleftrightarrow>
     \<not> bit (trade_restriction d) 6 \<or> gmlv \<ge> gm_lv_trade_override d"

definition itemdb_canmail_sub :: restriction_test where
  "itemdb_canmail_sub d gmlv unused \<longleftrightarrow>
     \<not> bit (trade_restriction d) 7 \<or> gmlv \<ge> gm_lv_trade_override d"

definition itemdb_canauction_sub :: restriction_test where
  "itemdb_canauction_sub d gmlv unused \<longleftrightarrow>
     \<not> bit (trade_restriction d) 8 \<or> gmlv \<ge> gm_lv_trade_override d"

definition CARD0_FORGE :: nat where "CARD0_FORGE = 0xFF"
definition CARD0_CREATE :: nat where "CARD0_CREATE = 0xFE"
definition CARD0_PET :: nat where "CARD0_PET = 0x100"

definition itemdb_isspecial :: "nat \<Rightarrow> bool" where
  "itemdb_isspecial c \<longleftrightarrow> c = CARD0_FORGE \<or> c = CARD0_CREATE \<or> c = CARD0_PET"

text \<open>The name is the source's: the result says that the item is allowed.\<close>

definition itemdb_isrestricted ::
    "itemdb \<Rightarrow> item \<Rightarrow> int \<Rightarrow> int \<Rightarrow> restriction_test \<Rightarrow> bool" where
  "itemdb_isrestricted db it gmlv gmlv2 func =
     (let d = itemdb_search db (nameid it)
      in if \<not> func d gmlv gmlv2 then False
         else if id_slot d = 0 \<or> itemdb_isspecial (card_at it 0) then True
         else list_all (\<lambda>i. card_at it i = 0
                  \<or> func (itemdb_search db (card_at it i)) gmlv gmlv2) [0..<id_slot d])"

text \<open>\<open>MakeDWord\<close> of common/utils.cpp joins the two halves of a character id.\<close>

definition MakeDWord :: "nat \<Rightarrow> nat \<Rightarrow> nat" where
  "MakeDWord w0 w1 = w0 mod 65536 + (w1 mod 65536) * 65536"

section \<open>Counting items\<close>

text \<open>How many units of item id \<open>k\<close> a list of slots holds.\<close>

definition units :: "nat \<Rightarrow> item \<Rightarrow> int" where
  "units k it = (if nameid it = k then amount it else 0)"

definition held :: "nat \<Rightarrow> item list \<Rightarrow> int" where
  "held k xs = sum_list (map (units k) xs)"

lemma held_Nil [simp]: "held k [] = 0"
  by (simp add: held_def)

lemma held_Cons [simp]: "held k (x # xs) = units k x + held k xs"
  by (simp add: held_def)

lemma held_update:
  "i < length xs \<Longrightarrow> held k (xs[i := x]) = held k xs - units k (xs ! i) + units k x"
  by (simp add: held_def sum_list_map_update)

lemma units_empty [simp]: "units k empty_item = 0"
  by (simp add: units_def)

lemma units_amount: "units k (it\<lparr>amount := a\<rparr>) = (if nameid it = k then a else 0)"
  by (simp add: units_def)

text \<open>The invariant of one slot: free and zero, or taken with a positive amount.\<close>

definition MAX_AMOUNT :: int where "MAX_AMOUNT = 30000"

definition slot_ok :: "item \<Rightarrow> bool" where
  "slot_ok it \<longleftrightarrow> (if nameid it = 0 then amount it = 0 else 0 < amount it \<and> amount it \<le> MAX_AMOUNT)"

lemma slot_ok_empty [simp]: "slot_ok empty_item"
  by (simp add: slot_ok_def)

lemma slot_ok_nonneg: "slot_ok it \<Longrightarrow> 0 \<le> amount it"
  by (auto simp: slot_ok_def split: if_splits)

end
