(* ===== verification/Player.thy ===== *)
theory Player
  imports Items
begin

unbundle bit_operations_syntax

text \<open>
  The part of \<open>struct map_session_data\<close> (map/pc.hpp) that item and money
  handling reads or writes, the storage record of common/mmo.hpp, and the
  environment of the handlers: the item database, the battle configuration, the
  map flags, the clock, and the functions that are called but not modelled.

  Packets to the client (\<open>clif_*\<close>), log entries (\<open>log_*\<close>) and
  achievement progress do not change this state and are left out.
\<close>

section \<open>Limits\<close>

definition MAX_INVENTORY :: nat where "MAX_INVENTORY = 150"
definition MAX_CART :: nat where "MAX_CART = 100"
definition MAX_STORAGE :: nat where "MAX_STORAGE = 800"
definition MAX_GUILD_STORAGE :: nat where "MAX_GUILD_STORAGE = 600"
definition MAX_ZENY :: int where "MAX_ZENY = 2147483647"

section \<open>struct s_storage\<close>

record s_storage =
  st_dirty :: bool
  st_status :: bool
  st_amount :: int
  st_lock :: bool
  st_owner :: int
  st_max_amount :: nat
  st_id :: nat
  st_get :: bool
  st_put :: bool
  st_items :: "item list"

definition empty_storage :: "nat \<Rightarrow> s_storage" where
  "empty_storage n = \<lparr>st_dirty = False, st_status = False, st_amount = 0, st_lock = False,
     st_owner = 0, st_max_amount = n, st_id = 0, st_get = True, st_put = True,
     st_items = replicate n empty_item\<rparr>"

section \<open>struct map\_session\_data\<close>

record sd =
  account_id :: int
  char_id :: int
  guild_id :: int
  group_level :: int
  perm_trade :: bool
  perm_trade_bounded :: bool
  cmd_trade :: bool
  map_m :: int
  pos_x :: int
  pos_y :: int
  npc_id :: int
  guild_invite :: int
  party_invite :: int
  adopt_invite :: int
  partner_id :: int
  zeny :: int
  cashPoints :: int
  kafraPoints :: int
  inventory :: "item list"
  inventory_data :: "item_data option list"
  last_addeditem_index :: nat
  weight :: int
  max_weight :: int
  cart :: "item list"
  cart_weight :: int
  cart_num :: int
  cart_weight_max :: int
  storage :: s_storage
  premiumStorage :: s_storage
  trading :: bool
  deal_locked :: nat
  vending :: bool
  buyingstore :: bool
  prevend :: bool
  autotrade :: bool
  banking :: bool
  callshop :: bool
  storage_flag :: nat
  chatID :: int
  opt1 :: nat
  refineui_open :: bool
  noask :: bool
  mail_writing :: bool
  lv_NV_BASIC :: nat
  lv_SU_BASIC :: nat
  isBoundTrading :: nat
  trade_partner :: int
  deal_item :: "(nat \<times> int) list"
  deal_zeny :: int
  deal_weight :: int
  uniqueitem_counter :: nat
  equip_index :: "int list"

section \<open>The environment\<close>

datatype mapflag =
  MF_NOTRADE | MF_NOSTORAGE | MF_NOGUILDSTORAGE | MF_NODROP | MF_PVP | MF_GVG | MF_GVG_CASTLE

record battle_config =
  invite_request_check :: bool
  basic_skill_check :: bool
  client_sort_storage :: bool
  cell_pvp_can_trade :: bool
  cell_pvp_can_open_storage :: bool
  restock_castle :: bool
  restock_pvp :: bool
  restock_gvg :: bool
  stuff_bg_reserved_id :: nat
  stuff_gvg_reserved_id :: nat
  stuff_pvp_reserved_id :: nat
  stuff_enable_trade :: nat
  stuff_enable_cart :: nat
  stuff_enable_storage :: nat
  stuff_enable_guild_storage :: nat
  costumeitem_reserved_id :: nat
  costumeitem_permission :: nat

text \<open>
  \<open>mapflags\<close> and \<open>cell_pvp\<close> are what the map server answers about maps
  and about cells with the flag \<open>pvp\<close> (\<open>map_getcell\<close> with CELL\_CHKPVP). The
  last five fields stand for functions outside the model. The bodies of
  \<open>pc_restock_item\<close> and \<open>pc_restock_getstorage\<close> are not in the
  repository, which has only their declarations; \<open>pc_equipitem\<close> and
  \<open>pc_unequipitem\<close> are the entry to the status and script engines, and qsort is
  the C library's sort, which may order equal elements either way.
\<close>

record env =
  db :: itemdb
  bconf :: battle_config
  agit_flag :: bool
  mapflags :: "int \<Rightarrow> mapflag \<Rightarrow> bool"
  cell_pvp :: "int \<Rightarrow> int \<Rightarrow> int \<Rightarrow> bool"
  now :: int
  pc_restock_item :: "sd \<Rightarrow> nat \<Rightarrow> int"
  pc_restock_getstorage :: "sd \<Rightarrow> nat \<Rightarrow> int \<Rightarrow> sd"
  pc_equipitem :: "sd \<Rightarrow> nat \<Rightarrow> nat \<Rightarrow> sd"
  pc_unequipitem :: "sd \<Rightarrow> nat \<Rightarrow> nat \<Rightarrow> sd"
  qsort :: "(item \<Rightarrow> item \<Rightarrow> int) \<Rightarrow> item list \<Rightarrow> item list"

text \<open>The 32-bit counter of the player below his 32-bit character id.\<close>

definition pc_generate_unique_id :: "sd \<Rightarrow> nat \<times> sd" where
  "pc_generate_unique_id s =
     (push_bit 32 (take_bit 32 (nat (char_id s))) OR take_bit 32 (uniqueitem_counter s),
      s\<lparr>uniqueitem_counter := take_bit 32 (uniqueitem_counter s + 1)\<rparr>)"

definition pc_is_on_cellpvp :: "env \<Rightarrow> sd \<Rightarrow> bool" where
  "pc_is_on_cellpvp e s = cell_pvp e (map_m s) (pos_x s) (pos_y s)"

definition search :: "env \<Rightarrow> nat \<Rightarrow> item_data" where
  "search e n = itemdb_search (db e) n"

definition pc_can_give_items :: "sd \<Rightarrow> bool" where
  "pc_can_give_items s = perm_trade s"

definition pc_can_give_bounded_items :: "sd \<Rightarrow> bool" where
  "pc_can_give_bounded_items s = perm_trade_bounded s"

definition pc_get_group_level :: "sd \<Rightarrow> int" where
  "pc_get_group_level s = group_level s"

section \<open>Well-formed players\<close>

definition slots_ok :: "nat \<Rightarrow> item list \<Rightarrow> bool" where
  "slots_ok n xs \<longleftrightarrow> length xs = n \<and> (\<forall>it \<in> set xs. slot_ok it)"

text \<open>
  \<open>inventory_data\<close> caches the database entry of every taken slot: the code
  refuses to remove an item whose cache entry is null, and computes weights from
  it, so the cache and the total weight are part of the invariant.
\<close>

definition item_weight :: "env \<Rightarrow> item \<Rightarrow> int" where
  "item_weight e it = (if nameid it = 0 then 0 else id_weight (search e (nameid it)) * amount it)"

definition total_weight :: "env \<Rightarrow> item list \<Rightarrow> int" where
  "total_weight e xs = sum_list (map (item_weight e) xs)"

definition inv_ok :: "env \<Rightarrow> sd \<Rightarrow> bool" where
  "inv_ok e s \<longleftrightarrow> slots_ok MAX_INVENTORY (inventory s)
     \<and> length (inventory_data s) = MAX_INVENTORY
     \<and> (\<forall>i < MAX_INVENTORY. nameid (inventory s ! i) \<noteq> 0 \<longrightarrow>
           inventory_data s ! i = Some (search e (nameid (inventory s ! i))))
     \<and> weight s = u32 (total_weight e (inventory s))"

text \<open>The number of taken slots, which carts and storages also keep in a counter.\<close>

definition taken :: "item list \<Rightarrow> int" where
  "taken xs = sum_list (map (\<lambda>it. if nameid it = 0 then 0 else 1) xs)"

definition storage_ok :: "nat \<Rightarrow> s_storage \<Rightarrow> bool" where
  "storage_ok n st \<longleftrightarrow> slots_ok n (st_items st) \<and> st_max_amount st \<le> n
     \<and> st_amount st = taken (st_items st)"

definition cart_ok :: "env \<Rightarrow> sd \<Rightarrow> bool" where
  "cart_ok e s \<longleftrightarrow> slots_ok MAX_CART (cart s) \<and> cart_num s = taken (cart s)
     \<and> cart_weight s = total_weight e (cart s)"

text \<open>The two storages of a player: the account storage and the premium one that is loaded.\<close>

definition stores :: "sd \<Rightarrow> s_storage \<times> s_storage" where
  "stores s = (storage s, premiumStorage s)"

definition stores_ok :: "sd \<Rightarrow> bool" where
  "stores_ok s \<longleftrightarrow> storage_ok MAX_STORAGE (fst (stores s)) \<and> storage_ok MAX_STORAGE (snd (stores s))"

lemma stores_updates [simp]:
  "stores (s\<lparr>inventory := a\<rparr>) = stores s" "stores (s\<lparr>inventory_data := b\<rparr>) = stores s"
  "stores (s\<lparr>weight := c\<rparr>) = stores s" "stores (s\<lparr>max_weight := c\<rparr>) = stores s"
  "stores (s\<lparr>cart := a\<rparr>) = stores s" "stores (s\<lparr>cart_num := c\<rparr>) = stores s"
  "stores (s\<lparr>cart_weight := c\<rparr>) = stores s" "stores (s\<lparr>last_addeditem_index := d\<rparr>) = stores s"
  "stores (s\<lparr>uniqueitem_counter := d\<rparr>) = stores s" "stores (s\<lparr>zeny := c\<rparr>) = stores s"
  "stores (s\<lparr>deal_item := e\<rparr>) = stores s" "stores (s\<lparr>deal_zeny := c\<rparr>) = stores s"
  "stores (s\<lparr>storage_flag := d\<rparr>) = stores s" "stores (s\<lparr>equip_index := g\<rparr>) = stores s"
  by (simp_all add: stores_def)

lemma stores_ok_updates [simp]:
  "stores_ok (s\<lparr>inventory := a\<rparr>) = stores_ok s" "stores_ok (s\<lparr>inventory_data := b\<rparr>) = stores_ok s"
  "stores_ok (s\<lparr>weight := c\<rparr>) = stores_ok s" "stores_ok (s\<lparr>max_weight := c\<rparr>) = stores_ok s"
  "stores_ok (s\<lparr>cart := a\<rparr>) = stores_ok s" "stores_ok (s\<lparr>cart_num := c\<rparr>) = stores_ok s"
  "stores_ok (s\<lparr>cart_weight := c\<rparr>) = stores_ok s" "stores_ok (s\<lparr>last_addeditem_index := d\<rparr>) = stores_ok s"
  "stores_ok (s\<lparr>uniqueitem_counter := d\<rparr>) = stores_ok s" "stores_ok (s\<lparr>zeny := c\<rparr>) = stores_ok s"
  "stores_ok (s\<lparr>deal_item := e\<rparr>) = stores_ok s" "stores_ok (s\<lparr>deal_zeny := c\<rparr>) = stores_ok s"
  "stores_ok (s\<lparr>storage_flag := d\<rparr>) = stores_ok s"
  by (simp_all add: stores_ok_def)

lemma stores_ok_cong: "stores t = stores s \<Longrightarrow> stores_ok t = stores_ok s"
  by (simp add: stores_ok_def)

text \<open>All the units of item \<open>k\<close> that a player owns: inventory, cart and storages.\<close>

definition holdings :: "nat \<Rightarrow> sd \<Rightarrow> int" where
  "holdings k s = held k (inventory s) + held k (cart s)
     + held k (st_items (fst (stores s))) + held k (st_items (snd (stores s)))"

definition same_trade :: "sd \<Rightarrow> sd \<Rightarrow> bool" where
  "same_trade s t \<longleftrightarrow> zeny t = zeny s \<and> deal_item t = deal_item s \<and> deal_zeny t = deal_zeny s
     \<and> trading t = trading s \<and> deal_locked t = deal_locked s \<and> trade_partner t = trade_partner s
     \<and> account_id t = account_id s \<and> guild_id t = guild_id s \<and> storage_flag t = storage_flag s
     \<and> (stores_ok s \<longrightarrow> stores_ok t)"

text \<open>The cart with its counters.\<close>

definition same_cart :: "sd \<Rightarrow> sd \<Rightarrow> bool" where
  "same_cart s t \<longleftrightarrow> cart t = cart s \<and> cart_num t = cart_num s \<and> cart_weight t = cart_weight s"

text \<open>
  \<open>grows s t\<close>: going from \<open>s\<close> to \<open>t\<close> no taken inventory slot lost its
  item or any of its units, and the money and the trade window are untouched.
\<close>

definition keeps_slots :: "item list \<Rightarrow> item list \<Rightarrow> bool" where
  "keeps_slots xs ys \<longleftrightarrow> length ys = length xs
     \<and> (\<forall>i < length xs. nameid (xs ! i) \<noteq> 0 \<longrightarrow>
          nameid (ys ! i) = nameid (xs ! i) \<and> amount (xs ! i) \<le> amount (ys ! i)
          \<and> expire_time (ys ! i) = expire_time (xs ! i))"

definition grows :: "sd \<Rightarrow> sd \<Rightarrow> bool" where
  "grows s t \<longleftrightarrow> keeps_slots (inventory s) (inventory t) \<and> same_trade s t"

section \<open>What the model assumes of the functions outside it\<close>

text \<open>Equipping changes only the worn location, the binding and the weight limit.\<close>

definition strip_equip :: "item \<Rightarrow> item" where
  "strip_equip it = it\<lparr>equip := 0, bound := 0\<rparr>"

definition equip_frame :: "sd \<Rightarrow> sd \<Rightarrow> bool" where
  "equip_frame s t \<longleftrightarrow>
     map strip_equip (inventory t) = map strip_equip (inventory s)
     \<and> t = s\<lparr>inventory := inventory t, max_weight := max_weight t, equip_index := equip_index t\<rparr>"

definition equip_hook_ok :: "env \<Rightarrow> bool" where
  "equip_hook_ok e \<longleftrightarrow> (\<forall>s i p. equip_frame s (pc_equipitem e s i p)
     \<and> equip_frame s (pc_unequipitem e s i p))"

text \<open>
  Restocking moves units of one item from the storage to the inventory: the
  player's holdings stay, and no other slot loses anything.
\<close>

definition restock_hook_ok :: "env \<Rightarrow> bool" where
  "restock_hook_ok e \<longleftrightarrow> (\<forall>s k n. inv_ok e s \<longrightarrow>
     (let t = pc_restock_getstorage e s k n
      in inv_ok e t \<and> grows s t \<and> same_cart s t
         \<and> (\<forall>j. holdings j t = holdings j s)))"

definition qsort_hook_ok :: "env \<Rightarrow> bool" where
  "qsort_hook_ok e \<longleftrightarrow> (\<forall>cmp xs. mset (qsort e cmp xs) = mset xs)"

definition hooks_ok :: "env \<Rightarrow> bool" where
  "hooks_ok e \<longleftrightarrow> equip_hook_ok e \<and> restock_hook_ok e \<and> qsort_hook_ok e"

section \<open>Lemmas on slots\<close>

lemma slots_ok_nth: "slots_ok n xs \<Longrightarrow> i < n \<Longrightarrow> slot_ok (xs ! i)"
  by (simp add: slots_ok_def)

lemma slots_ok_update: "slots_ok n xs \<Longrightarrow> slot_ok it \<Longrightarrow> slots_ok n (xs[i := it])"
  by (auto simp: slots_ok_def intro: ball_set_update dest: set_update_subset_insert [THEN subsetD])

lemma slots_ok_held_nonneg: "slots_ok n xs \<Longrightarrow> 0 \<le> held k xs"
  unfolding slots_ok_def held_def
  by (rule sum_list_nonneg) (auto simp: units_def slot_ok_nonneg)

lemma total_weight_update:
  "i < length xs \<Longrightarrow>
   total_weight e (xs[i := x]) = total_weight e xs - item_weight e (xs ! i) + item_weight e x"
  by (simp add: total_weight_def sum_list_map_update)

lemma keeps_slots_refl [simp]: "keeps_slots xs xs"
  by (simp add: keeps_slots_def)

lemma keeps_slots_trans: "keeps_slots xs ys \<Longrightarrow> keeps_slots ys zs \<Longrightarrow> keeps_slots xs zs"
  unfolding keeps_slots_def by (metis order_trans)

lemma same_trade_refl [simp]: "same_trade s s"
  by (simp add: same_trade_def)

lemma same_trade_trans: "same_trade s t \<Longrightarrow> same_trade t u \<Longrightarrow> same_trade s u"
  by (simp add: same_trade_def)

lemma same_cart_refl [simp]: "same_cart s s"
  by (simp add: same_cart_def)

lemma same_cart_trans: "same_cart s t \<Longrightarrow> same_cart t u \<Longrightarrow> same_cart s u"
  by (simp add: same_cart_def)

lemma same_cart_ok: "same_cart s t \<Longrightarrow> cart_ok e t = cart_ok e s"
  by (simp add: same_cart_def cart_ok_def)

lemma taken_update:
  "i < length xs \<Longrightarrow> taken (xs[i := x]) = taken xs - (if nameid (xs ! i) = 0 then 0 else 1)
     + (if nameid x = 0 then 0 else 1)"
  by (simp add: taken_def sum_list_map_update)

lemma grows_refl [simp]: "grows s s"
  by (simp add: grows_def)

lemma grows_trans: "grows s t \<Longrightarrow> grows t u \<Longrightarrow> grows s u"
  unfolding grows_def by (blast intro: keeps_slots_trans same_trade_trans)

lemma strip_equip_sel [simp]:
  "nameid (strip_equip it) = nameid it" "amount (strip_equip it) = amount it"
  "expire_time (strip_equip it) = expire_time it" "unique_id (strip_equip it) = unique_id it"
  by (simp_all add: strip_equip_def)

lemma map_strip_nth:
  assumes "map strip_equip ys = map strip_equip xs" and "i < length xs"
  shows "nameid (ys ! i) = nameid (xs ! i)" "amount (ys ! i) = amount (xs ! i)"
    "expire_time (ys ! i) = expire_time (xs ! i)"
proof -
  from assms(1) have "length ys = length xs" by (metis length_map)
  with assms have "strip_equip (ys ! i) = strip_equip (xs ! i)" by (metis nth_map)
  then show "nameid (ys ! i) = nameid (xs ! i)" "amount (ys ! i) = amount (xs ! i)"
    "expire_time (ys ! i) = expire_time (xs ! i)"
    by (metis strip_equip_sel)+
qed

lemma held_strip: "held k (map strip_equip xs) = held k xs"
  by (induction xs) (auto simp: units_def)

lemma total_weight_strip: "total_weight e (map strip_equip xs) = total_weight e xs"
  by (induction xs) (auto simp: total_weight_def item_weight_def)

lemma slot_ok_strip: "slot_ok (strip_equip it) = slot_ok it"
  by (simp add: slot_ok_def)

lemma slots_ok_strip: "slots_ok n (map strip_equip xs) = slots_ok n xs"
  by (auto simp: slots_ok_def slot_ok_strip)

lemma equip_frame_keeps:
  assumes "equip_frame s t"
  shows "keeps_slots (inventory s) (inventory t)"
proof -
  have *: "map strip_equip (inventory t) = map strip_equip (inventory s)"
    using assms by (simp add: equip_frame_def)
  then have "length (inventory t) = length (inventory s)" by (metis length_map)
  with map_strip_nth [OF *] show ?thesis by (simp add: keeps_slots_def)
qed

lemma equip_frame_same:
  assumes "equip_frame s t"
  shows "same_trade s t" "same_cart s t" "stores t = stores s" "weight t = weight s"
    "inventory_data t = inventory_data s" "length (inventory t) = length (inventory s)"
    "held k (inventory t) = held k (inventory s)"
    "total_weight e (inventory t) = total_weight e (inventory s)"
    "slots_ok n (inventory t) = slots_ok n (inventory s)"
proof -
  have *: "map strip_equip (inventory t) = map strip_equip (inventory s)"
    and t: "t = s\<lparr>inventory := inventory t, max_weight := max_weight t, equip_index := equip_index t\<rparr>"
    using assms by (simp_all add: equip_frame_def)
  show "length (inventory t) = length (inventory s)" using * by (metis length_map)
  show st: "stores t = stores s" by (subst t) simp
  then have "stores_ok t = stores_ok s" by (simp add: stores_ok_def)
  moreover have "same_trade s (s\<lparr>inventory := xs, max_weight := w, equip_index := ei\<rparr>)" for xs w ei
    by (simp add: same_trade_def stores_ok_def)
  ultimately show "same_trade s t" using t by metis
  show "same_cart s t" by (subst t) (simp add: same_cart_def)
  show "weight t = weight s" "inventory_data t = inventory_data s"
    by (subst t, simp)+
  show "held k (inventory t) = held k (inventory s)" using * by (metis held_strip)
  show "total_weight e (inventory t) = total_weight e (inventory s)"
    using * by (metis total_weight_strip)
  show "slots_ok n (inventory t) = slots_ok n (inventory s)" using * by (metis slots_ok_strip)
qed

lemma equip_frame_grows: "equip_frame s t \<Longrightarrow> grows s t"
  by (simp add: grows_def equip_frame_keeps equip_frame_same)

lemma equip_frame_holdings: "equip_frame s t \<Longrightarrow> holdings k t = holdings k s"
  using equip_frame_same(2) [of s t] by (simp add: holdings_def equip_frame_same same_cart_def)

lemma equip_frame_inv_ok:
  assumes f: "equip_frame s t"
  shows "inv_ok e t = inv_ok e s"
proof -
  have *: "map strip_equip (inventory t) = map strip_equip (inventory s)"
    using f by (simp add: equip_frame_def)
  have "length (inventory s) = MAX_INVENTORY \<Longrightarrow>
    (\<forall>i < MAX_INVENTORY. nameid (inventory t ! i) = nameid (inventory s ! i))"
    using map_strip_nth(1) [OF *] by simp
  then show ?thesis
    by (auto simp: inv_ok_def equip_frame_same [OF f] slots_ok_def
        intro: equip_frame_same(9) [OF f, THEN iffD1, unfolded slots_ok_def, THEN conjunct2, rule_format]
        equip_frame_same(9) [OF f, THEN iffD2, unfolded slots_ok_def, THEN conjunct2, rule_format])
qed

end
