(* ===== verification/Sample.thy ===== *)
theory Sample
  imports Player
begin

text \<open>
  A concrete environment and a concrete player, on which the hypotheses of the
  item and money theorems are shown to hold. The functions outside the model are
  instantiated: nothing is restocked, equipping does
  nothing, and qsort is an insertion sort.
\<close>

section \<open>Environment\<close>

definition potion_data :: item_data where
  "potion_data = dummy_item\<lparr>id_nameid := 501, id_type := IT_HEALING, id_weight := 70\<rparr>"

definition knife_data :: item_data where
  "knife_data = dummy_item\<lparr>id_nameid := 1201, id_type := IT_WEAPON, id_weight := 400, id_slot := 3\<rparr>"

definition sample_db :: itemdb where
  "sample_db = [501 \<mapsto> potion_data, 1201 \<mapsto> knife_data]"

definition sample_conf :: battle_config where
  "sample_conf = \<lparr>invite_request_check = True, basic_skill_check = True, client_sort_storage = True, cell_pvp_can_trade = True,
     cell_pvp_can_open_storage = True, restock_castle = False, restock_pvp = False, restock_gvg = False,
     stuff_bg_reserved_id = 999996, stuff_gvg_reserved_id = 999997, stuff_pvp_reserved_id = 999998,
     stuff_enable_trade = 0, stuff_enable_cart = 0, stuff_enable_storage = 0,
     stuff_enable_guild_storage = 0, costumeitem_reserved_id = 999999, costumeitem_permission = 0\<rparr>"

definition insert_by :: "(item \<Rightarrow> item \<Rightarrow> int) \<Rightarrow> item \<Rightarrow> item list \<Rightarrow> item list" where
  "insert_by cmp x ys = takeWhile (\<lambda>y. cmp x y > 0) ys @ x # dropWhile (\<lambda>y. cmp x y > 0) ys"

definition sample_env :: env where
  "sample_env = \<lparr>db = sample_db, bconf = sample_conf, agit_flag = False, mapflags = (\<lambda>m f. False),
     cell_pvp = (\<lambda>m x y. False), now = 1000,
     pc_restock_item = (\<lambda>s k. 0), pc_restock_getstorage = (\<lambda>s k n. s),
     pc_equipitem = (\<lambda>s i p. s), pc_unequipitem = (\<lambda>s i p. s),
     qsort = (\<lambda>cmp xs. foldr (insert_by cmp) xs [])\<rparr>"

lemma mset_insert_by: "mset (insert_by cmp x ys) = add_mset x (mset ys)"
proof -
  have "mset ys = mset (takeWhile (\<lambda>y. cmp x y > 0) ys @ dropWhile (\<lambda>y. cmp x y > 0) ys)" by simp
  then show ?thesis by (simp add: insert_by_def del: takeWhile_dropWhile_id)
qed

lemma sample_env_hooks [simp]: "hooks_ok sample_env"
proof -
  have "mset (foldr (insert_by cmp) xs []) = mset xs" for cmp xs
    by (induction xs) (simp_all add: mset_insert_by)
  then show ?thesis
    by (simp add: hooks_ok_def equip_hook_ok_def restock_hook_ok_def qsort_hook_ok_def
        sample_env_def equip_frame_def Let_def)
qed

lemma sample_search [simp]:
  "search sample_env 501 = potion_data" "search sample_env 1201 = knife_data"
  by (simp_all add: search_def sample_env_def itemdb_search_def sample_db_def dummy_item_def)

section \<open>Player\<close>

definition potions :: "int \<Rightarrow> item" where
  "potions n = empty_item\<lparr>nameid := 501, amount := n, identify := 1\<rparr>"

definition knife :: item where
  "knife = empty_item\<lparr>nameid := 1201, amount := 1, identify := 1, unique_id := 77\<rparr>"

definition slots_with :: "nat \<Rightarrow> item list \<Rightarrow> item list" where
  "slots_with n xs = xs @ replicate (n - length xs) empty_item"

definition sample_storage :: "nat \<Rightarrow> s_storage" where
  "sample_storage n = (empty_storage n)\<lparr>st_items := slots_with n [potions 5], st_amount := 1\<rparr>"

definition sample_player :: "int \<Rightarrow> int \<Rightarrow> sd" where
  "sample_player a partner = \<lparr>account_id = a, char_id = 150000 + a, guild_id = 5, group_level = 0,
     perm_trade = True, perm_trade_bounded = False, cmd_trade = False, map_m = 1, pos_x = 50, pos_y = 50,
     npc_id = 0, guild_invite = 0, party_invite = 0, adopt_invite = 0, partner_id = 0,
     zeny = 1000, cashPoints = 20, kafraPoints = 30,
     inventory = slots_with MAX_INVENTORY [potions 10, knife],
     inventory_data = [Some potion_data, Some knife_data] @ replicate 148 None,
     last_addeditem_index = 0, weight = 1100, max_weight = 20000,
     cart = slots_with MAX_CART [potions 3], cart_weight = 210, cart_num = 1, cart_weight_max = 80000,
     storage = sample_storage MAX_STORAGE, premiumStorage = empty_storage MAX_STORAGE,
     trading = False, deal_locked = 0, vending = False, buyingstore = False, prevend = False,
     autotrade = False, banking = False, callshop = False, storage_flag = 0, chatID = 0, opt1 = 0, refineui_open = False,
     noask = False, mail_writing = False, lv_NV_BASIC = 9, lv_SU_BASIC = 0, isBoundTrading = 0,
     trade_partner = partner, deal_item = replicate 10 (0, 0), deal_zeny = 0, deal_weight = 0,
     uniqueitem_counter = 0, equip_index = replicate 21 (-1)\<rparr>"

lemma sample_player_zeny:
  "zeny (sample_player a b) = 1000" "0 \<le> deal_zeny (sample_player a b)" "zeny (sample_player a b) \<le> MAX_ZENY"
  "deal_item (sample_player a b) = replicate 10 (0, 0)"
  by (simp_all add: sample_player_def MAX_ZENY_def)

lemma potions_sel [simp]:
  "nameid (potions n) = 501" "amount (potions n) = n" "expire_time (potions n) = 0"
  "nameid knife = 1201" "amount knife = 1" "expire_time knife = 0"
  by (simp_all add: potions_def knife_def)

lemma sample_data_sel [simp]: "id_weight potion_data = 70" "id_weight knife_data = 400"
  by (simp_all add: potion_data_def knife_data_def)

lemma slots_with_facts:
  assumes "length xs \<le> n"
  shows "length (slots_with n xs) = n"
    "slots_ok n (slots_with n xs) \<longleftrightarrow> (\<forall>it \<in> set xs. slot_ok it)"
    "taken (slots_with n xs) = taken xs" "total_weight e (slots_with n xs) = total_weight e xs"
    "held k (slots_with n xs) = held k xs"
    "i < length xs \<Longrightarrow> slots_with n xs ! i = xs ! i"
    "length xs \<le> i \<Longrightarrow> i < n \<Longrightarrow> slots_with n xs ! i = empty_item"
proof -
  have z: "sum_list (map f (replicate m empty_item)) = 0" if "f empty_item = 0" for f :: "item \<Rightarrow> int" and m
    using that by (induction m) simp_all
  show "length (slots_with n xs) = n"
    "slots_ok n (slots_with n xs) \<longleftrightarrow> (\<forall>it \<in> set xs. slot_ok it)"
    "i < length xs \<Longrightarrow> slots_with n xs ! i = xs ! i"
    "length xs \<le> i \<Longrightarrow> i < n \<Longrightarrow> slots_with n xs ! i = empty_item"
    using assms by (auto simp: slots_with_def slots_ok_def nth_append)
  show "taken (slots_with n xs) = taken xs" "total_weight e (slots_with n xs) = total_weight e xs"
    "held k (slots_with n xs) = held k xs"
    using z by (simp_all add: slots_with_def taken_def total_weight_def held_def item_weight_def)
qed

lemma sample_storage_ok: "0 < n \<Longrightarrow> storage_ok n (sample_storage n)"
  by (simp add: storage_ok_def sample_storage_def empty_storage_def slots_with_facts slot_ok_def MAX_AMOUNT_def)
     (simp add: taken_def)

lemma empty_storage_ok: "storage_ok n (empty_storage n)"
  by (simp add: storage_ok_def empty_storage_def slots_ok_def taken_def sum_list_replicate)

lemma sample_player_inv: "inv_ok sample_env (sample_player a b)"
proof -
  have cache: "inventory_data (sample_player a b) ! i
      = Some (search sample_env (nameid (inventory (sample_player a b) ! i)))"
    if "i < MAX_INVENTORY" "nameid (inventory (sample_player a b) ! i) \<noteq> 0" for i
  proof (cases "i < 2")
    case True
    then have "i = 0 \<or> i = 1" by auto
    then show ?thesis by (auto simp: sample_player_def slots_with_def)
  next
    case False
    then show ?thesis using that by (simp add: sample_player_def slots_with_facts MAX_INVENTORY_def)
  qed
  have "total_weight sample_env (inventory (sample_player a b)) = 1100"
    by (simp add: sample_player_def slots_with_facts MAX_INVENTORY_def) (simp add: total_weight_def item_weight_def)
  then show ?thesis
    using cache
    by (simp add: inv_ok_def)
       (simp add: sample_player_def slots_with_facts MAX_INVENTORY_def slot_ok_def MAX_AMOUNT_def)
qed

lemma sample_player_cart: "cart_ok sample_env (sample_player a b)"
  by (simp add: cart_ok_def sample_player_def slots_with_facts MAX_CART_def slot_ok_def MAX_AMOUNT_def)
     (simp add: total_weight_def item_weight_def taken_def)

lemma sample_player_stores: "stores_ok (sample_player a b)"
  by (simp add: stores_ok_def stores_def sample_player_def sample_storage_ok empty_storage_ok MAX_STORAGE_def)

end
