(* ===== verification/Currency.thy ===== *)
theory Currency
  imports Sample
begin

text \<open>
  The money operations of map/pc.cpp: zeny and the two kinds of cash points.
  The log type and the player that a log entry names are left out. Points that
  are mirrored in an account variable (\<open>pc_setaccountreg\<close>) are kept in the
  fields cashPoints and kafraPoints only.
\<close>

section \<open>Zeny\<close>

definition pc_payzeny :: "sd \<Rightarrow> int \<Rightarrow> int \<times> sd" where
  "pc_payzeny s z0 =
     (let z = cap_value z0 (- MAX_ZENY) MAX_ZENY
      in if z < 0 then (1, s)
         else if zeny s < z then (1, s)
         else (0, s\<lparr>zeny := zeny s - z\<rparr>))"

definition pc_getzeny :: "sd \<Rightarrow> int \<Rightarrow> int \<times> sd" where
  "pc_getzeny s z0 =
     (let z = cap_value z0 (- MAX_ZENY) MAX_ZENY
      in if z < 0 then (1, s)
         else let z = (if z > MAX_ZENY - zeny s then MAX_ZENY - zeny s else z)
              in (0, s\<lparr>zeny := zeny s + z\<rparr>))"

section \<open>Cash points\<close>

definition pc_paycash :: "sd \<Rightarrow> int \<Rightarrow> int \<Rightarrow> int \<times> sd" where
  "pc_paycash s price points0 =
     (let points = cap_value points0 (- MAX_ZENY) MAX_ZENY
      in if price < 0 \<or> points < 0 then (-2, s)
         else let points = (if points > price then price else points);
                  cash = price - points
              in if cashPoints s < cash \<or> kafraPoints s < points then (-1, s)
                 else let s = (if cash \<noteq> 0 then s\<lparr>cashPoints := cashPoints s - cash\<rparr> else s);
                          s = (if points \<noteq> 0 then s\<lparr>kafraPoints := kafraPoints s - points\<rparr> else s)
                      in (cash + points, s))"

definition pc_getcash :: "sd \<Rightarrow> int \<Rightarrow> int \<Rightarrow> int \<times> sd" where
  "pc_getcash s cash0 points0 =
     (let cash = cap_value cash0 (- MAX_ZENY) MAX_ZENY;
          points = cap_value points0 (- MAX_ZENY) MAX_ZENY
      in if cash > 0 then
           let cash = (if cash > MAX_ZENY - cashPoints s then MAX_ZENY - cashPoints s else cash)
           in (cash, s\<lparr>cashPoints := cashPoints s + cash\<rparr>)
         else if cash < 0 then (-1, s)
         else if points > 0 then
           let points = (if points > MAX_ZENY - kafraPoints s then MAX_ZENY - kafraPoints s
                         else points)
           in (points, s\<lparr>kafraPoints := kafraPoints s + points\<rparr>)
         else if points < 0 then (-1, s)
         else (-2, s))"

lemmas money_defs = pc_payzeny_def pc_getzeny_def pc_paycash_def pc_getcash_def

section \<open>Bounds and frames\<close>

definition money_ok :: "sd \<Rightarrow> bool" where
  "money_ok s \<longleftrightarrow> 0 \<le> zeny s \<and> zeny s \<le> MAX_ZENY
     \<and> 0 \<le> cashPoints s \<and> cashPoints s \<le> MAX_ZENY
     \<and> 0 \<le> kafraPoints s \<and> kafraPoints s \<le> MAX_ZENY"

lemma pc_payzeny_ok: "money_ok s \<Longrightarrow> money_ok (snd (pc_payzeny s z))"
  by (auto simp: pc_payzeny_def money_ok_def Let_def)

lemma pc_getzeny_ok: "money_ok s \<Longrightarrow> money_ok (snd (pc_getzeny s z))"
  by (auto simp: pc_getzeny_def money_ok_def Let_def)

lemma pc_paycash_eq:
  "pc_paycash s p q =
     (let points = min (cap_value q (- MAX_ZENY) MAX_ZENY) p; cash = p - points
      in if p < 0 \<or> cap_value q (- MAX_ZENY) MAX_ZENY < 0 then (-2, s)
         else if cashPoints s < cash \<or> kafraPoints s < points then (-1, s)
         else (p, s\<lparr>cashPoints := cashPoints s - cash, kafraPoints := kafraPoints s - points\<rparr>))"
  unfolding pc_paycash_def Let_def min_def by (intro if_cong refl) (simp split: if_split)+

lemma pc_paycash_ok:
  assumes "money_ok s"
  shows "money_ok (snd (pc_paycash s p q))"
proof -
  define k where "k = min (cap_value q (- MAX_ZENY) MAX_ZENY) p"
  have eq: "snd (pc_paycash s p q) =
    (if p < 0 \<or> cap_value q (- MAX_ZENY) MAX_ZENY < 0 \<or> cashPoints s < p - k \<or> kafraPoints s < k
     then s else s\<lparr>cashPoints := cashPoints s - (p - k), kafraPoints := kafraPoints s - k\<rparr>)"
    by (simp add: pc_paycash_eq Let_def k_def)
  have "\<not> p < 0 \<Longrightarrow> \<not> cap_value q (- MAX_ZENY) MAX_ZENY < 0 \<Longrightarrow> 0 \<le> k \<and> k \<le> p"
    by (simp add: k_def)
  with assms show ?thesis by (auto simp: eq money_ok_def)
qed

lemma pc_getcash_ok: "money_ok s \<Longrightarrow> money_ok (snd (pc_getcash s p q))"
  by (auto simp: pc_getcash_def money_ok_def Let_def)

lemma pc_payzeny_exact:
  "0 \<le> z \<Longrightarrow> z \<le> zeny s \<Longrightarrow> zeny s \<le> MAX_ZENY \<Longrightarrow> pc_payzeny s z = (0, s\<lparr>zeny := zeny s - z\<rparr>)"
  by (auto simp: pc_payzeny_def MAX_ZENY_def)

lemma pc_getzeny_exact:
  "0 \<le> z \<Longrightarrow> z \<le> MAX_ZENY - zeny s \<Longrightarrow> 0 \<le> zeny s \<Longrightarrow>
   pc_getzeny s z = (0, s\<lparr>zeny := zeny s + z\<rparr>)"
  by (auto simp: pc_getzeny_def MAX_ZENY_def)

lemma pc_payzeny_frame: "snd (pc_payzeny s z) = s\<lparr>zeny := zeny (snd (pc_payzeny s z))\<rparr>"
  by (simp add: pc_payzeny_def Let_def)

lemma pc_getzeny_frame: "snd (pc_getzeny s z) = s\<lparr>zeny := zeny (snd (pc_getzeny s z))\<rparr>"
  by (simp add: pc_getzeny_def Let_def)

text \<open>
  A payment from one player to another, as trade.cpp and vending.cpp make it:
  when the payer can pay and the payee has room, the sum is unchanged.
\<close>

definition pay :: "sd \<Rightarrow> sd \<Rightarrow> int \<Rightarrow> sd \<times> sd" where
  "pay s t z = (snd (pc_payzeny s z), snd (pc_getzeny t z))"

lemma pay_conserves:
  assumes "zeny s \<le> MAX_ZENY" "0 \<le> zeny t" "0 \<le> z" "z \<le> zeny s" "z \<le> MAX_ZENY - zeny t"
  shows "pay s t z = (s\<lparr>zeny := zeny s - z\<rparr>, t\<lparr>zeny := zeny t + z\<rparr>)"
  using assms by (simp add: pay_def pc_payzeny_exact pc_getzeny_exact)

section \<open>What the money operations guarantee\<close>

text \<open>
  Whatever amounts the callers pass (negative or out of range included),
  zeny and both kinds of cash points stay between 0 and MAX\_ZENY.
\<close>

theorem money_bounded:
  assumes "money_ok s"
  shows "money_ok (snd (pc_payzeny s a)) \<and> money_ok (snd (pc_getzeny s a))
    \<and> money_ok (snd (pc_paycash s a b)) \<and> money_ok (snd (pc_getcash s a b))"
  using assms pc_payzeny_ok pc_getzeny_ok pc_paycash_ok pc_getcash_ok by blast

theorem money_bounded_witness:
  "money_ok (snd (pc_getzeny (sample_player 1 0) 5000000000))"
  using money_bounded [of "sample_player 1 0" 5000000000 0]
  by (simp add: money_ok_def sample_player_def MAX_ZENY_def)

text \<open>
  A cash purchase that succeeds takes exactly the price, kafra points first
  up to the offered amount; one that fails takes nothing.
\<close>

theorem pc_paycash_exact:
  assumes "pc_paycash s price points = (r, t)"
  shows "if r < 0 then t = s
    else r = price \<and> cashPoints t + kafraPoints t = cashPoints s + kafraPoints s - price
      \<and> kafraPoints s - kafraPoints t = min (cap_value points (- MAX_ZENY) MAX_ZENY) price
      \<and> kafraPoints s - kafraPoints t \<le> kafraPoints s \<and> cashPoints s - cashPoints t \<le> cashPoints s"
  using assms by (auto simp: pc_paycash_eq Let_def split: if_splits)

theorem pc_paycash_exact_witness:
  "pc_paycash (sample_player 1 0) 40 25 = (40, (sample_player 1 0)\<lparr>cashPoints := 5, kafraPoints := 5\<rparr>)
   \<and> kafraPoints (sample_player 1 0) - kafraPoints (snd (pc_paycash (sample_player 1 0) 40 25)) = 25"
proof -
  have p: "pc_paycash (sample_player 1 0) 40 25
      = (40, (sample_player 1 0)\<lparr>cashPoints := 5, kafraPoints := 5\<rparr>)"
    by (simp add: pc_paycash_def sample_player_def cap_value_def MAX_ZENY_def Let_def)
  with pc_paycash_exact [OF p] show ?thesis by (simp add: cap_value_def MAX_ZENY_def)
qed

end
