(* ===== verification/Inventory.thy ===== *)
theory Inventory
  imports Currency
begin

text \<open>
  The inventory operations of map/pc.cpp. Result codes are the source's.
  \<open>pc_additem\<close> may generate a unique id and store it through its item
  pointer: the model returns the item with that id, and the callers write it
  back to the slot the pointer refers to.
\<close>

section \<open>Result codes\<close>

definition ADDITEM_SUCCESS :: nat where "ADDITEM_SUCCESS = 0"
definition ADDITEM_INVALID :: nat where "ADDITEM_INVALID = 1"
definition ADDITEM_OVERWEIGHT :: nat where "ADDITEM_OVERWEIGHT = 2"
definition ADDITEM_OVERITEM :: nat where "ADDITEM_OVERITEM = 4"
definition ADDITEM_OVERAMOUNT :: nat where "ADDITEM_OVERAMOUNT = 5"
definition ADDITEM_STACKLIMIT :: nat where "ADDITEM_STACKLIMIT = 7"

lemmas additem_codes = ADDITEM_SUCCESS_def ADDITEM_INVALID_def ADDITEM_OVERWEIGHT_def
  ADDITEM_OVERITEM_def ADDITEM_OVERAMOUNT_def ADDITEM_STACKLIMIT_def

datatype chkadditem = CHKADDITEM_EXIST | CHKADDITEM_NEW | CHKADDITEM_OVERAMOUNT

section \<open>Queries\<close>

definition pc_checkadditem :: "env \<Rightarrow> sd \<Rightarrow> nat \<Rightarrow> int \<Rightarrow> chkadditem" where
  "pc_checkadditem e s k amt =
     (if amt > MAX_AMOUNT then CHKADDITEM_OVERAMOUNT
      else let d = search e k
      in if \<not> itemdb_isstackable2 d then CHKADDITEM_NEW
         else if stack_inventory d \<and> amt > stack_amount d then CHKADDITEM_OVERAMOUNT
         else let i = arr_find (\<lambda>it. nameid it = k) (inventory s)
         in if i < length (inventory s) then
              let cur = amount (inventory s ! i)
              in if amt > MAX_AMOUNT - cur \<or> (stack_inventory d \<and> amt > stack_amount d - cur)
                 then CHKADDITEM_OVERAMOUNT else CHKADDITEM_EXIST
            else CHKADDITEM_NEW)"

definition pc_inventoryblank :: "sd \<Rightarrow> nat" where
  "pc_inventoryblank s = length (filter (\<lambda>it. nameid it = 0) (inventory s))"

definition pc_search_inventory :: "sd \<Rightarrow> nat \<Rightarrow> int" where
  "pc_search_inventory s k =
     (let i = arr_find (\<lambda>it. nameid it = k \<and> (amount it > 0 \<or> k = 0)) (inventory s)
      in if i < length (inventory s) then int i else -1)"

definition pc_bound_chk :: "sd \<Rightarrow> int \<Rightarrow> nat list" where
  "pc_bound_chk s btype =
     filter (\<lambda>i. nameid (inventory s ! i) > 0 \<and> amount (inventory s ! i) > 0
                 \<and> bound (inventory s ! i) = btype) [0..<length (inventory s)]"

section \<open>Removing items\<close>

text \<open>The restock exclusion of the map types, as the fork wrote it.\<close>

definition restock_here :: "env \<Rightarrow> sd \<Rightarrow> bool" where
  "restock_here e s \<longleftrightarrow>
     \<not> ((\<not> restock_castle (bconf e) \<and> mapflags e (map_m s) MF_GVG_CASTLE \<and> agit_flag e)
        \<or> (\<not> restock_pvp (bconf e) \<and> mapflags e (map_m s) MF_PVP)
        \<or> (\<not> restock_gvg (bconf e) \<and> mapflags e (map_m s) MF_GVG))"

text \<open>
  \<open>pc_delitem\<close> in three steps: \<open>del_dec\<close> takes the units and their weight,
  \<open>del_clear\<close> is the memset of a slot that ran empty, and \<open>delitem_empty\<close>
  is the whole branch for such a slot, with unequipping and restocking around it.
\<close>

definition del_dec :: "sd \<Rightarrow> nat \<Rightarrow> int \<Rightarrow> sd" where
  "del_dec s i amt = s\<lparr>inventory := (inventory s)[i := (inventory s ! i)
       \<lparr>amount := amount (inventory s ! i) - amt\<rparr>],
     weight := u32 (weight s - id_weight (the (inventory_data s ! i)) * amt)\<rparr>"

definition del_clear :: "sd \<Rightarrow> nat \<Rightarrow> sd" where
  "del_clear s i = s\<lparr>inventory := (inventory s)[i := empty_item],
     inventory_data := (inventory_data s)[i := None]\<rparr>"

definition delitem_empty :: "env \<Rightarrow> sd \<Rightarrow> nat \<Rightarrow> nat \<Rightarrow> sd" where
  "delitem_empty e s i fl =
     (let it = inventory s ! i;
          rk = (if restock_here e s then nameid it else 0);
          ra = (if restock_here e s then pc_restock_item e s (nameid it) else 0);
          s = (if equip it \<noteq> 0 then pc_unequipitem e s i (if bit fl 2 then 2 else 3) else s);
          s = del_clear s i
      in if rk \<noteq> 0 \<and> ra \<noteq> 0 then pc_restock_getstorage e s rk ra else s)"

definition pc_delitem :: "env \<Rightarrow> sd \<Rightarrow> int \<Rightarrow> int \<Rightarrow> nat \<Rightarrow> int \<times> sd" where
  "pc_delitem e s n amt fl =
     (if n < 0 \<or> nameid (inventory s ! nat n) = 0 \<or> amt \<le> 0
         \<or> amount (inventory s ! nat n) < amt \<or> inventory_data s ! nat n = None
      then (1, s)
      else
        let s = del_dec s (nat n) amt
        in (0, if amount (inventory s ! nat n) \<le> 0 then delitem_empty e s (nat n) fl else s))"

section \<open>Adding items\<close>

definition same_stack :: "item \<Rightarrow> item \<Rightarrow> bool" where
  "same_stack it x \<longleftrightarrow> nameid x = nameid it \<and> bound x = bound it \<and> expire_time x = 0
     \<and> unique_id x = unique_id it \<and> cards x = cards it"

text \<open>
  \<open>pc_additem\<close> in steps: \<open>additem_guid\<close> is the unique id of GUID items,
  \<open>additem_place\<close> the search for a slot, which yields an error code or the
  changed state and the slot, and \<open>additem_finish\<close> the last part: weight,
  automatic equipping and the rental check.
\<close>

definition additem_guid :: "env \<Rightarrow> sd \<Rightarrow> item \<Rightarrow> item_data \<Rightarrow> sd \<times> item" where
  "additem_guid e s it d =
     (if flag_guid d \<and> unique_id it = 0
      then (snd (pc_generate_unique_id s), it\<lparr>unique_id := fst (pc_generate_unique_id s)\<rparr>)
      else (s, it))"

definition additem_stack :: "sd \<Rightarrow> item_data \<Rightarrow> int \<Rightarrow> nat \<Rightarrow> nat + sd \<times> nat" where
  "additem_stack s d amt i =
     (let cur = inventory s ! i
      in if amt > MAX_AMOUNT - amount cur \<or> (stack_inventory d \<and> amt > stack_amount d - amount cur)
         then Inl ADDITEM_OVERAMOUNT
         else Inr (s\<lparr>inventory := (inventory s)[i := cur\<lparr>amount := amount cur + amt\<rparr>]\<rparr>, i))"

definition additem_new :: "env \<Rightarrow> sd \<Rightarrow> item \<Rightarrow> item_data \<Rightarrow> int \<Rightarrow> nat + sd \<times> nat" where
  "additem_new e s it d amt =
     (let j = pc_search_inventory s 0
      in if j < 0 then Inl ADDITEM_OVERITEM
         else
           let i = nat j;
               gen = ((\<not> itemdb_isstackable2 d \<or> flag_guid d) \<and> unique_id it = 0);
               u = (if gen then fst (pc_generate_unique_id s) else unique_id it);
               s = (if gen then snd (pc_generate_unique_id s) else s)
           in Inr (s\<lparr>inventory := (inventory s)[i := it\<lparr>equip := 0, favorite := 0,
                         amount := amt, unique_id := u\<rparr>],
                     inventory_data := (inventory_data s)[i := Some d],
                     last_addeditem_index := i\<rparr>, i))"

definition additem_place :: "env \<Rightarrow> sd \<Rightarrow> item \<Rightarrow> item_data \<Rightarrow> int \<Rightarrow> nat + sd \<times> nat" where
  "additem_place e s it d amt =
     (let i = (if itemdb_isstackable2 d \<and> expire_time it = 0
               then arr_find (same_stack it) (inventory s) else MAX_INVENTORY)
      in if i < MAX_INVENTORY then additem_stack s d amt i else additem_new e s it d amt)"

definition additem_finish :: "env \<Rightarrow> sd \<Rightarrow> item \<Rightarrow> item_data \<Rightarrow> nat \<Rightarrow> int \<Rightarrow> sd" where
  "additem_finish e s it d i w =
     (let s = s\<lparr>weight := u32 (weight s + w)\<rparr>;
          s = (if flag_autoequip d then pc_equipitem e s i (id_equip d) else s)
      in if expire_time it \<noteq> 0 \<and> now e > expire_time it
         then snd (pc_delitem e s (int i) (amount (inventory s ! i)) 1)
         else s)"

definition pc_additem :: "env \<Rightarrow> sd \<Rightarrow> item \<Rightarrow> int \<Rightarrow> nat \<times> sd \<times> item" where
  "pc_additem e s it amt =
     (if nameid it = 0 \<or> amt \<le> 0 then (ADDITEM_INVALID, s, it)
      else if amt > MAX_AMOUNT then (ADDITEM_OVERAMOUNT, s, it)
      else
        let d = search e (nameid it)
        in if stack_inventory d \<and> amt > stack_amount d then (ADDITEM_STACKLIMIT, s, it)
        else
          let w = u32 (id_weight d * amt)
          in if u32 (weight s + w) > max_weight s then (ADDITEM_OVERWEIGHT, s, it)
          else
            let (s, it) = additem_guid e s it d
            in case additem_place e s it d amt of
                 Inl err \<Rightarrow> (err, s, it)
               | Inr (s', i) \<Rightarrow> (ADDITEM_SUCCESS, additem_finish e s' it d i w, it))"

section \<open>Removal: holdings, invariant, frame\<close>

lemma inv_okD:
  assumes "inv_ok e s"
  shows "length (inventory s) = MAX_INVENTORY" "length (inventory_data s) = MAX_INVENTORY"
    "slots_ok MAX_INVENTORY (inventory s)" "weight s = u32 (total_weight e (inventory s))"
    "i < MAX_INVENTORY \<Longrightarrow> slot_ok (inventory s ! i)"
    "i < MAX_INVENTORY \<Longrightarrow> nameid (inventory s ! i) \<noteq> 0 \<Longrightarrow>
       inventory_data s ! i = Some (search e (nameid (inventory s ! i)))"
  using assms by (auto simp: inv_ok_def slots_ok_def)

text \<open>The branch for an emptied slot: equipment frame, then the memset, then maybe restock.\<close>

lemma delitem_empty_cases:
  assumes "hooks_ok e"
  obtains t where "equip_frame s t" "delitem_empty e s i fl = del_clear t i"
  | t k a where "equip_frame s t"
      "delitem_empty e s i fl = pc_restock_getstorage e (del_clear t i) k a"
proof -
  define t where "t = (if equip (inventory s ! i) \<noteq> 0
    then pc_unequipitem e s i (if bit fl 2 then 2 else 3) else s)"
  have t: "equip_frame s t"
    using assms by (auto simp: t_def hooks_ok_def equip_hook_ok_def equip_frame_def)
  have "delitem_empty e s i fl = del_clear t i
    \<or> (\<exists>k a. delitem_empty e s i fl = pc_restock_getstorage e (del_clear t i) k a)"
    unfolding delitem_empty_def Let_def t_def [symmetric] by (metis (full_types))
  with t that show thesis by blast
qed

definition debit :: "item \<Rightarrow> int \<Rightarrow> item" where
  "debit it amt = (if amount it \<le> amt then empty_item else it\<lparr>amount := amount it - amt\<rparr>)"

text \<open>What a successful removal of \<open>amt\<close> units from slot \<open>i\<close> guarantees.\<close>

definition removed :: "env \<Rightarrow> sd \<Rightarrow> nat \<Rightarrow> int \<Rightarrow> sd \<Rightarrow> bool" where
  "removed e s i amt t \<longleftrightarrow> inv_ok e t
     \<and> (\<forall>k. holdings k t = holdings k s - (if nameid (inventory s ! i) = k then amt else 0))
     \<and> keeps_slots ((inventory s)[i := debit (inventory s ! i) amt]) (inventory t)
     \<and> same_trade s t \<and> same_cart s t"

lemma del_dec_removed:
  assumes ok: "inv_ok e s" and i: "i < MAX_INVENTORY" and nz: "nameid (inventory s ! i) \<noteq> 0"
    and a: "0 < amt" "amt < amount (inventory s ! i)"
  shows "removed e s i amt (del_dec s i amt)"
proof -
  let ?it = "inventory s ! i"
  note D = inv_okD [OF ok]
  have len: "i < length (inventory s)" using D(1) i by simp
  have sl: "slot_ok (?it\<lparr>amount := amount ?it - amt\<rparr>)"
    using D(5) [OF i] nz a by (auto simp: slot_ok_def split: if_splits)
  have w: "total_weight e ((inventory s)[i := ?it\<lparr>amount := amount ?it - amt\<rparr>])
    = total_weight e (inventory s) - id_weight (search e (nameid ?it)) * amt"
    using len nz by (simp add: total_weight_update item_weight_def algebra_simps)
  have ok': "inv_ok e (del_dec s i amt)"
    using D i len nz
    by (auto simp: inv_ok_def del_dec_def slots_ok_update sl w nth_list_update u32_u32_diff)
  have "debit ?it amt = ?it\<lparr>amount := amount ?it - amt\<rparr>"
    using a by (simp add: debit_def)
  with ok' show ?thesis
    using len by (simp add: removed_def del_dec_def holdings_def held_update units_def same_trade_def same_cart_def)
qed

lemma del_clear_removed:
  assumes ok: "inv_ok e s" and i: "i < MAX_INVENTORY" and nz: "nameid (inventory s ! i) \<noteq> 0"
    and f: "equip_frame (del_dec s i (amount (inventory s ! i))) t"
  shows "removed e s i (amount (inventory s ! i)) (del_clear t i)"
proof -
  let ?it = "inventory s ! i" and ?d = "del_dec s i (amount (inventory s ! i))"
  note D = inv_okD [OF ok] and F = equip_frame_same [OF f]
  have len: "i < length (inventory s)" "length (inventory t) = MAX_INVENTORY"
    using D(1) i F(6) by (simp_all add: del_dec_def)
  have m: "map strip_equip (inventory t) = map strip_equip (inventory ?d)"
    using f by (simp add: equip_frame_def)
  have nth: "nameid (inventory t ! j) = nameid (inventory ?d ! j)"
    "amount (inventory t ! j) = amount (inventory ?d ! j)"
    "expire_time (inventory t ! j) = expire_time (inventory ?d ! j)"
    if "j < MAX_INVENTORY" for j
    using map_strip_nth [OF m, of j] that D(1) by (simp_all add: del_dec_def)
  have at_i: "nameid (inventory t ! i) = nameid ?it" "amount (inventory t ! i) = 0"
    using nth [OF i] len by (simp_all add: del_dec_def)
  have others: "nameid (inventory t ! j) = nameid (inventory s ! j)"
    "amount (inventory t ! j) = amount (inventory s ! j)"
    "expire_time (inventory t ! j) = expire_time (inventory s ! j)"
    if "j < MAX_INVENTORY" "j \<noteq> i" for j
    using nth [OF that(1)] that len by (simp_all add: del_dec_def)
  have h: "held k (inventory (del_clear t i)) = held k (inventory s) - (if nameid ?it = k then amount ?it else 0)" for k
    using len i F(7) by (simp add: del_clear_def held_update units_def at_i) (simp add: del_dec_def held_update units_def)
  have w: "total_weight e (inventory (del_clear t i)) = total_weight e (inventory ?d)"
    using len i F(8) by (simp add: del_clear_def total_weight_update item_weight_def at_i)
  have w': "total_weight e (inventory ?d) = total_weight e (inventory s) - item_weight e ?it"
    using len by (simp add: del_dec_def total_weight_update item_weight_def)
  have "slot_ok (inventory (del_clear t i) ! j)" if "j < MAX_INVENTORY" for j
    using that len others [OF that] D(5) [OF that]
    by (cases "j = i") (simp_all add: del_clear_def slot_ok_def)
  then have so: "slots_ok MAX_INVENTORY (inventory (del_clear t i))"
    using len by (auto simp: slots_ok_def del_clear_def in_set_conv_nth)
  have wt: "weight t = u32 (total_weight e (inventory s) - item_weight e ?it)"
    using F(4) D(4,6) i nz by (simp add: del_dec_def item_weight_def u32_u32_diff)
  have ok': "inv_ok e (del_clear t i)"
    unfolding inv_ok_def
    using so D(2,6) i len others F(5) w w' wt
    by (auto simp: del_clear_def del_dec_def nth_list_update)
  have ks: "keeps_slots ((inventory s)[i := empty_item]) (inventory (del_clear t i))"
    using len D(1) others by (auto simp: keeps_slots_def del_clear_def nth_list_update)
  have "same_trade s (del_clear t i) \<and> same_cart s (del_clear t i)
      \<and> stores (del_clear t i) = stores s"
    using F(1,2,3) by (simp add: del_clear_def del_dec_def same_trade_def same_cart_def)
  with ok' h ks show ?thesis
    by (simp add: removed_def holdings_def debit_def same_cart_def)
qed

lemma removed_restock:
  assumes r: "removed e s i amt t" and h: "hooks_ok e"
  shows "removed e s i amt (pc_restock_getstorage e t k a)"
proof -
  let ?u = "pc_restock_getstorage e t k a"
  have "inv_ok e ?u \<and> grows t ?u \<and> same_cart t ?u \<and> (\<forall>j. holdings j ?u = holdings j t)"
    using r h by (auto simp: removed_def hooks_ok_def restock_hook_ok_def Let_def)
  moreover have "same_trade s ?u" if "grows t ?u"
    using that r by (simp add: removed_def grows_def same_trade_def same_cart_def)
  ultimately show ?thesis
    using r by (auto simp: removed_def grows_def intro: keeps_slots_trans same_cart_trans)
qed

text \<open>The contract of \<open>pc_delitem\<close>: inside its guard it succeeds and removes exactly \<open>amt\<close>.\<close>

lemma pc_delitem_removed:
  assumes "0 \<le> n" "inv_ok e s" "nat n < MAX_INVENTORY" "hooks_ok e"
    "nameid (inventory s ! nat n) \<noteq> 0" "0 < amt" "amt \<le> amount (inventory s ! nat n)"
  shows "fst (pc_delitem e s n amt fl) = 0
    \<and> removed e s (nat n) amt (snd (pc_delitem e s n amt fl))"
proof -
  let ?i = "nat n"
  have nn: "inventory_data s ! ?i \<noteq> None"
    using inv_okD(6) [OF assms(2,3,5)] by simp
  have len: "?i < length (inventory s)"
    using inv_okD(1) [OF assms(2)] assms(3) by simp
  have a: "amount (inventory (del_dec s ?i amt) ! ?i) = amount (inventory s ! ?i) - amt"
    using len by (simp add: del_dec_def)
  have eq: "pc_delitem e s n amt fl =
    (0, if amount (inventory s ! ?i) \<le> amt then delitem_empty e (del_dec s ?i amt) ?i fl
        else del_dec s ?i amt)"
    using assms(1,5,6,7) nn by (simp add: pc_delitem_def Let_def a)
  show ?thesis
  proof (cases "amount (inventory s ! ?i) \<le> amt")
    case False
    then show ?thesis using del_dec_removed [OF assms(2,3,5,6)] by (simp add: eq)
  next
    case True
    with assms(7) have amt: "amt = amount (inventory s ! ?i)" by simp
    have eq': "pc_delitem e s n amt fl = (0, delitem_empty e (del_dec s ?i amt) ?i fl)"
      using eq True by simp
    have clear: "removed e s ?i amt (del_clear t ?i)" if "equip_frame (del_dec s ?i amt) t" for t
      using del_clear_removed [OF assms(2,3,5), of t] that unfolding amt by simp
    have "removed e s ?i amt (delitem_empty e (del_dec s ?i amt) ?i fl)"
      using assms(4)
      by (rule delitem_empty_cases [where s = "del_dec s ?i amt" and i = ?i and fl = fl])
        (simp_all add: clear removed_restock [OF _ assms(4)])
    then show ?thesis by (simp add: eq')
  qed
qed

lemma pc_delitem_refused:
  assumes "fst (pc_delitem e s n amt fl) \<noteq> 0"
  shows "snd (pc_delitem e s n amt fl) = s"
proof (cases "n < 0 \<or> nameid (inventory s ! nat n) = 0 \<or> amt \<le> 0
    \<or> amount (inventory s ! nat n) < amt \<or> inventory_data s ! nat n = None")
  case True
  then show ?thesis by (simp only: pc_delitem_def if_True snd_conv)
next
  case False
  with assms show ?thesis by (simp only: pc_delitem_def if_False Let_def fst_conv)
qed

section \<open>Insertion: holdings, invariant, frame\<close>

text \<open>What a successful insertion guarantees.\<close>

definition added :: "env \<Rightarrow> sd \<Rightarrow> item \<Rightarrow> int \<Rightarrow> sd \<Rightarrow> bool" where
  "added e s it amt t \<longleftrightarrow> inv_ok e t
     \<and> (\<forall>k. holdings k t = holdings k s + (if nameid it = k then amt else 0))
     \<and> grows s t \<and> same_cart s t \<and> stores t = stores s"

text \<open>The state after \<open>additem_place\<close>: everything but the weight is already in place.\<close>

definition placed :: "env \<Rightarrow> sd \<Rightarrow> item \<Rightarrow> int \<Rightarrow> sd \<Rightarrow> bool" where
  "placed e s it amt t \<longleftrightarrow> slots_ok MAX_INVENTORY (inventory t)
     \<and> length (inventory_data t) = MAX_INVENTORY
     \<and> (\<forall>i < MAX_INVENTORY. nameid (inventory t ! i) \<noteq> 0 \<longrightarrow>
           inventory_data t ! i = Some (search e (nameid (inventory t ! i))))
     \<and> weight t = weight s
     \<and> total_weight e (inventory t) = total_weight e (inventory s) + id_weight (search e (nameid it)) * amt
     \<and> (\<forall>k. held k (inventory t) = held k (inventory s) + (if nameid it = k then amt else 0))
     \<and> keeps_slots (inventory s) (inventory t) \<and> same_trade s t
     \<and> same_cart s t \<and> stores t = stores s"

lemma uid_frame:
  "inventory (snd (pc_generate_unique_id s)) = inventory s"
  "inventory_data (snd (pc_generate_unique_id s)) = inventory_data s"
  "weight (snd (pc_generate_unique_id s)) = weight s"
  "same_cart s (snd (pc_generate_unique_id s))"
  "stores (snd (pc_generate_unique_id s)) = stores s"
  "same_trade s (snd (pc_generate_unique_id s))"
  "max_weight (snd (pc_generate_unique_id s)) = max_weight s"
  by (simp_all add: pc_generate_unique_id_def same_cart_def same_trade_def)

lemma additem_stack_placed:
  assumes ok: "inv_ok e s" and i: "i < MAX_INVENTORY" and it: "nameid (inventory s ! i) = nameid it"
    and nz: "nameid it \<noteq> 0" and a: "0 < amt"
    and p: "additem_stack s d amt i = Inr (t, j)"
  shows "placed e s it amt t \<and> j = i"
proof -
  note D = inv_okD [OF ok]
  let ?c = "inventory s ! i"
  have len: "i < length (inventory s)" using D(1) i by simp
  have le: "amount ?c + amt \<le> MAX_AMOUNT" and j: "j = i"
    and t: "t = s\<lparr>inventory := (inventory s)[i := ?c\<lparr>amount := amount ?c + amt\<rparr>]\<rparr>"
    using p by (auto simp: additem_stack_def Let_def split: if_splits)
  have "slot_ok (?c\<lparr>amount := amount ?c + amt\<rparr>)"
    using D(5) [OF i] it nz a le by (simp add: slot_ok_def)
  then show ?thesis
    using D i len it nz a unfolding t placed_def j
    by (auto simp: slots_ok_update nth_list_update total_weight_update item_weight_def
        held_update units_def keeps_slots_def same_trade_def same_cart_def algebra_simps)
qed

lemma additem_new_placed:
  assumes ok: "inv_ok e s" and h: "hooks_ok e" and nz: "nameid it \<noteq> 0"
    and a: "0 < amt" "amt \<le> MAX_AMOUNT"
    and p: "additem_new e s it (search e (nameid it)) amt = Inr (t, j)"
  shows "placed e s it amt t \<and> j < MAX_INVENTORY"
proof -
  note D = inv_okD [OF ok]
  let ?P = "\<lambda>x. nameid x = 0" and ?d = "search e (nameid it)"
  define i where "i = arr_find ?P (inventory s)"
  have i: "i < length (inventory s)"
    using p by (auto simp: additem_new_def pc_search_inventory_def Let_def i_def split: if_splits)
  then have free: "nameid (inventory s ! i) = 0"
    unfolding i_def by (rule arr_find_sat)
  then have free': "amount (inventory s ! i) = 0"
    using D(5) [of i] D(1) i by (simp add: slot_ok_def)
  define gen where "gen = ((\<not> itemdb_isstackable2 ?d \<or> flag_guid ?d) \<and> unique_id it = 0)"
  define u where "u = (if gen then fst (pc_generate_unique_id s) else unique_id it)"
  define s' where "s' = (if gen then snd (pc_generate_unique_id s) else s)"
  have "pc_search_inventory s 0 = int i"
    using i by (simp add: pc_search_inventory_def Let_def i_def)
  then have j: "j = i" and t: "t = s'\<lparr>inventory := (inventory s')[i := it\<lparr>equip := 0, favorite := 0,
                         amount := amt, unique_id := u\<rparr>],
                     inventory_data := (inventory_data s')[i := Some ?d],
                     last_addeditem_index := i\<rparr>"
    using p unfolding gen_def u_def s'_def by (auto simp: additem_new_def Let_def split del: if_split)
  have fr: "inventory s' = inventory s" "inventory_data s' = inventory_data s" "weight s' = weight s"
    "same_cart s s'" "stores s' = stores s" "same_trade s s'"
    using uid_frame [of s] by (simp_all add: s'_def)
  show ?thesis
    using D(1,2,3,6) i free free' nz a fr unfolding t placed_def j
    by (auto simp: slots_ok_update slot_ok_def nth_list_update total_weight_update item_weight_def
        held_update units_def keeps_slots_def same_trade_def same_cart_def)
qed

lemma additem_place_placed:
  assumes ok: "inv_ok e s" and h: "hooks_ok e" and nz: "nameid it \<noteq> 0"
    and a: "0 < amt" "amt \<le> MAX_AMOUNT"
    and p: "additem_place e s it (search e (nameid it)) amt = Inr (t, j)"
  shows "placed e s it amt t \<and> j < MAX_INVENTORY"
proof -
  define i where "i = (if itemdb_isstackable2 (search e (nameid it)) \<and> expire_time it = 0
               then arr_find (same_stack it) (inventory s) else MAX_INVENTORY)"
  show ?thesis
  proof (cases "i < MAX_INVENTORY")
    case True
    then have "i = arr_find (same_stack it) (inventory s)"
      by (auto simp: i_def split: if_splits)
    then have "same_stack it (inventory s ! i)"
      using True inv_okD(1) [OF ok] by (metis arr_find_sat)
    then have "nameid (inventory s ! i) = nameid it" by (simp add: same_stack_def)
    then show ?thesis
      using p True additem_stack_placed [OF ok True _ nz a(1)]
      by (auto simp: additem_place_def i_def [symmetric])
  next
    case False
    then show ?thesis
      using p additem_new_placed [OF ok h nz a] by (simp add: additem_place_def i_def [symmetric])
  qed
qed

lemma additem_finish_added:
  assumes pl: "placed e s it amt t" and ok: "inv_ok e s" and h: "hooks_ok e"
    and fresh: "expire_time it = 0 \<or> now e \<le> expire_time it"
    and w: "w = u32 (id_weight (search e (nameid it)) * amt)"
  shows "added e s it amt (additem_finish e t it d j w)"
proof -
  define u where "u = t\<lparr>weight := u32 (weight t + w)\<rparr>"
  have "weight u = u32 (total_weight e (inventory u))"
    using pl inv_okD(4) [OF ok] w by (simp add: u_def placed_def u32_u32_add)
  then have uok: "inv_ok e u"
    using pl by (simp add: u_def placed_def inv_ok_def)
  have fin: "additem_finish e t it d j w = (if flag_autoequip d then pc_equipitem e u j (id_equip d) else u)"
    using fresh by (auto simp: additem_finish_def Let_def u_def)
  have f: "equip_frame u (additem_finish e t it d j w)"
    using h unfolding fin by (auto simp: hooks_ok_def equip_hook_ok_def equip_frame_def)
  have "grows s u" "same_cart s u" "stores u = stores s"
    "\<forall>k. holdings k u = holdings k s + (if nameid it = k then amt else 0)"
    using pl by (simp_all add: u_def placed_def grows_def same_trade_def same_cart_def holdings_def)
  then show ?thesis
    using equip_frame_grows [OF f] equip_frame_same(2,3) [OF f] equip_frame_holdings [OF f]
      equip_frame_inv_ok [OF f] uok
    by (auto simp: added_def intro: grows_trans same_cart_trans)
qed

lemma additem_guid_frame:
  assumes h: "hooks_ok e" and g: "additem_guid e s it d = (t, it')"
  shows "inv_ok e t = inv_ok e s" "holdings k t = holdings k s" "grows s t" "same_cart s t"
    "stores t = stores s" "inventory t = inventory s" "weight t = weight s"
    "\<exists>u. it' = it\<lparr>unique_id := u\<rparr>"
proof -
  have t: "t = s \<or> t = snd (pc_generate_unique_id s)" and i: "\<exists>u. it' = it\<lparr>unique_id := u\<rparr>"
    using g by (auto simp: additem_guid_def split: if_splits intro: exI [of _ "unique_id it"])
  note F = uid_frame [of s]
  show "inv_ok e t = inv_ok e s" using t F by (auto simp: inv_ok_def)
  show "holdings k t = holdings k s" using t F by (auto simp: holdings_def same_cart_def)
  show "grows s t" using t F by (auto simp: grows_def)
  show "same_cart s t" "stores t = stores s" "inventory t = inventory s" "weight t = weight s"
    using t F by auto
  show "\<exists>u. it' = it\<lparr>unique_id := u\<rparr>" by (rule i)
qed

lemma added_guid:
  assumes h: "hooks_ok e" and g: "additem_guid e s it d = (t, it')" and a: "added e t it' amt u"
  shows "added e s it amt u"
proof -
  obtain x where "it' = it\<lparr>unique_id := x\<rparr>" using additem_guid_frame(8) [OF h g] by blast
  then show ?thesis
    using a additem_guid_frame [OF h g] by (auto simp: added_def intro: grows_trans same_cart_trans)
qed

text \<open>The contract of \<open>pc_additem\<close>.\<close>

lemma pc_additem_cases:
  assumes "pc_additem e s it amt = (f, t, it')"
  obtains (refused) "f \<noteq> ADDITEM_SUCCESS" "t = s" "it' = it"
  | (full) s1 where "additem_guid e s it (search e (nameid it)) = (s1, it')" "t = s1" "f \<noteq> ADDITEM_SUCCESS"
  | (success) s1 s2 i where "nameid it \<noteq> 0" "0 < amt" "amt \<le> MAX_AMOUNT"
      "additem_guid e s it (search e (nameid it)) = (s1, it')"
      "additem_place e s1 it' (search e (nameid it)) amt = Inr (s2, i)"
      "f = ADDITEM_SUCCESS"
      "t = additem_finish e s2 it' (search e (nameid it)) i (u32 (id_weight (search e (nameid it)) * amt))"
proof -
  let ?d = "search e (nameid it)"
  have place_err: "f' \<noteq> ADDITEM_SUCCESS" if "additem_place e s' x d amt = Inl f'" for s' x d f'
    using that by (auto simp: additem_place_def additem_stack_def additem_new_def Let_def additem_codes
        split: if_splits)
  obtain s1 it1 where g: "additem_guid e s it ?d = (s1, it1)" by fastforce
  show thesis
  proof (cases "nameid it = 0 \<or> amt \<le> 0 \<or> amt > MAX_AMOUNT \<or> (stack_inventory ?d \<and> amt > stack_amount ?d)
      \<or> u32 (weight s + u32 (id_weight ?d * amt)) > max_weight s")
    case True
    have "f \<noteq> ADDITEM_SUCCESS \<and> t = s \<and> it' = it"
      using True assms by (auto simp: pc_additem_def Let_def additem_codes split: if_splits)
    then show thesis using refused by blast
  next
    case False
    then have eq: "(f, t, it') = (case additem_place e s1 it1 ?d amt of Inl err \<Rightarrow> (err, s1, it1)
       | Inr (s', i) \<Rightarrow> (ADDITEM_SUCCESS, additem_finish e s' it1 ?d i (u32 (id_weight ?d * amt)), it1))"
      using assms g by (auto simp: pc_additem_def Let_def)
    show thesis
    proof (cases "additem_place e s1 it1 ?d amt")
      case (Inl err)
      with eq g place_err [OF Inl] show thesis by (intro full) auto
    next
      case (Inr r)
      obtain s2 i where "r = (s2, i)" by fastforce
      with Inr eq g False show thesis by (intro success) auto
    qed
  qed
qed

lemma pc_additem_added:
  assumes ok: "inv_ok e s" and h: "hooks_ok e"
    and fresh: "expire_time it = 0 \<or> now e \<le> expire_time it"
    and r: "pc_additem e s it amt = (ADDITEM_SUCCESS, t, it')"
  shows "added e s it amt t" "nameid it \<noteq> 0" "0 < amt" "amt \<le> MAX_AMOUNT" "\<exists>u. it' = it\<lparr>unique_id := u\<rparr>"
proof -
  have "added e s it amt t \<and> nameid it \<noteq> 0 \<and> 0 < amt \<and> amt \<le> MAX_AMOUNT \<and> (\<exists>u. it' = it\<lparr>unique_id := u\<rparr>)"
    using r
  proof (cases rule: pc_additem_cases)
    case (success s1 s2 i)
    note G = additem_guid_frame [OF h success(4)]
    obtain u where u: "it' = it\<lparr>unique_id := u\<rparr>" using G(8) by blast
    have ok1: "inv_ok e s1" using G(1) ok by simp
    have nid: "nameid it' = nameid it" using u by simp
    have "placed e s1 it' amt s2"
      using additem_place_placed [OF ok1 h _ success(2,3)] success(1,5) nid by simp
    from additem_finish_added [OF this ok1 h] have "added e s1 it' amt t"
      using fresh success(7) u by simp
    with added_guid [OF h success(4)] success(1,2,3) u show ?thesis by blast
  qed auto
  then show "added e s it amt t" "nameid it \<noteq> 0" "0 < amt" "amt \<le> MAX_AMOUNT" "\<exists>u. it' = it\<lparr>unique_id := u\<rparr>"
    by blast+
qed

lemma pc_additem_refused:
  assumes h: "hooks_ok e" and r: "pc_additem e s it amt = (f, t, it')" and f: "f \<noteq> ADDITEM_SUCCESS"
  shows "inv_ok e t = inv_ok e s" "holdings k t = holdings k s" "grows s t" "same_cart s t"
    "stores t = stores s" "inventory t = inventory s" "\<exists>u. it' = it\<lparr>unique_id := u\<rparr>"
proof -
  have "(inv_ok e t = inv_ok e s) \<and> holdings k t = holdings k s \<and> grows s t \<and> same_cart s t
    \<and> stores t = stores s \<and> inventory t = inventory s \<and> (\<exists>u. it' = it\<lparr>unique_id := u\<rparr>)"
    using r
  proof (cases rule: pc_additem_cases)
    case refused
    then show ?thesis by (auto intro: exI [of _ "unique_id it"])
  next
    case (full s1)
    then show ?thesis using additem_guid_frame [OF h full(1)] by blast
  qed (use f in auto)
  then show "inv_ok e t = inv_ok e s" "holdings k t = holdings k s" "grows s t" "same_cart s t"
    "stores t = stores s" "inventory t = inventory s" "\<exists>u. it' = it\<lparr>unique_id := u\<rparr>"
    by blast+
qed

section \<open>What the inventory operations guarantee\<close>

text \<open>
  C4. \<open>pc_additem\<close> on an unexpired item: a success adds exactly
  \<open>amt\<close> units of that item to what the player owns, takes nothing from any
  slot and keeps the inventory, its cache and its weight consistent; every other
  answer leaves the slots as they were.
\<close>

theorem pc_additem_contract:
  assumes "inv_ok e s" "hooks_ok e" "expire_time it = 0 \<or> now e \<le> expire_time it"
    "pc_additem e s it amt = (f, t, it')"
  shows "inv_ok e t \<and> keeps_slots (inventory s) (inventory t) \<and> zeny t = zeny s
    \<and> (\<forall>k. holdings k t = holdings k s + (if f = ADDITEM_SUCCESS \<and> nameid it = k then amt else 0))
    \<and> (f \<noteq> ADDITEM_SUCCESS \<longrightarrow> inventory t = inventory s)"
proof (cases "f = ADDITEM_SUCCESS")
  case True
  then show ?thesis
    using pc_additem_added(1) [OF assms(1-3)] assms(4) by (auto simp: added_def grows_def same_trade_def)
next
  case False
  note R = pc_additem_refused [OF assms(2,4) False]
  show ?thesis using R(1-3,6) False assms(1) by (simp add: grows_def same_trade_def)
qed

theorem pc_additem_contract_witness:
  "held 501 (inventory (fst (snd (pc_additem sample_env (sample_player 1 0) (potions 4) 4)))) = 14
   \<and> inv_ok sample_env (fst (snd (pc_additem sample_env (sample_player 1 0) (potions 4) 4)))"
proof -
  obtain f t it where r: "pc_additem sample_env (sample_player 1 0) (potions 4) 4 = (f, t, it)"
    by (metis prod.exhaust)
  have st: "arr_find (same_stack (potions 4)) (inventory (sample_player 1 0)) = 0"
    by (simp add: sample_player_def slots_with_def same_stack_def potions_def empty_item_def)
  have "f = ADDITEM_SUCCESS \<and> held 501 (inventory t) = 14"
    using r st
    by (auto simp: pc_additem_def additem_guid_def additem_place_def additem_stack_def additem_finish_def
        potion_data_def dummy_item_def itemdb_isstackable2_def MAX_AMOUNT_def MAX_INVENTORY_def Let_def
        sample_player_def slots_with_def held_def units_def knife_def empty_item_def sum_list_replicate
        split: if_splits)
  moreover have "inv_ok sample_env t"
    using pc_additem_contract [OF sample_player_inv sample_env_hooks _ r] by simp
  ultimately show ?thesis by (simp add: r)
qed

text \<open>
  C5. \<open>pc_delitem\<close> on a taken slot: it succeeds exactly when the amount is
  positive and covered by the slot, then removes exactly that many units of that
  item and nothing else; otherwise nothing changes.
\<close>

theorem pc_delitem_contract:
  assumes "inv_ok e s" "hooks_ok e" "0 \<le> n" "nat n < MAX_INVENTORY"
    "nameid (inventory s ! nat n) \<noteq> 0" "pc_delitem e s n amt fl = (r, t)"
  shows "if 0 < amt \<and> amt \<le> amount (inventory s ! nat n)
    then r = 0 \<and> inv_ok e t \<and> zeny t = zeny s
      \<and> (\<forall>k. holdings k t = holdings k s - (if nameid (inventory s ! nat n) = k then amt else 0))
    else r \<noteq> 0 \<and> t = s"
proof (cases "0 < amt \<and> amt \<le> amount (inventory s ! nat n)")
  case True
  then show ?thesis
    using pc_delitem_removed [of n e s amt fl] assms by (auto simp: removed_def same_trade_def)
next
  case False
  then have "r \<noteq> 0" using assms(6) by (auto simp: pc_delitem_def split: if_splits)
  then show ?thesis using False pc_delitem_refused [of e s n amt fl] assms(6) by auto
qed

theorem pc_delitem_contract_witness:
  "fst (pc_delitem sample_env (sample_player 1 0) 0 4 0) = 0
   \<and> inv_ok sample_env (snd (pc_delitem sample_env (sample_player 1 0) 0 4 0))"
proof -
  have s: "inventory (sample_player 1 0) ! 0 = potions 10"
    by (simp add: sample_player_def slots_with_facts MAX_INVENTORY_def)
  obtain r t where d: "pc_delitem sample_env (sample_player 1 0) 0 4 0 = (r, t)" by fastforce
  show ?thesis
    using pc_delitem_contract [OF sample_player_inv sample_env_hooks _ _ _ d]
    by (simp add: s d MAX_INVENTORY_def)
qed

end
