(* ===== verification/Mover.thy ===== *)
theory Mover
  imports Items
begin

text \<open>
  The interface between two item containers. Every transfer of the map server
  (inventory to cart, cart to storage, storage to inventory, one player to
  another in a trade) has the same shape: put a copy of a slot's item into the
  destination and, when that succeeded, take the units from the source slot. The
  locale names the two operations and the laws their providers promise; its
  lemmas say what a transfer then guarantees, once for all pairs of containers.
\<close>

locale item_mover =
  fixes ok :: "'s \<Rightarrow> bool"
    and total :: "nat \<Rightarrow> 's \<Rightarrow> int"
    and cap :: nat
    and slot :: "'s \<Rightarrow> nat \<Rightarrow> item"
    and live :: "item \<Rightarrow> bool"
    and put :: "'s \<Rightarrow> nat \<Rightarrow> int \<Rightarrow> bool \<times> 's"
    and take_from :: "'s \<Rightarrow> nat \<Rightarrow> int \<Rightarrow> 's"
  assumes put_accepted:
    "ok s \<Longrightarrow> i < cap \<Longrightarrow> nameid (slot s i) \<noteq> 0 \<Longrightarrow> live (slot s i) \<Longrightarrow> 0 < a \<Longrightarrow>
     a \<le> amount (slot s i) \<Longrightarrow> put s i a = (True, t) \<Longrightarrow>
     ok t \<and> (\<forall>k. total k t = total k s + (if nameid (slot s i) = k then a else 0))
       \<and> nameid (slot t i) = nameid (slot s i) \<and> amount (slot s i) \<le> amount (slot t i)"
  and put_refused:
    "ok s \<Longrightarrow> i < cap \<Longrightarrow> put s i a = (False, t) \<Longrightarrow> ok t \<and> (\<forall>k. total k t = total k s)"
  and take_removes:
    "ok s \<Longrightarrow> i < cap \<Longrightarrow> nameid (slot s i) \<noteq> 0 \<Longrightarrow> 0 < a \<Longrightarrow> a \<le> amount (slot s i) \<Longrightarrow>
     ok (take_from s i a)
       \<and> (\<forall>k. total k (take_from s i a) = total k s - (if nameid (slot s i) = k then a else 0))"
begin

lemma transfer_conserves:
  assumes "ok s" "i < cap" "nameid (slot s i) \<noteq> 0" "live (slot s i)" "0 < a" "a \<le> amount (slot s i)"
    and u: "u = (if fst (put s i a) then take_from (snd (put s i a)) i a else snd (put s i a))"
  shows "ok u \<and> (\<forall>k. total k u = total k s)"
proof -
  obtain b t where p: "put s i a = (b, t)" by fastforce
  show ?thesis
  proof (cases b)
    case True
    with p have "put s i a = (True, t)" by simp
    note acc = put_accepted [OF assms(1-6) this]
    then have "a \<le> amount (slot t i)" using assms(6) by simp
    with acc assms(2,3,5) take_removes [of t i a]
    have "ok (take_from t i a) \<and> (\<forall>k. total k (take_from t i a)
        = total k t - (if nameid (slot s i) = k then a else 0))"
      by simp
    with acc show ?thesis using True p u by simp
  next
    case False
    with p put_refused [OF assms(1,2)] u show ?thesis by auto
  qed
qed

end

end
