(* ===== verification/Cart.thy ===== *)
theory Cart
  imports Inventory Mover
begin

text \<open>
  The cart of map/pc.cpp: adding, removing, and the transfers between the cart
  and the inventory. The fork's reserved items (event "stuff" and costumes) are
  recognised by the character id that their cards encode.
\<close>

section \<open>Reserved items\<close>

definition is_reserved :: "item \<Rightarrow> nat \<Rightarrow> bool" where
  "is_reserved it rid \<longleftrightarrow> card_at it 0 = CARD0_CREATE \<and> MakeDWord (card_at it 2) (card_at it 3) = rid"

definition stuff_blocked :: "battle_config \<Rightarrow> item \<Rightarrow> nat \<Rightarrow> bool" where
  "stuff_blocked bc it opts \<longleftrightarrow>
     is_reserved it (stuff_bg_reserved_id bc) \<and> \<not> bit opts 0
   \<or> is_reserved it (stuff_gvg_reserved_id bc) \<and> \<not> bit opts 1
   \<or> is_reserved it (stuff_pvp_reserved_id bc) \<and> \<not> bit opts 2"

definition BOUND_ACCOUNT :: int where "BOUND_ACCOUNT = 1"
definition BOUND_GUILD :: int where "BOUND_GUILD = 2"

section \<open>Adding to and removing from the cart\<close>

definition same_cart_stack :: "item \<Rightarrow> item \<Rightarrow> bool" where
  "same_cart_stack it x \<longleftrightarrow> nameid x = nameid it \<and> bound x = bound it
     \<and> unique_id x = unique_id it \<and> cards x = cards it"

text \<open>The slot part of \<open>pc_cart_additem\<close>: an error code, or the changed state and the slot.\<close>

definition cart_place :: "sd \<Rightarrow> item \<Rightarrow> item_data \<Rightarrow> int \<Rightarrow> nat + sd \<times> nat" where
  "cart_place s it d amt =
     (let i = (if itemdb_isstackable2 d \<and> expire_time it = 0
               then arr_find (same_cart_stack it) (cart s) else MAX_CART)
      in if i < MAX_CART then
           let cur = cart s ! i
           in if amt > MAX_AMOUNT - amount cur \<or> (stack_cart d \<and> amt > stack_amount d - amount cur)
              then Inl 2
              else Inr (s\<lparr>cart := (cart s)[i := cur\<lparr>amount := amount cur + amt\<rparr>]\<rparr>, i)
         else
           let i = arr_find (\<lambda>x. nameid x = 0) (cart s)
           in if i = MAX_CART then Inl 2
              else Inr (s\<lparr>cart := (cart s)[i := it\<lparr>it_id := 0, amount := s16 amt\<rparr>],
                          cart_num := cart_num s + 1\<rparr>, i))"

definition pc_cart_additem :: "env \<Rightarrow> sd \<Rightarrow> item \<Rightarrow> int \<Rightarrow> nat \<times> sd" where
  "pc_cart_additem e s it amt =
     (if nameid it = 0 \<or> amt \<le> 0 then (1, s)
      else
        let d = search e (nameid it)
        in if stack_cart d \<and> amt > stack_amount d then (1, s)
        else if \<not> itemdb_isrestricted (db e) it (pc_get_group_level s) 0 itemdb_cancartstore_sub
             \<or> (bound it > BOUND_ACCOUNT \<and> \<not> pc_can_give_bounded_items s) then (1, s)
        else if stuff_blocked (bconf e) it (stuff_enable_cart (bconf e)) then (1, s)
        else if is_reserved it (costumeitem_reserved_id (bconf e))
             \<and> \<not> bit (costumeitem_permission (bconf e)) 3 then (1, s)
        else
          let w = id_weight d * amt
          in if w + cart_weight s > cart_weight_max s then (1, s)
          else case cart_place s it d amt of
                 Inl err \<Rightarrow> (err, s)
               | Inr (s, i) \<Rightarrow>
                   (0, s\<lparr>cart := (cart s)[i := (cart s ! i)\<lparr>favorite := 0\<rparr>],
                         cart_weight := cart_weight s + w\<rparr>))"

definition pc_cart_delitem :: "env \<Rightarrow> sd \<Rightarrow> nat \<Rightarrow> int \<Rightarrow> sd" where
  "pc_cart_delitem e s i amt =
     (if nameid (cart s ! i) = 0 \<or> amount (cart s ! i) < amt then s
      else
        let it = (cart s ! i)\<lparr>amount := amount (cart s ! i) - amt\<rparr>;
            s = s\<lparr>cart := (cart s)[i := it],
                  cart_weight := cart_weight s - id_weight (search e (nameid it)) * amt\<rparr>
        in if amount it \<le> 0
           then s\<lparr>cart := (cart s)[i := empty_item], cart_num := cart_num s - 1\<rparr>
           else s)"

section \<open>Transfers between inventory and cart\<close>

definition pc_putitemtocart :: "env \<Rightarrow> sd \<Rightarrow> int \<Rightarrow> int \<Rightarrow> sd" where
  "pc_putitemtocart e s idx amt =
     (if idx < 0 \<or> idx \<ge> int MAX_INVENTORY then s
      else
        let it = inventory s ! nat idx
        in if nameid it = 0 \<or> amt < 1 \<or> amount it < amt \<or> vending s then s
           else case pc_cart_additem e s it amt of
                  (f, s) \<Rightarrow> if f = 0 then snd (pc_delitem e s idx amt 0) else s)"

definition pc_cartitem_amount :: "sd \<Rightarrow> nat \<Rightarrow> int \<Rightarrow> int" where
  "pc_cartitem_amount s i amt =
     (if nameid (cart s ! i) = 0 \<or> amount (cart s ! i) = 0 then -1 else amount (cart s ! i) - amt)"

text \<open>\<open>pc_additem\<close> gets a pointer into the cart; a generated unique id lands in that slot.\<close>

definition set_cart_uid :: "sd \<Rightarrow> nat \<Rightarrow> nat \<Rightarrow> sd" where
  "set_cart_uid s i u = s\<lparr>cart := (cart s)[i := (cart s ! i)\<lparr>unique_id := u\<rparr>]\<rparr>"

definition pc_getitemfromcart :: "env \<Rightarrow> sd \<Rightarrow> int \<Rightarrow> int \<Rightarrow> sd" where
  "pc_getitemfromcart e s idx amt =
     (if idx < 0 \<or> idx \<ge> int MAX_CART then s
      else
        let it = cart s ! nat idx
        in if nameid it = 0 \<or> amt < 1 \<or> amount it < amt \<or> vending s then s
           else case pc_additem e s it amt of
                  (f, s, it') \<Rightarrow>
                    let s = set_cart_uid s (nat idx) (unique_id it')
                    in if f = ADDITEM_SUCCESS then pc_cart_delitem e s (nat idx) amt else s)"

section \<open>Contracts of the cart operations\<close>

text \<open>The fields that cart operations leave alone.\<close>

definition same_inventory :: "sd \<Rightarrow> sd \<Rightarrow> bool" where
  "same_inventory s t \<longleftrightarrow> inventory t = inventory s \<and> inventory_data t = inventory_data s
     \<and> weight t = weight s \<and> stores t = stores s \<and> same_trade s t"

lemma same_inventory_ok: "same_inventory s t \<Longrightarrow> inv_ok e t = inv_ok e s"
  by (simp add: same_inventory_def inv_ok_def)

lemma cart_okD:
  assumes "cart_ok e s"
  shows "length (cart s) = MAX_CART" "slots_ok MAX_CART (cart s)" "cart_num s = taken (cart s)"
    "cart_weight s = total_weight e (cart s)" "i < MAX_CART \<Longrightarrow> slot_ok (cart s ! i)"
  using assms by (auto simp: cart_ok_def slots_ok_def)

definition cart_placed :: "env \<Rightarrow> sd \<Rightarrow> item \<Rightarrow> int \<Rightarrow> sd \<Rightarrow> bool" where
  "cart_placed e s it amt t \<longleftrightarrow> slots_ok MAX_CART (cart t) \<and> cart_num t = taken (cart t)
     \<and> total_weight e (cart t) = total_weight e (cart s) + id_weight (search e (nameid it)) * amt
     \<and> cart_weight t = cart_weight s
     \<and> (\<forall>k. held k (cart t) = held k (cart s) + (if nameid it = k then amt else 0))
     \<and> keeps_slots (cart s) (cart t) \<and> same_inventory s t"

lemma cart_place_placed:
  assumes ok: "cart_ok e s" and nz: "nameid it \<noteq> 0" and a: "0 < amt" "amt \<le> MAX_AMOUNT"
    and p: "cart_place s it d amt = Inr (t, j)"
  shows "cart_placed e s it amt t \<and> j < MAX_CART"
proof -
  note D = cart_okD [OF ok]
  have s16: "s16 amt = amt" using a by (simp add: MAX_AMOUNT_def)
  define i where "i = (if itemdb_isstackable2 d \<and> expire_time it = 0
               then arr_find (same_cart_stack it) (cart s) else MAX_CART)"
  show ?thesis
  proof (cases "i < MAX_CART")
    case True
    let ?c = "cart s ! i"
    have "i = arr_find (same_cart_stack it) (cart s)"
      using True by (auto simp: i_def split: if_splits)
    then have "same_cart_stack it ?c" using True D(1) by (metis arr_find_sat)
    then have it: "nameid ?c = nameid it" by (simp add: same_cart_stack_def)
    have le: "amount ?c + amt \<le> MAX_AMOUNT" and j: "j = i"
      and t: "t = s\<lparr>cart := (cart s)[i := ?c\<lparr>amount := amount ?c + amt\<rparr>]\<rparr>"
      using p True by (auto simp: cart_place_def i_def [symmetric] Let_def split: if_splits)
    have "slot_ok (?c\<lparr>amount := amount ?c + amt\<rparr>)"
      using D(5) [OF True] it nz a le by (simp add: slot_ok_def)
    then show ?thesis
      using D True it nz a unfolding t j cart_placed_def
      by (auto simp: slots_ok_update nth_list_update total_weight_update item_weight_def taken_update
          held_update units_def keeps_slots_def same_inventory_def same_trade_def algebra_simps)
  next
    case False
    define f where "f = arr_find (\<lambda>x. nameid x = 0) (cart s)"
    have fl: "f \<noteq> MAX_CART" and j: "j = f"
      and t: "t = s\<lparr>cart := (cart s)[f := it\<lparr>it_id := 0, amount := amt\<rparr>], cart_num := cart_num s + 1\<rparr>"
      using p False by (auto simp: cart_place_def i_def [symmetric] f_def [symmetric] Let_def s16 split: if_splits)
    have f: "f < length (cart s)"
      using fl D(1) arr_find_le [of "\<lambda>x. nameid x = 0" "cart s"] by (simp add: f_def)
    then have free: "nameid (cart s ! f) = 0"
      unfolding f_def by (rule arr_find_sat)
    then have free': "amount (cart s ! f) = 0"
      using D(5) [of f] D(1) f by (simp add: slot_ok_def)
    show ?thesis
      using D(1-4) f free free' nz a unfolding t j cart_placed_def
      by (auto simp: slots_ok_update slot_ok_def nth_list_update total_weight_update item_weight_def taken_update
          held_update units_def keeps_slots_def same_inventory_def same_trade_def)
  qed
qed

definition cart_added :: "env \<Rightarrow> sd \<Rightarrow> item \<Rightarrow> int \<Rightarrow> sd \<Rightarrow> bool" where
  "cart_added e s it amt t \<longleftrightarrow> cart_ok e t
     \<and> (\<forall>k. holdings k t = holdings k s + (if nameid it = k then amt else 0))
     \<and> keeps_slots (cart s) (cart t) \<and> same_inventory s t"

lemma cart_finish_added:
  assumes pl: "cart_placed e s it amt u" and j: "j < MAX_CART" and ok: "cart_ok e s"
  shows "cart_added e s it amt (u\<lparr>cart := (cart u)[j := (cart u ! j)\<lparr>favorite := 0\<rparr>],
    cart_weight := cart_weight u + id_weight (search e (nameid it)) * amt\<rparr>)"
proof -
  have len: "j < length (cart u)" using pl j by (simp add: cart_placed_def slots_ok_def)
  then have sl: "slot_ok ((cart u ! j)\<lparr>favorite := 0\<rparr>)"
    using pl j by (simp add: cart_placed_def slots_ok_def slot_ok_def)
  have k: "keeps_slots (cart s) ((cart u)[j := (cart u ! j)\<lparr>favorite := 0\<rparr>])"
    using pl len by (auto simp: cart_placed_def keeps_slots_def nth_list_update)
  show ?thesis
    using pl len sl k ok
    by (auto simp: cart_added_def cart_placed_def cart_ok_def slots_ok_update taken_update held_update
        total_weight_update item_weight_def units_def holdings_def same_inventory_def same_trade_def)
qed

lemma pc_cart_additem_cases:
  assumes "pc_cart_additem e s it amt = (f, t)"
  obtains (refused) "f \<noteq> 0" "t = s"
  | (success) u j where "nameid it \<noteq> 0" "0 < amt" "f = 0"
      "cart_place s it (search e (nameid it)) amt = Inr (u, j)"
      "t = u\<lparr>cart := (cart u)[j := (cart u ! j)\<lparr>favorite := 0\<rparr>],
             cart_weight := cart_weight u + id_weight (search e (nameid it)) * amt\<rparr>"
proof -
  have err: "f' \<noteq> 0" if "cart_place s it d amt = Inl f'" for d f'
    using that by (auto simp: cart_place_def Let_def split: if_splits)
  show thesis
  proof (cases "cart_place s it (search e (nameid it)) amt")
    case (Inl f')
    with err [OF Inl] assms have "f \<noteq> 0 \<and> t = s"
      by (auto simp: pc_cart_additem_def Let_def split: if_splits)
    then show thesis using refused by blast
  next
    case (Inr r)
    obtain u j where "r = (u, j)" by fastforce
    with Inr assms refused success show thesis
      by (auto simp: pc_cart_additem_def Let_def split: if_splits)
  qed
qed

lemma pc_cart_additem_added:
  assumes "cart_ok e s" "amt \<le> MAX_AMOUNT" "pc_cart_additem e s it amt = (0, t)"
  shows "cart_added e s it amt t" "nameid it \<noteq> 0" "0 < amt"
proof -
  have "cart_added e s it amt t \<and> nameid it \<noteq> 0 \<and> 0 < amt"
    using assms(3)
  proof (cases rule: pc_cart_additem_cases)
    case (success u j)
    then show ?thesis
      using cart_place_placed [OF assms(1) success(1,2) assms(2) success(4)] cart_finish_added assms(1)
      by blast
  qed auto
  then show "cart_added e s it amt t" "nameid it \<noteq> 0" "0 < amt" by auto
qed

lemma pc_cart_additem_refused: "pc_cart_additem e s it amt = (f, t) \<Longrightarrow> f \<noteq> 0 \<Longrightarrow> t = s"
  by (erule pc_cart_additem_cases) auto

definition cart_removed :: "env \<Rightarrow> sd \<Rightarrow> nat \<Rightarrow> int \<Rightarrow> sd \<Rightarrow> bool" where
  "cart_removed e s i amt t \<longleftrightarrow> cart_ok e t
     \<and> (\<forall>k. holdings k t = holdings k s - (if nameid (cart s ! i) = k then amt else 0))
     \<and> cart t = (cart s)[i := debit (cart s ! i) amt] \<and> same_inventory s t"

lemma pc_cart_delitem_removed:
  assumes ok: "cart_ok e s" and i: "i < MAX_CART" and nz: "nameid (cart s ! i) \<noteq> 0"
    and a: "0 < amt" "amt \<le> amount (cart s ! i)"
  shows "cart_removed e s i amt (pc_cart_delitem e s i amt)"
proof -
  note D = cart_okD [OF ok]
  let ?c = "cart s ! i"
  have len: "i < length (cart s)" using i D(1) by simp
  have sl: "slot_ok (debit ?c amt)"
    using D(5) [OF i] nz a by (auto simp: debit_def slot_ok_def)
  have eq: "pc_cart_delitem e s i amt =
    s\<lparr>cart := (cart s)[i := debit ?c amt],
      cart_weight := cart_weight s - id_weight (search e (nameid ?c)) * amt,
      cart_num := cart_num s - (if amount ?c \<le> amt then 1 else 0)\<rparr>"
    using nz a by (simp add: pc_cart_delitem_def debit_def Let_def)
  show ?thesis
    unfolding eq cart_removed_def
    using D len sl nz a
    by (auto simp: cart_ok_def slots_ok_update taken_update held_update total_weight_update
        item_weight_def units_def holdings_def same_inventory_def same_trade_def debit_def algebra_simps)
qed

section \<open>The transfers as movers\<close>

text \<open>A player whose inventory, cart and storage are all in order.\<close>

definition player_ok :: "env \<Rightarrow> sd \<Rightarrow> bool" where
  "player_ok e s \<longleftrightarrow> hooks_ok e \<and> inv_ok e s \<and> cart_ok e s \<and> stores_ok s"

definition live :: "env \<Rightarrow> item \<Rightarrow> bool" where
  "live e it \<longleftrightarrow> expire_time it = 0 \<or> now e \<le> expire_time it"

lemma player_ok_slot:
  assumes "player_ok e s"
  shows "i < MAX_INVENTORY \<Longrightarrow> slot_ok (inventory s ! i)" "i < MAX_CART \<Longrightarrow> slot_ok (cart s ! i)"
    "length (inventory s) = MAX_INVENTORY" "length (cart s) = MAX_CART"
  using assms by (auto simp: player_ok_def inv_ok_def cart_ok_def storage_ok_def slots_ok_def)

lemma slot_ok_le: "slot_ok it \<Longrightarrow> amount it \<le> MAX_AMOUNT"
  by (auto simp: slot_ok_def MAX_AMOUNT_def split: if_splits)

lemma removed_player_ok: "removed e s i a t \<Longrightarrow> player_ok e s \<Longrightarrow> player_ok e t"
  using same_cart_ok by (auto simp: removed_def player_ok_def same_trade_def)

lemma added_player_ok: "added e s it a t \<Longrightarrow> player_ok e s \<Longrightarrow> player_ok e t"
  using same_cart_ok [of s t e] stores_ok_cong [of t s] by (auto simp: added_def player_ok_def)

lemma cart_added_player_ok: "cart_added e s it a t \<Longrightarrow> player_ok e s \<Longrightarrow> player_ok e t"
  using same_inventory_ok [of s t e] stores_ok_cong [of t s] by (auto simp: cart_added_def player_ok_def same_inventory_def)

lemma cart_removed_player_ok: "cart_removed e s i a t \<Longrightarrow> player_ok e s \<Longrightarrow> player_ok e t"
  using same_inventory_ok [of s t e] stores_ok_cong [of t s] by (auto simp: cart_removed_def player_ok_def same_inventory_def)

text \<open>Whatever \<open>pc_additem\<close> answers, the player stays well formed.\<close>

lemma pc_additem_player_ok:
  assumes "player_ok e s" "live e it" "pc_additem e s it amt = (f, t, it')"
  shows "player_ok e t"
    "holdings k t = holdings k s + (if f = ADDITEM_SUCCESS \<and> nameid it = k then amt else 0)"
    "same_trade s t"
proof -
  have ie: "inv_ok e s" "hooks_ok e" using assms(1) by (simp_all add: player_ok_def)
  have "player_ok e t \<and> same_trade s t
    \<and> holdings k t = holdings k s + (if f = ADDITEM_SUCCESS \<and> nameid it = k then amt else 0)"
  proof (cases "f = ADDITEM_SUCCESS")
    case True
    have ad: "added e s it amt t"
      using pc_additem_added(1) [OF ie assms(2) [unfolded live_def] assms(3) [unfolded True]] .
    then show ?thesis using added_player_ok [OF ad assms(1)] True by (simp add: added_def grows_def)
  next
    case False
    note R = pc_additem_refused [OF ie(2) assms(3) False]
    have "player_ok e t"
      using R(1) same_cart_ok [OF R(4)] stores_ok_cong [OF R(5)] assms(1) by (simp add: player_ok_def)
    then show ?thesis using R(2,3) False by (simp add: grows_def)
  qed
  then show "player_ok e t" "same_trade s t"
    "holdings k t = holdings k s + (if f = ADDITEM_SUCCESS \<and> nameid it = k then amt else 0)"
    by blast+
qed

lemma keeps_slotsD:
  "keeps_slots xs ys \<Longrightarrow> i < length xs \<Longrightarrow> nameid (xs ! i) \<noteq> 0 \<Longrightarrow>
   nameid (ys ! i) = nameid (xs ! i) \<and> amount (xs ! i) \<le> amount (ys ! i)
   \<and> expire_time (ys ! i) = expire_time (xs ! i)"
  by (simp add: keeps_slots_def)

definition put_cart :: "env \<Rightarrow> sd \<Rightarrow> nat \<Rightarrow> int \<Rightarrow> bool \<times> sd" where
  "put_cart e s i a = (case pc_cart_additem e s (inventory s ! i) a of (f, t) \<Rightarrow> (f = 0, t))"

definition take_inventory :: "env \<Rightarrow> nat \<Rightarrow> sd \<Rightarrow> nat \<Rightarrow> int \<Rightarrow> sd" where
  "take_inventory e fl s i a = snd (pc_delitem e s (int i) a fl)"

definition get_cart :: "env \<Rightarrow> sd \<Rightarrow> nat \<Rightarrow> int \<Rightarrow> bool \<times> sd" where
  "get_cart e s i a = (case pc_additem e s (cart s ! i) a of
     (f, t, it) \<Rightarrow> (f = ADDITEM_SUCCESS, set_cart_uid t i (unique_id it)))"

lemma take_inventory_removed:
  assumes "player_ok e s" "i < MAX_INVENTORY" "nameid (inventory s ! i) \<noteq> 0" "0 < a"
    "a \<le> amount (inventory s ! i)"
  shows "player_ok e (take_inventory e fl s i a)"
    "holdings k (take_inventory e fl s i a) = holdings k s - (if nameid (inventory s ! i) = k then a else 0)"
proof -
  have r: "removed e s i a (take_inventory e fl s i a)"
    using assms pc_delitem_removed [of "int i" e s a fl] by (simp add: take_inventory_def player_ok_def)
  show "player_ok e (take_inventory e fl s i a)"
    "holdings k (take_inventory e fl s i a) = holdings k s - (if nameid (inventory s ! i) = k then a else 0)"
    using removed_player_ok [OF r assms(1)] r by (simp_all add: removed_def)
qed

text \<open>Writing a unique id into a cart slot changes neither the invariant nor what is held.\<close>

lemma set_cart_uid_frame:
  assumes "i < length (cart s)"
  shows "cart_ok e (set_cart_uid s i u) = cart_ok e s" "holdings k (set_cart_uid s i u) = holdings k s"
    "same_inventory s (set_cart_uid s i u)" "keeps_slots (cart s) (cart (set_cart_uid s i u))"
    "player_ok e (set_cart_uid s i u) = player_ok e s"
proof -
  let ?c = "(cart s)[i := (cart s ! i)\<lparr>unique_id := u\<rparr>]"
  have sl: "slots_ok n ?c = slots_ok n (cart s)" for n
  proof -
    have "slot_ok ((cart s ! i)\<lparr>unique_id := u\<rparr>) = slot_ok (cart s ! i)" by (simp add: slot_ok_def)
    then have "(\<forall>j < length (cart s). slot_ok (?c ! j)) = (\<forall>j < length (cart s). slot_ok (cart s ! j))"
      using assms by (auto simp: nth_list_update)
    then show ?thesis by (simp add: slots_ok_def all_set_conv_all_nth)
  qed
  show c: "cart_ok e (set_cart_uid s i u) = cart_ok e s"
    using assms by (simp add: cart_ok_def set_cart_uid_def sl taken_update total_weight_update item_weight_def)
  show "holdings k (set_cart_uid s i u) = holdings k s"
    using assms by (simp add: holdings_def set_cart_uid_def held_update units_def)
  show si: "same_inventory s (set_cart_uid s i u)"
    by (simp add: same_inventory_def set_cart_uid_def same_trade_def)
  show "keeps_slots (cart s) (cart (set_cart_uid s i u))"
    using assms by (auto simp: keeps_slots_def set_cart_uid_def nth_list_update)
  show "player_ok e (set_cart_uid s i u) = player_ok e s"
    using c same_inventory_ok [OF si] stores_ok_cong [of "set_cart_uid s i u" s] si
    by (simp add: player_ok_def same_inventory_def)
qed

interpretation inv_to_cart: item_mover "player_ok e" holdings MAX_INVENTORY "\<lambda>s. (!) (inventory s)"
  "\<lambda>it. True" "put_cart e" "take_inventory e 0" for e
proof (unfold_locales, goal_cases)
  case (1 s i a t)
  then have "pc_cart_additem e s (inventory s ! i) a = (0, t)"
    by (auto simp: put_cart_def split: prod.splits)
  then have ca: "cart_added e s (inventory s ! i) a t"
    using 1 player_ok_slot(1) [OF 1(1,2)] slot_ok_le pc_cart_additem_added(1)
    by (metis order_trans player_ok_def)
  then show ?case
    using cart_added_player_ok [OF ca 1(1)] by (simp add: cart_added_def same_inventory_def)
next
  case (2 s i a t)
  then have "t = s" by (auto simp: put_cart_def dest: pc_cart_additem_refused split: prod.splits)
  with 2 show ?case by simp
next
  case (3 s i a)
  then show ?case using take_inventory_removed by simp
qed

interpretation cart_to_inv: item_mover "player_ok e" holdings MAX_CART "\<lambda>s. (!) (cart s)"
  "live e" "get_cart e" "pc_cart_delitem e" for e
proof (unfold_locales, goal_cases)
  case (1 s i a t)
  then obtain t0 it where p: "pc_additem e s (cart s ! i) a = (ADDITEM_SUCCESS, t0, it)"
    and t: "t = set_cart_uid t0 i (unique_id it)"
    by (auto simp: get_cart_def split: prod.splits)
  have ad: "added e s (cart s ! i) a t0"
    using pc_additem_added(1) [OF _ _ _ p] 1 by (simp add: player_ok_def live_def)
  then have c: "cart t0 = cart s" by (simp add: added_def same_cart_def)
  then have len: "i < length (cart t0)" using 1(2) player_ok_slot(4) [OF 1(1)] by simp
  note U = set_cart_uid_frame [OF len, where u = "unique_id it"]
  show ?case
    using U(2,5) ad added_player_ok [OF ad 1(1)] c len
    by (simp add: t added_def) (simp add: set_cart_uid_def)
next
  case (2 s i a t)
  then obtain f t0 it where p: "pc_additem e s (cart s ! i) a = (f, t0, it)" and f: "f \<noteq> ADDITEM_SUCCESS"
    and t: "t = set_cart_uid t0 i (unique_id it)"
    by (auto simp: get_cart_def split: prod.splits)
  have h: "hooks_ok e" using 2(1) by (simp add: player_ok_def)
  note R = pc_additem_refused [OF h p f]
  have len: "i < length (cart t0)" using 2(2) player_ok_slot(4) [OF 2(1)] R(4) by (simp add: same_cart_def)
  note U = set_cart_uid_frame [OF len, where u = "unique_id it"]
  have "player_ok e t0"
    using R(1,4,5) same_cart_ok [OF R(4)] stores_ok_cong [OF R(5)] 2(1) by (simp add: player_ok_def)
  then show ?case using U(2,5) R(2) by (simp add: t)
next
  case (3 s i a)
  then have r: "cart_removed e s i a (pc_cart_delitem e s i a)"
    using pc_cart_delitem_removed by (simp add: player_ok_def)
  show ?case using cart_removed_player_ok [OF r 3(1)] r by (simp add: cart_removed_def)
qed

text \<open>The handlers are these movers behind their guards.\<close>

lemma pc_putitemtocart_eq:
  "pc_putitemtocart e s idx amt =
     (if 0 \<le> idx \<and> nat idx < MAX_INVENTORY \<and> nameid (inventory s ! nat idx) \<noteq> 0 \<and> 0 < amt
         \<and> amt \<le> amount (inventory s ! nat idx) \<and> \<not> vending s
      then if fst (put_cart e s (nat idx) amt)
           then take_inventory e 0 (snd (put_cart e s (nat idx) amt)) (nat idx) amt
           else snd (put_cart e s (nat idx) amt)
      else s)"
  by (auto simp: pc_putitemtocart_def put_cart_def take_inventory_def Let_def split: prod.splits)

lemma pc_getitemfromcart_eq:
  "pc_getitemfromcart e s idx amt =
     (if 0 \<le> idx \<and> nat idx < MAX_CART \<and> nameid (cart s ! nat idx) \<noteq> 0 \<and> 0 < amt
         \<and> amt \<le> amount (cart s ! nat idx) \<and> \<not> vending s
      then if fst (get_cart e s (nat idx) amt)
           then pc_cart_delitem e (snd (get_cart e s (nat idx) amt)) (nat idx) amt
           else snd (get_cart e s (nat idx) amt)
      else s)"
  by (auto simp: pc_getitemfromcart_def get_cart_def Let_def split: prod.splits)

section \<open>What the cart transfers guarantee\<close>

lemma sample_player_ok [simp]: "player_ok sample_env (sample_player a b)"
  by (simp add: player_ok_def sample_player_inv sample_player_cart sample_player_stores)

text \<open>
  C8. Moving items from the inventory to the cart, with any index and amount,
  neither creates nor loses a unit of any item, and keeps inventory and cart
  consistent with their caches, counters and weights.
\<close>

theorem pc_putitemtocart_conserves:
  assumes "player_ok e s"
  shows "player_ok e (pc_putitemtocart e s idx amt)
    \<and> (\<forall>k. holdings k (pc_putitemtocart e s idx amt) = holdings k s)"
  using assms inv_to_cart.transfer_conserves [of e s "nat idx" amt]
  by (simp add: pc_putitemtocart_eq)

theorem pc_putitemtocart_conserves_witness:
  "player_ok sample_env (pc_putitemtocart sample_env (sample_player 1 0) 0 4)"
  using pc_putitemtocart_conserves [of sample_env "sample_player 1 0" 0 4] by simp

text \<open>
  C9. Moving an unexpired item from the cart to the inventory, with any index
  and amount, neither creates nor loses a unit of any item, and keeps inventory
  and cart consistent.
\<close>

theorem pc_getitemfromcart_conserves:
  assumes "player_ok e s" "0 \<le> idx \<Longrightarrow> nat idx < MAX_CART \<Longrightarrow> live e (cart s ! nat idx)"
  shows "player_ok e (pc_getitemfromcart e s idx amt)
    \<and> (\<forall>k. holdings k (pc_getitemfromcart e s idx amt) = holdings k s)"
  using assms cart_to_inv.transfer_conserves [of e s "nat idx" amt]
  by (simp add: pc_getitemfromcart_eq)

theorem pc_getitemfromcart_conserves_witness:
  "player_ok sample_env (pc_getitemfromcart sample_env (sample_player 1 0) 0 2)"
proof -
  have "live sample_env (cart (sample_player 1 0) ! 0)"
    by (simp add: sample_player_def slots_with_facts MAX_CART_def live_def)
  then show ?thesis using pc_getitemfromcart_conserves [of sample_env "sample_player 1 0" 0 2] by simp
qed

end
