(* ===== verification/Quest.thy ===== *)
theory Quest
  imports Cart Sample
begin

text \<open>
  The quest log: map/quest.cpp and its transfer from and to the char server in
  map/intif.cpp. The log of a player is an array whose active and inactive
  entries come first, \<open>avail_quests\<close> of them, and whose completed entries follow.
  Sending the changes to the client is left out, and the char server's side is in
  Quest\_Store. The operations are shown to implement a map from quest ids to quests.
\<close>

section \<open>State\<close>

datatype quest_state = Q_INACTIVE | Q_ACTIVE | Q_COMPLETE

record quest =
  quest_id :: int
  q_time :: int
  q_counts :: "int list"
  q_state :: quest_state

record quest_dropitem =
  qdrop_nameid :: nat
  qdrop_count :: int
  qdrop_rate :: nat
  qdrop_mob :: nat

record quest_db =
  qd_id :: int
  qd_time :: int
  qd_time_type :: bool
  objectives :: "(nat \<times> int) list"
  dropitem :: "quest_dropitem list"

record qlog =
  num_quests :: nat
  avail_quests :: nat
  quest_log :: "quest list"
  save_quest :: bool

definition zero_quest :: quest where
  "zero_quest = \<lparr>quest_id = 0, q_time = 0, q_counts = [0, 0, 0], q_state = Q_INACTIVE\<rparr>"

text \<open>The entry \<open>quest_dummy\<close> for ids without a quest, and the lookup.\<close>

definition quest_dummy :: quest_db where
  "quest_dummy = \<lparr>qd_id = 0, qd_time = 0, qd_time_type = False, objectives = [], dropitem = []\<rparr>"

type_synonym questdb = "int \<Rightarrow> quest_db option"

definition quest_search :: "questdb \<Rightarrow> int \<Rightarrow> quest_db" where
  "quest_search qdb qid = (case qdb qid of None \<Rightarrow> quest_dummy | Some qi \<Rightarrow> qi)"

text \<open>The clock: the time, and the seconds since midnight of the local time.\<close>

record qclock =
  clock_now :: int
  time_today :: int

text \<open>Array operations: a move of \<open>n\<close> entries, and a new size, the tail being unspecified.\<close>

definition memmove :: "'a list \<Rightarrow> nat \<Rightarrow> nat \<Rightarrow> nat \<Rightarrow> 'a list" where
  "memmove xs dst src n = take dst xs @ take n (drop src xs) @ drop (dst + n) xs"

definition recreate :: "nat \<Rightarrow> quest list \<Rightarrow> quest list" where
  "recreate n xs = take n xs @ replicate (n - length xs) zero_quest"

section \<open>Queries\<close>

datatype quest_check_type = HAVEQUEST | PLAYTIME | HUNTING

definition quest_check :: "questdb \<Rightarrow> int \<Rightarrow> qlog \<Rightarrow> int \<Rightarrow> quest_check_type \<Rightarrow> int" where
  "quest_check qdb tnow q qid type =
     (let i = arr_find (\<lambda>x. quest_id x = qid) (take (num_quests q) (quest_log q))
      in if i = num_quests q then -1
         else let x = quest_log q ! i in
         case type of
           HAVEQUEST \<Rightarrow> (case q_state x of Q_INACTIVE \<Rightarrow> 1 | Q_ACTIVE \<Rightarrow> 1 | Q_COMPLETE \<Rightarrow> 2)
         | PLAYTIME \<Rightarrow> (if q_time x < u32 tnow then 2 else if q_state x = Q_COMPLETE then 1 else 0)
         | HUNTING \<Rightarrow>
             if q_state x = Q_INACTIVE \<or> q_state x = Q_ACTIVE then
               let ob = objectives (quest_search qdb (quest_id x))
               in if arr_find (\<lambda>j. q_counts x ! j < snd (ob ! j)) [0..<length ob] = length ob then 2
                  else if q_time x < u32 tnow then 1 else 0
             else 0)"

definition quest_pc_login :: "qlog \<Rightarrow> int" where
  "quest_pc_login q = (if avail_quests q = 0 then 1 else 0)"

section \<open>Changing the log\<close>

definition quest_expiry :: "qclock \<Rightarrow> quest_db \<Rightarrow> int" where
  "quest_expiry c qi =
     (if qd_time qi \<noteq> 0 then
        if \<not> qd_time_type qi then u32 (clock_now c + qd_time qi)
        else if time_today c < qd_time qi then u32 (clock_now c + qd_time qi - time_today c)
        else u32 (clock_now c + 86400 + qd_time qi - time_today c)
      else 0)"

definition new_quest :: "qclock \<Rightarrow> quest_db \<Rightarrow> quest" where
  "new_quest c qi = zero_quest\<lparr>quest_id := qd_id qi, q_time := quest_expiry c qi, q_state := Q_ACTIVE\<rparr>"

definition quest_add :: "questdb \<Rightarrow> qclock \<Rightarrow> qlog \<Rightarrow> int \<Rightarrow> int \<times> qlog" where
  "quest_add qdb c q qid =
     (case qdb qid of None \<Rightarrow> (-1, q) | Some qi \<Rightarrow>
        if quest_check qdb (clock_now c) q qid HAVEQUEST \<ge> 0 then (-1, q)
        else
          let n = avail_quests q;
              num = num_quests q + 1;
              avail = avail_quests q + 1;
              xs = recreate num (quest_log q);
              xs = (if avail \<noteq> num then memmove xs (n + 1) n (num - avail) else xs)
          in (0, \<lparr>num_quests = num, avail_quests = avail, quest_log = xs[n := new_quest c qi], save_quest = True\<rparr>))"

definition quest_change :: "questdb \<Rightarrow> qclock \<Rightarrow> qlog \<Rightarrow> int \<Rightarrow> int \<Rightarrow> int \<times> qlog" where
  "quest_change qdb c q qid1 qid2 =
     (case qdb qid2 of None \<Rightarrow> (-1, q) | Some qi \<Rightarrow>
        if quest_check qdb (clock_now c) q qid2 HAVEQUEST \<ge> 0 then (-1, q)
        else if quest_check qdb (clock_now c) q qid1 HAVEQUEST < 0 then (-1, q)
        else
          let i = arr_find (\<lambda>x. quest_id x = qid1) (take (avail_quests q) (quest_log q))
          in if i = avail_quests q then (-1, q)
             else (0, q\<lparr>quest_log := (quest_log q)[i := new_quest c qi], save_quest := True\<rparr>))"

definition quest_delete :: "qlog \<Rightarrow> int \<Rightarrow> int \<times> qlog" where
  "quest_delete q qid =
     (let i = arr_find (\<lambda>x. quest_id x = qid) (take (num_quests q) (quest_log q))
      in if i = num_quests q then (-1, q)
         else
           let avail = (if q_state (quest_log q ! i) \<noteq> Q_COMPLETE then avail_quests q - 1 else avail_quests q);
               num = num_quests q - 1;
               xs = (if i < num then memmove (quest_log q) i (i + 1) (num - i) else quest_log q);
               xs = (if num = 0 then [] else recreate num xs)
           in (0, \<lparr>num_quests = num, avail_quests = avail, quest_log = xs, save_quest = True\<rparr>))"

definition quest_update_status :: "qlog \<Rightarrow> int \<Rightarrow> quest_state \<Rightarrow> int \<times> qlog" where
  "quest_update_status q qid status =
     (let i = arr_find (\<lambda>x. quest_id x = qid) (take (avail_quests q) (quest_log q))
      in if i = avail_quests q then (-1, q)
         else
           let xs = (quest_log q)[i := (quest_log q ! i)\<lparr>q_state := status\<rparr>];
               q = q\<lparr>quest_log := xs, save_quest := True\<rparr>
           in if status \<noteq> Q_COMPLETE then (0, q)
              else
                let avail = avail_quests q - 1;
                    xs = (if i < avail then xs[i := xs ! avail, avail := xs ! i] else xs)
                in (0, q\<lparr>avail_quests := avail, quest_log := xs\<rparr>))"

section \<open>Kills\<close>

definition count_kill :: "nat \<Rightarrow> (nat \<times> int) list \<Rightarrow> nat \<Rightarrow> int list \<Rightarrow> int list" where
  "count_kill mob ob j cs = (if fst (ob ! j) = mob \<and> cs ! j < snd (ob ! j) then cs[j := cs ! j + 1] else cs)"

definition itemdb_isidentified :: "env \<Rightarrow> nat \<Rightarrow> int" where
  "itemdb_isidentified e n =
     (case id_type (search e n) of
        IT_WEAPON \<Rightarrow> 0 | IT_ARMOR \<Rightarrow> 0 | IT_PETARMOR \<Rightarrow> 0 | IT_SHADOWGEAR \<Rightarrow> 0 | _ \<Rightarrow> 1)"

text \<open>
  Extra drops of a quest: \<open>rnd\<close> is the sequence of random numbers, of which \<open>k\<close>
  are used. One unit is added whatever the entry's count says.
\<close>

fun quest_drops :: "env \<Rightarrow> (nat \<Rightarrow> nat) \<Rightarrow> nat \<Rightarrow> quest_dropitem list \<Rightarrow> nat \<times> sd \<Rightarrow> nat \<times> sd" where
  "quest_drops e rnd mob [] ks = ks"
| "quest_drops e rnd mob (d # ds) (k, s) =
     (if qdrop_mob d \<noteq> 0 \<and> qdrop_mob d \<noteq> mob then quest_drops e rnd mob ds (k, s)
      else if qdrop_rate d < 10000 \<and> rnd k mod 10000 \<ge> qdrop_rate d then quest_drops e rnd mob ds (k + 1, s)
      else
        let k = (if qdrop_rate d < 10000 then k + 1 else k)
        in if db e (qdrop_nameid d) = None then quest_drops e rnd mob ds (k, s)
           else
             let it = empty_item\<lparr>nameid := qdrop_nameid d, identify := itemdb_isidentified e (qdrop_nameid d),
                        amount := qdrop_count d\<rparr>
             in quest_drops e rnd mob ds (k, fst (snd (pc_additem e s it 1))))"

text \<open>The loop over the log: \<open>n\<close> entries from \<open>i\<close> on.\<close>

fun quest_kills :: "env \<Rightarrow> questdb \<Rightarrow> (nat \<Rightarrow> nat) \<Rightarrow> nat \<Rightarrow> nat \<Rightarrow> nat \<Rightarrow> nat \<times> sd \<Rightarrow> qlog \<Rightarrow> (nat \<times> sd) \<times> qlog" where
  "quest_kills e qdb rnd mob 0 i ks q = (ks, q)"
| "quest_kills e qdb rnd mob (Suc n) i ks q =
     (let x = quest_log q ! i
      in if q_state x = Q_COMPLETE then quest_kills e qdb rnd mob n (i + 1) ks q
         else
           let qi = quest_search qdb (quest_id x);
               cs = fold (count_kill mob (objectives qi)) [0..<length (objectives qi)] (q_counts x);
               q = q\<lparr>quest_log := (quest_log q)[i := x\<lparr>q_counts := cs\<rparr>], save_quest := save_quest q \<or> cs \<noteq> q_counts x\<rparr>
           in quest_kills e qdb rnd mob n (i + 1) (quest_drops e rnd mob (dropitem qi) ks) q)"

definition quest_update_objective ::
    "env \<Rightarrow> questdb \<Rightarrow> (nat \<Rightarrow> nat) \<Rightarrow> nat \<Rightarrow> nat \<times> sd \<Rightarrow> qlog \<Rightarrow> (nat \<times> sd) \<times> qlog" where
  "quest_update_objective e qdb rnd mob ks q = quest_kills e qdb rnd mob (avail_quests q) 0 ks q"

text \<open>The members of a party near the kill: \<open>pid\<close> is the party of the player.\<close>

definition quest_update_objective_sub ::
    "env \<Rightarrow> questdb \<Rightarrow> (nat \<Rightarrow> nat) \<Rightarrow> int \<Rightarrow> int \<Rightarrow> nat \<Rightarrow> nat \<times> sd \<Rightarrow> qlog \<Rightarrow> int \<times> (nat \<times> sd) \<times> qlog" where
  "quest_update_objective_sub e qdb rnd pid party mob ks q =
     (if avail_quests q = 0 then (0, ks, q)
      else if pid \<noteq> party then (0, ks, q)
      else (1, quest_update_objective e qdb rnd mob ks q))"

section \<open>Reloading the database\<close>

text \<open>The loop that drops entries without a quest closes the gaps they leave.\<close>

definition quest_reload_check_sub :: "questdb \<Rightarrow> qlog \<Rightarrow> qlog" where
  "quest_reload_check_sub qdb q =
     (case close_gaps (\<lambda>x. qdb (quest_id x) \<noteq> None) (num_quests q) 0 0 (quest_log q) of (j, xs) \<Rightarrow>
        q\<lparr>num_quests := j, quest_log := xs,
          avail_quests := arr_find (\<lambda>x. q_state x = Q_COMPLETE) (take j xs)\<rparr>)"

section \<open>Loading and saving\<close>

text \<open>The log as it is sent to the char server.\<close>

definition intif_quest_save :: "qlog \<Rightarrow> quest list" where
  "intif_quest_save q = take (num_quests q) (quest_log q)"

text \<open>
  The logs of the online players are filed under their account ids, but the answer
  names a character, and its id is looked up as if it were an account id.
\<close>

definition intif_parse_questsave :: "int \<Rightarrow> bool \<Rightarrow> (int \<rightharpoonup> qlog) \<Rightarrow> (int \<rightharpoonup> qlog)" where
  "intif_parse_questsave cid ok logs =
     (case logs cid of
        None \<Rightarrow> logs
      | Some q \<Rightarrow> if ok then logs(cid \<mapsto> q\<lparr>save_quest := False\<rparr>) else logs)"

text \<open>
  The received entries are filed from both ends of the array: \<open>avail\<close> from the
  front, \<open>k\<close> from the end; \<open>num\<close> counts both. Entries without a quest are skipped.
\<close>

fun quest_file :: "questdb \<Rightarrow> quest list \<Rightarrow> nat \<times> nat \<times> nat \<times> quest list \<Rightarrow> nat \<times> nat \<times> nat \<times> quest list" where
  "quest_file qdb [] st = st"
| "quest_file qdb (x # rs) (avail, k, num, xs) =
     (if qdb (quest_id x) = None then quest_file qdb rs (avail, k, num, xs)
      else if q_state x \<noteq> Q_COMPLETE then quest_file qdb rs (avail + 1, k, num + 1, xs[avail := x])
      else quest_file qdb rs (avail, k - 1, num + 1, xs[k - 1 := x]))"

text \<open>\<open>mem\<close> is what the array holds after its allocation.\<close>

definition intif_parse_questlog :: "questdb \<Rightarrow> quest list \<Rightarrow> quest list \<Rightarrow> qlog \<Rightarrow> qlog" where
  "intif_parse_questlog qdb received mem q =
     (if received = [] then q\<lparr>num_quests := 0, avail_quests := 0, quest_log := []\<rparr>
      else case quest_file qdb received (0, length received, 0, mem) of (avail, k, num, xs) \<Rightarrow>
        let xs = (if avail < k then
                    recreate num (if k < length received
                      then memmove xs k avail (length received - k) else xs)
                  else xs)
        in q\<lparr>num_quests := num, avail_quests := avail, quest_log := xs\<rparr>)"

section \<open>Well-formed logs\<close>

text \<open>
  A log in order: the open entries \<open>A\<close>, then the completed ones \<open>B\<close>, then
  memory that is not in use; no quest occurs twice.
\<close>

definition qlog_parts :: "qlog \<Rightarrow> quest list \<Rightarrow> quest list \<Rightarrow> quest list \<Rightarrow> bool" where
  "qlog_parts q A B r \<longleftrightarrow> quest_log q = A @ B @ r \<and> avail_quests q = length A
     \<and> num_quests q = length A + length B
     \<and> (\<forall>x \<in> set A. q_state x \<noteq> Q_COMPLETE) \<and> (\<forall>x \<in> set B. q_state x = Q_COMPLETE)
     \<and> distinct (map quest_id (A @ B))"

definition quest_ok :: "qlog \<Rightarrow> bool" where
  "quest_ok q \<longleftrightarrow> (\<exists>A B r. qlog_parts q A B r)"

text \<open>The map from ids to quests that a log stands for.\<close>

definition qmap :: "quest list \<Rightarrow> int \<rightharpoonup> quest" where
  "qmap xs = map_of (map (\<lambda>x. (quest_id x, x)) xs)"

definition quest_abs :: "qlog \<Rightarrow> int \<rightharpoonup> quest" where
  "quest_abs q = qmap (take (num_quests q) (quest_log q))"

definition db_ok :: "questdb \<Rightarrow> bool" where
  "db_ok qdb \<longleftrightarrow> (\<forall>k qi. qdb k = Some qi \<longrightarrow> qd_id qi = k)"

lemma qmap_Some: "distinct (map quest_id xs) \<Longrightarrow> qmap xs k = Some x \<longleftrightarrow> x \<in> set xs \<and> quest_id x = k"
  unfolding qmap_def by (subst map_of_eq_Some_iff) (auto simp: comp_def)

lemma qmap_None: "qmap xs k = None \<longleftrightarrow> k \<notin> quest_id ` set xs"
  by (simp add: qmap_def map_of_eq_None_iff image_image)

lemma map_eqI: "(\<And>k x. m k = Some x \<longleftrightarrow> m' k = Some x) \<Longrightarrow> m = m'"
  by (rule ext) (metis option.exhaust)

lemma qmap_insert:
  assumes "distinct (map quest_id (A @ B))" "quest_id x \<notin> quest_id ` set (A @ B)"
  shows "qmap (A @ x # B) = (qmap (A @ B))(quest_id x \<mapsto> x)"
proof (rule map_eqI)
  fix k y
  have d: "distinct (map quest_id (A @ x # B))" using assms by auto
  show "qmap (A @ x # B) k = Some y \<longleftrightarrow> ((qmap (A @ B))(quest_id x \<mapsto> x)) k = Some y"
  proof (cases "k = quest_id x")
    case True
    then show ?thesis using qmap_Some [OF d, of k x] by auto
  next
    case False
    then show ?thesis using qmap_Some [OF d, of k y] qmap_Some [OF assms(1), of k y] by auto
  qed
qed

lemma qmap_remove:
  assumes "distinct (map quest_id (A @ x # B))"
  shows "qmap (A @ B) = (qmap (A @ x # B))(quest_id x := None)"
proof (rule map_eqI)
  have "distinct (map quest_id (A @ B))" using assms by auto
  then show "qmap (A @ B) k = Some y \<longleftrightarrow> ((qmap (A @ x # B))(quest_id x := None)) k = Some y" for k y
    using assms by (auto simp: qmap_Some image_iff)
qed

lemma qmap_replace:
  assumes "distinct (map quest_id (A @ x # B))" "quest_id y = quest_id x"
  shows "qmap (A @ y # B) = (qmap (A @ x # B))(quest_id x \<mapsto> y)"
proof -
  have "distinct (map quest_id (A @ B))" "quest_id y \<notin> quest_id ` set (A @ B)" using assms by auto
  then show ?thesis using qmap_insert [of A B y] qmap_remove [OF assms(1)] assms(2) by simp
qed

lemma distinct_ids_mset:
  assumes "mset xs = mset ys"
  shows "distinct (map quest_id xs) \<longleftrightarrow> distinct (map quest_id ys)"
  by (rule mset_eq_imp_distinct_iff) (simp add: assms)

lemma qmap_mset:
  assumes "distinct (map quest_id xs)" "mset ys = mset xs"
  shows "qmap ys = qmap xs"
proof (rule map_eqI)
  have "distinct (map quest_id ys)" using assms(1) distinct_ids_mset [OF assms(2)] by blast
  then show "qmap ys k = Some x \<longleftrightarrow> qmap xs k = Some x" for k x
    using assms qmap_Some mset_eq_setD [OF assms(2)] by simp
qed

lemma qlog_partsD:
  assumes "qlog_parts q A B r"
  shows "take (num_quests q) (quest_log q) = A @ B" "take (avail_quests q) (quest_log q) = A"
    "quest_abs q = qmap (A @ B)" "distinct (map quest_id (A @ B))"
    "quest_log q = A @ B @ r" "avail_quests q = length A" "num_quests q = length A + length B"
  using assms by (simp_all add: qlog_parts_def quest_abs_def)

lemma quest_okI: "qlog_parts q A B r \<Longrightarrow> quest_ok q"
  by (auto simp: quest_ok_def)

lemma quest_check_have:
  assumes "qlog_parts q A B r"
  shows "quest_check qdb tn q qid HAVEQUEST \<ge> 0 \<longleftrightarrow> quest_abs q qid \<noteq> None"
proof -
  note D = qlog_partsD [OF assms]
  have n: "arr_find (\<lambda>x. quest_id x = qid) (A @ B) = num_quests q \<longleftrightarrow> qid \<notin> quest_id ` set (A @ B)"
    using arr_find_none [of "\<lambda>x. quest_id x = qid" "A @ B"] D(7) by auto
  show ?thesis
    unfolding quest_check_def D(1,3) qmap_None n Let_def
    by (simp split: quest_state.split)
qed

lemma memmove_insert: "memmove (A @ B @ [z]) (Suc (length A)) (length A) (length B) = A @ [hd (B @ [z])] @ B"
proof -
  have "take (Suc (length A)) (A @ B @ [z]) = A @ [hd (B @ [z])]" by (cases B) simp_all
  then show ?thesis by (simp add: memmove_def)
qed

section \<open>Each operation on the map\<close>

lemma new_quest_sel [simp]:
  "quest_id (new_quest c qi) = qd_id qi" "q_state (new_quest c qi) = Q_ACTIVE"
  by (simp_all add: new_quest_def)

lemma quest_add_refines:
  assumes q: "qlog_parts q A B r" and db: "db_ok qdb"
  shows "quest_ok (snd (quest_add qdb c q qid)) \<and> quest_abs (snd (quest_add qdb c q qid)) =
    (case qdb qid of Some qi \<Rightarrow> if quest_abs q qid = None then (quest_abs q)(qid \<mapsto> new_quest c qi) else quest_abs q
     | None \<Rightarrow> quest_abs q)"
proof (cases "qdb qid")
  case None
  then show ?thesis using q by (auto simp: quest_add_def quest_ok_def)
next
  case (Some qi)
  note D = qlog_partsD [OF q]
  show ?thesis
  proof (cases "quest_abs q qid = None")
    case False
    then show ?thesis using q Some quest_check_have [OF q] by (auto simp: quest_add_def quest_ok_def)
  next
    case True
    then have nid: "qd_id qi \<notin> quest_id ` set (A @ B)" and id: "qd_id qi = qid"
      using db Some D(3) qmap_None [of "A @ B"] by (auto simp: db_ok_def)
    let ?n = "new_quest c qi"
    obtain z where z: "recreate (num_quests q + 1) (quest_log q) = A @ B @ [z]"
      using D(5,7) by (cases r) (simp_all add: recreate_def)
    have len: "length [hd (B @ [z])] = 1" by simp
    have "snd (quest_add qdb c q qid) =
      \<lparr>num_quests = num_quests q + 1, avail_quests = avail_quests q + 1, quest_log = A @ ?n # B, save_quest = True\<rparr>"
    proof (cases "B = []")
      case True
      then show ?thesis
        using Some \<open>quest_abs q qid = None\<close> quest_check_have [OF q] D(6,7) z
        by (simp add: quest_add_def Let_def)
    next
      case False
      have "memmove (A @ B @ [z]) (avail_quests q + 1) (avail_quests q) (num_quests q + 1 - (avail_quests q + 1))
          = A @ [hd (B @ [z])] @ B"
        using memmove_insert [of A B z] D(6,7) by simp
      then show ?thesis
        using Some \<open>quest_abs q qid = None\<close> quest_check_have [OF q] D(6,7) z False
        by (simp add: quest_add_def Let_def list_update_append)
    qed
    moreover have "qlog_parts \<lparr>num_quests = num_quests q + 1, avail_quests = avail_quests q + 1,
        quest_log = A @ ?n # B, save_quest = True\<rparr> (A @ [?n]) B []"
      using q nid D(6,7) by (auto simp: qlog_parts_def)
    moreover have "qmap (A @ ?n # B) = (quest_abs q)(qid \<mapsto> ?n)"
      using qmap_insert [of A B ?n] D(3,4) nid id by simp
    ultimately show ?thesis using Some True D(6,7) by (auto simp: quest_ok_def quest_abs_def)
  qed
qed

lemma quest_find:
  assumes "qid \<in> quest_id ` set xs"
  obtains xs1 x xs2 where "xs = xs1 @ x # xs2" "quest_id x = qid" "arr_find (\<lambda>x. quest_id x = qid) xs = length xs1"
proof -
  let ?i = "arr_find (\<lambda>x. quest_id x = qid) xs"
  have i: "?i < length xs" using assms arr_find_lt [of "\<lambda>x. quest_id x = qid" xs] by blast
  then have "xs = take ?i xs @ xs ! ?i # drop (Suc ?i) xs" by (rule id_take_nth_drop)
  moreover have "quest_id (xs ! ?i) = qid" using arr_find_sat [OF i] .
  ultimately show thesis using that i by simp
qed

lemma quest_change_refines:
  assumes q: "qlog_parts q A B r" and db: "db_ok qdb"
  shows "quest_ok (snd (quest_change qdb c q qid1 qid2)) \<and> quest_abs (snd (quest_change qdb c q qid1 qid2)) =
    (case (qdb qid2, quest_abs q qid1) of
       (Some qi, Some x) \<Rightarrow> if quest_abs q qid2 = None \<and> q_state x \<noteq> Q_COMPLETE
         then (quest_abs q)(qid1 := None, qid2 \<mapsto> new_quest c qi) else quest_abs q
     | _ \<Rightarrow> quest_abs q)"
proof -
  note D = qlog_partsD [OF q]
  have ok: "quest_ok q" using q by (auto simp: quest_ok_def)
  show ?thesis
  proof (cases "\<exists>qi x. qdb qid2 = Some qi \<and> quest_abs q qid1 = Some x \<and> quest_abs q qid2 = None \<and> q_state x \<noteq> Q_COMPLETE")
    case False
    have "snd (quest_change qdb c q qid1 qid2) = q"
    proof (cases "qid1 \<in> quest_id ` set A")
      case True
      then obtain x where x: "x \<in> set A" "quest_id x = qid1" by auto
      then have "quest_abs q qid1 = Some x" "q_state x \<noteq> Q_COMPLETE"
        using D(3,4) q by (auto simp: qmap_Some qlog_parts_def)
      then show ?thesis using False quest_check_have [OF q]
        by (auto simp: quest_change_def split: option.split)
    next
      case no: False
      then have "arr_find (\<lambda>x. quest_id x = qid1) A = avail_quests q"
        using arr_find_none [of "\<lambda>x. quest_id x = qid1" A] D(6) by auto
      then show ?thesis using D(2) by (simp add: quest_change_def split: option.split)
    qed
    then show ?thesis using False ok by (auto split: option.split)
  next
    case True
    then obtain qi x where Q: "qdb qid2 = Some qi" "quest_abs q qid1 = Some x" "quest_abs q qid2 = None"
      "q_state x \<noteq> Q_COMPLETE" by blast
    have x: "x \<in> set A" "quest_id x = qid1" using Q(2,4) D(3,4) q by (auto simp: qmap_Some qlog_parts_def)
    then have "qid1 \<in> quest_id ` set A" by auto
    then obtain A1 y A2 where A: "A = A1 @ y # A2" "quest_id y = qid1" "arr_find (\<lambda>x. quest_id x = qid1) A = length A1"
      by (rule quest_find)
    let ?n = "new_quest c qi"
    have id: "qd_id qi = qid2" using db Q(1) by (simp add: db_ok_def)
    have nid: "qid2 \<notin> quest_id ` set (A @ B)" using Q(3) D(3) qmap_None [of "A @ B"] by simp
    have new: "snd (quest_change qdb c q qid1 qid2) = q\<lparr>quest_log := A1 @ ?n # A2 @ B @ r, save_quest := True\<rparr>"
      using Q quest_check_have [OF q, of qdb "clock_now c" qid1] quest_check_have [OF q, of qdb "clock_now c" qid2]
        D(2,5,6) A(1,3) by (simp add: quest_change_def Let_def not_less [symmetric])
    have "qlog_parts (q\<lparr>quest_log := A1 @ ?n # A2 @ B @ r, save_quest := True\<rparr>) (A1 @ ?n # A2) B r"
      using q nid id A by (auto simp: qlog_parts_def)
    moreover have "qmap (A1 @ ?n # A2 @ B) = (quest_abs q)(qid1 := None, qid2 \<mapsto> ?n)"
      using qmap_insert [of A1 "A2 @ B" ?n] qmap_remove [of A1 y "A2 @ B"] D(3,4) nid id A by auto
    ultimately show ?thesis using new Q D(7) A(1) by (auto simp: quest_ok_def quest_abs_def)
  qed
qed

lemma quest_delete_refines:
  assumes q: "qlog_parts q A B r"
  shows "quest_ok (snd (quest_delete q qid)) \<and> quest_abs (snd (quest_delete q qid)) = (quest_abs q)(qid := None)"
proof -
  note D = qlog_partsD [OF q]
  let ?L = "A @ B"
  show ?thesis
  proof (cases "qid \<in> quest_id ` set ?L")
    case False
    then have "arr_find (\<lambda>x. quest_id x = qid) ?L = num_quests q"
      using arr_find_none [of "\<lambda>x. quest_id x = qid" ?L] D(7) by auto
    then have "snd (quest_delete q qid) = q" unfolding quest_delete_def D(1) by simp
    moreover have "quest_abs q qid = None" using False D(3) qmap_None by simp
    ultimately show ?thesis using q by (auto simp: quest_ok_def fun_upd_idem)
  next
    case True
    then obtain L1 x L2 where L: "?L = L1 @ x # L2" "quest_id x = qid" "arr_find (\<lambda>x. quest_id x = qid) ?L = length L1"
      by (rule quest_find)
    have log: "quest_log q = L1 @ x # L2 @ r" using D(5) L(1) by (metis append.assoc append_Cons)
    have n: "num_quests q = Suc (length L1 + length L2)" using D(7) arg_cong [OF L(1), of length] by simp
    have xs: "(if num_quests q - 1 = 0 then [] else recreate (num_quests q - 1)
        (if length L1 < num_quests q - 1 then memmove (quest_log q) (length L1) (length L1 + 1) (num_quests q - 1 - length L1)
         else quest_log q)) = L1 @ L2"
      unfolding log n by (cases L2) (simp_all add: recreate_def memmove_def)
    let ?avail = "if q_state x \<noteq> Q_COMPLETE then avail_quests q - 1 else avail_quests q"
    have new: "snd (quest_delete q qid) = \<lparr>num_quests = num_quests q - 1, avail_quests = ?avail,
        quest_log = L1 @ L2, save_quest = True\<rparr>"
      unfolding quest_delete_def D(1) L(3) Let_def using n xs by (simp add: log)
    have abs: "qmap (L1 @ L2) = (quest_abs q)(qid := None)"
      using qmap_remove [of L1 x L2] D(3,4) L(1,2) by simp
    have "\<exists>A' B'. qlog_parts (snd (quest_delete q qid)) A' B' []"
    proof (cases "length L1 < length A")
      case True
      define m where "m = length A - Suc (length L1)"
      have lA: "length A = length L1 + Suc m" using True by (simp add: m_def)
      have "A = L1 @ x # take m L2" using arg_cong [OF L(1), of "take (length A)"] by (simp add: lA)
      moreover have "B = drop m L2" using arg_cong [OF L(1), of "drop (length A)"] by (simp add: lA)
      ultimately have "qlog_parts (snd (quest_delete q qid)) (L1 @ take m L2) (drop m L2) []"
        using q n D(6) unfolding new by (auto simp: qlog_parts_def)
      then show ?thesis by blast
    next
      case False
      define M where "M = drop (length A) L1"
      have "L1 = A @ M" using arg_cong [OF L(1), of "take (length A)"] False
        by (simp add: M_def) (metis append_take_drop_id)
      moreover from this have "B = M @ x # L2" using L(1) by simp
      ultimately have "qlog_parts (snd (quest_delete q qid)) A (M @ L2) []"
        using q n D(6) unfolding new by (auto simp: qlog_parts_def)
      then show ?thesis by blast
    qed
    then have "quest_ok (snd (quest_delete q qid))" using quest_okI by (elim exE)
    then show ?thesis using abs n new by (simp add: quest_abs_def)
  qed
qed

lemma quest_update_status_refines:
  assumes q: "qlog_parts q A B r"
  shows "quest_ok (snd (quest_update_status q qid st)) \<and> quest_abs (snd (quest_update_status q qid st)) =
    (case quest_abs q qid of Some x \<Rightarrow> if q_state x \<noteq> Q_COMPLETE then (quest_abs q)(qid \<mapsto> x\<lparr>q_state := st\<rparr>)
       else quest_abs q | None \<Rightarrow> quest_abs q)"
proof -
  note D = qlog_partsD [OF q]
  show ?thesis
  proof (cases "qid \<in> quest_id ` set A")
    case False
    then have "snd (quest_update_status q qid st) = q"
      using arr_find_none [of "\<lambda>x. quest_id x = qid" A] D(2,6) by (auto simp: quest_update_status_def)
    moreover have "quest_abs q qid = Some x \<Longrightarrow> q_state x = Q_COMPLETE" for x
      using False D(3,4) q by (auto simp: qmap_Some qlog_parts_def)
    ultimately show ?thesis using quest_okI [OF q] by (auto split: option.split)
  next
    case True
    then obtain A1 x A2 where A: "A = A1 @ x # A2" "quest_id x = qid" "arr_find (\<lambda>x. quest_id x = qid) A = length A1"
      by (rule quest_find)
    let ?y = "x\<lparr>q_state := st\<rparr>"
    have x: "quest_abs q qid = Some x" "q_state x \<noteq> Q_COMPLETE"
      using A(1,2) D(3,4) q by (auto simp: qmap_Some qlog_parts_def)
    have abs: "qmap (A1 @ ?y # A2 @ B) = (quest_abs q)(qid \<mapsto> ?y)"
      using qmap_replace [of A1 x "A2 @ B" ?y] D(3,4) A(1,2) by simp
    have up: "(quest_log q)[length A1 := ?y] = A1 @ ?y # A2 @ B @ r" "quest_log q ! length A1 = x"
      using D(5) A(1) by simp_all
    let ?r = "snd (quest_update_status q qid st)"
    consider "st \<noteq> Q_COMPLETE" | "st = Q_COMPLETE" "A2 = []" | M z where "st = Q_COMPLETE" "A2 = M @ [z]"
      by (metis rev_exhaust)
    then show ?thesis
    proof cases
      case 1
      then have r: "?r = q\<lparr>quest_log := A1 @ ?y # A2 @ B @ r, save_quest := True\<rparr>"
        using A D(2,6) up by (simp add: quest_update_status_def Let_def)
      have "qlog_parts ?r (A1 @ ?y # A2) B r" using q A(1) 1 unfolding r by (auto simp: qlog_parts_def)
      from qlog_partsD(3) [OF this] quest_okI [OF this] show ?thesis using abs x by simp
    next
      case 2
      then have r: "?r = q\<lparr>avail_quests := length A1, quest_log := A1 @ ?y # B @ r, save_quest := True\<rparr>"
        using A D(2,6) up by (simp add: quest_update_status_def Let_def)
      have "qlog_parts ?r A1 (?y # B) r" using q A(1) 2 unfolding r by (auto simp: qlog_parts_def)
      from qlog_partsD(3) [OF this] quest_okI [OF this] show ?thesis using abs x 2 by simp
    next
      case 3
      then have sw: "(A1 @ ?y # A2 @ B @ r)[length A1 := (A1 @ ?y # A2 @ B @ r) ! (length A - 1),
          length A - 1 := (A1 @ ?y # A2 @ B @ r) ! length A1] = A1 @ z # M @ ?y # B @ r"
        using A(1) by (simp add: nth_append list_update_append)
      then have r: "?r = q\<lparr>avail_quests := length A - 1, quest_log := A1 @ z # M @ ?y # B @ r, save_quest := True\<rparr>"
        using A D(2,6) up 3 by (simp add: quest_update_status_def Let_def)
      have "qlog_parts ?r (A1 @ z # M) (?y # B) r" using q A(1) 3 unfolding r by (auto simp: qlog_parts_def)
      note p = qlog_partsD(3) [OF this] quest_okI [OF this]
      have "qmap (A1 @ z # M @ ?y # B) = qmap (A1 @ ?y # A2 @ B)"
        by (rule qmap_mset) (use D(4) A(1) 3 in auto)
      then show ?thesis using p abs x by simp
    qed
  qed
qed

text \<open>The count of a kill over the entries.\<close>

definition quest_kill :: "questdb \<Rightarrow> nat \<Rightarrow> quest \<Rightarrow> quest" where
  "quest_kill qdb mob x =
     (if q_state x = Q_COMPLETE then x
      else let ob = objectives (quest_search qdb (quest_id x))
           in x\<lparr>q_counts := fold (count_kill mob ob) [0..<length ob] (q_counts x)\<rparr>)"

lemma quest_kill_sel [simp]:
  "quest_id (quest_kill qdb mob x) = quest_id x" "q_state (quest_kill qdb mob x) = q_state x"
  by (simp_all add: quest_kill_def Let_def)

lemma qmap_kill: "qmap (map (quest_kill qdb mob) xs) = map_option (quest_kill qdb mob) \<circ> qmap xs"
  by (rule ext, induction xs) (simp_all add: qmap_def)

lemma quest_drops_ok:
  "player_ok e (snd ks) \<Longrightarrow> player_ok e (snd (quest_drops e rnd mob ds ks))"
proof (induction e rnd mob ds ks rule: quest_drops.induct)
  case (1 e rnd mob ks)
  then show ?case by simp
next
  case (2 e rnd mob d ds k s)
  let ?it = "empty_item\<lparr>nameid := qdrop_nameid d, identify := itemdb_isidentified e (qdrop_nameid d),
                        amount := qdrop_count d\<rparr>"
  obtain f t it' where a: "pc_additem e s ?it 1 = (f, t, it')" by (metis prod_cases3)
  have "player_ok e s" using 2(5) by simp
  then have "player_ok e t" using pc_additem_player_ok(1) [OF _ _ a] by (simp add: live_def empty_item_def)
  then show ?case using 2 a by (auto simp: Let_def)
qed

lemma quest_kills_run:
  assumes "quest_log q = P @ X @ r"
  shows "\<exists>b. snd (quest_kills e qdb rnd mob (length X) (length P) ks q)
    = q\<lparr>quest_log := P @ map (quest_kill qdb mob) X @ r, save_quest := b\<rparr>"
  using assms
proof (induction X arbitrary: P ks q)
  case Nil
  then show ?case by (intro exI [of _ "save_quest q"]) simp
next
  case (Cons x X)
  let ?y = "quest_kill qdb mob x"
  have at: "quest_log q ! length P = x" "(quest_log q)[length P := z] = (P @ [z]) @ X @ r" for z
    using Cons.prems by simp_all
  show ?case
  proof (cases "q_state x = Q_COMPLETE")
    case True
    then have "?y = x" by (simp add: quest_kill_def)
    then show ?thesis using Cons.IH [of q "P @ [x]" ks] Cons.prems True at(1) by simp
  next
    case False
    define b where "b = (save_quest q \<or> q_counts ?y \<noteq> q_counts x)"
    define q' where "q' = q\<lparr>quest_log := (P @ [?y]) @ X @ r, save_quest := b\<rparr>"
    let ?ks = "quest_drops e rnd mob (dropitem (quest_search qdb (quest_id x))) ks"
    have step: "quest_kills e qdb rnd mob (length (x # X)) (length P) ks q
        = quest_kills e qdb rnd mob (length X) (length (P @ [?y])) ?ks q'"
      using False at by (simp add: q'_def b_def Let_def quest_kill_def)
    have "quest_log q' = (P @ [?y]) @ X @ r" by (simp add: q'_def)
    from Cons.IH [OF this, of ?ks] show ?thesis unfolding step by (simp add: q'_def)
  qed
qed

lemma quest_kills_player:
  "player_ok e (snd ks) \<Longrightarrow> player_ok e (snd (fst (quest_kills e qdb rnd mob n i ks q)))"
  by (induction e qdb rnd mob n i ks q rule: quest_kills.induct) (simp_all add: Let_def quest_drops_ok)

lemma quest_update_objective_refines:
  assumes q: "qlog_parts q A B r"
  shows "quest_ok (snd (quest_update_objective e qdb rnd mob ks q)) \<and>
    quest_abs (snd (quest_update_objective e qdb rnd mob ks q)) = map_option (quest_kill qdb mob) \<circ> quest_abs q"
proof -
  note D = qlog_partsD [OF q]
  obtain b where b: "snd (quest_update_objective e qdb rnd mob ks q)
      = q\<lparr>quest_log := map (quest_kill qdb mob) A @ B @ r, save_quest := b\<rparr>"
    using quest_kills_run [of q "[]" A "B @ r" e qdb rnd mob ks] D(5,6)
    by (auto simp: quest_update_objective_def)
  have "qlog_parts (q\<lparr>quest_log := map (quest_kill qdb mob) A @ B @ r, save_quest := b\<rparr>)
      (map (quest_kill qdb mob) A) B r"
    using q by (auto simp: qlog_parts_def comp_def)
  note p = qlog_partsD(3) [OF this] quest_okI [OF this]
  have "map (quest_kill qdb mob) B = B"
    by (rule map_idI) (use q in \<open>auto simp: qlog_parts_def quest_kill_def\<close>)
  then have "map (quest_kill qdb mob) A @ B = map (quest_kill qdb mob) (A @ B)" by simp
  then show ?thesis using p D(3) qmap_kill [of qdb mob "A @ B"] b by simp
qed

lemma qmap_filter:
  "distinct (map quest_id xs) \<Longrightarrow> qmap (filter (\<lambda>x. P (quest_id x)) xs) k = (if P k then qmap xs k else None)"
  by (induction xs) (auto simp: qmap_def)

lemma arr_find_parts:
  "\<forall>x \<in> set A. \<not> P x \<Longrightarrow> \<forall>x \<in> set B. P x \<Longrightarrow> arr_find P (A @ B) = length A"
  by (induction A) (auto, cases B, auto)

lemma quest_reload_refines:
  assumes q: "qlog_parts q A B r"
  shows "quest_ok (quest_reload_check_sub qdb q) \<and> quest_abs (quest_reload_check_sub qdb q) =
    (\<lambda>k. if qdb k = None then None else quest_abs q k)"
proof -
  note D = qlog_partsD [OF q]
  let ?P = "\<lambda>x. qdb (quest_id x) \<noteq> None"
  let ?A = "filter ?P A" and ?B = "filter ?P B"
  have "close_gaps ?P (num_quests q) 0 0 (quest_log q)
      = (length (?A @ ?B), (?A @ ?B) @ drop (length (?A @ ?B)) (quest_log q))"
    using close_gaps_filter [of 0 0 "num_quests q" "quest_log q" ?P] D(1,5,7) by (simp add: Let_def)
  moreover have "arr_find (\<lambda>x. q_state x = Q_COMPLETE) (?A @ ?B) = length ?A"
    by (rule arr_find_parts) (use q in \<open>auto simp: qlog_parts_def\<close>)
  ultimately have "quest_reload_check_sub qdb q = q\<lparr>num_quests := length (?A @ ?B),
      quest_log := ?A @ ?B @ drop (length (?A @ ?B)) (quest_log q), avail_quests := length ?A\<rparr>"
    by (simp add: quest_reload_check_sub_def)
  moreover have "distinct (map quest_id (?A @ ?B))"
    using D(4) by (metis distinct_map_filter filter_append)
  ultimately have "qlog_parts (quest_reload_check_sub qdb q) ?A ?B (drop (length (?A @ ?B)) (quest_log q))"
    using q by (auto simp: qlog_parts_def)
  note p = qlog_partsD(3) [OF this] quest_okI [OF this]
  have "quest_abs (quest_reload_check_sub qdb q) k = (if qdb k = None then None else quest_abs q k)" for k
    using p(1) qmap_filter [OF D(4), of "\<lambda>k. qdb k \<noteq> None" k] D(3) by simp
  then show ?thesis using p(2) by (intro conjI ext) simp_all
qed

section \<open>Runs\<close>

text \<open>
  What happens to a player's log: the script commands, a monster killed with the random
  numbers of its drops, and a database loaded anew.
\<close>

datatype quest_act =
    Setquest qclock int
  | Changequest qclock int int
  | Erasequest int
  | Setstatus int quest_state
  | Killmob "nat \<Rightarrow> nat" nat
  | Reloaddb questdb

fun quest_step :: "env \<Rightarrow> quest_act \<Rightarrow> questdb \<times> sd \<times> qlog \<Rightarrow> questdb \<times> sd \<times> qlog" where
  "quest_step e (Setquest c k) (qdb, s, q) = (qdb, s, snd (quest_add qdb c q k))"
| "quest_step e (Changequest c k l) (qdb, s, q) = (qdb, s, snd (quest_change qdb c q k l))"
| "quest_step e (Erasequest k) (qdb, s, q) = (qdb, s, snd (quest_delete q k))"
| "quest_step e (Setstatus k st) (qdb, s, q) = (qdb, s, snd (quest_update_status q k st))"
| "quest_step e (Killmob rnd mob) (qdb, s, q) =
     (case quest_update_objective e qdb rnd mob (0, s) q of ((k, s'), q') \<Rightarrow> (qdb, s', q'))"
| "quest_step e (Reloaddb qdb') (qdb, s, q) = (qdb', s, quest_reload_check_sub qdb' q)"

text \<open>The same on a map from quest ids to quests, with no array.\<close>

fun quest_spec :: "quest_act \<Rightarrow> questdb \<times> (int \<rightharpoonup> quest) \<Rightarrow> questdb \<times> (int \<rightharpoonup> quest)" where
  "quest_spec (Setquest c k) (qdb, m) = (qdb,
     case qdb k of Some qi \<Rightarrow> if m k = None then m(k \<mapsto> new_quest c qi) else m | None \<Rightarrow> m)"
| "quest_spec (Changequest c k l) (qdb, m) = (qdb,
     case (qdb l, m k) of
       (Some qi, Some x) \<Rightarrow>
         if m l = None \<and> q_state x \<noteq> Q_COMPLETE then m(k := None, l \<mapsto> new_quest c qi) else m
     | _ \<Rightarrow> m)"
| "quest_spec (Erasequest k) (qdb, m) = (qdb, m(k := None))"
| "quest_spec (Setstatus k st) (qdb, m) = (qdb,
     case m k of
       Some x \<Rightarrow> if q_state x \<noteq> Q_COMPLETE then m(k \<mapsto> x\<lparr>q_state := st\<rparr>) else m
     | None \<Rightarrow> m)"
| "quest_spec (Killmob rnd mob) (qdb, m) = (qdb, map_option (quest_kill qdb mob) \<circ> m)"
| "quest_spec (Reloaddb qdb') (qdb, m) = (qdb', \<lambda>k. if qdb' k = None then None else m k)"

fun act_db_ok :: "quest_act \<Rightarrow> bool" where
  "act_db_ok (Reloaddb qdb) = db_ok qdb"
| "act_db_ok _ = True"

lemma quest_step_refines:
  assumes "player_ok e s" "quest_ok q" "db_ok qdb" "act_db_ok a"
    and "quest_step e a (qdb, s, q) = (qdb', s', q')"
  shows "player_ok e s' \<and> quest_ok q' \<and> db_ok qdb'
    \<and> quest_spec a (qdb, quest_abs q) = (qdb', quest_abs q')"
proof -
  obtain A B r where p: "qlog_parts q A B r" using assms(2) by (auto simp: quest_ok_def)
  show ?thesis
  proof (cases a)
    case (Setquest c k)
    then show ?thesis using quest_add_refines [OF p assms(3), of c k] assms(1,3,5) by auto
  next
    case (Changequest c k l)
    then show ?thesis using quest_change_refines [OF p assms(3), of c k l] assms(1,3,5) by auto
  next
    case (Erasequest k)
    then show ?thesis using quest_delete_refines [OF p, of k] assms(1,3,5) by auto
  next
    case (Setstatus k st)
    then show ?thesis using quest_update_status_refines [OF p, of k st] assms(1,3,5) by auto
  next
    case (Killmob rnd mob)
    obtain k where r: "quest_update_objective e qdb rnd mob (0, s) q = ((k, s'), q')" "qdb' = qdb"
      using assms(5) Killmob by (auto split: prod.splits)
    have "player_ok e s'"
      using quest_kills_player [of e "(0, s)" qdb rnd mob "avail_quests q" 0 q] assms(1) r(1)
      by (simp add: quest_update_objective_def)
    then show ?thesis
      using quest_update_objective_refines [OF p, of e qdb rnd mob "(0, s)"] assms(3) r Killmob by simp
  next
    case (Reloaddb qdb1)
    then show ?thesis using quest_reload_refines [OF p, of qdb1] assms(1,4,5) by auto
  qed
qed

text \<open>
  C29. The quest log implements a map from quest ids to quests: whatever sequence of
  quests set, changed, erased, marked, of monsters killed and of reloaded databases a player
  goes through, the open quests stay in front of the completed ones, no quest
  occurs twice, the log holds the quests that the operations on the map give, and
  the player, who is given the drops, stays well formed.
\<close>

theorem quest_run_refines:
  assumes "player_ok e s" "quest_ok q" "db_ok qdb" "list_all act_db_ok acts"
    and "fold (quest_step e) acts (qdb, s, q) = (qdb', s', q')"
  shows "player_ok e s' \<and> quest_ok q' \<and> fold quest_spec acts (qdb, quest_abs q) = (qdb', quest_abs q')"
  using assms
proof (induction acts arbitrary: qdb s q)
  case Nil
  then show ?case by simp
next
  case (Cons a acts)
  obtain qdb1 s1 q1 where st: "quest_step e a (qdb, s, q) = (qdb1, s1, q1)" by (metis prod_cases3)
  have "player_ok e s1 \<and> quest_ok q1 \<and> db_ok qdb1 \<and> quest_spec a (qdb, quest_abs q) = (qdb1, quest_abs q1)"
    using quest_step_refines [OF Cons.prems(1,2,3) _ st] Cons.prems(4) by simp
  then show ?case using Cons.IH [of s1 q1 qdb1] Cons.prems(4,5) st by simp
qed

definition sample_qdb :: questdb where
  "sample_qdb = [7 \<mapsto> \<lparr>qd_id = 7, qd_time = 0, qd_time_type = False, objectives = [(1002, 2)], dropitem = []\<rparr>,
                 8 \<mapsto> \<lparr>qd_id = 8, qd_time = 60, qd_time_type = False, objectives = [], dropitem = []\<rparr>]"

definition sample_clock :: qclock where
  "sample_clock = \<lparr>clock_now = 1000, time_today = 0\<rparr>"

definition empty_qlog :: qlog where
  "empty_qlog = \<lparr>num_quests = 0, avail_quests = 0, quest_log = [], save_quest = False\<rparr>"

lemma sample_qdb_ok: "db_ok sample_qdb"
  by (simp add: db_ok_def sample_qdb_def)

lemma empty_qlog_ok: "quest_ok empty_qlog" "quest_abs empty_qlog = Map.empty"
  by (rule quest_okI [of _ "[]" "[]" "[]"]) (simp_all add: empty_qlog_def qlog_parts_def quest_abs_def qmap_def)

theorem quest_run_refines_witness:
  "\<exists>s q. fold (quest_step sample_env)
      [Setquest sample_clock 7, Setquest sample_clock 8, Setstatus 7 Q_COMPLETE, Killmob (\<lambda>_. 0) 1002]
      (sample_qdb, sample_player 1 0, empty_qlog) = (sample_qdb, s, q)
    \<and> player_ok sample_env s \<and> quest_abs q 7 = Some (new_quest sample_clock (quest_search sample_qdb 7)\<lparr>q_state := Q_COMPLETE\<rparr>)"
proof -
  let ?acts = "[Setquest sample_clock 7, Setquest sample_clock 8, Setstatus 7 Q_COMPLETE, Killmob (\<lambda>_. 0) 1002]"
  let ?w = "(sample_qdb, sample_player 1 0, empty_qlog)"
  obtain qdb s q where r: "fold (quest_step sample_env) ?acts ?w = (qdb, s, q)" by (metis prod_cases3)
  have "player_ok sample_env s \<and> quest_ok q
      \<and> fold quest_spec ?acts (sample_qdb, quest_abs empty_qlog) = (qdb, quest_abs q)"
    by (rule quest_run_refines [OF sample_player_ok empty_qlog_ok(1) sample_qdb_ok _ r]) simp
  moreover have "fst (fold quest_spec ?acts (sample_qdb, quest_abs empty_qlog)) = sample_qdb"
    "snd (fold quest_spec ?acts (sample_qdb, quest_abs empty_qlog)) 7
      = Some (new_quest sample_clock (quest_search sample_qdb 7)\<lparr>q_state := Q_COMPLETE\<rparr>)"
    by (simp_all add: empty_qlog_ok(2) sample_qdb_def quest_search_def new_quest_def zero_quest_def quest_kill_def)
  ultimately show ?thesis using r by (intro exI [of _ s] exI [of _ q]) simp
qed

section \<open>Filing a received log\<close>

lemma quest_file_parts:
  assumes "length rs \<le> length M" and "\<And>x. known x \<longleftrightarrow> qdb (quest_id x) \<noteq> None"
  defines "O1 \<equiv> filter (\<lambda>x. known x \<and> q_state x \<noteq> Q_COMPLETE) rs"
    and "C1 \<equiv> filter (\<lambda>x. known x \<and> q_state x = Q_COMPLETE) rs"
  shows "quest_file qdb rs (length A, length (A @ M), num, A @ M @ B) =
    (length (A @ O1), length (A @ M) - length C1, num + length (O1 @ C1),
     A @ O1 @ take (length M - length (O1 @ C1)) (drop (length O1) M) @ rev C1 @ B)"
  using assms(1) unfolding O1_def C1_def
proof (induction rs arbitrary: A M B num)
  case Nil
  then show ?case by simp
next
  case (Cons x rs)
  have kn: "qdb (quest_id x) = None \<longleftrightarrow> \<not> known x" using assms(2) by simp
  consider "\<not> known x" | "known x" "q_state x \<noteq> Q_COMPLETE" | "known x" "q_state x = Q_COMPLETE" by blast
  then show ?case
  proof cases
    case 1
    then show ?thesis using Cons.IH [of M A num B] Cons.prems kn by simp
  next
    case 2
    then obtain qi where qi: "qdb (quest_id x) = Some qi" using kn by blast
    obtain y M' where M: "M = y # M'" using Cons.prems by (cases M) simp_all
    have "(A @ M @ B)[length A := x] = (A @ [x]) @ M' @ B" by (simp add: M)
    then show ?thesis
      using Cons.IH [of M' "A @ [x]" "Suc num" B] Cons.prems 2 qi M by simp
  next
    case 3
    then obtain qi where qi: "qdb (quest_id x) = Some qi" using kn by blast
    obtain M' y where M: "M = M' @ [y]" using Cons.prems by (cases M rule: rev_cases) simp_all
    have "(A @ M @ B)[length (A @ M') := x] = A @ M' @ x # B" by (simp add: M list_update_append)
    then show ?thesis
      using Cons.IH [of M' A "Suc num" "x # B"] Cons.prems 3 qi M by (simp add: Suc_diff_le)
  qed
qed


text \<open>What a received log is turned into: its known open and completed entries.\<close>

definition known_open :: "questdb \<Rightarrow> quest list \<Rightarrow> quest list" where
  "known_open qdb rs = filter (\<lambda>x. qdb (quest_id x) \<noteq> None \<and> q_state x \<noteq> Q_COMPLETE) rs"

definition known_complete :: "questdb \<Rightarrow> quest list \<Rightarrow> quest list" where
  "known_complete qdb rs = filter (\<lambda>x. qdb (quest_id x) \<noteq> None \<and> q_state x = Q_COMPLETE) rs"

lemma known_length: "length (known_open qdb rs @ known_complete qdb rs) \<le> length rs"
  by (induction rs) (auto simp: known_open_def known_complete_def)

lemma parse_filed:
  fixes qdb :: questdb and rs mem :: "quest list" and q :: qlog
  assumes "rs \<noteq> []" "length mem = length rs"
  defines "A \<equiv> known_open qdb rs" and "C \<equiv> known_complete qdb rs"
  defines "G \<equiv> take (length rs - length (A @ C)) (drop (length A) mem)"
  shows "intif_parse_questlog qdb rs mem q = q\<lparr>num_quests := length (A @ C), avail_quests := length A,
    quest_log := if G = [] then A @ rev C else A @ take (length C) (G @ G @ rev C)\<rparr>"
proof -
  have n: "length (A @ C) \<le> length rs" unfolding A_def C_def by (rule known_length)
  have G: "length G = length rs - length (A @ C)" using assms(2) n by (simp add: G_def)
  have f: "quest_file qdb rs (0, length rs, 0, mem)
      = (length A, length rs - length C, length (A @ C), A @ G @ rev C)"
    using quest_file_parts [of rs mem "\<lambda>x. qdb (quest_id x) \<noteq> None" qdb "[]" 0 "[]"] assms(2)
    by (simp add: A_def C_def G_def known_open_def known_complete_def)
  show ?thesis
  proof (cases "G = []")
    case True
    then show ?thesis using assms(1) f G n by (simp add: intif_parse_questlog_def)
  next
    case False
    then have k: "length A < length rs - length C" "length rs - length C = length (A @ G)"
      using G n length_greater_0_conv [of G] by simp_all
    have "recreate (length (A @ C)) (if length A + length G < length rs
        then memmove (A @ G @ rev C) (length (A @ G)) (length A) (length rs - length (A @ G)) else A @ G @ rev C)
        = A @ take (length C) (G @ G @ rev C)"
    proof -
      have l: "length rs = length A + length G + length C" using G n False by auto
      then show ?thesis by (cases "C = []") (simp_all add: memmove_def recreate_def min_def)
    qed
    then show ?thesis using assms(1) f k False
      by (auto simp: intif_parse_questlog_def split: if_splits)
  qed
qed

text \<open>
  Entries that name known quests, none of them twice, are filed into a well-formed log
  of exactly these entries, in whatever order they arrive.
\<close>

lemma intif_parse_questlog_files:
  assumes "distinct (map quest_id received)" "\<forall>x \<in> set received. qdb (quest_id x) \<noteq> None"
    and "length mem = length received"
  shows "quest_ok (intif_parse_questlog qdb received mem q0)"
    "quest_abs (intif_parse_questlog qdb received mem q0) = qmap received"
proof -
  let ?r = "intif_parse_questlog qdb received mem q0"
  let ?A = "known_open qdb received" and ?C = "known_complete qdb received"
  note d = assms(1)
  have kn: "qdb (quest_id x) \<noteq> None" if "x \<in> set received" for x using assms(2) that by blast
  have "mset (?A @ ?C) = mset received"
  proof -
    have "?A = filter (\<lambda>x. q_state x \<noteq> Q_COMPLETE) received" "?C = filter (\<lambda>x. \<not> q_state x \<noteq> Q_COMPLETE) received"
      unfolding known_open_def known_complete_def by (rule filter_cong; use kn in simp)+
    then show ?thesis by (simp only: mset_append mset_filter) (rule multiset_partition [symmetric])
  qed
  then have m: "mset (?A @ rev ?C) = mset received" by simp
  have dr: "distinct (map quest_id (?A @ rev ?C))" and ar: "qmap (?A @ rev ?C) = qmap received"
    using qmap_mset [OF d m] distinct_ids_mset [OF m] d by simp_all
  have len: "length received = length (?A @ ?C)" using arg_cong [OF m, of size] by simp
  have "qlog_parts ?r ?A (rev ?C) []"
  proof (cases "received = []")
    case True
    then show ?thesis by (simp add: intif_parse_questlog_def qlog_parts_def known_open_def known_complete_def)
  next
    case False
    have "?r = q0\<lparr>num_quests := length (?A @ ?C), avail_quests := length ?A, quest_log := ?A @ rev ?C\<rparr>"
      using parse_filed [OF False assms(3), of qdb q0] len by simp
    then show ?thesis using dr by (simp add: qlog_parts_def known_open_def known_complete_def)
  qed
  note r = qlog_partsD(3) [OF this] quest_okI [OF this]
  show "quest_ok ?r" "quest_abs ?r = qmap received" using r ar by simp_all
qed

definition sample_open :: quest where
  "sample_open = \<lparr>quest_id = 8, q_time = 1060, q_counts = [0, 0, 0], q_state = Q_ACTIVE\<rparr>"

definition sample_complete :: quest where
  "sample_complete = \<lparr>quest_id = 7, q_time = 0, q_counts = [2, 0, 0], q_state = Q_COMPLETE\<rparr>"

definition sample_qlog :: qlog where
  "sample_qlog = \<lparr>num_quests = 2, avail_quests = 1, quest_log = [sample_open, sample_complete], save_quest = False\<rparr>"

text \<open>
  C31. When some of the loaded entries name no quest of the database and others are
  completed, the entries at the end are not moved down to fill the gap: the two
  pointers of the move are swapped. The first completed entries of the log are then
  what the memory held when it was allocated, and as many completed quests are lost.
\<close>

theorem quest_load_skipped:
  fixes qdb :: questdb and received :: "quest list"
  defines "a \<equiv> length (known_open qdb received)" and "c \<equiv> length (known_complete qdb received)"
  assumes "length mem = length received" "a \<le> i" "i < a + c" "i < length received - c"
  shows "avail_quests (intif_parse_questlog qdb received mem q) = a
    \<and> num_quests (intif_parse_questlog qdb received mem q) = a + c
    \<and> quest_log (intif_parse_questlog qdb received mem q) ! i = mem ! i"
proof -
  have ne: "received \<noteq> []" using assms(6) by auto
  let ?G = "take (length received - (a + c)) (drop a mem)"
  have G: "length ?G = length received - (a + c)" "i - a < length ?G"
    using assms(3-6) by auto
  then have "?G \<noteq> []" by auto
  then have "intif_parse_questlog qdb received mem q = q\<lparr>num_quests := a + c, avail_quests := a,
      quest_log := known_open qdb received @ take c (?G @ ?G @ rev (known_complete qdb received))\<rparr>"
    using parse_filed [OF ne assms(3), of qdb q] by (simp add: a_def c_def)
  moreover have "(known_open qdb received @ take c (?G @ ?G @ rev (known_complete qdb received))) ! i = ?G ! (i - a)"
    using assms(4,5) G(2) by (simp add: nth_append a_def [symmetric] c_def [symmetric])
  moreover have "?G ! (i - a) = mem ! i" using G assms(3-6) by simp
  ultimately show ?thesis by simp
qed

theorem quest_load_skipped_witness:
  "quest_log (intif_parse_questlog sample_qdb [zero_quest, sample_complete] [zero_quest, zero_quest] empty_qlog) ! 0
     = zero_quest"
proof -
  have "length (known_open sample_qdb [zero_quest, sample_complete]) = 0"
    "length (known_complete sample_qdb [zero_quest, sample_complete]) = 1"
    by (simp_all add: known_open_def known_complete_def zero_quest_def sample_complete_def sample_qdb_def)
  then show ?thesis
    using quest_load_skipped [of "[zero_quest, zero_quest]" "[zero_quest, sample_complete]" sample_qdb 0 empty_qlog]
    by simp
qed

end
