(* ===== verification/Quest_Store.thy ===== *)
theory Quest_Store
  imports Quest
begin

text \<open>
  The char server's side of the quest log: char/int_quest.cpp. The table holds one
  row per character and quest (its primary key). The database is modelled by the
  meaning of the statements the code sends: an INSERT of an existing key or of a
  value outside a column's range fails, an UPDATE writes the columns it names, and a
  SELECT without ORDER BY may answer in any order, given by the argument \<open>sel\<close>,
  where None is an error. An error of the connection during another statement is
  left out.
\<close>

section \<open>The table\<close>

type_synonym quest_rows = "(int \<times> quest) list"

definition rows_of :: "int \<Rightarrow> quest_rows \<Rightarrow> quest list" where
  "rows_of cid rows = map snd (filter (\<lambda>r. fst r = cid) rows)"

text \<open>The columns' ranges: unsigned int ids and times, printed with \<open>%d\<close>, and unsigned mediumint counts.\<close>

definition counts_fit :: "quest \<Rightarrow> bool" where
  "counts_fit x \<longleftrightarrow> length (q_counts x) = 3 \<and> (\<forall>n \<in> set (q_counts x). 0 \<le> n \<and> n < 16777216)"

definition row_fits :: "quest \<Rightarrow> bool" where
  "row_fits x \<longleftrightarrow> 0 \<le> s32 (quest_id x) \<and> 0 \<le> s32 (q_time x) \<and> counts_fit x"

definition MAX_QUEST_OBJECTIVES :: nat where "MAX_QUEST_OBJECTIVES = 3"

definition mapif_quests_fromsql ::
    "(int \<Rightarrow> quest_rows \<Rightarrow> quest list option) \<Rightarrow> int \<Rightarrow> quest_rows \<Rightarrow> quest list" where
  "mapif_quests_fromsql sel cid rows = (case sel cid rows of None \<Rightarrow> [] | Some xs \<Rightarrow> xs)"

definition mapif_quest_delete :: "int \<Rightarrow> int \<Rightarrow> quest_rows \<Rightarrow> bool \<times> quest_rows" where
  "mapif_quest_delete cid qid rows = (True, filter (\<lambda>(c, x). \<not> (quest_id x = qid \<and> c = cid)) rows)"

definition mapif_quest_add :: "int \<Rightarrow> quest \<Rightarrow> quest_rows \<Rightarrow> bool \<times> quest_rows" where
  "mapif_quest_add cid qd rows =
     (if \<not> row_fits qd \<or> (\<exists>x \<in> set (rows_of cid rows). quest_id x = quest_id qd) then (False, rows)
      else (True, rows @ [(cid, qd)]))"

definition mapif_quest_update :: "int \<Rightarrow> quest \<Rightarrow> quest_rows \<Rightarrow> bool \<times> quest_rows" where
  "mapif_quest_update cid qd rows =
     (if \<not> counts_fit qd then (False, rows)
      else (True, map (\<lambda>(c, x). if quest_id x = quest_id qd \<and> c = cid
              then (c, x\<lparr>q_state := q_state qd, q_counts := q_counts qd\<rparr>) else (c, x)) rows))"

section \<open>Saving and loading\<close>

text \<open>
  The loop over the received entries: \<open>old\<close> holds the stored entries that have not
  been met yet, and the result those that the log no longer has.
\<close>

definition quest_differs :: "quest \<Rightarrow> quest \<Rightarrow> bool" where
  "quest_differs x y \<longleftrightarrow>
     arr_find (\<lambda>k. q_counts x ! k \<noteq> q_counts y ! k) [0..<MAX_QUEST_OBJECTIVES] \<noteq> MAX_QUEST_OBJECTIVES
     \<or> q_state x \<noteq> q_state y"

fun quest_save_loop ::
    "int \<Rightarrow> quest list \<Rightarrow> quest list \<Rightarrow> bool \<times> quest_rows \<Rightarrow> quest list \<times> bool \<times> quest_rows" where
  "quest_save_loop cid [] old st = (old, st)"
| "quest_save_loop cid (x # new) old (ok, rows) =
     (let j = arr_find (\<lambda>y. quest_id x = quest_id y) old
      in if j < length old then
           let (r, rows) = (if quest_differs x (old ! j) then mapif_quest_update cid x rows else (True, rows))
           in quest_save_loop cid new (take j old @ drop (j + 1) old) (ok \<and> r, rows)
         else
           let (r, rows) = mapif_quest_add cid x rows
           in quest_save_loop cid new old (ok \<and> r, rows))"

definition quest_erase_step :: "int \<Rightarrow> quest \<Rightarrow> bool \<times> quest_rows \<Rightarrow> bool \<times> quest_rows" where
  "quest_erase_step cid y st =
     (case mapif_quest_delete cid (quest_id y) (snd st) of (r, rows) \<Rightarrow> (fst st \<and> r, rows))"

definition mapif_parse_quest_save ::
    "(int \<Rightarrow> quest_rows \<Rightarrow> quest list option) \<Rightarrow> int \<Rightarrow> quest list \<Rightarrow> quest_rows \<Rightarrow> bool \<times> quest_rows" where
  "mapif_parse_quest_save sel cid new rows =
     (case quest_save_loop cid new (mapif_quests_fromsql sel cid rows) (True, rows) of
        (old, st) \<Rightarrow> fold (quest_erase_step cid) old st)"

definition mapif_parse_quest_load ::
    "(int \<Rightarrow> quest_rows \<Rightarrow> quest list option) \<Rightarrow> int \<Rightarrow> quest_rows \<Rightarrow> quest list" where
  "mapif_parse_quest_load sel cid rows = mapif_quests_fromsql sel cid rows"

section \<open>The table as a map\<close>












section \<open>What a save leaves\<close>










definition sample_sel :: "int \<Rightarrow> quest_rows \<Rightarrow> quest list option" where
  "sample_sel cid rows = Some (rev (rows_of cid rows))"




text \<open>
  A quest that is erased and set again between two saves: the new entry expires at
  5060, but its row was stored with 1060, and that is what comes back.
\<close>

lemma quest_set_again_keeps_time:
  "let q0 = empty_qlog\<lparr>num_quests := 1, avail_quests := 1, quest_log := [sample_open]\<rparr>;
       q1 = snd (quest_delete q0 8);
       q2 = snd (quest_add sample_qdb \<lparr>clock_now = 5000, time_today = 0\<rparr> q1 8);
       rows = snd (mapif_parse_quest_save sample_sel 1 (intif_quest_save q2) [(1, sample_open)])
   in map q_time (intif_quest_save q2) = [5060]
    \<and> map q_time (mapif_parse_quest_load sample_sel 1 rows) = [1060]"
  by code_simp

end
