(* ===== verification/Jobs.thy ===== *)
theory Jobs
  imports Prelude "HOL-Library.Word"
begin

unbundle bit_operations_syntax

text \<open>
  The two numberings of the job classes: job ids (enum \<open>e_job\<close>, common/mmo.hpp), which
  the client and the database use, and map ids (enum \<open>e_mapid\<close>, map/map.hpp), whose bits
  say which branch and level a class has. The switches of map/pc.cpp between the two are
  tables in the order of their cases.
\<close>

section \<open>Classes\<close>

definition JOBL_UPPER :: int where "JOBL_UPPER = 0x1000"
definition JOBL_BABY :: int where "JOBL_BABY = 0x2000"
definition JOBL_THIRD :: int where "JOBL_THIRD = 0x4000"
definition MAPID_BASEMASK :: int where "MAPID_BASEMASK = 0x00ff"
definition MAPID_UPPERMASK :: int where "MAPID_UPPERMASK = 0x0fff"
definition MAPID_SUMMONER :: int where "MAPID_SUMMONER = 16"
definition MAPID_REBELLION :: int where "MAPID_REBELLION = 0x109"
definition MAPID_KAGEROUOBORO :: int where "MAPID_KAGEROUOBORO = 0x10a"
definition JOB_MAX_BASIC :: int where "JOB_MAX_BASIC = 31"
definition JOB_NOVICE_HIGH :: int where "JOB_NOVICE_HIGH = 4001"

definition jobid_cases :: "(int \<times> int) list" where
  "jobid_cases = [
   (0, 0x0), (1, 0x1), (2, 0x2), (3, 0x3), (4, 0x4), (5, 0x5), (6, 0x6),
   (4046, 0x7), (22, 0x8), (24, 0x9), (25, 0xa), (26, 0xb), (27, 0xc), (28, 0xd),
   (4050, 0xe), (29, 0xf), (30, 0x11), (23, 0x100), (7, 0x101), (9, 0x102), (11, 0x103),
   (8, 0x104), (10, 0x105), (12, 0x106), (4047, 0x107), (4211, 0x10a), (4212, 0x10a), (4215, 0x109),
   (4051, 0x10e), (14, 0x201), (16, 0x202), (19, 0x203), (20, 0x203), (15, 0x204), (18, 0x205),
   (17, 0x206), (4049, 0x207), (4052, 0x20e), (4001, 0x1000), (4002, 0x1001), (4003, 0x1002), (4004, 0x1003),
   (4005, 0x1004), (4006, 0x1005), (4007, 0x1006), (4008, 0x1101), (4010, 0x1102), (4012, 0x1103), (4009, 0x1104),
   (4011, 0x1105), (4013, 0x1106), (4015, 0x1201), (4017, 0x1202), (4020, 0x1203), (4021, 0x1203), (4016, 0x1204),
   (4019, 0x1205), (4018, 0x1206), (4023, 0x2000), (4024, 0x2001), (4025, 0x2002), (4026, 0x2003), (4027, 0x2004),
   (4028, 0x2005), (4029, 0x2006), (4225, 0x2007), (4228, 0x2009), (4222, 0x200a), (4220, 0x2010), (4045, 0x2100),
   (4030, 0x2101), (4032, 0x2102), (4034, 0x2103), (4031, 0x2104), (4033, 0x2105), (4035, 0x2106), (4226, 0x2107),
   (4229, 0x2109), (4223, 0x210a), (4224, 0x210a), (4037, 0x2201), (4039, 0x2202), (4042, 0x2203), (4043, 0x2203),
   (4038, 0x2204), (4041, 0x2205), (4040, 0x2206), (4227, 0x2207), (4190, 0x4100), (4054, 0x4101), (4055, 0x4102),
   (4056, 0x4103), (4057, 0x4104), (4058, 0x4105), (4059, 0x4106), (4239, 0x4107), (4066, 0x4201), (4067, 0x4202),
   (4068, 0x4203), (4069, 0x4203), (4070, 0x4204), (4071, 0x4205), (4072, 0x4206), (4240, 0x4207), (4060, 0x5101),
   (4061, 0x5102), (4062, 0x5103), (4063, 0x5104), (4064, 0x5105), (4065, 0x5106), (4073, 0x5201), (4074, 0x5202),
   (4075, 0x5203), (4076, 0x5203), (4077, 0x5204), (4078, 0x5205), (4079, 0x5206), (4191, 0x6100), (4096, 0x6101),
   (4097, 0x6102), (4098, 0x6103), (4099, 0x6104), (4100, 0x6105), (4101, 0x6106), (4241, 0x6107), (4102, 0x6201),
   (4103, 0x6202), (4104, 0x6203), (4105, 0x6203), (4106, 0x6204), (4107, 0x6205), (4108, 0x6206), (4242, 0x6207),
   (4218, 0x10)]"

definition pc_jobid2mapid :: "int \<Rightarrow> int" where
  "pc_jobid2mapid b_class = (case map_of jobid_cases b_class of None \<Rightarrow> -1 | Some m \<Rightarrow> m)"

text \<open>Map id, the job id for the sex 1 (male) or 2 (server), and the one for 0 (female).\<close>

definition mapid_cases :: "(int \<times> int \<times> int) list" where
  "mapid_cases = [
   (0x0, 0, 0), (0x1, 1, 1), (0x2, 2, 2), (0x3, 3, 3), (0x4, 4, 4),
   (0x5, 5, 5), (0x6, 6, 6), (0x7, 4046, 4046), (0x8, 22, 22), (0x9, 24, 24),
   (0xa, 25, 25), (0xb, 26, 26), (0xc, 27, 27), (0xd, 28, 28), (0xe, 4050, 4050),
   (0xf, 29, 29), (0x11, 30, 30), (0x100, 23, 23), (0x101, 7, 7), (0x102, 9, 9),
   (0x103, 11, 11), (0x104, 8, 8), (0x105, 10, 10), (0x106, 12, 12), (0x107, 4047, 4047),
   (0x10a, 4211, 4212), (0x109, 4215, 4215), (0x10e, 4051, 4051), (0x201, 14, 14), (0x202, 16, 16),
   (0x203, 19, 20), (0x204, 15, 15), (0x205, 18, 18), (0x206, 17, 17), (0x207, 4049, 4049),
   (0x20e, 4052, 4052), (0x1000, 4001, 4001), (0x1001, 4002, 4002), (0x1002, 4003, 4003), (0x1003, 4004, 4004),
   (0x1004, 4005, 4005), (0x1005, 4006, 4006), (0x1006, 4007, 4007), (0x1101, 4008, 4008), (0x1102, 4010, 4010),
   (0x1103, 4012, 4012), (0x1104, 4009, 4009), (0x1105, 4011, 4011), (0x1106, 4013, 4013), (0x1201, 4015, 4015),
   (0x1202, 4017, 4017), (0x1203, 4020, 4021), (0x1204, 4016, 4016), (0x1205, 4019, 4019), (0x1206, 4018, 4018),
   (0x2000, 4023, 4023), (0x2001, 4024, 4024), (0x2002, 4025, 4025), (0x2003, 4026, 4026), (0x2004, 4027, 4027),
   (0x2005, 4028, 4028), (0x2006, 4029, 4029), (0x2007, 4225, 4225), (0x2009, 4228, 4228), (0x200a, 4222, 4222),
   (0x2010, 4220, 4220), (0x2100, 4045, 4045), (0x2101, 4030, 4030), (0x2102, 4032, 4032), (0x2103, 4034, 4034),
   (0x2104, 4031, 4031), (0x2105, 4033, 4033), (0x2106, 4035, 4035), (0x2107, 4226, 4226), (0x2109, 4229, 4229),
   (0x210a, 4223, 4224), (0x2201, 4037, 4037), (0x2202, 4039, 4039), (0x2203, 4042, 4043), (0x2204, 4038, 4038),
   (0x2205, 4041, 4041), (0x2206, 4040, 4040), (0x2207, 4227, 4227), (0x4100, 4190, 4190), (0x4101, 4054, 4054),
   (0x4102, 4055, 4055), (0x4103, 4056, 4056), (0x4104, 4057, 4057), (0x4105, 4058, 4058), (0x4106, 4059, 4059),
   (0x4107, 4239, 4239), (0x4201, 4066, 4066), (0x4202, 4067, 4067), (0x4203, 4068, 4069), (0x4204, 4070, 4070),
   (0x4205, 4071, 4071), (0x4206, 4072, 4072), (0x4207, 4240, 4240), (0x5101, 4060, 4060), (0x5102, 4061, 4061),
   (0x5103, 4062, 4062), (0x5104, 4063, 4063), (0x5105, 4064, 4064), (0x5106, 4065, 4065), (0x5201, 4073, 4073),
   (0x5202, 4074, 4074), (0x5203, 4075, 4076), (0x5204, 4077, 4077), (0x5205, 4078, 4078), (0x5206, 4079, 4079),
   (0x6100, 4191, 4191), (0x6101, 4096, 4096), (0x6102, 4097, 4097), (0x6103, 4098, 4098), (0x6104, 4099, 4099),
   (0x6105, 4100, 4100), (0x6106, 4101, 4101), (0x6107, 4241, 4241), (0x6201, 4102, 4102), (0x6202, 4103, 4103),
   (0x6203, 4104, 4105), (0x6204, 4106, 4106), (0x6205, 4107, 4107), (0x6206, 4108, 4108), (0x6207, 4242, 4242),
   (0x10, 4218, 4218)]"

definition pc_mapid2jobid :: "int \<Rightarrow> nat \<Rightarrow> int" where
  "pc_mapid2jobid class sex =
     (case map_of mapid_cases class of None \<Rightarrow> -1 | Some (m, f) \<Rightarrow> if sex \<noteq> 0 then m else f)"

definition pc_class2idx :: "int \<Rightarrow> int" where
  "pc_class2idx class = (if class \<ge> JOB_NOVICE_HIGH then class - JOB_NOVICE_HIGH + JOB_MAX_BASIC else class)"

section \<open>Conversions\<close>

text \<open>The two switches list the same pairs in the same order.\<close>

lemma same_cases: "remdups_adj (concat (map (\<lambda>(c, m, f). [(m, c), (f, c)]) mapid_cases)) = jobid_cases"
  by (simp add: mapid_cases_def jobid_cases_def)

lemma distinct_cases: "distinct (map fst jobid_cases)" "distinct (map fst mapid_cases)"
  by (simp_all add: mapid_cases_def jobid_cases_def)

lemma jobid_case_iff: "pc_jobid2mapid j = c \<and> c \<noteq> -1 \<longleftrightarrow> (j, c) \<in> set jobid_cases"
proof -
  have n: "(j, -1) \<notin> set jobid_cases" by (simp add: jobid_cases_def)
  have "(j, c) \<in> set jobid_cases \<longleftrightarrow> map_of jobid_cases j = Some c"
    by (rule map_of_eq_Some_iff [OF distinct_cases(1), symmetric])
  moreover have "map_of jobid_cases j \<noteq> Some (-1)"
    using n by (simp add: map_of_eq_Some_iff [OF distinct_cases(1)])
  ultimately show ?thesis by (auto simp: pc_jobid2mapid_def split: option.splits)
qed

lemma mapid_case_iff: "(j, c) \<in> set jobid_cases \<longleftrightarrow> j \<noteq> -1 \<and> (\<exists>sex. pc_mapid2jobid c sex = j)"
proof -
  have n: "(-1, c) \<notin> set jobid_cases" by (simp add: jobid_cases_def)
  have "(j, c) \<in> set jobid_cases \<longleftrightarrow> (\<exists>m f. (c, m, f) \<in> set mapid_cases \<and> (j = m \<or> j = f))" for j
    unfolding same_cases [symmetric] remdups_adj_set by force
  also have "\<dots> j \<longleftrightarrow> (\<exists>m f. map_of mapid_cases c = Some (m, f) \<and> (j = m \<or> j = f))" for j
    by (simp only: map_of_eq_Some_iff [OF distinct_cases(2)])
  finally have e: "(j, c) \<in> set jobid_cases \<longleftrightarrow> (\<exists>m f. map_of mapid_cases c = Some (m, f) \<and> (j = m \<or> j = f))" for j .
  show ?thesis
  proof (cases "map_of mapid_cases c")
    case None
    then show ?thesis using e by (auto simp: pc_mapid2jobid_def)
  next
    case (Some mf)
    obtain m f where mf: "mf = (m, f)" by (cases mf)
    have "(\<exists>sex. pc_mapid2jobid c sex = j) \<longleftrightarrow> j = m \<or> j = f"
    proof -
      have "pc_mapid2jobid c 1 = m" "pc_mapid2jobid c 0 = f" using Some mf by (simp_all add: pc_mapid2jobid_def)
      moreover have "pc_mapid2jobid c sex = m \<or> pc_mapid2jobid c sex = f" for sex
        using Some mf by (simp add: pc_mapid2jobid_def)
      ultimately show ?thesis by metis
    qed
    then show ?thesis using e [of j] e [of "-1"] n Some mf by auto
  qed
qed

lemma mapid_cases_closed:
  "list_all (\<lambda>(c, x). map_of mapid_cases (c AND MAPID_UPPERMASK) \<noteq> None) mapid_cases"
  by code_simp

text \<open>
  The two numberings of the classes convert into each other: a job id has the
  class \<open>c\<close> exactly if it is the job id of \<open>c\<close> for one of the sexes, so every job id survives
  the way to its class and back. The class below a class, which \<open>SP_BASEJOB\<close> and
  the job levels of a class change use as an index, is a class as well.
\<close>

theorem job_ids_roundtrip:
  "(pc_jobid2mapid j = c \<and> c \<noteq> -1 \<longleftrightarrow> j \<noteq> -1 \<and> (\<exists>sex. pc_mapid2jobid c sex = j))
   \<and> (pc_mapid2jobid c sex \<noteq> -1 \<longrightarrow> pc_mapid2jobid (c AND MAPID_UPPERMASK) sex \<noteq> -1)"
proof (intro conjI impI)
  show "pc_jobid2mapid j = c \<and> c \<noteq> -1 \<longleftrightarrow> j \<noteq> -1 \<and> (\<exists>sex. pc_mapid2jobid c sex = j)"
    using jobid_case_iff mapid_case_iff by simp
  assume "pc_mapid2jobid c sex \<noteq> -1"
  then obtain x where "(c, x) \<in> set mapid_cases"
    by (auto simp: pc_mapid2jobid_def dest: map_of_SomeD split: option.splits)
  then obtain m f where b: "map_of mapid_cases (c AND MAPID_UPPERMASK) = Some (m, f)"
    using mapid_cases_closed by (fastforce simp: list_all_iff)
  then have "(c AND MAPID_UPPERMASK, m, f) \<in> set mapid_cases" by (rule map_of_SomeD)
  then have "m \<noteq> -1 \<and> f \<noteq> -1"
    by (auto simp: mapid_cases_def)
  then show "pc_mapid2jobid (c AND MAPID_UPPERMASK) sex \<noteq> -1" using b by (simp add: pc_mapid2jobid_def)
qed

theorem job_ids_roundtrip_witness:
  "pc_mapid2jobid 0x5203 0 = 4076 \<and> pc_jobid2mapid 4076 = 0x5203
   \<and> pc_mapid2jobid (0x5203 AND MAPID_UPPERMASK) 0 \<noteq> -1"
proof -
  have m: "pc_mapid2jobid 0x5203 0 = 4076" by (simp add: pc_mapid2jobid_def mapid_cases_def)
  show ?thesis using job_ids_roundtrip [of 4076 "0x5203" 0] m by auto
qed

end
