(* ===== verification/Trade.thy ===== *)
theory Trade
  imports Cart Currency
begin

text \<open>
  Trading between two players: map/trade.cpp. The online players are a map from
  account ids (\<open>pc_db\<close>). A handler takes the id of the player who sent
  the packet; the two ways to a request are those of map/clif.cpp and map/atcommand.cpp. Messages to the client or to game masters and the hack bans are
  left out.
\<close>

section \<open>The online players\<close>

type_synonym world = "int \<Rightarrow> sd option"

definition TRADE_DISTANCE :: int where "TRADE_DISTANCE = 2"

definition map_id2sd :: "world \<Rightarrow> int \<Rightarrow> sd option" where
  "map_id2sd w i = (if i \<le> 0 then None else w i)"

text \<open>common/utils' square distance (CIRCULAR\_AREA is not defined), from map/path.cpp.\<close>

definition check_distance :: "int \<Rightarrow> int \<Rightarrow> int \<Rightarrow> bool" where
  "check_distance dx dy dist =
     (let dx = (if dx < 0 then - dx else dx);
          dy = (if dy < 0 then - dy else dy)
      in (if dx < dy then dy else dx) \<le> dist)"

definition too_far :: "sd \<Rightarrow> sd \<Rightarrow> bool" where
  "too_far s t \<longleftrightarrow> \<not> cmd_trade s
     \<and> (map_m s \<noteq> map_m t \<or> \<not> check_distance (pos_x s - pos_x t) (pos_y s - pos_y t) TRADE_DISTANCE)"

section \<open>Request and answer\<close>

definition trade_traderequest :: "env \<Rightarrow> world \<Rightarrow> int \<Rightarrow> int \<Rightarrow> world" where
  "trade_traderequest e w a b =
     (case w a of None \<Rightarrow> w | Some s \<Rightarrow>
        if mapflags e (map_m s) MF_NOTRADE then w
        else case map_id2sd w b of None \<Rightarrow> w | Some t \<Rightarrow>
          if a = b then w
          else if npc_id t \<noteq> 0 then w
          else if \<not> cell_pvp_can_trade (bconf e) \<and> (pc_is_on_cellpvp e s \<or> pc_is_on_cellpvp e t) then w
          else if \<not> invite_request_check (bconf e)
                  \<and> (guild_invite t > 0 \<or> party_invite t > 0 \<or> adopt_invite t \<noteq> 0) then w
          else
            let w = (if trade_partner s \<noteq> 0
                     then (case map_id2sd w (trade_partner s) of
                             None \<Rightarrow> w
                           | Some p \<Rightarrow> w(trade_partner s \<mapsto> p\<lparr>trade_partner := 0\<rparr>))
                          (a \<mapsto> s\<lparr>trade_partner := 0\<rparr>)
                     else w)
            in case (w a, w b) of
                 (Some s, Some t) \<Rightarrow>
                   if trade_partner t \<noteq> 0 then w
                   else if \<not> pc_can_give_items s \<or> \<not> pc_can_give_items t then w
                   else if too_far s t then w
                   else w(b \<mapsto> t\<lparr>trade_partner := account_id s\<rparr>, a \<mapsto> s\<lparr>trade_partner := account_id t\<rparr>)
               | _ \<Rightarrow> w)"

text \<open>
  The two ways to a request: the packet, whose guard spares players in a chat room,
  and the command @trade, which has none. REFINE\_UI\_ENABLE is defined.
\<close>

definition OPT1_BURNING :: nat where "OPT1_BURNING = 7"

definition pc_cant_act :: "sd \<Rightarrow> bool" where
  "pc_cant_act s \<longleftrightarrow> npc_id s \<noteq> 0 \<or> vending s \<or> buyingstore s \<or> chatID s \<noteq> 0 \<or> opt1 s \<noteq> 0 \<and> opt1 s \<noteq> OPT1_BURNING
     \<or> trading s \<or> storage_flag s \<noteq> 0 \<or> prevend s \<or> refineui_open s"

definition clif_parse_TradeRequest :: "env \<Rightarrow> world \<Rightarrow> int \<Rightarrow> int \<Rightarrow> world" where
  "clif_parse_TradeRequest e w a b =
     (case w a of None \<Rightarrow> w | Some s \<Rightarrow>
        if chatID s = 0 \<and> pc_cant_act s then w
        else if (case map_id2sd w b of None \<Rightarrow> False | Some t \<Rightarrow> noask t \<or> mail_writing t) then w
        else if basic_skill_check (bconf e) \<and> lv_NV_BASIC s < 1 \<and> lv_SU_BASIC s < 1 then w
        else trade_traderequest e w a b)"

definition at_trade :: "env \<Rightarrow> world \<Rightarrow> int \<Rightarrow> int \<Rightarrow> world" where
  "at_trade e w a b =
     (case w a of None \<Rightarrow> w | Some s \<Rightarrow> if cmd_trade s then trade_traderequest e w a b else w)"

definition trade_busy :: "sd \<Rightarrow> bool" where
  "trade_busy s \<longleftrightarrow> npc_id s \<noteq> 0 \<or> vending s \<or> buyingstore s \<or> storage_flag s \<noteq> 0"

definition no_deal :: "(nat \<times> int) list" where
  "no_deal = replicate 10 (0, 0)"

definition trade_start :: "sd \<Rightarrow> sd" where
  "trade_start s = s\<lparr>trading := True, deal_item := no_deal, deal_zeny := 0, deal_weight := 0\<rparr>"

definition trade_unlock :: "sd \<Rightarrow> sd" where
  "trade_unlock s = s\<lparr>deal_locked := 0, trade_partner := 0\<rparr>"

definition trade_tradeack :: "world \<Rightarrow> int \<Rightarrow> int \<Rightarrow> world" where
  "trade_tradeack w a answer =
     (case w a of None \<Rightarrow> w | Some s \<Rightarrow>
        if trading s \<or> trade_partner s = 0 then w
        else case map_id2sd w (trade_partner s) of
          None \<Rightarrow> w(a \<mapsto> s\<lparr>trade_partner := 0\<rparr>)
        | Some t \<Rightarrow>
            let b = trade_partner s
            in if trading t \<or> trade_partner t \<noteq> a then w(a \<mapsto> s\<lparr>trade_partner := 0\<rparr>)
               else if answer = 4 then w(a \<mapsto> trade_unlock s, b \<mapsto> trade_unlock t)
               else if answer \<noteq> 3 then w
               else if too_far s t then w(a \<mapsto> s\<lparr>trade_partner := 0\<rparr>, b \<mapsto> t\<lparr>trade_partner := 0\<rparr>)
               else if trade_busy s \<or> trade_busy t then w(a \<mapsto> trade_unlock s, b \<mapsto> trade_unlock t)
               else w(a \<mapsto> trade_start s, b \<mapsto> trade_start t))"

section \<open>Cancelling\<close>

definition trade_reset :: "sd \<Rightarrow> sd" where
  "trade_reset s = s\<lparr>deal_item := map (\<lambda>d. if snd d = 0 then d else (0, 0)) (deal_item s),
     deal_zeny := 0, deal_locked := 0, trading := False, trade_partner := 0\<rparr>"

definition trade_tradecancel :: "world \<Rightarrow> int \<Rightarrow> world" where
  "trade_tradecancel w a =
     (case w a of None \<Rightarrow> w | Some s \<Rightarrow>
        let target = map_id2sd w (trade_partner s);
            b = trade_partner s;
            s = s\<lparr>isBoundTrading := 0\<rparr>
        in if \<not> trading s then
             (case target of
                None \<Rightarrow> w(a \<mapsto> s\<lparr>trade_partner := 0\<rparr>)
              | Some t \<Rightarrow> w(b \<mapsto> t\<lparr>trade_partner := 0\<rparr>, a \<mapsto> s\<lparr>trade_partner := 0\<rparr>))
           else
             (case target of
                None \<Rightarrow> w(a \<mapsto> trade_reset s)
              | Some t \<Rightarrow> w(a \<mapsto> trade_reset s, b \<mapsto> trade_reset t)))"

section \<open>Filling the trade window\<close>

definition is_partner :: "sd \<Rightarrow> sd \<Rightarrow> bool" where
  "is_partner s t \<longleftrightarrow> partner_id s > 0 \<and> char_id t = partner_id s"

text \<open>
  Two of the four settings tests are written \<open>!x&0x01\<close> in the code, which
  negates the whole word before the mask: they only block when no bit is set.
\<close>

definition trade_stuff_blocked :: "battle_config \<Rightarrow> item \<Rightarrow> bool" where
  "trade_stuff_blocked bc it \<longleftrightarrow>
     is_reserved it (stuff_bg_reserved_id bc) \<and> stuff_enable_trade bc = 0
   \<or> is_reserved it (stuff_gvg_reserved_id bc) \<and> \<not> bit (stuff_enable_trade bc) 1
   \<or> is_reserved it (stuff_pvp_reserved_id bc) \<and> \<not> bit (stuff_enable_trade bc) 2
   \<or> is_reserved it (costumeitem_reserved_id bc) \<and> costumeitem_permission bc = 0"

definition trade_can_add :: "env \<Rightarrow> sd \<Rightarrow> sd \<Rightarrow> item \<Rightarrow> bool" where
  "trade_can_add e s t it \<longleftrightarrow>
     (let src = pc_get_group_level s; dst = pc_get_group_level t
      in (itemdb_isrestricted (db e) it src dst itemdb_cantrade_sub
          \<or> is_partner s t \<and> itemdb_isrestricted (db e) it src dst itemdb_canpartnertrade_sub)
       \<and> expire_time it = 0
       \<and> (is_partner s t \<or> \<not> trade_stuff_blocked (bconf e) it)
       \<and> \<not> ((bound it = BOUND_ACCOUNT \<or> bound it > BOUND_GUILD
              \<or> bound it = BOUND_GUILD \<and> guild_id s \<noteq> guild_id t) \<and> \<not> pc_can_give_bounded_items s))"

text \<open>
  The part of \<open>trade_tradeadditem\<close> after the item checks, on the adding
  player. The cached database entry is read without a null test; a missing one
  counts as weight 0 here.
\<close>

definition deal_add :: "sd \<Rightarrow> sd \<Rightarrow> nat \<Rightarrow> int \<Rightarrow> sd" where
  "deal_add s t n amt =
     (let it = inventory s ! n;
          s = (if bound it \<noteq> 0 then s\<lparr>isBoundTrading := set_bit (nat (bound it)) (isBoundTrading s)\<rparr> else s);
          i = arr_find (\<lambda>d. fst d = n \<or> snd d = 0) (deal_item s)
      in if i = 10 then s
         else
           let wt = (case inventory_data s ! n of None \<Rightarrow> 0 | Some d \<Rightarrow> id_weight d);
               tw = s32 (wt * amt);
               cur = snd (deal_item s ! i)
           in if u32 (weight t + deal_weight s + tw) > u32 (max_weight t) then s
              else if fst (deal_item s ! i) = n then
                let x = (if cur + amt > amount it then s16 (amount it - cur) else amt);
                    tw = (if cur + amt > amount it then s32 (wt * x) else tw)
                in s\<lparr>deal_item := (deal_item s)[i := (n, s16 (cur + x))],
                     deal_weight := s32 (deal_weight s + tw)\<rparr>
              else s\<lparr>deal_item := (deal_item s)[i := (n, amt)],
                     deal_weight := s32 (deal_weight s + tw)\<rparr>)"

text \<open>\<open>idx\<close> is the client's index, two above the inventory slot.\<close>

definition trade_tradeadditem :: "env \<Rightarrow> world \<Rightarrow> int \<Rightarrow> int \<Rightarrow> int \<Rightarrow> world" where
  "trade_tradeadditem e w a idx amt =
     (case w a of None \<Rightarrow> w | Some s \<Rightarrow>
        if \<not> trading s \<or> deal_locked s > 0 then w
        else case map_id2sd w (trade_partner s) of None \<Rightarrow> trade_tradecancel w a | Some t \<Rightarrow>
          if amt = 0 then w
          else
            let i = s16 (idx - 2)
            in if i < 0 \<or> i \<ge> int MAX_INVENTORY then w
               else if amt < 0 \<or> amt > amount (inventory s ! nat i) then w
               else if \<not> trade_can_add e s t (inventory s ! nat i) then w
               else w(a \<mapsto> deal_add s t (nat i) amt))"

definition trade_tradeaddzeny :: "world \<Rightarrow> int \<Rightarrow> int \<Rightarrow> world" where
  "trade_tradeaddzeny w a amt =
     (case w a of None \<Rightarrow> w | Some s \<Rightarrow>
        if \<not> trading s \<or> deal_locked s > 0 then w
        else case map_id2sd w (trade_partner s) of None \<Rightarrow> trade_tradecancel w a | Some t \<Rightarrow>
          if amt < 0 \<or> amt > zeny s \<or> amt > MAX_ZENY - zeny t then trade_tradecancel w a
          else w(a \<mapsto> s\<lparr>deal_zeny := amt\<rparr>))"

definition trade_tradeok :: "world \<Rightarrow> int \<Rightarrow> world" where
  "trade_tradeok w a =
     (case w a of None \<Rightarrow> w | Some s \<Rightarrow>
        if deal_locked s \<noteq> 0 \<or> \<not> trading s then w
        else case map_id2sd w (trade_partner s) of None \<Rightarrow> trade_tradecancel w a | Some t \<Rightarrow>
          w(a \<mapsto> s\<lparr>deal_locked := 1\<rparr>))"

section \<open>Committing\<close>

text \<open>\<open>impossible_trade_check\<close>: the offered amounts against a copy of the inventory without worn items.\<close>

definition EQP_AMMO_BIT :: nat where "EQP_AMMO_BIT = 15"

definition tradable_copy :: "item list \<Rightarrow> item list" where
  "tradable_copy xs = map (\<lambda>it. if nameid it > 0 \<and> equip it \<noteq> 0 \<and> \<not> bit (equip it) EQP_AMMO_BIT
     then empty_item else it) xs"

fun deal_covered :: "item list \<Rightarrow> (nat \<times> int) list \<Rightarrow> bool" where
  "deal_covered items [] = True"
| "deal_covered items ((i, amt) # ds) =
     (if amt = 0 then deal_covered items ds
      else if amount (items ! i) < amt then False
      else deal_covered (items[i := (items ! i)\<lparr>amount := amount (items ! i) - amt\<rparr>]) ds)"

definition impossible_trade_check :: "sd \<Rightarrow> int" where
  "impossible_trade_check s =
     (if deal_zeny s > zeny s then -1
      else if deal_covered (tradable_copy (inventory s)) (deal_item s) then 0 else 1)"

text \<open>One direction of one round of \<open>trade_check\<close>: the giver's and the receiver's copies.\<close>

definition trade_fit :: "env \<Rightarrow> item list \<Rightarrow> item list \<Rightarrow> nat \<times> int \<Rightarrow> (item list \<times> item list) option" where
  "trade_fit e src dst d =
     (case d of (n, amt) \<Rightarrow>
        if amt = 0 then Some (src, dst)
        else if amt > amount (src ! n) then None
        else
          let it = src ! n;
              src' = src[n := it\<lparr>amount := amount it - amt\<rparr>];
              i = (if itemdb_isstackable2 (search e (nameid it))
                   then arr_find (\<lambda>x. nameid x = nameid it \<and> list_all (\<lambda>j. card_at x j = card_at it j) [0..<4]) dst
                   else MAX_INVENTORY)
          in if i < MAX_INVENTORY then
               if amount (dst ! i) + amt > MAX_AMOUNT then None
               else Some (src', dst[i := (dst ! i)\<lparr>amount := amount (dst ! i) + amt\<rparr>])
             else
               let i = arr_find (\<lambda>x. nameid x = 0) dst
               in if i = MAX_INVENTORY then None else Some (src', dst[i := it\<lparr>amount := amt\<rparr>]))"

fun trade_fits :: "env \<Rightarrow> item list \<Rightarrow> item list \<Rightarrow> ((nat \<times> int) \<times> nat \<times> int) list \<Rightarrow> bool" where
  "trade_fits e ivA ivB [] = True"
| "trade_fits e ivA ivB ((d1, d2) # ds) =
     (case trade_fit e ivA ivB d1 of None \<Rightarrow> False
      | Some (ivA, ivB) \<Rightarrow>
          (case trade_fit e ivB ivA d2 of None \<Rightarrow> False
           | Some (ivB, ivA) \<Rightarrow> trade_fits e ivA ivB ds))"

definition trade_check :: "env \<Rightarrow> sd \<Rightarrow> sd \<Rightarrow> bool" where
  "trade_check e s t =
     (if deal_zeny s > zeny s \<or> zeny t > MAX_ZENY - deal_zeny s then False
      else if deal_zeny t > zeny t \<or> zeny s > MAX_ZENY - deal_zeny t then False
      else trade_fits e (inventory s) (inventory t) (zip (deal_item s) (deal_item t)))"

text \<open>
  Handing over one entry of the window. \<open>pc_additem\<close> gets a pointer into the
  giver's inventory, where a generated unique id is written.
\<close>

definition set_inv_uid :: "sd \<Rightarrow> nat \<Rightarrow> nat \<Rightarrow> sd" where
  "set_inv_uid s n u = s\<lparr>inventory := (inventory s)[n := (inventory s ! n)\<lparr>unique_id := u\<rparr>]\<rparr>"

definition trade_give :: "env \<Rightarrow> sd \<times> sd \<Rightarrow> nat \<Rightarrow> int \<Rightarrow> bool \<times> sd \<times> sd" where
  "trade_give e p n amt =
     (case pc_additem e (snd p) (inventory (fst p) ! n) amt of
        (f, t, it) \<Rightarrow> (f = ADDITEM_SUCCESS, set_inv_uid (fst p) n (unique_id it), t))"

definition trade_take :: "env \<Rightarrow> sd \<times> sd \<Rightarrow> nat \<Rightarrow> int \<Rightarrow> sd \<times> sd" where
  "trade_take e p n amt = (take_inventory e 1 (fst p) n amt, snd p)"

definition trade_entry :: "env \<Rightarrow> sd \<times> sd \<Rightarrow> nat \<Rightarrow> sd \<times> sd" where
  "trade_entry e p i =
     (case deal_item (fst p) ! i of
        (n, amt) \<Rightarrow>
          if amt = 0 then p
          else
            let (f, q) = trade_give e p n amt;
                (s, t) = (if f then trade_take e q n amt else q)
            in (s\<lparr>deal_item := (deal_item s)[i := (0, 0)]\<rparr>, t))"

definition trade_round :: "env \<Rightarrow> nat \<Rightarrow> sd \<times> sd \<Rightarrow> sd \<times> sd" where
  "trade_round e i p = prod.swap (trade_entry e (prod.swap (trade_entry e p i)) i)"

definition trade_pay :: "sd \<times> sd \<Rightarrow> sd \<times> sd" where
  "trade_pay p =
     (if deal_zeny (fst p) \<noteq> 0
      then (case pay (fst p) (snd p) (deal_zeny (fst p)) of (s, t) \<Rightarrow> (s\<lparr>deal_zeny := 0\<rparr>, t))
      else p)"

definition trade_end :: "sd \<Rightarrow> sd" where
  "trade_end s = s\<lparr>deal_locked := 0, trade_partner := 0, trading := False, isBoundTrading := 0\<rparr>"

definition trade_exchange :: "env \<Rightarrow> sd \<times> sd \<Rightarrow> sd \<times> sd" where
  "trade_exchange e p =
     (let p = fold (trade_round e) [0..<10] p;
          p = trade_pay p;
          p = prod.swap (trade_pay (prod.swap p))
      in (trade_end (fst p), trade_end (snd p)))"

definition trade_tradecommit :: "env \<Rightarrow> world \<Rightarrow> int \<Rightarrow> world" where
  "trade_tradecommit e w a =
     (case w a of None \<Rightarrow> w | Some s \<Rightarrow>
        if \<not> trading s \<or> deal_locked s = 0 then w
        else case map_id2sd w (trade_partner s) of None \<Rightarrow> trade_tradecancel w a | Some t \<Rightarrow>
          let b = trade_partner s;
              s = s\<lparr>deal_locked := 2\<rparr>;
              w = w(a \<mapsto> s)
          in if deal_locked t < 2 then w
             else if impossible_trade_check s \<noteq> 0 then trade_tradecancel w a
             else if impossible_trade_check t \<noteq> 0 then trade_tradecancel w b
             else if \<not> trade_check e s t then trade_tradecancel w a
             else (case trade_exchange e (s, t) of (s, t) \<Rightarrow> w(a \<mapsto> s, b \<mapsto> t)))"

section \<open>What an offer covers\<close>

definition need :: "(nat \<times> int) list \<Rightarrow> nat \<Rightarrow> int" where
  "need ds n = sum_list (map (\<lambda>d. if fst d = n then snd d else 0) ds)"

lemma need_simps [simp]: "need [] n = 0" "need (d # ds) n = (if fst d = n then snd d else 0) + need ds n"
  by (simp_all add: need_def)

lemma need_update:
  "i < length ds \<Longrightarrow> need (ds[i := d]) n = need ds n - (if fst (ds ! i) = n then snd (ds ! i) else 0)
     + (if fst d = n then snd d else 0)"
  by (simp add: need_def sum_list_map_update)

lemma need_nonneg: "\<forall>d \<in> set ds. 0 \<le> snd d \<Longrightarrow> 0 \<le> need ds n"
  unfolding need_def by (rule sum_list_nonneg) auto

lemma need_ge:
  assumes "\<forall>d \<in> set ds. 0 \<le> snd d" "d \<in> set ds"
  shows "snd d \<le> need ds (fst d)"
  using assms
proof (induction ds)
  case (Cons x xs)
  have nn: "0 \<le> need xs (fst d)" using Cons.prems(1) by (intro need_nonneg) simp
  show ?case
  proof (cases "d = x")
    case True
    then show ?thesis using nn by simp
  next
    case False
    then have "snd d \<le> need xs (fst d)" using Cons by simp
    moreover have "0 \<le> snd x" using Cons.prems(1) by simp
    ultimately show ?thesis by simp
  qed
qed simp

text \<open>The window of a player is in order: ten entries that name slots.\<close>

definition deal_ok :: "(nat \<times> int) list \<Rightarrow> bool" where
  "deal_ok ds \<longleftrightarrow> length ds = 10 \<and> (\<forall>d \<in> set ds. fst d < MAX_INVENTORY \<and> 0 \<le> snd d \<and> snd d \<le> MAX_AMOUNT)"

definition covers :: "env \<Rightarrow> item list \<Rightarrow> (nat \<times> int) list \<Rightarrow> bool" where
  "covers e xs ds \<longleftrightarrow> deal_ok ds \<and> (\<forall>n < MAX_INVENTORY. need ds n \<le> amount (xs ! n))
     \<and> (\<forall>d \<in> set ds. 0 < snd d \<longrightarrow> live e (xs ! fst d))"

lemma deal_covered_need:
  assumes "deal_covered xs ds" "\<forall>d \<in> set ds. fst d < length xs \<and> 0 \<le> snd d"
    "\<forall>n < length xs. 0 \<le> amount (xs ! n)" "n < length xs"
  shows "need ds n \<le> amount (xs ! n)"
  using assms
proof (induction xs ds rule: deal_covered.induct)
  case (2 xs i amt ds)
  show ?case
  proof (cases "amt = 0")
    case True
    then show ?thesis using 2 by simp
  next
    case False
    let ?ys = "xs[i := (xs ! i)\<lparr>amount := amount (xs ! i) - amt\<rparr>]"
    have le: "amt \<le> amount (xs ! i)" using False "2.prems"(1) by (auto split: if_splits)
    have "need ds n \<le> amount (?ys ! n)"
      using 2(2) [OF False] 2(3-6) False le by (simp add: nth_list_update)
    then show ?thesis using "2.prems"(4) by (cases "i = n") simp_all
  qed
qed simp

lemma tradable_copy_nth:
  assumes "slots_ok MAX_INVENTORY xs" "n < MAX_INVENTORY"
  shows "length (tradable_copy xs) = MAX_INVENTORY" "0 \<le> amount (tradable_copy xs ! n)"
    "amount (tradable_copy xs ! n) \<le> amount (xs ! n)"
proof -
  have "slot_ok (xs ! n)" using slots_ok_nth assms by blast
  then show "length (tradable_copy xs) = MAX_INVENTORY" "0 \<le> amount (tradable_copy xs ! n)"
    "amount (tradable_copy xs ! n) \<le> amount (xs ! n)"
    using assms slot_ok_nonneg [of "xs ! n"]
    by (auto simp: tradable_copy_def slots_ok_def empty_item_def)
qed

lemma impossible_trade_check_covers:
  assumes "inv_ok e s" "deal_ok (deal_item s)" "impossible_trade_check s = 0"
    "\<forall>d \<in> set (deal_item s). 0 < snd d \<longrightarrow> live e (inventory s ! fst d)"
  shows "covers e (inventory s) (deal_item s)" "deal_zeny s \<le> zeny s"
proof -
  have sl: "slots_ok MAX_INVENTORY (inventory s)" using assms(1) by (simp add: inv_ok_def)
  have len: "length (tradable_copy (inventory s)) = MAX_INVENTORY"
    using sl by (simp add: tradable_copy_def slots_ok_def)
  have c: "deal_covered (tradable_copy (inventory s)) (deal_item s)" and z: "deal_zeny s \<le> zeny s"
    using assms(3) by (auto simp: impossible_trade_check_def split: if_splits)
  then show "deal_zeny s \<le> zeny s" by simp
  have "need (deal_item s) n \<le> amount (inventory s ! n)" if "n < MAX_INVENTORY" for n
    using deal_covered_need [OF c, of n] tradable_copy_nth [OF sl] that assms(2) len
    by (force simp: deal_ok_def intro: order_trans)
  then show "covers e (inventory s) (deal_item s)" using assms(2,4) by (simp add: covers_def)
qed

lemma covers_mono:
  assumes "covers e xs ds" "keeps_slots xs ys" "slots_ok MAX_INVENTORY xs" "slots_ok MAX_INVENTORY ys"
  shows "covers e ys ds"
proof -
  have len: "length xs = MAX_INVENTORY" using assms(3) by (simp add: slots_ok_def)
  have amt: "amount (xs ! n) \<le> amount (ys ! n)" if "n < MAX_INVENTORY" for n
  proof (cases "nameid (xs ! n) = 0")
    case True
    then have "amount (xs ! n) = 0" using slots_ok_nth [OF assms(3) that] by (simp add: slot_ok_def)
    then show ?thesis using slot_ok_nonneg [OF slots_ok_nth [OF assms(4) that]] by simp
  next
    case False
    then show ?thesis using keeps_slotsD [OF assms(2)] that len by simp
  qed
  have lv: "live e (ys ! fst d)" if d: "d \<in> set ds" "0 < snd d" for d
  proof -
    have n: "fst d < MAX_INVENTORY" using assms(1) d by (simp add: covers_def deal_ok_def)
    have "\<forall>d \<in> set ds. 0 \<le> snd d" using assms(1) by (simp add: covers_def deal_ok_def)
    then have "0 < need ds (fst d)" using need_ge [of ds d] d by simp
    moreover have "need ds (fst d) \<le> amount (xs ! fst d)" using assms(1) n by (simp add: covers_def)
    ultimately have "0 < amount (xs ! fst d)" by simp
    then have "nameid (xs ! fst d) \<noteq> 0"
      using slots_ok_nth [OF assms(3) n] by (simp add: slot_ok_def split: if_splits)
    then show ?thesis
      using keeps_slotsD [OF assms(2), of "fst d"] n len assms(1) d by (simp add: live_def covers_def)
  qed
  have "need ds n \<le> amount (ys ! n)" if "n < MAX_INVENTORY" for n
    using amt [OF that] assms(1) that by (fastforce simp: covers_def)
  then show ?thesis using lv assms(1) by (simp add: covers_def)
qed

lemma covers_debit:
  assumes c: "covers e xs ds" and i: "i < 10" and d: "ds ! i = (n, a)" and len: "length xs = MAX_INVENTORY"
    and a: "0 < a"
  shows "covers e (xs[n := debit (xs ! n) a]) (ds[i := (0, 0)])"
proof -
  have dk: "length ds = 10" "\<forall>d \<in> set ds. fst d < MAX_INVENTORY \<and> 0 \<le> snd d \<and> snd d \<le> MAX_AMOUNT"
    using c by (simp_all add: covers_def deal_ok_def)
  have n: "n < MAX_INVENTORY" using dk i d nth_mem [of i ds] by force
  have up: "deal_ok (ds[i := (0, 0)])"
    using dk by (auto simp: deal_ok_def MAX_INVENTORY_def MAX_AMOUNT_def dest!: set_update_subset_insert [THEN subsetD])
  have nd: "need (ds[i := (0, 0)]) m = need ds m - (if n = m then a else 0)" for m
    using dk(1) i d by (simp add: need_update)
  have nle: "need ds m \<le> amount (xs ! m)" if "m < MAX_INVENTORY" for m
    using c that by (simp add: covers_def)
  have amt: "need (ds[i := (0, 0)]) m \<le> amount (xs[n := debit (xs ! n) a] ! m)"
    if "m < MAX_INVENTORY" for m
    using nle [OF that] that n len by (auto simp: nd nth_list_update debit_def empty_item_def)
  have lv: "live e (xs[n := debit (xs ! n) a] ! fst d)"
    if "d \<in> set (ds[i := (0, 0)])" "0 < snd d" for d
  proof -
    have dm: "d \<in> set ds" using that set_update_subset_insert [of ds i "(0, 0)"] by auto
    then have l: "live e (xs ! fst d)" using c that(2) by (simp add: covers_def)
    have "fst d < MAX_INVENTORY" using dk(2) dm by simp
    then show ?thesis
    proof (cases "fst d = n")
      case True
      have "snd d \<le> need (ds[i := (0, 0)]) n"
        using need_ge [of "ds[i := (0, 0)]" d] up that(1) True by (simp add: deal_ok_def)
      then have "a < amount (xs ! n)" using nle [OF n] that(2) by (simp add: nd)
      then show ?thesis using True l n len by (simp add: debit_def live_def)
    qed (use l in simp)
  qed
  show ?thesis using up amt lv by (simp add: covers_def)
qed

section \<open>Handing over as a mover\<close>

definition pair_ok :: "env \<Rightarrow> sd \<times> sd \<Rightarrow> bool" where
  "pair_ok e p \<longleftrightarrow> player_ok e (fst p) \<and> player_ok e (snd p)"

definition pair_total :: "nat \<Rightarrow> sd \<times> sd \<Rightarrow> int" where
  "pair_total k p = holdings k (fst p) + holdings k (snd p)"

lemma set_inv_uid_frame:
  assumes "player_ok e s" "n < MAX_INVENTORY"
  shows "player_ok e (set_inv_uid s n u)" "holdings k (set_inv_uid s n u) = holdings k s"
    "keeps_slots (inventory s) (inventory (set_inv_uid s n u))" "same_trade s (set_inv_uid s n u)"
    "nameid (inventory (set_inv_uid s n u) ! n) = nameid (inventory s ! n)"
    "amount (inventory (set_inv_uid s n u) ! n) = amount (inventory s ! n)"
proof -
  let ?x = "(inventory s ! n)\<lparr>unique_id := u\<rparr>"
  let ?ys = "(inventory s)[n := ?x]"
  have ok: "inv_ok e s" "stores_ok s" using assms(1) by (simp_all add: player_ok_def)
  have len: "length (inventory s) = MAX_INVENTORY" by (rule inv_okD(1) [OF ok(1)])
  have "slot_ok ?x = slot_ok (inventory s ! n)" by (simp add: slot_ok_def)
  then have sl: "slots_ok MAX_INVENTORY ?ys"
    using ok(1) slots_ok_nth [of MAX_INVENTORY "inventory s", OF _ assms(2)]
    by (intro slots_ok_update) (simp_all add: inv_ok_def)
  have tw: "total_weight e ?ys = total_weight e (inventory s)"
    using len assms(2) by (simp add: total_weight_update item_weight_def)
  have nid: "nameid (?ys ! i) = nameid (inventory s ! i)" for i
    using len assms(2) by (cases "i = n") simp_all
  show "player_ok e (set_inv_uid s n u)"
    using assms(1) sl tw nid by (simp add: player_ok_def inv_ok_def cart_ok_def set_inv_uid_def)
  show "holdings k (set_inv_uid s n u) = holdings k s"
    using len assms(2) by (simp add: holdings_def set_inv_uid_def held_update units_def)
  show "keeps_slots (inventory s) (inventory (set_inv_uid s n u))"
    using nid len assms(2) by (simp add: keeps_slots_def set_inv_uid_def nth_list_update)
  show "same_trade s (set_inv_uid s n u)" using ok by (simp add: same_trade_def set_inv_uid_def)
  show "nameid (inventory (set_inv_uid s n u) ! n) = nameid (inventory s ! n)"
    "amount (inventory (set_inv_uid s n u) ! n) = amount (inventory s ! n)"
    using len assms(2) by (simp_all add: set_inv_uid_def)
qed

text \<open>What giving does to the two players, whether the receiver accepted or not.\<close>

lemma trade_give_frame:
  assumes ok: "pair_ok e p" and n: "n < MAX_INVENTORY" and lv: "live e (inventory (fst p) ! n)"
    and r: "trade_give e p n a = (b, q)"
  shows "pair_ok e q" "keeps_slots (inventory (fst p)) (inventory (fst q))" "same_trade (fst p) (fst q)"
    "grows (snd p) (snd q)" "nameid (inventory (fst q) ! n) = nameid (inventory (fst p) ! n)"
    "amount (inventory (fst q) ! n) = amount (inventory (fst p) ! n)"
    "pair_total k q = pair_total k p + (if b \<and> nameid (inventory (fst p) ! n) = k then a else 0)"
proof -
  obtain f t it where c: "pc_additem e (snd p) (inventory (fst p) ! n) a = (f, t, it)"
    by (metis prod.exhaust)
  have q: "q = (set_inv_uid (fst p) n (unique_id it), t)" and b: "b = (f = ADDITEM_SUCCESS)"
    using r by (auto simp: trade_give_def c)
  have s: "player_ok e (fst p)" and ts: "player_ok e (snd p)" using ok by (simp_all add: pair_ok_def)
  note F = set_inv_uid_frame [OF s n, where u = "unique_id it"]
  have i: "inv_ok e (snd p)" "hooks_ok e" using ts by (simp_all add: player_ok_def)
  have T: "player_ok e t \<and> grows (snd p) t \<and> (\<forall>k. holdings k t = holdings k (snd p)
      + (if b \<and> nameid (inventory (fst p) ! n) = k then a else 0))"
  proof (cases b)
    case True
    then have "added e (snd p) (inventory (fst p) ! n) a t"
      using pc_additem_added(1) [OF i(1,2)] lv c b by (simp add: live_def)
    then show ?thesis using added_player_ok ts True by (simp add: added_def)
  next
    case False
    then have "f \<noteq> ADDITEM_SUCCESS" using b by simp
    note R = pc_additem_refused [OF i(2) c this]
    have "player_ok e t"
      using R(1) same_cart_ok [OF R(4)] stores_ok_cong [OF R(5)] ts by (simp add: player_ok_def)
    then show ?thesis using R(2,3) False by simp
  qed
  show "pair_ok e q" using F(1) T by (simp add: pair_ok_def q)
  show "keeps_slots (inventory (fst p)) (inventory (fst q))" "same_trade (fst p) (fst q)"
    "nameid (inventory (fst q) ! n) = nameid (inventory (fst p) ! n)"
    "amount (inventory (fst q) ! n) = amount (inventory (fst p) ! n)"
    using F(3-6) by (simp_all add: q)
  show "grows (snd p) (snd q)" using T by (simp add: q)
  show "pair_total k q = pair_total k p + (if b \<and> nameid (inventory (fst p) ! n) = k then a else 0)"
    using F(2) T by (simp add: q pair_total_def)
qed

lemma trade_take_frame:
  assumes ok: "pair_ok e p" and n: "n < MAX_INVENTORY" and nz: "nameid (inventory (fst p) ! n) \<noteq> 0"
    and a: "0 < a" "a \<le> amount (inventory (fst p) ! n)"
  shows "pair_ok e (trade_take e p n a)" "same_trade (fst p) (fst (trade_take e p n a))"
    "keeps_slots ((inventory (fst p))[n := debit (inventory (fst p) ! n) a])
       (inventory (fst (trade_take e p n a)))"
    "pair_total k (trade_take e p n a)
       = pair_total k p - (if nameid (inventory (fst p) ! n) = k then a else 0)"
    "snd (trade_take e p n a) = snd p"
proof -
  have s: "player_ok e (fst p)" and t: "player_ok e (snd p)" using ok by (simp_all add: pair_ok_def)
  have i: "inv_ok e (fst p)" "hooks_ok e" using s by (simp_all add: player_ok_def)
  have r: "removed e (fst p) n a (take_inventory e 1 (fst p) n a)"
    using pc_delitem_removed [of "int n" e "fst p" a 1] i n nz a by (simp add: take_inventory_def)
  then show "pair_ok e (trade_take e p n a)"
    using removed_player_ok [OF r s] t by (simp add: pair_ok_def trade_take_def)
  show "same_trade (fst p) (fst (trade_take e p n a))"
    "keeps_slots ((inventory (fst p))[n := debit (inventory (fst p) ! n) a])
       (inventory (fst (trade_take e p n a)))"
    "snd (trade_take e p n a) = snd p"
    using r by (simp_all add: removed_def trade_take_def)
  show "pair_total k (trade_take e p n a)
       = pair_total k p - (if nameid (inventory (fst p) ! n) = k then a else 0)"
    using r by (simp add: removed_def trade_take_def pair_total_def)
qed

interpretation trade_mover: item_mover "pair_ok e" pair_total MAX_INVENTORY
  "\<lambda>p. (!) (inventory (fst p))" "live e" "trade_give e" "trade_take e" for e
proof (unfold_locales, goal_cases)
  case (1 p i a t)
  then show ?case using trade_give_frame [OF 1(1,2,4,7)] by simp
next
  case (2 p i a t)
  show ?case
  proof (cases "live e (inventory (fst p) ! i)")
    case True
    then show ?thesis using trade_give_frame(1,7) [OF 2(1,2) True 2(3)] by simp
  next
    case False
    obtain f t' it where c: "pc_additem e (snd p) (inventory (fst p) ! i) a = (f, t', it)"
      by (metis prod.exhaust)
    have f: "f \<noteq> ADDITEM_SUCCESS" and t: "t = (set_inv_uid (fst p) i (unique_id it), t')"
      using 2(3) by (auto simp: trade_give_def c)
    have s: "player_ok e (fst p)" and ts: "player_ok e (snd p)" using 2(1) by (simp_all add: pair_ok_def)
    then have h: "hooks_ok e" by (simp add: player_ok_def)
    note R = pc_additem_refused [OF h c f]
    have "player_ok e t'"
      using R(1) same_cart_ok [OF R(4)] stores_ok_cong [OF R(5)] ts by (simp add: player_ok_def)
    then show ?thesis
      using set_inv_uid_frame(1,2) [OF s 2(2)] R(2) by (simp add: t pair_ok_def pair_total_def)
  qed
next
  case (3 p i a)
  then show ?case using trade_take_frame(1,4) [OF 3] by simp
qed

section \<open>The exchange\<close>

text \<open>Both windows are covered by what their owners hold.\<close>

definition offers_ok :: "env \<Rightarrow> sd \<times> sd \<Rightarrow> bool" where
  "offers_ok e p \<longleftrightarrow> pair_ok e p
     \<and> covers e (inventory (fst p)) (deal_item (fst p)) \<and> covers e (inventory (snd p)) (deal_item (snd p))"

definition money_of :: "sd \<times> sd \<Rightarrow> int \<times> int \<times> int \<times> int" where
  "money_of p = (zeny (fst p), deal_zeny (fst p), zeny (snd p), deal_zeny (snd p))"

lemma player_ok_slots: "player_ok e s \<Longrightarrow> slots_ok MAX_INVENTORY (inventory s)"
  by (simp add: player_ok_def inv_ok_def)

lemma player_ok_deal [simp]: "player_ok e (s\<lparr>deal_item := ds\<rparr>) = player_ok e s"
  by (simp add: player_ok_def inv_ok_def cart_ok_def)

lemma holdings_deal [simp]: "holdings k (s\<lparr>deal_item := ds\<rparr>) = holdings k s"
  by (simp add: holdings_def)

lemma trade_entry_step:
  assumes ok: "offers_ok e p" and i: "i < 10"
  shows "offers_ok e (trade_entry e p i) \<and> (\<forall>k. pair_total k (trade_entry e p i) = pair_total k p)
    \<and> money_of (trade_entry e p i) = money_of p"
proof -
  obtain n a where d: "deal_item (fst p) ! i = (n, a)" by fastforce
  have po: "pair_ok e p" and c1: "covers e (inventory (fst p)) (deal_item (fst p))"
    and c2: "covers e (inventory (snd p)) (deal_item (snd p))"
    using ok by (simp_all add: offers_ok_def)
  have s: "player_ok e (fst p)" and t: "player_ok e (snd p)" using po by (simp_all add: pair_ok_def)
  note sl = player_ok_slots [OF s] and tl = player_ok_slots [OF t]
  show ?thesis
  proof (cases "a = 0")
    case True
    then show ?thesis using ok by (simp add: trade_entry_def d)
  next
    case False
    have "length (deal_item (fst p)) = 10" using c1 by (simp add: covers_def deal_ok_def)
    then have mem: "(n, a) \<in> set (deal_item (fst p))" using i d nth_mem by metis
    then have n: "n < MAX_INVENTORY" and a: "0 < a"
      using c1 False by (auto simp: covers_def deal_ok_def)
    have lv: "live e (inventory (fst p) ! n)" using c1 mem a by (auto simp: covers_def)
    have "a \<le> need (deal_item (fst p)) n"
      using need_ge [of "deal_item (fst p)" "(n, a)"] mem c1 by (simp add: covers_def deal_ok_def)
    then have le: "a \<le> amount (inventory (fst p) ! n)"
      using c1 n by (fastforce simp: covers_def)
    then have nz: "nameid (inventory (fst p) ! n) \<noteq> 0"
      using slots_ok_nth [OF sl n] a by (simp add: slot_ok_def split: if_splits)
    obtain b q where g: "trade_give e p n a = (b, q)" by (cases "trade_give e p n a")
    note G = trade_give_frame [OF po n lv g]
    have q1: "player_ok e (fst q)" and q2: "player_ok e (snd q)" using G(1) by (simp_all add: pair_ok_def)
    have cq1: "covers e (inventory (fst q)) (deal_item (fst q))"
      using covers_mono [OF c1 G(2) sl player_ok_slots [OF q1]] G(3) by (simp add: same_trade_def)
    have cq2: "covers e (inventory (snd q)) (deal_item (snd q))"
      using covers_mono [OF c2 _ tl player_ok_slots [OF q2]] G(4) by (simp add: grows_def same_trade_def)
    have dq: "deal_item (fst q) ! i = (n, a)" using G(3) d by (simp add: same_trade_def)
    have lenq: "length (inventory (fst q)) = MAX_INVENTORY" using player_ok_slot(3) [OF q1] .
    note cd = covers_debit [OF cq1 i dq lenq a]
    have nzq: "nameid (inventory (fst q) ! n) \<noteq> 0" and leq: "a \<le> amount (inventory (fst q) ! n)"
      using G(5,6) nz le by simp_all
    note T = trade_take_frame [OF G(1) n nzq a leq]
    define r where "r = (if b then trade_take e q n a else q)"
    have rok: "pair_ok e r" using T(1) G(1) by (simp add: r_def)
    have rt: "same_trade (fst q) (fst r)" "snd r = snd q" using T(2,5) by (simp_all add: r_def)
    have slq: "slots_ok MAX_INVENTORY ((inventory (fst q))[n := debit (inventory (fst q) ! n) a])"
      using slots_ok_nth [OF player_ok_slots [OF q1] n] player_ok_slots [OF q1] a leq
      by (intro slots_ok_update) (auto simp: debit_def slot_ok_def split: if_splits)
    have "keeps_slots ((inventory (fst q))[n := debit (inventory (fst q) ! n) a]) (inventory (fst r))"
    proof (cases b)
      case True
      then show ?thesis using T(3) by (simp add: r_def)
    next
      case False
      then show ?thesis using a n lenq by (auto simp: r_def keeps_slots_def nth_list_update debit_def)
    qed
    moreover have r1: "player_ok e (fst r)" using rok by (simp add: pair_ok_def)
    ultimately have cr: "covers e (inventory (fst r)) ((deal_item (fst q))[i := (0, 0)])"
      using covers_mono [OF cd _ slq player_ok_slots [OF r1]] by simp
    have tot: "pair_total k r = pair_total k p" for k
      using T(4) G(7) G(5) by (auto simp: r_def)
    have eq: "trade_entry e p i = ((fst r)\<lparr>deal_item := (deal_item (fst r))[i := (0, 0)]\<rparr>, snd r)"
      using False by (simp add: trade_entry_def d g r_def split_beta)
    have dr: "deal_item (fst r) = deal_item (fst q)" using rt(1) by (simp add: same_trade_def)
    have "offers_ok e (trade_entry e p i)"
      using rok cr cq2 rt(2) by (simp add: eq offers_ok_def pair_ok_def dr)
    moreover have "money_of (trade_entry e p i) = money_of p"
      using rt G(3,4) by (simp add: eq money_of_def grows_def same_trade_def)
    ultimately show ?thesis using tot by (simp add: eq pair_total_def)
  qed
qed

lemma offers_ok_swap: "offers_ok e (prod.swap p) = offers_ok e p"
  by (auto simp: offers_ok_def pair_ok_def)

lemma pair_total_swap: "pair_total k (prod.swap p) = pair_total k p"
  by (simp add: pair_total_def)

lemma money_of_swap: "money_of (prod.swap p) = money_of (prod.swap q) \<longleftrightarrow> money_of p = money_of q"
  by (auto simp: money_of_def)

definition kept :: "env \<Rightarrow> sd \<times> sd \<Rightarrow> sd \<times> sd \<Rightarrow> bool" where
  "kept e p q \<longleftrightarrow> offers_ok e q \<and> (\<forall>k. pair_total k q = pair_total k p) \<and> money_of q = money_of p"

lemma trade_round_step:
  assumes "offers_ok e p" "i < 10"
  shows "kept e p (trade_round e i p)"
proof -
  let ?q = "trade_entry e p i"
  note A = trade_entry_step [OF assms]
  then have sw: "offers_ok e (prod.swap ?q)" by (simp add: offers_ok_swap)
  note B = trade_entry_step [OF sw assms(2)]
  have "money_of (trade_round e i p) = money_of ?q"
    unfolding trade_round_def using B money_of_swap [of "trade_entry e (prod.swap ?q) i" "prod.swap ?q"] by simp
  then show ?thesis
    using A B by (simp add: kept_def trade_round_def offers_ok_swap pair_total_swap)
qed

lemma trade_rounds_step:
  assumes "offers_ok e p" "\<forall>i \<in> set is. i < 10"
  shows "kept e p (fold (trade_round e) is p)"
  using assms
proof (induction "is" arbitrary: p)
  case Nil
  then show ?case by (simp add: kept_def)
next
  case (Cons i "is")
  have k: "kept e p (trade_round e i p)" using trade_round_step Cons.prems by simp
  then have "kept e (trade_round e i p) (fold (trade_round e) is (trade_round e i p))"
    using Cons by (simp add: kept_def)
  with k show ?case by (simp add: kept_def)
qed

lemma player_ok_updates [simp]:
  "player_ok e (s\<lparr>zeny := z\<rparr>) = player_ok e s" "player_ok e (s\<lparr>deal_zeny := z\<rparr>) = player_ok e s"
  "player_ok e (s\<lparr>deal_locked := l\<rparr>) = player_ok e s" "player_ok e (s\<lparr>trade_partner := tp\<rparr>) = player_ok e s"
  "player_ok e (s\<lparr>trading := b\<rparr>) = player_ok e s" "player_ok e (s\<lparr>isBoundTrading := ib\<rparr>) = player_ok e s"
  "player_ok e (s\<lparr>deal_weight := z\<rparr>) = player_ok e s" "player_ok e (s\<lparr>chatID := c\<rparr>) = player_ok e s"
  by (simp_all add: player_ok_def inv_ok_def cart_ok_def stores_ok_def stores_def)

lemma holdings_updates [simp]:
  "holdings k (s\<lparr>zeny := z\<rparr>) = holdings k s" "holdings k (s\<lparr>deal_zeny := z\<rparr>) = holdings k s"
  "holdings k (s\<lparr>deal_locked := l\<rparr>) = holdings k s" "holdings k (s\<lparr>trade_partner := tp\<rparr>) = holdings k s"
  "holdings k (s\<lparr>trading := b\<rparr>) = holdings k s" "holdings k (s\<lparr>isBoundTrading := ib\<rparr>) = holdings k s"
  "holdings k (s\<lparr>deal_weight := z\<rparr>) = holdings k s"
  by (simp_all add: holdings_def stores_def)

text \<open>The money checks of \<open>trade_check\<close>, for both directions.\<close>

definition funds_ok :: "sd \<times> sd \<Rightarrow> bool" where
  "funds_ok p \<longleftrightarrow> 0 \<le> zeny (fst p) \<and> zeny (fst p) \<le> MAX_ZENY \<and> 0 \<le> zeny (snd p) \<and> zeny (snd p) \<le> MAX_ZENY
     \<and> 0 \<le> deal_zeny (fst p) \<and> deal_zeny (fst p) \<le> zeny (fst p) \<and> zeny (snd p) \<le> MAX_ZENY - deal_zeny (fst p)
     \<and> 0 \<le> deal_zeny (snd p) \<and> deal_zeny (snd p) \<le> zeny (snd p) \<and> zeny (fst p) \<le> MAX_ZENY - deal_zeny (snd p)"

lemma trade_pay_eq:
  assumes "zeny s \<le> MAX_ZENY" "0 \<le> zeny t" "0 \<le> deal_zeny s" "deal_zeny s \<le> zeny s"
    "deal_zeny s \<le> MAX_ZENY - zeny t"
  shows "trade_pay (s, t) = (s\<lparr>zeny := zeny s - deal_zeny s, deal_zeny := 0\<rparr>, t\<lparr>zeny := zeny t + deal_zeny s\<rparr>)"
proof (cases "deal_zeny s = 0")
  case True
  then show ?thesis by (simp add: trade_pay_def)
next
  case False
  then show ?thesis using pay_conserves [of s t "deal_zeny s"] assms by (simp add: trade_pay_def)
qed

lemma trade_pay_both:
  assumes "funds_ok (s, t)"
  shows "trade_pay (prod.swap (trade_pay (s, t))) =
    (t\<lparr>zeny := zeny t + deal_zeny s - deal_zeny t, deal_zeny := 0\<rparr>,
     s\<lparr>zeny := zeny s - deal_zeny s + deal_zeny t, deal_zeny := 0\<rparr>)"
proof -
  let ?s = "s\<lparr>zeny := zeny s - deal_zeny s, deal_zeny := 0\<rparr>"
  let ?t = "t\<lparr>zeny := zeny t + deal_zeny s\<rparr>"
  have 1: "trade_pay (s, t) = (?s, ?t)" using assms by (intro trade_pay_eq) (simp_all add: funds_ok_def)
  have 2: "trade_pay (?t, ?s) = (?t\<lparr>zeny := zeny ?t - deal_zeny ?t, deal_zeny := 0\<rparr>,
      ?s\<lparr>zeny := zeny ?s + deal_zeny ?t\<rparr>)"
    using assms by (intro trade_pay_eq) (simp_all add: funds_ok_def)
  show ?thesis by (simp add: 1 2)
qed

lemma trade_exchange_conserves:
  assumes ok: "offers_ok e p" and f: "funds_ok p" and r: "trade_exchange e p = (s', t')"
  shows "offers_ok e (s', t')" "pair_total k (s', t') = pair_total k p"
    "zeny s' = zeny (fst p) - deal_zeny (fst p) + deal_zeny (snd p)"
    "zeny t' = zeny (snd p) + deal_zeny (fst p) - deal_zeny (snd p)"
    "\<not> trading s' \<and> \<not> trading t' \<and> trade_partner s' = 0 \<and> trade_partner t' = 0
     \<and> deal_locked s' = 0 \<and> deal_locked t' = 0 \<and> deal_zeny s' = 0 \<and> deal_zeny t' = 0"
proof -
  obtain s t where q: "fold (trade_round e) [0..<10] p = (s, t)" by (metis prod.exhaust)
  have k: "kept e p (s, t)"
    using trade_rounds_step [OF ok, of "[0..<10]"] q by simp
  then have m: "money_of (s, t) = money_of p" by (simp add: kept_def)
  then have "funds_ok (s, t)" using f by (simp add: funds_ok_def money_of_def)
  note P = trade_pay_both [OF this]
  have eq: "s' = trade_end (s\<lparr>zeny := zeny s - deal_zeny s + deal_zeny t, deal_zeny := 0\<rparr>)"
    "t' = trade_end (t\<lparr>zeny := zeny t + deal_zeny s - deal_zeny t, deal_zeny := 0\<rparr>)"
    using r by (simp_all add: trade_exchange_def q P Let_def del: swap_simp upt.simps)
  have "offers_ok e (s, t)" "pair_total k (s, t) = pair_total k p" using k by (simp_all add: kept_def)
  then show "offers_ok e (s', t')" "pair_total k (s', t') = pair_total k p"
    by (simp_all add: eq offers_ok_def pair_ok_def trade_end_def pair_total_def)
  show "zeny s' = zeny (fst p) - deal_zeny (fst p) + deal_zeny (snd p)"
    "zeny t' = zeny (snd p) + deal_zeny (fst p) - deal_zeny (snd p)"
    using m by (simp_all add: eq trade_end_def money_of_def)
  show "\<not> trading s' \<and> \<not> trading t' \<and> trade_partner s' = 0 \<and> trade_partner t' = 0
     \<and> deal_locked s' = 0 \<and> deal_locked t' = 0 \<and> deal_zeny s' = 0 \<and> deal_zeny t' = 0"
    by (simp add: eq trade_end_def)
qed

section \<open>The invariant of the online players\<close>

definition trader_ok :: "env \<Rightarrow> sd \<Rightarrow> bool" where
  "trader_ok e s \<longleftrightarrow> player_ok e s \<and> deal_ok (deal_item s) \<and> 0 \<le> zeny s \<and> zeny s \<le> MAX_ZENY
     \<and> 0 \<le> deal_zeny s \<and> (\<forall>d \<in> set (deal_item s). 0 < snd d \<longrightarrow> live e (inventory s ! fst d))"

text \<open>
  Every player is filed under his account id and is not his own partner. Partners need
  not point at each other: a request made with an open window breaks the link on one side.
\<close>

definition named :: "world \<Rightarrow> bool" where
  "named w \<longleftrightarrow> (\<forall>a s. w a = Some s \<longrightarrow> 0 < a \<and> account_id s = a \<and> trade_partner s \<noteq> a)"

definition world_ok :: "env \<Rightarrow> world \<Rightarrow> bool" where
  "world_ok e w \<longleftrightarrow> finite (dom w) \<and> named w \<and> (\<forall>a s. w a = Some s \<longrightarrow> trader_ok e s)"

definition world_units :: "nat \<Rightarrow> world \<Rightarrow> int" where
  "world_units k w = (\<Sum>a \<in> dom w. holdings k (the (w a)))"

definition world_zeny :: "world \<Rightarrow> int" where
  "world_zeny w = (\<Sum>a \<in> dom w. zeny (the (w a)))"

lemma namedD:
  assumes "named w" "w a = Some s"
  shows "0 < a" "account_id s = a" "trade_partner s \<noteq> a"
  using assms unfolding named_def by blast+

lemma named_update:
  "named w \<Longrightarrow> 0 < a \<Longrightarrow> account_id s = a \<Longrightarrow> trade_partner s \<noteq> a \<Longrightarrow> named (w(a \<mapsto> s))"
  by (simp add: named_def)

lemma map_id2sd_Some: "map_id2sd w b = Some t \<Longrightarrow> w b = Some t \<and> b \<noteq> 0"
  by (simp add: map_id2sd_def split: if_splits)

section \<open>Conservation over all online players\<close>

definition conserved :: "env \<Rightarrow> world \<Rightarrow> world \<Rightarrow> bool" where
  "conserved e w w' \<longleftrightarrow> world_ok e w' \<and> dom w' = dom w
     \<and> (\<forall>k. world_units k w' = world_units k w) \<and> world_zeny w' = world_zeny w"

lemma conserved_refl: "world_ok e w \<Longrightarrow> conserved e w w"
  by (simp add: conserved_def)

lemma conserved_trans: "conserved e w w1 \<Longrightarrow> conserved e w1 w2 \<Longrightarrow> conserved e w w2"
  by (simp add: conserved_def)

lemma sum_dom_update:
  fixes f :: "sd \<Rightarrow> int"
  assumes "finite (dom w)" "w a = Some s"
  shows "(\<Sum>c \<in> dom (w(a \<mapsto> s')). f (the ((w(a \<mapsto> s')) c))) = (\<Sum>c \<in> dom w. f (the (w c))) - f s + f s'"
proof -
  have d: "dom (w(a \<mapsto> s')) = dom w" using assms(2) by auto
  have "(\<Sum>c \<in> dom w - {a}. f (the ((w(a \<mapsto> s')) c))) = (\<Sum>c \<in> dom w - {a}. f (the (w c)))"
    by (rule sum.cong) simp_all
  then show ?thesis
    using sum.remove [OF assms(1), of a "\<lambda>c. f (the ((w(a \<mapsto> s')) c))"]
      sum.remove [OF assms(1), of a "\<lambda>c. f (the (w c))"] assms(2) domI [of w a s] insert_absorb [of a "dom w"]
    by (simp add: d)
qed

lemma world_okD:
  assumes "world_ok e w"
  shows "named w" "w a = Some s \<Longrightarrow> trader_ok e s"
  using assms by (simp_all add: world_ok_def)

lemma conserved_one:
  assumes ok: "world_ok e w" and a: "w a = Some s"
    and s': "trader_ok e s'" "\<forall>k. holdings k s' = holdings k s" "zeny s' = zeny s"
      "account_id s' = a" "trade_partner s' \<noteq> a"
  shows "conserved e w (w(a \<mapsto> s'))"
proof -
  have fin: "finite (dom w)" and all: "\<forall>a s. w a = Some s \<longrightarrow> trader_ok e s"
    using ok by (simp_all add: world_ok_def)
  have "named (w(a \<mapsto> s'))"
    using named_update [OF world_okD(1) [OF ok] _ s'(4,5)] namedD(1) [OF world_okD(1) [OF ok] a] by blast
  then have "world_ok e (w(a \<mapsto> s'))" using fin all s'(1) by (simp add: world_ok_def)
  moreover have "dom (w(a \<mapsto> s')) = dom w" using a by auto
  ultimately show ?thesis
    using sum_dom_update [OF fin a] s'(2,3) by (simp add: conserved_def world_units_def world_zeny_def)
qed

lemma conserved_two:
  assumes ok: "world_ok e w" and ab: "w a = Some s" "w b = Some t" "a \<noteq> b"
    and n: "trader_ok e s'" "trader_ok e t'"
    and tot: "\<forall>k. holdings k s' + holdings k t' = holdings k s + holdings k t" "zeny s' + zeny t' = zeny s + zeny t"
    and p: "account_id s' = a" "account_id t' = b" "trade_partner s' \<noteq> a" "trade_partner t' \<noteq> b"
  shows "conserved e w (w(a \<mapsto> s', b \<mapsto> t'))"
proof -
  have fin: "finite (dom w)" and all: "\<forall>a s. w a = Some s \<longrightarrow> trader_ok e s" and nm: "named w"
    using ok by (simp_all add: world_ok_def)
  have fin1: "finite (dom (w(a \<mapsto> s')))" using fin by simp
  have b1: "(w(a \<mapsto> s')) b = Some t" using ab by simp
  note S = sum_dom_update [OF fin1 b1] and S1 = sum_dom_update [OF fin ab(1)]
  have pos: "0 < a" "0 < b" using namedD(1) [OF nm] ab by blast+
  have "named (w(a \<mapsto> s', b \<mapsto> t'))"
    by (rule named_update [OF named_update [OF nm pos(1) p(1,3)] pos(2) p(2,4)])
  then have "world_ok e (w(a \<mapsto> s', b \<mapsto> t'))" using fin all n by (simp add: world_ok_def)
  moreover have "dom (w(a \<mapsto> s', b \<mapsto> t')) = dom w" using ab by auto
  moreover have "world_units k (w(a \<mapsto> s', b \<mapsto> t')) = world_units k w" for k
    unfolding world_units_def S S1 using spec [OF tot(1), of k] by simp
  moreover have "world_zeny (w(a \<mapsto> s', b \<mapsto> t')) = world_zeny w"
    unfolding world_zeny_def S S1 using tot(2) by simp
  ultimately show ?thesis by (simp add: conserved_def)
qed

lemma trader_ok_updates [simp]:
  "trader_ok e (s\<lparr>deal_locked := l\<rparr>) = trader_ok e s" "trader_ok e (s\<lparr>trade_partner := tp\<rparr>) = trader_ok e s"
  "trader_ok e (s\<lparr>trading := b\<rparr>) = trader_ok e s" "trader_ok e (s\<lparr>isBoundTrading := ib\<rparr>) = trader_ok e s"
  "trader_ok e (s\<lparr>deal_weight := z\<rparr>) = trader_ok e s" "trader_ok e (s\<lparr>chatID := c\<rparr>) = trader_ok e s"
  by (simp_all add: trader_ok_def)

lemma trader_ok_reset:
  assumes "trader_ok e s"
  shows "trader_ok e (trade_reset s)" "holdings k (trade_reset s) = holdings k s"
    "zeny (trade_reset s) = zeny s" "account_id (trade_reset s) = account_id s"
    "trade_partner (trade_reset s) = 0" "\<not> trading (trade_reset s)"
  using assms by (auto simp: trade_reset_def trader_ok_def deal_ok_def MAX_INVENTORY_def MAX_AMOUNT_def)

lemma trader_ok_start:
  assumes "trader_ok e s"
  shows "trader_ok e (trade_start s)" "holdings k (trade_start s) = holdings k s"
    "zeny (trade_start s) = zeny s" "account_id (trade_start s) = account_id s"
    "trade_partner (trade_start s) = trade_partner s" "trading (trade_start s)"
  using assms
  by (auto simp: trade_start_def no_deal_def trader_ok_def deal_ok_def MAX_INVENTORY_def MAX_AMOUNT_def)

lemma trader_ok_unlock:
  assumes "trader_ok e s"
  shows "trader_ok e (trade_unlock s)" "holdings k (trade_unlock s) = holdings k s"
    "zeny (trade_unlock s) = zeny s" "account_id (trade_unlock s) = account_id s"
    "trade_partner (trade_unlock s) = 0" "trading (trade_unlock s) = trading s"
  using assms by (simp_all add: trade_unlock_def)

text \<open>The partner of a player, where there is one, is another player.\<close>

lemma partner_facts:
  assumes ok: "world_ok e w" and a: "w a = Some s" and t: "map_id2sd w (trade_partner s) = Some t"
  shows "w (trade_partner s) = Some t" "trade_partner s \<noteq> 0" "trade_partner s \<noteq> a" "a \<noteq> 0"
    "account_id s = a" "account_id t = trade_partner s" "trade_partner t \<noteq> trade_partner s"
    "trader_ok e s" "trader_ok e t"
proof -
  have p: "named w" by (rule world_okD(1) [OF ok])
  show t': "w (trade_partner s) = Some t" and nz: "trade_partner s \<noteq> 0"
    using map_id2sd_Some [OF t] by simp_all
  show "trade_partner s \<noteq> a" "a \<noteq> 0" using namedD(1,3) [OF p a] by simp_all
  show "account_id s = a" "account_id t = trade_partner s" "trade_partner t \<noteq> trade_partner s"
    using namedD(2) [OF p a] namedD(2,3) [OF p t'] by simp_all
  show "trader_ok e s" "trader_ok e t" using world_okD(2) [OF ok] a t' by blast+
qed

text \<open>A step of a player and his partner, who are left without a partner or with the one they had.\<close>

lemma conserved_pair:
  assumes ok: "world_ok e w" and a: "w a = Some s" and t: "map_id2sd w (trade_partner s) = Some t"
    and n: "trader_ok e s'" "trader_ok e t'" "account_id s' = a" "account_id t' = trade_partner s"
    and tot: "\<forall>k. holdings k s' + holdings k t' = holdings k s + holdings k t" "zeny s' + zeny t' = zeny s + zeny t"
    and new: "trade_partner s' = 0 \<or> trade_partner s' = trade_partner s" "trade_partner t' = 0 \<or> trade_partner t' = trade_partner t"
  shows "conserved e w (w(a \<mapsto> s', trade_partner s \<mapsto> t'))"
proof -
  note F = partner_facts [OF ok a t]
  show ?thesis
    by (rule conserved_two [OF ok a F(1) F(3) [symmetric] n(1,2) tot n(3,4)]) (use new F(2-4,7) in auto)
qed

lemma conserved_alone:
  assumes ok: "world_ok e w" and a: "w a = Some s"
    and s': "trader_ok e s'" "\<forall>k. holdings k s' = holdings k s" "zeny s' = zeny s"
      "account_id s' = account_id s" "trade_partner s' = 0 \<or> trade_partner s' = trade_partner s"
  shows "conserved e w (w(a \<mapsto> s'))"
proof -
  note N = namedD [OF world_okD(1) [OF ok] a]
  show ?thesis by (rule conserved_one [OF ok a s'(1-3)]) (use s'(4,5) N in auto)
qed

lemma trade_tradecancel_conserved:
  assumes ok: "world_ok e w"
  shows "conserved e w (trade_tradecancel w a)"
proof (cases "w a")
  case None
  then show ?thesis using conserved_refl [OF ok] by (simp add: trade_tradecancel_def)
next
  case (Some s)
  note a = Some
  have ts: "trader_ok e s" by (rule world_okD(2) [OF ok Some])
  let ?s = "s\<lparr>isBoundTrading := 0\<rparr>"
  have r: "trader_ok e ?s" using ts by simp
  note R = trader_ok_reset [OF r]
  show ?thesis
  proof (cases "map_id2sd w (trade_partner s)")
    case None
    have "conserved e w (w(a \<mapsto> trade_reset ?s))" "conserved e w (w(a \<mapsto> ?s\<lparr>trade_partner := 0\<rparr>))"
      by (intro conserved_alone [OF ok a]; simp add: R ts)+
    then show ?thesis using None a by (cases "trading s") (simp_all add: trade_tradecancel_def Let_def)
  next
    case (Some t)
    note F = partner_facts [OF ok a Some]
    note RT = trader_ok_reset [OF F(9)]
    have "conserved e w (w(a \<mapsto> trade_reset ?s, trade_partner s \<mapsto> trade_reset t))"
      by (intro conserved_pair [OF ok a Some]) (simp_all add: R RT F(5,6))
    moreover have "conserved e w (w(a \<mapsto> ?s\<lparr>trade_partner := 0\<rparr>, trade_partner s \<mapsto> t\<lparr>trade_partner := 0\<rparr>))"
      by (intro conserved_pair [OF ok a Some]) (simp_all add: F)
    ultimately show ?thesis
      using Some a F(3) by (cases "trading s") (simp_all add: trade_tradecancel_def Let_def fun_upd_twist)
  qed
qed

lemma trade_tradeack_conserved:
  assumes ok: "world_ok e w"
  shows "conserved e w (trade_tradeack w a r)"
proof (cases "w a")
  case None
  then show ?thesis using conserved_refl [OF ok] by (simp add: trade_tradeack_def)
next
  case (Some s)
  note a = Some
  have c: "conserved e w (w(a \<mapsto> s\<lparr>trade_partner := 0\<rparr>))"
    by (intro conserved_alone [OF ok a]) (simp_all add: world_okD(2) [OF ok a])
  show ?thesis
  proof (cases "map_id2sd w (trade_partner s)")
    case None
    then show ?thesis using a c conserved_refl [OF ok] by (simp add: trade_tradeack_def)
  next
    case (Some t)
    note F = partner_facts [OF ok a Some]
    note U = trader_ok_unlock [OF F(8)] trader_ok_unlock [OF F(9)]
    note B = trader_ok_start [OF F(8)] trader_ok_start [OF F(9)]
    have u: "conserved e w (w(a \<mapsto> trade_unlock s, trade_partner s \<mapsto> trade_unlock t))"
      by (intro conserved_pair [OF ok a Some]) (simp_all add: U F(5,6))
    have z: "conserved e w (w(a \<mapsto> s\<lparr>trade_partner := 0\<rparr>, trade_partner s \<mapsto> t\<lparr>trade_partner := 0\<rparr>))"
      by (intro conserved_pair [OF ok a Some]) (simp_all add: F)
    have b: "conserved e w (w(a \<mapsto> trade_start s, trade_partner s \<mapsto> trade_start t))"
      by (intro conserved_pair [OF ok a Some]) (simp_all add: B F(5,6))
    show ?thesis
      using a Some c u z b conserved_refl [OF ok] by (simp add: trade_tradeack_def Let_def)
  qed
qed

lemma trader_ok_entry:
  assumes "trader_ok e s" "i < 10" "n < MAX_INVENTORY" "0 \<le> x" "x \<le> MAX_AMOUNT"
    "live e (inventory s ! n)"
  shows "trader_ok e (s\<lparr>isBoundTrading := b, deal_item := (deal_item s)[i := (n, x)]\<rparr>)"
  using assms
  by (auto simp: trader_ok_def deal_ok_def dest!: set_update_subset_insert [THEN subsetD])

lemma trader_slot_le: "trader_ok e s \<Longrightarrow> n < MAX_INVENTORY \<Longrightarrow> amount (inventory s ! n) \<le> MAX_AMOUNT"
  using slot_ok_le slots_ok_nth player_ok_slots unfolding trader_ok_def by blast

lemma deal_add_frame:
  "holdings k (deal_add s t n amt) = holdings k s" "zeny (deal_add s t n amt) = zeny s"
  "account_id (deal_add s t n amt) = account_id s" "trade_partner (deal_add s t n amt) = trade_partner s"
  "trading (deal_add s t n amt) = trading s"
  by (simp_all add: deal_add_def Let_def)

text \<open>
  The entry that \<open>deal_add\<close> writes never exceeds what the slot holds: a
  further helping of the same slot is cut to what is left.
\<close>

definition deal_entry :: "sd \<Rightarrow> nat \<Rightarrow> int \<Rightarrow> nat \<Rightarrow> int" where
  "deal_entry s n amt i =
     (let cur = snd (deal_item s ! i)
      in if fst (deal_item s ! i) = n
         then if cur + amt > amount (inventory s ! n) then amount (inventory s ! n) else cur + amt
         else amt)"

lemma deal_add_cases:
  assumes ok: "trader_ok e s" and amt: "0 < amt" "amt \<le> amount (inventory s ! n)"
    and n: "n < MAX_INVENTORY"
  obtains (full) b where "deal_add s t n amt = s\<lparr>isBoundTrading := b\<rparr>"
  | (entry) b i wt where "i < 10" "0 \<le> deal_entry s n amt i" "deal_entry s n amt i \<le> amount (inventory s ! n)"
      "deal_add s t n amt = s\<lparr>isBoundTrading := b, deal_item := (deal_item s)[i := (n, deal_entry s n amt i)],
         deal_weight := wt\<rparr>"
proof -
  define ib where "ib = (if bound (inventory s ! n) \<noteq> 0
    then set_bit (nat (bound (inventory s ! n))) (isBoundTrading s) else isBoundTrading s)"
  define s1 where "s1 = s\<lparr>isBoundTrading := ib\<rparr>"
  define i where "i = arr_find (\<lambda>d. fst d = n \<or> snd d = 0) (deal_item s)"
  let ?it = "inventory s ! n" and ?cur = "snd (deal_item s ! i)"
  have sl: "amount ?it \<le> MAX_AMOUNT"
    by (rule trader_slot_le [OF ok n])
  have dk: "length (deal_item s) = 10" "\<forall>d \<in> set (deal_item s). 0 \<le> snd d \<and> snd d \<le> MAX_AMOUNT"
    using ok by (simp_all add: trader_ok_def deal_ok_def)
  have s1: "(if bound ?it \<noteq> 0 then s\<lparr>isBoundTrading := set_bit (nat (bound ?it)) (isBoundTrading s)\<rparr> else s) = s1"
    by (simp add: s1_def ib_def)
  note eq = deal_add_def [of s t n amt, unfolded Let_def, unfolded s1]
  show thesis
  proof (cases "i = 10")
    case True
    then have "deal_add s t n amt = s\<lparr>isBoundTrading := ib\<rparr>" by (simp add: eq s1_def i_def)
    then show thesis by (rule full)
  next
    case False
    have "i \<le> 10" using arr_find_le [of _ "deal_item s"] dk(1) by (simp add: i_def)
    with False have i: "i < 10" by simp
    then have cur: "0 \<le> ?cur" "?cur \<le> MAX_AMOUNT" using dk nth_mem [of i "deal_item s"] by auto
    have cut: "s16 (amount ?it - ?cur) = amount ?it - ?cur" "s16 (amount ?it) = amount ?it"
      "?cur + amt \<le> amount ?it \<Longrightarrow> s16 (?cur + amt) = ?cur + amt"
      using cur sl amt by (simp_all add: MAX_AMOUNT_def)
    have le: "0 \<le> deal_entry s n amt i" "deal_entry s n amt i \<le> amount ?it"
      using amt cur by (simp_all add: deal_entry_def Let_def)
    have sel: "deal_item s1 = deal_item s" "inventory s1 = inventory s" by (simp_all add: s1_def)
    define W where "W \<longleftrightarrow> u32 (weight t + deal_weight s1 +
      s32 ((case inventory_data s1 ! n of None \<Rightarrow> 0 | Some d \<Rightarrow> id_weight d) * amt)) > u32 (max_weight t)"
    define put where "put x wt = s1\<lparr>deal_item := (deal_item s)[i := (n, x)], deal_weight := wt\<rparr>" for x wt
    have put: "deal_add s t n amt = put (deal_entry s n amt i) (deal_weight (deal_add s t n amt))" if "\<not> W"
    proof (cases "fst (deal_item s ! i) = n")
      case True
      then show ?thesis
        using that False cut
        by (cases "?cur + amt > amount ?it")
           (simp_all add: eq i_def [symmetric] sel W_def put_def deal_entry_def Let_def)
    next
      case ne: False
      then show ?thesis
        using that False by (simp add: eq i_def [symmetric] sel W_def put_def deal_entry_def Let_def)
    qed
    show thesis
    proof (cases W)
      case True
      then have "deal_add s t n amt = s\<lparr>isBoundTrading := ib\<rparr>"
        using False by (simp add: eq i_def [symmetric] sel W_def s1_def)
      then show thesis by (rule full)
    next
      case nw: False
      then show thesis using put [OF nw] entry [OF i le] by (simp only: put_def s1_def)
    qed
  qed
qed

lemma trader_ok_deal_add:
  assumes "trader_ok e s" "0 < amt" "amt \<le> amount (inventory s ! n)" "n < MAX_INVENTORY"
    "live e (inventory s ! n)"
  shows "trader_ok e (deal_add s t n amt)"
  using assms(1-4)
proof (cases rule: deal_add_cases [where t = t])
  case (full b)
  then show ?thesis using assms(1) by simp
next
  case (entry b i wt)
  have "amount (inventory s ! n) \<le> MAX_AMOUNT"
    by (rule trader_slot_le [OF assms(1,4)])
  then show ?thesis
    using entry assms by (simp add: trader_ok_entry)
qed

lemma trade_tradeadditem_conserved:
  assumes ok: "world_ok e w"
  shows "conserved e w (trade_tradeadditem e w a idx amt)"
proof (cases "w a")
  case None
  then show ?thesis using conserved_refl [OF ok] by (simp add: trade_tradeadditem_def)
next
  case (Some s)
  have ts: "trader_ok e s" by (rule world_okD(2) [OF ok Some])
  let ?n = "nat (s16 (idx - 2))"
  have "conserved e w (w(a \<mapsto> deal_add s t ?n amt))"
    if "?n < MAX_INVENTORY" "0 < amt" "amt \<le> amount (inventory s ! ?n)"
      "expire_time (inventory s ! ?n) = 0" for t
    using that trader_ok_deal_add [OF ts that(2,3,1)]
    by (intro conserved_alone [OF ok Some]) (simp_all add: deal_add_frame live_def)
  then show ?thesis
    using Some conserved_refl [OF ok] trade_tradecancel_conserved [OF ok]
    by (auto simp: trade_tradeadditem_def trade_can_add_def Let_def simp del: fun_upd_apply split: option.split)
qed

lemma trade_tradeaddzeny_conserved:
  assumes ok: "world_ok e w"
  shows "conserved e w (trade_tradeaddzeny w a amt)"
proof (cases "w a")
  case None
  then show ?thesis using conserved_refl [OF ok] by (simp add: trade_tradeaddzeny_def)
next
  case (Some s)
  have ts: "trader_ok e s" by (rule world_okD(2) [OF ok Some])
  have "conserved e w (w(a \<mapsto> s\<lparr>deal_zeny := amt\<rparr>))" if "0 \<le> amt"
    using that ts by (intro conserved_alone [OF ok Some]) (simp_all add: trader_ok_def)
  then show ?thesis
    using Some conserved_refl [OF ok] trade_tradecancel_conserved [OF ok]
    by (auto simp: trade_tradeaddzeny_def simp del: fun_upd_apply split: option.split)
qed

lemma trade_tradeok_conserved:
  assumes ok: "world_ok e w"
  shows "conserved e w (trade_tradeok w a)"
proof (cases "w a")
  case None
  then show ?thesis using conserved_refl [OF ok] by (simp add: trade_tradeok_def)
next
  case (Some s)
  have ts: "trader_ok e s" by (rule world_okD(2) [OF ok Some])
  have "conserved e w (w(a \<mapsto> s\<lparr>deal_locked := 1\<rparr>))"
    using ts by (intro conserved_alone [OF ok Some]) simp_all
  then show ?thesis
    using Some conserved_refl [OF ok] trade_tradecancel_conserved [OF ok]
    by (auto simp: trade_tradeok_def simp del: fun_upd_apply split: option.split)
qed

lemma trader_ok_offers:
  assumes "trader_ok e s" "trader_ok e t" "impossible_trade_check s = 0" "impossible_trade_check t = 0"
    "trade_check e s t"
  shows "offers_ok e (s, t)" "funds_ok (s, t)"
proof -
  have i: "inv_ok e s" "inv_ok e t" using assms(1,2) by (simp_all add: trader_ok_def player_ok_def)
  have c: "covers e (inventory s) (deal_item s)" "covers e (inventory t) (deal_item t)"
    using impossible_trade_check_covers(1) i assms(1-4) by (simp_all add: trader_ok_def)
  then show "offers_ok e (s, t)" using assms(1,2) by (simp add: offers_ok_def pair_ok_def trader_ok_def)
  show "funds_ok (s, t)"
    using assms(1,2,5) by (auto simp: funds_ok_def trader_ok_def trade_check_def split: if_splits)
qed

lemma offers_ok_trader:
  assumes "offers_ok e (s, t)" "0 \<le> zeny s" "zeny s \<le> MAX_ZENY" "0 \<le> deal_zeny s"
    "0 \<le> zeny t" "zeny t \<le> MAX_ZENY" "0 \<le> deal_zeny t"
  shows "trader_ok e s" "trader_ok e t"
  using assms by (simp_all add: offers_ok_def pair_ok_def trader_ok_def covers_def)

lemma same_trade_account: "same_trade s t \<Longrightarrow> account_id t = account_id s"
  by (simp add: same_trade_def)

lemma trade_entry_account:
  assumes ok: "offers_ok e p" and i: "i < 10"
  shows "account_id (fst (trade_entry e p i)) = account_id (fst p)
    \<and> account_id (snd (trade_entry e p i)) = account_id (snd p)"
proof -
  obtain n a where d: "deal_item (fst p) ! i = (n, a)" by fastforce
  show ?thesis
  proof (cases "a = 0")
    case True
    then show ?thesis by (simp add: trade_entry_def d)
  next
    case False
    have po: "pair_ok e p" and c: "covers e (inventory (fst p)) (deal_item (fst p))"
      using ok by (simp_all add: offers_ok_def)
    have "length (deal_item (fst p)) = 10" using c by (simp add: covers_def deal_ok_def)
    then have mem: "(n, a) \<in> set (deal_item (fst p))" using i d nth_mem by metis
    then have n: "n < MAX_INVENTORY" and a: "0 < a"
      using c False by (auto simp: covers_def deal_ok_def)
    have lv: "live e (inventory (fst p) ! n)" using c mem a by (auto simp: covers_def)
    have "a \<le> need (deal_item (fst p)) n"
      using need_ge [of "deal_item (fst p)" "(n, a)"] mem c by (simp add: covers_def deal_ok_def)
    then have le: "a \<le> amount (inventory (fst p) ! n)" using c n by (fastforce simp: covers_def)
    have "player_ok e (fst p)" using po by (simp add: pair_ok_def)
    from slots_ok_nth [OF player_ok_slots [OF this] n] have nz: "nameid (inventory (fst p) ! n) \<noteq> 0"
      using le a by (simp add: slot_ok_def split: if_splits)
    obtain b q where g: "trade_give e p n a = (b, q)" by (cases "trade_give e p n a")
    note G = trade_give_frame [OF po n lv g]
    have "a \<le> amount (inventory (fst q) ! n)" "nameid (inventory (fst q) ! n) \<noteq> 0"
      using G(5,6) nz le by simp_all
    note T = trade_take_frame(2,5) [OF G(1) n this(2) a this(1)]
    show ?thesis
      using False G(3,4) T
      by (simp add: trade_entry_def d g grows_def same_trade_def split_beta)
  qed
qed

lemma trade_rounds_account:
  assumes "offers_ok e p" "\<forall>i \<in> set is. i < 10"
  shows "account_id (fst (fold (trade_round e) is p)) = account_id (fst p)
    \<and> account_id (snd (fold (trade_round e) is p)) = account_id (snd p)"
  using assms
proof (induction "is" arbitrary: p)
  case (Cons i "is")
  let ?q = "trade_entry e p i"
  have i: "i < 10" using Cons.prems(2) by simp
  have sw: "offers_ok e (prod.swap ?q)"
    using trade_entry_step [OF Cons.prems(1) i] by (simp add: offers_ok_swap)
  have k: "offers_ok e (trade_round e i p)"
    using trade_round_step [OF Cons.prems(1) i] by (simp add: kept_def)
  have "account_id (fst (trade_round e i p)) = account_id (fst p)
      \<and> account_id (snd (trade_round e i p)) = account_id (snd p)"
    using trade_entry_account [OF Cons.prems(1) i] trade_entry_account [OF sw i]
    by (simp add: trade_round_def)
  then show ?case using Cons.IH [OF k] Cons.prems(2) by simp
qed simp

lemma trade_pay_account:
  "account_id (fst (trade_pay p)) = account_id (fst p)" "account_id (snd (trade_pay p)) = account_id (snd p)"
  by (simp_all add: trade_pay_def pay_def pc_payzeny_def pc_getzeny_def Let_def split_beta)

lemma trade_exchange_account:
  assumes "offers_ok e p" "trade_exchange e p = (s', t')"
  shows "account_id s' = account_id (fst p)" "account_id t' = account_id (snd p)"
  using assms(2) trade_rounds_account [OF assms(1), of "[0..<10]"]
  by (auto simp: trade_exchange_def Let_def trade_end_def trade_pay_account simp del: upt.simps)

lemma trade_tradecommit_conserved:
  assumes ok: "world_ok e w"
  shows "conserved e w (trade_tradecommit e w a)"
proof (cases "w a")
  case None
  then show ?thesis using conserved_refl [OF ok] by (simp add: trade_tradecommit_def)
next
  case (Some s)
  note a = Some
  have ts: "trader_ok e s" by (rule world_okD(2) [OF ok a])
  show ?thesis
  proof (cases "\<not> trading s \<or> deal_locked s = 0")
    case True
    then show ?thesis using conserved_refl [OF ok] a by (simp add: trade_tradecommit_def)
  next
    case False
    show ?thesis
    proof (cases "map_id2sd w (trade_partner s)")
      case None
      then show ?thesis
        using False a trade_tradecancel_conserved [OF ok] by (simp add: trade_tradecommit_def)
    next
      case (Some t)
      note F = partner_facts [OF ok a Some]
      let ?s = "s\<lparr>deal_locked := 2\<rparr>"
      let ?w = "w(a \<mapsto> ?s)"
      have c1: "conserved e w ?w" by (rule conserved_alone [OF ok a]) (simp_all add: ts)
      then have ok1: "world_ok e ?w" by (simp add: conserved_def)
      have can: "conserved e w (trade_tradecancel ?w c)" for c
        by (rule conserved_trans [OF c1 trade_tradecancel_conserved [OF ok1]])
      have a1: "?w a = Some ?s" by simp
      have t1: "map_id2sd ?w (trade_partner ?s) = Some t" using Some F(3) by (simp add: map_id2sd_def split: if_splits)
      obtain s' t' where x: "trade_exchange e (?s, t) = (s', t')" by fastforce
      have "conserved e w (?w(a \<mapsto> s', trade_partner s \<mapsto> t'))"
        if "impossible_trade_check ?s = 0" "impossible_trade_check t = 0" "trade_check e ?s t"
      proof -
        have ts': "trader_ok e ?s" using ts by simp
        note O = trader_ok_offers [OF ts' F(9) that]
        note X = trade_exchange_conserves [OF O x]
        have fin: "0 \<le> zeny s'" "zeny s' \<le> MAX_ZENY" "0 \<le> deal_zeny s'" "0 \<le> zeny t'" "zeny t' \<le> MAX_ZENY"
          "0 \<le> deal_zeny t'"
          using O(2) X(3-5) by (simp_all add: funds_ok_def)
        have n: "trader_ok e s'" "trader_ok e t'" using offers_ok_trader [OF X(1)] fin by simp_all
        have acc: "account_id s' = a" "account_id t' = trade_partner ?s"
          using trade_exchange_account [OF O(1) x] F(5,6) by simp_all
        have h: "\<forall>k. holdings k s' + holdings k t' = holdings k ?s + holdings k t"
          using X(2) by (simp add: pair_total_def)
        have z: "zeny s' + zeny t' = zeny ?s + zeny t" using X(3,4) by simp
        have "conserved e ?w (?w(a \<mapsto> s', trade_partner ?s \<mapsto> t'))"
          using X(5) by (intro conserved_pair [OF ok1 a1 t1 n acc h z]) simp_all
        then show ?thesis using conserved_trans [OF c1] by simp
      qed
      then show ?thesis
        using False a Some c1 can x by (simp add: trade_tradecommit_def Let_def)
    qed
  qed
qed

text \<open>The first part of a request: an earlier request of the same player is withdrawn.\<close>

definition withdraw :: "world \<Rightarrow> int \<Rightarrow> sd \<Rightarrow> world" where
  "withdraw w a s = (if trade_partner s \<noteq> 0
     then (case map_id2sd w (trade_partner s) of None \<Rightarrow> w
           | Some p \<Rightarrow> w(trade_partner s \<mapsto> p\<lparr>trade_partner := 0\<rparr>))(a \<mapsto> s\<lparr>trade_partner := 0\<rparr>)
     else w)"

lemma withdraw_conserved:
  assumes ok: "world_ok e w" and a: "w a = Some s"
  shows "conserved e w (withdraw w a s)" "withdraw w a s a = Some (s\<lparr>trade_partner := 0\<rparr>)"
proof -
  show "withdraw w a s a = Some (s\<lparr>trade_partner := 0\<rparr>)" using a by (simp add: withdraw_def)
  show "conserved e w (withdraw w a s)"
  proof (cases "map_id2sd w (trade_partner s)")
    case None
    have "conserved e w (w(a \<mapsto> s\<lparr>trade_partner := 0\<rparr>))"
      by (intro conserved_alone [OF ok a]) (simp_all add: world_okD(2) [OF ok a])
    then show ?thesis using None conserved_refl [OF ok] by (simp add: withdraw_def)
  next
    case (Some p)
    note F = partner_facts [OF ok a Some]
    have "conserved e w (w(a \<mapsto> s\<lparr>trade_partner := 0\<rparr>, trade_partner s \<mapsto> p\<lparr>trade_partner := 0\<rparr>))"
      by (intro conserved_pair [OF ok a Some]) (simp_all add: F)
    then show ?thesis using Some F(2,3) by (simp add: withdraw_def fun_upd_twist)
  qed
qed

lemma trade_link_conserved:
  assumes ok: "world_ok e w" and ab: "w a = Some s" "w b = Some t" "a \<noteq> b"
  shows "conserved e w (w(b \<mapsto> t\<lparr>trade_partner := account_id s\<rparr>, a \<mapsto> s\<lparr>trade_partner := account_id t\<rparr>))"
proof -
  have acc: "account_id s = a" "account_id t = b" using namedD(2) [OF world_okD(1) [OF ok]] ab by simp_all
  have ts: "trader_ok e s" "trader_ok e t" using world_okD(2) [OF ok] ab by blast+
  show ?thesis
    by (intro conserved_two [OF ok ab(2,1) ab(3) [symmetric]]) (use ab(3) in \<open>simp_all add: ts acc\<close>)
qed

lemma trade_traderequest_conserved:
  assumes ok: "world_ok e w"
  shows "conserved e w (trade_traderequest e w a b)"
proof (cases "w a = None \<or> map_id2sd w b = None \<or> a = b")
  case True
  then show ?thesis using conserved_refl [OF ok] by (auto simp: trade_traderequest_def split: option.splits)
next
  case False
  then obtain s t where a: "w a = Some s" and t: "map_id2sd w b = Some t" and ab: "a \<noteq> b"
    by (cases "w a"; cases "map_id2sd w b") auto
  let ?w = "withdraw w a s"
  note W = withdraw_conserved [OF ok a]
  have ok1: "world_ok e ?w" using W(1) by (simp add: conserved_def)
  have "b \<in> dom ?w" using W(1) map_id2sd_Some [OF t] by (auto simp: conserved_def)
  then obtain t1 where t1: "?w b = Some t1" by blast
  have link: "conserved e w (?w(b \<mapsto> t1\<lparr>trade_partner := account_id s\<rparr>, a \<mapsto> s\<lparr>trade_partner := account_id t1\<rparr>))"
    using conserved_trans [OF W(1) trade_link_conserved [OF ok1 W(2) t1 ab]] by simp
  have "trade_traderequest e w a b = w \<or> trade_traderequest e w a b = ?w
    \<or> trade_traderequest e w a b
         = ?w(b \<mapsto> t1\<lparr>trade_partner := account_id s\<rparr>, a \<mapsto> s\<lparr>trade_partner := account_id t1\<rparr>)"
    unfolding trade_traderequest_def withdraw_def [symmetric] Let_def
    using a t t1 W(2) by simp
  then show ?thesis using W(1) link conserved_refl [OF ok] by auto
qed

section \<open>The trade actions of all players\<close>

datatype trade_action =
  Request int | At_Trade int | Answer int | Add_Item int int | Add_Zeny int | Press_Ok | Cancel | Commit

text \<open>One packet of player \<open>a\<close>, or his use of the command @trade.\<close>

fun trade_act :: "env \<Rightarrow> world \<Rightarrow> int \<Rightarrow> trade_action \<Rightarrow> world" where
  "trade_act e w a (Request b) = clif_parse_TradeRequest e w a b"
| "trade_act e w a (At_Trade b) = at_trade e w a b"
| "trade_act e w a (Answer r) = trade_tradeack w a r"
| "trade_act e w a (Add_Item i n) = trade_tradeadditem e w a i n"
| "trade_act e w a (Add_Zeny z) = trade_tradeaddzeny w a z"
| "trade_act e w a Press_Ok = trade_tradeok w a"
| "trade_act e w a Cancel = trade_tradecancel w a"
| "trade_act e w a Commit = trade_tradecommit e w a"

inductive trade_run :: "env \<Rightarrow> world \<Rightarrow> world \<Rightarrow> bool" for e w where
  start: "trade_run e w w"
| step: "trade_run e w w1 \<Longrightarrow> trade_run e w (trade_act e w1 a act)"

lemma trade_act_conserved: "world_ok e w \<Longrightarrow> conserved e w (trade_act e w a act)"
  by (cases act)
    (auto simp: conserved_refl clif_parse_TradeRequest_def at_trade_def trade_traderequest_conserved trade_tradeack_conserved
      trade_tradeadditem_conserved trade_tradeaddzeny_conserved trade_tradeok_conserved
      trade_tradecancel_conserved trade_tradecommit_conserved split: option.split)

text \<open>
  C1. However players interleave trade packets and the command @trade (requests,
  answers, offers, locks, cancels, commits, with any arguments), the world stays
  well formed, and the units of every item and the zeny summed over all online
  players never change: trading cannot duplicate or destroy anything. Nothing is
  asked of the links between partners: an open window may point at a player whose
  own partner is another, or who has none.
\<close>

theorem trade_run_conserves:
  assumes "trade_run e w w'" "world_ok e w"
  shows "world_ok e w' \<and> dom w' = dom w \<and> (\<forall>k. world_units k w' = world_units k w)
    \<and> world_zeny w' = world_zeny w"
  using assms
proof (induction rule: trade_run.induct)
  case start
  then show ?case by simp
next
  case (step w1 a act)
  then have "conserved e w1 (trade_act e w1 a act)" by (simp add: trade_act_conserved)
  then show ?case using step by (simp add: conserved_def)
qed

section \<open>Two players at a trade window\<close>

text \<open>The first offers four potions and 100 zeny, the second 30 zeny.\<close>

definition offerer :: sd where
  "offerer = (sample_player 1 2)\<lparr>trading := True, deal_locked := 1,
     deal_item := (0, 4) # replicate 9 (0, 0), deal_zeny := 100\<rparr>"

definition taker :: sd where
  "taker = (sample_player 2 1)\<lparr>trading := True, deal_locked := 2, deal_zeny := 30\<rparr>"

definition sample_world :: world where
  "sample_world = [1 \<mapsto> offerer, 2 \<mapsto> taker]"

lemma sample_world_ok: "world_ok sample_env sample_world"
proof -
  have sel: "account_id offerer = 1" "trade_partner offerer = 2" "trading offerer"
    "account_id taker = 2" "trade_partner taker = 1" "trading taker"
    by (simp_all add: offerer_def taker_def sample_player_def)
  have "named sample_world"
    unfolding named_def sample_world_def using sel by auto
  moreover have "live sample_env (inventory (sample_player 1 2) ! 0)"
    by (simp add: sample_player_def slots_with_facts MAX_INVENTORY_def live_def)
  then have "trader_ok sample_env offerer"
    by (simp add: trader_ok_def offerer_def deal_ok_def MAX_INVENTORY_def MAX_AMOUNT_def MAX_ZENY_def
        sample_player_zeny)
  moreover have "trader_ok sample_env taker"
    by (simp add: trader_ok_def taker_def deal_ok_def MAX_INVENTORY_def MAX_AMOUNT_def MAX_ZENY_def
        sample_player_zeny)
  ultimately show ?thesis by (simp add: world_ok_def sample_world_def)
qed

theorem trade_run_conserves_witness:
  "world_units 501 (trade_act sample_env sample_world 1 Commit) = world_units 501 sample_world
   \<and> world_zeny (trade_act sample_env sample_world 1 Commit) = world_zeny sample_world"
proof -
  have "trade_run sample_env sample_world (trade_act sample_env sample_world 1 Commit)"
    by (intro trade_run.step trade_run.start)
  from trade_run_conserves [OF this sample_world_ok] show ?thesis by blast
qed

section \<open>A request while a window is open\<close>

text \<open>The player asked is free, willing and near, so that nothing but the own window speaks against the request.\<close>

definition accepts_request :: "env \<Rightarrow> sd \<Rightarrow> sd \<Rightarrow> bool" where
  "accepts_request e s t \<longleftrightarrow>
     \<not> mapflags e (map_m s) MF_NOTRADE \<and> npc_id t = 0 \<and> trade_partner t = 0 \<and> \<not> trading t
   \<and> \<not> noask t \<and> \<not> mail_writing t
   \<and> (basic_skill_check (bconf e) \<longrightarrow> 1 \<le> lv_NV_BASIC s \<or> 1 \<le> lv_SU_BASIC s)
   \<and> (cell_pvp_can_trade (bconf e) \<or> \<not> pc_is_on_cellpvp e s \<and> \<not> pc_is_on_cellpvp e t)
   \<and> (invite_request_check (bconf e) \<or> guild_invite t \<le> 0 \<and> party_invite t \<le> 0 \<and> adopt_invite t = 0)
   \<and> pc_can_give_items s \<and> pc_can_give_items t \<and> \<not> too_far s t"

lemma trade_traderequest_open:
  assumes a: "w a = Some s" and p: "map_id2sd w (trade_partner s) = Some p" "trade_partner s \<noteq> a"
    and b: "map_id2sd w b = Some t" "b \<noteq> a" "b \<noteq> trade_partner s"
    and acc: "account_id s = a" "account_id t = b" "accepts_request e s t"
  shows "trade_traderequest e w a b = w(trade_partner s \<mapsto> p\<lparr>trade_partner := 0\<rparr>,
    b \<mapsto> t\<lparr>trade_partner := a\<rparr>, a \<mapsto> s\<lparr>trade_partner := b\<rparr>)"
proof -
  have nz: "trade_partner s \<noteq> 0" using p(1) by (auto simp: map_id2sd_def)
  have tb: "w b = Some t" using map_id2sd_Some [OF b(1)] by simp
  have far: "\<not> too_far (s\<lparr>trade_partner := 0\<rparr>) t" using acc(3) by (simp add: accepts_request_def too_far_def)
  have give: "pc_can_give_items (s\<lparr>trade_partner := 0\<rparr>)" "pc_can_give_items t"
    using acc(3) by (simp_all add: accepts_request_def pc_can_give_items_def)
  have inv: "\<not> (\<not> invite_request_check (bconf e) \<and> (guild_invite t > 0 \<or> party_invite t > 0 \<or> adopt_invite t \<noteq> 0))"
    using acc(3) by (auto simp: accepts_request_def)
  have pvp: "\<not> (\<not> cell_pvp_can_trade (bconf e) \<and> (pc_is_on_cellpvp e s \<or> pc_is_on_cellpvp e t))"
    using acc(3) by (auto simp: accepts_request_def)
  have rest: "\<not> mapflags e (map_m s) MF_NOTRADE" "npc_id t = 0" "trade_partner t = 0"
    using acc(3) by (simp_all add: accepts_request_def)
  show ?thesis
    unfolding trade_traderequest_def Let_def a b(1) option.case if_not_P [OF inv] if_not_P [OF pvp]
    using b(2,3) p tb nz far give rest acc(1,2)
    by (simp add: fun_upd_twist [of a])
qed

text \<open>
  C7. A player with an open window who sits in a chat room can ask a third player.
  Although the third player is not reached (his answer finds the asking player's
  window open), both sides of the old trade are damaged: the old partner's window
  stays open without a partner, and the asking player's window, with all its offers
  and its lock, stays open on the third player, who knows nothing of it. Windows are
  therefore not mutual in reachable worlds.
\<close>

theorem trade_request_diverts:
  assumes "world_ok e w" "w a = Some s" "trading s" "chatID s \<noteq> 0"
    and "map_id2sd w (trade_partner s) = Some p"
    and "map_id2sd w b = Some t" "b \<noteq> a" "b \<noteq> trade_partner s" "accepts_request e s t"
  shows "trade_act e (trade_act e w a (Request b)) b (Answer r)
    = w(trade_partner s \<mapsto> p\<lparr>trade_partner := 0\<rparr>, a \<mapsto> s\<lparr>trade_partner := b\<rparr>)"
proof -
  note F = partner_facts [OF assms(1,2,5)]
  have tb: "w b = Some t" using map_id2sd_Some [OF assms(6)] by simp
  have acc: "account_id s = a" "account_id t = b"
    using namedD(2) [OF world_okD(1) [OF assms(1)]] assms(2) tb by simp_all
  have pos: "0 < a" by (rule namedD(1) [OF world_okD(1) [OF assms(1)] assms(2)])
  have t0: "\<not> trading t" "trade_partner t = 0" "\<not> noask t" "\<not> mail_writing t"
    "\<not> (basic_skill_check (bconf e) \<and> lv_NV_BASIC s < 1 \<and> lv_SU_BASIC s < 1)"
    using assms(9) by (auto simp: accepts_request_def)
  have pa: "trade_partner s \<noteq> a" by (rule F(3))
  let ?w = "w(trade_partner s \<mapsto> p\<lparr>trade_partner := 0\<rparr>,
    b \<mapsto> t\<lparr>trade_partner := a\<rparr>, a \<mapsto> s\<lparr>trade_partner := b\<rparr>)"
  have "trade_act e w a (Request b) = ?w"
    using trade_traderequest_open [OF assms(2,5) pa assms(6,7,8) acc assms(9)] assms(2,4,6) t0
    by (auto simp: clif_parse_TradeRequest_def)
  moreover have "trade_tradeack ?w b r = w(trade_partner s \<mapsto> p\<lparr>trade_partner := 0\<rparr>, a \<mapsto> s\<lparr>trade_partner := b\<rparr>)"
  proof -
    have "t\<lparr>trade_partner := 0\<rparr> = t" using t0(2) by simp
    then have "?w(b \<mapsto> t\<lparr>trade_partner := 0\<rparr>)
        = w(trade_partner s \<mapsto> p\<lparr>trade_partner := 0\<rparr>, a \<mapsto> s\<lparr>trade_partner := b\<rparr>)"
      using tb assms(7,8) by (auto simp: fun_eq_iff)
    moreover have "trade_tradeack ?w b r = ?w(b \<mapsto> t\<lparr>trade_partner := 0\<rparr>)"
      using assms(3,7) pos t0(1) by (simp add: trade_tradeack_def map_id2sd_def)
    ultimately show ?thesis by simp
  qed
  ultimately show ?thesis by simp
qed

text \<open>
  Four players: the first sits in a chat room and has a locked window, without an
  offer, on the second; the last two are idle.
\<close>

definition chatter :: sd where
  "chatter = (sample_player 1 2)\<lparr>trading := True, deal_locked := 1, chatID := 9\<rparr>"

definition chat_world :: world where
  "chat_world = [1 \<mapsto> chatter, 2 \<mapsto> taker, 3 \<mapsto> sample_player 3 0, 4 \<mapsto> sample_player 4 0]"

lemma sample_trader_ok:
  "trader_ok sample_env (sample_player a b)" "trader_ok sample_env chatter" "trader_ok sample_env taker"
  by (simp_all add: trader_ok_def chatter_def taker_def deal_ok_def MAX_INVENTORY_def MAX_AMOUNT_def MAX_ZENY_def
      sample_player_zeny)

lemma sample_player_sel [simp]:
  "account_id (sample_player a b) = a" "trade_partner (sample_player a b) = b" "\<not> trading (sample_player a b)"
  "zeny (sample_player a b) = 1000" "deal_locked (sample_player a b) = 0"
  "(sample_player a b)\<lparr>trade_partner := c\<rparr> = sample_player a c"
  by (simp_all add: sample_player_def)

lemma sample_player_idle [simp]:
  "npc_id (sample_player a b) = 0" "chatID (sample_player a b) = 0" "\<not> noask (sample_player a b)"
  "\<not> mail_writing (sample_player a b)" "lv_NV_BASIC (sample_player a b) = 9" "map_m (sample_player a b) = 1"
  "pos_x (sample_player a b) = 50" "pos_y (sample_player a b) = 50" "pc_can_give_items (sample_player a b)"
  "guild_invite (sample_player a b) = 0" "party_invite (sample_player a b) = 0"
  "adopt_invite (sample_player a b) = 0" "\<not> pc_cant_act (sample_player a b)" "\<not> trade_busy (sample_player a b)"
  by (simp_all add: sample_player_def pc_can_give_items_def pc_cant_act_def trade_busy_def)

lemma chat_world_ok: "world_ok sample_env chat_world"
proof -
  have "named chat_world"
    unfolding named_def chat_world_def by (auto simp: chatter_def taker_def)
  then show ?thesis by (simp add: world_ok_def chat_world_def sample_trader_ok)
qed

lemma sample_env_free [simp]:
  "\<not> mapflags sample_env m f" "\<not> pc_is_on_cellpvp sample_env s"
  by (simp_all add: sample_env_def pc_is_on_cellpvp_def)

lemma sample_near [simp]: "map_m s = map_m t \<Longrightarrow> pos_x s = pos_x t \<Longrightarrow> pos_y s = pos_y t \<Longrightarrow> \<not> too_far s t"
  by (simp add: too_far_def check_distance_def TRADE_DISTANCE_def)

lemma sample_accepts: "accepts_request sample_env chatter (sample_player 3 0)"
  by (simp add: accepts_request_def chatter_def)
     (simp add: pc_can_give_items_def sample_player_def)

theorem trade_request_diverts_witness:
  "trade_act sample_env (trade_act sample_env chat_world 1 (Request 3)) 3 (Answer 4)
    = chat_world(2 \<mapsto> taker\<lparr>trade_partner := 0\<rparr>, 1 \<mapsto> chatter\<lparr>trade_partner := 3\<rparr>)"
proof -
  have "trade_partner chatter = 2" "trading chatter" "chatID chatter \<noteq> 0" by (simp_all add: chatter_def)
  then show ?thesis
    using trade_request_diverts [OF chat_world_ok, of 1 chatter taker 3 "sample_player 3 0" 4] sample_accepts
    by (simp add: chat_world_def map_id2sd_def)
qed

text \<open>
  What the third player risks. He opens a trade with the fourth, offers 50 zeny and
  locks; then the first commits his old window and takes the 50 zeny, for nothing.
\<close>

definition victim :: sd where
  "victim = (trade_start (sample_player 3 4))\<lparr>deal_zeny := 50, deal_locked := 2\<rparr>"

definition diverted_world :: world where
  "diverted_world = chat_world(2 \<mapsto> taker\<lparr>trade_partner := 0\<rparr>, 1 \<mapsto> chatter\<lparr>trade_partner := 3\<rparr>)"

lemma trade_diverted_run:
  fixes w :: world
  defines "w \<equiv> diverted_world"
  shows "fold (\<lambda>(a, act) w. trade_act sample_env w a act)
      [(4, Request 3), (3, Answer 3), (3, Add_Zeny 50), (3, Press_Ok), (3, Commit)] w
    = w(4 \<mapsto> trade_start (sample_player 4 3),
        3 \<mapsto> victim)"
proof -
  have w: "w 1 = Some (chatter\<lparr>trade_partner := 3\<rparr>)" "w 3 = Some (sample_player 3 0)" "w 4 = Some (sample_player 4 0)"
    by (simp_all add: w_def diverted_world_def chat_world_def)
  have r: "trade_act sample_env w 4 (Request 3) = w(3 \<mapsto> sample_player 3 4, 4 \<mapsto> sample_player 4 3)"
    using w by (simp add: clif_parse_TradeRequest_def trade_traderequest_def map_id2sd_def)
  have s: "trade_act sample_env (w(3 \<mapsto> sample_player 3 4, 4 \<mapsto> sample_player 4 3)) 3 (Answer 3)
      = w(4 \<mapsto> trade_start (sample_player 4 3), 3 \<mapsto> trade_start (sample_player 3 4))"
    by (simp add: trade_tradeack_def map_id2sd_def fun_upd_twist [of 3 4])
  have z: "trade_act sample_env (w(4 \<mapsto> trade_start (sample_player 4 3), 3 \<mapsto> trade_start (sample_player 3 4)))
        3 (Add_Zeny 50)
      = w(4 \<mapsto> trade_start (sample_player 4 3), 3 \<mapsto> (trade_start (sample_player 3 4))\<lparr>deal_zeny := 50\<rparr>)"
    by (simp add: trade_tradeaddzeny_def trade_start_def map_id2sd_def MAX_ZENY_def)
  show ?thesis
    by (simp add: r s z del: trade_act.simps)
      (simp add: trade_tradeok_def trade_tradecommit_def trade_start_def victim_def map_id2sd_def)
qed


lemma trade_diverted_steals:
  "\<exists>s t. trade_act sample_env (diverted_world(4 \<mapsto> trade_start (sample_player 4 3), 3 \<mapsto> victim)) 1 Commit
       = diverted_world(4 \<mapsto> trade_start (sample_player 4 3), 1 \<mapsto> s, 3 \<mapsto> t)
     \<and> zeny s = zeny chatter + 50 \<and> zeny t = zeny victim - 50"
proof -
  let ?s = "chatter\<lparr>trade_partner := 3, deal_locked := 2\<rparr>"
  let ?w = "diverted_world(4 \<mapsto> trade_start (sample_player 4 3), 3 \<mapsto> victim)"
  have sel: "trading ?s" "deal_zeny ?s = 0" "zeny ?s = 1000" "deal_item ?s = replicate 10 (0, 0)"
    "zeny victim = 1000" "deal_zeny victim = 50" "deal_item victim = replicate 10 (0, 0)" "deal_locked victim = 2"
    by (simp_all add: chatter_def victim_def trade_start_def no_deal_def sample_player_def)
  have triv: "deal_covered xs (replicate n (0, 0))" "trade_fits e xs ys (zip (replicate n (0, 0)) (replicate n (0, 0)))"
    for xs ys n and e :: env
    by (induction n) (simp_all add: trade_fit_def)
  have c: "impossible_trade_check ?s = 0" "impossible_trade_check victim = 0" "trade_check sample_env ?s victim"
    using triv by (simp_all add: impossible_trade_check_def trade_check_def sel MAX_ZENY_def del: replicate.simps zip_replicate)
  have ok: "trader_ok sample_env ?s" "trader_ok sample_env victim"
    using sample_trader_ok(2) trader_ok_start(1) [OF sample_trader_ok(1), of 3 4]
    by (simp_all add: victim_def) (simp add: trader_ok_def trade_start_def)
  obtain s t where x: "trade_exchange sample_env (?s, victim) = (s, t)" by fastforce
  note X = trade_exchange_conserves [OF trader_ok_offers [OF ok c] x]
  have w1: "diverted_world 1 = Some (chatter\<lparr>trade_partner := 3\<rparr>)" by (simp add: diverted_world_def)
  have "trade_act sample_env ?w 1 Commit = ?w(1 \<mapsto> s, 3 \<mapsto> t)"
    using c x sel(1,8) by (simp add: trade_tradecommit_def w1 map_id2sd_def chatter_def)
  moreover have "?w(1 \<mapsto> s, 3 \<mapsto> t) = diverted_world(4 \<mapsto> trade_start (sample_player 4 3), 1 \<mapsto> s, 3 \<mapsto> t)"
    by (simp add: fun_eq_iff)
  moreover have "zeny chatter = 1000" by (simp add: chatter_def)
  then have "zeny s = zeny chatter + 50" "zeny t = zeny victim - 50" using X(3,4) sel by simp_all
  ultimately show ?thesis by auto
qed

text \<open>
  C6. When both players have pressed the trade button and the checks pass, the
  commit closes both windows and moves exactly the offered zeny: each player ends
  with what they had, minus their own offer, plus the other's.
\<close>

theorem trade_tradecommit_closes:
  assumes "world_ok e w" "w a = Some s" "trading s" "deal_locked s \<noteq> 0"
    "map_id2sd w (trade_partner s) = Some t" "deal_locked t = 2"
    "impossible_trade_check s = 0" "impossible_trade_check t = 0" "trade_check e s t"
  shows "\<exists>s' t'. trade_tradecommit e w a = w(a \<mapsto> s', trade_partner s \<mapsto> t')
    \<and> \<not> trading s' \<and> \<not> trading t' \<and> trade_partner s' = 0 \<and> trade_partner t' = 0
    \<and> zeny s' = zeny s - deal_zeny s + deal_zeny t \<and> zeny t' = zeny t + deal_zeny s - deal_zeny t"
proof -
  let ?s = "s\<lparr>deal_locked := 2\<rparr>"
  note F = partner_facts [OF assms(1,2,5)]
  have i: "impossible_trade_check ?s = 0"
    using assms(7) by (simp add: impossible_trade_check_def split: if_splits)
  have c: "trade_check e ?s t" using assms(9) by (simp add: trade_check_def split: if_splits)
  have "trader_ok e ?s" using F(8) by simp
  note O = trader_ok_offers [OF this F(9) i assms(8) c]
  obtain s' t' where x: "trade_exchange e (?s, t) = (s', t')" by fastforce
  note X = trade_exchange_conserves [OF O x]
  have "trade_tradecommit e w a = w(a \<mapsto> s', trade_partner s \<mapsto> t')"
    using assms(2-6,8) i c x by (simp add: trade_tradecommit_def Let_def)
  then show ?thesis using X(3-5) by (intro exI [of _ s'] exI [of _ t']) simp
qed


theorem trade_tradecommit_closes_witness:
  "\<exists>s' t'. trade_tradecommit sample_env sample_world 1 = sample_world(1 \<mapsto> s', 2 \<mapsto> t')
     \<and> zeny s' = 930 \<and> zeny t' = 1070 \<and> \<not> trading s' \<and> \<not> trading t'"
proof -
  have sel: "zeny offerer = 1000" "zeny taker = 1000" "deal_zeny offerer = 100" "deal_zeny taker = 30"
    "trade_partner offerer = 2" "deal_item offerer = (0, 4) # replicate 9 (0, 0)"
    "deal_item taker = replicate 10 (0, 0)" "inventory taker = inventory offerer"
    by (simp_all add: offerer_def taker_def sample_player_def)
  have inv: "inventory offerer = slots_with MAX_INVENTORY [potions 10, knife]"
    by (simp add: offerer_def sample_player_def)
  have sp: "inventory offerer ! 0 = potions 10" "length (inventory offerer) = MAX_INVENTORY"
    by (simp_all add: inv slots_with_facts MAX_INVENTORY_def)
  have fit0: "trade_fit e xs ys (n, 0) = Some (xs, ys)" for e xs ys n by (simp add: trade_fit_def)
  have triv: "deal_covered xs (replicate n (0, 0))" for xs n by (induction n) simp_all
  have trivfit: "trade_fits e xs ys (replicate n ((0, 0), (0, 0)))" for e xs ys n
    by (induction n) (simp_all add: trade_fit_def)
  have e0: "equip (potions 10) = 0" by (simp add: potions_def empty_item_def)
  have "0 < length (inventory offerer)" by (simp add: sp MAX_INVENTORY_def)
  then have c0: "tradable_copy (inventory offerer) ! 0 = potions 10"
    by (simp add: tradable_copy_def sp e0)
  have c: "impossible_trade_check offerer = 0" "impossible_trade_check taker = 0"
    using triv by (simp_all add: impossible_trade_check_def sel c0 del: replicate.simps)
  have fnd: "arr_find (\<lambda>x. nameid x = 501 \<and> list_all (\<lambda>j. card_at x j = card_at (potions 10) j) [0..<4])
      (inventory offerer) = 0"
    by (simp add: inv slots_with_def list_all_iff)
  have st: "itemdb_isstackable2 potion_data" by (simp add: itemdb_isstackable2_def potion_data_def)
  have fit: "trade_fit sample_env (inventory offerer) (inventory offerer) (0, 4)
      = Some ((inventory offerer)[0 := (potions 10)\<lparr>amount := 6\<rparr>],
              (inventory offerer)[0 := (potions 10)\<lparr>amount := 14\<rparr>])"
    using st by (simp add: trade_fit_def sp fnd MAX_INVENTORY_def MAX_AMOUNT_def Let_def)
  have z: "zip ((0, 4) # replicate 9 (0, 0)) (replicate 10 (0, 0))
      = ((0::nat, 4::int), (0::nat, 0::int)) # replicate 9 ((0, 0), (0, 0))"
    by (simp add: numeral_eq_Suc)
  have tc: "trade_check sample_env offerer taker"
    using trivfit fit0 by (simp add: trade_check_def sel z fit MAX_ZENY_def del: replicate.simps)
  have m: "map_id2sd sample_world (trade_partner offerer) = Some taker"
    by (simp add: map_id2sd_def sample_world_def sel)
  have w1: "sample_world 1 = Some offerer" by (simp add: sample_world_def)
  have lk: "trading offerer" "deal_locked offerer \<noteq> 0" "deal_locked taker = 2"
    by (simp_all add: offerer_def taker_def)
  show ?thesis
    using trade_tradecommit_closes [OF sample_world_ok w1 _ _ m _ c tc] sel(1-5) lk by auto
qed

end
