(* ===== verification/Vending.thy ===== *)
theory Vending
  imports Trade Complex_Main
begin

text \<open>
  Player shops: map/vending.cpp. The shop fields of a player are a record of
  their own, beside the player's. A purchase works on the buyer, the vendor and
  the vendor's shop. Packets, the SQL tables of the shops and the mail report are
  left out; the functions of the organised shops, whose sources are not in the
  repository, are arguments.
\<close>

section \<open>State\<close>

record vend =
  v_index :: int
  v_amount :: int
  v_value :: int

definition MAX_VENDING :: nat where "MAX_VENDING = 12"

record shop =
  vender_id :: int
  vended_id :: int
  vend_num :: nat
  vlist :: "vend list"
  vend_loot :: nat
  shop_message :: string
  vending_skill :: int
  cart_on :: bool
  is_dead :: bool
  reallocate :: bool
  oshop_flag :: int
  ss_open :: bool
  ss_count :: int
  ss_remote :: int

text \<open>The settings, and \<open>fl\<close>, the rounding of a double operation.\<close>

record vconf =
  extended_vending :: bool
  item_zeny :: nat
  item_cash :: nat
  vending_over_max :: bool
  vending_tax :: int
  vending_tax_min :: int
  vending_max_value :: int
  area_size :: int
  fl :: "rat \<Rightarrow> rat"

section \<open>Browsing and closing\<close>

definition vending_vendinglistreq :: "world \<Rightarrow> (int \<Rightarrow> shop) \<Rightarrow> int \<Rightarrow> int \<Rightarrow> (int \<Rightarrow> shop)" where
  "vending_vendinglistreq w shops a b =
     (case (w a, map_id2sd w b) of
        (Some s, Some v) \<Rightarrow>
          if \<not> vending v then shops
          else if \<not> pc_can_give_items s \<or> \<not> pc_can_give_items v then shops
          else shops(a := (shops a)\<lparr>vended_id := vender_id (shops b)\<rparr>)
      | _ \<Rightarrow> shops)"

definition searchstore_queryremote :: "shop \<Rightarrow> int \<Rightarrow> bool" where
  "searchstore_queryremote sh aid \<longleftrightarrow> ss_open sh \<and> ss_count sh \<noteq> 0 \<and> ss_remote sh = aid"

definition searchstore_clearremote :: "shop \<Rightarrow> shop" where
  "searchstore_clearremote sh = sh\<lparr>ss_remote := 0\<rparr>"

text \<open>\<open>leave\<close> is what the organised shops do to a player who closes a shop there.\<close>

definition vending_closevending :: "(sd \<Rightarrow> sd) \<Rightarrow> sd \<times> shop \<Rightarrow> sd \<times> shop" where
  "vending_closevending leave p =
     (case p of (s, sh) \<Rightarrow>
        if vending s \<and> \<not> reallocate sh then
          let s = s\<lparr>vending := False\<rparr>; sh = sh\<lparr>vender_id := 0\<rparr>
          in if oshop_flag sh \<noteq> 0 then (leave s, sh\<lparr>oshop_flag := 0\<rparr>) else (s, sh)
        else (s, sh))"

section \<open>Opening a shop\<close>

text \<open>
  The lines of a request as the client sends them: position (from 2), amount and
  price. The array of entries is overwritten from the front; \<open>i\<close> entries are in use.
\<close>

definition vend_line_ok :: "env \<Rightarrow> sd \<Rightarrow> int \<Rightarrow> int \<Rightarrow> bool" where
  "vend_line_ok e s idx amt \<longleftrightarrow>
     \<not> (idx < 0 \<or> idx \<ge> int MAX_CART)
     \<and> \<not> pc_cartitem_amount s (nat idx) amt < 0
     \<and> identify (cart s ! nat idx) \<noteq> 0
     \<and> attribute (cart s ! nat idx) \<noteq> 1
     \<and> expire_time (cart s ! nat idx) = 0
     \<and> \<not> (bound (cart s ! nat idx) \<noteq> 0 \<and> \<not> pc_can_give_bounded_items s)
     \<and> itemdb_isrestricted (db e) (cart s ! nat idx) (pc_get_group_level s) (pc_get_group_level s) itemdb_cantrade_sub"

fun vend_lines :: "env \<Rightarrow> vconf \<Rightarrow> sd \<Rightarrow> (int \<times> int \<times> int) list \<Rightarrow> nat \<Rightarrow> vend list \<Rightarrow> nat \<times> vend list" where
  "vend_lines e vc s [] i xs = (i, xs)"
| "vend_lines e vc s ((idx0, amt0, val) # ls) i xs =
     (let idx = s16 (s16 idx0 - 2); amt = s16 amt0
      in if \<not> vend_line_ok e s idx amt then vend_lines e vc s ls i xs
         else vend_lines e vc s ls (i + 1)
                (xs[i := \<lparr>v_index = idx, v_amount = amt, v_value = min val (u32 (vending_max_value vc))\<rparr>]))"

text \<open>
  \<open>block\<close> tells whether an organised map has room, \<open>enter\<close> moves the player to his
  place there; \<open>uid\<close> is the last shop id given out. The code's answer, the
  player, the shop and the id counter.
\<close>

definition vending_openvending ::
    "env \<Rightarrow> vconf \<Rightarrow> (sd \<Rightarrow> bool option) \<Rightarrow> (sd \<times> shop \<Rightarrow> sd \<times> shop) \<Rightarrow> sd \<times> shop \<Rightarrow> int \<Rightarrow> string
     \<Rightarrow> (int \<times> int \<times> int) list \<Rightarrow> int \<times> (sd \<times> shop) \<times> int" where
  "vending_openvending e vc block enter p uid msg ls =
     (case p of (s, sh) \<Rightarrow>
        if is_dead sh \<or> \<not> prevend s \<or> npc_id s \<noteq> 0 \<or> vending s \<or> buyingstore s \<or> trading s then (1, (s, sh), uid)
        else if vending_skill sh = 0 \<or> \<not> cart_on sh then (2, (s, sh), uid)
        else if length ls < 1 \<or> length ls > MAX_VENDING \<or> int (length ls) > 2 + vending_skill sh then (3, (s, sh), uid)
        else if block s = Some False then (1, (s, sh), uid)
        else case vend_lines e vc s ls 0 (vlist sh) of (i, xs) \<Rightarrow>
          let sh = sh\<lparr>vlist := xs\<rparr>
          in if i = 0 then (5, (s, sh), uid)
             else
               let (s, sh) = (if block s \<noteq> None then enter (s, sh) else (s, sh));
                   uid = u32 (uid + 1)
               in (0, (s\<lparr>prevend := False, vending := True\<rparr>,
                      sh\<lparr>vender_id := s32 uid, vend_num := i, shop_message := take 79 msg\<rparr>), uid))"

section \<open>Purchases\<close>

text \<open>The tax, in the order of the double operations; the amounts fit a double exactly.\<close>

definition vending_calc_tax :: "vconf \<Rightarrow> rat \<Rightarrow> rat" where
  "vending_calc_tax vc z =
     (if vending_tax vc \<noteq> 0 \<and> z \<ge> of_int (vending_tax_min vc)
      then fl vc (z - fl vc (z * fl vc (of_int (vending_tax vc) / 10000))) else z)"

text \<open>The conversion of a double to int: towards zero.\<close>

definition rat_int :: "rat \<Rightarrow> int" where
  "rat_int z = (if z < 0 then \<lceil>z\<rceil> else \<lfloor>z\<rfloor>)"

definition pays_zeny :: "vconf \<Rightarrow> shop \<Rightarrow> bool" where
  "pays_zeny vc sh \<longleftrightarrow> \<not> extended_vending vc \<or> vend_loot sh = item_zeny vc \<or> vend_loot sh = 0"

definition pays_cash :: "vconf \<Rightarrow> shop \<Rightarrow> bool" where
  "pays_cash vc sh \<longleftrightarrow> \<not> pays_zeny vc sh \<and> vend_loot sh = item_cash vc"

text \<open>Whether the buyer can pay the sum \<open>z\<close> so far, in the currency of the shop.\<close>

definition vend_funds :: "env \<Rightarrow> vconf \<Rightarrow> sd \<Rightarrow> sd \<Rightarrow> shop \<Rightarrow> int \<Rightarrow> bool" where
  "vend_funds e vc s v sh z =
     (if pays_zeny vc sh then
        \<not> (z > zeny s \<or> z < 0 \<or> z > MAX_ZENY) \<and> \<not> (z + zeny v > MAX_ZENY \<and> \<not> vending_over_max vc)
      else if pays_cash vc sh then \<not> (z > cashPoints s \<or> z < 0 \<or> z > MAX_ZENY)
      else
        (\<forall>it \<in> set (inventory s). bound it = 0)
        \<and> \<not> (z > sum_list (map (\<lambda>it. if nameid it = vend_loot sh then amount it else 0) (inventory s)) \<or> z < 0)
        \<and> pc_inventoryblank v > 0
        \<and> \<not> u32 (id_weight (search e (vend_loot sh)) * z + weight v) > max_weight v)"

text \<open>
  The checks of one line of the request: None is a return without any change.
  \<open>xs\<close> is the copy of the entries against duplicate lines; the result is the sum,
  the weight, the new slots needed, the copy and the entry of the line.
\<close>

definition vend_check ::
    "env \<Rightarrow> vconf \<Rightarrow> sd \<Rightarrow> sd \<Rightarrow> shop \<Rightarrow> int \<Rightarrow> int \<Rightarrow> int \<times> int \<times> nat \<times> vend list
     \<Rightarrow> ((int \<times> int \<times> nat \<times> vend list) \<times> nat) option" where
  "vend_check e vc s v sh amt idx st =
     (case st of (z, w, new_, xs) \<Rightarrow>
        if amt \<le> 0 then None
        else if idx < 0 \<or> idx \<ge> int MAX_CART then None
        else
          let j = arr_find (\<lambda>x. v_index x = idx) (take (vend_num sh) (vlist sh))
          in if j \<ge> vend_num sh then None
          else
            let z = z + v_value (vlist sh ! j) * amt; it = cart v ! nat idx
            in if \<not> vend_funds e vc s v sh z then None
            else
              let w = w + id_weight (search e (nameid it)) * amt
              in if u32 (w + weight s) > max_weight s then None
              else
                let a = min (v_amount (xs ! j)) (amount it)
                in if a < amt then None
                else
                  let xs = xs[j := (xs ! j)\<lparr>v_amount := a - amt\<rparr>]
                  in case pc_checkadditem e s (nameid it) amt of
                       CHKADDITEM_EXIST \<Rightarrow> Some ((z, w, new_, xs), j)
                     | CHKADDITEM_NEW \<Rightarrow>
                         if new_ + 1 > pc_inventoryblank s then None else Some ((z, w, new_ + 1, xs), j)
                     | CHKADDITEM_OVERAMOUNT \<Rightarrow> None)"

text \<open>The lines as the loop reads them: amount and index are shorts, the index counts from 2.\<close>

definition vend_read :: "int \<times> int \<Rightarrow> int \<times> int" where
  "vend_read l = (s16 (fst l), s16 (s16 (snd l) - 2))"

fun vend_checks ::
    "env \<Rightarrow> vconf \<Rightarrow> sd \<Rightarrow> sd \<Rightarrow> shop \<Rightarrow> (int \<times> int) list \<Rightarrow> int \<times> int \<times> nat \<times> vend list
     \<Rightarrow> (int \<times> nat list) option" where
  "vend_checks e vc s v sh [] st = Some (fst st, [])"
| "vend_checks e vc s v sh ((amt, idx) # ls) st =
     (case vend_check e vc s v sh amt idx st of
        None \<Rightarrow> None
      | Some (st, j) \<Rightarrow> map_option (\<lambda>(z, js). (z, j # js)) (vend_checks e vc s v sh ls st))"

text \<open>
  Payment with items: the loop over the buyer's inventory gives the whole price
  for every slot with the item; what \<open>pc_additem\<close> answers is not looked at.
\<close>

definition vend_loot_slot :: "env \<Rightarrow> nat \<Rightarrow> int \<Rightarrow> nat \<Rightarrow> sd \<times> sd \<Rightarrow> sd \<times> sd" where
  "vend_loot_slot e loot z i p =
     (case p of (s, v) \<Rightarrow>
        if nameid (inventory s ! i) = loot then
          case pc_additem e v (inventory s ! i) z of (f, v, it) \<Rightarrow> (set_inv_uid s i (unique_id it), v)
        else (s, v))"

definition vend_pay_loot :: "env \<Rightarrow> nat \<Rightarrow> int \<Rightarrow> sd \<times> sd \<Rightarrow> sd \<times> sd" where
  "vend_pay_loot e loot z p =
     (case fold (vend_loot_slot e loot z) [0..<MAX_INVENTORY] p of
        (s, v) \<Rightarrow> (snd (pc_delitem e s (pc_search_inventory s loot) z 0), v))"

definition vend_pay :: "env \<Rightarrow> vconf \<Rightarrow> shop \<Rightarrow> int \<Rightarrow> sd \<times> sd \<Rightarrow> sd \<times> sd" where
  "vend_pay e vc sh z p =
     (if pays_zeny vc sh then
        (snd (pc_payzeny (fst p) z), snd (pc_getzeny (snd p) (rat_int (vending_calc_tax vc (of_int z)))))
      else if pays_cash vc sh then (snd (pc_paycash (fst p) z 0), snd (pc_getcash (snd p) z 0))
      else vend_pay_loot e (vend_loot sh) z p)"

text \<open>Delivery of one line; again the answer of \<open>pc_additem\<close> is ignored.\<close>

definition vend_deliver :: "env \<Rightarrow> int \<Rightarrow> int \<Rightarrow> sd \<times> sd \<Rightarrow> sd \<times> sd" where
  "vend_deliver e amt idx p =
     (case p of (s, v) \<Rightarrow>
        case pc_additem e s (cart v ! nat idx) amt of (f, s, it) \<Rightarrow>
          (s, pc_cart_delitem e (set_cart_uid v (nat idx) (unique_id it)) (nat idx) amt))"

definition vend_sold :: "nat \<Rightarrow> int \<Rightarrow> vend list \<Rightarrow> vend list" where
  "vend_sold j amt xs = xs[j := (xs ! j)\<lparr>v_amount := v_amount (xs ! j) - amt\<rparr>]"

fun vend_delivers :: "env \<Rightarrow> (int \<times> int) list \<Rightarrow> nat list \<Rightarrow> (sd \<times> sd) \<times> vend list \<Rightarrow> (sd \<times> sd) \<times> vend list" where
  "vend_delivers e ((amt, idx) # ls) (j # js) (p, xs) = vend_delivers e ls js (vend_deliver e amt idx p, vend_sold j amt xs)"
| "vend_delivers e _ _ st = st"

text \<open>The loop that closes the gaps: \<open>i\<close> runs over the entries, \<open>cursor\<close> over the places.\<close>

fun vend_compact :: "nat \<Rightarrow> nat \<Rightarrow> nat \<Rightarrow> vend list \<Rightarrow> nat \<times> vend list" where
  "vend_compact 0 i cursor xs = (cursor, xs)"
| "vend_compact (Suc n) i cursor xs =
     (if v_amount (xs ! i) = 0 then vend_compact n (i + 1) cursor xs
      else vend_compact n (i + 1) (cursor + 1) (if cursor \<noteq> i then xs[cursor := xs ! i] else xs))"

text \<open>The part after the guards: None when a check fails.\<close>

definition vend_trade ::
    "env \<Rightarrow> vconf \<Rightarrow> (int \<times> int) list \<Rightarrow> sd \<times> sd \<Rightarrow> shop \<Rightarrow> ((sd \<times> sd) \<times> shop) option" where
  "vend_trade e vc ls p sh =
     (case vend_checks e vc (fst p) (snd p) sh ls (0, 0, 0, vlist sh) of
        None \<Rightarrow> None
      | Some (z, js) \<Rightarrow>
          (case vend_delivers e ls js (vend_pay e vc sh z p, vlist sh) of
             (p, xs) \<Rightarrow> (case vend_compact (vend_num sh) 0 0 xs of
               (n, xs) \<Rightarrow> Some (p, sh\<lparr>vlist := xs, vend_num := n\<rparr>))))"

text \<open>A vendor on auto-trade whose shop is empty closes it and leaves the server.\<close>

definition vend_finish :: "(sd \<Rightarrow> sd) \<Rightarrow> int \<Rightarrow> sd \<times> shop \<Rightarrow> world \<Rightarrow> (int \<Rightarrow> shop) \<Rightarrow> world \<times> (int \<Rightarrow> shop)" where
  "vend_finish leave b q w shops =
     (case q of (v, sh) \<Rightarrow>
        if autotrade v \<and> arr_find (\<lambda>x. v_amount x > 0) (take (vend_num sh) (vlist sh)) \<ge> vend_num sh
        then (w(b := None), shops(b := snd (vending_closevending leave (v, sh))))
        else (w(b \<mapsto> v), shops(b := sh)))"

definition vending_purchasereq ::
    "env \<Rightarrow> vconf \<Rightarrow> (sd \<Rightarrow> sd) \<Rightarrow> world \<Rightarrow> (int \<Rightarrow> shop) \<Rightarrow> int \<Rightarrow> int \<Rightarrow> int \<Rightarrow> (int \<times> int) list
     \<Rightarrow> world \<times> (int \<Rightarrow> shop)" where
  "vending_purchasereq e vc leave w shops a b uid data =
     (case (w a, map_id2sd w b) of
        (Some s, Some v) \<Rightarrow>
          if \<not> vending v \<or> b = a then (w, shops)
          else if vender_id (shops b) \<noteq> uid then (w, shops)
          else if \<not> searchstore_queryremote (shops a) b
               \<and> (map_m s \<noteq> map_m v \<or> \<not> check_distance (pos_x s - pos_x v) (pos_y s - pos_y v) (area_size vc))
          then (w, shops)
          else
            let shops = shops(a := searchstore_clearremote (shops a))
            in if length data < 1 \<or> length data > MAX_VENDING \<or> length data > vend_num (shops b) then (w, shops)
               else case vend_trade e vc (map vend_read data) (s, v) (shops b) of
                      None \<Rightarrow> (w, shops)
                    | Some ((s, v), sh) \<Rightarrow> vend_finish leave b (v, sh) (w(a \<mapsto> s)) shops
      | _ \<Rightarrow> (w, shops))"

text \<open>Whether a shop sells an item: \<open>vending_search\<close>.\<close>

definition vending_search :: "sd \<Rightarrow> shop \<Rightarrow> nat \<Rightarrow> bool" where
  "vending_search v sh k \<longleftrightarrow> vending v
     \<and> arr_find (\<lambda>x. int (nameid (cart v ! nat (v_index x))) = s16 (int k)) (take (vend_num sh) (vlist sh)) < vend_num sh"

section \<open>Delivery\<close>

text \<open>Whether the buyer's inventory takes a line, and the units that get lost when it does not.\<close>

definition vend_accepts :: "env \<Rightarrow> int \<Rightarrow> int \<Rightarrow> sd \<times> sd \<Rightarrow> bool" where
  "vend_accepts e amt idx p \<longleftrightarrow> fst (pc_additem e (fst p) (cart (snd p) ! nat idx) amt) = ADDITEM_SUCCESS"

definition vend_lost :: "nat \<Rightarrow> env \<Rightarrow> int \<Rightarrow> int \<Rightarrow> sd \<times> sd \<Rightarrow> int" where
  "vend_lost k e amt idx p =
     (if nameid (cart (snd p) ! nat idx) = k \<and> \<not> vend_accepts e amt idx p then amt else 0)"

fun vend_losses :: "nat \<Rightarrow> env \<Rightarrow> (int \<times> int) list \<Rightarrow> sd \<times> sd \<Rightarrow> int" where
  "vend_losses k e [] p = 0"
| "vend_losses k e ((amt, idx) # ls) p = vend_lost k e amt idx p + vend_losses k e ls (vend_deliver e amt idx p)"

text \<open>The effect of delivering one line that the vendor's cart covers.\<close>

lemma vend_deliver_frame:
  assumes ok: "pair_ok e p" and i: "0 \<le> idx" "nat idx < MAX_CART"
    and lv: "live e (cart (snd p) ! nat idx)" and a: "0 < amt" "amt \<le> amount (cart (snd p) ! nat idx)"
  defines "q \<equiv> vend_deliver e amt idx p"
  shows "pair_ok e q" "pair_total k q = pair_total k p - vend_lost k e amt idx p"
    "same_trade (fst p) (fst q)" "same_trade (snd p) (snd q)"
    "length (cart (snd q)) = MAX_CART"
    "j \<noteq> nat idx \<Longrightarrow> cart (snd q) ! j = cart (snd p) ! j"
    "amount (cart (snd q) ! nat idx) = amount (cart (snd p) ! nat idx) - amt"
    "live e (cart (snd q) ! nat idx)"
proof -
  let ?i = "nat idx"
  obtain f s' it where c: "pc_additem e (fst p) (cart (snd p) ! ?i) amt = (f, s', it)"
    by (metis prod.exhaust)
  have s: "player_ok e (fst p)" and v: "player_ok e (snd p)" using ok by (simp_all add: pair_ok_def)
  have len: "length (cart (snd p)) = MAX_CART" by (rule player_ok_slot(4) [OF v])
  have sl: "slot_ok (cart (snd p) ! ?i)" using player_ok_slot(2) [OF v i(2)] .
  then have nz: "nameid (cart (snd p) ! ?i) \<noteq> 0" using a by (auto simp: slot_ok_def split: if_splits)
  note S = pc_additem_player_ok [OF s lv c]
  have S2: "holdings k s' = holdings k (fst p)
      + (if nameid (cart (snd p) ! ?i) = k \<and> vend_accepts e amt idx p then amt else 0)" for k
    using S(2) c by (auto simp: vend_accepts_def)
  define v' where "v' = set_cart_uid (snd p) ?i (unique_id it)"
  have li: "?i < length (cart (snd p))" using len i by simp
  note F = set_cart_uid_frame [OF li, where u = "unique_id it", folded v'_def]
  have vc: "cart v' = (cart (snd p))[?i := (cart (snd p) ! ?i)\<lparr>unique_id := unique_id it\<rparr>]"
    by (simp add: v'_def set_cart_uid_def)
  then have at: "nameid (cart v' ! ?i) = nameid (cart (snd p) ! ?i)" "amount (cart v' ! ?i) = amount (cart (snd p) ! ?i)"
    "expire_time (cart v' ! ?i) = expire_time (cart (snd p) ! ?i)"
    using li by simp_all
  have v'ok: "player_ok e v'" using F(5) v by simp
  then have co: "cart_ok e v'" by (simp add: player_ok_def)
  have r: "cart_removed e v' ?i amt (pc_cart_delitem e v' ?i amt)"
    using pc_cart_delitem_removed [OF co i(2)] nz a at by simp
  have q: "q = (s', pc_cart_delitem e v' ?i amt)"
    by (simp add: q_def vend_deliver_def c v'_def split: prod.split) (metis c prod.sel)
  have cq: "cart (snd q) = (cart v')[?i := debit (cart v' ! ?i) amt]" using r by (simp add: q cart_removed_def)
  show "pair_ok e q" using cart_removed_player_ok [OF r v'ok] S(1) by (simp add: pair_ok_def q)
  show "same_trade (fst p) (fst q)" using S(3) by (simp add: q)
  have "same_trade v' (snd q)" using r by (simp add: q cart_removed_def same_inventory_def)
  then show "same_trade (snd p) (snd q)" using F(3) same_trade_trans by (auto simp: same_inventory_def)
  show "length (cart (snd q)) = MAX_CART" using len by (simp add: cq vc)
  show "j \<noteq> ?i \<Longrightarrow> cart (snd q) ! j = cart (snd p) ! j" by (simp add: cq vc)
  have e: "cart (snd q) ! ?i = debit (cart v' ! ?i) amt" using li by (simp add: cq vc)
  show "amount (cart (snd q) ! ?i) = amount (cart (snd p) ! ?i) - amt"
    unfolding e using at a by (simp add: debit_def)
  show "live e (cart (snd q) ! ?i)" unfolding e using at lv by (simp add: debit_def live_def)
  have "holdings k (snd q) = holdings k (snd p) - (if nameid (cart (snd p) ! ?i) = k then amt else 0)"
    using r F(2) at by (simp add: q cart_removed_def)
  moreover have "holdings k (fst q) = holdings k (fst p)
      + (if nameid (cart (snd p) ! ?i) = k \<and> vend_accepts e amt idx p then amt else 0)"
    using S2 by (simp add: q)
  ultimately show "pair_total k q = pair_total k p - vend_lost k e amt idx p"
    by (simp add: pair_total_def vend_lost_def)
qed

section \<open>The checks\<close>

text \<open>The units of a cart slot that the lines ask for together, and the entry a line picks.\<close>

definition demand :: "int \<Rightarrow> (int \<times> int) list \<Rightarrow> int" where
  "demand idx ls = sum_list (map (\<lambda>l. if snd l = idx then fst l else 0) ls)"

definition entry_of :: "shop \<Rightarrow> int \<Rightarrow> nat" where
  "entry_of sh idx = arr_find (\<lambda>x. v_index x = idx) (take (vend_num sh) (vlist sh))"

definition price_of :: "shop \<Rightarrow> (int \<times> int) list \<Rightarrow> int" where
  "price_of sh ls = sum_list (map (\<lambda>l. v_value (vlist sh ! entry_of sh (snd l)) * fst l) ls)"

definition shop_ok :: "shop \<Rightarrow> bool" where
  "shop_ok sh \<longleftrightarrow> length (vlist sh) = MAX_VENDING \<and> vend_num sh \<le> MAX_VENDING"

lemma demand_simps [simp]:
  "demand idx [] = 0" "demand idx ((a, i) # ls) = (if i = idx then a else 0) + demand idx ls"
  by (simp_all add: demand_def)

lemma demand_absent: "idx \<notin> snd ` set ls \<Longrightarrow> demand idx ls = 0"
  by (induction ls) auto

lemma price_of_simps [simp]:
  "price_of sh [] = 0"
  "price_of sh ((a, i) # ls) = v_value (vlist sh ! entry_of sh i) * a + price_of sh ls"
  by (simp_all add: price_of_def)

text \<open>What a passed check of one line says.\<close>

lemma vend_checkD:
  assumes "vend_check e vc s v sh amt idx (z, w, n, xs) = Some (st, j)"
  obtains w' n' where "0 < amt" "0 \<le> idx" "idx < int MAX_CART" "j = entry_of sh idx" "j < vend_num sh"
    "vend_funds e vc s v sh (z + v_value (vlist sh ! j) * amt)"
    "amt \<le> v_amount (xs ! j)" "amt \<le> amount (cart v ! nat idx)"
    "st = (z + v_value (vlist sh ! j) * amt, w', n',
       xs[j := (xs ! j)\<lparr>v_amount := min (v_amount (xs ! j)) (amount (cart v ! nat idx)) - amt\<rparr>])"
proof -
  have "\<exists>w' n'. 0 < amt \<and> 0 \<le> idx \<and> idx < int MAX_CART \<and> j = entry_of sh idx \<and> j < vend_num sh
    \<and> vend_funds e vc s v sh (z + v_value (vlist sh ! j) * amt)
    \<and> amt \<le> v_amount (xs ! j) \<and> amt \<le> amount (cart v ! nat idx)
    \<and> st = (z + v_value (vlist sh ! j) * amt, w', n',
       xs[j := (xs ! j)\<lparr>v_amount := min (v_amount (xs ! j)) (amount (cart v ! nat idx)) - amt\<rparr>])"
    using assms unfolding vend_check_def entry_of_def [symmetric]
    by (auto simp: Let_def split: if_splits chkadditem.splits)
  then show thesis using that by blast
qed

lemma entry_of_index:
  assumes "shop_ok sh" "entry_of sh idx < vend_num sh"
  shows "v_index (vlist sh ! entry_of sh idx) = idx" "entry_of sh idx < length (vlist sh)"
proof -
  have l: "length (take (vend_num sh) (vlist sh)) = vend_num sh" using assms(1) by (simp add: shop_ok_def)
  have "v_index (take (vend_num sh) (vlist sh) ! entry_of sh idx) = idx"
    using arr_find_sat [of "\<lambda>x. v_index x = idx" "take (vend_num sh) (vlist sh)"] assms(2) l
    unfolding entry_of_def by simp
  then show "v_index (vlist sh ! entry_of sh idx) = idx" using assms(2) by simp
  show "entry_of sh idx < length (vlist sh)" using assms by (simp add: shop_ok_def)
qed

text \<open>
  When all lines pass, no cart slot and no entry is asked for more than it holds,
  and the sum is the price of the lines, which the buyer can pay.
\<close>

lemma vend_checks_sound:
  assumes "vend_checks e vc s v sh ls (z, w, n, xs) = Some (z', js)" "shop_ok sh" "length xs = length (vlist sh)"
  shows "z' = z + price_of sh ls" "js = map (\<lambda>l. entry_of sh (snd l)) ls"
    "ls \<noteq> [] \<Longrightarrow> vend_funds e vc s v sh z'"
    "\<And>a idx. (a, idx) \<in> set ls \<Longrightarrow> 0 < a \<and> 0 \<le> idx \<and> idx < int MAX_CART \<and> entry_of sh idx < vend_num sh
      \<and> demand idx ls \<le> min (v_amount (xs ! entry_of sh idx)) (amount (cart v ! nat idx))"
proof -
  have "z' = z + price_of sh ls \<and> js = map (\<lambda>l. entry_of sh (snd l)) ls
    \<and> (ls \<noteq> [] \<longrightarrow> vend_funds e vc s v sh z')
    \<and> (\<forall>a idx. (a, idx) \<in> set ls \<longrightarrow> 0 < a \<and> 0 \<le> idx \<and> idx < int MAX_CART \<and> entry_of sh idx < vend_num sh
      \<and> demand idx ls \<le> min (v_amount (xs ! entry_of sh idx)) (amount (cart v ! nat idx)))"
    using assms(1,3)
  proof (induction ls arbitrary: z w n xs js)
    case Nil
    then show ?case by simp
  next
    case (Cons l ls)
    obtain amt i where l: "l = (amt, i)" by fastforce
    obtain st j js' where c: "vend_check e vc s v sh amt i (z, w, n, xs) = Some (st, j)"
      and r: "vend_checks e vc s v sh ls st = Some (z', js')" and js: "js = j # js'"
      using Cons.prems(1) by (auto simp: l split: option.splits)
    obtain w' n' where D: "0 < amt" "0 \<le> i" "i < int MAX_CART" "j = entry_of sh i" "j < vend_num sh"
      "vend_funds e vc s v sh (z + v_value (vlist sh ! j) * amt)"
      "amt \<le> v_amount (xs ! j)" "amt \<le> amount (cart v ! nat i)"
      and st: "st = (z + v_value (vlist sh ! j) * amt, w', n',
       xs[j := (xs ! j)\<lparr>v_amount := min (v_amount (xs ! j)) (amount (cart v ! nat i)) - amt\<rparr>])"
      using c by (rule vend_checkD)
    let ?xs = "xs[j := (xs ! j)\<lparr>v_amount := min (v_amount (xs ! j)) (amount (cart v ! nat i)) - amt\<rparr>]"
    have len: "length ?xs = length (vlist sh)" using Cons.prems(2) by simp
    note IH = Cons.IH [OF r [unfolded st] len]
    have jl: "j < length xs"
      using entry_of_index(2) [OF assms(2)] D(4,5) Cons.prems(2) by simp
    have fin: "vend_funds e vc s v sh z'"
    proof (cases "ls = []")
      case True
      then show ?thesis using IH D(6) by simp
    next
      case False
      then show ?thesis using IH by blast
    qed
    have dem: "0 < a \<and> 0 \<le> idx \<and> idx < int MAX_CART \<and> entry_of sh idx < vend_num sh
      \<and> demand idx (l # ls) \<le> min (v_amount (xs ! entry_of sh idx)) (amount (cart v ! nat idx))"
      if m: "(a, idx) \<in> set (l # ls)" for a idx
    proof (cases "idx = i")
      case True
      have t: "demand i ls \<le> min (v_amount (xs ! j)) (amount (cart v ! nat i)) - amt"
      proof (cases "i \<in> snd ` set ls")
        case False
        then show ?thesis using demand_absent [OF False] D(7,8) by simp
      next
        case inl: True
        then obtain a' where "(a', i) \<in> set ls" by force
        then have "demand i ls \<le> v_amount (?xs ! j)" using IH D(4) by fastforce
        then show ?thesis using jl by simp
      qed
      have "0 < a" using m IH D(1) l True by auto
      moreover have "demand i (l # ls) \<le> min (v_amount (xs ! j)) (amount (cart v ! nat i))" using t l by (simp add: le_diff_eq add.commute)
      ultimately show ?thesis using D(2,3,4,5) True by simp
    next
      case False
      then have m': "(a, idx) \<in> set ls" using m l by simp
      then have h: "0 < a \<and> 0 \<le> idx \<and> idx < int MAX_CART \<and> entry_of sh idx < vend_num sh
        \<and> demand idx ls \<le> min (v_amount (?xs ! entry_of sh idx)) (amount (cart v ! nat idx))"
        using IH by blast
      have "entry_of sh idx \<noteq> j"
        using entry_of_index(1) [OF assms(2)] h D(4,5) False by metis
      then show ?thesis using h False l by simp
    qed
    have "z' = z + price_of sh (l # ls)" "js = map (\<lambda>l. entry_of sh (snd l)) (l # ls)"
      using IH [THEN conjunct1] IH [THEN conjunct2, THEN conjunct1] D(4)
      by (simp_all only: l js price_of_simps list.map snd_conv)
    then show ?case using fin dem by blast
  qed
  then show "z' = z + price_of sh ls" "js = map (\<lambda>l. entry_of sh (snd l)) ls"
    "ls \<noteq> [] \<Longrightarrow> vend_funds e vc s v sh z'"
    "\<And>a idx. (a, idx) \<in> set ls \<Longrightarrow> 0 < a \<and> 0 \<le> idx \<and> idx < int MAX_CART \<and> entry_of sh idx < vend_num sh
      \<and> demand idx ls \<le> min (v_amount (xs ! entry_of sh idx)) (amount (cart v ! nat idx))"
    by blast+
qed

section \<open>Payment and delivery\<close>

lemma vend_delivers_frame:
  assumes "pair_ok e p"
    and "\<And>a idx. (a, idx) \<in> set ls \<Longrightarrow> 0 < a \<and> 0 \<le> idx \<and> idx < int MAX_CART
      \<and> live e (cart (snd p) ! nat idx) \<and> demand idx ls \<le> amount (cart (snd p) ! nat idx)"
    and "length js = length ls" and "q = fst (vend_delivers e ls js (p, xs))"
  shows "pair_ok e q \<and> same_trade (fst p) (fst q) \<and> same_trade (snd p) (snd q)
    \<and> (\<forall>k. pair_total k q = pair_total k p - vend_losses k e ls p \<and> 0 \<le> vend_losses k e ls p)"
  using assms
proof (induction ls arbitrary: p js xs)
  case Nil
  then show ?case by simp
next
  case (Cons l ls)
  obtain amt i where l: "l = (amt, i)" by fastforce
  obtain j js' where js: "js = j # js'" using Cons.prems(3) by (cases js) auto
  let ?p = "vend_deliver e amt i p"
  have D: "0 < amt" "0 \<le> i" "nat i < MAX_CART" "live e (cart (snd p) ! nat i)"
    "amt + demand i ls \<le> amount (cart (snd p) ! nat i)"
    using Cons.prems(2) [of amt i] by (simp_all add: l nat_less_iff)
  have nn: "0 \<le> demand idx ls" for idx
    unfolding demand_def using Cons.prems(2) by (intro sum_list_nonneg) (fastforce simp: less_imp_le)
  have le: "amt \<le> amount (cart (snd p) ! nat i)" using D(5) nn [of i] by simp
  note F = vend_deliver_frame [OF Cons.prems(1) D(2,3,4,1) le]
  have cov: "0 < a \<and> 0 \<le> idx \<and> idx < int MAX_CART
      \<and> live e (cart (snd ?p) ! nat idx) \<and> demand idx ls \<le> amount (cart (snd ?p) ! nat idx)"
    if m: "(a, idx) \<in> set ls" for a idx
  proof (cases "idx = i")
    case True
    then show ?thesis using Cons.prems(2) [of a idx] m D F(7,8) by (simp add: l)
  next
    case False
    have h: "0 < a \<and> 0 \<le> idx \<and> idx < int MAX_CART
      \<and> live e (cart (snd p) ! nat idx) \<and> demand idx (l # ls) \<le> amount (cart (snd p) ! nat idx)"
      using Cons.prems(2) [of a idx] m by (simp add: l)
    then have "nat idx \<noteq> nat i" using False D(2) by auto
    with F(6) h False show ?thesis by (simp add: l)
  qed
  have "q = fst (vend_delivers e ls js' (?p, vend_sold j amt xs))" using Cons.prems(4) by (simp add: l js)
  from Cons.IH [OF F(1) cov _ this] Cons.prems(3)
  have "pair_ok e q \<and> same_trade (fst ?p) (fst q) \<and> same_trade (snd ?p) (snd q)
    \<and> (\<forall>k. pair_total k q = pair_total k ?p - vend_losses k e ls ?p \<and> 0 \<le> vend_losses k e ls ?p)"
    by (simp add: js)
  moreover have "0 \<le> vend_lost k e amt i p" for k using D(1) by (simp add: vend_lost_def)
  ultimately show ?case
    using F(2,3,4) same_trade_trans by (auto simp: l)
qed

text \<open>A payment with money touches neither inventory nor cart.\<close>

lemma player_ok_money [simp]:
  "player_ok e (s\<lparr>zeny := z\<rparr>) = player_ok e s" "player_ok e (s\<lparr>cashPoints := z\<rparr>) = player_ok e s"
  "player_ok e (s\<lparr>kafraPoints := z\<rparr>) = player_ok e s"
  by (simp_all add: player_ok_def inv_ok_def cart_ok_def stores_ok_def stores_def)

lemma holdings_money [simp]:
  "holdings k (s\<lparr>zeny := z\<rparr>) = holdings k s" "holdings k (s\<lparr>cashPoints := z\<rparr>) = holdings k s"
  "holdings k (s\<lparr>kafraPoints := z\<rparr>) = holdings k s"
  by (simp_all add: holdings_def stores_def)

lemma pc_money_same:
  "player_ok e (snd (pc_payzeny s z)) = player_ok e s" "holdings k (snd (pc_payzeny s z)) = holdings k s"
  "player_ok e (snd (pc_getzeny s z)) = player_ok e s" "holdings k (snd (pc_getzeny s z)) = holdings k s"
  "player_ok e (snd (pc_paycash s z y)) = player_ok e s" "holdings k (snd (pc_paycash s z y)) = holdings k s"
  "player_ok e (snd (pc_getcash s z y)) = player_ok e s" "holdings k (snd (pc_getcash s z y)) = holdings k s"
  "cart (snd (pc_getzeny s z)) = cart s" "cart (snd (pc_getcash s z y)) = cart s"
  by (simp_all add: money_defs Let_def)

lemma vend_pay_money:
  assumes "pays_zeny vc sh \<or> pays_cash vc sh"
  shows "pair_ok e (vend_pay e' vc sh z p) = pair_ok e p" "pair_total k (vend_pay e' vc sh z p) = pair_total k p"
    "cart (snd (vend_pay e' vc sh z p)) = cart (snd p)"
  using assms by (auto simp: vend_pay_def pair_ok_def pair_total_def pc_money_same)

lemma vend_tradeE:
  assumes "vend_trade e vc ls p sh = Some (q, sh')"
  obtains z js xs n ys where "vend_checks e vc (fst p) (snd p) sh ls (0, 0, 0, vlist sh) = Some (z, js)"
    "vend_delivers e ls js (vend_pay e vc sh z p, vlist sh) = (q, xs)"
    "vend_compact (vend_num sh) 0 0 xs = (n, ys)" "sh' = sh\<lparr>vlist := ys, vend_num := n\<rparr>"
  using assms unfolding vend_trade_def by (auto split: option.splits prod.splits)

lemma vend_trade_frame:
  assumes "vend_trade e vc ls p sh = Some (q, sh')" "pair_ok e p" "shop_ok sh"
    and lv: "\<And>i. i < MAX_CART \<Longrightarrow> live e (cart (snd p) ! i)" and m: "pays_zeny vc sh \<or> pays_cash vc sh"
  defines "r \<equiv> vend_pay e vc sh (price_of sh ls) p"
  shows "pair_ok e q" "pair_total k q = pair_total k p - vend_losses k e ls r" "0 \<le> vend_losses k e ls r"
    "same_trade (fst r) (fst q)" "same_trade (snd r) (snd q)"
    "ls \<noteq> [] \<Longrightarrow> vend_funds e vc (fst p) (snd p) sh (price_of sh ls)"
proof -
  obtain z js xs n ys where c: "vend_checks e vc (fst p) (snd p) sh ls (0, 0, 0, vlist sh) = Some (z, js)"
    and d: "vend_delivers e ls js (vend_pay e vc sh z p, vlist sh) = (q, xs)"
    using assms(1) by (rule vend_tradeE)
  note C = vend_checks_sound [OF c assms(3) refl]
  have z: "z = price_of sh ls" and js: "length js = length ls" using C(1,2) by simp_all
  note P = vend_pay_money [OF m, where z = z and p = p and e' = e]
  have ok: "pair_ok e r" using P(1) assms(2) by (simp add: r_def z)
  have cov: "0 < a \<and> 0 \<le> idx \<and> idx < int MAX_CART
      \<and> live e (cart (snd r) ! nat idx) \<and> demand idx ls \<le> amount (cart (snd r) ! nat idx)"
    if "(a, idx) \<in> set ls" for a idx
    using C(4) [OF that] lv [of "nat idx"] P(3) by (simp add: r_def z nat_less_iff)
  have "q = fst (vend_delivers e ls js (r, vlist sh))" using d by (simp add: r_def z)
  from vend_delivers_frame [OF ok cov js this]
  show "pair_ok e q" "pair_total k q = pair_total k p - vend_losses k e ls r" "0 \<le> vend_losses k e ls r"
    "same_trade (fst r) (fst q)" "same_trade (snd r) (snd q)"
    using P(2) by (simp_all add: r_def z)
  show "ls \<noteq> [] \<Longrightarrow> vend_funds e vc (fst p) (snd p) sh (price_of sh ls)" using C(3) z by simp
qed

section \<open>Tax\<close>

text \<open>
  What is used of the rounding of doubles: it is monotone and exact on the
  integers up to \<open>2 ^ 53\<close>.
\<close>

definition fl_ok :: "vconf \<Rightarrow> bool" where
  "fl_ok vc \<longleftrightarrow> mono (fl vc) \<and> (\<forall>n :: int. \<bar>n\<bar> \<le> 2 ^ 53 \<longrightarrow> fl vc (of_int n) = of_int n)"

lemma fl_between:
  assumes "fl_ok vc" "of_int a \<le> x" "x \<le> of_int b" "\<bar>a\<bar> \<le> 2 ^ 53" "\<bar>b\<bar> \<le> 2 ^ 53"
  shows "of_int a \<le> fl vc x" "fl vc x \<le> of_int b"
proof -
  have m: "mono (fl vc)" and ex: "\<bar>n\<bar> \<le> 2 ^ 53 \<Longrightarrow> fl vc (of_int n) = of_int n" for n
    using assms(1) by (auto simp: fl_ok_def)
  show "of_int a \<le> fl vc x" using monoD [OF m assms(2)] ex [OF assms(4)] by simp
  show "fl vc x \<le> of_int b" using monoD [OF m assms(3)] ex [OF assms(5)] by simp
qed

lemma vending_calc_tax_bounds:
  assumes f: "fl_ok vc" and t: "0 \<le> vending_tax vc" "vending_tax vc \<le> 10000" and z: "0 \<le> z" "z \<le> 2 ^ 53"
  shows "0 \<le> vending_calc_tax vc (of_int z)" "vending_calc_tax vc (of_int z) \<le> of_int z"
proof -
  let ?r = "fl vc (of_int (vending_tax vc) / 10000)"
  have r: "0 \<le> ?r" "?r \<le> 1"
    using fl_between [OF f, of 0 "of_int (vending_tax vc) / 10000" 1] t by simp_all
  let ?y = "fl vc (of_int z * ?r)"
  have le: "of_int z * ?r \<le> of_int z" "0 \<le> of_int z * ?r"
    using r z mult_left_mono [of ?r 1 "of_int z"] by simp_all
  have y: "0 \<le> ?y" "?y \<le> of_int z"
    using fl_between [OF f, of 0 "of_int z * ?r" z] le z by simp_all
  have "0 \<le> fl vc (of_int z - ?y)" "fl vc (of_int z - ?y) \<le> of_int z"
    using fl_between [OF f, of 0 "of_int z - ?y" z] y z by simp_all
  then show "0 \<le> vending_calc_tax vc (of_int z)" "vending_calc_tax vc (of_int z) \<le> of_int z"
    using z by (simp_all add: vending_calc_tax_def)
qed

lemma rat_int_bounds:
  assumes "0 \<le> x" "x \<le> of_int z"
  shows "0 \<le> rat_int x" "rat_int x \<le> z" "rat_int (of_int z) = z"
  using assms by (simp_all add: rat_int_def floor_le_iff)

section \<open>Closing the gaps\<close>

lemma vend_compact_eq: "vend_compact n i cursor xs = close_gaps (\<lambda>x. v_amount x \<noteq> 0) n i cursor xs"
  by (induction n i cursor xs rule: vend_compact.induct) auto

lemma vend_compact_filter:
  assumes "cursor \<le> i" "i + n \<le> length xs"
  shows "vend_compact n i cursor xs =
    (let ys = filter (\<lambda>x. v_amount x \<noteq> 0) (take n (drop i xs))
     in (cursor + length ys, take cursor xs @ ys @ drop (cursor + length ys) xs))"
  unfolding vend_compact_eq using assms by (rule close_gaps_filter)

section \<open>Payment with items\<close>

text \<open>The stacks of the buyer for which the vendor's inventory takes the price.\<close>

fun loot_taken :: "env \<Rightarrow> nat \<Rightarrow> int \<Rightarrow> nat list \<Rightarrow> sd \<times> sd \<Rightarrow> int" where
  "loot_taken e loot z [] p = 0"
| "loot_taken e loot z (i # js) p =
     (if nameid (inventory (fst p) ! i) = loot \<and> fst (trade_give e p i z) then 1 else 0)
     + loot_taken e loot z js (vend_loot_slot e loot z i p)"

lemma vend_loot_slot_give:
  "vend_loot_slot e loot z i p = (if nameid (inventory (fst p) ! i) = loot then snd (trade_give e p i z) else p)"
  by (simp add: vend_loot_slot_def trade_give_def split: prod.split)

text \<open>Slots and their counts as the loop over the buyer's inventory leaves them.\<close>

definition same_counts :: "item list \<Rightarrow> item list \<Rightarrow> bool" where
  "same_counts xs ys \<longleftrightarrow> map (\<lambda>x. (nameid x, amount x, expire_time x)) ys = map (\<lambda>x. (nameid x, amount x, expire_time x)) xs"

lemma same_countsD:
  assumes "same_counts xs ys" "i < length xs"
  shows "nameid (ys ! i) = nameid (xs ! i)" "amount (ys ! i) = amount (xs ! i)" "expire_time (ys ! i) = expire_time (xs ! i)"
proof -
  have "length ys = length xs" using assms(1) unfolding same_counts_def by (metis length_map)
  then have "(nameid (ys ! i), amount (ys ! i), expire_time (ys ! i)) = (nameid (xs ! i), amount (xs ! i), expire_time (xs ! i))"
    using assms unfolding same_counts_def by (metis (no_types, lifting) nth_map)
  then show "nameid (ys ! i) = nameid (xs ! i)" "amount (ys ! i) = amount (xs ! i)" "expire_time (ys ! i) = expire_time (xs ! i)"
    by simp_all
qed

lemma same_counts_search:
  assumes "same_counts (inventory s) (inventory t)"
  shows "pc_search_inventory t k = pc_search_inventory s k"
proof -
  have f: "arr_find (\<lambda>it. P (nameid it) (amount it)) ys = arr_find (\<lambda>it. P (nameid it) (amount it)) xs"
    if "same_counts xs ys" for P xs ys
    using that
  proof (induction ys arbitrary: xs)
    case Nil
    then show ?case by (simp add: same_counts_def)
  next
    case (Cons y ys)
    then show ?case by (cases xs) (auto simp: same_counts_def)
  qed
  have len: "length (inventory t) = length (inventory s)"
    using assms unfolding same_counts_def by (rule map_eq_imp_length_eq)
  show ?thesis
    unfolding pc_search_inventory_def f [OF assms, of "\<lambda>n a. n = k \<and> (a > 0 \<or> k = 0)"] len ..
qed

lemma vend_loot_slot_frame:
  fixes loot :: nat and z :: int
  assumes ok: "pair_ok e p" and i: "i < MAX_INVENTORY" and lv: "live e (inventory (fst p) ! i)"
  defines "q \<equiv> vend_loot_slot e loot z i p"
  shows "pair_ok e q" "same_counts (inventory (fst p)) (inventory (fst q))"
    "pair_total k q = pair_total k p + (if loot = k then z * loot_taken e loot z [i] p else 0)"
proof -
  obtain b r where g: "trade_give e p i z = (b, r)" by (cases "trade_give e p i z")
  note F = trade_give_frame [OF ok i lv g]
  have "inventory (fst r) = (inventory (fst p))[i := (inventory (fst p) ! i)\<lparr>unique_id := unique_id (inventory (fst r) ! i)\<rparr>]"
  proof -
    have "length (inventory (fst p)) = MAX_INVENTORY" using ok player_ok_slot(3) [of e "fst p"] by (simp add: pair_ok_def)
    then show ?thesis using g i by (auto simp: trade_give_def set_inv_uid_def split: prod.splits)
  qed
  then have "map (\<lambda>x. (nameid x, amount x, expire_time x)) (inventory (fst r))
      = map (\<lambda>x. (nameid x, amount x, expire_time x)) ((inventory (fst p))[i := (inventory (fst p) ! i)\<lparr>unique_id := unique_id (inventory (fst r) ! i)\<rparr>])"
    by simp
  also have "\<dots> = map (\<lambda>x. (nameid x, amount x, expire_time x)) (inventory (fst p))"
    by (rule nth_equalityI) (auto intro!: nth_update_same)
  finally have sc: "same_counts (inventory (fst p)) (inventory (fst r))" by (simp add: same_counts_def)
  show "pair_ok e q" "same_counts (inventory (fst p)) (inventory (fst q))"
    "pair_total k q = pair_total k p + (if loot = k then z * loot_taken e loot z [i] p else 0)"
    using F(1,7) sc ok by (auto simp: q_def vend_loot_slot_give g same_counts_def)
qed

lemma vend_loot_fold:
  assumes "pair_ok e p" "\<And>i. i \<in> set js \<Longrightarrow> i < MAX_INVENTORY \<and> live e (inventory (fst p) ! i)"
  shows "pair_ok e (fold (vend_loot_slot e loot z) js p)
    \<and> same_counts (inventory (fst p)) (inventory (fst (fold (vend_loot_slot e loot z) js p)))
    \<and> pair_total k (fold (vend_loot_slot e loot z) js p)
      = pair_total k p + (if loot = k then z * loot_taken e loot z js p else 0)"
  using assms
proof (induction js arbitrary: p)
  case Nil
  then show ?case by (simp add: same_counts_def)
next
  case (Cons i js)
  let ?q = "vend_loot_slot e loot z i p"
  have i: "i < MAX_INVENTORY" "live e (inventory (fst p) ! i)" using Cons.prems(2) by simp_all
  note F = vend_loot_slot_frame [OF Cons.prems(1) i, where loot = loot and z = z]
  have len: "length (inventory (fst p)) = MAX_INVENTORY"
    using Cons.prems(1) player_ok_slot(3) [of e "fst p"] by (simp add: pair_ok_def)
  have "j < MAX_INVENTORY \<and> live e (inventory (fst ?q) ! j)" if "j \<in> set js" for j
    using Cons.prems(2) [of j] that same_countsD(3) [OF F(2), of j] len by (simp add: live_def)
  from Cons.IH [OF F(1) this]
  have *: "pair_ok e (fold (vend_loot_slot e loot z) js ?q)"
    "same_counts (inventory (fst ?q)) (inventory (fst (fold (vend_loot_slot e loot z) js ?q)))"
    "pair_total k (fold (vend_loot_slot e loot z) js ?q)
      = pair_total k ?q + (if loot = k then z * loot_taken e loot z js ?q else 0)"
    by blast+
  have "same_counts (inventory (fst p)) (inventory (fst (fold (vend_loot_slot e loot z) js ?q)))"
    using F(2) *(2) by (simp add: same_counts_def)
  then show ?case using * F(3) [of k] by (simp add: algebra_simps)
qed

section \<open>A sample shop\<close>

definition sample_vconf :: vconf where
  "sample_vconf = \<lparr>extended_vending = True, item_zeny = 30000, item_cash = 30001, vending_over_max = False,
     vending_tax = 500, vending_tax_min = 100, vending_max_value = 1000000, area_size = 14, fl = id\<rparr>"

definition sample_shop :: "nat \<Rightarrow> shop" where
  "sample_shop loot = \<lparr>vender_id = 9, vended_id = 0, vend_num = 1,
     vlist = \<lparr>v_index = 0, v_amount = 3, v_value = 100\<rparr> # replicate 11 \<lparr>v_index = 0, v_amount = 0, v_value = 0\<rparr>,
     vend_loot = loot, shop_message = [], vending_skill = 10, cart_on = True, is_dead = False,
     reallocate = False, oshop_flag = 0, ss_open = False, ss_count = 0, ss_remote = 0\<rparr>"

text \<open>A buyer with two knives, and the vendor.\<close>

definition knife_buyer :: sd where
  "knife_buyer = (sample_player 1 0)\<lparr>inventory := slots_with MAX_INVENTORY [knife, knife],
     inventory_data := [Some knife_data, Some knife_data] @ replicate 148 None, weight := 800\<rparr>"

lemma sample_vconf_fl: "fl_ok sample_vconf"
  by (simp add: fl_ok_def sample_vconf_def mono_def)

lemma sample_shop_ok [simp]: "shop_ok (sample_shop l)"
  by (simp add: shop_ok_def sample_shop_def MAX_VENDING_def)

lemma sample_live: "i < MAX_CART \<Longrightarrow> live sample_env (cart (sample_player a b) ! i)"
  by (cases "i = 0") (simp_all add: live_def sample_player_def slots_with_facts MAX_CART_def)

lemma knife_buyer_ok: "player_ok sample_env knife_buyer"
proof -
  have cache: "inventory_data knife_buyer ! i = Some (search sample_env (nameid (inventory knife_buyer ! i)))"
    if "i < MAX_INVENTORY" "nameid (inventory knife_buyer ! i) \<noteq> 0" for i
  proof (cases "i < 2")
    case True
    then have "i = 0 \<or> i = 1" by auto
    then show ?thesis by (auto simp: knife_buyer_def slots_with_def)
  next
    case False
    then show ?thesis using that by (simp add: knife_buyer_def slots_with_facts MAX_INVENTORY_def)
  qed
  have "total_weight sample_env (inventory knife_buyer) = 800"
    by (simp add: knife_buyer_def slots_with_facts MAX_INVENTORY_def) (simp add: total_weight_def item_weight_def)
  then have "inv_ok sample_env knife_buyer"
    using cache by (simp add: inv_ok_def)
      (simp add: knife_buyer_def slots_with_facts MAX_INVENTORY_def slot_ok_def MAX_AMOUNT_def)
  moreover have "cart_ok sample_env knife_buyer \<and> stores_ok knife_buyer \<and> hooks_ok sample_env"
    using sample_player_ok [of 1 0] by (simp add: player_ok_def knife_buyer_def cart_ok_def)
  ultimately show ?thesis by (simp add: player_ok_def)
qed

lemma sample_checks:
  "vend_checks sample_env sample_vconf (sample_player 1 0) (sample_player 2 0) (sample_shop 0) [(2, 0)]
     (0, 0, 0, vlist (sample_shop 0)) = Some (200, [0])"
proof -
  have c: "cart (sample_player 2 0) ! 0 = potions 3"
    by (simp add: sample_player_def slots_with_facts MAX_CART_def)
  have a: "arr_find (\<lambda>it. nameid it = 501) (inventory (sample_player 1 0)) = 0"
    "inventory (sample_player 1 0) ! 0 = potions 10" "0 < length (inventory (sample_player 1 0))"
    by (simp_all add: sample_player_def slots_with_def potions_def)
  have f: "vend_funds sample_env sample_vconf (sample_player 1 0) (sample_player 2 0) (sample_shop 0) 200"
    by (simp add: vend_funds_def pays_zeny_def sample_shop_def sample_vconf_def sample_player_def MAX_ZENY_def)
  have ch: "pc_checkadditem sample_env (sample_player 1 0) 501 2 = CHKADDITEM_EXIST"
    using a by (simp add: pc_checkadditem_def MAX_AMOUNT_def itemdb_isstackable2_def potion_data_def dummy_item_def Let_def)
  have w: "weight (sample_player 1 0) = 1100" "max_weight (sample_player 1 0) = 20000"
    by (simp_all add: sample_player_def)
  have sh: "vend_num (sample_shop 0) = 1" "vlist (sample_shop 0) ! 0 = \<lparr>v_index = 0, v_amount = 3, v_value = 100\<rparr>"
    "take (Suc 0) (vlist (sample_shop 0)) = [\<lparr>v_index = 0, v_amount = 3, v_value = 100\<rparr>]"
    by (simp_all add: sample_shop_def)
  show ?thesis
    by (simp add: vend_check_def sh MAX_CART_def f c ch w Let_def)
qed

lemma sample_vend_trade:
  obtains q sh' where "vend_trade sample_env sample_vconf [(2, 0)] (sample_player 1 0, sample_player 2 0) (sample_shop 0)
    = Some (q, sh')"
proof -
  obtain q xs where d: "vend_delivers sample_env [(2, 0)] [0] (vend_pay sample_env sample_vconf (sample_shop 0) 200
      (sample_player 1 0, sample_player 2 0), vlist (sample_shop 0)) = (q, xs)" by (rule prod.exhaust)
  obtain n ys where "vend_compact (vend_num (sample_shop 0)) 0 0 xs = (n, ys)" by (rule prod.exhaust)
  then have "vend_trade sample_env sample_vconf [(2, 0)] (sample_player 1 0, sample_player 2 0) (sample_shop 0)
    = Some (q, sample_shop 0\<lparr>vlist := ys, vend_num := n\<rparr>)"
    unfolding vend_trade_def fst_conv snd_conv sample_checks by (simp only: d option.case prod.case)
  then show thesis by (rule that)
qed

lemma sample_price: "price_of (sample_shop 0) [(2, 0)] = 200"
  by (simp add: price_of_def entry_of_def sample_shop_def)

lemma sample_pays_zeny: "pays_zeny sample_vconf (sample_shop 0)"
  by (simp add: pays_zeny_def sample_shop_def sample_vconf_def)

lemma sample_pair_ok: "pair_ok sample_env (sample_player 1 0, sample_player 2 0)"
  by (simp add: pair_ok_def)

text \<open>The vendor's inventory takes both knives of the buyer.\<close>

definition knife_vendor :: "nat \<Rightarrow> sd" where
  "knife_vendor n = (sample_player 2 0)\<lparr>inventory := slots_with MAX_INVENTORY ([potions 10, knife] @ replicate n knife),
     inventory_data := [Some potion_data, Some knife_data] @ replicate n (Some knife_data) @ replicate (148 - n) None,
     weight := 1100 + 400 * int n, last_addeditem_index := (if n = 0 then 0 else n + 1)\<rparr>"

lemma knife_vendor_takes:
  assumes "n < 2"
  shows "pc_additem sample_env (knife_vendor n) knife 1 = (ADDITEM_SUCCESS, knife_vendor (Suc n), knife)"
proof -
  have "n = 0 \<or> n = 1" using assms by auto
  then have s: "pc_search_inventory (knife_vendor n) 0 = int (n + 2)"
    by (auto simp: pc_search_inventory_def knife_vendor_def slots_with_def arr_find_append numeral_2_eq_2 Let_def
        MAX_INVENTORY_def arr_find_replicate)
  have st: "\<not> itemdb_isstackable2 knife_data" "\<not> flag_guid knife_data" "\<not> flag_autoequip knife_data"
    "\<not> stack_inventory knife_data" "unique_id knife = 77"
    by (simp_all add: itemdb_isstackable2_def knife_data_def dummy_item_def knife_def)
  have kn: "knife\<lparr>equip := 0, favorite := 0, amount := 1, unique_id := 77\<rparr> = knife" by (simp add: knife_def empty_item_def)
  have inv: "(inventory (knife_vendor n))[n + 2 := knife] = inventory (knife_vendor (Suc n))"
    "(inventory_data (knife_vendor n))[n + 2 := Some knife_data] = inventory_data (knife_vendor (Suc n))"
    using \<open>n = 0 \<or> n = 1\<close>
    by (auto simp: knife_vendor_def slots_with_def MAX_INVENTORY_def numeral_eq_Suc list_update_append)
  have w: "weight (knife_vendor n) = 1100 + 400 * int n" "max_weight (knife_vendor n) = 20000"
    by (simp_all add: knife_vendor_def sample_player_def)
  have nn: "nat (2 + int n) = n + 2" by simp
  have up: "(knife_vendor n)\<lparr>inventory := inventory (knife_vendor (Suc n)),
      inventory_data := inventory_data (knife_vendor (Suc n)), last_addeditem_index := n + 2,
      weight := 1100 + 400 * int n + 400\<rparr> = knife_vendor (Suc n)"
    by (simp add: knife_vendor_def)
  show ?thesis
    using assms
    by (simp add: pc_additem_def st additem_guid_def additem_place_def additem_new_def additem_finish_def s kn w
        MAX_AMOUNT_def nn inv [simplified] up [simplified] Let_def)
qed

section \<open>What a purchase guarantees\<close>

text \<open>
  C23. A purchase paid with zeny or cash never creates items: both players stay
  well formed, and the units of every item that the two own together change only by
  the lines that the buyer's inventory refuses, whose units are destroyed.
\<close>

theorem vend_trade_items:
  assumes "vend_trade e vc ls p sh = Some (q, sh')" "pair_ok e p" "shop_ok sh"
    "\<And>i. i < MAX_CART \<Longrightarrow> live e (cart (snd p) ! i)" "pays_zeny vc sh \<or> pays_cash vc sh"
  shows "pair_ok e q
    \<and> pair_total k q = pair_total k p - vend_losses k e ls (vend_pay e vc sh (price_of sh ls) p)
    \<and> 0 \<le> vend_losses k e ls (vend_pay e vc sh (price_of sh ls) p)"
  using vend_trade_frame [OF assms] by blast

theorem vend_trade_items_witness:
  "\<exists>q sh'. vend_trade sample_env sample_vconf [(2, 0)] (sample_player 1 0, sample_player 2 0) (sample_shop 0)
      = Some (q, sh') \<and> pair_ok sample_env q
      \<and> pair_total 501 q \<le> pair_total 501 (sample_player 1 0, sample_player 2 0)"
proof -
  obtain q sh' where t: "vend_trade sample_env sample_vconf [(2, 0)] (sample_player 1 0, sample_player 2 0) (sample_shop 0)
    = Some (q, sh')" by (rule sample_vend_trade)
  show ?thesis
    using vend_trade_items [OF t sample_pair_ok sample_shop_ok _ disjI1 [OF sample_pays_zeny], of 501] sample_live t
    by auto
qed

text \<open>
  C24. A purchase paid with zeny takes exactly the price of the lines from the
  buyer, who has it, and gives the vendor the price less the tax: an amount between 0
  and the price, cut where his purse is full, and the whole price when it is below the
  taxed minimum.
\<close>

theorem vend_trade_zeny:
  assumes "vend_trade e vc ls p sh = Some (q, sh')" "pair_ok e p" "shop_ok sh"
    "\<And>i. i < MAX_CART \<Longrightarrow> live e (cart (snd p) ! i)" "pays_zeny vc sh" "ls \<noteq> []"
    "fl_ok vc" "0 \<le> vending_tax vc" "vending_tax vc \<le> 10000"
    "zeny (fst p) \<le> MAX_ZENY" "0 \<le> zeny (snd p)" "zeny (snd p) \<le> MAX_ZENY"
  defines "z \<equiv> price_of sh ls" and "r \<equiv> rat_int (vending_calc_tax vc (of_int (price_of sh ls)))"
  shows "0 \<le> z \<and> z \<le> zeny (fst p) \<and> zeny (fst q) = zeny (fst p) - z
    \<and> 0 \<le> r \<and> r \<le> z \<and> zeny (snd q) = min MAX_ZENY (zeny (snd p) + r)
    \<and> (z < vending_tax_min vc \<or> vending_tax vc = 0 \<longrightarrow> r = z)"
proof -
  note F = vend_trade_frame [OF assms(1-4) disjI1 [OF assms(5)]]
  have fu: "0 \<le> z" "z \<le> zeny (fst p)" using F(6) assms(5,6) by (simp_all add: vend_funds_def z_def)
  then have zb: "z \<le> 2 ^ 53" using assms(10) by (simp add: MAX_ZENY_def)
  have r: "0 \<le> r" "r \<le> z" "z < vending_tax_min vc \<or> vending_tax vc = 0 \<Longrightarrow> r = z"
    using vending_calc_tax_bounds [OF assms(7-9) fu(1) zb] rat_int_bounds [of "vending_calc_tax vc (of_int z)" z]
      rat_int_bounds(3) [of "of_int z" z] fu(1)
    by (auto simp: r_def z_def vending_calc_tax_def)
  have rm: "r \<le> MAX_ZENY" using r fu assms(10) by simp
  have g: "zeny (snd (pc_getzeny (snd p) r)) = min MAX_ZENY (zeny (snd p) + r)"
    using r(1) rm assms(11,12) by (simp add: pc_getzeny_def Let_def MAX_ZENY_def)
  have pay: "vend_pay e vc sh (price_of sh ls) p = (snd (pc_payzeny (fst p) z), snd (pc_getzeny (snd p) r))"
    using assms(5) by (simp add: vend_pay_def z_def r_def)
  have "zeny (fst q) = zeny (fst p) - z" "zeny (snd q) = min MAX_ZENY (zeny (snd p) + r)"
    using F(4,5) assms(10) fu g unfolding pay by (simp_all add: same_trade_def pc_payzeny_exact)
  then show ?thesis using fu r by simp
qed

theorem vend_trade_zeny_witness:
  "\<exists>q sh'. vend_trade sample_env sample_vconf [(2, 0)] (sample_player 1 0, sample_player 2 0) (sample_shop 0)
      = Some (q, sh') \<and> zeny (fst q) = 800 \<and> zeny (snd q) = 1190"
proof -
  obtain q sh' where t: "vend_trade sample_env sample_vconf [(2, 0)] (sample_player 1 0, sample_player 2 0) (sample_shop 0)
    = Some (q, sh')" by (rule sample_vend_trade)
  have x: "rat_int (vending_calc_tax sample_vconf 200) = 190"
    by (simp add: vending_calc_tax_def sample_vconf_def rat_int_def)
  have c: "vending_tax sample_vconf = 500" by (simp add: sample_vconf_def)
  have "zeny (fst q) = 800 \<and> zeny (snd q) = 1190"
    using vend_trade_zeny [OF t sample_pair_ok sample_shop_ok _ sample_pays_zeny _ sample_vconf_fl,
      unfolded sample_price] sample_live x
    by (simp add: sample_player_zeny c MAX_ZENY_def)
  with t show ?thesis by blast
qed

text \<open>
  After a purchase the list of the shop holds exactly the entries with units
  left, in their old order.
\<close>

theorem vend_compact_exact:
  assumes "n \<le> length xs" "vend_compact n 0 0 xs = (m, ys)"
  shows "take m ys = filter (\<lambda>x. v_amount x \<noteq> 0) (take n xs) \<and> length ys = length xs \<and> m \<le> n"
proof -
  let ?f = "filter (\<lambda>x. v_amount x \<noteq> 0) (take n xs)"
  have "length ?f \<le> n" using length_filter_le [of _ "take n xs"] assms(1) by (metis length_take min.absorb2)
  moreover have e: "(m, ys) = (length ?f, ?f @ drop (length ?f) xs)"
    unfolding assms(2) [symmetric] using vend_compact_filter [of 0 0 n xs] assms(1) by (simp add: Let_def)
  have "m = length ?f" using e by (rule Pair_inject)
  moreover have "ys = ?f @ drop (length ?f) xs" using e by (rule Pair_inject)
  ultimately show ?thesis using assms(1) by (simp only:) simp
qed

theorem vend_compact_exact_witness:
  "take 1 (snd (vend_compact 2 0 0 [\<lparr>v_index = 4, v_amount = 0, v_value = 7\<rparr>, \<lparr>v_index = 5, v_amount = 2, v_value = 8\<rparr>]))
   = [\<lparr>v_index = 5, v_amount = 2, v_value = 8\<rparr>]"
proof -
  let ?xs = "[\<lparr>v_index = 4, v_amount = 0, v_value = 7\<rparr>, \<lparr>v_index = 5, v_amount = 2, v_value = 8\<rparr>]"
  have "vend_compact 2 0 0 ?xs = (1, snd (vend_compact 2 0 0 ?xs))" by (simp add: numeral_2_eq_2)
  from vend_compact_exact [OF _ this] show ?thesis by simp
qed

text \<open>
  C25. Payment with items: the vendor is given the whole price once for every stack
  of the item that the buyer has, and the buyer loses the price at most once, and
  nothing when his first stack is smaller than the price. A buyer with two stacks pays
  one price and two arrive.
\<close>

theorem vend_pay_loot_creates:
  assumes "pair_ok e (s, v)" "loot \<noteq> 0" "0 < z" "0 \<le> pc_search_inventory s loot"
    "\<And>i. i < MAX_INVENTORY \<Longrightarrow> live e (inventory s ! i)"
  shows "pair_total loot (vend_pay_loot e loot z (s, v)) = pair_total loot (s, v)
      + z * loot_taken e loot z [0..<MAX_INVENTORY] (s, v)
      - (if z \<le> amount (inventory s ! nat (pc_search_inventory s loot)) then z else 0)"
proof -
  let ?q = "fold (vend_loot_slot e loot z) [0..<MAX_INVENTORY] (s, v)"
  let ?i = "nat (pc_search_inventory s loot)"
  obtain s' v' where q: "?q = (s', v')" by (rule prod.exhaust)
  have F: "pair_ok e (s', v')" "same_counts (inventory s) (inventory s')"
    "pair_total loot (s', v') = pair_total loot (s, v) + z * loot_taken e loot z [0..<MAX_INVENTORY] (s, v)"
    using vend_loot_fold [OF assms(1), of "[0..<MAX_INVENTORY]" loot z loot] assms(5) by (simp_all add: q)
  have len: "length (inventory s) = MAX_INVENTORY" using assms(1) player_ok_slot(3) [of e s] by (simp add: pair_ok_def)
  have i: "?i < MAX_INVENTORY" "nameid (inventory s ! ?i) = loot" "pc_search_inventory s' loot = pc_search_inventory s loot"
    using assms(4) arr_find_sat [of "\<lambda>it. nameid it = loot \<and> (amount it > 0 \<or> loot = 0)" "inventory s"] len
      same_counts_search [OF F(2)]
    by (auto simp: pc_search_inventory_def Let_def split: if_splits)
  have n: "nameid (inventory s' ! ?i) = loot" "amount (inventory s' ! ?i) = amount (inventory s ! ?i)"
    using same_countsD [OF F(2), of ?i] i len by simp_all
  have s': "inv_ok e s'" "hooks_ok e" using F(1) by (simp_all add: pair_ok_def player_ok_def)
  let ?d = "pc_delitem e s' (pc_search_inventory s loot) z 0"
  obtain r t where d: "?d = (r, t)" by (rule prod.exhaust)
  have "holdings loot t = holdings loot s' - (if z \<le> amount (inventory s ! ?i) then z else 0)"
  proof (cases "z \<le> amount (inventory s ! ?i)")
    case True
    then show ?thesis
      using pc_delitem_removed [OF assms(4) s'(1) i(1) s'(2), of z 0] n assms(2,3) d by (simp add: removed_def)
  next
    case False
    then have "?d = (1, s')" using n by (simp add: pc_delitem_def)
    then show ?thesis using False d by simp
  qed
  then show ?thesis using F(3) by (simp add: vend_pay_loot_def q i(3) d pair_total_def)
qed

lemma loot_taken_none:
  assumes "\<And>i. i \<in> set js \<Longrightarrow> nameid (inventory (fst p) ! i) \<noteq> loot"
  shows "loot_taken e loot z js p = 0"
  using assms by (induction js) (simp_all add: vend_loot_slot_give)

lemma knife_buyer_sel:
  "inventory knife_buyer ! 0 = knife" "inventory knife_buyer ! Suc 0 = knife"
  "2 \<le> i \<Longrightarrow> i < MAX_INVENTORY \<Longrightarrow> inventory knife_buyer ! i = empty_item"
  "pc_search_inventory knife_buyer 1201 = 0"
  by (simp_all add: knife_buyer_def slots_with_facts MAX_INVENTORY_def pc_search_inventory_def arr_find_append slots_with_def)

lemma knife_uid: "set_inv_uid knife_buyer i 77 = knife_buyer" if "i < 2"
proof -
  have "inventory knife_buyer ! i = knife" using that knife_buyer_sel by (auto simp: less_2_cases_iff)
  moreover have "knife\<lparr>unique_id := 77\<rparr> = knife" by (simp add: knife_def)
  ultimately have "(inventory knife_buyer)[i := (inventory knife_buyer ! i)\<lparr>unique_id := 77\<rparr>] = inventory knife_buyer"
    by (metis list_update_id)
  then show ?thesis by (simp add: set_inv_uid_def)
qed

lemma knife_buyer_taken:
  "loot_taken sample_env 1201 1 [0..<MAX_INVENTORY] (knife_buyer, knife_vendor 0) = 2"
proof -
  have g: "trade_give sample_env (knife_buyer, knife_vendor n) n 1 = (True, knife_buyer, knife_vendor (Suc n))"
    if "n < 2" for n
  proof -
    have "inventory knife_buyer ! n = knife" using that knife_buyer_sel by (auto simp: less_2_cases_iff)
    then show ?thesis
      using knife_vendor_takes [OF that] knife_uid [OF that] by (simp add: trade_give_def knife_def [THEN arg_cong, of unique_id])
  qed
  have u: "[0..<MAX_INVENTORY] = 0 # Suc 0 # [2..<MAX_INVENTORY]"
    by (simp add: MAX_INVENTORY_def upt_rec [of 0] upt_rec [of "Suc 0"] numeral_2_eq_2)
  have n: "loot_taken sample_env 1201 1 [2..<MAX_INVENTORY] (knife_buyer, knife_vendor 2) = 0"
    by (rule loot_taken_none) (simp add: knife_buyer_sel)
  have v: "vend_loot_slot sample_env 1201 1 m (knife_buyer, knife_vendor m) = (knife_buyer, knife_vendor (Suc m))"
    if "m < 2" for m
  proof -
    have "inventory knife_buyer ! m = knife" using that knife_buyer_sel by (auto simp: less_2_cases_iff)
    then show ?thesis using g [OF that] by (simp add: vend_loot_slot_give)
  qed
  show ?thesis
    unfolding u using g [of 0] g [of 1] v [of 0] v [of 1] n
    by (simp add: knife_buyer_sel numeral_2_eq_2 del: upt.simps)
qed

theorem vend_pay_loot_creates_witness:
  "pair_total 1201 (vend_pay_loot sample_env 1201 1 (knife_buyer, knife_vendor 0))
   = pair_total 1201 (knife_buyer, knife_vendor 0) + 1"
proof -
  have k: "knife_vendor 0 = sample_player 2 0"
    by (simp add: knife_vendor_def sample_player_def)
  have ok: "pair_ok sample_env (knife_buyer, knife_vendor 0)"
    using knife_buyer_ok by (simp add: k pair_ok_def)
  have lv: "live sample_env (inventory knife_buyer ! i)" if "i < MAX_INVENTORY" for i
    using knife_buyer_sel(1,2) knife_buyer_sel(3) [of i] that
    by (cases "i = 0"; cases "i = 1") (simp_all add: live_def)
  show ?thesis
    using vend_pay_loot_creates [OF ok _ _ _ lv, of 1201 1] by (simp add: knife_buyer_sel knife_buyer_taken)
qed

end
