(* ===== verification/Storage.thy ===== *)
theory Storage
  imports Cart
begin

text \<open>
  The personal storages of map/storage.cpp: the account storage and the premium
  storage. Handlers take a storage pointer that refers to one of the two; it is
  \<open>stor_ref\<close> here. Saving goes through the char server and has no effect on
  the state beyond the flags shown.
\<close>

section \<open>References to a storage\<close>

datatype stor_ref = Main_Storage | Premium_Storage

fun get_stor :: "stor_ref \<Rightarrow> sd \<Rightarrow> s_storage" where
  "get_stor Main_Storage s = storage s"
| "get_stor Premium_Storage s = premiumStorage s"

fun set_stor :: "stor_ref \<Rightarrow> s_storage \<Rightarrow> sd \<Rightarrow> sd" where
  "set_stor Main_Storage st s = s\<lparr>storage := st\<rparr>"
| "set_stor Premium_Storage st s = s\<lparr>premiumStorage := st\<rparr>"

section \<open>Sorting and comparing\<close>

definition storage_comp_item :: "item \<Rightarrow> item \<Rightarrow> int" where
  "storage_comp_item i1 i2 =
     (if nameid i1 = nameid i2 then 0
      else if nameid i1 = 0 \<or> amount i1 = 0 then 1
      else if nameid i2 = 0 \<or> amount i2 = 0 then -1
      else int (nameid i1) - int (nameid i2))"

text \<open>Only the first \<open>n\<close> elements are sorted.\<close>

definition storage_sortitem :: "env \<Rightarrow> item list \<Rightarrow> nat \<Rightarrow> item list" where
  "storage_sortitem e items n =
     (if client_sort_storage (bconf e)
      then qsort e storage_comp_item (take n items) @ drop n items
      else items)"

definition compare_item :: "item \<Rightarrow> item \<Rightarrow> bool" where
  "compare_item a b \<longleftrightarrow> nameid a = nameid b \<and> identify a = identify b \<and> refine a = refine b
     \<and> attribute a = attribute b \<and> expire_time a = expire_time b \<and> bound a = bound b
     \<and> unique_id a = unique_id b
     \<and> list_all (\<lambda>i. card_at a i = card_at b i) [0..<MAX_SLOTS]"

section \<open>Access checks\<close>

datatype e_storage_add = STORAGE_ADD_OK | STORAGE_ADD_NOROOM | STORAGE_ADD_NOACCESS | STORAGE_ADD_INVALID

definition storage_canAddItem ::
    "s_storage \<Rightarrow> int \<Rightarrow> item list \<Rightarrow> int \<Rightarrow> nat \<Rightarrow> e_storage_add" where
  "storage_canAddItem st idx items amt max_num =
     (if idx < 0 \<or> idx \<ge> int max_num then STORAGE_ADD_INVALID
      else if nameid (items ! nat idx) \<le> 0 then STORAGE_ADD_INVALID
      else if amt < 1 \<or> amt > amount (items ! nat idx) then STORAGE_ADD_INVALID
      else if \<not> st_put st then STORAGE_ADD_NOACCESS
      else STORAGE_ADD_OK)"

definition storage_canGetItem :: "s_storage \<Rightarrow> int \<Rightarrow> int \<Rightarrow> e_storage_add" where
  "storage_canGetItem st idx amt =
     (if idx < 0 \<or> idx \<ge> int MAX_STORAGE then STORAGE_ADD_INVALID
      else if nameid (st_items st ! nat idx) \<le> 0 then STORAGE_ADD_INVALID
      else if amt < 1 \<or> amt > amount (st_items st ! nat idx) then STORAGE_ADD_INVALID
      else if \<not> st_get st then STORAGE_ADD_NOACCESS
      else STORAGE_ADD_OK)"

section \<open>Adding and removing\<close>

text \<open>The slot part of \<open>storage_additem\<close>, after its permission checks.\<close>

definition storage_place :: "s_storage \<Rightarrow> item \<Rightarrow> item_data \<Rightarrow> int \<Rightarrow> nat \<times> s_storage" where
  "storage_place st it d amt =
     (let n = st_max_amount st;
          i = (if itemdb_isstackable2 d
               then arr_find (\<lambda>x. compare_item x it) (take n (st_items st)) else n)
      in if i < n then
           let cur = st_items st ! i
           in if amt > MAX_AMOUNT - amount cur \<or> (stack_storage d \<and> amt > stack_amount d - amount cur)
              then (2, st)
              else (0, st\<lparr>st_items := (st_items st)[i := cur\<lparr>amount := amount cur + amt\<rparr>],
                          st_dirty := True\<rparr>)
         else if st_amount st \<ge> int n then (2, st)
         else
           let i = arr_find (\<lambda>x. nameid x = 0) (take n (st_items st))
           in if i \<ge> n then (2, st)
              else (0, st\<lparr>st_items := (st_items st)[i := it\<lparr>amount := s16 amt\<rparr>],
                          st_amount := st_amount st + 1, st_dirty := True\<rparr>))"

definition storage_additem :: "env \<Rightarrow> sd \<Rightarrow> s_storage \<Rightarrow> item \<Rightarrow> int \<Rightarrow> nat \<times> s_storage" where
  "storage_additem e s st it amt =
     (if nameid it = 0 \<or> amt \<le> 0 then (1, st)
      else
        let d = search e (nameid it)
        in if stack_storage d \<and> amt > stack_amount d then (2, st)
        else if \<not> itemdb_isrestricted (db e) it (pc_get_group_level s) 0 itemdb_canstore_sub then (1, st)
        else if bound it > BOUND_ACCOUNT \<and> \<not> pc_can_give_bounded_items s then (1, st)
        else if stuff_blocked (bconf e) it (stuff_enable_storage (bconf e)) then (1, st)
        else storage_place st it d amt)"

definition storage_delitem :: "s_storage \<Rightarrow> nat \<Rightarrow> int \<Rightarrow> nat \<times> s_storage" where
  "storage_delitem st i amt =
     (if nameid (st_items st ! i) = 0 \<or> amount (st_items st ! i) < amt then (1, st)
      else
        let it = (st_items st ! i)\<lparr>amount := amount (st_items st ! i) - amt\<rparr>;
            st = st\<lparr>st_items := (st_items st)[i := it], st_dirty := True\<rparr>
        in (0, if amount it = 0
               then st\<lparr>st_items := (st_items st)[i := empty_item], st_amount := st_amount st - 1\<rparr>
               else st))"

section \<open>The transfer handlers\<close>

definition storage_storageadd :: "env \<Rightarrow> sd \<Rightarrow> stor_ref \<Rightarrow> int \<Rightarrow> int \<Rightarrow> sd" where
  "storage_storageadd e s w idx amt =
     (case storage_canAddItem (get_stor w s) idx (inventory s) amt MAX_INVENTORY of
        STORAGE_ADD_OK \<Rightarrow>
          (case storage_additem e s (get_stor w s) (inventory s ! nat idx) amt of
             (f, st) \<Rightarrow>
               let s = set_stor w st s
               in if f = 0 then snd (pc_delitem e s idx amt 0) else s)
      | _ \<Rightarrow> s)"

text \<open>\<open>pc_additem\<close> gets a pointer into the storage; a generated unique id lands there.\<close>

definition set_stor_uid :: "stor_ref \<Rightarrow> sd \<Rightarrow> nat \<Rightarrow> nat \<Rightarrow> sd" where
  "set_stor_uid w s i u =
     (let st = get_stor w s
      in set_stor w (st\<lparr>st_items := (st_items st)[i := (st_items st ! i)\<lparr>unique_id := u\<rparr>]\<rparr>) s)"

definition storage_storageget :: "env \<Rightarrow> sd \<Rightarrow> stor_ref \<Rightarrow> int \<Rightarrow> int \<Rightarrow> sd" where
  "storage_storageget e s w idx amt =
     (case storage_canGetItem (get_stor w s) idx amt of
        STORAGE_ADD_OK \<Rightarrow>
          (case pc_additem e s (st_items (get_stor w s) ! nat idx) amt of
             (f, s, it) \<Rightarrow>
               let s = set_stor_uid w s (nat idx) (unique_id it)
               in if f = ADDITEM_SUCCESS
                  then set_stor w (snd (storage_delitem (get_stor w s) (nat idx) amt)) s
                  else s)
      | _ \<Rightarrow> s)"

definition storage_storageaddfromcart :: "env \<Rightarrow> sd \<Rightarrow> stor_ref \<Rightarrow> int \<Rightarrow> int \<Rightarrow> sd" where
  "storage_storageaddfromcart e s w idx amt =
     (case storage_canAddItem (get_stor w s) idx (cart s) amt MAX_CART of
        STORAGE_ADD_OK \<Rightarrow>
          (case storage_additem e s (get_stor w s) (cart s ! nat idx) amt of
             (f, st) \<Rightarrow>
               let s = set_stor w st s
               in if f = 0 then pc_cart_delitem e s (nat idx) amt else s)
      | _ \<Rightarrow> s)"

definition storage_storagegettocart :: "env \<Rightarrow> sd \<Rightarrow> stor_ref \<Rightarrow> int \<Rightarrow> int \<Rightarrow> sd" where
  "storage_storagegettocart e s w idx amt =
     (case storage_canGetItem (get_stor w s) idx amt of
        STORAGE_ADD_OK \<Rightarrow>
          (case pc_cart_additem e s (st_items (get_stor w s) ! nat idx) amt of
             (f, s) \<Rightarrow>
               if f = 0
               then set_stor w (snd (storage_delitem (get_stor w s) (nat idx) amt)) s
               else s)
      | _ \<Rightarrow> s)"

section \<open>Opening and closing\<close>

text \<open>
  The result is the code's: 0 for success and 1 for failure. The flag is set
  before the cell PvP check, exactly as in the code.
\<close>

definition storage_storageopen :: "env \<Rightarrow> sd \<Rightarrow> int \<times> sd" where
  "storage_storageopen e s =
     (if storage_flag s \<noteq> 0 then (1, s)
      else if mapflags e (map_m s) MF_NOSTORAGE then (1, s)
      else if \<not> pc_can_give_items s then (1, s)
      else
        let s = s\<lparr>storage_flag := 1\<rparr>
        in if \<not> cell_pvp_can_open_storage (bconf e) \<and> pc_is_on_cellpvp e s then (1, s)
           else (0, s\<lparr>storage := (storage s)\<lparr>st_items :=
                      storage_sortitem e (st_items (storage s)) (st_max_amount (storage s))\<rparr>\<rparr>))"

definition storage_storagesaved :: "sd \<Rightarrow> sd" where
  "storage_storagesaved s =
     (let s = s\<lparr>storage := (storage s)\<lparr>st_dirty := False\<rparr>\<rparr>
      in if storage_flag s = 1 then s\<lparr>storage_flag := 0\<rparr> else s)"

definition storage_storageclose :: "sd \<Rightarrow> sd" where
  "storage_storageclose s =
     (if st_dirty (storage s) then (if storage_flag s = 1 then s\<lparr>storage_flag := 0\<rparr> else s)
      else storage_storagesaved s)"

definition storage_premiumStorage_open :: "env \<Rightarrow> sd \<Rightarrow> sd" where
  "storage_premiumStorage_open e s =
     (let s = s\<lparr>storage_flag := 3\<rparr>
      in s\<lparr>premiumStorage := (premiumStorage s)\<lparr>st_items :=
           storage_sortitem e (st_items (premiumStorage s)) (st_max_amount (premiumStorage s))\<rparr>\<rparr>)"

text \<open>
  \<open>request\<close> is the answer of \<open>intif_storage_request\<close>, which asks the char
  server for a storage that is not loaded yet.
\<close>

definition storage_premiumStorage_load :: "env \<Rightarrow> bool \<Rightarrow> sd \<Rightarrow> nat \<Rightarrow> nat \<Rightarrow> bool \<times> sd" where
  "storage_premiumStorage_load e request s num sm =
     (if storage_flag s \<noteq> 0 then (False, s)
      else if vending s \<or> buyingstore s \<or> prevend s \<or> autotrade s then (False, s)
      else if banking s \<or> callshop s then (False, s)
      else if \<not> pc_can_give_items s then (False, s)
      else if st_id (premiumStorage s) \<noteq> num then (request, s)
      else (True, storage_premiumStorage_open e
             (s\<lparr>premiumStorage := (premiumStorage s)\<lparr>st_put := bit sm 1, st_get := bit sm 0\<rparr>\<rparr>)))"

definition storage_premiumStorage_saved :: "sd \<Rightarrow> sd" where
  "storage_premiumStorage_saved s =
     (let s = s\<lparr>premiumStorage := (premiumStorage s)\<lparr>st_dirty := False\<rparr>\<rparr>
      in if storage_flag s = 3 then s\<lparr>storage_flag := 0\<rparr> else s)"

definition storage_premiumStorage_close :: "sd \<Rightarrow> sd" where
  "storage_premiumStorage_close s =
     (if st_dirty (premiumStorage s) then (if storage_flag s = 3 then s\<lparr>storage_flag := 0\<rparr> else s)
      else storage_premiumStorage_saved s)"

section \<open>Contracts of the storage operations\<close>

lemma storage_okD:
  assumes "storage_ok n st"
  shows "length (st_items st) = n" "slots_ok n (st_items st)" "st_max_amount st \<le> n"
    "st_amount st = taken (st_items st)" "i < n \<Longrightarrow> slot_ok (st_items st ! i)"
  using assms by (auto simp: storage_ok_def slots_ok_def)

definition stor_added :: "nat \<Rightarrow> s_storage \<Rightarrow> item \<Rightarrow> int \<Rightarrow> s_storage \<Rightarrow> bool" where
  "stor_added n st it amt t \<longleftrightarrow> storage_ok n t
     \<and> (\<forall>k. held k (st_items t) = held k (st_items st) + (if nameid it = k then amt else 0))
     \<and> keeps_slots (st_items st) (st_items t)"

text \<open>Stacking on a slot of the same item, and opening a free slot.\<close>

lemma stack_slot_added:
  assumes ok: "storage_ok n st" and i: "i < n" and it: "nameid (st_items st ! i) = nameid it"
    and nz: "nameid it \<noteq> 0" and a: "0 < amt" "amount (st_items st ! i) + amt \<le> MAX_AMOUNT"
  shows "stor_added n st it amt (st\<lparr>st_items := (st_items st)[i := (st_items st ! i)
    \<lparr>amount := amount (st_items st ! i) + amt\<rparr>], st_dirty := d\<rparr>)"
proof -
  note D = storage_okD [OF ok]
  have "slot_ok ((st_items st ! i)\<lparr>amount := amount (st_items st ! i) + amt\<rparr>)"
    using D(5) [OF i] it nz a by (simp add: slot_ok_def)
  then show ?thesis
    using D i it nz a
    by (auto simp: stor_added_def storage_ok_def slots_ok_update nth_list_update taken_update
        held_update units_def keeps_slots_def)
qed

lemma new_slot_added:
  assumes ok: "storage_ok n st" and i: "i < n" and free: "nameid (st_items st ! i) = 0"
    and nz: "nameid it \<noteq> 0" and a: "0 < amt" "amt \<le> MAX_AMOUNT"
  shows "stor_added n st it amt (st\<lparr>st_items := (st_items st)[i := it\<lparr>amount := amt\<rparr>],
    st_amount := st_amount st + 1, st_dirty := d\<rparr>)"
proof -
  note D = storage_okD [OF ok]
  have free': "amount (st_items st ! i) = 0"
    using D(5) [OF i] free by (simp add: slot_ok_def)
  show ?thesis
    using D(1-4) i free free' nz a
    by (auto simp: stor_added_def storage_ok_def slots_ok_update slot_ok_def nth_list_update taken_update
        held_update units_def keeps_slots_def)
qed

text \<open>Searching the first \<open>m\<close> slots only.\<close>

lemma arr_find_take:
  assumes "arr_find P (take m xs) < m" "m \<le> length xs"
  shows "P (xs ! arr_find P (take m xs))"
proof -
  have "arr_find P (take m xs) < length (take m xs)" using assms by simp
  then have "P (take m xs ! arr_find P (take m xs))" by (rule arr_find_sat)
  then show ?thesis using assms by simp
qed

lemma storage_place_added:
  assumes ok: "storage_ok n st" and nz: "nameid it \<noteq> 0" and a: "0 < amt" "amt \<le> MAX_AMOUNT"
    and p: "storage_place st it d amt = (0, t)"
  shows "stor_added n st it amt t"
proof -
  note D = storage_okD [OF ok]
  let ?m = "st_max_amount st"
  have s16: "s16 amt = amt" using a by (simp add: MAX_AMOUNT_def)
  define i where "i = (if itemdb_isstackable2 d
      then arr_find (\<lambda>x. compare_item x it) (take ?m (st_items st)) else ?m)"
  show ?thesis
  proof (cases "i < ?m")
    case True
    then have "i = arr_find (\<lambda>x. compare_item x it) (take ?m (st_items st))"
      by (auto simp: i_def split: if_splits)
    then have "compare_item (st_items st ! i) it"
      using arr_find_take [of "\<lambda>x. compare_item x it" ?m] True D(1,3) by simp
    then have "nameid (st_items st ! i) = nameid it" by (simp add: compare_item_def)
    then show ?thesis
      using p True stack_slot_added [OF ok, of i it amt] D(3) nz a
      by (auto simp: storage_place_def i_def [symmetric] Let_def split: if_splits)
  next
    case False
    let ?j = "arr_find (\<lambda>x. nameid x = 0) (take ?m (st_items st))"
    have j: "?j < ?m" and t: "t = st\<lparr>st_items := (st_items st)[?j := it\<lparr>amount := amt\<rparr>],
                          st_amount := st_amount st + 1, st_dirty := True\<rparr>"
      using p False by (auto simp: storage_place_def i_def [symmetric] s16 Let_def split: if_splits)
    from j D(1,3) have "nameid (st_items st ! ?j) = 0"
      using arr_find_take [of "\<lambda>x. nameid x = 0" ?m "st_items st"] by simp
    then show ?thesis
      unfolding t using new_slot_added [OF ok _ _ nz a] j D(3) by simp
  qed
qed

lemma storage_additem_added:
  assumes "storage_ok n st" "amt \<le> MAX_AMOUNT" "storage_additem e s st it amt = (0, t)"
  shows "stor_added n st it amt t"
proof -
  have "nameid it \<noteq> 0" "0 < amt" "storage_place st it (search e (nameid it)) amt = (0, t)"
    using assms(3) by (auto simp: storage_additem_def Let_def split: if_splits)
  then show ?thesis using storage_place_added assms(1,2) by blast
qed

lemma storage_additem_refused: "storage_additem e s st it amt = (f, t) \<Longrightarrow> f \<noteq> 0 \<Longrightarrow> t = st"
  by (auto simp: storage_additem_def storage_place_def Let_def split: if_splits)

lemma storage_delitem_removed:
  assumes ok: "storage_ok n st" and i: "i < n" and nz: "nameid (st_items st ! i) \<noteq> 0"
    and a: "0 < amt" "amt \<le> amount (st_items st ! i)" and r: "storage_delitem st i amt = (f, t)"
  shows "f = 0 \<and> storage_ok n t
    \<and> (\<forall>k. held k (st_items t) = held k (st_items st) - (if nameid (st_items st ! i) = k then amt else 0))
    \<and> st_items t = (st_items st)[i := debit (st_items st ! i) amt]"
proof -
  note D = storage_okD [OF ok]
  let ?c = "st_items st ! i"
  have sl: "slot_ok (debit ?c amt)"
    using D(5) [OF i] nz a by (auto simp: debit_def slot_ok_def)
  have eq: "f = 0" "t = st\<lparr>st_items := (st_items st)[i := debit ?c amt],
     st_amount := st_amount st - (if amount ?c \<le> amt then 1 else 0), st_dirty := True\<rparr>"
    using r nz a by (auto simp: storage_delitem_def debit_def Let_def split: if_splits)
  show ?thesis
    unfolding eq using D i sl nz a
    by (auto simp: storage_ok_def slots_ok_update taken_update held_update units_def debit_def)
qed

section \<open>The storage transfers as movers\<close>

lemma set_stor_sel [simp]:
  "inventory (set_stor w st s) = inventory s" "inventory_data (set_stor w st s) = inventory_data s"
  "weight (set_stor w st s) = weight s" "cart (set_stor w st s) = cart s"
  "cart_num (set_stor w st s) = cart_num s" "cart_weight (set_stor w st s) = cart_weight s"
  "get_stor w (set_stor w st s) = st"
  by (cases w; simp)+

lemma get_stor_stores: "stores t = stores s \<Longrightarrow> get_stor w t = get_stor w s"
  by (cases w) (auto simp: stores_def)

lemma holdings_set_stor:
  "holdings k (set_stor w st s) = holdings k s - held k (st_items (get_stor w s)) + held k (st_items st)"
  by (cases w) (simp_all add: holdings_def stores_def)

lemma player_ok_get_stor: "player_ok e s \<Longrightarrow> storage_ok MAX_STORAGE (get_stor w s)"
  by (cases w) (simp_all add: player_ok_def stores_ok_def stores_def)

lemma player_ok_set_stor:
  "player_ok e s \<Longrightarrow> storage_ok MAX_STORAGE st \<Longrightarrow> player_ok e (set_stor w st s)"
  by (cases w) (simp_all add: player_ok_def stores_ok_def stores_def inv_ok_def cart_ok_def)

lemma stor_added_step:
  assumes "player_ok e s" "stor_added MAX_STORAGE (get_stor w s) it a st"
  shows "player_ok e (set_stor w st s)
    \<and> (\<forall>k. holdings k (set_stor w st s) = holdings k s + (if nameid it = k then a else 0))"
  using assms player_ok_set_stor by (simp add: stor_added_def holdings_set_stor)

definition put_stor :: "(sd \<Rightarrow> item list) \<Rightarrow> env \<Rightarrow> stor_ref \<Rightarrow> sd \<Rightarrow> nat \<Rightarrow> int \<Rightarrow> bool \<times> sd" where
  "put_stor src e w s i a = (case storage_additem e s (get_stor w s) (src s ! i) a of
     (f, st) \<Rightarrow> (f = 0, set_stor w st s))"

definition get_stor_inv :: "env \<Rightarrow> stor_ref \<Rightarrow> sd \<Rightarrow> nat \<Rightarrow> int \<Rightarrow> bool \<times> sd" where
  "get_stor_inv e w s i a = (case pc_additem e s (st_items (get_stor w s) ! i) a of
     (f, t, it) \<Rightarrow> (f = ADDITEM_SUCCESS, set_stor_uid w t i (unique_id it)))"

definition get_stor_cart :: "env \<Rightarrow> stor_ref \<Rightarrow> sd \<Rightarrow> nat \<Rightarrow> int \<Rightarrow> bool \<times> sd" where
  "get_stor_cart e w s i a = (case pc_cart_additem e s (st_items (get_stor w s) ! i) a of
     (f, t) \<Rightarrow> (f = 0, t))"

definition take_stor :: "stor_ref \<Rightarrow> sd \<Rightarrow> nat \<Rightarrow> int \<Rightarrow> sd" where
  "take_stor w s i a = set_stor w (snd (storage_delitem (get_stor w s) i a)) s"

lemma put_stor_accepted:
  assumes ok: "player_ok e s" and sl: "slot_ok (src s ! i)" and a: "a \<le> amount (src s ! i)"
    and p: "put_stor src e w s i a = (True, t)"
  shows "\<exists>st. t = set_stor w st s \<and> player_ok e t
    \<and> (\<forall>k. holdings k t = holdings k s + (if nameid (src s ! i) = k then a else 0))"
proof -
  obtain st where "storage_additem e s (get_stor w s) (src s ! i) a = (0, st)" and t: "t = set_stor w st s"
    using p by (auto simp: put_stor_def split: prod.splits)
  then have "stor_added MAX_STORAGE (get_stor w s) (src s ! i) a st"
    using storage_additem_added [OF player_ok_get_stor [OF ok]] slot_ok_le [OF sl] a by simp
  then show ?thesis using stor_added_step [OF ok] t by blast
qed

lemma put_stor_refused: "put_stor src e w s i a = (False, t) \<Longrightarrow> t = s"
proof -
  have "set_stor w (get_stor w s) s = s" by (cases w) simp_all
  then show "put_stor src e w s i a = (False, t) \<Longrightarrow> t = s"
    by (auto simp: put_stor_def dest: storage_additem_refused split: prod.splits)
qed

lemma take_stor_removed:
  assumes ok: "player_ok e s" and i: "i < MAX_STORAGE" and nz: "nameid (st_items (get_stor w s) ! i) \<noteq> 0"
    and a: "0 < a" "a \<le> amount (st_items (get_stor w s) ! i)"
  shows "player_ok e (take_stor w s i a) \<and> (\<forall>k. holdings k (take_stor w s i a)
    = holdings k s - (if nameid (st_items (get_stor w s) ! i) = k then a else 0))"
proof -
  obtain f st where r: "storage_delitem (get_stor w s) i a = (f, st)" by fastforce
  note R = storage_delitem_removed [OF player_ok_get_stor [OF ok] i nz a r]
  have "storage_ok MAX_STORAGE st" using R by blast
  moreover have "held k (st_items st) = held k (st_items (get_stor w s))
    - (if nameid (st_items (get_stor w s) ! i) = k then a else 0)" for k
    using R by blast
  ultimately show ?thesis
    using player_ok_set_stor [OF ok] by (simp add: take_stor_def r holdings_set_stor)
qed

lemma set_stor_uid_frame:
  assumes ok: "player_ok e s" and i: "i < MAX_STORAGE"
  shows "player_ok e (set_stor_uid w s i u)" "holdings k (set_stor_uid w s i u) = holdings k s"
    "nameid (st_items (get_stor w (set_stor_uid w s i u)) ! i) = nameid (st_items (get_stor w s) ! i)"
    "amount (st_items (get_stor w (set_stor_uid w s i u)) ! i) = amount (st_items (get_stor w s) ! i)"
proof -
  note D = storage_okD [OF player_ok_get_stor [OF ok, of w]]
  let ?st = "(get_stor w s)\<lparr>st_items := (st_items (get_stor w s))
    [i := (st_items (get_stor w s) ! i)\<lparr>unique_id := u\<rparr>]\<rparr>"
  have eq: "set_stor_uid w s i u = set_stor w ?st s" by (simp add: set_stor_uid_def Let_def)
  have "slot_ok ((st_items (get_stor w s) ! i)\<lparr>unique_id := u\<rparr>)"
    using D(5) [OF i] by (simp add: slot_ok_def)
  then have "storage_ok MAX_STORAGE ?st"
    using D i by (simp add: storage_ok_def slots_ok_update taken_update)
  then show "player_ok e (set_stor_uid w s i u)" unfolding eq by (rule player_ok_set_stor [OF ok])
  show "holdings k (set_stor_uid w s i u) = holdings k s"
    "nameid (st_items (get_stor w (set_stor_uid w s i u)) ! i) = nameid (st_items (get_stor w s) ! i)"
    "amount (st_items (get_stor w (set_stor_uid w s i u)) ! i) = amount (st_items (get_stor w s) ! i)"
    unfolding eq using D(1) i by (simp_all add: holdings_set_stor held_update units_def)
qed

interpretation inv_to_stor: item_mover "player_ok e" holdings MAX_INVENTORY "\<lambda>s. (!) (inventory s)"
  "\<lambda>it. True" "put_stor inventory e w" "take_inventory e 0" for e w
proof (unfold_locales, goal_cases)
  case (1 s i a t)
  obtain st where "t = set_stor w st s" "player_ok e t"
      "\<forall>k. holdings k t = holdings k s + (if nameid (inventory s ! i) = k then a else 0)"
    using put_stor_accepted [OF 1(1) player_ok_slot(1) [OF 1(1,2)] 1(6,7)] by blast
  then show ?case by simp
next
  case (2 s i a t)
  have "t = s" by (rule put_stor_refused [OF 2(3)])
  with 2(1) show ?case by simp
next
  case (3 s i a)
  then show ?case using take_inventory_removed by simp
qed

interpretation cart_to_stor: item_mover "player_ok e" holdings MAX_CART "\<lambda>s. (!) (cart s)"
  "\<lambda>it. True" "put_stor cart e w" "pc_cart_delitem e" for e w
proof (unfold_locales, goal_cases)
  case (1 s i a t)
  obtain st where "t = set_stor w st s" "player_ok e t"
      "\<forall>k. holdings k t = holdings k s + (if nameid (cart s ! i) = k then a else 0)"
    using put_stor_accepted [OF 1(1) player_ok_slot(2) [OF 1(1,2)] 1(6,7)] by blast
  then show ?case by simp
next
  case (2 s i a t)
  have "t = s" by (rule put_stor_refused [OF 2(3)])
  with 2(1) show ?case by simp
next
  case (3 s i a)
  then show ?case by (rule cart_to_inv.take_removes)
qed

interpretation stor_to_inv: item_mover "player_ok e" holdings MAX_STORAGE
  "\<lambda>s. (!) (st_items (get_stor w s))" "live e" "get_stor_inv e w" "take_stor w" for e w
proof (unfold_locales, goal_cases)
  case (1 s i a t)
  let ?it = "st_items (get_stor w s) ! i"
  obtain t0 it where p: "pc_additem e s ?it a = (ADDITEM_SUCCESS, t0, it)"
    and t: "t = set_stor_uid w t0 i (unique_id it)"
    using 1(7) by (auto simp: get_stor_inv_def split: prod.splits)
  have ad: "added e s ?it a t0"
    using pc_additem_added(1) [OF _ _ _ p] 1 by (simp add: player_ok_def live_def)
  then have "get_stor w t0 = get_stor w s" by (intro get_stor_stores) (simp add: added_def)
  then show ?case
    using set_stor_uid_frame [OF added_player_ok [OF ad 1(1)] 1(2)] ad by (simp add: t added_def)
next
  case (2 s i a t)
  then obtain f t0 it where p: "pc_additem e s (st_items (get_stor w s) ! i) a = (f, t0, it)"
    and f: "f \<noteq> ADDITEM_SUCCESS" and t: "t = set_stor_uid w t0 i (unique_id it)"
    by (auto simp: get_stor_inv_def split: prod.splits)
  have h: "hooks_ok e" using 2(1) by (simp add: player_ok_def)
  note R = pc_additem_refused [OF h p f]
  have "player_ok e t0"
    using R(1,4,5) same_cart_ok [OF R(4)] stores_ok_cong [OF R(5)] 2(1) by (simp add: player_ok_def)
  then show ?case using set_stor_uid_frame [of e t0 i] R(2) 2(2) by (simp add: t)
next
  case (3 s i a)
  then show ?case by (rule take_stor_removed)
qed

interpretation stor_to_cart: item_mover "player_ok e" holdings MAX_STORAGE
  "\<lambda>s. (!) (st_items (get_stor w s))" "\<lambda>it. True" "get_stor_cart e w" "take_stor w" for e w
proof (unfold_locales, goal_cases)
  case (1 s i a t)
  let ?it = "st_items (get_stor w s) ! i"
  have p: "pc_cart_additem e s ?it a = (0, t)"
    using 1(7) by (auto simp: get_stor_cart_def split: prod.splits)
  have "a \<le> MAX_AMOUNT"
    using 1(6) slot_ok_le storage_okD(5) [OF player_ok_get_stor [OF 1(1)] 1(2)] order_trans by blast
  then have ca: "cart_added e s ?it a t"
    using pc_cart_additem_added(1) [OF _ _ p] 1(1) by (simp add: player_ok_def)
  then have "get_stor w t = get_stor w s"
    by (intro get_stor_stores) (simp add: cart_added_def same_inventory_def)
  then show ?case using cart_added_player_ok [OF ca 1(1)] ca by (simp add: cart_added_def)
next
  case (2 s i a t)
  then have "t = s" by (auto simp: get_stor_cart_def dest: pc_cart_additem_refused split: prod.splits)
  with 2 show ?case by simp
next
  case (3 s i a)
  then show ?case by (rule take_stor_removed)
qed

text \<open>The handlers are these movers behind the access checks.\<close>

lemma storage_storageadd_eq:
  "storage_storageadd e s w idx amt =
     (if storage_canAddItem (get_stor w s) idx (inventory s) amt MAX_INVENTORY = STORAGE_ADD_OK
      then if fst (put_stor inventory e w s (nat idx) amt)
           then take_inventory e 0 (snd (put_stor inventory e w s (nat idx) amt)) (nat idx) amt
           else snd (put_stor inventory e w s (nat idx) amt)
      else s)"
  by (auto simp: storage_storageadd_def storage_canAddItem_def put_stor_def take_inventory_def Let_def
      split: prod.splits)

lemma storage_storageaddfromcart_eq:
  "storage_storageaddfromcart e s w idx amt =
     (if storage_canAddItem (get_stor w s) idx (cart s) amt MAX_CART = STORAGE_ADD_OK
      then if fst (put_stor cart e w s (nat idx) amt)
           then pc_cart_delitem e (snd (put_stor cart e w s (nat idx) amt)) (nat idx) amt
           else snd (put_stor cart e w s (nat idx) amt)
      else s)"
  by (auto simp: storage_storageaddfromcart_def storage_canAddItem_def put_stor_def Let_def
      split: prod.splits)

lemma storage_storageget_eq:
  "storage_storageget e s w idx amt =
     (if storage_canGetItem (get_stor w s) idx amt = STORAGE_ADD_OK
      then if fst (get_stor_inv e w s (nat idx) amt)
           then take_stor w (snd (get_stor_inv e w s (nat idx) amt)) (nat idx) amt
           else snd (get_stor_inv e w s (nat idx) amt)
      else s)"
  by (auto simp: storage_storageget_def storage_canGetItem_def get_stor_inv_def take_stor_def Let_def
      split: prod.splits)

lemma storage_storagegettocart_eq:
  "storage_storagegettocart e s w idx amt =
     (if storage_canGetItem (get_stor w s) idx amt = STORAGE_ADD_OK
      then if fst (get_stor_cart e w s (nat idx) amt)
           then take_stor w (snd (get_stor_cart e w s (nat idx) amt)) (nat idx) amt
           else snd (get_stor_cart e w s (nat idx) amt)
      else s)"
  by (auto simp: storage_storagegettocart_def storage_canGetItem_def get_stor_cart_def take_stor_def Let_def
      split: prod.splits)

lemma canAddItem_OK:
  "storage_canAddItem st idx items amt n = STORAGE_ADD_OK \<Longrightarrow>
   0 \<le> idx \<and> nat idx < n \<and> nameid (items ! nat idx) \<noteq> 0 \<and> 0 < amt \<and> amt \<le> amount (items ! nat idx)"
  by (auto simp: storage_canAddItem_def split: if_splits)

lemma canGetItem_OK:
  "storage_canGetItem st idx amt = STORAGE_ADD_OK \<Longrightarrow>
   0 \<le> idx \<and> nat idx < MAX_STORAGE \<and> nameid (st_items st ! nat idx) \<noteq> 0 \<and> 0 < amt
   \<and> amt \<le> amount (st_items st ! nat idx)"
  by (auto simp: storage_canGetItem_def split: if_splits)

section \<open>Sorting keeps the items\<close>

lemma held_mset: "mset xs = mset ys \<Longrightarrow> held k xs = held k ys"
  unfolding held_def by (metis mset_map sum_mset_sum_list)

lemma taken_mset: "mset xs = mset ys \<Longrightarrow> taken xs = taken ys"
  unfolding taken_def by (metis mset_map sum_mset_sum_list)

lemma storage_sortitem_mset:
  assumes "hooks_ok e"
  shows "mset (storage_sortitem e xs n) = mset xs"
proof -
  have "mset (qsort e storage_comp_item (take n xs) @ drop n xs) = mset (take n xs @ drop n xs)"
    using assms by (simp add: hooks_ok_def qsort_hook_ok_def del: append_take_drop_id)
  then show ?thesis by (simp add: storage_sortitem_def)
qed

lemma storage_ok_sort:
  assumes "hooks_ok e" "storage_ok n st"
  shows "storage_ok n (st\<lparr>st_items := storage_sortitem e (st_items st) m\<rparr>)"
proof -
  note m = storage_sortitem_mset [OF assms(1), of "st_items st" m]
  have "length (storage_sortitem e (st_items st) m) = length (st_items st)"
    "set (storage_sortitem e (st_items st) m) = set (st_items st)"
    using mset_eq_length [OF m] mset_eq_setD [OF m] by simp_all
  then show ?thesis using assms(2) taken_mset [OF m] by (simp add: storage_ok_def slots_ok_def)
qed

section \<open>What the storage handlers guarantee\<close>

datatype stor_request =
  Stor_From_Inventory int int | Stor_To_Inventory int int | Stor_From_Cart int int | Stor_To_Cart int int

fun stor_handle :: "env \<Rightarrow> sd \<Rightarrow> stor_ref \<Rightarrow> stor_request \<Rightarrow> sd" where
  "stor_handle e s w (Stor_From_Inventory i a) = storage_storageadd e s w i a"
| "stor_handle e s w (Stor_To_Inventory i a) = storage_storageget e s w i a"
| "stor_handle e s w (Stor_From_Cart i a) = storage_storageaddfromcart e s w i a"
| "stor_handle e s w (Stor_To_Cart i a) = storage_storagegettocart e s w i a"

fun stor_clear :: "env \<Rightarrow> sd \<Rightarrow> stor_ref \<Rightarrow> stor_request \<Rightarrow> bool" where
  "stor_clear e s w (Stor_To_Inventory i a) = live e (st_items (get_stor w s) ! nat i)"
| "stor_clear e s w _ = True"

text \<open>
  C3. Every transfer between a personal storage (account or premium) and the
  inventory or the cart, with any index and amount, accepted or refused, keeps
  the player well formed and neither creates nor loses a unit of any item; only
  a withdrawal of an expired rental item to the inventory is left out.
\<close>

theorem stor_handle_conserves:
  assumes "player_ok e s" "stor_clear e s w r"
  shows "player_ok e (stor_handle e s w r) \<and> (\<forall>k. holdings k (stor_handle e s w r) = holdings k s)"
proof (cases r)
  case (Stor_From_Inventory i a)
  then show ?thesis
    using assms(1) inv_to_stor.transfer_conserves [of e s "nat i" a]
      canAddItem_OK [of "get_stor w s" i "inventory s" a MAX_INVENTORY]
    by (simp add: storage_storageadd_eq)
next
  case (Stor_To_Inventory i a)
  then show ?thesis
    using assms stor_to_inv.transfer_conserves [of e s "nat i" w a] canGetItem_OK [of "get_stor w s" i a]
    by (simp add: storage_storageget_eq)
next
  case (Stor_From_Cart i a)
  then show ?thesis
    using assms(1) cart_to_stor.transfer_conserves [of e s "nat i" a]
      canAddItem_OK [of "get_stor w s" i "cart s" a MAX_CART]
    by (simp add: storage_storageaddfromcart_eq)
next
  case (Stor_To_Cart i a)
  then show ?thesis
    using assms(1) stor_to_cart.transfer_conserves [of e s "nat i" w a] canGetItem_OK [of "get_stor w s" i a]
    by (simp add: storage_storagegettocart_eq)
qed

theorem stor_handle_conserves_witness:
  "player_ok sample_env (stor_handle sample_env (sample_player 1 0) Main_Storage (Stor_To_Inventory 0 3))"
proof -
  have "live sample_env (st_items (storage (sample_player 1 0)) ! 0)"
    by (simp add: sample_player_def sample_storage_def slots_with_facts MAX_STORAGE_def live_def)
  then show ?thesis
    using stor_handle_conserves [of sample_env "sample_player 1 0" Main_Storage "Stor_To_Inventory 0 3"] by simp
qed

text \<open>
  Opening the account storage: on success the storage is sorted in place
  (the same items as a multiset, so the same units of everything), the player
  stays well formed, and the storage counts as open.
\<close>

theorem storage_storageopen_keeps:
  assumes "player_ok e s" "storage_storageopen e s = (r, t)"
  shows "player_ok e t \<and> mset (st_items (storage t)) = mset (st_items (storage s))
    \<and> premiumStorage t = premiumStorage s \<and> inventory t = inventory s \<and> cart t = cart s
    \<and> (r = 0 \<longrightarrow> storage_flag s = 0 \<and> storage_flag t = 1)"
proof -
  have h: "hooks_ok e" and st: "storage_ok MAX_STORAGE (storage s)"
    using assms(1) by (simp_all add: player_ok_def stores_ok_def stores_def)
  note S = storage_ok_sort [OF h st, of "st_max_amount (storage s)"]
  have f: "player_ok e (s\<lparr>storage_flag := 1\<rparr>)"
    using assms(1) by (simp add: player_ok_def inv_ok_def cart_ok_def)
  then have so: "player_ok e (s\<lparr>storage_flag := 1, storage := (storage s)\<lparr>st_items :=
      storage_sortitem e (st_items (storage s)) (st_max_amount (storage s))\<rparr>\<rparr>)"
    using player_ok_set_stor [OF f S, of Main_Storage] by simp
  show ?thesis
    using assms f so storage_sortitem_mset [OF h]
    by (auto simp: storage_storageopen_def Let_def split: if_splits)
qed

theorem storage_storageopen_keeps_witness:
  "storage_flag (snd (storage_storageopen sample_env (sample_player 1 0))) = 1
   \<and> player_ok sample_env (snd (storage_storageopen sample_env (sample_player 1 0)))"
proof -
  obtain r t where o: "storage_storageopen sample_env (sample_player 1 0) = (r, t)" by fastforce
  have "r = 0"
    using o by (simp add: storage_storageopen_def sample_env_def sample_player_def sample_conf_def
        pc_can_give_items_def Let_def)
  then show ?thesis using storage_storageopen_keeps [OF sample_player_ok o] by (simp add: o)
qed

end
