(* ===== verification/Guild_Storage.thy ===== *)
theory Guild_Storage
  imports Storage
begin

text \<open>
  The guild storage of map/storage.cpp with the lookups of map/guild.cpp that
  guard it. The loaded storages are a map from guild ids (\<open>guild_storage_db\<close>);
  a player's handler works on its own guild's entry. \<open>sd->guild\<close> is the
  argument \<open>g\<close>, None for the null pointer. Requests to the char server
  (\<open>intif_*\<close>, \<open>chrif_save\<close>) change no state here.
\<close>

section \<open>Guilds\<close>

record guild_member =
  gm_account_id :: int
  gm_char_id :: int
  gm_position :: int

record guild =
  g_id :: int
  g_member :: "guild_member list"
  g_position_mode :: "nat list"
  g_skill_lv :: "nat list"
  g_exp_mode :: "int list"

definition GD_SKILLBASE :: int where "GD_SKILLBASE = 10000"
definition MAX_GUILDSKILL :: int where "MAX_GUILDSKILL = 17"
definition GD_GUILD_STORAGE :: int where "GD_GUILD_STORAGE = 10016"

definition guild_skill_get_index :: "int \<Rightarrow> int" where
  "guild_skill_get_index sid =
     (if \<not> (sid \<ge> GD_SKILLBASE \<and> sid < GD_SKILLBASE + MAX_GUILDSKILL) then -1
      else if sid - GD_SKILLBASE \<ge> MAX_GUILDSKILL then -1
      else sid - GD_SKILLBASE)"

definition guild_checkskill :: "guild \<Rightarrow> int \<Rightarrow> nat" where
  "guild_checkskill g sid =
     (let i = guild_skill_get_index sid in if i < 0 then 0 else g_skill_lv g ! nat i)"

text \<open>The member list holds the \<open>max_member\<close> slots that the code scans.\<close>

definition guild_getindex :: "guild option \<Rightarrow> int \<Rightarrow> int \<Rightarrow> int" where
  "guild_getindex g aid cid =
     (case g of None \<Rightarrow> -1
      | Some g \<Rightarrow>
          let i = arr_find (\<lambda>m. gm_account_id m = aid \<and> gm_char_id m = cid) (g_member g)
          in if i < length (g_member g) then int i else -1)"

definition guild_getposition :: "guild option \<Rightarrow> sd \<Rightarrow> int" where
  "guild_getposition g s =
     (case g of None \<Rightarrow> -1
      | Some g \<Rightarrow>
          let i = arr_find (\<lambda>m. gm_account_id m = account_id s \<and> gm_char_id m = char_id s) (g_member g)
          in if i < length (g_member g) then gm_position (g_member g ! i) else -1)"

section \<open>Opening\<close>

type_synonym guild_storages = "int \<Rightarrow> s_storage option"

datatype gstorage_flag =
  GSTORAGE_OPEN | GSTORAGE_STORAGE_ALREADY_OPEN | GSTORAGE_ALREADY_OPEN | GSTORAGE_NO_GUILD
| GSTORAGE_NO_STORAGE | GSTORAGE_NO_PERMISSION

text \<open>GUILD\_PERM\_STORAGE is 0x100, bit 8 of a position's mode.\<close>

definition may_open_gstorage :: "guild option \<Rightarrow> sd \<Rightarrow> bool" where
  "may_open_gstorage g s =
     (let pos = guild_getposition g s
      in 0 \<le> pos \<and> (case g of None \<Rightarrow> False | Some g \<Rightarrow> bit (g_position_mode g ! nat pos) 8))"

text \<open>
  A storage that is missing or has the wrong size is requested from the char
  server, and the handler reports GSTORAGE\_OPEN without opening anything. The
  code reads the skills of \<open>sd->guild\<close> without a null test; a player with
  \<open>guild_id > 0\<close> and no guild loaded has skill 0 here.
\<close>

definition storage_guild_storageopen ::
    "env \<Rightarrow> guild option \<Rightarrow> sd \<Rightarrow> guild_storages \<Rightarrow> gstorage_flag \<times> sd \<times> guild_storages" where
  "storage_guild_storageopen e g s gs =
     (let lv = (case g of None \<Rightarrow> 0 | Some g \<Rightarrow> guild_checkskill g GD_GUILD_STORAGE)
      in if guild_id s \<le> 0 then (GSTORAGE_NO_GUILD, s, gs)
      else if mapflags e (map_m s) MF_NOGUILDSTORAGE then (GSTORAGE_NO_PERMISSION, s, gs)
      else if lv = 0 then (GSTORAGE_NO_STORAGE, s, gs)
      else if storage_flag s = 2 then (GSTORAGE_ALREADY_OPEN, s, gs)
      else if storage_flag s \<noteq> 0 then (GSTORAGE_STORAGE_ALREADY_OPEN, s, gs)
      else if \<not> may_open_gstorage g s then (GSTORAGE_NO_PERMISSION, s, gs)
      else if \<not> pc_can_give_items s then (GSTORAGE_ALREADY_OPEN, s, gs)
      else case gs (guild_id s) of
             None \<Rightarrow> (GSTORAGE_OPEN, s, gs)
           | Some st \<Rightarrow>
               if st_max_amount st \<noteq> lv * 100 then (GSTORAGE_OPEN, s, gs)
               else if st_status st then (GSTORAGE_ALREADY_OPEN, s, gs)
               else if st_lock st then (GSTORAGE_ALREADY_OPEN, s, gs)
               else (GSTORAGE_OPEN, s\<lparr>storage_flag := 2\<rparr>,
                     gs(guild_id s \<mapsto> st\<lparr>st_status := True,
                       st_items := storage_sortitem e (st_items st) MAX_GUILD_STORAGE\<rparr>)))"

definition storage_guild_delete :: "int \<Rightarrow> guild_storages \<Rightarrow> guild_storages" where
  "storage_guild_delete gid gs = gs(gid := None)"

text \<open>
  \<open>guild2storage\<close> makes a fresh, zeroed entry for an existing guild
  (\<open>exists\<close> says whether \<open>guild_search\<close> finds it).
\<close>

definition guild2storage :: "bool \<Rightarrow> int \<Rightarrow> guild_storages \<Rightarrow> s_storage option \<times> guild_storages" where
  "guild2storage exists gid gs =
     (if \<not> exists then (None, gs)
      else case gs gid of
             Some st \<Rightarrow> (Some st, gs)
           | None \<Rightarrow>
               let st = (empty_storage 0)\<lparr>st_owner := gid, st_get := False, st_put := False,
                          st_items := replicate MAX_GUILD_STORAGE empty_item\<rparr>
               in (Some st, gs(gid \<mapsto> st)))"

section \<open>Adding and removing\<close>

text \<open>
  The slot part of \<open>storage_guild_additem\<close>. Unlike the personal storage it
  does not look at the counter before it searches a free slot.
\<close>

definition guild_place :: "s_storage \<Rightarrow> item \<Rightarrow> item_data \<Rightarrow> int \<Rightarrow> bool \<times> s_storage" where
  "guild_place st it d amt =
     (let n = st_max_amount st;
          i = (if itemdb_isstackable2 d
               then arr_find (\<lambda>x. compare_item x it) (take n (st_items st)) else n)
      in if i < n then
           let cur = st_items st ! i
           in if amt > MAX_AMOUNT - amount cur \<or> (stack_guildstorage d \<and> amt > stack_amount d - amount cur)
              then (False, st)
              else (True, st\<lparr>st_items := (st_items st)[i := cur\<lparr>amount := amount cur + amt\<rparr>],
                             st_dirty := True\<rparr>)
         else
           let i = arr_find (\<lambda>x. nameid x = 0) (take n (st_items st))
           in if i \<ge> n then (False, st)
              else (True, st\<lparr>st_items := (st_items st)[i := it\<lparr>amount := s16 amt\<rparr>],
                             st_amount := st_amount st + 1, st_dirty := True\<rparr>))"

text \<open>A reserved item that the settings keep out is answered with 1, that is, true.\<close>

definition storage_guild_additem :: "env \<Rightarrow> sd \<Rightarrow> s_storage \<Rightarrow> item \<Rightarrow> int \<Rightarrow> bool \<times> s_storage" where
  "storage_guild_additem e s st it amt =
     (if nameid it = 0 \<or> amt \<le> 0 then (False, st)
      else
        let d = search e (nameid it)
        in if stack_guildstorage d \<and> amt > stack_amount d then (False, st)
        else if \<not> itemdb_isrestricted (db e) it (pc_get_group_level s) 0 itemdb_canguildstore_sub
             \<or> expire_time it \<noteq> 0 then (False, st)
        else if (bound it = BOUND_ACCOUNT \<or> bound it > BOUND_GUILD) \<and> \<not> pc_can_give_bounded_items s
             then (False, st)
        else if stuff_blocked (bconf e) it (stuff_enable_guild_storage (bconf e)) then (True, st)
        else guild_place st it d amt)"

text \<open>
  \<open>storage_guild_additem2\<close> is the server-side variant (returned auction and
  break items). It trims the amount to what fits the stack it found.
\<close>

definition storage_guild_additem2 :: "env \<Rightarrow> s_storage \<Rightarrow> item \<Rightarrow> int \<Rightarrow> bool \<times> s_storage" where
  "storage_guild_additem2 e st it amt =
     (if nameid it = 0 \<or> amt \<le> 0 then (False, st)
      else case db e (nameid it) of
        None \<Rightarrow> (False, st)
      | Some d \<Rightarrow>
          if expire_time it \<noteq> 0 then (False, st)
          else if stuff_blocked (bconf e) it (stuff_enable_guild_storage (bconf e)) then (False, st)
          else
            let n = st_max_amount st;
                i = (if itemdb_isstackable2 d
                     then arr_find (\<lambda>x. compare_item x it) (take n (st_items st)) else n)
            in if i < n then
                 let cur = st_items st ! i;
                     amt = min amt ((if stack_guildstorage d then stack_amount d else MAX_AMOUNT) - amount cur)
                 in (True, st\<lparr>st_items := (st_items st)[i := cur\<lparr>amount := s16 (amount cur + amt)\<rparr>],
                              st_dirty := True\<rparr>)
               else
                 let i = arr_find (\<lambda>x. nameid x = 0) (take n (st_items st))
                 in if i \<ge> n then (False, st)
                    else (True, st\<lparr>st_items := (st_items st)[i := it\<lparr>amount := s16 amt\<rparr>],
                                   st_amount := st_amount st + 1, st_dirty := True\<rparr>))"

definition storage_guild_delitem :: "s_storage \<Rightarrow> nat \<Rightarrow> int \<Rightarrow> bool \<times> s_storage" where
  "storage_guild_delitem st i amt =
     (if nameid (st_items st ! i) = 0 \<or> amount (st_items st ! i) < amt then (False, st)
      else
        let it = (st_items st ! i)\<lparr>amount := amount (st_items st ! i) - amt\<rparr>;
            st = st\<lparr>st_items := (st_items st)[i := it]\<rparr>;
            st = (if amount it = 0
                  then st\<lparr>st_items := (st_items st)[i := empty_item], st_amount := st_amount st - 1\<rparr>
                  else st)
        in (True, st\<lparr>st_dirty := True\<rparr>))"

section \<open>Saving and closing\<close>

definition CSAVE_QUIT :: nat where "CSAVE_QUIT = 1"

definition storage_guild_storagesave :: "int \<Rightarrow> nat \<Rightarrow> guild_storages \<Rightarrow> bool \<times> guild_storages" where
  "storage_guild_storagesave gid fl gs =
     (case gs gid of
        None \<Rightarrow> (False, gs)
      | Some st \<Rightarrow> (True, if bit fl 0 then gs(gid \<mapsto> st\<lparr>st_status := False\<rparr>) else gs))"

definition storage_guild_storagesaved :: "int \<Rightarrow> guild_storages \<Rightarrow> guild_storages" where
  "storage_guild_storagesaved gid gs =
     (case gs gid of
        None \<Rightarrow> gs
      | Some st \<Rightarrow> if st_dirty st \<and> \<not> st_status st then gs(gid \<mapsto> st\<lparr>st_dirty := False\<rparr>) else gs)"

text \<open>With or without CHARSAVE\_STORAGE the save itself leaves the status alone here.\<close>

definition storage_guild_storageclose :: "sd \<Rightarrow> guild_storages \<Rightarrow> sd \<times> guild_storages" where
  "storage_guild_storageclose s gs =
     (case gs (guild_id s) of
        None \<Rightarrow> (s, gs)
      | Some st \<Rightarrow>
          (s\<lparr>storage_flag := 0\<rparr>,
           if st_status st then gs(guild_id s \<mapsto> st\<lparr>st_status := False\<rparr>) else gs))"

definition storage_guild_storage_quit :: "sd \<Rightarrow> guild_storages \<Rightarrow> sd \<times> guild_storages" where
  "storage_guild_storage_quit s gs =
     (case gs (guild_id s) of
        None \<Rightarrow> (s, gs)
      | Some st \<Rightarrow> (s\<lparr>storage_flag := 0\<rparr>, gs(guild_id s \<mapsto> st\<lparr>st_status := False\<rparr>)))"

section \<open>The transfer handlers\<close>

definition storage_guild_storageadd ::
    "env \<Rightarrow> sd \<Rightarrow> guild_storages \<Rightarrow> int \<Rightarrow> int \<Rightarrow> sd \<times> guild_storages" where
  "storage_guild_storageadd e s gs idx amt =
     (case gs (guild_id s) of
        None \<Rightarrow> (s, gs)
      | Some st \<Rightarrow>
          if \<not> st_status st \<or> st_amount st > int (st_max_amount st) then (s, gs)
          else if idx < 0 \<or> idx \<ge> int MAX_INVENTORY then (s, gs)
          else if nameid (inventory s ! nat idx) = 0 then (s, gs)
          else if amt < 1 \<or> amt > amount (inventory s ! nat idx) then (s, gs)
          else if st_lock st then storage_guild_storageclose s gs
          else case storage_guild_additem e s st (inventory s ! nat idx) amt of
                 (f, st) \<Rightarrow> (if f then snd (pc_delitem e s idx amt 0) else s, gs(guild_id s \<mapsto> st)))"

definition storage_guild_storageget ::
    "env \<Rightarrow> sd \<Rightarrow> guild_storages \<Rightarrow> int \<Rightarrow> int \<Rightarrow> sd \<times> guild_storages" where
  "storage_guild_storageget e s gs idx amt =
     (case gs (guild_id s) of
        None \<Rightarrow> (s, gs)
      | Some st \<Rightarrow>
          if \<not> st_status st then (s, gs)
          else if idx < 0 \<or> idx \<ge> int (st_max_amount st) then (s, gs)
          else if nameid (st_items st ! nat idx) = 0 then (s, gs)
          else if amt < 1 \<or> amt > amount (st_items st ! nat idx) then (s, gs)
          else if st_lock st then storage_guild_storageclose s gs
          else case pc_additem e s (st_items st ! nat idx) amt of
                 (f, t, it) \<Rightarrow>
                   let st = st\<lparr>st_items := (st_items st)[nat idx := (st_items st ! nat idx)
                                              \<lparr>unique_id := unique_id it\<rparr>]\<rparr>
                   in (t, gs(guild_id s \<mapsto>
                         (if f = ADDITEM_SUCCESS then snd (storage_guild_delitem st (nat idx) amt) else st))))"

definition storage_guild_storageaddfromcart ::
    "env \<Rightarrow> sd \<Rightarrow> guild_storages \<Rightarrow> int \<Rightarrow> int \<Rightarrow> sd \<times> guild_storages" where
  "storage_guild_storageaddfromcart e s gs idx amt =
     (case gs (guild_id s) of
        None \<Rightarrow> (s, gs)
      | Some st \<Rightarrow>
          if \<not> st_status st \<or> st_amount st > int (st_max_amount st) then (s, gs)
          else if idx < 0 \<or> idx \<ge> int MAX_CART then (s, gs)
          else if nameid (cart s ! nat idx) = 0 then (s, gs)
          else if amt < 1 \<or> amt > amount (cart s ! nat idx) then (s, gs)
          else case storage_guild_additem e s st (cart s ! nat idx) amt of
                 (f, st) \<Rightarrow> (if f then pc_cart_delitem e s (nat idx) amt else s, gs(guild_id s \<mapsto> st)))"

definition storage_guild_storagegettocart ::
    "env \<Rightarrow> sd \<Rightarrow> guild_storages \<Rightarrow> int \<Rightarrow> int \<Rightarrow> sd \<times> guild_storages" where
  "storage_guild_storagegettocart e s gs idx amt =
     (case gs (guild_id s) of
        None \<Rightarrow> (s, gs)
      | Some st \<Rightarrow>
          if \<not> st_status st then (s, gs)
          else if idx < 0 \<or> idx \<ge> int (st_max_amount st) then (s, gs)
          else if nameid (st_items st ! nat idx) = 0 then (s, gs)
          else if amt < 1 \<or> amt > amount (st_items st ! nat idx) then (s, gs)
          else case pc_cart_additem e s (st_items st ! nat idx) amt of
                 (f, t) \<Rightarrow> (t, if f = 0
                                then gs(guild_id s \<mapsto> snd (storage_guild_delitem st (nat idx) amt))
                                else gs))"


section \<open>Contracts\<close>

lemma guild_place_added:
  assumes ok: "storage_ok n st" and nz: "nameid it \<noteq> 0" and a: "0 < amt" "amt \<le> MAX_AMOUNT"
    and p: "guild_place st it d amt = (True, t)"
  shows "stor_added n st it amt t"
proof -
  note D = storage_okD [OF ok]
  let ?m = "st_max_amount st"
  have s16: "s16 amt = amt" using a by (simp add: MAX_AMOUNT_def)
  define i where "i = (if itemdb_isstackable2 d
      then arr_find (\<lambda>x. compare_item x it) (take ?m (st_items st)) else ?m)"
  show ?thesis
  proof (cases "i < ?m")
    case True
    then have "i = arr_find (\<lambda>x. compare_item x it) (take ?m (st_items st))"
      by (auto simp: i_def split: if_splits)
    then have "compare_item (st_items st ! i) it"
      using arr_find_take [of "\<lambda>x. compare_item x it" ?m] True D(1,3) by simp
    then have "nameid (st_items st ! i) = nameid it" by (simp add: compare_item_def)
    then show ?thesis
      using p True stack_slot_added [OF ok, of i it amt] D(3) nz a
      by (auto simp: guild_place_def i_def [symmetric] Let_def split: if_splits)
  next
    case False
    let ?j = "arr_find (\<lambda>x. nameid x = 0) (take ?m (st_items st))"
    have j: "?j < ?m" and t: "t = st\<lparr>st_items := (st_items st)[?j := it\<lparr>amount := amt\<rparr>],
                          st_amount := st_amount st + 1, st_dirty := True\<rparr>"
      using p False by (auto simp: guild_place_def i_def [symmetric] s16 Let_def split: if_splits)
    from j D(1,3) have "nameid (st_items st ! ?j) = 0"
      using arr_find_take [of "\<lambda>x. nameid x = 0" ?m "st_items st"] by simp
    then show ?thesis
      unfolding t using new_slot_added [OF ok _ _ nz a] j D(3) by simp
  qed
qed

text \<open>An item that the settings let in; only for such items is a true answer a deposit.\<close>

definition gstorable :: "env \<Rightarrow> item \<Rightarrow> bool" where
  "gstorable e it \<longleftrightarrow> \<not> stuff_blocked (bconf e) it (stuff_enable_guild_storage (bconf e))"

lemma storage_guild_additem_added:
  assumes "storage_ok n st" "gstorable e it" "amt \<le> MAX_AMOUNT"
    "storage_guild_additem e s st it amt = (True, t)"
  shows "stor_added n st it amt t"
proof -
  have "nameid it \<noteq> 0" "0 < amt" "guild_place st it (search e (nameid it)) amt = (True, t)"
    using assms(2,4) by (auto simp: storage_guild_additem_def gstorable_def Let_def split: if_splits)
  then show ?thesis using guild_place_added assms(1,3) by blast
qed

lemma storage_guild_additem_refused: "storage_guild_additem e s st it amt = (False, t) \<Longrightarrow> t = st"
  by (auto simp: storage_guild_additem_def guild_place_def Let_def split: if_splits)

lemma storage_guild_delitem_eq:
  "storage_guild_delitem st i amt = (fst (storage_delitem st i amt) = 0, snd (storage_delitem st i amt))"
  by (simp add: storage_guild_delitem_def storage_delitem_def Let_def)

section \<open>The guild storage transfers as movers\<close>

type_synonym gst = "sd \<times> s_storage"

definition gst_ok :: "env \<Rightarrow> gst \<Rightarrow> bool" where
  "gst_ok e p \<longleftrightarrow> player_ok e (fst p) \<and> storage_ok MAX_GUILD_STORAGE (snd p)"

definition gst_total :: "nat \<Rightarrow> gst \<Rightarrow> int" where
  "gst_total k p = holdings k (fst p) + held k (st_items (snd p))"

definition put_gstor :: "(sd \<Rightarrow> item list) \<Rightarrow> env \<Rightarrow> gst \<Rightarrow> nat \<Rightarrow> int \<Rightarrow> bool \<times> gst" where
  "put_gstor src e p i a = (case storage_guild_additem e (fst p) (snd p) (src (fst p) ! i) a of
     (f, st) \<Rightarrow> (f, (fst p, st)))"

definition on_player :: "(sd \<Rightarrow> nat \<Rightarrow> int \<Rightarrow> sd) \<Rightarrow> gst \<Rightarrow> nat \<Rightarrow> int \<Rightarrow> gst" where
  "on_player f p i a = (f (fst p) i a, snd p)"

definition get_gstor_inv :: "env \<Rightarrow> gst \<Rightarrow> nat \<Rightarrow> int \<Rightarrow> bool \<times> gst" where
  "get_gstor_inv e p i a = (case pc_additem e (fst p) (st_items (snd p) ! i) a of
     (f, t, it) \<Rightarrow> (f = ADDITEM_SUCCESS, t, (snd p)\<lparr>st_items := (st_items (snd p))
        [i := (st_items (snd p) ! i)\<lparr>unique_id := unique_id it\<rparr>]\<rparr>))"

definition get_gstor_cart :: "env \<Rightarrow> gst \<Rightarrow> nat \<Rightarrow> int \<Rightarrow> bool \<times> gst" where
  "get_gstor_cart e p i a = (case pc_cart_additem e (fst p) (st_items (snd p) ! i) a of
     (f, t) \<Rightarrow> (f = 0, (t, snd p)))"

definition take_gstor :: "gst \<Rightarrow> nat \<Rightarrow> int \<Rightarrow> gst" where
  "take_gstor p i a = (fst p, snd (storage_guild_delitem (snd p) i a))"

lemma put_gstor_accepted:
  assumes ok: "gst_ok e p" and sl: "slot_ok (src (fst p) ! i)" and lv: "gstorable e (src (fst p) ! i)"
    and a: "a \<le> amount (src (fst p) ! i)" and r: "put_gstor src e p i a = (True, t)"
  shows "gst_ok e t \<and> fst t = fst p
    \<and> (\<forall>k. gst_total k t = gst_total k p + (if nameid (src (fst p) ! i) = k then a else 0))"
proof -
  obtain st where "storage_guild_additem e (fst p) (snd p) (src (fst p) ! i) a = (True, st)"
    and t: "t = (fst p, st)"
    using r by (auto simp: put_gstor_def split: prod.splits)
  moreover have "storage_ok MAX_GUILD_STORAGE (snd p)" using ok by (simp add: gst_ok_def)
  moreover have "a \<le> MAX_AMOUNT" using a slot_ok_le [OF sl] by simp
  ultimately have "stor_added MAX_GUILD_STORAGE (snd p) (src (fst p) ! i) a st"
    using storage_guild_additem_added lv by blast
  then show ?thesis using ok by (simp add: t gst_ok_def gst_total_def stor_added_def)
qed

lemma put_gstor_reserved: "\<not> gstorable e (src (fst p) ! i) \<Longrightarrow> snd (put_gstor src e p i a) = p"
  by (simp add: put_gstor_def storage_guild_additem_def gstorable_def Let_def)

lemma put_gstor_refused: "put_gstor src e p i a = (False, t) \<Longrightarrow> t = p"
  by (auto simp: put_gstor_def dest: storage_guild_additem_refused split: prod.splits)

lemma take_gstor_removed:
  assumes ok: "gst_ok e p" and i: "i < MAX_GUILD_STORAGE" and nz: "nameid (st_items (snd p) ! i) \<noteq> 0"
    and a: "0 < a" "a \<le> amount (st_items (snd p) ! i)"
  shows "gst_ok e (take_gstor p i a) \<and> (\<forall>k. gst_total k (take_gstor p i a)
    = gst_total k p - (if nameid (st_items (snd p) ! i) = k then a else 0))"
proof -
  obtain f st where r: "storage_delitem (snd p) i a = (f, st)" by fastforce
  have sok: "storage_ok MAX_GUILD_STORAGE (snd p)" using ok by (simp add: gst_ok_def)
  note R = storage_delitem_removed [OF sok i nz a r]
  have "storage_ok MAX_GUILD_STORAGE st" using R by blast
  moreover have "held k (st_items st) = held k (st_items (snd p))
    - (if nameid (st_items (snd p) ! i) = k then a else 0)" for k
    using R by blast
  ultimately show ?thesis
    using ok by (simp add: take_gstor_def storage_guild_delitem_eq r gst_ok_def gst_total_def)
qed

lemma gstor_uid_frame:
  assumes ok: "storage_ok n st" and i: "i < n"
  shows "storage_ok n (st\<lparr>st_items := (st_items st)[i := (st_items st ! i)\<lparr>unique_id := u\<rparr>]\<rparr>)"
    "held k ((st_items st)[i := (st_items st ! i)\<lparr>unique_id := u\<rparr>]) = held k (st_items st)"
proof -
  note D = storage_okD [OF ok]
  have "slot_ok ((st_items st ! i)\<lparr>unique_id := u\<rparr>)" using D(5) [OF i] by (simp add: slot_ok_def)
  then show "storage_ok n (st\<lparr>st_items := (st_items st)[i := (st_items st ! i)\<lparr>unique_id := u\<rparr>]\<rparr>)"
    using D i by (simp add: storage_ok_def slots_ok_update taken_update)
  show "held k ((st_items st)[i := (st_items st ! i)\<lparr>unique_id := u\<rparr>]) = held k (st_items st)"
    using D(1) i by (simp add: held_update units_def)
qed

interpretation inv_to_gstor: item_mover "gst_ok e" gst_total MAX_INVENTORY "\<lambda>p. (!) (inventory (fst p))"
  "gstorable e" "put_gstor inventory e" "on_player (take_inventory e 0)" for e
proof (unfold_locales, goal_cases)
  case (1 p i a t)
  have "slot_ok (inventory (fst p) ! i)" using 1(1,2) player_ok_slot(1) [of e "fst p" i] by (simp add: gst_ok_def)
  note A = put_gstor_accepted [OF 1(1) this 1(4,6,7)]
  then have f: "fst t = fst p" by blast
  show ?case unfolding f using A by blast
next
  case (2 p i a t)
  have "t = p" by (rule put_gstor_refused [OF 2(3)])
  with 2(1) show ?case by simp
next
  case (3 p i a)
  then show ?case
    using inv_to_cart.take_removes [of e "fst p" i a]
    by (simp add: on_player_def gst_ok_def gst_total_def)
qed

interpretation cart_to_gstor: item_mover "gst_ok e" gst_total MAX_CART "\<lambda>p. (!) (cart (fst p))"
  "gstorable e" "put_gstor cart e" "on_player (pc_cart_delitem e)" for e
proof (unfold_locales, goal_cases)
  case (1 p i a t)
  have "slot_ok (cart (fst p) ! i)" using 1(1,2) player_ok_slot(2) [of e "fst p" i] by (simp add: gst_ok_def)
  note A = put_gstor_accepted [OF 1(1) this 1(4,6,7)]
  then have f: "fst t = fst p" by blast
  show ?case unfolding f using A by blast
next
  case (2 p i a t)
  have "t = p" by (rule put_gstor_refused [OF 2(3)])
  with 2(1) show ?case by simp
next
  case (3 p i a)
  then show ?case
    using cart_to_inv.take_removes [of e "fst p" i a]
    by (simp add: on_player_def gst_ok_def gst_total_def)
qed

interpretation gstor_to_inv: item_mover "gst_ok e" gst_total MAX_GUILD_STORAGE
  "\<lambda>p. (!) (st_items (snd p))" "live e" "get_gstor_inv e" take_gstor for e
proof (unfold_locales, goal_cases)
  case (1 p i a t)
  let ?it = "st_items (snd p) ! i"
  obtain t0 it where r: "pc_additem e (fst p) ?it a = (ADDITEM_SUCCESS, t0, it)"
    and t: "t = (t0, (snd p)\<lparr>st_items := (st_items (snd p))[i := ?it\<lparr>unique_id := unique_id it\<rparr>]\<rparr>)"
    using 1(7) by (auto simp: get_gstor_inv_def split: prod.splits)
  have pok: "player_ok e (fst p)" and sok: "storage_ok MAX_GUILD_STORAGE (snd p)"
    using 1(1) by (simp_all add: gst_ok_def)
  have ad: "added e (fst p) ?it a t0"
    using pc_additem_added(1) [OF _ _ _ r] pok 1(4) by (simp add: player_ok_def live_def)
  show ?case
    using gstor_uid_frame [OF sok 1(2)] added_player_ok [OF ad pok] ad 1(2) storage_okD(1) [OF sok]
    by (simp add: t gst_ok_def gst_total_def added_def)
next
  case (2 p i a t)
  then obtain f t0 it where r: "pc_additem e (fst p) (st_items (snd p) ! i) a = (f, t0, it)"
    and f: "f \<noteq> ADDITEM_SUCCESS" and t: "t = (t0, (snd p)\<lparr>st_items := (st_items (snd p))
        [i := (st_items (snd p) ! i)\<lparr>unique_id := unique_id it\<rparr>]\<rparr>)"
    by (auto simp: get_gstor_inv_def split: prod.splits)
  have pok: "player_ok e (fst p)" and sok: "storage_ok MAX_GUILD_STORAGE (snd p)"
    using 2(1) by (simp_all add: gst_ok_def)
  then have h: "hooks_ok e" by (simp add: player_ok_def)
  note R = pc_additem_refused [OF h r f]
  have "player_ok e t0"
    using R(1,4,5) same_cart_ok [OF R(4)] stores_ok_cong [OF R(5)] pok by (simp add: player_ok_def)
  then show ?case
    using gstor_uid_frame [OF sok 2(2)] R(2) by (simp add: t gst_ok_def gst_total_def)
next
  case (3 p i a)
  then show ?case by (rule take_gstor_removed)
qed

interpretation gstor_to_cart: item_mover "gst_ok e" gst_total MAX_GUILD_STORAGE
  "\<lambda>p. (!) (st_items (snd p))" "\<lambda>it. True" "get_gstor_cart e" take_gstor for e
proof (unfold_locales, goal_cases)
  case (1 p i a t)
  let ?it = "st_items (snd p) ! i"
  obtain t0 where r: "pc_cart_additem e (fst p) ?it a = (0, t0)" and t: "t = (t0, snd p)"
    using 1(7) by (auto simp: get_gstor_cart_def split: prod.splits)
  have pok: "player_ok e (fst p)" and sok: "storage_ok MAX_GUILD_STORAGE (snd p)"
    using 1(1) by (simp_all add: gst_ok_def)
  have "a \<le> MAX_AMOUNT" using 1(6) slot_ok_le storage_okD(5) [OF sok 1(2)] order_trans by blast
  then have ca: "cart_added e (fst p) ?it a t0"
    using pc_cart_additem_added(1) [OF _ _ r] pok by (simp add: player_ok_def)
  then show ?case
    using cart_added_player_ok [OF ca pok] sok by (simp add: t gst_ok_def gst_total_def cart_added_def)
next
  case (2 p i a t)
  then have "t = p" by (auto simp: get_gstor_cart_def dest: pc_cart_additem_refused split: prod.splits)
  with 2 show ?case by simp
next
  case (3 p i a)
  then show ?case by (rule take_gstor_removed)
qed


text \<open>The handlers are these movers behind the guards of the code.\<close>

definition gst_moved :: "env \<Rightarrow> gst \<Rightarrow> gst \<Rightarrow> bool" where
  "gst_moved e p q \<longleftrightarrow> gst_ok e q \<and> (\<forall>k. gst_total k q = gst_total k p)"

lemma gst_moved_refl: "gst_ok e p \<Longrightarrow> gst_moved e p p"
  by (simp add: gst_moved_def)

lemma storage_guild_storageclose_moved:
  assumes "gst_ok e (s, st)" "gs (guild_id s) = Some st"
  shows "\<exists>st'. storage_guild_storageclose s gs = (s\<lparr>storage_flag := 0\<rparr>, gs(guild_id s \<mapsto> st'))
     \<and> gst_moved e (s, st) (s\<lparr>storage_flag := 0\<rparr>, st')"
proof -
  let ?st = "if st_status st then st\<lparr>st_status := False\<rparr> else st"
  have "gs(guild_id s \<mapsto> st) = gs" using assms(2) by (simp add: map_upd_triv)
  moreover have "player_ok e (s\<lparr>storage_flag := 0\<rparr>)" "holdings k (s\<lparr>storage_flag := 0\<rparr>) = holdings k s" for k
    using assms(1) by (simp_all add: gst_ok_def player_ok_def inv_ok_def cart_ok_def holdings_def)
  ultimately show ?thesis
    using assms
    by (intro exI [of _ ?st])
       (simp add: storage_guild_storageclose_def gst_moved_def gst_ok_def gst_total_def storage_ok_def)
qed

lemma storage_guild_storageadd_eq:
  assumes "gs (guild_id s) = Some st"
  shows "storage_guild_storageadd e s gs idx amt =
     (if st_status st \<and> st_amount st \<le> int (st_max_amount st) \<and> 0 \<le> idx \<and> nat idx < MAX_INVENTORY
         \<and> nameid (inventory s ! nat idx) \<noteq> 0 \<and> 0 < amt \<and> amt \<le> amount (inventory s ! nat idx)
      then if st_lock st then storage_guild_storageclose s gs
           else let p = put_gstor inventory e (s, st) (nat idx) amt;
                    q = (if fst p then on_player (take_inventory e 0) (snd p) (nat idx) amt else snd p)
                in (fst q, gs(guild_id s \<mapsto> snd q))
      else (s, gs))"
  using assms
  by (auto simp: storage_guild_storageadd_def put_gstor_def on_player_def take_inventory_def Let_def
      split: prod.splits)

lemma storage_guild_storageaddfromcart_eq:
  assumes "gs (guild_id s) = Some st"
  shows "storage_guild_storageaddfromcart e s gs idx amt =
     (if st_status st \<and> st_amount st \<le> int (st_max_amount st) \<and> 0 \<le> idx \<and> nat idx < MAX_CART
         \<and> nameid (cart s ! nat idx) \<noteq> 0 \<and> 0 < amt \<and> amt \<le> amount (cart s ! nat idx)
      then let p = put_gstor cart e (s, st) (nat idx) amt;
               q = (if fst p then on_player (pc_cart_delitem e) (snd p) (nat idx) amt else snd p)
           in (fst q, gs(guild_id s \<mapsto> snd q))
      else (s, gs))"
  using assms
  by (auto simp: storage_guild_storageaddfromcart_def put_gstor_def on_player_def Let_def
      split: prod.splits)

lemma storage_guild_storageget_eq:
  assumes "gs (guild_id s) = Some st"
  shows "storage_guild_storageget e s gs idx amt =
     (if st_status st \<and> 0 \<le> idx \<and> nat idx < st_max_amount st
         \<and> nameid (st_items st ! nat idx) \<noteq> 0 \<and> 0 < amt \<and> amt \<le> amount (st_items st ! nat idx)
      then if st_lock st then storage_guild_storageclose s gs
           else let p = get_gstor_inv e (s, st) (nat idx) amt;
                    q = (if fst p then take_gstor (snd p) (nat idx) amt else snd p)
                in (fst q, gs(guild_id s \<mapsto> snd q))
      else (s, gs))"
  using assms
  by (auto simp: storage_guild_storageget_def get_gstor_inv_def take_gstor_def Let_def
      split: prod.splits)

lemma storage_guild_storagegettocart_eq:
  assumes "gs (guild_id s) = Some st"
  shows "storage_guild_storagegettocart e s gs idx amt =
     (if st_status st \<and> 0 \<le> idx \<and> nat idx < st_max_amount st
         \<and> nameid (st_items st ! nat idx) \<noteq> 0 \<and> 0 < amt \<and> amt \<le> amount (st_items st ! nat idx)
      then let p = get_gstor_cart e (s, st) (nat idx) amt;
               q = (if fst p then take_gstor (snd p) (nat idx) amt else snd p)
           in (fst q, gs(guild_id s \<mapsto> snd q))
      else (s, gs))"
proof -
  have "gs(guild_id s \<mapsto> st) = gs" using assms by (simp add: map_upd_triv)
  then show ?thesis
    using assms
    by (auto simp: storage_guild_storagegettocart_def get_gstor_cart_def take_gstor_def Let_def
        split: prod.splits)
qed


section \<open>What the handlers guarantee\<close>

text \<open>The result of a handler: the storage entry of the guild, and nothing else in the map, may change.\<close>

definition gst_result :: "env \<Rightarrow> sd \<Rightarrow> s_storage \<Rightarrow> guild_storages \<Rightarrow> sd \<times> guild_storages \<Rightarrow> bool" where
  "gst_result e s st gs r \<longleftrightarrow> (\<exists>st'. snd r = gs(guild_id s \<mapsto> st') \<and> gst_moved e (s, st) (fst r, st'))"

lemma gst_result_same: "gst_ok e (s, st) \<Longrightarrow> gs (guild_id s) = Some st \<Longrightarrow> gst_result e s st gs (s, gs)"
  unfolding gst_result_def by (intro exI [of _ st]) (simp add: map_upd_triv gst_moved_refl)

lemma gst_result_move:
  "gst_moved e (s, st) q \<Longrightarrow> gst_result e s st gs (fst q, gs(guild_id s \<mapsto> snd q))"
  unfolding gst_result_def by (intro exI [of _ "snd q"]) simp

lemma gst_result_close:
  assumes "gst_ok e (s, st)" "gs (guild_id s) = Some st"
  shows "gst_result e s st gs (storage_guild_storageclose s gs)"
proof -
  obtain st' where "storage_guild_storageclose s gs = (s\<lparr>storage_flag := 0\<rparr>, gs(guild_id s \<mapsto> st'))"
    "gst_moved e (s, st) (s\<lparr>storage_flag := 0\<rparr>, st')"
    using storage_guild_storageclose_moved [where gs = gs, OF assms] by blast
  then show ?thesis unfolding gst_result_def by (intro exI [of _ st']) simp
qed

lemma gst_result_storageadd:
  assumes "gst_ok e (s, st)" "gs (guild_id s) = Some st"
    "0 \<le> idx \<Longrightarrow> nat idx < MAX_INVENTORY \<Longrightarrow> gstorable e (inventory s ! nat idx)"
  shows "gst_result e s st gs (storage_guild_storageadd e s gs idx amt)"
  unfolding storage_guild_storageadd_eq [where gs = gs, OF assms(2)] Let_def
  using gst_result_same [where gs = gs, OF assms(1,2)] gst_result_close [where gs = gs, OF assms(1,2)]
  by (auto simp del: fun_upd_apply intro!: gst_result_move assms(3)
      inv_to_gstor.transfer_conserves [of e "(s, st)" "nat idx" amt, folded gst_moved_def] assms(1))

lemma gst_result_storageaddfromcart:
  assumes "gst_ok e (s, st)" "gs (guild_id s) = Some st"
    "0 \<le> idx \<Longrightarrow> nat idx < MAX_CART \<Longrightarrow> gstorable e (cart s ! nat idx)"
  shows "gst_result e s st gs (storage_guild_storageaddfromcart e s gs idx amt)"
  unfolding storage_guild_storageaddfromcart_eq [where gs = gs, OF assms(2)] Let_def
  using gst_result_same [where gs = gs, OF assms(1,2)]
  by (auto simp del: fun_upd_apply intro!: gst_result_move assms(3)
      cart_to_gstor.transfer_conserves [of e "(s, st)" "nat idx" amt, folded gst_moved_def] assms(1))

text \<open>
  A deposit of a reserved item stores nothing, whatever it answers; the units of an
  accepted one are gone.
\<close>

definition gst_shrunk :: "env \<Rightarrow> sd \<Rightarrow> s_storage \<Rightarrow> guild_storages \<Rightarrow> sd \<times> guild_storages \<Rightarrow> bool" where
  "gst_shrunk e s st gs r \<longleftrightarrow> (\<exists>st'. snd r = gs(guild_id s \<mapsto> st') \<and> gst_ok e (fst r, st')
     \<and> (\<forall>k. gst_total k (fst r, st') \<le> gst_total k (s, st)))"

lemma gst_result_shrunk: "gst_result e s st gs r \<Longrightarrow> gst_shrunk e s st gs r"
  by (auto simp: gst_result_def gst_shrunk_def gst_moved_def)

lemma gst_shrunk_take:
  assumes "gst_ok e q \<and> (\<forall>k. gst_total k q = gst_total k (s, st) - (if n = k then a else 0))" "0 < a"
  shows "gst_shrunk e s st gs (fst q, gs(guild_id s \<mapsto> snd q))"
  unfolding gst_shrunk_def using assms by (intro exI [of _ "snd q"]) auto

lemma gst_shrunk_storageadd:
  assumes "gst_ok e (s, st)" "gs (guild_id s) = Some st" "\<not> gstorable e (inventory s ! nat idx)"
  shows "gst_shrunk e s st gs (storage_guild_storageadd e s gs idx amt)"
  unfolding storage_guild_storageadd_eq [where gs = gs, OF assms(2)] Let_def
  using gst_result_same [where gs = gs, OF assms(1,2)] gst_result_close [where gs = gs, OF assms(1,2)]
    put_gstor_reserved [where src = inventory and p = "(s, st)"] assms(3)
    inv_to_gstor.take_removes [OF assms(1), of "nat idx" amt]
    gst_result_move [where gs = gs, OF gst_moved_refl [OF assms(1)]]
  by (auto simp del: fun_upd_apply intro: gst_result_shrunk gst_shrunk_take)

lemma gst_shrunk_storageaddfromcart:
  assumes "gst_ok e (s, st)" "gs (guild_id s) = Some st" "\<not> gstorable e (cart s ! nat idx)"
  shows "gst_shrunk e s st gs (storage_guild_storageaddfromcart e s gs idx amt)"
  unfolding storage_guild_storageaddfromcart_eq [where gs = gs, OF assms(2)] Let_def
  using gst_result_same [where gs = gs, OF assms(1,2)]
    put_gstor_reserved [where src = cart and p = "(s, st)"] assms(3)
    cart_to_gstor.take_removes [OF assms(1), of "nat idx" amt]
    gst_result_move [where gs = gs, OF gst_moved_refl [OF assms(1)]]
  by (auto simp del: fun_upd_apply intro: gst_result_shrunk gst_shrunk_take)

text \<open>The slots a withdrawal may name lie below \<open>max_amount\<close>, which never exceeds the array.\<close>

lemma gst_slot_bound: "gst_ok e (s, st) \<Longrightarrow> i < st_max_amount st \<Longrightarrow> i < MAX_GUILD_STORAGE"
  by (simp add: gst_ok_def storage_ok_def)

lemma gst_result_storageget:
  assumes "gst_ok e (s, st)" "gs (guild_id s) = Some st"
    "0 \<le> idx \<Longrightarrow> nat idx < st_max_amount st \<Longrightarrow> live e (st_items st ! nat idx)"
  shows "gst_result e s st gs (storage_guild_storageget e s gs idx amt)"
  unfolding storage_guild_storageget_eq [where gs = gs, OF assms(2)] Let_def
  using gst_result_same [where gs = gs, OF assms(1,2)] gst_result_close [where gs = gs, OF assms(1,2)]
  by (auto simp del: fun_upd_apply intro!: gst_result_move assms(3) gst_slot_bound [OF assms(1)]
      gstor_to_inv.transfer_conserves [of e "(s, st)" "nat idx" amt, folded gst_moved_def] assms(1))

lemma gst_result_storagegettocart:
  assumes "gst_ok e (s, st)" "gs (guild_id s) = Some st"
  shows "gst_result e s st gs (storage_guild_storagegettocart e s gs idx amt)"
  unfolding storage_guild_storagegettocart_eq [where gs = gs, OF assms(2)] Let_def
  using gst_result_same [where gs = gs, OF assms(1,2)]
  by (auto simp del: fun_upd_apply intro!: gst_result_move gst_slot_bound [OF assms(1)]
      gstor_to_cart.transfer_conserves [of e "(s, st)" "nat idx" amt, folded gst_moved_def] assms(1))

datatype gst_request =
  Add_From_Inventory int int | Get_To_Inventory int int | Add_From_Cart int int | Get_To_Cart int int

fun gst_handle :: "env \<Rightarrow> sd \<Rightarrow> guild_storages \<Rightarrow> gst_request \<Rightarrow> sd \<times> guild_storages" where
  "gst_handle e s gs (Add_From_Inventory i a) = storage_guild_storageadd e s gs i a"
| "gst_handle e s gs (Get_To_Inventory i a) = storage_guild_storageget e s gs i a"
| "gst_handle e s gs (Add_From_Cart i a) = storage_guild_storageaddfromcart e s gs i a"
| "gst_handle e s gs (Get_To_Cart i a) = storage_guild_storagegettocart e s gs i a"

text \<open>
  The deposits whose item the settings admit, and the requests that do not withdraw
  an expired rental to the inventory.
\<close>

fun gst_admitted :: "env \<Rightarrow> sd \<Rightarrow> gst_request \<Rightarrow> bool" where
  "gst_admitted e s (Add_From_Inventory i a) = gstorable e (inventory s ! nat i)"
| "gst_admitted e s (Add_From_Cart i a) = gstorable e (cart s ! nat i)"
| "gst_admitted e s _ = True"

fun gst_unexpired :: "env \<Rightarrow> s_storage \<Rightarrow> gst_request \<Rightarrow> bool" where
  "gst_unexpired e st (Get_To_Inventory i a) = live e (st_items st ! nat i)"
| "gst_unexpired e st _ = True"

text \<open>
  C2. Every guild storage request (deposit or withdrawal, from or to inventory or
  cart, with any index and amount, accepted, refused or on a locked storage), except
  a withdrawal of an expired rental to the inventory, keeps the player and the guild
  storage well formed (slot bounds, counters, weights, caches), changes no other
  guild's storage, and creates no unit of any item over the player and the storage
  together. It loses none either, unless it deposits a reserved item that the
  settings keep out of the guild storage.
\<close>

theorem gst_handle_conserves:
  assumes "gst_ok e (s, st)" "gs (guild_id s) = Some st" "gst_unexpired e st r"
    "gst_handle e s gs r = (t, gs')"
  shows "\<exists>st'. gs' = gs(guild_id s \<mapsto> st') \<and> gst_ok e (t, st')
    \<and> (\<forall>k. gst_total k (t, st') \<le> gst_total k (s, st))
    \<and> (gst_admitted e s r \<longrightarrow> (\<forall>k. gst_total k (t, st') = gst_total k (s, st)))"
proof (cases "gst_admitted e s r")
  case True
  then have "gst_result e s st gs (gst_handle e s gs r)"
    using assms(1-3) gst_result_storageadd [where gs = gs] gst_result_storageget [where gs = gs]
      gst_result_storageaddfromcart [where gs = gs] gst_result_storagegettocart [where gs = gs]
    by (cases r) simp_all
  then show ?thesis using assms(4) by (auto simp: gst_result_def gst_moved_def)
next
  case False
  then have "gst_shrunk e s st gs (gst_handle e s gs r)"
    using assms(1,2) gst_shrunk_storageadd [where gs = gs] gst_shrunk_storageaddfromcart [where gs = gs]
    by (cases r) simp_all
  then show ?thesis using assms(4) False by (simp add: gst_shrunk_def)
qed

lemma sample_gst_ok: "gst_ok sample_env (sample_player a b, (sample_storage MAX_GUILD_STORAGE)\<lparr>st_status := True\<rparr>)"
  using sample_storage_ok [of MAX_GUILD_STORAGE]
  by (simp add: gst_ok_def storage_ok_def MAX_GUILD_STORAGE_def)

lemma sample_guild_id: "guild_id (sample_player a b) = 5"
  by (simp add: sample_player_def)

theorem gst_handle_conserves_witness:
  "\<exists>st' t. gst_handle sample_env (sample_player 1 0)
      [5 \<mapsto> (sample_storage MAX_GUILD_STORAGE)\<lparr>st_status := True\<rparr>] (Get_To_Inventory 0 2)
    = (t, [5 \<mapsto> st']) \<and> gst_ok sample_env (t, st')"
proof -
  let ?st = "(sample_storage MAX_GUILD_STORAGE)\<lparr>st_status := True\<rparr>"
  obtain t gs where r: "gst_handle sample_env (sample_player 1 0) [5 \<mapsto> ?st] (Get_To_Inventory 0 2) = (t, gs)"
    by fastforce
  have "live sample_env (st_items ?st ! 0)"
    by (simp add: sample_storage_def slots_with_facts MAX_GUILD_STORAGE_def live_def)
  then show ?thesis
    using gst_handle_conserves [OF sample_gst_ok _ _ r] sample_guild_id [of 1 0] r by auto
qed

text \<open>The checks of \<open>storage_guild_additem\<close> before those of reserved items.\<close>

definition gst_passes :: "env \<Rightarrow> sd \<Rightarrow> item \<Rightarrow> int \<Rightarrow> bool" where
  "gst_passes e s it amt \<longleftrightarrow>
     (stack_guildstorage (search e (nameid it)) \<longrightarrow> amt \<le> stack_amount (search e (nameid it)))
   \<and> itemdb_isrestricted (db e) it (pc_get_group_level s) 0 itemdb_canguildstore_sub \<and> expire_time it = 0
   \<and> (bound it = BOUND_ACCOUNT \<or> bound it > BOUND_GUILD \<longrightarrow> pc_can_give_bounded_items s)"

text \<open>
  C10. A reserved item that the settings keep out of the guild storage, and that
  passes the checks any item must pass, is not refused but destroyed: the request
  stores nothing, in this or any other guild's storage, and the units are deleted
  from the inventory.
\<close>

theorem storage_guild_storageadd_destroys:
  assumes "gst_ok e (s, st)" "gs (guild_id s) = Some st" "st_status st" "\<not> st_lock st"
    "0 \<le> idx" "nat idx < MAX_INVENTORY" "0 < amt" "amt \<le> amount (inventory s ! nat idx)"
    "nameid (inventory s ! nat idx) \<noteq> 0" "st_amount st \<le> int (st_max_amount st)"
    "gst_passes e s (inventory s ! nat idx) amt"
    "stuff_blocked (bconf e) (inventory s ! nat idx) (stuff_enable_guild_storage (bconf e))"
    "storage_guild_storageadd e s gs idx amt = (t, gs')"
  shows "gs' = gs \<and> holdings (nameid (inventory s ! nat idx)) t
      = holdings (nameid (inventory s ! nat idx)) s - amt"
proof -
  have ad: "storage_guild_additem e s st (inventory s ! nat idx) amt = (True, st)"
    using assms(7,9,11,12) by (auto simp: storage_guild_additem_def gst_passes_def Let_def)
  have triv: "gs(guild_id s \<mapsto> st) = gs" using assms(2) by (simp add: map_upd_triv)
  have p: "player_ok e s" using assms(1) by (simp add: gst_ok_def)
  have "t = take_inventory e 0 s (nat idx) amt" "gs' = gs"
    using assms(13) assms(3-10) ad triv
    unfolding storage_guild_storageadd_eq [where gs = gs, OF assms(2)]
    by (simp_all add: put_gstor_def on_player_def Let_def)
  then show ?thesis
    using take_inventory_removed(2) [OF p assms(6,9,7,8)] by simp
qed

text \<open>A knife that an event lent to a character: its cards hold the reserved character id 999997.\<close>

definition stuff_knife :: item where
  "stuff_knife = knife\<lparr>cards := [0xFE, 0, 999997 mod 65536, 999997 div 65536]\<rparr>"

definition stuff_player :: sd where
  "stuff_player = (sample_player 1 0)\<lparr>inventory := slots_with MAX_INVENTORY [potions 10, stuff_knife]\<rparr>"

lemma stuff_player_ok: "player_ok sample_env stuff_player"
proof -
  have inv: "inventory stuff_player ! i = (if i = 1 then stuff_knife else inventory (sample_player 1 0) ! i)"
    if "i < MAX_INVENTORY" for i
    using that
    by (cases "i < 2")
       (auto simp: stuff_player_def sample_player_def slots_with_facts MAX_INVENTORY_def less_2_cases_iff)
  have nid: "nameid (inventory stuff_player ! i) = nameid (inventory (sample_player 1 0) ! i)"
    if "i < MAX_INVENTORY" for i
    using inv [OF that]
    by (simp add: stuff_knife_def) (simp add: sample_player_def slots_with_facts MAX_INVENTORY_def)
  have tw: "total_weight sample_env (inventory stuff_player) = total_weight sample_env (inventory (sample_player 1 0))"
    by (simp add: stuff_player_def sample_player_def slots_with_facts MAX_INVENTORY_def)
       (simp add: total_weight_def item_weight_def stuff_knife_def)
  have sl: "slots_ok MAX_INVENTORY (inventory stuff_player)"
    by (simp add: stuff_player_def slots_with_facts MAX_INVENTORY_def slot_ok_def stuff_knife_def MAX_AMOUNT_def)
  have o: "inventory_data stuff_player = inventory_data (sample_player 1 0)"
    "weight stuff_player = weight (sample_player 1 0)"
    by (simp_all add: stuff_player_def)
  have "inv_ok sample_env stuff_player"
    using sample_player_inv [of 1 0] nid sl by (simp add: inv_ok_def o tw)
  then show ?thesis
    using sample_player_ok [of 1 0] by (simp add: player_ok_def) (simp add: cart_ok_def stuff_player_def)
qed

theorem storage_guild_storageadd_destroys_witness:
  "holdings 1201 (fst (storage_guild_storageadd sample_env stuff_player
      [5 \<mapsto> (sample_storage MAX_GUILD_STORAGE)\<lparr>st_status := True\<rparr>] 1 1)) = holdings 1201 stuff_player - 1"
proof -
  let ?st = "(sample_storage MAX_GUILD_STORAGE)\<lparr>st_status := True\<rparr>"
  obtain t gs where r: "storage_guild_storageadd sample_env stuff_player [5 \<mapsto> ?st] 1 1 = (t, gs)" by fastforce
  have it: "inventory stuff_player ! Suc 0 = stuff_knife"
    by (simp add: stuff_player_def slots_with_facts MAX_INVENTORY_def)
  have sel: "nameid stuff_knife = 1201" "amount stuff_knife = 1" "expire_time stuff_knife = 0"
    "bound stuff_knife = 0" "card_at stuff_knife 0 = 254"
    by (simp_all add: stuff_knife_def knife_def empty_item_def card_at_def)
  have nb: "stuff_blocked (bconf sample_env) stuff_knife (stuff_enable_guild_storage (bconf sample_env))"
    by (simp add: stuff_blocked_def is_reserved_def sample_env_def sample_conf_def stuff_knife_def
        card_at_def CARD0_CREATE_def MakeDWord_def)
  have ps: "gst_passes sample_env stuff_player stuff_knife 1"
    by (simp add: gst_passes_def sel itemdb_isrestricted_def itemdb_isspecial_def CARD0_CREATE_def
        BOUND_ACCOUNT_def BOUND_GUILD_def itemdb_canguildstore_sub_def sample_env_def itemdb_search_def
        sample_db_def knife_data_def dummy_item_def search_def)
  have ok: "gst_ok sample_env (stuff_player, ?st)"
    using sample_gst_ok [of 1 0] stuff_player_ok by (simp add: gst_ok_def)
  have "gs = [5 \<mapsto> ?st] \<and> holdings (nameid (inventory stuff_player ! nat 1)) t
      = holdings (nameid (inventory stuff_player ! nat 1)) stuff_player - 1"
  proof (rule storage_guild_storageadd_destroys [OF ok _ _ _ _ _ _ _ _ _ _ _ r])
    show "[5 \<mapsto> ?st] (guild_id stuff_player) = Some ?st" by (simp add: stuff_player_def sample_player_def)
    show "gst_passes sample_env stuff_player (inventory stuff_player ! nat 1) 1" using ps it by simp
    show "stuff_blocked (bconf sample_env) (inventory stuff_player ! nat 1)
        (stuff_enable_guild_storage (bconf sample_env))"
      using nb it by simp
    show "st_amount ?st \<le> int (st_max_amount ?st)"
      by (simp add: sample_storage_def empty_storage_def MAX_GUILD_STORAGE_def)
  qed (simp_all add: it sel MAX_INVENTORY_def sample_storage_def empty_storage_def)
  then show ?thesis by (simp add: r it sel)
qed

end
