(* ===== verification/Levels.thy ===== *)
theory Levels
  imports Jobs Vending Guild_Storage
begin

text \<open>
  Levels, experience and status points: the functions of map/pc.cpp from
  \<open>pc_checkbaselevelup\<close> to \<open>pc_statusup2\<close>, \<open>pc_resetstate\<close> and \<open>pc_maxparameter\<close>, with
  \<open>guild_payexp\<close> of map/guild.cpp. The status engine and the scripts and effects that a new
  level starts are arguments of the model.
\<close>

section \<open>State\<close>

definition MAX_LEVEL :: int where "MAX_LEVEL = 175"
definition MAX_LEVEL_BASE_EXP :: int where "MAX_LEVEL_BASE_EXP = 99999999"
definition MAX_LEVEL_JOB_EXP :: int where "MAX_LEVEL_JOB_EXP = 999999999"
definition UINT_MAX :: int where "UINT_MAX = 4294967295"
definition UINT64_MAX :: int where "UINT64_MAX = 18446744073709551615"
definition RC_ALL :: nat where "RC_ALL = 11"
definition CLASS_ALL :: nat where "CLASS_ALL = 4"

definition SP_STR :: int where "SP_STR = 13"
definition SP_AGI :: int where "SP_AGI = 14"
definition SP_VIT :: int where "SP_VIT = 15"
definition SP_INT :: int where "SP_INT = 16"
definition SP_DEX :: int where "SP_DEX = 17"
definition SP_LUK :: int where "SP_LUK = 18"

record s_job_info =
  exp_table_base :: "int list"
  exp_table_job :: "int list"
  max_level_base :: int
  max_level_job :: int
  max_param :: "int list"

text \<open>
  The fields of \<open>sd->status\<close> (struct \<open>mmo_charstatus\<close>) and of \<open>sd\<close> that
  the functions use; \<open>class_id\<close> is \<open>sd->status.class_\<close>, a job id, and \<open>class_map\<close> is
  \<open>sd->class_\<close>, a map id. \<open>body\<close> is the part that the item handlers model and
  \<open>tk_mission_id\<close> the script variable TK\_MISSION\_ID.
\<close>

record pcs =
  body :: sd
  class_id :: int
  class_map :: int
  pc_sex :: nat
  base_exp :: int
  job_exp :: int
  base_level :: int
  job_level :: int
  status_point :: int
  skill_point :: int
  st_str :: int
  st_agi :: int
  st_vit :: int
  st_int :: int
  st_dex :: int
  st_luk :: int
  pc_dead :: bool
  on_map :: bool
  expaddrace :: "int list"
  expaddclass :: "int list"
  sc_expboost :: "int option"
  sc_jexpboost :: "int option"
  mission_mobid :: nat
  mission_count :: nat
  tk_mission_id :: int

text \<open>
  The settings and tables; \<open>fl64\<close> and \<open>fl32\<close> round to double and float.
  The last three fields are the status engine and what follows a new base or job level:
  healing, the buffs of some classes, NPC event scripts and achievements.
\<close>

record lvconf =
  job_info :: "int \<Rightarrow> s_job_info"
  statp :: "int list"
  use_statpoint_table :: bool
  multi_level_up :: bool
  pvp_exp :: bool
  pk_mode :: bool
  max_exp_gain_rate :: int
  max_parameter :: int
  max_baby_parameter :: int
  max_trans_parameter :: int
  max_third_parameter :: int
  max_baby_third_parameter :: int
  max_third_trans_parameter :: int
  max_extended_parameter :: int
  max_summoner_parameter :: int
  fl64 :: "rat \<Rightarrow> rat"
  fl32 :: "rat \<Rightarrow> rat"
  status_calc_pc :: "pcs \<Rightarrow> pcs"
  base_level_event :: "pcs \<Rightarrow> pcs"
  job_level_event :: "pcs \<Rightarrow> pcs"

section \<open>Tables\<close>

definition job_of :: "lvconf \<Rightarrow> pcs \<Rightarrow> s_job_info" where
  "job_of c p = job_info c (pc_class2idx (class_id p))"

definition pc_maxbaselv :: "lvconf \<Rightarrow> pcs \<Rightarrow> int" where
  "pc_maxbaselv c p = max_level_base (job_of c p)"

definition pc_maxjoblv :: "lvconf \<Rightarrow> pcs \<Rightarrow> int" where
  "pc_maxjoblv c p = max_level_job (job_of c p)"

definition pc_is_maxbaselv :: "lvconf \<Rightarrow> pcs \<Rightarrow> bool" where
  "pc_is_maxbaselv c p \<longleftrightarrow> base_level p \<ge> pc_maxbaselv c p"

definition pc_is_maxjoblv :: "lvconf \<Rightarrow> pcs \<Rightarrow> bool" where
  "pc_is_maxjoblv c p \<longleftrightarrow> job_level p \<ge> pc_maxjoblv c p"

definition pc_nextbaseexp :: "lvconf \<Rightarrow> pcs \<Rightarrow> int" where
  "pc_nextbaseexp c p =
     (if base_level p = 0 then 0 else if pc_is_maxbaselv c p then MAX_LEVEL_BASE_EXP
      else exp_table_base (job_of c p) ! nat (base_level p - 1))"

definition pc_nextjobexp :: "lvconf \<Rightarrow> pcs \<Rightarrow> int" where
  "pc_nextjobexp c p =
     (if job_level p = 0 then 0 else if pc_is_maxjoblv c p then MAX_LEVEL_JOB_EXP
      else exp_table_job (job_of c p) ! nat (job_level p - 1))"

definition pc_gets_status_point :: "lvconf \<Rightarrow> int \<Rightarrow> int" where
  "pc_gets_status_point c level =
     (if use_statpoint_table c then s32 (statp c ! nat (level + 1) - statp c ! nat level)
      else (level + 15) div 5)"

section \<open>Stats\<close>

definition pc_getstat :: "pcs \<Rightarrow> int \<Rightarrow> int" where
  "pc_getstat p type =
     (if type = SP_STR then st_str p else if type = SP_AGI then st_agi p
      else if type = SP_VIT then st_vit p else if type = SP_INT then st_int p
      else if type = SP_DEX then st_dex p else if type = SP_LUK then st_luk p else -1)"

lemma getstat_updates [simp]:
  "pc_getstat (p\<lparr>base_exp := x\<rparr>) = pc_getstat p" "pc_getstat (p\<lparr>job_exp := x\<rparr>) = pc_getstat p"
  "pc_getstat (p\<lparr>base_level := x\<rparr>) = pc_getstat p" "pc_getstat (p\<lparr>job_level := x\<rparr>) = pc_getstat p"
  "pc_getstat (p\<lparr>status_point := x\<rparr>) = pc_getstat p" "pc_getstat (p\<lparr>skill_point := x\<rparr>) = pc_getstat p"
  "pc_getstat (p\<lparr>body := s\<rparr>) = pc_getstat p" "pc_getstat (p\<lparr>mission_mobid := n\<rparr>) = pc_getstat p"
  "pc_getstat (p\<lparr>mission_count := n\<rparr>) = pc_getstat p" "pc_getstat (p\<lparr>tk_mission_id := x\<rparr>) = pc_getstat p"
  by (simp_all add: pc_getstat_def fun_eq_iff)

text \<open>The stats are unsigned shorts.\<close>

definition pc_setstat :: "pcs \<Rightarrow> int \<Rightarrow> int \<Rightarrow> int \<times> pcs" where
  "pc_setstat p type val =
     (let v = val mod 65536 in
      if type = SP_STR then (val, p\<lparr>st_str := v\<rparr>) else if type = SP_AGI then (val, p\<lparr>st_agi := v\<rparr>)
      else if type = SP_VIT then (val, p\<lparr>st_vit := v\<rparr>) else if type = SP_INT then (val, p\<lparr>st_int := v\<rparr>)
      else if type = SP_DEX then (val, p\<lparr>st_dex := v\<rparr>) else if type = SP_LUK then (val, p\<lparr>st_luk := v\<rparr>)
      else (-1, p))"

definition pc_maxparameter :: "lvconf \<Rightarrow> pcs \<Rightarrow> int \<Rightarrow> int" where
  "pc_maxparameter c p prm =
     (let class = class_map p;
          idx = pc_class2idx (pc_mapid2jobid class (pc_sex p));
          m = (if idx \<ge> 0 \<and> 0 \<le> prm \<and> prm < 6 then s16 (max_param (job_info c idx) ! nat prm) else 0)
      in if m > 0 then m
         else if class AND MAPID_BASEMASK = MAPID_SUMMONER then max_summoner_parameter c
         else if class AND MAPID_UPPERMASK = MAPID_KAGEROUOBORO \<or> class AND MAPID_UPPERMASK = MAPID_REBELLION
           then max_extended_parameter c
         else if class AND JOBL_THIRD \<noteq> 0 then
           if class AND JOBL_UPPER \<noteq> 0 then max_third_trans_parameter c
           else if class AND JOBL_BABY \<noteq> 0 then max_baby_third_parameter c else max_third_parameter c
         else if class AND JOBL_BABY \<noteq> 0 then max_baby_parameter c
         else if class AND JOBL_UPPER \<noteq> 0 then max_trans_parameter c else max_parameter c)"

text \<open>The cost of a step from \<open>low\<close>; C's division is towards zero, which matters at 0.\<close>

definition PC_STATUS_POINT_COST :: "int \<Rightarrow> int" where
  "PC_STATUS_POINT_COST low =
     (if low < 100 then 2 + (if low < 1 then - ((1 - low) div 10) else (low - 1) div 10)
      else 16 + 4 * ((low - 100) div 5))"

function cost_loop :: "int \<Rightarrow> int \<Rightarrow> int" where
  "cost_loop low high = (if low < high then PC_STATUS_POINT_COST low + cost_loop (low + 1) high else 0)"
  by auto
termination by (relation "measure (\<lambda>(low, high). nat (high - low))") auto

declare cost_loop.simps [simp del]

definition pc_need_status_point :: "lvconf \<Rightarrow> pcs \<Rightarrow> int \<Rightarrow> int \<Rightarrow> int" where
  "pc_need_status_point c p type val =
     (if val = 0 then 0
      else let low = pc_getstat p type; mx = pc_maxparameter c p (type - SP_STR)
      in if low \<ge> mx \<and> val > 0 then 0
         else let high = low + val
              in if val < 0 then cost_loop high low else cost_loop low high)"

function increase_loop :: "int \<Rightarrow> int \<Rightarrow> int \<Rightarrow> int" where
  "increase_loop mx v pts =
     (if v \<le> mx \<and> pts \<ge> 0 then increase_loop mx (v + 1) (pts - PC_STATUS_POINT_COST v) else v)"
  by auto
termination by (relation "measure (\<lambda>(mx, v, pts). nat (mx + 1 - v))") auto

declare increase_loop.simps [simp del]

definition pc_maxparameterincrease :: "lvconf \<Rightarrow> pcs \<Rightarrow> int \<Rightarrow> int" where
  "pc_maxparameterincrease c p type =
     (let base = pc_getstat p type;
          v = increase_loop (pc_maxparameter c p (type - SP_STR)) base (s32 (status_point p)) - 1
      in if v > base then v - base else 0)"

definition pc_statusup :: "lvconf \<Rightarrow> pcs \<Rightarrow> int \<Rightarrow> int \<Rightarrow> bool \<times> pcs" where
  "pc_statusup c p type inc =
     (if type < SP_STR \<or> type > SP_LUK \<or> inc \<le> 0 then (False, p)
      else
        let cur = pc_getstat p type;
            inc = cap_value inc 0 (pc_maxparameterincrease c p type)
        in if inc \<le> 0 \<or> cur + inc > pc_maxparameter c p (type - SP_STR) then (False, p)
           else
             let need = pc_need_status_point c p type inc
             in if need < 0 \<or> u32 need > status_point p then (False, p)
                else
                  let p = snd (pc_setstat p type (cur + inc));
                      p = p\<lparr>status_point := u32 (status_point p - need)\<rparr>
                  in (True, status_calc_pc c p))"

definition pc_statusup2 :: "lvconf \<Rightarrow> pcs \<Rightarrow> int \<Rightarrow> int \<Rightarrow> int \<times> pcs" where
  "pc_statusup2 c p type val =
     (if type < SP_STR \<or> type > SP_LUK then (0, p)
      else
        let (v, p) = pc_setstat p type
              (cap_value (pc_getstat p type + val) 1 (pc_maxparameter c p (type - SP_STR)))
        in (v, status_calc_pc c p))"

definition set_stats :: "pcs \<Rightarrow> int \<Rightarrow> pcs" where
  "set_stats p v = fold (\<lambda>type p. snd (pc_setstat p type v)) [SP_STR, SP_AGI, SP_VIT, SP_INT, SP_DEX, SP_LUK] p"

definition pc_resetstate :: "lvconf \<Rightarrow> pcs \<Rightarrow> int \<times> pcs" where
  "pc_resetstate c p =
     (if use_statpoint_table c \<and> base_level p > MAX_LEVEL then (0, p)
      else
        let p = (if use_statpoint_table c
                 then p\<lparr>status_point := u32 (statp c ! nat (base_level p)
                        + (if class_map p AND JOBL_UPPER \<noteq> 0 then 52 else 0))\<rparr>
                 else p\<lparr>status_point := u32 (status_point p + sum_list
                        (map (\<lambda>t. pc_need_status_point c p t (1 - pc_getstat p t))
                           [SP_STR, SP_AGI, SP_VIT, SP_INT, SP_DEX, SP_LUK]))\<rparr>);
            p = set_stats p 1;
            p = (if mission_mobid p \<noteq> 0 then p\<lparr>mission_mobid := 0, mission_count := 0, tk_mission_id := 0\<rparr> else p)
        in (1, status_calc_pc c p))"

section \<open>Level up\<close>

text \<open>The body of the loop. A level below the maximum does not overflow.\<close>

definition base_step :: "lvconf \<Rightarrow> int \<Rightarrow> pcs \<Rightarrow> pcs" where
  "base_step c next p =
     (let x = u32 (base_exp p - next);
          x = (if \<not> multi_level_up c \<and> x > next - 1 then next - 1 else x)
      in p\<lparr>base_exp := x, base_level := base_level p + 1,
           status_point := u32 (status_point p + pc_gets_status_point c (base_level p))\<rparr>)"

lemma base_step_max: "pc_maxbaselv c (base_step c next p) = pc_maxbaselv c p"
  "base_level (base_step c next p) = base_level p + 1"
  by (simp_all add: base_step_def pc_maxbaselv_def job_of_def Let_def)

function base_loop :: "lvconf \<Rightarrow> int \<Rightarrow> pcs \<Rightarrow> pcs" where
  "base_loop c next p =
     (let p = base_step c next p
      in if pc_is_maxbaselv c p then p\<lparr>base_exp := min (base_exp p) MAX_LEVEL_BASE_EXP\<rparr>
         else if pc_nextbaseexp c p > 0 \<and> base_exp p \<ge> pc_nextbaseexp c p
           then base_loop c (pc_nextbaseexp c p) p else p)"
  by auto
termination
  by (relation "measure (\<lambda>(c, next, p). nat (pc_maxbaselv c p - base_level p))")
    (auto simp: pc_is_maxbaselv_def base_step_max)

declare base_loop.simps [simp del]

text \<open>Items that are above the new level are taken off.\<close>

definition pc_baselevelchanged :: "env \<Rightarrow> int \<Rightarrow> sd \<Rightarrow> sd" where
  "pc_baselevelchanged e level s = fold (\<lambda>i s.
     let n = equip_index s ! i in
     if n \<ge> 0 then case inventory_data s ! nat n of
         Some d \<Rightarrow> if elvmax d \<noteq> 0 \<and> level > elvmax d then pc_unequipitem e s (nat n) 3 else s
       | None \<Rightarrow> s
     else s) [0..<21] s"

definition pc_checkbaselevelup :: "env \<Rightarrow> lvconf \<Rightarrow> pcs \<Rightarrow> int \<times> pcs" where
  "pc_checkbaselevelup e c p =
     (let next = pc_nextbaseexp c p
      in if next = 0 \<or> base_exp p < next \<or> pc_is_maxbaselv c p then (0, p)
         else
           let p = base_level_event c (status_calc_pc c (base_loop c next p))
           in (1, p\<lparr>body := pc_baselevelchanged e (base_level p) (body p)\<rparr>))"

definition job_step :: "lvconf \<Rightarrow> int \<Rightarrow> pcs \<Rightarrow> pcs" where
  "job_step c next p =
     (let x = u32 (job_exp p - next);
          x = (if \<not> multi_level_up c \<and> x > next - 1 then next - 1 else x)
      in p\<lparr>job_exp := x, job_level := job_level p + 1, skill_point := u32 (skill_point p + 1)\<rparr>)"

lemma job_step_max: "pc_maxjoblv c (job_step c next p) = pc_maxjoblv c p"
  "job_level (job_step c next p) = job_level p + 1"
  by (simp_all add: job_step_def pc_maxjoblv_def job_of_def Let_def)

function job_loop :: "lvconf \<Rightarrow> int \<Rightarrow> pcs \<Rightarrow> pcs" where
  "job_loop c next p =
     (let p = job_step c next p
      in if pc_is_maxjoblv c p then p\<lparr>job_exp := min (job_exp p) MAX_LEVEL_JOB_EXP\<rparr>
         else if pc_nextjobexp c p > 0 \<and> job_exp p \<ge> pc_nextjobexp c p
           then job_loop c (pc_nextjobexp c p) p else p)"
  by auto
termination
  by (relation "measure (\<lambda>(c, next, p). nat (pc_maxjoblv c p - job_level p))")
    (auto simp: pc_is_maxjoblv_def job_step_max)

declare job_loop.simps [simp del]

definition pc_checkjoblevelup :: "lvconf \<Rightarrow> pcs \<Rightarrow> int \<times> pcs" where
  "pc_checkjoblevelup c p =
     (let next = pc_nextjobexp c p
      in if next = 0 \<or> job_exp p < next \<or> pc_is_maxjoblv c p then (0, p)
         else (1, job_level_event c (status_calc_pc c (job_loop c next p))))"

section \<open>Experience\<close>

text \<open>Where experience comes from: race, class and level of the defeated unit.\<close>

record expsrc =
  src_race :: nat
  src_class :: nat
  src_lv :: int

definition exp_bonus :: "lvconf \<Rightarrow> pcs \<Rightarrow> expsrc option \<Rightarrow> int" where
  "exp_bonus c p src =
     (case src of None \<Rightarrow> 0 | Some u \<Rightarrow>
        expaddrace p ! src_race u + expaddrace p ! RC_ALL + expaddclass p ! src_class u + expaddclass p ! CLASS_ALL
        + (if pk_mode c \<and> s32 (src_lv u - base_level p) \<ge> 20 then 15 else 0))
     + (case sc_expboost p of None \<Rightarrow> 0 | Some v \<Rightarrow> v)"

text \<open>The cast of the double to unsigned is written with wrap-around.\<close>

definition scale_exp :: "lvconf \<Rightarrow> int \<Rightarrow> int \<Rightarrow> int" where
  "scale_exp c bonus x =
     (if x = 0 then 0
      else cap_value (u32 (rat_int (fl64 c (of_int x + fl64 c (fl64 c (of_int x * of_int bonus) / 100))))) 1 UINT_MAX)"

definition pc_calcexp :: "lvconf \<Rightarrow> pcs \<Rightarrow> expsrc option \<Rightarrow> int \<times> int \<Rightarrow> int \<times> int" where
  "pc_calcexp c p src bj =
     (let bonus = exp_bonus c p src;
          jbonus = bonus + (case sc_jexpboost p of None \<Rightarrow> 0 | Some v \<Rightarrow> v)
      in (scale_exp c bonus (fst bj), scale_exp c jbonus (snd bj)))"

text \<open>The experience that waits to be paid to the guilds, by character id (\<open>guild_expcache_db\<close>).\<close>

type_synonym expcache = "int \<Rightarrow> int option"

definition guild_payexp :: "guild option \<Rightarrow> sd \<Rightarrow> expcache \<Rightarrow> int \<Rightarrow> int \<times> expcache" where
  "guild_payexp g s cache x =
     (if x = 0 then (0, cache)
      else if guild_id s = 0 then (0, cache)
      else case g of None \<Rightarrow> (0, cache) | Some gd \<Rightarrow>
        let pos = guild_getposition g s
        in if pos < 0 then (0, cache)
           else let per = g_exp_mode gd ! nat pos
             in if per < 1 then (0, cache)
                else
                  let x = (if per < 100 then u32 (x * per) div 100 else x);
                      old = (case cache (char_id s) of None \<Rightarrow> 0 | Some v \<Rightarrow> v)
                  in (x, cache(char_id s \<mapsto> (if old > UINT64_MAX - x then UINT64_MAX else old + x))))"

text \<open>On the last level the experience stops at a limit.\<close>

definition max_gain :: "bool \<Rightarrow> int \<Rightarrow> int \<Rightarrow> int \<Rightarrow> int" where
  "max_gain at_max limit old x =
     (if at_max then if old \<ge> limit then 0 else if u32 (old + x) \<ge> limit then limit - old else x else x)"

definition rate_gain :: "lvconf \<Rightarrow> int \<Rightarrow> int \<Rightarrow> int" where
  "rate_gain c next x =
     (if next > 0 \<and> fl32 c (fl32 c (of_int x) / fl32 c (of_int next)) > fl64 c (of_int (max_exp_gain_rate c) / 1000)
      then u32 (rat_int (fl64 c (fl64 c (of_int (max_exp_gain_rate c) / 1000) * of_int next))) else x)"

definition add_exp :: "int \<Rightarrow> int \<Rightarrow> int" where
  "add_exp old x = (if old + x > UINT_MAX then UINT_MAX else old + x)"

text \<open>The gains after tax, bonus and limits, and the guild's share.\<close>

definition exp_gains ::
    "lvconf \<Rightarrow> guild option \<Rightarrow> expsrc option \<Rightarrow> nat \<Rightarrow> pcs \<Rightarrow> int \<times> int \<Rightarrow> expcache \<Rightarrow> (int \<times> int) \<times> expcache" where
  "exp_gains c g src flag p bj cache =
     (let (tax, cache) = (if \<not> bit flag 1 \<and> guild_id (body p) > 0 then guild_payexp g (body p) cache (fst bj) else (0, cache));
          bj = (u32 (fst bj - tax), snd bj);
          (b, j) = (if \<not> bit flag 1 then pc_calcexp c p src bj else bj);
          b = max_gain (pc_is_maxbaselv c p) MAX_LEVEL_BASE_EXP (base_exp p) b;
          j = max_gain (pc_is_maxjoblv c p) MAX_LEVEL_JOB_EXP (job_exp p) j
      in (if \<not> bit flag 1 \<and> max_exp_gain_rate c \<noteq> 0 \<and> (b \<noteq> 0 \<or> j \<noteq> 0)
          then (rate_gain c (pc_nextbaseexp c p) b, rate_gain c (pc_nextjobexp c p) j) else (b, j), cache))"

definition give_base :: "env \<Rightarrow> lvconf \<Rightarrow> int \<Rightarrow> pcs \<Rightarrow> pcs" where
  "give_base e c b p = (if b = 0 then p else snd (pc_checkbaselevelup e c (p\<lparr>base_exp := add_exp (base_exp p) b\<rparr>)))"

definition give_job :: "lvconf \<Rightarrow> int \<Rightarrow> pcs \<Rightarrow> pcs" where
  "give_job c j p = (if j = 0 then p else snd (pc_checkjoblevelup c (p\<lparr>job_exp := add_exp (job_exp p) j\<rparr>)))"

definition pc_gainexp ::
    "env \<Rightarrow> lvconf \<Rightarrow> guild option \<Rightarrow> expsrc option \<Rightarrow> int \<times> int \<Rightarrow> nat \<Rightarrow> expcache \<Rightarrow> pcs \<Rightarrow> expcache \<times> pcs" where
  "pc_gainexp e c g src bj flag cache p =
     (if \<not> on_map p \<or> pc_dead p then (cache, p)
      else if \<not> bit flag 1 \<and> \<not> pvp_exp c \<and> (mapflags e (map_m (body p)) MF_PVP \<or> pc_is_on_cellpvp e (body p))
        then (cache, p)
      else
        let ((b, j), cache) = exp_gains c g src flag p bj cache
        in (cache, give_job c j (give_base e c b p)))"

definition pc_lostexp :: "int \<Rightarrow> int \<Rightarrow> pcs \<Rightarrow> pcs" where
  "pc_lostexp b j p =
     p\<lparr>base_exp := base_exp p - min (base_exp p) b, job_exp := job_exp p - min (job_exp p) j\<rparr>"


section \<open>Costs\<close>

lemma cost_pos: "1 \<le> v \<Longrightarrow> 2 \<le> PC_STATUS_POINT_COST v"
  by (auto simp: PC_STATUS_POINT_COST_def)

lemma cost_loop_refl [simp]: "cost_loop v v = 0"
  by (simp add: cost_loop.simps)

lemma cost_loop_step: "low \<le> high \<Longrightarrow> cost_loop low (high + 1) = cost_loop low high + PC_STATUS_POINT_COST high"
proof (induction low high rule: cost_loop.induct)
  case (1 low high)
  show ?case
  proof (cases "low < high")
    case True
    then show ?thesis using 1 by (simp add: cost_loop.simps [of low])
  next
    case False
    then show ?thesis using 1(2) by (simp add: cost_loop.simps [of high "high + 1"])
  qed
qed

lemma cost_loop_add:
  "low \<le> mid \<Longrightarrow> mid \<le> high \<Longrightarrow> cost_loop low high = cost_loop low mid + cost_loop mid high"
proof (induction low mid rule: cost_loop.induct)
  case (1 low mid)
  show ?case
  proof (cases "low < mid")
    case True
    then show ?thesis using 1 by (simp add: cost_loop.simps [of low])
  next
    case False
    then show ?thesis using 1(2) by simp
  qed
qed

lemma cost_loop_nonneg: "1 \<le> low \<Longrightarrow> 0 \<le> cost_loop low high"
proof (induction low high rule: cost_loop.induct)
  case (1 low high)
  then show ?case using cost_pos [of low] by (subst cost_loop.simps) auto
qed

lemma increase_loop_ge: "v \<le> increase_loop mx v pts"
proof (induction mx v pts rule: increase_loop.induct)
  case (1 mx v pts)
  then show ?case by (subst increase_loop.simps) auto
qed

text \<open>The loop stops behind the largest value that the points reach.\<close>

lemma increase_loop_reach:
  assumes "1 \<le> v" "v \<le> mx + 1" "0 < n"
  shows "v + n \<le> increase_loop mx v pts - 1 \<longleftrightarrow> v + n \<le> mx \<and> cost_loop v (v + n) \<le> pts"
  using assms
proof (induction mx v pts arbitrary: n rule: increase_loop.induct)
  case (1 mx v pts)
  show ?case
  proof (cases "v \<le> mx \<and> pts \<ge> 0")
    case False
    have "0 \<le> cost_loop v (v + n)" using cost_loop_nonneg [OF 1(2)] .
    then show ?thesis using False 1(2-4) by (auto simp: increase_loop.simps [of mx v])
  next
    case True
    let ?p = "pts - PC_STATUS_POINT_COST v"
    have r: "increase_loop mx v pts = increase_loop mx (v + 1) ?p"
      using True by (simp add: increase_loop.simps [of mx v])
    have c: "cost_loop v (v + n) = PC_STATUS_POINT_COST v + cost_loop (v + 1) (v + n)"
      using 1(4) by (simp add: cost_loop.simps [of v])
    show ?thesis
    proof (cases "n = 1")
      case True
      then have "cost_loop v (v + n) = PC_STATUS_POINT_COST v" using c by simp
      moreover have "v + 1 \<le> increase_loop mx (v + 1) ?p - 1 \<longleftrightarrow> v + 1 \<le> mx \<and> 0 \<le> ?p"
      proof (cases "v + 1 \<le> mx \<and> 0 \<le> ?p")
        case False
        then have "increase_loop mx (v + 1) ?p = v + 1"
          unfolding increase_loop.simps [of mx "v + 1" ?p] by (simp only: if_False)
        then show ?thesis using False by simp
      next
        case True
        then have "increase_loop mx (v + 1) ?p = increase_loop mx (v + 2) (?p - PC_STATUS_POINT_COST (v + 1))"
          unfolding increase_loop.simps [of mx "v + 1" ?p] by (simp add: add.commute)
        then show ?thesis using True increase_loop_ge [of "v + 2" mx "?p - PC_STATUS_POINT_COST (v + 1)"] by simp
      qed
      ultimately show ?thesis using r True by auto
    next
      case False
      then show ?thesis using 1(1) [OF True, of "n - 1"] 1(2-4) True r c by (auto simp: algebra_simps)
    qed
  qed
qed


section \<open>Well-formed players and settings\<close>

definition stat_types :: "int list" where
  "stat_types = [SP_STR, SP_AGI, SP_VIT, SP_INT, SP_DEX, SP_LUK]"

definition lv_same :: "pcs \<Rightarrow> pcs \<Rightarrow> bool" where
  "lv_same p q \<longleftrightarrow> class_id q = class_id p \<and> class_map q = class_map p \<and> pc_sex q = pc_sex p
     \<and> base_exp q = base_exp p \<and> job_exp q = job_exp p \<and> base_level q = base_level p \<and> job_level q = job_level p
     \<and> status_point q = status_point p \<and> skill_point q = skill_point p
     \<and> (\<forall>t \<in> set stat_types. pc_getstat q t = pc_getstat p t)"

text \<open>
  The tables as they are loaded: positive experience for every level below a class's
  maximum. The status engine and the level events leave levels, experience, points and
  stats alone.
\<close>

definition job_ok :: "s_job_info \<Rightarrow> bool" where
  "job_ok ji \<longleftrightarrow> max_level_base ji \<le> MAX_LEVEL \<and> max_level_job ji \<le> MAX_LEVEL
     \<and> (\<forall>l. 0 \<le> l \<and> l < max_level_base ji - 1 \<longrightarrow> 0 < exp_table_base ji ! nat l)
     \<and> (\<forall>l. 0 \<le> l \<and> l < max_level_job ji - 1 \<longrightarrow> 0 < exp_table_job ji ! nat l)"

definition lvconf_ok :: "lvconf \<Rightarrow> bool" where
  "lvconf_ok c \<longleftrightarrow> (\<forall>i. job_ok (job_info c i))
     \<and> (\<forall>p. lv_same p (status_calc_pc c p) \<and> lv_same p (base_level_event c p) \<and> lv_same p (job_level_event c p))
     \<and> list_all (\<lambda>n. n \<le> 32767) [max_parameter c, max_baby_parameter c, max_trans_parameter c,
          max_third_parameter c, max_baby_third_parameter c, max_third_trans_parameter c,
          max_extended_parameter c, max_summoner_parameter c]"

definition u32_ok :: "int \<Rightarrow> bool" where
  "u32_ok x \<longleftrightarrow> 0 \<le> x \<and> x \<le> UINT_MAX"

text \<open>A player on a level of his class with no level-up pending.\<close>

definition base_ok :: "lvconf \<Rightarrow> pcs \<Rightarrow> bool" where
  "base_ok c p \<longleftrightarrow> 1 \<le> base_level p \<and> base_level p \<le> pc_maxbaselv c p \<and> u32_ok (base_exp p)
     \<and> (pc_is_maxbaselv c p \<or> base_exp p < pc_nextbaseexp c p)"

definition job_lv_ok :: "lvconf \<Rightarrow> pcs \<Rightarrow> bool" where
  "job_lv_ok c p \<longleftrightarrow> 1 \<le> job_level p \<and> job_level p \<le> pc_maxjoblv c p \<and> u32_ok (job_exp p)
     \<and> (pc_is_maxjoblv c p \<or> job_exp p < pc_nextjobexp c p)"

definition stats_ok :: "pcs \<Rightarrow> bool" where
  "stats_ok p \<longleftrightarrow> list_all (\<lambda>t. 1 \<le> pc_getstat p t \<and> pc_getstat p t \<le> 65535) stat_types \<and> u32_ok (status_point p)"

text \<open>
  The points that the stats have cost, the points that a level has given, and what a
  player has beyond that, modulo the width of \<open>status_point\<close>.
\<close>

definition spent :: "pcs \<Rightarrow> int" where
  "spent p = sum_list (map (\<lambda>t. cost_loop 1 (pc_getstat p t)) stat_types)"

definition granted :: "lvconf \<Rightarrow> int \<Rightarrow> int" where
  "granted c level = (if use_statpoint_table c then statp c ! nat level
     else sum_list (map (\<lambda>l. (l + 15) div 5) [0..level - 1]))"

definition credit :: "lvconf \<Rightarrow> pcs \<Rightarrow> int" where
  "credit c p = u32 (status_point p + spent p - granted c (base_level p))"

text \<open>The experience collected since level 1.\<close>

definition exp_total :: "lvconf \<Rightarrow> pcs \<Rightarrow> int" where
  "exp_total c p = base_exp p + sum_list (map (\<lambda>l. exp_table_base (job_of c p) ! nat (l - 1)) [1..base_level p - 1])"

lemma lv_sameD:
  assumes "lv_same p q"
  shows "class_id q = class_id p" "class_map q = class_map p" "pc_sex q = pc_sex p" "base_exp q = base_exp p"
    "job_exp q = job_exp p" "base_level q = base_level p" "job_level q = job_level p"
    "status_point q = status_point p" "skill_point q = skill_point p" "pc_getstat q = pc_getstat p"
proof -
  show "pc_getstat q = pc_getstat p"
  proof
    show "pc_getstat q t = pc_getstat p t" for t
    proof (cases "t \<in> set stat_types")
      case True
      then show ?thesis using assms by (simp add: lv_same_def)
    next
      case False
      then show ?thesis by (simp add: pc_getstat_def stat_types_def)
    qed
  qed
qed (use assms in \<open>simp_all add: lv_same_def\<close>)

lemma lv_same_cong:
  assumes "lv_same p q"
  shows "base_ok c q = base_ok c p" "job_lv_ok c q = job_lv_ok c p" "stats_ok q = stats_ok p"
    "credit c q = credit c p" "exp_total c q = exp_total c p" "spent q = spent p"
  using lv_sameD [OF assms]
  by (simp_all add: base_ok_def job_lv_ok_def stats_ok_def credit_def exp_total_def spent_def pc_maxbaselv_def
      pc_maxjoblv_def job_of_def pc_is_maxbaselv_def pc_is_maxjoblv_def pc_nextbaseexp_def pc_nextjobexp_def)

lemma lvconf_okD:
  assumes "lvconf_ok c"
  shows "job_ok (job_info c i)" "lv_same p (status_calc_pc c p)" "lv_same p (base_level_event c p)"
    "lv_same p (job_level_event c p)"
  using assms by (simp_all add: lvconf_ok_def)

lemma lv_same_trans: "lv_same p q \<Longrightarrow> lv_same q r \<Longrightarrow> lv_same p r"
  by (simp add: lv_same_def)


section \<open>Level up\<close>

lemma job_of_cong: "class_id q = class_id p \<Longrightarrow> job_of c q = job_of c p"
  by (simp add: job_of_def)

lemma granted_step:
  assumes "1 \<le> level"
  shows "u32 (x + pc_gets_status_point c level - granted c (level + 1)) = u32 (x - granted c level)"
proof (cases "use_statpoint_table c")
  case True
  have "u32 (x + s32 (b - a) - b) = u32 (x - a)" for a b
  proof -
    define k where "k = - ((b - a + 2147483648) div 4294967296)"
    have "s32 (b - a) = b - a + 4294967296 * k"
      by (simp add: s32_def k_def minus_mult_div_eq_mod [symmetric])
    then have "x + s32 (b - a) - b = x - a + 4294967296 * k" by simp
    then show ?thesis by (simp only: u32_def mod_mult_self2)
  qed
  then show ?thesis using True by (simp add: pc_gets_status_point_def granted_def)
next
  case False
  have "[0..level] = [0..level - 1] @ [level]" using assms by (simp add: upto_rec2)
  then have "granted c (level + 1) = granted c level + (level + 15) div 5" using False by (simp add: granted_def)
  then show ?thesis using False by (simp add: pc_gets_status_point_def)
qed

text \<open>What every round of the loop keeps, and what it changes.\<close>

definition raised :: "lvconf \<Rightarrow> pcs \<Rightarrow> pcs \<Rightarrow> bool" where
  "raised c p q \<longleftrightarrow> class_id q = class_id p \<and> class_map q = class_map p \<and> pc_sex q = pc_sex p \<and> job_exp q = job_exp p
     \<and> job_level q = job_level p \<and> pc_getstat q = pc_getstat p \<and> u32_ok (status_point q)
     \<and> u32_ok (base_exp q) \<and> base_level p < base_level q \<and> base_level q \<le> pc_maxbaselv c p
     \<and> credit c q = credit c p \<and> exp_total c q \<le> exp_total c p
     \<and> (multi_level_up c \<and> base_level q < pc_maxbaselv c p \<longrightarrow> exp_total c q = exp_total c p)"

lemma u32_okI: "u32_ok (u32 x)"
  using u32_range [of x] by (simp add: u32_ok_def UINT_MAX_def)

lemma base_step_raised:
  assumes "1 \<le> base_level p" "base_level p < pc_maxbaselv c p" "u32_ok (base_exp p)"
    and "next = pc_nextbaseexp c p" "0 < next" "next \<le> base_exp p"
  shows "raised c p (base_step c next p) \<and> (multi_level_up c \<longrightarrow> exp_total c (base_step c next p) = exp_total c p)"
proof -
  let ?q = "base_step c next p"
  have j: "job_of c ?q = job_of c p" by (rule job_of_cong) (simp add: base_step_def Let_def)
  have b: "u32 (base_exp p - next) = base_exp p - next" "0 \<le> base_exp p - next"
    using assms(3,5,6) by (simp_all add: u32_ok_def UINT_MAX_def)
  have "u32_ok (base_exp ?q)" using assms(3,5) b by (auto simp: base_step_def Let_def u32_ok_def)
  moreover have "u32_ok (status_point ?q)" by (simp add: base_step_def Let_def u32_okI)
  moreover have g: "pc_getstat ?q = pc_getstat p" by (simp add: base_step_def Let_def)
  moreover have "credit c ?q = credit c p"
  proof -
    have "spent ?q = spent p" using g by (simp add: spent_def)
    moreover have "u32 (u32 a + s - t) = u32 (a + s - t)" for a s t
      using u32_u32_add(1) [of a "s - t"] by (simp add: algebra_simps)
    ultimately show ?thesis
      using granted_step [OF assms(1), of "status_point p + spent p" c]
      by (simp add: credit_def base_step_def Let_def algebra_simps)
  qed
  moreover have n: "next = exp_table_base (job_of c p) ! nat (base_level p - 1)"
    using assms(1,2,4) by (simp add: pc_nextbaseexp_def pc_is_maxbaselv_def)
  then have "exp_total c ?q = exp_total c p" if "multi_level_up c"
    using that assms(1) b j by (simp add: exp_total_def base_step_def Let_def upto_rec2 job_of_def)
  moreover have "exp_total c ?q \<le> exp_total c p"
    using n assms(1) b j by (simp add: exp_total_def base_step_def Let_def upto_rec2 job_of_def)
  ultimately show ?thesis using assms(2) by (simp add: raised_def base_step_def Let_def)
qed

lemma raised_trans:
  assumes "raised c p q" "raised c q r" "multi_level_up c \<longrightarrow> exp_total c q = exp_total c p"
  shows "raised c p r"
  using assms by (auto simp: raised_def pc_maxbaselv_def job_of_def intro: order_trans)

lemma base_loop_raised:
  assumes "1 \<le> base_level p" "base_level p < pc_maxbaselv c p" "u32_ok (base_exp p)"
    and "next = pc_nextbaseexp c p" "0 < next" "next \<le> base_exp p"
    and "\<And>q. 1 \<le> base_level q \<Longrightarrow> base_level q < pc_maxbaselv c q \<Longrightarrow> 0 < pc_nextbaseexp c q"
  shows "raised c p (base_loop c next p) \<and> base_ok c (base_loop c next p)"
  using assms
proof (induction c "next" p rule: base_loop.induct)
  case (1 c "next" p)
  let ?q = "base_step c next p"
  have st: "raised c p ?q" "multi_level_up c \<longrightarrow> exp_total c ?q = exp_total c p"
    using base_step_raised [OF 1(2-7)] by simp_all
  have lv: "1 \<le> base_level ?q" "u32_ok (base_exp ?q)" "base_level ?q \<le> pc_maxbaselv c ?q"
    using st(1) 1(2) by (auto simp: raised_def base_step_max)
  consider (top) "pc_is_maxbaselv c ?q"
    | (more) "\<not> pc_is_maxbaselv c ?q" "pc_nextbaseexp c ?q > 0 \<and> base_exp ?q \<ge> pc_nextbaseexp c ?q"
    | (stop) "\<not> pc_is_maxbaselv c ?q" "\<not> (pc_nextbaseexp c ?q > 0 \<and> base_exp ?q \<ge> pc_nextbaseexp c ?q)"
    by blast
  then show ?case
  proof cases
    case top
    let ?r = "?q\<lparr>base_exp := min (base_exp ?q) MAX_LEVEL_BASE_EXP\<rparr>"
    have l: "base_loop c next p = ?r" using top by (simp add: base_loop.simps [of c "next" p] Let_def)
    have "u32_ok (base_exp ?r)" using lv(2) by (simp add: u32_ok_def MAX_LEVEL_BASE_EXP_def UINT_MAX_def)
    moreover have "credit c ?r = credit c ?q" by (simp add: credit_def spent_def)
    moreover have "exp_total c ?r \<le> exp_total c ?q" by (simp add: exp_total_def job_of_def)
    ultimately show ?thesis
      using st top lv unfolding l
      by (simp add: raised_def base_ok_def pc_is_maxbaselv_def pc_maxbaselv_def job_of_def)
  next
    case more
    have l: "base_loop c next p = base_loop c (pc_nextbaseexp c ?q) ?q"
      using more by (simp add: base_loop.simps [of c "next" p] Let_def)
    have "raised c ?q (base_loop c (pc_nextbaseexp c ?q) ?q) \<and> base_ok c (base_loop c (pc_nextbaseexp c ?q) ?q)"
      by (rule 1(1)) (use more lv 1(8) in \<open>auto simp: pc_is_maxbaselv_def\<close>)
    then show ?thesis using raised_trans [OF st(1) _ st(2)] l by simp
  next
    case stop
    have l: "base_loop c next p = ?q"
      unfolding base_loop.simps [of c "next" p] Let_def by (simp only: stop if_False)
    have "0 < pc_nextbaseexp c ?q" using 1(8) lv stop(1) by (simp add: pc_is_maxbaselv_def)
    then show ?thesis using st(1) lv stop l by (auto simp: base_ok_def)
  qed
qed


lemma next_positive:
  assumes "lvconf_ok c" "1 \<le> base_level q" "base_level q < pc_maxbaselv c q"
  shows "0 < pc_nextbaseexp c q"
proof -
  have "job_ok (job_of c q)" using lvconf_okD(1) [OF assms(1)] by (simp add: job_of_def)
  then show ?thesis using assms(2,3)
    by (auto simp: job_ok_def pc_nextbaseexp_def pc_is_maxbaselv_def pc_maxbaselv_def)
qed

lemma next_job_positive:
  assumes "lvconf_ok c" "1 \<le> job_level q" "job_level q < pc_maxjoblv c q"
  shows "0 < pc_nextjobexp c q"
proof -
  have "job_ok (job_of c q)" using lvconf_okD(1) [OF assms(1)] by (simp add: job_of_def)
  then show ?thesis using assms(2,3)
    by (auto simp: job_ok_def pc_nextjobexp_def pc_is_maxjoblv_def pc_maxjoblv_def)
qed

lemma lv_same_body: "lv_same p (p\<lparr>body := s\<rparr>)"
  by (simp add: lv_same_def)

lemma lv_same_raised:
  assumes "raised c p q" "lv_same q r"
  shows "raised c p r"
  using assms lv_sameD [OF assms(2)] lv_same_cong(4,5) [OF assms(2), of c] by (auto simp: raised_def)

text \<open>The level check: it does nothing, or raises a player who has the experience.\<close>

lemma pc_checkbaselevelup_cases:
  assumes "lvconf_ok c" "1 \<le> base_level p" "base_level p \<le> pc_maxbaselv c p" "u32_ok (base_exp p)"
  shows "base_ok c p \<and> pc_checkbaselevelup e c p = (0, p)
    \<or> \<not> base_ok c p \<and> fst (pc_checkbaselevelup e c p) = 1
      \<and> raised c p (snd (pc_checkbaselevelup e c p)) \<and> base_ok c (snd (pc_checkbaselevelup e c p))"
proof (cases "pc_is_maxbaselv c p \<or> base_exp p < pc_nextbaseexp c p")
  case True
  then show ?thesis using assms(2-4) by (auto simp: base_ok_def pc_checkbaselevelup_def Let_def)
next
  case False
  then have lt: "base_level p < pc_maxbaselv c p" by (simp add: pc_is_maxbaselv_def)
  have n: "0 < pc_nextbaseexp c p" by (rule next_positive [OF assms(1,2) lt])
  have l: "raised c p (base_loop c (pc_nextbaseexp c p) p) \<and> base_ok c (base_loop c (pc_nextbaseexp c p) p)"
    by (rule base_loop_raised) (use assms lt n False next_positive [OF assms(1)] in auto)
  let ?q = "base_loop c (pc_nextbaseexp c p) p"
  let ?r = "snd (pc_checkbaselevelup e c p)"
  define t where "t = base_level_event c (status_calc_pc c ?q)"
  have c: "pc_checkbaselevelup e c p = (1, t\<lparr>body := pc_baselevelchanged e (base_level t) (body t)\<rparr>)"
    using False n by (auto simp: pc_checkbaselevelup_def Let_def t_def)
  have "lv_same ?q t" unfolding t_def
    by (rule lv_same_trans [OF lvconf_okD(2) [OF assms(1)] lvconf_okD(3) [OF assms(1)]])
  then have "lv_same ?q ?r" unfolding c snd_conv by (rule lv_same_trans [OF _ lv_same_body])
  then show ?thesis
    using l lv_same_raised lv_same_cong(1) [of ?q ?r c] False c by (auto simp: base_ok_def)
qed


text \<open>The job level, in the same way; it changes nothing but the job fields and skill points.\<close>

definition job_raised :: "lvconf \<Rightarrow> pcs \<Rightarrow> pcs \<Rightarrow> bool" where
  "job_raised c p q \<longleftrightarrow> class_id q = class_id p \<and> class_map q = class_map p \<and> pc_sex q = pc_sex p \<and> base_exp q = base_exp p
     \<and> base_level q = base_level p \<and> pc_getstat q = pc_getstat p \<and> status_point q = status_point p
     \<and> job_level p < job_level q \<and> job_level q \<le> pc_maxjoblv c p \<and> u32_ok (job_exp q)
     \<and> skill_point q = u32 (skill_point p + (job_level q - job_level p))"

lemma job_loop_raised:
  assumes "1 \<le> job_level p" "job_level p < pc_maxjoblv c p" "u32_ok (job_exp p)"
    and "0 < next" "next \<le> job_exp p"
    and "\<And>q. 1 \<le> job_level q \<Longrightarrow> job_level q < pc_maxjoblv c q \<Longrightarrow> 0 < pc_nextjobexp c q"
  shows "job_raised c p (job_loop c next p) \<and> job_lv_ok c (job_loop c next p)"
  using assms
proof (induction c "next" p rule: job_loop.induct)
  case (1 c "next" p)
  let ?q = "job_step c next p"
  have b: "u32 (job_exp p - next) = job_exp p - next" using 1(4-6) by (simp add: u32_ok_def UINT_MAX_def)
  have "u32_ok (job_exp ?q)" using 1(4-6) b by (auto simp: job_step_def Let_def u32_ok_def)
  then have st: "job_raised c p ?q"
    using 1(3) by (simp add: job_raised_def job_step_def Let_def)
  have lv: "1 \<le> job_level ?q" "u32_ok (job_exp ?q)" "job_level ?q \<le> pc_maxjoblv c ?q"
    using st 1(2) by (auto simp: job_raised_def job_step_max)
  consider (top) "pc_is_maxjoblv c ?q"
    | (more) "\<not> pc_is_maxjoblv c ?q" "pc_nextjobexp c ?q > 0 \<and> job_exp ?q \<ge> pc_nextjobexp c ?q"
    | (stop) "\<not> pc_is_maxjoblv c ?q" "\<not> (pc_nextjobexp c ?q > 0 \<and> job_exp ?q \<ge> pc_nextjobexp c ?q)"
    by blast
  then show ?case
  proof cases
    case top
    let ?r = "?q\<lparr>job_exp := min (job_exp ?q) MAX_LEVEL_JOB_EXP\<rparr>"
    have l: "job_loop c next p = ?r" using top by (simp add: job_loop.simps [of c "next" p] Let_def)
    have "u32_ok (job_exp ?r)" using lv(2) by (simp add: u32_ok_def MAX_LEVEL_JOB_EXP_def UINT_MAX_def)
    then show ?thesis
      using st top lv unfolding l
      by (simp add: job_raised_def job_lv_ok_def pc_is_maxjoblv_def pc_maxjoblv_def job_of_def)
  next
    case more
    have l: "job_loop c next p = job_loop c (pc_nextjobexp c ?q) ?q"
      using more by (simp add: job_loop.simps [of c "next" p] Let_def)
    have "job_raised c ?q (job_loop c (pc_nextjobexp c ?q) ?q) \<and> job_lv_ok c (job_loop c (pc_nextjobexp c ?q) ?q)"
      by (rule 1(1)) (use more lv 1(7) in \<open>auto simp: pc_is_maxjoblv_def\<close>)
    moreover have "u32 (u32 (a + x) + y) = u32 (a + (x + y))" for a x y
      using u32_u32_add(1) [of "a + x" y] by (simp add: algebra_simps)
    ultimately show ?thesis using st l by (auto simp: job_raised_def job_step_max(1))
  next
    case stop
    have l: "job_loop c next p = ?q"
      unfolding job_loop.simps [of c "next" p] Let_def by (simp only: stop if_False)
    have "0 < pc_nextjobexp c ?q" using 1(7) lv stop(1) by (simp add: pc_is_maxjoblv_def)
    then show ?thesis using st lv stop l by (auto simp: job_lv_ok_def)
  qed
qed

lemma pc_checkjoblevelup_cases:
  assumes "lvconf_ok c" "1 \<le> job_level p" "job_level p \<le> pc_maxjoblv c p" "u32_ok (job_exp p)"
  shows "job_lv_ok c p \<and> pc_checkjoblevelup c p = (0, p)
    \<or> \<not> job_lv_ok c p \<and> fst (pc_checkjoblevelup c p) = 1
      \<and> job_raised c p (snd (pc_checkjoblevelup c p)) \<and> job_lv_ok c (snd (pc_checkjoblevelup c p))"
proof (cases "pc_is_maxjoblv c p \<or> job_exp p < pc_nextjobexp c p")
  case True
  then show ?thesis using assms(2-4) by (auto simp: job_lv_ok_def pc_checkjoblevelup_def Let_def)
next
  case False
  then have lt: "job_level p < pc_maxjoblv c p" by (simp add: pc_is_maxjoblv_def)
  have n: "0 < pc_nextjobexp c p" by (rule next_job_positive [OF assms(1,2) lt])
  let ?q = "job_loop c (pc_nextjobexp c p) p"
  let ?r = "job_level_event c (status_calc_pc c ?q)"
  have l: "job_raised c p ?q \<and> job_lv_ok c ?q"
    by (rule job_loop_raised) (use assms lt n False next_job_positive [OF assms(1)] in auto)
  have c: "pc_checkjoblevelup c p = (1, ?r)" using False n by (auto simp: pc_checkjoblevelup_def Let_def)
  have s: "lv_same ?q ?r"
    by (rule lv_same_trans [OF lvconf_okD(2) [OF assms(1)] lvconf_okD(4) [OF assms(1)]])
  have "job_raised c p ?r" using l lv_sameD [OF s] by (simp add: job_raised_def)
  then show ?thesis using l lv_same_cong(2) [OF s, of c] False c by (simp add: job_lv_ok_def)
qed


section \<open>Stats\<close>

lemmas SP_defs = SP_STR_def SP_AGI_def SP_VIT_def SP_INT_def SP_DEX_def SP_LUK_def

lemma s32_high: "2147483648 \<le> x \<Longrightarrow> x \<le> 4294967295 \<Longrightarrow> s32 x = x - 4294967296"
proof -
  assume x: "2147483648 \<le> x" "x \<le> 4294967295"
  have "(x - 2147483648 + 4294967296) mod 4294967296 = x - 2147483648"
    using x by (simp only: mod_add_self2) simp
  then show ?thesis by (simp add: s32_def algebra_simps)
qed

lemma stat_typesI: "SP_STR \<le> t \<Longrightarrow> t \<le> SP_LUK \<Longrightarrow> t \<in> set stat_types"
  by (auto simp: stat_types_def SP_defs)

lemma stat_typesD: "t \<in> set stat_types \<Longrightarrow> \<not> (t < SP_STR \<or> t > SP_LUK)"
  by (auto simp: stat_types_def SP_defs)

lemma setstat_get:
  "t \<in> set stat_types \<Longrightarrow> 0 \<le> v \<Longrightarrow> v \<le> 65535
    \<Longrightarrow> pc_getstat (snd (pc_setstat p t v)) = (pc_getstat p)(t := v)"
  by (auto simp: stat_types_def SP_defs pc_setstat_def pc_getstat_def fun_eq_iff)

lemma setstat_frame:
  "class_id (snd (pc_setstat p t v)) = class_id p" "class_map (snd (pc_setstat p t v)) = class_map p"
  "pc_sex (snd (pc_setstat p t v)) = pc_sex p" "base_exp (snd (pc_setstat p t v)) = base_exp p"
  "job_exp (snd (pc_setstat p t v)) = job_exp p" "base_level (snd (pc_setstat p t v)) = base_level p"
  "job_level (snd (pc_setstat p t v)) = job_level p" "status_point (snd (pc_setstat p t v)) = status_point p"
  by (simp_all add: pc_setstat_def Let_def)

lemma spent_update:
  assumes "t \<in> set stat_types" "pc_getstat q = (pc_getstat p)(t := v)"
  shows "spent q = spent p + (cost_loop 1 v - cost_loop 1 (pc_getstat p t))"
  using assms by (auto simp: spent_def stat_types_def SP_defs)

lemma pc_maxparameter_short:
  assumes "lvconf_ok c"
  shows "pc_maxparameter c p t \<le> 32767"
proof -
  have "s16 x \<le> 32767" for x by (simp add: s16_def)
  then show ?thesis using assms by (simp add: pc_maxparameter_def lvconf_ok_def Let_def)
qed

lemma stats_okD:
  assumes "stats_ok p"
  shows "t \<in> set stat_types \<Longrightarrow> 1 \<le> pc_getstat p t" "t \<in> set stat_types \<Longrightarrow> pc_getstat p t \<le> 65535"
    "0 \<le> status_point p" "status_point p \<le> UINT_MAX"
  using assms by (auto simp: stats_ok_def list_all_iff u32_ok_def)

text \<open>Fields on which levels and jobs depend.\<close>

definition same_levels :: "pcs \<Rightarrow> pcs \<Rightarrow> bool" where
  "same_levels p q \<longleftrightarrow> class_id q = class_id p \<and> class_map q = class_map p \<and> base_exp q = base_exp p
     \<and> job_exp q = job_exp p \<and> base_level q = base_level p \<and> job_level q = job_level p"

lemma base_ok_eq:
  "class_id q = class_id p \<Longrightarrow> base_level q = base_level p \<Longrightarrow> base_exp q = base_exp p \<Longrightarrow> base_ok c q = base_ok c p"
  by (simp add: base_ok_def pc_maxbaselv_def job_of_def pc_is_maxbaselv_def pc_nextbaseexp_def)

lemma job_lv_ok_eq:
  "class_id q = class_id p \<Longrightarrow> job_level q = job_level p \<Longrightarrow> job_exp q = job_exp p \<Longrightarrow> job_lv_ok c q = job_lv_ok c p"
  by (simp add: job_lv_ok_def pc_maxjoblv_def job_of_def pc_is_maxjoblv_def pc_nextjobexp_def)

lemma same_levels_ok:
  "same_levels p q \<Longrightarrow> base_ok c q = base_ok c p" "same_levels p q \<Longrightarrow> job_lv_ok c q = job_lv_ok c p"
  using base_ok_eq [of q p c] job_lv_ok_eq [of q p c] by (simp_all add: same_levels_def)

lemma increase_reach:
  assumes "stats_ok p" "t \<in> set stat_types" "0 < n"
  shows "n \<le> pc_maxparameterincrease c p t \<longleftrightarrow> pc_getstat p t + n \<le> pc_maxparameter c p (t - SP_STR)
    \<and> cost_loop (pc_getstat p t) (pc_getstat p t + n) \<le> s32 (status_point p)"
proof -
  let ?v = "pc_getstat p t" and ?m = "pc_maxparameter c p (t - SP_STR)" and ?s = "s32 (status_point p)"
  have v: "1 \<le> ?v" using stats_okD(1) [OF assms(1,2)] .
  have k: "n \<le> pc_maxparameterincrease c p t \<longleftrightarrow> ?v + n \<le> increase_loop ?m ?v ?s - 1"
    using assms(3) by (auto simp: pc_maxparameterincrease_def Let_def)
  show ?thesis
  proof (cases "?v \<le> ?m + 1")
    case True
    then show ?thesis using k increase_loop_reach [OF v True assms(3)] by simp
  next
    case False
    then have "increase_loop ?m ?v ?s = ?v" by (simp add: increase_loop.simps [of ?m ?v ?s])
    then show ?thesis using k False assms(3) by simp
  qed
qed

lemma increase_nonneg: "0 \<le> pc_maxparameterincrease c p t"
  by (simp add: pc_maxparameterincrease_def Let_def)

lemma pc_statusup_up:
  assumes "lvconf_ok c" "stats_ok p" "t \<in> set stat_types" "0 < inc" "0 < pc_maxparameterincrease c p t"
  defines "d \<equiv> min inc (pc_maxparameterincrease c p t)" and "v \<equiv> pc_getstat p t"
  shows "fst (pc_statusup c p t inc)" "pc_getstat (snd (pc_statusup c p t inc)) = (pc_getstat p)(t := v + d)"
    "status_point (snd (pc_statusup c p t inc)) = status_point p - cost_loop v (v + d)"
    "same_levels p (snd (pc_statusup c p t inc))" "cost_loop v (v + d) \<le> status_point p" "0 < d"
    "v + d \<le> pc_maxparameter c p (t - SP_STR)"
proof -
  have d: "0 < d" "d \<le> pc_maxparameterincrease c p t" using assms(4,5) by (simp_all add: d_def)
  have r: "v + d \<le> pc_maxparameter c p (t - SP_STR)" "cost_loop v (v + d) \<le> s32 (status_point p)"
    using increase_reach [OF assms(2,3) d(1), of c] d(2) by (simp_all add: v_def)
  have v: "1 \<le> v" using stats_okD(1) [OF assms(2,3)] by (simp add: v_def)
  have n: "0 \<le> cost_loop v (v + d)" using cost_loop_nonneg [OF v] .
  have s: "s32 (status_point p) = status_point p"
  proof (cases "status_point p \<le> 2147483647")
    case True
    then show ?thesis using stats_okD(3) [OF assms(2)] by simp
  next
    case False
    then have "s32 (status_point p) = status_point p - 4294967296"
      using s32_high [of "status_point p"] stats_okD(4) [OF assms(2)] by (simp add: UINT_MAX_def)
    then show ?thesis using r(2) n stats_okD(4) [OF assms(2)] by (simp add: UINT_MAX_def)
  qed
  have c: "cap_value inc 0 (pc_maxparameterincrease c p t) = d"
    using assms(4,5) by (auto simp: cap_value_def d_def)
  have need: "pc_need_status_point c p t d = cost_loop v (v + d)"
    using d(1) r(1) by (simp add: pc_need_status_point_def Let_def v_def)
  have u: "u32 (cost_loop v (v + d)) = cost_loop v (v + d)"
    using n r(2) s stats_okD(4) [OF assms(2)] by (simp add: UINT_MAX_def)
  let ?q = "(snd (pc_setstat p t (v + d)))\<lparr>status_point := u32 (status_point p - cost_loop v (v + d))\<rparr>"
  have up: "pc_statusup c p t inc = (True, status_calc_pc c ?q)"
    using stat_typesD [OF assms(3)] assms(4) d(1) r n u s
    by (simp add: pc_statusup_def Let_def c need setstat_frame(8) v_def [symmetric])
  have w: "v + d \<le> 65535" using r(1) pc_maxparameter_short [OF assms(1), of p "t - SP_STR"] by simp
  have g: "pc_getstat ?q = (pc_getstat p)(t := v + d)"
    using setstat_get [OF assms(3), of "v + d" p] v d(1) w by simp
  have sp: "status_point ?q = status_point p - cost_loop v (v + d)"
    using n r(2) s stats_okD(4) [OF assms(2)] by (simp add: UINT_MAX_def)
  have h: "lv_same ?q (status_calc_pc c ?q)" using lvconf_okD(2) [OF assms(1)] .
  show "fst (pc_statusup c p t inc)" by (simp add: up)
  show "pc_getstat (snd (pc_statusup c p t inc)) = (pc_getstat p)(t := v + d)"
    using lv_sameD(10) [OF h] g by (simp add: up)
  show "status_point (snd (pc_statusup c p t inc)) = status_point p - cost_loop v (v + d)"
    using lv_sameD(8) [OF h] sp by (simp add: up)
  show "same_levels p (snd (pc_statusup c p t inc))"
    using lv_sameD [OF h] by (simp add: up same_levels_def setstat_frame)
  show "cost_loop v (v + d) \<le> status_point p" "0 < d" "v + d \<le> pc_maxparameter c p (t - SP_STR)"
    using r s d(1) by simp_all
qed

lemma pc_statusup_refused:
  "t \<notin> set stat_types \<or> inc \<le> 0 \<or> pc_maxparameterincrease c p t = 0 \<Longrightarrow> pc_statusup c p t inc = (False, p)"
proof -
  have "t \<notin> set stat_types \<Longrightarrow> t < SP_STR \<or> SP_LUK < t" using stat_typesI [of t] by linarith
  moreover assume "t \<notin> set stat_types \<or> inc \<le> 0 \<or> pc_maxparameterincrease c p t = 0"
  ultimately show ?thesis by (auto simp: pc_statusup_def cap_value_def Let_def)
qed

lemma pc_statusup_keeps:
  assumes "lvconf_ok c" "stats_ok p"
  shows "same_levels p (snd (pc_statusup c p t inc)) \<and> stats_ok (snd (pc_statusup c p t inc))
    \<and> credit c (snd (pc_statusup c p t inc)) = credit c p"
proof (cases "t \<in> set stat_types \<and> 0 < inc \<and> 0 < pc_maxparameterincrease c p t")
  case False
  then have "pc_statusup c p t inc = (False, p)"
    using pc_statusup_refused [of t inc c p] increase_nonneg [of c p t] by force
  then show ?thesis using assms(2) by (simp add: same_levels_def)
next
  case True
  let ?q = "snd (pc_statusup c p t inc)" and ?v = "pc_getstat p t"
  let ?d = "min inc (pc_maxparameterincrease c p t)"
  note U = pc_statusup_up [OF assms, of t inc]
  have v: "1 \<le> ?v" using stats_okD(1) [OF assms(2)] True by blast
  have n: "0 \<le> cost_loop ?v (?v + ?d)" using cost_loop_nonneg [OF v] .
  have w: "?v + ?d \<le> 65535" using U(7) True pc_maxparameter_short [OF assms(1), of p "t - SP_STR"] by simp
  have sp: "spent ?q = spent p + cost_loop ?v (?v + ?d)"
    using spent_update [of t ?q p "?v + ?d"] U(2,6) True v cost_loop_add [of 1 ?v "?v + ?d"] by simp
  have "0 < ?d" using U(6) True by blast
  then have "1 \<le> ?v + ?d" using v by linarith
  then have "stats_ok ?q"
    using U(2,3,5,6) True w n stats_okD [OF assms(2)]
    by (auto simp: stats_ok_def list_all_iff u32_ok_def)
  moreover have "base_level ?q = base_level p" using U(4) True by (simp add: same_levels_def)
  ultimately show ?thesis using U(3,4) True sp by (simp add: credit_def)
qed


lemma need_to_reset:
  assumes "stats_ok p" "t \<in> set stat_types"
  shows "pc_need_status_point c p t (1 - pc_getstat p t) = cost_loop 1 (pc_getstat p t)"
  using stats_okD(1) [OF assms] by (auto simp: pc_need_status_point_def Let_def)

lemma set_stats_get: "t \<in> set stat_types \<Longrightarrow> pc_getstat (set_stats p 1) t = 1"
  by (auto simp: set_stats_def stat_types_def SP_defs pc_setstat_def pc_getstat_def)

lemma set_stats_frame:
  "same_levels p (set_stats p v)" "status_point (set_stats p v) = status_point p"
  by (simp_all add: set_stats_def same_levels_def setstat_frame)

lemma pc_resetstate_up:
  assumes "lvconf_ok c" "stats_ok p"
    and "use_statpoint_table c \<longrightarrow> base_level p \<le> MAX_LEVEL
      \<and> credit c p = (if class_map p AND JOBL_UPPER \<noteq> 0 then 52 else 0)"
  shows "t \<in> set stat_types \<Longrightarrow> pc_getstat (snd (pc_resetstate c p)) t = 1"
    and "status_point (snd (pc_resetstate c p)) = u32 (status_point p + spent p)"
    and "same_levels p (snd (pc_resetstate c p))"
proof -
  define p1 where "p1 = (if use_statpoint_table c
      then p\<lparr>status_point := u32 (statp c ! nat (base_level p) + (if class_map p AND JOBL_UPPER \<noteq> 0 then 52 else 0))\<rparr>
      else p\<lparr>status_point := u32 (status_point p + sum_list
         (map (\<lambda>t. pc_need_status_point c p t (1 - pc_getstat p t)) [SP_STR, SP_AGI, SP_VIT, SP_INT, SP_DEX, SP_LUK]))\<rparr>)"
  define p2 where "p2 = set_stats p1 1"
  define p3 where "p3 = (if mission_mobid p2 \<noteq> 0
      then p2\<lparr>mission_mobid := 0, mission_count := 0, tk_mission_id := 0\<rparr> else p2)"
  have r: "snd (pc_resetstate c p) = status_calc_pc c p3"
    using assms(3) by (auto simp: pc_resetstate_def Let_def p1_def p2_def p3_def)
  have h: "lv_same p3 (status_calc_pc c p3)" using lvconf_okD(2) [OF assms(1)] .
  have sum: "sum_list (map (\<lambda>t. pc_need_status_point c p t (1 - pc_getstat p t)) [SP_STR, SP_AGI, SP_VIT, SP_INT, SP_DEX, SP_LUK])
      = spent p"
    unfolding spent_def stat_types_def [symmetric]
    by (rule arg_cong [of _ _ sum_list], rule map_cong) (use need_to_reset [OF assms(2)] in auto)
  have "status_point p1 = u32 (status_point p + spent p)"
  proof (cases "use_statpoint_table c")
    case True
    define a where "a = status_point p + spent p"
    define b where "b = statp c ! nat (base_level p)"
    have "u32 (a - b) = (if class_map p AND JOBL_UPPER \<noteq> 0 then 52 else 0)"
      using True assms(3) by (simp add: credit_def granted_def a_def b_def)
    then have "u32 (b + (if class_map p AND JOBL_UPPER \<noteq> 0 then 52 else 0)) = u32 (b + u32 (a - b))" by simp
    also have "\<dots> = u32 a" by (simp add: u32_u32_add)
    finally show ?thesis using True by (simp add: p1_def a_def b_def)
  next
    case False
    then show ?thesis by (simp only: p1_def sum if_False) simp
  qed
  moreover have "same_levels p p1" by (simp add: p1_def same_levels_def)
  ultimately have p3: "pc_getstat p3 = pc_getstat p2" "same_levels p p3" "status_point p3 = u32 (status_point p + spent p)"
    using set_stats_frame [of p1 1] by (simp_all add: p3_def p2_def same_levels_def)
  show "t \<in> set stat_types \<Longrightarrow> pc_getstat (snd (pc_resetstate c p)) t = 1"
    using set_stats_get [of t p1] lv_sameD(10) [OF h] p3(1) by (simp add: r p2_def)
  show "status_point (snd (pc_resetstate c p)) = u32 (status_point p + spent p)"
    using lv_sameD(8) [OF h] p3(3) by (simp add: r)
  show "same_levels p (snd (pc_resetstate c p))"
    using lv_sameD [OF h] p3(2) by (simp add: r same_levels_def)
qed

lemma spent_ones:
  assumes "\<And>t. t \<in> set stat_types \<Longrightarrow> pc_getstat q t = 1"
  shows "spent q = 0"
proof -
  have m: "map (\<lambda>t. cost_loop 1 (pc_getstat q t)) stat_types = map (\<lambda>t. 0) stat_types"
    by (rule map_cong) (simp_all add: assms)
  show ?thesis unfolding spent_def m by simp
qed

section \<open>Runs\<close>

definition lv_ok :: "lvconf \<Rightarrow> pcs \<Rightarrow> bool" where
  "lv_ok c p \<longleftrightarrow> base_ok c p \<and> job_lv_ok c p \<and> stats_ok p"

datatype lv_act = Gain "guild option" "expsrc option" int int nat | Lose int int | Raise int int | Reset

fun lv_step :: "env \<Rightarrow> lvconf \<Rightarrow> lv_act \<Rightarrow> expcache \<times> pcs \<Rightarrow> expcache \<times> pcs" where
  "lv_step e c (Gain g src b j flag) (cache, p) = pc_gainexp e c g src (b, j) flag cache p"
| "lv_step e c (Lose b j) (cache, p) = (cache, pc_lostexp b j p)"
| "lv_step e c (Raise t inc) (cache, p) = (cache, snd (pc_statusup c p t inc))"
| "lv_step e c Reset (cache, p) = (cache, snd (pc_resetstate c p))"

fun lv_act_ok :: "lv_act \<Rightarrow> bool" where
  "lv_act_ok (Gain g src b j flag) \<longleftrightarrow> 0 \<le> b \<and> 0 \<le> j"
| "lv_act_ok (Lose b j) \<longleftrightarrow> 0 \<le> b \<and> 0 \<le> j"
| "lv_act_ok _ \<longleftrightarrow> True"

lemma scale_exp_nonneg: "0 \<le> scale_exp c bonus x"
  by (simp add: scale_exp_def cap_value_def UINT_MAX_def)

lemma max_gain_nonneg: "0 \<le> x \<Longrightarrow> 0 \<le> max_gain b l old x"
  by (simp add: max_gain_def)

lemma rate_gain_nonneg: "0 \<le> x \<Longrightarrow> 0 \<le> rate_gain c n x"
  using u32_range by (simp add: rate_gain_def)

lemma exp_gains_nonneg:
  assumes "0 \<le> b" "0 \<le> j" "exp_gains c g src flag p (b, j) cache = ((b', j'), cache')"
  shows "0 \<le> b'" "0 \<le> j'"
  using assms u32_range(1)
  by (auto simp: exp_gains_def pc_calcexp_def Let_def scale_exp_nonneg max_gain_nonneg rate_gain_nonneg
      split: if_splits prod.splits)

lemma add_exp_ok: "u32_ok x \<Longrightarrow> 0 \<le> b \<Longrightarrow> u32_ok (add_exp x b)"
  by (auto simp: add_exp_def u32_ok_def UINT_MAX_def)


text \<open>What a gain keeps: classes, stats and the credit; the levels do not fall.\<close>

definition gained :: "lvconf \<Rightarrow> pcs \<Rightarrow> pcs \<Rightarrow> bool" where
  "gained c p q \<longleftrightarrow> lv_ok c q \<and> credit c q = credit c p \<and> class_map q = class_map p
     \<and> base_level p \<le> base_level q \<and> job_level p \<le> job_level q"

lemma gained_refl: "lv_ok c p \<Longrightarrow> gained c p p"
  by (simp add: gained_def)

lemma raised_keeps:
  "raised c p q \<Longrightarrow> job_lv_ok c q = job_lv_ok c p" "raised c p q \<Longrightarrow> stats_ok p \<Longrightarrow> stats_ok q"
  by (auto simp: raised_def job_lv_ok_def pc_is_maxjoblv_def pc_maxjoblv_def pc_nextjobexp_def job_of_def stats_ok_def)

lemma job_raised_keeps:
  "job_raised c p q \<Longrightarrow> base_ok c q = base_ok c p" "job_raised c p q \<Longrightarrow> stats_ok q = stats_ok p"
  "job_raised c p q \<Longrightarrow> credit c q = credit c p"
  by (auto simp: job_raised_def base_ok_def pc_is_maxbaselv_def pc_maxbaselv_def pc_nextbaseexp_def job_of_def stats_ok_def
      credit_def spent_def)

lemma give_base_gained:
  assumes "lvconf_ok c" "lv_ok c p" "0 \<le> b"
  shows "gained c p (give_base e c b p)"
proof (cases "b = 0")
  case True
  then show ?thesis using assms(2) by (simp add: give_base_def gained_refl)
next
  case False
  let ?p = "p\<lparr>base_exp := add_exp (base_exp p) b\<rparr>"
  have j: "job_lv_ok c ?p" "stats_ok ?p" "credit c ?p = credit c p"
    using assms(2) job_lv_ok_eq [of ?p p c] by (simp_all add: lv_ok_def stats_ok_def credit_def spent_def)
  have b: "1 \<le> base_level ?p" "base_level ?p \<le> pc_maxbaselv c ?p" "u32_ok (base_exp ?p)"
    using assms(2,3) by (simp_all add: lv_ok_def base_ok_def pc_maxbaselv_def job_of_def add_exp_ok)
  from pc_checkbaselevelup_cases [OF assms(1) b, of e] show ?thesis
  proof (elim disjE conjE)
    assume "base_ok c ?p" "pc_checkbaselevelup e c ?p = (0, ?p)"
    then show ?thesis using j False by (simp add: give_base_def gained_def lv_ok_def)
  next
    assume R: "raised c ?p (snd (pc_checkbaselevelup e c ?p))" "base_ok c (snd (pc_checkbaselevelup e c ?p))"
    have "credit c (snd (pc_checkbaselevelup e c ?p)) = credit c p" using R(1) j(3) by (simp add: raised_def)
    then show ?thesis using raised_keeps [OF R(1)] j R False
      by (simp add: give_base_def gained_def lv_ok_def raised_def)
  qed
qed

lemma give_job_gained:
  assumes "lvconf_ok c" "lv_ok c p" "0 \<le> j"
  shows "gained c p (give_job c j p)"
proof (cases "j = 0")
  case True
  then show ?thesis using assms(2) by (simp add: give_job_def gained_refl)
next
  case False
  let ?p = "p\<lparr>job_exp := add_exp (job_exp p) j\<rparr>"
  have k: "base_ok c ?p" "stats_ok ?p" "credit c ?p = credit c p"
    using assms(2) base_ok_eq [of ?p p c] by (simp_all add: lv_ok_def stats_ok_def credit_def spent_def)
  have b: "1 \<le> job_level ?p" "job_level ?p \<le> pc_maxjoblv c ?p" "u32_ok (job_exp ?p)"
    using assms(2,3) by (simp_all add: lv_ok_def job_lv_ok_def pc_maxjoblv_def job_of_def add_exp_ok)
  from pc_checkjoblevelup_cases [OF assms(1) b] show ?thesis
  proof (elim disjE conjE)
    assume "job_lv_ok c ?p" "pc_checkjoblevelup c ?p = (0, ?p)"
    then show ?thesis using k False by (simp add: give_job_def gained_def lv_ok_def)
  next
    assume R: "job_raised c ?p (snd (pc_checkjoblevelup c ?p))" "job_lv_ok c (snd (pc_checkjoblevelup c ?p))"
    then show ?thesis using job_raised_keeps [OF R(1)] k False
      by (simp add: give_job_def gained_def lv_ok_def job_raised_def)
  qed
qed

lemma gained_trans: "gained c p q \<Longrightarrow> gained c q r \<Longrightarrow> gained c p r"
  by (simp add: gained_def)

lemma pc_gainexp_gained:
  assumes "lvconf_ok c" "lv_ok c p" "0 \<le> b" "0 \<le> j"
  shows "gained c p (snd (pc_gainexp e c g src (b, j) flag cache p))"
proof -
  obtain b' j' cache' where x: "exp_gains c g src flag p (b, j) cache = ((b', j'), cache')" by (metis prod.exhaust)
  note n = exp_gains_nonneg [OF assms(3,4) x]
  have 1: "gained c p (give_base e c b' p)" by (rule give_base_gained [OF assms(1,2) n(1)])
  have 2: "gained c (give_base e c b' p) (give_job c j' (give_base e c b' p))"
    by (rule give_job_gained [OF assms(1) _ n(2)]) (use 1 in \<open>simp add: gained_def\<close>)
  show ?thesis
    using gained_refl [OF assms(2)] gained_trans [OF 1 2] by (simp add: pc_gainexp_def x)
qed

lemma lv_step_keeps:
  assumes "lvconf_ok c" "lv_ok c p" "lv_act_ok a" "lv_step e c a (cache, p) = (cache', q)"
    and "use_statpoint_table c \<longrightarrow> credit c p = (if class_map p AND JOBL_UPPER \<noteq> 0 then 52 else 0)"
  shows "lv_ok c q \<and> credit c q = credit c p \<and> class_map q = class_map p"
proof (cases a)
  case (Gain g src b j flag)
  then show ?thesis using pc_gainexp_gained [OF assms(1,2), of b j e g src flag cache] assms(3,4)
    by (simp add: gained_def)
next
  case (Lose b j)
  then have q: "q = pc_lostexp b j p" and n: "0 \<le> b" "0 \<le> j" using assms(3,4) by simp_all
  have s: "base_level q = base_level p" "job_level q = job_level p" "class_id q = class_id p" "class_map q = class_map p"
    "pc_getstat q = pc_getstat p" "status_point q = status_point p" "base_exp q = base_exp p - min (base_exp p) b"
    "job_exp q = job_exp p - min (job_exp p) j"
    by (simp_all add: q pc_lostexp_def)
  have "base_ok c q" "job_lv_ok c q" using assms(2) n
    by (auto simp: lv_ok_def base_ok_def job_lv_ok_def u32_ok_def s pc_is_maxbaselv_def pc_is_maxjoblv_def pc_maxbaselv_def
        pc_maxjoblv_def pc_nextbaseexp_def pc_nextjobexp_def job_of_def)
  then show ?thesis using assms(2) s by (simp add: lv_ok_def stats_ok_def credit_def spent_def)
next
  case (Raise t inc)
  then have q: "q = snd (pc_statusup c p t inc)" using assms(4) by simp
  have "stats_ok p" using assms(2) by (simp add: lv_ok_def)
  from pc_statusup_keeps [OF assms(1) this, of t inc] show ?thesis
    using assms(2) same_levels_ok [of p q c] by (simp add: q lv_ok_def same_levels_def)
next
  case Reset
  then have q: "q = snd (pc_resetstate c p)" using assms(4) by simp
  have st: "stats_ok p" and b: "base_ok c p" using assms(2) by (simp_all add: lv_ok_def)
  have "job_ok (job_of c p)" using lvconf_okD(1) [OF assms(1)] by (simp add: job_of_def)
  then have "base_level p \<le> MAX_LEVEL" using b by (simp add: base_ok_def job_ok_def pc_maxbaselv_def)
  then have R: "\<And>t. t \<in> set stat_types \<Longrightarrow> pc_getstat q t = 1" "status_point q = u32 (status_point p + spent p)"
    "same_levels p q" using pc_resetstate_up [OF assms(1) st] assms(5) by (simp_all add: q)
  have "stats_ok q" using R(1,2) by (simp add: stats_ok_def list_all_iff u32_okI)
  moreover have "credit c q = credit c p"
  proof -
    have "u32 (u32 x - y) = u32 (x - y)" for x y by (rule u32_u32_diff)
    then show ?thesis using R(2,3) spent_ones [OF R(1)] by (simp add: credit_def same_levels_def)
  qed
  ultimately show ?thesis using same_levels_ok [OF R(3), of c] assms(2) R(3) by (simp add: lv_ok_def same_levels_def)
qed


section \<open>Samples\<close>

definition sample_job :: s_job_info where
  "sample_job = \<lparr>exp_table_base = [10, 20], exp_table_job = [10, 20], max_level_base = 3, max_level_job = 3,
     max_param = replicate 6 0\<rparr>"

definition sample_lvconf :: lvconf where
  "sample_lvconf = \<lparr>job_info = (\<lambda>i. sample_job), statp = [], use_statpoint_table = False, multi_level_up = True,
     pvp_exp = True, pk_mode = False, max_exp_gain_rate = 0, max_parameter = 99, max_baby_parameter = 80,
     max_trans_parameter = 99, max_third_parameter = 135, max_baby_third_parameter = 108,
     max_third_trans_parameter = 135, max_extended_parameter = 125, max_summoner_parameter = 120,
     fl64 = (\<lambda>x. x), fl32 = (\<lambda>x. x), status_calc_pc = (\<lambda>p. p), base_level_event = (\<lambda>p. p),
     job_level_event = (\<lambda>p. p)\<rparr>"

definition sample_pc :: "int \<Rightarrow> int \<Rightarrow> pcs" where
  "sample_pc level x = \<lparr>body = sample_player 1 0, class_id = 0, class_map = 0, pc_sex = 1, base_exp = x, job_exp = 0,
     base_level = level, job_level = 1, status_point = 5, skill_point = 0, st_str = 1, st_agi = 1, st_vit = 1,
     st_int = 1, st_dex = 1, st_luk = 1, pc_dead = False, on_map = True, expaddrace = [], expaddclass = [],
     sc_expboost = None, sc_jexpboost = None, mission_mobid = 0, mission_count = 0, tk_mission_id = 0\<rparr>"

lemma sample_lvconf_ok: "lvconf_ok sample_lvconf"
proof -
  have "job_ok sample_job"
    by (auto simp: job_ok_def sample_job_def MAX_LEVEL_def nth_Cons split: nat.splits)
  then show ?thesis by (simp add: lvconf_ok_def sample_lvconf_def lv_same_def)
qed

lemma sample_stats_ok: "stats_ok (sample_pc level x)"
  by (simp add: stats_ok_def stat_types_def pc_getstat_def sample_pc_def u32_ok_def UINT_MAX_def)

lemmas sample_lv_simps = sample_pc_def sample_lvconf_def sample_job_def pc_maxbaselv_def pc_maxjoblv_def job_of_def
  pc_is_maxbaselv_def pc_is_maxjoblv_def pc_nextbaseexp_def pc_nextjobexp_def u32_ok_def UINT_MAX_def

lemma sample_base_ok: "0 \<le> x \<Longrightarrow> x < 10 \<Longrightarrow> base_ok sample_lvconf (sample_pc 1 x)"
  by (simp add: base_ok_def sample_lv_simps)

lemma sample_job_lv_ok: "job_lv_ok sample_lvconf (sample_pc level x)"
  by (simp add: job_lv_ok_def sample_lv_simps)

section \<open>Properties\<close>

text \<open>
  C38. The economy of status points: whatever a player gains, loses, raises and
  resets, his levels, experience and stats stay well formed, no level-up is left pending,
  and the points he has together with those his stats cost are what his level grants plus
  a constant. A reset gives exactly the spent points back, also when the points
  come from the table of levels.
\<close>

theorem status_points_conserved:
  assumes "lvconf_ok c" "lv_ok c p" "list_all lv_act_ok acts"
    and "use_statpoint_table c \<longrightarrow> credit c p = (if class_map p AND JOBL_UPPER \<noteq> 0 then 52 else 0)"
    and "fold (lv_step e c) acts (cache, p) = (cache', q)"
  shows "lv_ok c q \<and> credit c q = credit c p
    \<and> status_point (snd (pc_resetstate c q)) = u32 (status_point q + spent q)"
proof -
  have "lv_ok c q \<and> credit c q = credit c p \<and> class_map q = class_map p"
    using assms(2-5)
  proof (induction acts arbitrary: cache p)
    case Nil
    then show ?case by simp
  next
    case (Cons a acts)
    obtain cache1 p1 where st: "lv_step e c a (cache, p) = (cache1, p1)" by (metis prod.exhaust)
    have "lv_ok c p1 \<and> credit c p1 = credit c p \<and> class_map p1 = class_map p"
      by (rule lv_step_keeps [OF assms(1) Cons.prems(1) _ st Cons.prems(3)]) (use Cons.prems(2) in simp)
    then show ?case using Cons.IH [of p1 cache1] Cons.prems(2,3,4) st by simp
  qed
  moreover from this have "base_level q \<le> MAX_LEVEL" "stats_ok q"
    using lvconf_okD(1) [OF assms(1), of "pc_class2idx (class_id q)"]
    by (simp_all add: lv_ok_def base_ok_def job_ok_def pc_maxbaselv_def job_of_def)
  ultimately show ?thesis using pc_resetstate_up(2) [OF assms(1), of q] assms(4) by simp
qed

theorem status_points_conserved_witness:
  "\<exists>q. snd (fold (lv_step sample_env sample_lvconf) [Gain None None 25 7 2, Raise SP_STR 2, Reset] (\<lambda>i. None, sample_pc 1 0)) = q
    \<and> lv_ok sample_lvconf q \<and> credit sample_lvconf q = 2"
proof -
  let ?acts = "[Gain None None 25 7 2, Raise SP_STR 2, Reset]"
  obtain cache q where f: "fold (lv_step sample_env sample_lvconf) ?acts (\<lambda>i. None, sample_pc 1 0) = (cache, q)"
    by (metis prod.exhaust)
  have ok: "lv_ok sample_lvconf (sample_pc 1 0)"
    by (simp add: lv_ok_def sample_base_ok sample_job_lv_ok sample_stats_ok)
  have "credit sample_lvconf (sample_pc 1 0) = 2"
    by (simp add: credit_def spent_def stat_types_def pc_getstat_def granted_def sample_lv_simps upto_rec1)
  then show ?thesis
    using status_points_conserved [OF sample_lvconf_ok ok _ _ f] f by (simp add: sample_lvconf_def)
qed

text \<open>
  C39. A level-up that is due takes place, and the loop ends: the check answers 1
  exactly when the player has the experience for the next level, and leaves a level of his class
  whose next one he cannot reach, without touching job, stats or credit. The experience
  collected since level 1 never grows; it is the same when the setting \<open>multi_level_up\<close> is
  on and the level reached is not the last. Otherwise some of it may be lost: without that setting
  a level-up keeps at most one less than the experience of the level just left, and
  at the last level at most MAX\_LEVEL\_BASE\_EXP.
\<close>

theorem level_up_settles:
  assumes "lvconf_ok c" "1 \<le> base_level p" "base_level p \<le> pc_maxbaselv c p" "u32_ok (base_exp p)"
    and "pc_checkbaselevelup e c p = (r, q)"
  shows "base_ok c q \<and> (r = 1 \<longleftrightarrow> \<not> base_ok c p) \<and> (r = 1 \<longleftrightarrow> base_level p < base_level q)
    \<and> job_level q = job_level p \<and> pc_getstat q = pc_getstat p \<and> credit c q = credit c p
    \<and> exp_total c q \<le> exp_total c p
    \<and> (multi_level_up c \<and> base_level q < pc_maxbaselv c p \<longrightarrow> exp_total c q = exp_total c p)"
  using pc_checkbaselevelup_cases [OF assms(1-4), of e] assms(5) by (auto simp: raised_def)

theorem level_up_settles_witness:
  "exp_total sample_lvconf (snd (pc_checkbaselevelup sample_env sample_lvconf (sample_pc 1 15))) = 15
   \<and> base_level (snd (pc_checkbaselevelup sample_env sample_lvconf (sample_pc 1 15))) = 2"
proof -
  let ?p = "sample_pc 1 15"
  have q: "base_level (snd (pc_checkbaselevelup sample_env sample_lvconf ?p)) = 2"
    by (simp add: pc_checkbaselevelup_def base_loop.simps base_step_def Let_def sample_lv_simps pc_gets_status_point_def)
  have t: "exp_total sample_lvconf ?p = 15" by (simp add: exp_total_def sample_lv_simps)
  have "1 \<le> base_level ?p" "base_level ?p \<le> pc_maxbaselv sample_lvconf ?p" "u32_ok (base_exp ?p)"
    "multi_level_up sample_lvconf" "2 < pc_maxbaselv sample_lvconf ?p"
    by (simp_all add: sample_lv_simps)
  then show ?thesis
    using level_up_settles [OF sample_lvconf_ok, of ?p sample_env
      "fst (pc_checkbaselevelup sample_env sample_lvconf ?p)" "snd (pc_checkbaselevelup sample_env sample_lvconf ?p)"] q t
    by simp
qed

text \<open>
  Raising a stat: \<open>pc_maxparameterincrease\<close> is the largest increase that the class's
  limit and the points allow, and \<open>pc_statusup\<close> raises the stat by what was asked for or by that
  largest increase, takes exactly the cost, touches no other stat, and refuses
  only when nothing is possible.
\<close>

theorem pc_statusup_best:
  assumes "lvconf_ok c" "stats_ok p" "t \<in> set stat_types" "0 < inc"
  defines "k \<equiv> pc_maxparameterincrease c p t" and "v \<equiv> pc_getstat p t"
  shows "(\<forall>n > 0. n \<le> k \<longleftrightarrow> v + n \<le> pc_maxparameter c p (t - SP_STR) \<and> cost_loop v (v + n) \<le> s32 (status_point p))
    \<and> (fst (pc_statusup c p t inc) \<longleftrightarrow> 0 < k)
    \<and> pc_getstat (snd (pc_statusup c p t inc)) = (pc_getstat p)(t := v + min inc k)
    \<and> status_point (snd (pc_statusup c p t inc)) = status_point p - cost_loop v (v + min inc k)
    \<and> 0 \<le> status_point (snd (pc_statusup c p t inc))"
proof (intro conjI allI impI)
  show "n \<le> k \<longleftrightarrow> v + n \<le> pc_maxparameter c p (t - SP_STR) \<and> cost_loop v (v + n) \<le> s32 (status_point p)" if "0 < n" for n
    unfolding k_def v_def by (rule increase_reach [OF assms(2,3) that])
  have R: "(fst (pc_statusup c p t inc) \<longleftrightarrow> 0 < k)
    \<and> pc_getstat (snd (pc_statusup c p t inc)) = (pc_getstat p)(t := v + min inc k)
    \<and> status_point (snd (pc_statusup c p t inc)) = status_point p - cost_loop v (v + min inc k)
    \<and> 0 \<le> status_point (snd (pc_statusup c p t inc))"
  proof (cases "k = 0")
    case True
    then have "pc_statusup c p t inc = (False, p)" using pc_statusup_refused by (simp add: k_def)
    then show ?thesis using True assms(4) stats_okD(3) [OF assms(2)] by (simp add: v_def)
  next
    case False
    then have k: "0 < pc_maxparameterincrease c p t" using increase_nonneg [of c p t] by (simp add: k_def)
    note U = pc_statusup_up [OF assms(1-4) k]
    show ?thesis unfolding k_def v_def using k U(1,2,3,5) by simp
  qed
  then show "fst (pc_statusup c p t inc) \<longleftrightarrow> 0 < k"
    "pc_getstat (snd (pc_statusup c p t inc)) = (pc_getstat p)(t := v + min inc k)"
    "status_point (snd (pc_statusup c p t inc)) = status_point p - cost_loop v (v + min inc k)"
    "0 \<le> status_point (snd (pc_statusup c p t inc))" by simp_all
qed

theorem pc_statusup_best_witness:
  "pc_getstat (snd (pc_statusup sample_lvconf (sample_pc 1 0) SP_AGI 7)) SP_AGI = 3"
proof -
  have k: "pc_maxparameterincrease sample_lvconf (sample_pc 1 0) SP_AGI = 2"
    by (simp add: pc_maxparameterincrease_def pc_getstat_def SP_defs pc_maxparameter_def Let_def increase_loop.simps
        PC_STATUS_POINT_COST_def sample_pc_def sample_lvconf_def sample_job_def pc_mapid2jobid_def mapid_cases_def
        pc_class2idx_def JOB_NOVICE_HIGH_def s16_def MAPID_SUMMONER_def MAPID_KAGEROUOBORO_def MAPID_REBELLION_def)
  have "pc_getstat (sample_pc 1 0) SP_AGI = 1" by (simp add: pc_getstat_def sample_pc_def SP_defs)
  then show ?thesis
    using pc_statusup_best [OF sample_lvconf_ok sample_stats_ok, of SP_AGI 7 1 0] k by (simp add: stat_types_def)
qed

text \<open>
  C40. The experience of a player on the last level is meant to stop at the
  limit \<open>MAX_LEVEL_BASE_EXP\<close>. The test adds in 32 bits: a gain that overflows the
  sum passes it, and the experience becomes the largest number instead.
\<close>

theorem pc_gainexp_overshoots:
  assumes "on_map p" "\<not> pc_dead p" "pc_is_maxbaselv c p" "u32_ok (base_exp p)" "u32_ok (job_exp p)"
    and "base_exp p < MAX_LEVEL_BASE_EXP" "u32_ok b" "UINT_MAX < base_exp p + b"
  shows "base_exp (snd (pc_gainexp e c g src (b, 0) 2 cache p)) = UINT_MAX"
proof -
  have u: "u32 (base_exp p + b) = base_exp p + b - 4294967296"
  proof -
    have "(base_exp p + b - 4294967296 + 4294967296) mod 4294967296 = base_exp p + b - 4294967296"
      unfolding mod_add_self2
      by (rule mod_pos_pos_trivial) (use assms(4,6-8) in \<open>simp_all add: u32_ok_def UINT_MAX_def MAX_LEVEL_BASE_EXP_def\<close>)
    then show ?thesis by (simp add: u32_def)
  qed
  have "max_gain True MAX_LEVEL_BASE_EXP (base_exp p) b = b"
    using assms(6,7) u by (simp add: max_gain_def u32_ok_def UINT_MAX_def)
  moreover have "max_gain x MAX_LEVEL_JOB_EXP (job_exp p) 0 = 0" for x
    using assms(5) by (simp add: max_gain_def u32_ok_def UINT_MAX_def)
  moreover have "u32 b = b" using assms(7) by (simp add: u32_ok_def UINT_MAX_def)
  ultimately have g: "exp_gains c g src 2 p (b, 0) cache = ((b, 0), cache)"
    using assms(3) by (simp add: exp_gains_def bit_0)
  let ?p = "p\<lparr>base_exp := UINT_MAX\<rparr>"
  have "b \<noteq> 0" using assms(4,8) by (auto simp: u32_ok_def)
  moreover have "pc_checkbaselevelup e c ?p = (0, ?p)"
    using assms(3) by (simp add: pc_checkbaselevelup_def Let_def pc_is_maxbaselv_def pc_maxbaselv_def job_of_def)
  ultimately have "give_base e c b p = ?p" using assms(8) by (simp add: give_base_def add_exp_def)
  then show ?thesis using assms(1,2) g by (simp add: pc_gainexp_def give_job_def bit_0)
qed

theorem pc_gainexp_overshoots_witness:
  "base_exp (snd (pc_gainexp sample_env sample_lvconf None None (4294967295, 0) 2 (\<lambda>i. None) (sample_pc 3 1))) = 4294967295"
  using pc_gainexp_overshoots [of "sample_pc 3 1" sample_lvconf 4294967295 sample_env None None "\<lambda>i. None"]
  by (simp add: sample_lv_simps MAX_LEVEL_BASE_EXP_def)

text \<open>The tax of a guild is computed in 32 bits as well: 90 percent of 50 million are 2 million.\<close>

lemma guild_payexp_overflows:
  assumes "guild_id s \<noteq> 0" "0 \<le> guild_getposition (Some g) s" "g_exp_mode g ! nat (guild_getposition (Some g) s) = 90"
  shows "fst (guild_payexp (Some g) s cache 50000000) = 2050327"
  using assms by (simp add: guild_payexp_def Let_def u32_def)

end
