(* ===== verification/Rbtree.thy ===== *)
theory Rbtree
  imports Prelude
begin

text \<open>
  The red-black trees of common/db.cpp: nodes with parent pointers in a store, the two
  rotations, \<open>db_rebalance\<close> after an insertion and \<open>db_rebalance_erase\<close>. The null pointer
  is address 0. The lemmas relate the store to a tree of addresses and show that every
  operation keeps the order of the nodes and the balance.
\<close>

section \<open>Nodes and store\<close>

datatype node_color = RED | BLACK

record ('k, 'd) dbn =
  n_parent :: nat
  n_left :: nat
  n_right :: nat
  n_key :: 'k
  n_data :: 'd
  n_color :: node_color
  n_deleted :: bool

type_synonym ('k, 'd) store = "nat \<Rightarrow> ('k, 'd) dbn"

definition set_parent :: "nat \<Rightarrow> nat \<Rightarrow> ('k, 'd) store \<Rightarrow> ('k, 'd) store" where
  "set_parent a v h = h(a := (h a)\<lparr>n_parent := v\<rparr>)"

definition set_left :: "nat \<Rightarrow> nat \<Rightarrow> ('k, 'd) store \<Rightarrow> ('k, 'd) store" where
  "set_left a v h = h(a := (h a)\<lparr>n_left := v\<rparr>)"

definition set_right :: "nat \<Rightarrow> nat \<Rightarrow> ('k, 'd) store \<Rightarrow> ('k, 'd) store" where
  "set_right a v h = h(a := (h a)\<lparr>n_right := v\<rparr>)"

definition set_color :: "nat \<Rightarrow> node_color \<Rightarrow> ('k, 'd) store \<Rightarrow> ('k, 'd) store" where
  "set_color a c h = h(a := (h a)\<lparr>n_color := c\<rparr>)"

lemmas set_defs = set_parent_def set_left_def set_right_def set_color_def

section \<open>Rotations\<close>

text \<open>The parent of a child, if there is one.\<close>

definition set_parent0 :: "nat \<Rightarrow> nat \<Rightarrow> ('k, 'd) store \<Rightarrow> ('k, 'd) store" where
  "set_parent0 x v h = (if x \<noteq> 0 then set_parent x v h else h)"

text \<open>Linking the node \<open>y\<close> in the place of \<open>node\<close>; the side that is tested first differs.\<close>

definition db_rotate_left :: "nat \<Rightarrow> ('k, 'd) store \<times> nat \<Rightarrow> ('k, 'd) store \<times> nat" where
  "db_rotate_left node hr =
     (let (h, root) = hr;
          y = n_right (h node);
          h = set_right node (n_left (h y)) h;
          h = set_parent0 (n_left (h y)) node h;
          h = set_parent y (n_parent (h node)) h;
          (h, root) = (if node = root then (h, y)
            else if node = n_left (h (n_parent (h node))) then (set_left (n_parent (h node)) y h, root)
            else (set_right (n_parent (h node)) y h, root));
          h = set_left y node h
      in (set_parent node y h, root))"

definition db_rotate_right :: "nat \<Rightarrow> ('k, 'd) store \<times> nat \<Rightarrow> ('k, 'd) store \<times> nat" where
  "db_rotate_right node hr =
     (let (h, root) = hr;
          y = n_left (h node);
          h = set_left node (n_right (h y)) h;
          h = set_parent0 (n_right (h y)) node h;
          h = set_parent y (n_parent (h node)) h;
          (h, root) = (if node = root then (h, y)
            else if node = n_right (h (n_parent (h node))) then (set_right (n_parent (h node)) y h, root)
            else (set_left (n_parent (h node)) y h, root));
          h = set_right y node h
      in (set_parent node y h, root))"

section \<open>Rebalancing after an insertion\<close>

text \<open>The cases 2 and 3, with a parent that is a left child and with one that is a right child.\<close>

definition rebalance_left :: "nat \<Rightarrow> ('k, 'd) store \<times> nat \<Rightarrow> nat \<times> ('k, 'd) store \<times> nat" where
  "rebalance_left node hr =
     (let (h, root) = hr;
          (node, h, root) = (if node = n_right (h (n_parent (h node)))
            then (n_parent (h node), db_rotate_left (n_parent (h node)) (h, root)) else (node, h, root));
          h = set_color (n_parent (h node)) BLACK h;
          h = set_color (n_parent (h (n_parent (h node)))) RED h
      in (node, db_rotate_right (n_parent (h (n_parent (h node)))) (h, root)))"

definition rebalance_right :: "nat \<Rightarrow> ('k, 'd) store \<times> nat \<Rightarrow> nat \<times> ('k, 'd) store \<times> nat" where
  "rebalance_right node hr =
     (let (h, root) = hr;
          (node, h, root) = (if node = n_left (h (n_parent (h node)))
            then (n_parent (h node), db_rotate_right (n_parent (h node)) (h, root)) else (node, h, root));
          h = set_color (n_parent (h node)) BLACK h;
          h = set_color (n_parent (h (n_parent (h node)))) RED h
      in (node, db_rotate_left (n_parent (h (n_parent (h node)))) (h, root)))"

text \<open>Case 1: the parent \<open>p\<close> and the uncle \<open>y\<close> turn black, the grandparent \<open>g\<close> red.\<close>

definition recolor :: "nat \<Rightarrow> nat \<Rightarrow> nat \<Rightarrow> ('k, 'd) store \<Rightarrow> ('k, 'd) store" where
  "recolor p y g h = set_color g RED (set_color y BLACK (set_color p BLACK h))"

text \<open>A tree with a cycle would keep the loop running; None is not returning.\<close>

partial_function (option) rebalance_loop :: "nat \<Rightarrow> ('k, 'd) store \<times> nat \<Rightarrow> (('k, 'd) store \<times> nat) option" where
  "rebalance_loop node hr =
     (let (h, root) = hr; p = n_parent (h node); g = n_parent (h p)
      in if node \<noteq> root \<and> n_color (h p) = RED then
           if p = n_left (h g) then
             let y = n_right (h g)
             in if y \<noteq> 0 \<and> n_color (h y) = RED
                then rebalance_loop g (recolor p y g h, root)
                else (case rebalance_left node (h, root) of (node, hr) \<Rightarrow> rebalance_loop node hr)
           else
             let y = n_left (h g)
             in if y \<noteq> 0 \<and> n_color (h y) = RED
                then rebalance_loop g (recolor p y g h, root)
                else (case rebalance_right node (h, root) of (node, hr) \<Rightarrow> rebalance_loop node hr)
         else Some (h, root))"

definition db_rebalance :: "nat \<Rightarrow> ('k, 'd) store \<times> nat \<Rightarrow> (('k, 'd) store \<times> nat) option" where
  "db_rebalance node hr =
     (case rebalance_loop node (set_color node RED (fst hr), snd hr) of
        None \<Rightarrow> None | Some (h, root) \<Rightarrow> Some (set_color root BLACK h, root))"

section \<open>Erasing\<close>

partial_function (option) leftmost :: "('k, 'd) store \<Rightarrow> nat \<Rightarrow> nat option" where
  "leftmost h y = (if n_left (h y) \<noteq> 0 then leftmost h (n_left (h y)) else Some y)"

text \<open>A child that is black or missing.\<close>

definition is_black :: "('k, 'd) store \<Rightarrow> nat \<Rightarrow> bool" where
  "is_black h x \<longleftrightarrow> x = 0 \<or> n_color (h x) = BLACK"

definition blacken :: "nat \<Rightarrow> ('k, 'd) store \<Rightarrow> ('k, 'd) store" where
  "blacken x h = (if x \<noteq> 0 then set_color x BLACK h else h)"

text \<open>Putting \<open>y\<close> where the parent of \<open>node\<close> links to \<open>node\<close>.\<close>

definition relink :: "nat \<Rightarrow> nat \<Rightarrow> ('k, 'd) store \<times> nat \<Rightarrow> ('k, 'd) store \<times> nat" where
  "relink node y hr =
     (let (h, root) = hr in
      if root = node then (h, y)
      else if n_left (h (n_parent (h node))) = node then (set_left (n_parent (h node)) y h, root)
      else (set_right (n_parent (h node)) y h, root))"

text \<open>The node leaves the tree: the result is \<open>x\<close>, its parent and the color that is lost.\<close>

definition unlink :: "nat \<Rightarrow> ('k, 'd) store \<times> nat
    \<Rightarrow> (nat \<times> nat \<times> node_color \<times> ('k, 'd) store \<times> nat) option" where
  "unlink node hr =
     (let (h, root) = hr in
      if n_left (h node) = 0 \<or> n_right (h node) = 0 then
        let x = (if n_left (h node) = 0 then n_right (h node) else n_left (h node));
            xp = n_parent (h node);
            h = set_parent0 x (n_parent (h node)) h
        in Some (x, xp, n_color (h node), relink node x (h, root))
      else case leftmost h (n_right (h node)) of None \<Rightarrow> None | Some y \<Rightarrow>
        let x = n_right (h y);
            h = set_parent (n_left (h node)) y h;
            h = set_left y (n_left (h node)) h;
            (xp, h) = (if y \<noteq> n_right (h node) then
                let xp = n_parent (h y);
                    h = set_parent0 x (n_parent (h y)) h;
                    h = set_left (n_parent (h y)) x h;
                    h = set_right y (n_right (h node)) h
                in (xp, set_parent (n_right (h node)) y h)
              else (y, h));
            (h, root) = relink node y (h, root);
            h = set_parent y (n_parent (h node)) h;
            tmp = n_color (h y);
            h = set_color y (n_color (h node)) h;
            h = set_color node tmp h
        in Some (x, xp, n_color (h node), h, root))"

text \<open>One turn of the loop: whether it goes on one step further up, and the tree.\<close>

definition erase_left :: "nat \<Rightarrow> ('k, 'd) store \<times> nat \<Rightarrow> bool \<times> ('k, 'd) store \<times> nat" where
  "erase_left xp hr =
     (let (h, root) = hr;
          w = n_right (h xp);
          (w, h, root) = (if n_color (h w) = RED
            then let (h, root) = db_rotate_left xp (set_color xp RED (set_color w BLACK h), root)
                 in (n_right (h xp), h, root)
            else (w, h, root))
      in if is_black h (n_left (h w)) \<and> is_black h (n_right (h w))
         then (True, set_color w RED h, root)
         else
           let (w, h, root) = (if is_black h (n_right (h w))
                 then let (h, root) = db_rotate_right w (set_color w RED (blacken (n_left (h w)) h), root)
                      in (n_right (h xp), h, root)
                 else (w, h, root));
               h = set_color w (n_color (h xp)) h;
               h = set_color xp BLACK h;
               h = blacken (n_right (h w)) h
           in (False, db_rotate_left xp (h, root)))"

definition erase_right :: "nat \<Rightarrow> ('k, 'd) store \<times> nat \<Rightarrow> bool \<times> ('k, 'd) store \<times> nat" where
  "erase_right xp hr =
     (let (h, root) = hr;
          w = n_left (h xp);
          (w, h, root) = (if n_color (h w) = RED
            then let (h, root) = db_rotate_right xp (set_color xp RED (set_color w BLACK h), root)
                 in (n_left (h xp), h, root)
            else (w, h, root))
      in if is_black h (n_right (h w)) \<and> is_black h (n_left (h w))
         then (True, set_color w RED h, root)
         else
           let (w, h, root) = (if is_black h (n_left (h w))
                 then let (h, root) = db_rotate_left w (set_color w RED (blacken (n_right (h w)) h), root)
                      in (n_left (h xp), h, root)
                 else (w, h, root));
               h = set_color w (n_color (h xp)) h;
               h = set_color xp BLACK h;
               h = blacken (n_left (h w)) h
           in (False, db_rotate_right xp (h, root)))"

text \<open>The loop that restores the balance; it returns the last \<open>x\<close>.\<close>

partial_function (option) erase_loop ::
    "nat \<Rightarrow> nat \<Rightarrow> ('k, 'd) store \<times> nat \<Rightarrow> (nat \<times> ('k, 'd) store \<times> nat) option" where
  "erase_loop x xp hr =
     (if x \<noteq> snd hr \<and> is_black (fst hr) x then
        (case (if x = n_left (fst hr xp) then erase_left xp hr else erase_right xp hr) of (up, h, root) \<Rightarrow>
           if up then erase_loop xp (n_parent (h xp)) (h, root) else Some (x, h, root))
      else Some (x, hr))"

definition db_rebalance_erase :: "nat \<Rightarrow> ('k, 'd) store \<times> nat \<Rightarrow> (('k, 'd) store \<times> nat) option" where
  "db_rebalance_erase node hr =
     (case unlink node hr of None \<Rightarrow> None | Some (x, xp, col, hr) \<Rightarrow>
        if col \<noteq> RED then
          (case erase_loop x xp hr of None \<Rightarrow> None | Some (x, h, root) \<Rightarrow> Some (blacken x h, root))
        else Some hr)"


text \<open>What the setters leave alone and what they set.\<close>

lemma set_ptr [simp]:
  "n_parent (set_left a v h x) = n_parent (h x)" "n_parent (set_right a v h x) = n_parent (h x)"
  "n_parent (set_color a c h x) = n_parent (h x)" "n_parent (set_parent a v h x) = (if x = a then v else n_parent (h x))"
  "n_left (set_parent a v h x) = n_left (h x)" "n_left (set_right a v h x) = n_left (h x)"
  "n_left (set_color a c h x) = n_left (h x)" "n_left (set_left a v h x) = (if x = a then v else n_left (h x))"
  "n_right (set_parent a v h x) = n_right (h x)" "n_right (set_left a v h x) = n_right (h x)"
  "n_right (set_color a c h x) = n_right (h x)" "n_right (set_right a v h x) = (if x = a then v else n_right (h x))"
  "n_color (set_parent a v h x) = n_color (h x)" "n_color (set_left a v h x) = n_color (h x)"
  "n_color (set_right a v h x) = n_color (h x)" "n_color (set_color a c h x) = (if x = a then c else n_color (h x))"
  "n_parent (set_parent0 a v h x) = (if a \<noteq> 0 \<and> x = a then v else n_parent (h x))"
  "n_left (set_parent0 a v h x) = n_left (h x)" "n_right (set_parent0 a v h x) = n_right (h x)"
  "n_color (set_parent0 a v h x) = n_color (h x)"
  by (simp_all add: set_defs set_parent0_def)

section \<open>Trees of addresses\<close>

datatype ct = Lf | Nd node_color ct nat ct

fun taddr :: "ct \<Rightarrow> nat" where
  "taddr Lf = 0"
| "taddr (Nd c l a r) = a"

fun addrs :: "ct \<Rightarrow> nat list" where
  "addrs Lf = []"
| "addrs (Nd c l a r) = addrs l @ a # addrs r"

text \<open>The store holds the tree \<open>t\<close> below the parent \<open>p\<close>.\<close>

fun tree_at :: "('k, 'd) store \<Rightarrow> nat \<Rightarrow> ct \<Rightarrow> bool" where
  "tree_at h p Lf \<longleftrightarrow> True"
| "tree_at h p (Nd c l a r) \<longleftrightarrow> a \<noteq> 0 \<and> n_parent (h a) = p \<and> n_left (h a) = taddr l \<and> n_right (h a) = taddr r
     \<and> n_color (h a) = c \<and> tree_at h a l \<and> tree_at h a r"

text \<open>A path from a position up to the root: the hole is the left or right child.\<close>

datatype frame = FL node_color nat ct | FR node_color nat ct

fun plug :: "frame list \<Rightarrow> ct \<Rightarrow> ct" where
  "plug [] t = t"
| "plug (FL c a s # k) t = plug k (Nd c t a s)"
| "plug (FR c a s # k) t = plug k (Nd c s a t)"

fun faddr :: "frame \<Rightarrow> nat" where
  "faddr (FL c a s) = a"
| "faddr (FR c a s) = a"

fun sibling :: "frame \<Rightarrow> ct" where
  "sibling (FL c a s) = s"
| "sibling (FR c a s) = s"

definition kpar :: "frame list \<Rightarrow> nat" where
  "kpar k = (case k of [] \<Rightarrow> 0 | f # k \<Rightarrow> faddr f)"

lemma kpar_simps [simp]: "kpar [] = 0" "kpar (f # k) = faddr f"
  by (simp_all add: kpar_def)

fun kaddrs :: "frame list \<Rightarrow> nat list" where
  "kaddrs [] = []"
| "kaddrs (f # k) = faddr f # addrs (sibling f) @ kaddrs k"

text \<open>The store around a position whose tree has the address \<open>x\<close>.\<close>

fun path_at :: "('k, 'd) store \<Rightarrow> nat \<Rightarrow> frame list \<Rightarrow> bool" where
  "path_at h x [] \<longleftrightarrow> True"
| "path_at h x (FL c a s # k) \<longleftrightarrow> a \<noteq> 0 \<and> n_parent (h a) = kpar k \<and> n_left (h a) = x \<and> n_right (h a) = taddr s
     \<and> n_color (h a) = c \<and> tree_at h a s \<and> path_at h a k"
| "path_at h x (FR c a s # k) \<longleftrightarrow> a \<noteq> 0 \<and> n_parent (h a) = kpar k \<and> n_left (h a) = taddr s \<and> n_right (h a) = x
     \<and> n_color (h a) = c \<and> tree_at h a s \<and> path_at h a k"

lemma tree_at_plug: "tree_at h 0 (plug k t) \<longleftrightarrow> tree_at h (kpar k) t \<and> path_at h (taddr t) k"
  by (induction k t rule: plug.induct) auto

lemma plug_append: "plug (k @ k') t = plug k' (plug k t)"
  by (induction k t rule: plug.induct) auto

lemma mset_addrs_plug: "mset (addrs (plug k t)) = mset (addrs t) + mset (kaddrs k)"
  by (induction k t rule: plug.induct) auto

lemma set_addrs_plug: "set (addrs (plug k t)) = set (addrs t) \<union> set (kaddrs k)"
  using mset_addrs_plug [of k t] by (metis set_mset_mset set_mset_union)

lemma distinct_plug: "distinct (addrs (plug k t)) \<longleftrightarrow> distinct (addrs t @ kaddrs k)"
  by (rule mset_eq_imp_distinct_iff) (simp add: mset_addrs_plug)

lemma tree_at_cong: "\<forall>x \<in> set (addrs t). h' x = h x \<Longrightarrow> tree_at h' p t = tree_at h p t"
  by (induction t arbitrary: p) auto

lemma path_at_cong: "\<forall>x \<in> set (kaddrs k). h' x = h x \<Longrightarrow> path_at h' x k = path_at h x k"
proof (induction k arbitrary: x)
  case (Cons f k)
  have "tree_at h' (faddr f) (sibling f) = tree_at h (faddr f) (sibling f)"
    by (rule tree_at_cong) (use Cons.prems in auto)
  moreover have "path_at h' (faddr f) k = path_at h (faddr f) k" by (rule Cons.IH) (use Cons.prems in auto)
  ultimately show ?case using Cons.prems by (cases f) simp_all
qed simp

lemma addrs_eq_Nil: "addrs t = [] \<longleftrightarrow> t = Lf" "addrs (plug k t) = [] \<longleftrightarrow> k = [] \<and> t = Lf"
proof -
  show "addrs t = [] \<longleftrightarrow> t = Lf" for t by (cases t) simp_all
  then show "addrs (plug k t) = [] \<longleftrightarrow> k = [] \<and> t = Lf"
    by (induction k t rule: plug.induct) auto
qed

lemma tree_at_nonzero: "tree_at h p t \<Longrightarrow> 0 \<notin> set (addrs t)"
  by (induction t arbitrary: p) auto

lemma path_at_nonzero: "path_at h x k \<Longrightarrow> 0 \<notin> set (kaddrs k)"
  by (induction h x k rule: path_at.induct) (auto dest: tree_at_nonzero)

lemma taddr_eq_0: "tree_at h p t \<Longrightarrow> taddr t = 0 \<longleftrightarrow> t = Lf"
  by (cases t) auto

lemma taddr_in: "t \<noteq> Lf \<Longrightarrow> taddr t \<in> set (addrs t)"
  by (cases t) simp_all

lemma kpar_in: "k \<noteq> [] \<Longrightarrow> kpar k \<in> set (kaddrs k)"
  by (cases k) simp_all

text \<open>A tree that only gets another parent, or a path another child.\<close>

lemma tree_at_new_parent:
  assumes "tree_at h p t" "\<forall>x \<in> set (addrs t). x \<noteq> taddr t \<longrightarrow> h' x = h x"
    and "t \<noteq> Lf \<longrightarrow> h' (taddr t) = (h (taddr t))\<lparr>n_parent := q\<rparr>" "distinct (addrs t)"
  shows "tree_at h' q t"
proof (cases t)
  case Lf
  then show ?thesis by simp
next
  case (Nd c l a r)
  have "tree_at h' a l = tree_at h a l" by (rule tree_at_cong) (use assms(2,4) Nd in auto)
  moreover have "tree_at h' a r = tree_at h a r" by (rule tree_at_cong) (use assms(2,4) Nd in auto)
  ultimately show ?thesis using assms(1,3) Nd by simp
qed

definition link_child :: "nat \<Rightarrow> nat \<Rightarrow> frame list \<Rightarrow> ('k, 'd) store \<Rightarrow> ('k, 'd) store" where
  "link_child x y k h = (case k of [] \<Rightarrow> h | FL c a s # k \<Rightarrow> set_left a y h | FR c a s # k \<Rightarrow> set_right a y h)"

lemma path_at_new_child:
  assumes "path_at h x k" "distinct (kaddrs k)" "\<forall>z \<in> set (kaddrs k). h' z = link_child x y k h z"
  shows "path_at h' y k"
proof (cases k)
  case Nil
  then show ?thesis by simp
next
  case (Cons f m)
  have c: "tree_at h' (faddr f) (sibling f) = tree_at h (faddr f) (sibling f)"
    by (rule tree_at_cong) (use assms(2,3) Cons in \<open>auto simp: link_child_def set_defs split: frame.splits\<close>)
  have "path_at h' (faddr f) m = path_at h (faddr f) m"
    by (rule path_at_cong) (use assms(2,3) Cons in \<open>auto simp: link_child_def set_defs split: frame.splits\<close>)
  then show ?thesis using assms(1,3) Cons c by (cases f) (auto simp: link_child_def set_defs)
qed

text \<open>A tree with its root pointer, and the relation of an operation that only relinks the nodes of \<open>A\<close>.\<close>

definition owns :: "('k, 'd) store \<times> nat \<Rightarrow> ct \<Rightarrow> bool" where
  "owns hr t \<longleftrightarrow> tree_at (fst hr) 0 t \<and> distinct (addrs t) \<and> snd hr = taddr t"

definition relinks :: "nat set \<Rightarrow> ('k, 'd) store \<Rightarrow> ('k, 'd) store \<Rightarrow> bool" where
  "relinks A h h' \<longleftrightarrow> (\<forall>x. (x \<notin> A \<longrightarrow> h' x = h x) \<and> n_key (h' x) = n_key (h x) \<and> n_data (h' x) = n_data (h x)
     \<and> n_deleted (h' x) = n_deleted (h x))"

lemma relinks_refl [simp]: "relinks A h h"
  by (simp add: relinks_def)

lemma relinks_trans: "relinks A h h' \<Longrightarrow> relinks A h' h'' \<Longrightarrow> relinks A h h''"
  by (simp add: relinks_def)

lemma relinks_set:
  "a \<in> A \<Longrightarrow> relinks A h (set_parent a v h)" "a \<in> A \<Longrightarrow> relinks A h (set_left a v h)"
  "a \<in> A \<Longrightarrow> relinks A h (set_right a v h)" "a \<in> A \<Longrightarrow> relinks A h (set_color a c h)"
  by (auto simp: relinks_def set_defs)

lemma owns_plug:
  "owns (h, root) (plug k t) \<longleftrightarrow> tree_at h (kpar k) t \<and> path_at h (taddr t) k
     \<and> distinct (addrs t) \<and> distinct (kaddrs k) \<and> set (addrs t) \<inter> set (kaddrs k) = {} \<and> root = taddr (plug k t)"
  by (auto simp: owns_def tree_at_plug distinct_plug)

lemma taddr_plug: "taddr (plug k t) = (if k = [] then taddr t else faddr (last k))"
  by (induction k t rule: plug.induct) auto


section \<open>Rotations keep the order\<close>

lemma faddr_last_in: "k \<noteq> [] \<Longrightarrow> faddr (last k) \<in> set (kaddrs k)"
  by (induction k) auto

text \<open>The step that links \<open>y\<close> to the parent of a node, as both rotations and \<open>relink\<close> do it.\<close>

lemma link_up:
  assumes "path_at h x k" "x \<notin> set (kaddrs k)" "x \<noteq> 0" "root = taddr (plug k t)" "taddr t = x" "taddr t' = y"
    and "k \<noteq> [] \<Longrightarrow> n_left (g (kpar k)) = n_left (h (kpar k))" "k \<noteq> [] \<Longrightarrow> n_right (g (kpar k)) = n_right (h (kpar k))"
  shows "(if x = root then (g, y)
      else if x = n_left (g (kpar k)) then (set_left (kpar k) y g, root)
      else (set_right (kpar k) y g, root)) = (link_child x y k g, taddr (plug k t'))"
    and "(if x = root then (g, y)
      else if x = n_right (g (kpar k)) then (set_right (kpar k) y g, root)
      else (set_left (kpar k) y g, root)) = (link_child x y k g, taddr (plug k t'))"
proof -
  have r: "x = root \<longleftrightarrow> k = []" using assms(2,4,5) faddr_last_in [of k] by (auto simp: taddr_plug)
  have e: "taddr (plug k t') = (if k = [] then y else root)" using assms(4,6) by (simp add: taddr_plug)
  have s: "taddr (sibling (hd k)) \<noteq> x" if "k \<noteq> []"
  proof (cases "sibling (hd k) = Lf")
    case True
    then show ?thesis using assms(3) by simp
  next
    case False
    then have "taddr (sibling (hd k)) \<in> set (kaddrs k)" using taddr_in that by (cases k) auto
    then show ?thesis using assms(2) by blast
  qed
  show "(if x = root then (g, y)
      else if x = n_left (g (kpar k)) then (set_left (kpar k) y g, root)
      else (set_right (kpar k) y g, root)) = (link_child x y k g, taddr (plug k t'))"
    using r e s assms(1,7,8) by (cases k; cases "hd k") (auto simp: link_child_def)
  show "(if x = root then (g, y)
      else if x = n_right (g (kpar k)) then (set_right (kpar k) y g, root)
      else (set_left (kpar k) y g, root)) = (link_child x y k g, taddr (plug k t'))"
    using r e s assms(1,7,8) by (cases k; cases "hd k") (auto simp: link_child_def)
qed

lemma link_child_at:
  "k = [] \<or> z \<noteq> kpar k \<Longrightarrow> link_child x y k h z = h z"
  by (auto simp: link_child_def set_defs split: list.splits frame.splits)

lemma link_child_cong:
  "g z = h z \<Longrightarrow> k = [] \<or> g (kpar k) = h (kpar k) \<Longrightarrow> link_child x y k g z = link_child x y k h z"
  by (auto simp: link_child_def set_defs split: list.splits frame.splits)

lemma relinks_link_child: "set (kaddrs k) \<subseteq> A \<Longrightarrow> relinks A h (link_child x y k h)"
  using kpar_in [of k] by (auto simp: link_child_def intro!: relinks_set split: list.splits frame.splits)

lemma rotate_left:
  assumes "owns (h, root) (plug k (Nd c a n (Nd d b y e)))"
  defines "t' \<equiv> Nd d (Nd c a n b) y e"
  shows "owns (db_rotate_left n (h, root)) (plug k t')"
    and "relinks (set (addrs (plug k t'))) h (fst (db_rotate_left n (h, root)))"
proof -
  let ?t = "Nd c a n (Nd d b y e)"
  have O: "tree_at h (kpar k) ?t" "path_at h n k" "distinct (addrs ?t)" "distinct (kaddrs k)"
    "set (addrs ?t) \<inter> set (kaddrs k) = {}" "root = taddr (plug k ?t)"
    using assms(1) by (simp_all add: owns_plug)
  have ptr: "n_right (h n) = y" "n_left (h y) = taddr b" "n_parent (h n) = kpar k" "n \<noteq> 0" "y \<noteq> 0" "n \<noteq> y"
    using O(1,3) by auto
  define g where "g = set_parent y (kpar k) (set_parent0 (taddr b) n (set_right n (taddr b) h))"
  define h' where "h' = set_parent n y (set_left y n (link_child n y k g))"
  have b: "b = Lf \<or> taddr b \<noteq> n \<and> taddr b \<noteq> y \<and> taddr b \<notin> set (kaddrs k) \<and> taddr b \<noteq> 0"
    using O(1,3,5) taddr_in [of b] tree_at_nonzero [of h y b] by auto
  have kp: "k = [] \<or> kpar k \<noteq> n \<and> kpar k \<noteq> y \<and> kpar k \<notin> set (addrs b)"
    using O(5) kpar_in [of k] by auto
  have gp: "n_parent (g n) = kpar k" "n_left (g z) = n_left (h z)" "z \<noteq> n \<Longrightarrow> n_right (g z) = n_right (h z)" for z
    using ptr b by (auto simp: g_def set_parent0_def set_defs)
  have "db_rotate_left n (h, root) = (let (h, root) = (if n = root then (g, y)
      else if n = n_left (g (kpar k)) then (set_left (kpar k) y g, root)
      else (set_right (kpar k) y g, root)) in (set_parent n y (set_left y n h), root))"
  proof -
    have 1: "n_left (set_right n (taddr b) h y) = taddr b" using ptr by (simp add: set_defs)
    have 2: "n_parent (set_parent0 (taddr b) n (set_right n (taddr b) h) n) = kpar k"
      using ptr b by (auto simp: set_parent0_def set_defs)
    show ?thesis
      unfolding db_rotate_left_def Let_def prod.case ptr(1) ptr(2) 1 2 g_def [symmetric] gp(1) by (rule refl)
  qed
  also have "\<dots> = (h', taddr (plug k t'))"
  proof -
    have "n \<notin> set (kaddrs k)" "kpar k \<noteq> n" using O(5) kp ptr(4) by (cases k, auto)
    then show ?thesis
      using link_up(1) [OF O(2), of root "?t" t' y g] O(6) ptr(4) gp(2,3) by (simp add: t'_def h'_def)
  qed
  finally have rot: "db_rotate_left n (h, root) = (h', taddr (plug k t'))" .
  have at: "h' n = (h n)\<lparr>n_right := taddr b, n_parent := y\<rparr>" "h' y = (h y)\<lparr>n_parent := kpar k, n_left := n\<rparr>"
    "b \<noteq> Lf \<Longrightarrow> h' (taddr b) = (h (taddr b))\<lparr>n_parent := n\<rparr>"
    "z \<noteq> n \<Longrightarrow> z \<noteq> y \<Longrightarrow> z \<noteq> taddr b \<Longrightarrow> k = [] \<or> z \<noteq> kpar k \<Longrightarrow> h' z = h z"
    "z \<in> set (kaddrs k) \<Longrightarrow> h' z = link_child n y k h z" for z
  proof -
    have k: "k = [] \<or> n \<noteq> kpar k" "k = [] \<or> y \<noteq> kpar k" "b \<noteq> Lf \<Longrightarrow> k = [] \<or> taddr b \<noteq> kpar k"
      using kp b kpar_in [of k] by auto
    show "h' n = (h n)\<lparr>n_right := taddr b, n_parent := y\<rparr>" "h' y = (h y)\<lparr>n_parent := kpar k, n_left := n\<rparr>"
      "b \<noteq> Lf \<Longrightarrow> h' (taddr b) = (h (taddr b))\<lparr>n_parent := n\<rparr>"
      using k b ptr(4-6) by (auto simp: h'_def g_def set_parent0_def set_defs link_child_at)
    show "z \<noteq> n \<Longrightarrow> z \<noteq> y \<Longrightarrow> z \<noteq> taddr b \<Longrightarrow> k = [] \<or> z \<noteq> kpar k \<Longrightarrow> h' z = h z"
      by (simp add: h'_def g_def set_parent0_def set_defs link_child_at)
    assume z: "z \<in> set (kaddrs k)"
    have gk: "g x = h x" if "x \<in> set (kaddrs k)" for x
      using that b O(5) tree_at_nonzero [of h y b] by (auto simp: g_def set_parent0_def set_defs)
    have "h' z = link_child n y k g z" using z O(5) by (auto simp: h'_def set_defs)
    also have "\<dots> = link_child n y k h z"
      by (rule link_child_cong) (use z gk kpar_in [of k] in auto)
    finally show "h' z = link_child n y k h z" .
  qed
  have nz: "0 \<notin> set (addrs a)" "0 \<notin> set (addrs e)"
    using O(1) tree_at_nonzero [of h n a] tree_at_nonzero [of h y e] by auto
  have bn: "taddr b \<notin> set (addrs a) \<union> set (addrs e)"
    using nz O(3) taddr_in [of b] by (cases "b = Lf") auto
  have sub: "tree_at h' q s = tree_at h q s" if "set (addrs s) \<subseteq> set (addrs a) \<union> set (addrs e)" for q s
  proof (rule tree_at_cong, rule ballI, rule at(4))
    fix x assume "x \<in> set (addrs s)"
    then have x: "x \<in> set (addrs a) \<union> set (addrs e)" using that by blast
    show "x \<noteq> n" "x \<noteq> y" using x O(3) by auto
    show "x \<noteq> taddr b" using x bn by auto
    show "k = [] \<or> x \<noteq> kpar k" using x O(5) kpar_in [of k] by auto
  qed
  have tb: "tree_at h' n b"
  proof (rule tree_at_new_parent [of h y])
    show "tree_at h y b" "distinct (addrs b)" using O(1,3) by auto
    show "b \<noteq> Lf \<longrightarrow> h' (taddr b) = (h (taddr b))\<lparr>n_parent := n\<rparr>" using at(3) by simp
    show "\<forall>x \<in> set (addrs b). x \<noteq> taddr b \<longrightarrow> h' x = h x"
    proof (rule ballI, rule impI, rule at(4))
      fix x assume "x \<in> set (addrs b)"
      then show "x \<noteq> n" "x \<noteq> y" "k = [] \<or> x \<noteq> kpar k" using O(3) kp by auto
    qed
  qed
  have "tree_at h' (kpar k) t'"
    using O(1) ptr at(1,2) tb sub [of a n] sub [of e y] by (simp add: t'_def)
  moreover have "path_at h' y k"
    by (rule path_at_new_child [OF O(2,4)]) (use at(5) in auto)
  ultimately show "owns (db_rotate_left n (h, root)) (plug k t')"
    using O(3-5) by (auto simp: rot owns_plug t'_def)
  show "relinks (set (addrs (plug k t'))) h (fst (db_rotate_left n (h, root)))"
  proof -
    let ?A = "set (addrs (plug k t'))"
    have A: "n \<in> ?A" "y \<in> ?A" "b \<noteq> Lf \<Longrightarrow> taddr b \<in> ?A" "set (kaddrs k) \<subseteq> ?A"
      using taddr_in [of b] by (auto simp: set_addrs_plug t'_def)
    have "relinks ?A h (set_parent0 (taddr b) n (set_right n (taddr b) h))"
      using A(1,3) relinks_trans [OF relinks_set(3) relinks_set(1)] relinks_set(3)
      by (cases "b = Lf") (auto simp: set_parent0_def)
    then have "relinks ?A h g" unfolding g_def by (rule relinks_trans) (rule relinks_set(1) [OF A(2)])
    then have "relinks ?A h (link_child n y k g)"
      by (rule relinks_trans) (rule relinks_link_child [OF A(4)])
    then show ?thesis
      unfolding rot fst_conv h'_def
      by (rule relinks_trans [OF relinks_trans [OF _ relinks_set(2) [OF A(2)]] relinks_set(1) [OF A(1)]])
  qed
qed

section \<open>The mirror image\<close>

text \<open>The right-hand branches of the code are the left-hand ones seen in a mirror.\<close>

definition mir :: "('k, 'd) store \<Rightarrow> ('k, 'd) store" where
  "mir h = (\<lambda>a. (h a)\<lparr>n_left := n_right (h a), n_right := n_left (h a)\<rparr>)"

definition mr :: "('k, 'd) store \<times> nat \<Rightarrow> ('k, 'd) store \<times> nat" where
  "mr hr = (mir (fst hr), snd hr)"

fun mirror :: "ct \<Rightarrow> ct" where
  "mirror Lf = Lf"
| "mirror (Nd c l a r) = Nd c (mirror r) a (mirror l)"

fun mirf :: "frame \<Rightarrow> frame" where
  "mirf (FL c a s) = FR c a (mirror s)"
| "mirf (FR c a s) = FL c a (mirror s)"

lemma mir_simps [simp]:
  "n_left (mir h a) = n_right (h a)" "n_right (mir h a) = n_left (h a)" "n_parent (mir h a) = n_parent (h a)"
  "n_color (mir h a) = n_color (h a)" "mir (mir h) = h" "fst (mr hr) = mir (fst hr)" "snd (mr hr) = snd hr" "mr (h, root) = (mir h, root)" "mr (mr hr) = hr"
  by (simp_all add: mir_def mr_def)

lemma mir_set [simp]:
  "mir (set_left a v h) = set_right a v (mir h)" "mir (set_right a v h) = set_left a v (mir h)"
  "mir (set_parent a v h) = set_parent a v (mir h)" "mir (set_color a c h) = set_color a c (mir h)"
  "mir (set_parent0 a v h) = set_parent0 a v (mir h)" "mir (blacken a h) = blacken a (mir h)"
  by (auto simp: mir_def set_defs set_parent0_def blacken_def)

lemma is_black_mir [simp]: "is_black (mir h) x = is_black h x"
  by (simp add: is_black_def)

lemma mirror_simps [simp]: "mirror (mirror t) = t" "taddr (mirror t) = taddr t" "addrs (mirror t) = rev (addrs t)"
  by (induction t) simp_all

lemma mirf_simps [simp]: "mirf (mirf f) = f" "faddr (mirf f) = faddr f"
  by (cases f; simp)+

lemma mirror_plug: "mirror (plug k t) = plug (map mirf k) (mirror t)"
  by (induction k t rule: plug.induct) simp_all

lemma tree_at_mir: "tree_at (mir h) p (mirror t) = tree_at h p t"
  by (induction t arbitrary: p) auto

lemma owns_mir: "owns (mr hr) (mirror t) = owns hr t"
  by (cases hr) (simp add: owns_def tree_at_mir)

lemma relinks_mir: "relinks A (mir h) (mir h') = relinks A h h'"
proof -
  have "relinks A (mir h) (mir h')" if "relinks A h h'" for h h' :: "('k, 'd) store"
    using that by (simp add: relinks_def mir_def)
  from this [of h h'] this [of "mir h" "mir h'"] show ?thesis by auto
qed

lemma set_mir:
  "set_left a v (mir h) = mir (set_right a v h)" "set_right a v (mir h) = mir (set_left a v h)"
  "set_parent a v (mir h) = mir (set_parent a v h)" "set_color a c (mir h) = mir (set_color a c h)"
  "set_parent0 a v (mir h) = mir (set_parent0 a v h)" "blacken a (mir h) = mir (blacken a h)"
  by simp_all

lemma rotate_right_mir: "db_rotate_right n (h, root) = mr (db_rotate_left n (mir h, root))"
  by (simp add: db_rotate_left_def db_rotate_right_def Let_def set_mir del: mir_set)

lemma rotate_left_mir: "db_rotate_left n (mir h, root) = mr (db_rotate_right n (h, root))"
  by (simp add: rotate_right_mir)

lemma rotate_right_mir': "db_rotate_right n (mir h, root) = mr (db_rotate_left n (h, root))"
  by (simp add: rotate_right_mir)


section \<open>Steps that keep the order\<close>

text \<open>The store goes over from the tree \<open>t\<close> to the tree \<open>t'\<close> with the same nodes in the same order.\<close>

definition turns :: "('k, 'd) store \<times> nat \<Rightarrow> ct \<Rightarrow> ('k, 'd) store \<times> nat \<Rightarrow> ct \<Rightarrow> bool" where
  "turns hr t hr' t' \<longleftrightarrow> owns hr t \<and> owns hr' t' \<and> addrs t' = addrs t \<and> relinks (set (addrs t)) (fst hr) (fst hr')"

lemma turns_refl: "owns hr t \<Longrightarrow> turns hr t hr t"
  by (simp add: turns_def)

lemma turns_trans [trans]: "turns hr t hr' t' \<Longrightarrow> turns hr' t' hr'' t'' \<Longrightarrow> turns hr t hr'' t''"
  by (auto simp: turns_def intro: relinks_trans)

lemma turns_owns: "turns hr t hr' t' \<Longrightarrow> owns hr' t'"
  by (simp add: turns_def)

lemma turns_mir: "turns (mr hr) (mirror t) (mr hr') (mirror t') = turns hr t hr' t'"
  by (simp add: turns_def owns_mir) (simp add: mr_def relinks_mir)

lemma turns_mir': "turns (mr hr) (mirror t) hr' t' = turns hr t (mr hr') (mirror t')"
  using turns_mir [of hr t "mr hr'" "mirror t'"] by simp

lemma addrs_plug_cong: "addrs t = addrs t' \<Longrightarrow> addrs (plug k t) = addrs (plug k t')"
  by (induction k arbitrary: t t') (simp, rename_tac f k t t', case_tac f, simp_all)

lemma turn_left:
  assumes "owns (h, root) (plug k (Nd c a n (Nd d b y e)))"
  shows "turns (h, root) (plug k (Nd c a n (Nd d b y e))) (db_rotate_left n (h, root)) (plug k (Nd d (Nd c a n b) y e))"
  using rotate_left [OF assms] assms addrs_plug_cong [of "Nd c a n (Nd d b y e)" "Nd d (Nd c a n b) y e" k]
  by (simp add: turns_def)

lemma turn_right:
  assumes "owns (h, root) (plug k (Nd c (Nd d a y b) n e))"
  shows "turns (h, root) (plug k (Nd c (Nd d a y b) n e)) (db_rotate_right n (h, root)) (plug k (Nd d a y (Nd c b n e)))"
proof -
  have "owns (mir h, root) (plug (map mirf k) (Nd c (mirror e) n (Nd d (mirror b) y (mirror a))))"
    using assms owns_mir [of "(h, root)" "plug k (Nd c (Nd d a y b) n e)"] by (simp add: mirror_plug)
  from turn_left [OF this] show ?thesis
    using turns_mir' [of "(h, root)" "plug k (Nd c (Nd d a y b) n e)"]
    by (simp add: mirror_plug rotate_right_mir comp_def)
qed

lemma owns_node:
  assumes "owns (h, root) (plug k (Nd c l a r))"
  shows "n_parent (h a) = kpar k" "n_left (h a) = taddr l" "n_right (h a) = taddr r" "n_color (h a) = c" "a \<noteq> 0"
    and "a = root \<longleftrightarrow> k = []"
  using assms faddr_last_in [of k] by (auto simp: owns_plug taddr_plug)

lemma turn_color:
  assumes "owns (h, root) (plug k (Nd c l a r))"
  shows "turns (h, root) (plug k (Nd c l a r)) (set_color a c' h, root) (plug k (Nd c' l a r))"
proof -
  have O: "tree_at h (kpar k) (Nd c l a r)" "path_at h a k" "distinct (addrs (Nd c l a r))" "distinct (kaddrs k)"
    "set (addrs (Nd c l a r)) \<inter> set (kaddrs k) = {}" "root = taddr (plug k (Nd c l a r))"
    using assms by (simp_all add: owns_plug)
  have "tree_at (set_color a c' h) a l = tree_at h a l" "tree_at (set_color a c' h) a r = tree_at h a r"
    using tree_at_cong [of l "set_color a c' h" h] tree_at_cong [of r "set_color a c' h" h] O(3)
    by (auto simp: set_defs)
  then have "tree_at (set_color a c' h) (kpar k) (Nd c' l a r)" using O(1) by (simp add: set_defs)
  moreover have "path_at (set_color a c' h) a k"
    using path_at_cong [of k "set_color a c' h" h a] O(2,5) by (auto simp: set_defs)
  moreover have "taddr (plug k (Nd c' l a r)) = root" using O(6) by (simp add: taddr_plug)
  ultimately have "owns (set_color a c' h, root) (plug k (Nd c' l a r))" using O(3-5) by (simp add: owns_plug)
  moreover have "addrs (plug k (Nd c' l a r)) = addrs (plug k (Nd c l a r))" by (rule addrs_plug_cong) simp
  ultimately show ?thesis
    using assms relinks_set(4) [of a "set (addrs (plug k (Nd c l a r)))" h c'] by (simp add: turns_def set_addrs_plug)
qed

text \<open>The same for a neighbour: the parent of a position and its sibling.\<close>

lemma turn_color_parent:
  "owns (h, root) (plug (FL c a s # k) t) \<Longrightarrow>
     turns (h, root) (plug (FL c a s # k) t) (set_color a c' h, root) (plug (FL c' a s # k) t)"
  "owns (h, root) (plug (FR c a s # k) t) \<Longrightarrow>
     turns (h, root) (plug (FR c a s # k) t) (set_color a c' h, root) (plug (FR c' a s # k) t)"
  by (simp_all add: turn_color)

lemma turn_color_sibling:
  "owns (h, root) (plug (FL d b (Nd c l a r) # k) t) \<Longrightarrow>
     turns (h, root) (plug (FL d b (Nd c l a r) # k) t) (set_color a c' h, root) (plug (FL d b (Nd c' l a r) # k) t)"
  "owns (h, root) (plug (FR d b (Nd c l a r) # k) t) \<Longrightarrow>
     turns (h, root) (plug (FR d b (Nd c l a r) # k) t) (set_color a c' h, root) (plug (FR d b (Nd c' l a r) # k) t)"
  using turn_color [of h root "FR d b t # k" c l a r] turn_color [of h root "FL d b t # k" c l a r] by simp_all


section \<open>Balance\<close>

fun col :: "ct \<Rightarrow> node_color" where
  "col Lf = BLACK"
| "col (Nd c l a r) = c"

fun paint :: "node_color \<Rightarrow> ct \<Rightarrow> ct" where
  "paint c Lf = Lf"
| "paint c (Nd d l a r) = Nd c l a r"

text \<open>The number of black nodes on the way down, the same on every way, and no two red nodes in a row.\<close>

fun bheight :: "ct \<Rightarrow> nat" where
  "bheight Lf = 0"
| "bheight (Nd c l a r) = bheight l + of_bool (c = BLACK)"

fun invh :: "ct \<Rightarrow> bool" where
  "invh Lf \<longleftrightarrow> True"
| "invh (Nd c l a r) \<longleftrightarrow> invh l \<and> invh r \<and> bheight l = bheight r"

fun invc :: "ct \<Rightarrow> bool" where
  "invc Lf \<longleftrightarrow> True"
| "invc (Nd c l a r) \<longleftrightarrow> invc l \<and> invc r \<and> (c = RED \<longrightarrow> col l = BLACK \<and> col r = BLACK)"

definition balanced :: "ct \<Rightarrow> bool" where
  "balanced t \<longleftrightarrow> invh t \<and> invc t \<and> col t = BLACK"

fun fcol :: "frame \<Rightarrow> node_color" where
  "fcol (FL c a s) = c"
| "fcol (FR c a s) = c"

text \<open>The same for a path, given the black height and the color of the hole.\<close>

fun kinvh :: "frame list \<Rightarrow> nat \<Rightarrow> bool" where
  "kinvh [] n \<longleftrightarrow> True"
| "kinvh (f # k) n \<longleftrightarrow> invh (sibling f) \<and> bheight (sibling f) = n \<and> kinvh k (n + of_bool (fcol f = BLACK))"

fun kinvc :: "frame list \<Rightarrow> node_color \<Rightarrow> bool" where
  "kinvc [] c \<longleftrightarrow> True"
| "kinvc (f # k) c \<longleftrightarrow> invc (sibling f) \<and> (fcol f = RED \<longrightarrow> c = BLACK \<and> col (sibling f) = BLACK) \<and> kinvc k (fcol f)"

lemma invh_plug: "invh (plug k t) \<longleftrightarrow> invh t \<and> kinvh k (bheight t)"
  by (induction k t rule: plug.induct) auto

lemma invc_plug: "invc (plug k t) \<longleftrightarrow> invc t \<and> kinvc k (col t)"
  by (induction k t rule: plug.induct) auto

lemma kinvc_black: "kinvc k c \<Longrightarrow> kinvc k BLACK"
  by (cases k) auto

lemma node_color_cases: "c \<noteq> RED \<longleftrightarrow> c = BLACK" "c \<noteq> BLACK \<longleftrightarrow> c = RED"
  by (cases c; simp)+

lemma col_plug: "col (plug k t) = (if k = [] then col t else fcol (last k))"
  by (induction k t rule: plug.induct) auto

lemma paint_plug: "k \<noteq> [] \<Longrightarrow> col (plug k t) = c \<Longrightarrow> paint c (plug k t) = plug k t"
  by (cases "plug k t") auto

lemma mirror_balance [simp]:
  "col (mirror t) = col t" "invc (mirror t) = invc t" "fcol (mirf f) = fcol f" "sibling (mirf f) = mirror (sibling f)"
  "paint c (mirror t) = mirror (paint c t)"
  by (induction t) (auto, (cases f; simp)+)

lemma mirror_height: "invh t \<Longrightarrow> bheight (mirror t) = bheight t \<and> invh (mirror t)"
  by (induction t) auto

end
