(* ===== verification/Rbbalance.thy ===== *)
theory Rbbalance
  imports Rbtree
begin

text \<open>
  The red-black trees of common/db.cpp stay balanced: \<open>db_rebalance\<close> returns, keeps the order of
  the nodes and restores the balance after an insertion.
\<close>

section \<open>Rebalancing after an insertion keeps the order and restores the balance\<close>

lemma rebalance_left_inner:
  assumes "owns (h, root) (plug (FL RED p s # FL BLACK g u # k) (Nd RED l n r))"
  shows "turns (h, root) (plug (FL RED p s # FL BLACK g u # k) (Nd RED l n r))
      (db_rotate_right g (set_color g RED (set_color p BLACK h), root)) (plug k (Nd BLACK (Nd RED l n r) p (Nd RED s g u)))"
    (is "turns _ ?T _ _")
proof -
  have 1: "turns (h, root) ?T (set_color p BLACK h, root) (plug (FL BLACK p s # FL BLACK g u # k) (Nd RED l n r))"
    by (rule turn_color_parent(1) [OF assms])
  then have "owns (set_color p BLACK h, root) (plug (FL BLACK g u # k) (Nd BLACK (Nd RED l n r) p s))"
    by (simp add: turns_owns)
  from turn_color_parent(1) [OF this, of RED]
  have 2: "turns (h, root) ?T (set_color g RED (set_color p BLACK h), root) (plug k (Nd RED (Nd BLACK (Nd RED l n r) p s) g u))"
    using turns_trans [OF 1] by simp
  show ?thesis by (rule turns_trans [OF 2]) (rule turn_right [OF turns_owns [OF 2]])
qed

lemma rebalance_left:
  assumes "owns (h, root) (plug (f # FL BLACK g u # k) (Nd RED l n r))" "fcol f = RED"
    and "invh (plug [f, FL BLACK g u] (Nd RED l n r))" "invc (Nd RED l n r)" "kinvc [f, FL BLACK g u] BLACK" "col u = BLACK"
  shows "\<exists>t' node' h' root'. rebalance_left n (h, root) = (node', h', root')
      \<and> turns (h, root) (plug (f # FL BLACK g u # k) (Nd RED l n r)) (h', root') (plug k t')
      \<and> node' \<noteq> root' \<and> n_color (h' (n_parent (h' node'))) = BLACK
      \<and> invc t' \<and> invh t' \<and> col t' = BLACK \<and> bheight t' = bheight (plug [f, FL BLACK g u] (Nd RED l n r))"
    (is "\<exists>t' node' h' root'. _ \<and> turns _ ?T _ _ \<and> _")
proof (cases f)
  case (FL c p s)
  then have c: "c = RED" using assms(2) by simp
  have O: "owns (h, root) (plug (FL RED p s # FL BLACK g u # k) (Nd RED l n r))" using assms(1) FL c by simp
  have nd: "n_parent (h n) = p" "n_parent (h p) = g" "n_right (h p) = taddr s" "n \<noteq> taddr s"
  proof -
    have P: "owns (h, root) (plug (FL BLACK g u # k) (Nd RED (Nd RED l n r) p s))" using O by simp
    show "n_parent (h n) = p" "n_parent (h p) = g" "n_right (h p) = taddr s"
      using owns_node(1) [OF O] owns_node(1,3) [OF P] by simp_all
    have "n \<notin> set (addrs s)" "n \<noteq> 0" using O by (simp_all add: owns_plug)
    then show "n \<noteq> taddr s" using taddr_in [of s] by (cases "s = Lf") auto
  qed
  obtain h' root' where r: "db_rotate_right g (set_color g RED (set_color p BLACK h), root) = (h', root')" by force
  have t: "turns (h, root) ?T (h', root') (plug k (Nd BLACK (Nd RED l n r) p (Nd RED s g u)))"
    using rebalance_left_inner [OF O] FL c r by simp
  have f: "rebalance_left n (h, root) = (n, h', root')"
    using nd FL r by (simp add: rebalance_left_def Let_def)
  have "n \<noteq> root' \<and> n_color (h' (n_parent (h' n))) = BLACK"
    using owns_node [of h' root' "FL BLACK p (Nd RED s g u) # k" RED l n r]
      owns_node(4) [of h' root' k BLACK "Nd RED l n r" p "Nd RED s g u"] turns_owns [OF t] by simp
  moreover have "invc t' \<and> invh t' \<and> col t' = BLACK \<and> bheight t' = bheight (plug [f, FL BLACK g u] (Nd RED l n r))"
    if "t' = Nd BLACK (Nd RED l n r) p (Nd RED s g u)" for t'
    using that FL c assms(3-6) by auto
  ultimately show ?thesis using f t by blast
next
  case (FR c p s)
  then have c: "c = RED" using assms(2) by simp
  have O: "owns (h, root) (plug (FL BLACK g u # k) (Nd RED s p (Nd RED l n r)))" using assms(1) FR c by simp
  obtain h1 root1 where 1: "db_rotate_left p (h, root) = (h1, root1)" by force
  have t1: "turns (h, root) ?T (h1, root1) (plug (FL RED n r # FL BLACK g u # k) (Nd RED s p l))"
    using turn_left [OF O] 1 FR c by simp
  have nd: "n_right (h p) = n" "n_parent (h n) = p" "n_parent (h1 p) = n" "n_parent (h1 n) = g"
    using owns_node(3) [OF O] owns_node(1) [of h root "FR RED p s # FL BLACK g u # k" RED l n r] O owns_node(1) [OF turns_owns [OF t1]]
      owns_node(1) [of h1 root1 "FL BLACK g u # k" RED "Nd RED s p l" n r] turns_owns [OF t1] by simp_all
  obtain h' root' where r: "db_rotate_right g (set_color g RED (set_color n BLACK h1), root1) = (h', root')" by force
  have t: "turns (h, root) ?T (h', root') (plug k (Nd BLACK (Nd RED s p l) n (Nd RED r g u)))"
    using turns_trans [OF t1 rebalance_left_inner [OF turns_owns [OF t1]]] r by simp
  have f: "rebalance_left n (h, root) = (p, h', root')"
    using nd FR r 1 by (simp add: rebalance_left_def Let_def)
  have "p \<noteq> root' \<and> n_color (h' (n_parent (h' p))) = BLACK"
    using owns_node [of h' root' "FL BLACK n (Nd RED r g u) # k" RED s p l]
      owns_node(4) [of h' root' k BLACK "Nd RED s p l" n "Nd RED r g u"] turns_owns [OF t] by simp
  moreover have "invc t' \<and> invh t' \<and> col t' = BLACK \<and> bheight t' = bheight (plug [f, FL BLACK g u] (Nd RED l n r))"
    if "t' = Nd BLACK (Nd RED s p l) n (Nd RED r g u)" for t'
    using that FR c assms(3-6) by auto
  ultimately show ?thesis using f t by blast
qed

text \<open>The right-hand case is the mirror image.\<close>

lemma rebalance_right_mir:
  "rebalance_right n (h, root) = (case rebalance_left n (mir h, root) of (node, hr) \<Rightarrow> (node, mr hr))"
  by (cases "n = n_left (h (n_parent (h n)))"; cases "db_rotate_right (n_parent (h n)) (h, root)")
    (simp_all add: rebalance_right_def rebalance_left_def rotate_left_mir rotate_right_mir' set_mir del: mir_set)

lemma rebalance_loop_stop:
  "node = root \<or> n_color (h (n_parent (h node))) = BLACK \<Longrightarrow> rebalance_loop node (h, root) = Some (h, root)"
  by (subst rebalance_loop.simps) (auto simp: Let_def)

lemma rebalance_right:
  assumes "owns (h, root) (plug (f # FR BLACK g u # k) (Nd RED l n r))" "fcol f = RED"
    and "invh (plug [f, FR BLACK g u] (Nd RED l n r))" "invc (Nd RED l n r)" "kinvc [f, FR BLACK g u] BLACK" "col u = BLACK"
  shows "\<exists>t' node' h' root'. rebalance_right n (h, root) = (node', h', root')
      \<and> turns (h, root) (plug (f # FR BLACK g u # k) (Nd RED l n r)) (h', root') (plug k t')
      \<and> node' \<noteq> root' \<and> n_color (h' (n_parent (h' node'))) = BLACK
      \<and> invc t' \<and> invh t' \<and> col t' = BLACK \<and> bheight t' = bheight (plug [f, FR BLACK g u] (Nd RED l n r))"
proof -
  let ?T = "plug (f # FR BLACK g u # k) (Nd RED l n r)" and ?S = "plug [f, FR BLACK g u] (Nd RED l n r)"
  have m: "mirror ?T = plug (mirf f # FL BLACK g (mirror u) # map mirf k) (Nd RED (mirror r) n (mirror l))"
    "mirror ?S = plug [mirf f, FL BLACK g (mirror u)] (Nd RED (mirror r) n (mirror l))"
    using mirror_plug [of "f # FR BLACK g u # k" "Nd RED l n r"] mirror_plug [of "[f, FR BLACK g u]" "Nd RED l n r"]
    by simp_all
  have "owns (mir h, root) (mirror ?T)" using assms(1) owns_mir [of "(h, root)" ?T] by simp
  moreover have "invh (mirror ?S)" using mirror_height [OF assms(3)] by blast
  ultimately obtain t' node' h' root' where R: "rebalance_left n (mir h, root) = (node', h', root')"
    "turns (mir h, root) (mirror ?T) (h', root') (plug (map mirf k) t')"
    "node' \<noteq> root'" "n_color (h' (n_parent (h' node'))) = BLACK"
    "invc t'" "invh t'" "col t' = BLACK" "bheight t' = bheight (mirror ?S)"
    using rebalance_left [of "mir h" root "mirf f" g "mirror u" "map mirf k" "mirror r" n "mirror l"] assms(2,4-6)
    unfolding m by auto
  have "turns (h, root) ?T (mir h', root') (plug k (mirror t'))"
    using turns_mir' [of "(h, root)" ?T "(h', root')" "plug (map mirf k) t'"] R(2) by (simp add: mirror_plug comp_def)
  then show ?thesis
    using R mirror_height [OF assms(3)] mirror_height [OF R(6)]
    by (intro exI [of _ "mirror t'"] exI [of _ node'] exI [of _ "mir h'"] exI [of _ root'])
      (simp add: rebalance_right_mir)
qed

text \<open>Moving up: the uncle is red.\<close>

lemma rebalance_loop_up:
  assumes "n_left (h g) = p \<and> n_right (h g) = y \<or> n_left (h g) = y \<and> n_right (h g) = p \<and> p \<noteq> y"
    and "node \<noteq> root" "n_parent (h node) = p" "n_color (h p) = RED" "n_parent (h p) = g" "y \<noteq> 0" "n_color (h y) = RED"
  shows "rebalance_loop node (h, root) = rebalance_loop g (recolor p y g h, root)"
  using assms(1)
proof (elim disjE conjE)
  assume "n_left (h g) = p" "n_right (h g) = y"
  then show ?thesis by (subst rebalance_loop.simps) (simp add: Let_def assms(2-7))
next
  assume "n_left (h g) = y" "p \<noteq> y"
  then show ?thesis by (subst rebalance_loop.simps) (simp add: Let_def assms(2-7))
qed

lemma recolor_turns:
  assumes "owns (h, root) (plug (f # F # k) t)" "sibling F = Nd c l y r"
    and "F = FL b g (sibling F) \<and> F' = FL RED g (Nd BLACK l y r) \<or> F = FR b g (sibling F) \<and> F' = FR RED g (Nd BLACK l y r)"
    and "f = FL d p s \<and> f' = FL BLACK p s \<or> f = FR d p s \<and> f' = FR BLACK p s"
  shows "turns (h, root) (plug (f # F # k) t) (recolor p y g h, root) (plug (f' # F' # k) t)"
proof -
  have 1: "turns (h, root) (plug (f # F # k) t) (set_color p BLACK h, root) (plug (f' # F # k) t)"
    using assms(1,4) turn_color_parent [of h root d p s "F # k" t BLACK] by auto
  have e: "plug (f' # F # k) t = plug (F # k) (plug [f'] t)" for F using assms(4) by auto
  define F1 where "F1 = (case F of FL _ _ _ \<Rightarrow> FL b g (Nd BLACK l y r) | FR _ _ _ \<Rightarrow> FR b g (Nd BLACK l y r))"
  have 2: "turns (set_color p BLACK h, root) (plug (f' # F # k) t) (set_color y BLACK (set_color p BLACK h), root)
      (plug (f' # F1 # k) t)"
    using turns_owns [OF 1] assms(2,3) turn_color_sibling [of "set_color p BLACK h" root b g c l y r k "plug [f'] t" BLACK]
    unfolding e F1_def by auto
  have "turns (set_color y BLACK (set_color p BLACK h), root) (plug (f' # F1 # k) t)
      (recolor p y g h, root) (plug (f' # F' # k) t)"
    using turns_owns [OF 2] assms(2,3) turn_color_parent [of "set_color y BLACK (set_color p BLACK h)" root b g "Nd BLACK l y r" k "plug [f'] t" RED]
    unfolding e F1_def recolor_def by auto
  then show ?thesis by (rule turns_trans [OF turns_trans [OF 1 2]])
qed

text \<open>The nodes above a position.\<close>

lemma owns_frame:
  assumes "owns (h, root) (plug (f # k) t)"
  shows "n_color (h (faddr f)) = fcol f" "n_parent (h (faddr f)) = kpar k" "faddr f \<noteq> 0"
    and "f = FL c a s \<Longrightarrow> n_left (h a) = taddr t \<and> n_right (h a) = taddr s"
    and "f = FR c a s \<Longrightarrow> n_left (h a) = taddr s \<and> n_right (h a) = taddr t"
  using owns_plug [of h root "f # k" t] assms by (cases f; auto)+

lemma owns_sibling:
  assumes "owns (h, root) (plug (f # k) t)"
  shows "taddr (sibling f) = 0 \<longleftrightarrow> sibling f = Lf" "sibling f \<noteq> Lf \<Longrightarrow> n_color (h (taddr (sibling f))) = col (sibling f)"
    and "t \<noteq> Lf \<or> sibling f \<noteq> Lf \<Longrightarrow> taddr t \<noteq> taddr (sibling f)" "is_black h (taddr (sibling f)) \<longleftrightarrow> col (sibling f) = BLACK"
proof -
  have O: "tree_at h (faddr f) (sibling f)" "tree_at h (faddr f) t" "set (addrs t) \<inter> set (addrs (sibling f)) = {}"
    using owns_plug [of h root "f # k" t] assms by (cases f; auto)+
  show "taddr (sibling f) = 0 \<longleftrightarrow> sibling f = Lf" "sibling f \<noteq> Lf \<Longrightarrow> n_color (h (taddr (sibling f))) = col (sibling f)"
    "is_black h (taddr (sibling f)) \<longleftrightarrow> col (sibling f) = BLACK"
    using O(1) by (cases "sibling f"; simp add: is_black_def)+
  show "taddr t \<noteq> taddr (sibling f)" if "t \<noteq> Lf \<or> sibling f \<noteq> Lf"
    using O that taddr_in [of t] taddr_in [of "sibling f"] by (cases t; cases "sibling f"; auto)
qed

lemma rebalance_loop_balances:
  assumes "owns (h, root) (plug k (Nd RED l n r))" "invc (Nd RED l n r)" "kinvc k BLACK" "k = [] \<or> fcol (last k) = BLACK"
    and "invh (plug k (Nd RED l n r))"
  shows "\<exists>h' root' t'. rebalance_loop n (h, root) = Some (h', root')
      \<and> turns (h, root) (plug k (Nd RED l n r)) (h', root') t' \<and> invh t' \<and> invc (paint BLACK t')"
  using assms
proof (induction "length k" arbitrary: k h root l n r rule: less_induct)
  case less
  let ?t = "Nd RED l n r"
  note O = less.prems(1)
  show ?case
  proof (cases "k = [] \<or> n_color (h (kpar k)) = BLACK")
    case True
    have "rebalance_loop n (h, root) = Some (h, root)"
      by (rule rebalance_loop_stop) (use True owns_node [OF O] in auto)
    moreover have "invc (paint BLACK (plug k ?t))"
    proof (cases k)
      case Nil
      then show ?thesis using less.prems(2) by simp
    next
      case (Cons f m)
      then have "fcol f = BLACK" using True owns_frame(1) [of h root f m ?t] O by simp
      then have "invc (plug k ?t)" using Cons less.prems(2,3) by (simp add: invc_plug)
      then show ?thesis by (cases "plug k ?t") auto
    qed
    ultimately show ?thesis using turns_refl [OF O] less.prems(5) by auto
  next
    case False
    then obtain f m where k: "k = f # m" by (cases k) auto
    then have f: "fcol f = RED" using False owns_frame(1) [of h root f m ?t] O by (simp add: node_color_cases)
    then obtain F k' where m: "m = F # k'" using less.prems(4) k by (cases m) auto
    have F: "fcol F = BLACK" using less.prems(3) k m f by (auto simp: node_color_cases)
    let ?p = "faddr f" and ?g = "faddr F" and ?u = "sibling F"
    have O': "owns (h, root) (plug (F # k') (plug [f] ?t))" using O k m by (cases f) simp_all
    have ptr: "n \<noteq> root" "n_parent (h n) = ?p" "n_parent (h ?p) = ?g" "n_color (h ?p) = RED" "taddr (plug [f] ?t) = ?p"
      using owns_node [OF O] owns_frame(1,2) [of h root f m ?t] O k m f by (cases f; simp)+
    have side: "F = FL BLACK ?g ?u \<and> n_left (h ?g) = ?p \<and> n_right (h ?g) = taddr ?u
        \<or> F = FR BLACK ?g ?u \<and> n_left (h ?g) = taddr ?u \<and> n_right (h ?g) = ?p \<and> ?p \<noteq> taddr ?u"
      using owns_frame(4,5) [OF O'] owns_sibling(3) [OF O'] ptr(5) F owns_frame(3) [of h root f m ?t] O k
      by (cases F) (cases f, auto)+
    have inv: "invh (plug [f, F] ?t)" "kinvh k' (bheight (plug [f, F] ?t))" "kinvc [f, F] BLACK" "kinvc k' BLACK"
      "invc ?u" "k' = [] \<or> fcol (last k') = BLACK" "bheight ?u = bheight (plug [f] ?t)"
    proof -
      have p: "plug k ?t = plug k' (plug [f, F] ?t)" "plug [f, F] ?t = plug [F] (plug [f] ?t)"
        using k m by (cases f; cases F; simp)+
      show i: "invh (plug [f, F] ?t)" "kinvh k' (bheight (plug [f, F] ?t))"
        using less.prems(5) p(1) invh_plug [of k' "plug [f, F] ?t"] by simp_all
      show "bheight ?u = bheight (plug [f] ?t)" using i(1) unfolding p(2) invh_plug by simp
      show "kinvc [f, F] BLACK" "kinvc k' BLACK" "invc ?u" using less.prems(3) k m F by auto
      show "k' = [] \<or> fcol (last k') = BLACK" using less.prems(4) k m by (auto split: if_splits)
    qed
    show ?thesis
    proof (cases "col ?u = RED")
      case True
      then obtain ul y ur where u: "?u = Nd RED ul y ur" by (cases ?u) auto
      then have y: "y \<noteq> 0" "n_color (h y) = RED" using owns_sibling(1,2) [OF O'] by simp_all
      have loop: "rebalance_loop n (h, root) = rebalance_loop ?g (recolor ?p y ?g h, root)"
      proof -
        have "n_left (h ?g) = ?p \<and> n_right (h ?g) = y \<or> n_left (h ?g) = y \<and> n_right (h ?g) = ?p \<and> ?p \<noteq> y"
          using side unfolding u taddr.simps by blast
        then show ?thesis by (intro rebalance_loop_up) (use ptr y in simp_all)
      qed
      define F' where "F' = (case F of FL _ _ _ \<Rightarrow> FL RED ?g (Nd BLACK ul y ur) | FR _ _ _ \<Rightarrow> FR RED ?g (Nd BLACK ul y ur))"
      define f' where "f' = (case f of FL c p s \<Rightarrow> FL BLACK p s | FR c p s \<Rightarrow> FR BLACK p s)"
      have t: "turns (h, root) (plug k ?t) (recolor ?p y ?g h, root) (plug (f' # F' # k') ?t)"
        unfolding k m by (rule recolor_turns [where b = BLACK and d = RED and s = "sibling f"])
          (use O k m u F f in \<open>auto simp: F'_def f'_def split: frame.splits\<close>)
      obtain l' r' where n': "plug [f', F'] ?t = Nd RED l' ?g r'" by (cases f; cases F) (simp_all add: f'_def F'_def)
      have p: "plug (f' # F' # k') ?t = plug k' (Nd RED l' ?g r')"
        using n' by (cases f; cases F) (simp_all add: f'_def F'_def)
      have "invh (Nd RED l' ?g r') \<and> bheight (Nd RED l' ?g r') = bheight (plug [f, F] ?t)"
        unfolding n' [symmetric] using inv(1) u F f by (cases f; cases F) (auto simp: f'_def F'_def)
      moreover have "invc (Nd RED l' ?g r')"
        unfolding n' [symmetric] using inv(3,5) less.prems(2) u F f by (cases f; cases F) (auto simp: f'_def F'_def)
      ultimately obtain h' root' t' where R: "rebalance_loop ?g (recolor ?p y ?g h, root) = Some (h', root')"
        "turns (recolor ?p y ?g h, root) (plug k' (Nd RED l' ?g r')) (h', root') t'" "invh t'" "invc (paint BLACK t')"
        using less.hyps [of k' "recolor ?p y ?g h" root l' ?g r'] turns_owns [OF t] inv(2,4,6) k m
        unfolding p by (auto simp: invh_plug)
      show ?thesis using R turns_trans [OF t [unfolded p] R(2)] unfolding loop by blast
    next
      case False
      then have ub: "col ?u = BLACK" by (simp add: node_color_cases)
      then have nr: "taddr ?u = 0 \<or> n_color (h (taddr ?u)) = BLACK" using owns_sibling(4) [OF O'] by (simp add: is_black_def)
      have nle: "\<not> (taddr ?u \<noteq> 0 \<and> n_color (h (taddr ?u)) = RED)" using nr by auto
      have "\<exists>t' node' h' root'. rebalance_loop n (h, root) = rebalance_loop node' (h', root')
        \<and> turns (h, root) (plug k ?t) (h', root') (plug k' t') \<and> node' \<noteq> root' \<and> n_color (h' (n_parent (h' node'))) = BLACK
        \<and> invc t' \<and> invh t' \<and> col t' = BLACK \<and> bheight t' = bheight (plug [f, F] ?t)"
      proof (cases F)
        case (FL c g u)
        then have c: "c = BLACK" "n_left (h g) = ?p" "n_right (h g) = taddr u" using F side by auto
        have "rebalance_loop n (h, root) = (case rebalance_left n (h, root) of (node, hr) \<Rightarrow> rebalance_loop node hr)"
          by (subst rebalance_loop.simps) (use ptr c(2,3) nle FL in \<open>auto simp: Let_def\<close>)
        then show ?thesis
          using rebalance_left [of h root f g u k' l n r] O f inv(1,3) less.prems(2) ub FL c(1) unfolding k m by fastforce
      next
        case (FR c g u)
        then have c: "c = BLACK" "n_left (h g) = taddr u" "n_right (h g) = ?p" "?p \<noteq> taddr u" using F side by auto
        have "rebalance_loop n (h, root) = (case rebalance_right n (h, root) of (node, hr) \<Rightarrow> rebalance_loop node hr)"
          by (subst rebalance_loop.simps) (use ptr c(2-4) nle FR in \<open>auto simp: Let_def\<close>)
        then show ?thesis
          using rebalance_right [of h root f g u k' l n r] O f inv(1,3) less.prems(2) ub FR c(1) unfolding k m by fastforce
      qed
      then obtain t' node' h' root' where R: "rebalance_loop n (h, root) = rebalance_loop node' (h', root')"
        "turns (h, root) (plug k ?t) (h', root') (plug k' t')" "node' \<noteq> root'" "n_color (h' (n_parent (h' node'))) = BLACK"
        "invc t'" "invh t'" "col t' = BLACK" "bheight t' = bheight (plug [f, F] ?t)"
        by blast
      have "rebalance_loop node' (h', root') = Some (h', root')" by (rule rebalance_loop_stop) (use R(4) in simp)
      then have "rebalance_loop n (h, root) = Some (h', root')" using R(1) by simp
      moreover have "invh (plug k' t')" "invc (plug k' t')" using R(5-8) inv(2,4) by (simp_all add: invh_plug invc_plug)
      moreover have "invc (paint BLACK (plug k' t'))" using calculation(3) by (cases "plug k' t'") auto
      ultimately show ?thesis using R(2) by blast
    qed
  qed
qed

lemma turn_blacken:
  assumes "owns (h, root) (plug k t)"
  shows "turns (h, root) (plug k t) (blacken (taddr t) h, root) (plug k (paint BLACK t))"
  using assms turn_color [of h root k] turns_refl [OF assms] owns_node(5) [of h root k]
  by (cases t) (auto simp: blacken_def)

lemma db_rebalance_ok:
  assumes "owns (h, root) (plug k (Nd c l n r))" "balanced (plug k Lf)" "l = Lf" "r = Lf"
  shows "\<exists>h' root' t'. db_rebalance n (h, root) = Some (h', root')
      \<and> turns (h, root) (plug k (Nd c l n r)) (h', root') t' \<and> balanced t'"
proof -
  let ?t = "Nd RED l n r"
  have 1: "turns (h, root) (plug k (Nd c l n r)) (set_color n RED h, root) (plug k ?t)" by (rule turn_color [OF assms(1)])
  have b: "kinvc k BLACK" "kinvh k 0" "k = [] \<or> fcol (last k) = BLACK"
    using assms(2) by (auto simp: balanced_def invh_plug invc_plug col_plug split: if_splits)
  obtain h' root' t' where R: "rebalance_loop n (set_color n RED h, root) = Some (h', root')"
    "turns (set_color n RED h, root) (plug k ?t) (h', root') t'" "invh t'" "invc (paint BLACK t')"
    using rebalance_loop_balances [OF turns_owns [OF 1]] b assms(3,4) by (auto simp: invh_plug)
  have "addrs t' \<noteq> []" using R(2) set_addrs_plug [of k ?t] by (auto simp: turns_def)
  then have "t' \<noteq> Lf" by auto
  then have "root' \<noteq> 0" "root' = taddr t'" using turns_owns [OF R(2)] by (cases t'; simp add: owns_def)+
  then have 2: "turns (h', root') t' (set_color root' BLACK h', root') (paint BLACK t')"
    using turn_blacken [of h' root' "[]" t'] turns_owns [OF R(2)] by (simp add: blacken_def)
  have "balanced (paint BLACK t')" using R(3,4) by (cases t') (simp_all add: balanced_def)
  then show ?thesis
    using turns_trans [OF turns_trans [OF 1 R(2)] 2] R(1) unfolding db_rebalance_def by (intro exI) (auto)
qed

end
