(* ===== verification/Rberase.thy ===== *)
theory Rberase
  imports Rbbalance
begin

text \<open>
  \<open>db_rebalance_erase\<close> of common/db.cpp: it returns, takes exactly the node out of the tree,
  keeps the order of the others and restores the balance.
\<close>

section \<open>Taking a node out\<close>

lemma filter_plug:
  "addrs t' = filter P (addrs t) \<Longrightarrow> \<forall>x \<in> set (kaddrs k). P x \<Longrightarrow> addrs (plug k t') = filter P (addrs (plug k t))"
proof (induction k arbitrary: t t')
  case (Cons f k)
  have "addrs (plug [f] t') = filter P (addrs (plug [f] t))" using Cons.prems by (cases f) auto
  from Cons.IH [OF this] show ?case using Cons.prems(2) by (cases f) auto
qed simp

text \<open>A node with at most one child: the child takes its place.\<close>

definition only_child :: "ct \<Rightarrow> ct \<Rightarrow> ct" where
  "only_child l r = (if l = Lf then r else l)"

lemma drop_node:
  assumes "owns (h, root) (plug k (Nd c l n r))" "l = Lf \<or> r = Lf"
  defines "x \<equiv> only_child l r"
  shows "owns (link_child n (taddr x) k (set_parent0 (taddr x) (kpar k) h), taddr (plug k x)) (plug k x)"
proof -
  let ?h = "link_child n (taddr x) k (set_parent0 (taddr x) (kpar k) h)"
  have O: "tree_at h (kpar k) (Nd c l n r)" "path_at h n k" "distinct (addrs (Nd c l n r))" "distinct (kaddrs k)"
    "set (addrs (Nd c l n r)) \<inter> set (kaddrs k) = {}"
    using assms(1) by (simp_all add: owns_plug)
  have x: "tree_at h n x" "set (addrs x) \<inter> set (kaddrs k) = {}" "distinct (addrs x)"
    using O(1,3,5) by (auto simp: x_def only_child_def)
  have "?h z = (if x \<noteq> Lf \<and> z = taddr x then (h z)\<lparr>n_parent := kpar k\<rparr> else h z)" if "z \<in> set (addrs x)" for z
    using that x(2) kpar_in [of k] tree_at_nonzero [OF x(1)]
    by (subst link_child_at) (auto simp: set_parent0_def set_defs)
  then have "tree_at ?h (kpar k) x"
    by (intro tree_at_new_parent [OF x(1) _ _ x(3)]) (use taddr_in [of x] in auto)
  moreover have "path_at ?h (taddr x) k"
  proof (rule path_at_new_child [OF O(2,4)], rule ballI)
    fix z assume z: "z \<in> set (kaddrs k)"
    have "set_parent0 (taddr x) (kpar k) h v = h v" if "v \<in> set (kaddrs k)" for v
      using that x(2) taddr_in [of x] by (cases "x = Lf") (auto simp: set_parent0_def set_defs)
    then show "?h z = link_child n (taddr x) k h z" using z kpar_in [of k] by (intro link_child_cong) auto
  qed
  ultimately show ?thesis using x(2,3) O(4) by (simp add: owns_plug)
qed

lemma relink_eq:
  assumes "owns (h, root) (plug k (Nd c l n r))" "n_parent (g n) = kpar k" "taddr t' = y"
    and "k \<noteq> [] \<Longrightarrow> n_left (g (kpar k)) = n_left (h (kpar k))" "k \<noteq> [] \<Longrightarrow> n_right (g (kpar k)) = n_right (h (kpar k))"
  shows "relink n y (g, root) = (link_child n y k g, taddr (plug k t'))"
proof -
  have O: "path_at h n k" "n \<notin> set (kaddrs k)" "n \<noteq> 0" "root = taddr (plug k (Nd c l n r))"
    using assms(1) by (simp_all add: owns_plug)
  have "relink n y (g, root) = (if n = root then (g, y)
      else if n = n_left (g (kpar k)) then (set_left (kpar k) y g, root) else (set_right (kpar k) y g, root))"
    by (simp only: relink_def Let_def prod.case assms(2) eq_commute [of root n] eq_commute [of "n_left (g (kpar k))" n])
  also have "\<dots> = (link_child n y k g, taddr (plug k t'))"
    by (rule link_up(1) [OF O]) (use assms in simp_all)
  finally show ?thesis .
qed

lemma relinks_set_parent0: "x = 0 \<or> x \<in> A \<Longrightarrow> relinks A h (set_parent0 x v h)"
  by (auto simp: set_parent0_def relinks_set)

lemma unlink_one:
  assumes "owns (h, root) (plug k (Nd c l n r))" "l = Lf \<or> r = Lf"
  defines "x \<equiv> only_child l r"
  shows "\<exists>hr'. unlink n (h, root) = Some (taddr x, kpar k, c, hr') \<and> owns hr' (plug k x)
      \<and> addrs (plug k x) = filter (\<lambda>z. z \<noteq> n) (addrs (plug k (Nd c l n r)))
      \<and> relinks (set (addrs (plug k (Nd c l n r)))) h (fst hr')"
proof -
  let ?h = "set_parent0 (taddr x) (kpar k) h"
  have nd: "n_parent (h n) = kpar k" "n_left (h n) = taddr l" "n_right (h n) = taddr r" "n_color (h n) = c"
    using owns_node [OF assms(1)] by simp_all
  have O: "tree_at h (kpar k) (Nd c l n r)" "distinct (addrs (Nd c l n r))" "set (addrs (Nd c l n r)) \<inter> set (kaddrs k) = {}"
    using assms(1) by (simp_all add: owns_plug)
  have z: "taddr s = 0 \<longleftrightarrow> s = Lf" if "s = l \<or> s = r" for s using O(1) that taddr_eq_0 [of h n s] by auto
  have t: "(if n_left (h n) = 0 then n_right (h n) else n_left (h n)) = taddr x" "n_left (h n) = 0 \<or> n_right (h n) = 0"
    using z assms(2) nd by (auto simp: x_def only_child_def)
  have xn: "taddr x \<noteq> n" "n_parent (?h n) = kpar k" "n_color (?h n) = c"
    using O taddr_in [of l] taddr_in [of r] nd z
    by (cases "l = Lf"; auto simp: x_def only_child_def set_parent0_def set_defs)+
  have "relink n (taddr x) (?h, root) = (link_child n (taddr x) k ?h, taddr (plug k x))"
    by (rule relink_eq [OF assms(1), where g = ?h]) (use xn(2) in \<open>simp_all add: set_parent0_def set_defs\<close>)
  then have u: "unlink n (h, root) = Some (taddr x, kpar k, c, link_child n (taddr x) k ?h, taddr (plug k x))"
    using t nd xn by (simp add: unlink_def Let_def)
  have "addrs x = filter (\<lambda>z. z \<noteq> n) (addrs (Nd c l n r))"
    using O(2) assms(2) by (auto simp: x_def only_child_def filter_id_conv intro: filter_True [symmetric])
  then have f: "addrs (plug k x) = filter (\<lambda>z. z \<noteq> n) (addrs (plug k (Nd c l n r)))"
    by (rule filter_plug) (use O(3) in auto)
  have "relinks (set (addrs (plug k (Nd c l n r)))) h (link_child n (taddr x) k ?h)"
    by (rule relinks_trans [OF relinks_set_parent0 relinks_link_child])
      (use taddr_in [of x] taddr_eq_0 [of h n l] taddr_eq_0 [of h n r] O(1) in \<open>auto simp: set_addrs_plug x_def only_child_def\<close>)
  then show ?thesis using u f drop_node [OF assms(1,2)] by (auto simp: x_def)
qed

text \<open>The node \<open>y\<close> takes over the place of \<open>n\<close>.\<close>

lemma replace_node:
  assumes "owns (h, root) (plug k (Nd c l n r))" "y \<notin> set (addrs (plug k (Nd c l n r)))" "y \<noteq> 0"
    and "n_parent (g y) = kpar k" "n_left (g y) = taddr l" "n_right (g y) = taddr r" "n_color (g y) = c"
    and "\<And>s. s = l \<or> s = r \<Longrightarrow> s \<noteq> Lf \<longrightarrow> g (taddr s) = (h (taddr s))\<lparr>n_parent := y\<rparr>"
    and "\<And>s z. s = l \<or> s = r \<Longrightarrow> z \<in> set (addrs s) \<Longrightarrow> z \<noteq> taddr s \<Longrightarrow> g z = h z"
    and "\<forall>z \<in> set (kaddrs k). g z = link_child n y k h z"
  shows "owns (g, taddr (plug k (Nd c l y r))) (plug k (Nd c l y r))"
proof -
  have O: "tree_at h n l" "tree_at h n r" "path_at h n k" "distinct (addrs (Nd c l n r))" "distinct (kaddrs k)"
    "set (addrs (Nd c l n r)) \<inter> set (kaddrs k) = {}" "distinct (addrs l)" "distinct (addrs r)"
    using assms(1) by (simp_all add: owns_plug)
  have t: "tree_at g y s" if "s = l \<or> s = r" for s
  proof (rule tree_at_new_parent [of h n])
    show "tree_at h n s" "distinct (addrs s)" using that O by auto
    show "s \<noteq> Lf \<longrightarrow> g (taddr s) = (h (taddr s))\<lparr>n_parent := y\<rparr>" by (rule assms(8) [OF that])
    show "\<forall>z \<in> set (addrs s). z \<noteq> taddr s \<longrightarrow> g z = h z" using assms(9) [OF that] by blast
  qed
  have "path_at g y k" by (rule path_at_new_child [OF O(3,5) assms(10)])
  then show ?thesis using t [of l] t [of r] assms(2-7) O(4-6) by (auto simp: owns_plug set_addrs_plug)
qed

lemma spine:
  assumes "tree_at h p r" "r \<noteq> Lf"
  shows "\<exists>ks c y x. r = plug ks (Nd c Lf y x) \<and> (\<forall>f \<in> set ks. \<exists>c a s. f = FL c a s) \<and> leftmost h (taddr r) = Some y"
  using assms
proof (induction r arbitrary: p)
  case (Nd c l a r)
  show ?case
  proof (cases "l = Lf")
    case True
    then have "leftmost h a = Some a" using Nd.prems by (subst leftmost.simps) simp
    then show ?thesis using True by (intro exI [of _ "[]"] exI [of _ c] exI [of _ a] exI [of _ r]) simp
  next
    case False
    then obtain ks d y x where I: "l = plug ks (Nd d Lf y x)" "\<forall>f \<in> set ks. \<exists>c a s. f = FL c a s" "leftmost h (taddr l) = Some y"
      using Nd.IH(1) [of a] Nd.prems by auto
    have "taddr l \<noteq> 0" using False Nd.prems by (cases l) auto
    then have "leftmost h (taddr (Nd c l a r)) = Some y" using I(3) Nd.prems by (subst leftmost.simps) simp
    moreover have "Nd c l a r = plug (ks @ [FL c a r]) (Nd d Lf y x)"
      using I(1) by (simp add: plug_append)
    ultimately show ?thesis
      using I(2) by (intro exI [of _ "ks @ [FL c a r]"] exI [of _ d] exI [of _ y] exI [of _ x]) (auto simp del: taddr.simps)
  qed
qed simp

lemma addrs_plug_left: "\<forall>f \<in> set ks. \<exists>c a s. f = FL c a s \<Longrightarrow> \<exists>B. \<forall>t. addrs (plug ks t) = addrs t @ B"
proof (induction ks)
  case (Cons f ks)
  then obtain B c a s where "\<forall>t. addrs (plug ks t) = addrs t @ B" "f = FL c a s" by auto
  then show ?case by auto
qed simp

text \<open>A node with two children: the leftmost node of its right subtree takes its place.\<close>

definition near_links :: "nat \<Rightarrow> nat \<Rightarrow> ('k, 'd) store \<Rightarrow> ('k, 'd) store" where
  "near_links y a h = set_left y a (set_parent a y h)"

definition far_links :: "nat \<Rightarrow> nat \<Rightarrow> nat \<Rightarrow> nat \<Rightarrow> nat \<Rightarrow> ('k, 'd) store \<Rightarrow> ('k, 'd) store" where
  "far_links y a b x q h = set_parent b y (set_right y b (set_left q x (set_parent0 x q (near_links y a h))))"

lemma unlink_two_eval:
  assumes "owns (h, root) (plug k (Nd c l n r))" "l \<noteq> Lf" "r \<noteq> Lf" "leftmost h (taddr r) = Some y" "n_color (h y) = cy"
    and "y \<noteq> n" "taddr t' = y" "y \<noteq> taddr l" "y \<noteq> n_right (h y)"
    and "G = (if y = taddr r then near_links y (taddr l) h else far_links y (taddr l) (taddr r) (n_right (h y)) (n_parent (h y)) h)"
    and "G n = h n" "n_color (G y) = cy" "k \<noteq> [] \<Longrightarrow> G (kpar k) = h (kpar k)"
  shows "unlink n (h, root) = Some (n_right (h y), if y = taddr r then y else n_parent (h y), cy,
      set_color n cy (set_color y c (set_parent y (kpar k) (link_child n y k G))), taddr (plug k t'))"
proof -
  have nd: "n_parent (h n) = kpar k" "n_left (h n) = taddr l" "n_right (h n) = taddr r" "n_color (h n) = c"
    using owns_node [OF assms(1)] by simp_all
  have "tree_at h n l" "tree_at h n r" using assms(1) by (simp_all add: owns_plug)
  then have nz: "taddr l \<noteq> 0" "taddr r \<noteq> 0" using assms(2,3) taddr_eq_0 by auto
  have kn: "k = [] \<or> n \<noteq> kpar k" using assms(1) kpar_in [of k] by (auto simp: owns_plug)
  have rl: "relink n y (G, root) = (link_child n y k G, taddr (plug k t'))"
    by (rule relink_eq [OF assms(1), where g = G]) (use assms nd in simp_all)
  have p: "n_parent (link_child n y k G n) = kpar k" "n_color (link_child n y k G n) = c" "n_color (link_child n y k G y) = cy"
    using kn assms(11,12) nd by (simp_all add: link_child_at) (auto simp: link_child_def set_defs split: list.splits frame.splits)
  show ?thesis
  proof (cases "y = taddr r")
    case True
    then have "set_left y (taddr l) (set_parent (taddr l) y h) = G" using assms(10) by (simp add: near_links_def)
    then show ?thesis
      using True nd nz assms(4-9) rl p by (simp add: unlink_def Let_def)
  next
    case False
    then have "set_parent (taddr r) y (set_right y (taddr r) (set_left (n_parent (h y)) (n_right (h y))
        (set_parent0 (n_right (h y)) (n_parent (h y)) (set_left y (taddr l) (set_parent (taddr l) y h))))) = G"
      using assms(10) by (simp add: near_links_def far_links_def)
    then show ?thesis
      using False nd nz assms(4-9) rl p by (simp add: unlink_def Let_def)
  qed
qed

text \<open>Both ways of linking \<open>y\<close> agree with dropping \<open>y\<close> first and then moving it to the place of \<open>n\<close>.\<close>

lemma near_links:
  assumes "n_right (h y) = x" "n \<noteq> y" "a \<noteq> n" "a \<noteq> y" "a \<noteq> x" "x \<noteq> n" "x \<noteq> y"
  defines "h1 \<equiv> set_right n x (set_parent0 x n h)"
  shows "n_left (near_links y a h y) = a" "n_right (near_links y a h y) = x" "n_color (near_links y a h y) = n_color (h y)"
    and "near_links y a h n = h n"
    and "near_links y a h a = (h1 a)\<lparr>n_parent := y\<rparr>" "n_parent (h x) = y \<Longrightarrow> near_links y a h x = (h1 x)\<lparr>n_parent := y\<rparr>"
    and "z \<noteq> n \<Longrightarrow> z \<noteq> y \<Longrightarrow> z \<noteq> a \<Longrightarrow> z \<noteq> x \<Longrightarrow> near_links y a h z = h1 z"
  using assms by (auto simp: near_links_def set_defs set_parent0_def)

lemma far_links:
  fixes h :: "('k, 'd) store"
  assumes "n \<noteq> y" "a \<noteq> n" "b \<noteq> n" "x \<noteq> n" "q \<noteq> n" "a \<noteq> y" "b \<noteq> y" "q \<noteq> y" "a \<noteq> b" "a \<noteq> q" "a \<noteq> x" "x \<noteq> y"
  defines "h1 \<equiv> set_left q x (set_parent0 x q h)"
  shows "n_left (far_links y a b x q h y) = a" "n_right (far_links y a b x q h y) = b"
    and "n_color (far_links y a b x q h y) = n_color (h y)" "far_links y a b x q h n = h n"
    and "far_links y a b x q h a = (h1 a)\<lparr>n_parent := y\<rparr>" "far_links y a b x q h b = (h1 b)\<lparr>n_parent := y\<rparr>"
    and "z \<noteq> y \<Longrightarrow> z \<noteq> a \<Longrightarrow> z \<noteq> b \<Longrightarrow> far_links y a b x q h z = h1 z"
  using assms by (auto simp: far_links_def near_links_def set_defs set_parent0_def)

lemma moved_store:
  assumes "owns (h, root) (plug k (Nd c l n r))" "l \<noteq> Lf" "y \<notin> set (addrs (plug k (Nd c l n r)))" "y \<noteq> 0"
    and "n_left (G y) = taddr l" "n_right (G y) = taddr r" "G (taddr l) = (h (taddr l))\<lparr>n_parent := y\<rparr>"
    and "r \<noteq> Lf \<Longrightarrow> G (taddr r) = (h (taddr r))\<lparr>n_parent := y\<rparr>"
    and "\<And>z. z \<noteq> n \<Longrightarrow> z \<noteq> y \<Longrightarrow> z \<noteq> taddr l \<Longrightarrow> z \<noteq> taddr r \<Longrightarrow> G z = h z"
  shows "owns (set_color n cy (set_color y c (set_parent y (kpar k) (link_child n y k G))), taddr (plug k (Nd c l y r)))
      (plug k (Nd c l y r))"
proof -
  let ?F = "set_color n cy (set_color y c (set_parent y (kpar k) (link_child n y k G)))"
  have D: "set (addrs (Nd c l n r)) \<inter> set (kaddrs k) = {}" "distinct (addrs (Nd c l n r))" "0 \<notin> set (kaddrs k)"
    "tree_at h n l" "tree_at h n r"
    using assms(1) path_at_nonzero by (auto simp: owns_plug)
  have y: "y \<notin> set (addrs (Nd c l n r))" "y \<notin> set (kaddrs k)" using assms(3) by (simp_all add: set_addrs_plug)
  have L: "taddr l \<in> set (addrs l)" using taddr_in assms(2) by simp
  have R: "taddr r \<in> set (addrs r) \<or> r = Lf \<and> taddr r = 0" using taddr_in [of r] by (cases "r = Lf") auto
  have F: "?F z = G z" if "z \<in> set (addrs l) \<union> set (addrs r)" for z
  proof -
    have "z \<noteq> n" "z \<noteq> y" "k = [] \<or> z \<noteq> kpar k" using that D(1,2) y kpar_in [of k] by auto
    then show ?thesis by (simp add: set_defs link_child_at)
  qed
  show ?thesis
  proof (rule replace_node [OF assms(1,3,4)])
    have "k = [] \<or> y \<noteq> kpar k" using y kpar_in [of k] by auto
    then show "n_parent (?F y) = kpar k" "n_left (?F y) = taddr l" "n_right (?F y) = taddr r" "n_color (?F y) = c"
      using assms(5,6) y(1) by (simp_all add: link_child_at)
    show "s \<noteq> Lf \<longrightarrow> ?F (taddr s) = (h (taddr s))\<lparr>n_parent := y\<rparr>" if "s = l \<or> s = r" for s
      using that F [of "taddr l"] F [of "taddr r"] L R assms(7,8) by auto
    show "?F z = h z" if "s = l \<or> s = r" "z \<in> set (addrs s)" "z \<noteq> taddr s" for s z
    proof -
      have "z \<noteq> taddr l \<and> z \<noteq> taddr r \<and> z \<noteq> n \<and> z \<noteq> y"
        using that L R D(2) y(1) tree_at_nonzero [OF D(4)] tree_at_nonzero [OF D(5)] by auto
      then show ?thesis using F [of z] that(1,2) assms(9) [of z] by auto
    qed
    show "\<forall>z \<in> set (kaddrs k). ?F z = link_child n y k h z"
    proof
      fix z assume z: "z \<in> set (kaddrs k)"
      have e: "G v = h v" if "v \<in> set (kaddrs k)" for v
        by (rule assms(9)) (use that D(1,3) L R y in auto)
      have "?F z = link_child n y k G z" using z D(1) y by (auto simp: set_defs)
      also have "\<dots> = link_child n y k h z" by (rule link_child_cong) (use e z kpar_in [of k] in auto)
      finally show "?F z = link_child n y k h z" .
    qed
  qed
qed

lemma kaddrs_append: "kaddrs (k @ k') = kaddrs k @ kaddrs k'"
  by (induction k) simp_all

lemma kpar_append: "kpar (k @ k') = (if k = [] then kpar k' else kpar k)"
  by (cases k) simp_all

lemma relinks_links:
  assumes "y \<in> A" "a \<in> A"
  shows "relinks A h (near_links y a h)"
    and "b \<in> A \<Longrightarrow> q \<in> A \<Longrightarrow> x = 0 \<or> x \<in> A \<Longrightarrow> relinks A h (far_links y a b x q h)"
proof -
  show n: "relinks A h (near_links y a h)"
    unfolding near_links_def by (rule relinks_trans [OF relinks_set(1) relinks_set(2)]) (use assms in simp_all)
  show "relinks A h (far_links y a b x q h)" if "b \<in> A" "q \<in> A" "x = 0 \<or> x \<in> A"
    unfolding far_links_def
    by (rule relinks_trans [OF relinks_trans [OF relinks_trans [OF relinks_trans [OF n relinks_set_parent0] relinks_set(2)]
        relinks_set(3)] relinks_set(1)]) (use assms that in simp_all)
qed

lemma relinks_final:
  "relinks A h G \<Longrightarrow> n \<in> A \<Longrightarrow> y \<in> A \<Longrightarrow> set (kaddrs k) \<subseteq> A \<Longrightarrow>
     relinks A h (set_color n cy (set_color y c (set_parent y v (link_child m y k G))))"
  by (rule relinks_trans [OF relinks_trans [OF relinks_trans [OF relinks_trans [OF _ relinks_link_child] relinks_set(1)]
      relinks_set(4)] relinks_set(4)])

text \<open>The addresses around the node \<open>y\<close> that replaces \<open>n\<close>.\<close>

lemma unlink_two:
  assumes "owns (h, root) (plug k (Nd c l n (plug ks (Nd cy Lf y x))))" "l \<noteq> Lf" "\<forall>f \<in> set ks. \<exists>c a s. f = FL c a s"
    and "leftmost h (taddr (plug ks (Nd cy Lf y x))) = Some y"
  defines "T \<equiv> plug k (Nd c l n (plug ks (Nd cy Lf y x)))"
  shows "\<exists>hr'. unlink n (h, root) = Some (taddr x, kpar (ks @ FR c y l # k), cy, hr')
      \<and> owns hr' (plug (ks @ FR c y l # k) x)
      \<and> addrs (plug (ks @ FR c y l # k) x) = filter (\<lambda>z. z \<noteq> n) (addrs T) \<and> relinks (set (addrs T)) h (fst hr')"
proof -
  let ?r = "plug ks (Nd cy Lf y x)" and ?K = "ks @ FR c n l # k" and ?R = "plug ks x" and ?L = "taddr l" and ?X = "taddr x"
  have O: "owns (h, root) (plug ?K (Nd cy Lf y x))" using assms(1) by (simp add: plug_append)
  have nd: "n_parent (h y) = kpar ?K" "n_right (h y) = ?X" "n_color (h y) = cy" "y \<noteq> 0"
    using owns_node [OF O] by simp_all
  have D: "distinct (y # addrs x @ kaddrs ks @ n # addrs l @ kaddrs k)" "0 \<notin> set (kaddrs ks)" "0 \<notin> set (addrs l)" "n \<noteq> 0"
    using O path_at_nonzero [of h y ?K] by (auto simp: owns_plug kaddrs_append)
  have P: "n_parent (h ?X) = y" if "x \<noteq> Lf" using O that by (cases x) (auto simp: owns_plug)
  have L: "?L \<in> set (addrs l)" using taddr_in assms(2) by simp
  have X: "?X \<in> set (addrs x) \<or> ?X = 0 \<and> x = Lf" using taddr_in [of x] by (cases "x = Lf") auto
  let ?h1 = "link_child y ?X ?K (set_parent0 ?X (kpar ?K) h)"
  have O1: "owns (?h1, taddr (plug k (Nd c l n ?R))) (plug k (Nd c l n ?R))"
    using drop_node [OF O] by (simp add: only_child_def plug_append)
  have y1: "y \<notin> set (addrs (plug k (Nd c l n ?R)))" using D(1) by (simp add: set_addrs_plug)
  let ?G = "if y = taddr ?r then near_links y ?L h else far_links y ?L (taddr ?r) (n_right (h y)) (n_parent (h y)) h"
  let ?F = "set_color n cy (set_color y c (set_parent y (kpar k) (link_child n y k ?G)))"
  let ?A = "set (addrs T)"
  have A: "y \<in> ?A" "?L \<in> ?A" "n \<in> ?A" "set (kaddrs k) \<subseteq> ?A" "set (kaddrs ks) \<subseteq> ?A" "?X = 0 \<or> ?X \<in> ?A"
    using L X by (auto simp: T_def set_addrs_plug)
  have G: "n_left (?G y) = ?L \<and> n_right (?G y) = taddr ?R \<and> n_color (?G y) = cy \<and> ?G n = h n
      \<and> ?G ?L = (?h1 ?L)\<lparr>n_parent := y\<rparr> \<and> (?R \<noteq> Lf \<longrightarrow> ?G (taddr ?R) = (?h1 (taddr ?R))\<lparr>n_parent := y\<rparr>)
      \<and> (\<forall>z. z \<noteq> n \<longrightarrow> z \<noteq> y \<longrightarrow> z \<noteq> ?L \<longrightarrow> z \<noteq> taddr ?R \<longrightarrow> ?G z = ?h1 z) \<and> relinks ?A h ?G"
  proof (cases ks)
    case Nil
    have h1: "?h1 = set_right n ?X (set_parent0 ?X n h)" using Nil by (simp add: link_child_def)
    have g: "?G = near_links y ?L h" using Nil by simp
    have d: "n \<noteq> y" "?L \<noteq> n" "?L \<noteq> y" "?L \<noteq> ?X" "?X \<noteq> n" "?X \<noteq> y" using D L X nd(4) by auto
    note N = near_links [where h = h and y = y and a = ?L and x = ?X and n = n, OF nd(2) d, folded h1]
    show ?thesis unfolding g using N P nd(3) relinks_links(1) [OF A(1,2)] Nil by auto
  next
    case (Cons f ms)
    let ?q = "kpar ks" and ?b = "faddr (last ks)"
    have q: "?q \<in> set (kaddrs ks)" "?b \<in> set (kaddrs ks)" using kpar_in [of ks] faddr_last_in [of ks] Cons by auto
    have r: "taddr ?r = ?b" "taddr ?R = ?b" using Cons by (simp_all only: taddr_plug list.distinct if_False)
    have h1: "?h1 = set_left ?q ?X (set_parent0 ?X ?q h)"
      using assms(3) Cons by (auto simp: link_child_def kpar_append)
    have d: "n \<noteq> y" "?L \<noteq> n" "?b \<noteq> n" "?X \<noteq> n" "?q \<noteq> n" "?L \<noteq> y" "?b \<noteq> y" "?q \<noteq> y" "?L \<noteq> ?b" "?L \<noteq> ?q" "?L \<noteq> ?X" "?X \<noteq> y"
      using D L X q nd(4) by auto
    have g: "?G = far_links y ?L ?b ?X ?q h" using r d(7) nd(1,2) Cons by (simp only: kpar_append) simp
    note N = far_links [where h = h and y = y and a = ?L and b = ?b and x = ?X and q = ?q and n = n, OF d, folded h1]
    have "relinks ?A h (far_links y ?L ?b ?X ?q h)" by (rule relinks_links(2)) (use A q in auto)
    then show ?thesis unfolding g r(2) using N nd(3) by auto
  qed
  have y: "y \<noteq> n" "y \<noteq> ?L" "y \<noteq> n_right (h y)" using D(1) L X nd(2,4) by auto
  have rn: "?r \<noteq> Lf" using addrs_eq_Nil(2) [of ks "Nd cy Lf y x"] by auto
  have kp: "?G (kpar k) = h (kpar k)" if "k \<noteq> []"
  proof -
    have v: "kpar k \<in> set (kaddrs k)" using kpar_in that by blast
    have K: "kpar ?K \<in> set (kaddrs ks) \<union> {n}" using kpar_in [of ks] by (simp add: kpar_append)
    have R: "taddr ?R \<in> set (kaddrs ks) \<union> set (addrs x) \<or> taddr ?R = 0"
      using taddr_in [of ?R] by (cases "?R = Lf") (auto simp: set_addrs_plug)
    have z: "kpar k \<noteq> 0" using v O path_at_nonzero [of h y ?K] by (auto simp: owns_plug kaddrs_append)
    have ne: "kpar k \<noteq> n" "kpar k \<noteq> y" "kpar k \<noteq> ?L" "kpar k \<noteq> taddr ?R" "kpar k \<noteq> kpar ?K" "kpar k \<noteq> ?X"
      using v D(1) K R L X z by auto
    then have "?h1 (kpar k) = h (kpar k)" by (simp add: link_child_at set_parent0_def set_defs)
    then show ?thesis using G ne by presburger
  qed
  have u: "unlink n (h, root) = Some (n_right (h y), if y = taddr ?r then y else n_parent (h y), cy, ?F, taddr (plug k (Nd c l y ?R)))"
    by (rule unlink_two_eval [OF assms(1,2) rn assms(4) nd(3) y(1) _ y(2,3) refl]) (use G kp in auto)
  have m: "owns (?F, taddr (plug k (Nd c l y ?R))) (plug k (Nd c l y ?R))"
    by (rule moved_store [OF O1 assms(2) y1 nd(4)]) (use G in blast)+
  obtain B where B: "addrs (plug ks t) = addrs t @ B" for t using addrs_plug_left [OF assms(3)] by blast
  have "addrs (Nd c l y ?R) = filter (\<lambda>z. z \<noteq> n) (addrs (Nd c l n ?r))"
  proof -
    have "n \<notin> set (addrs l)" "n \<notin> set (addrs x @ B)" "n \<noteq> y" using D(1) set_addrs_plug [of ks x] by (auto simp: B)
    moreover have "n \<notin> set zs \<Longrightarrow> filter (\<lambda>z. z \<noteq> n) zs = zs" for zs by (rule filter_True) auto
    ultimately show ?thesis by (simp add: B)
  qed
  then have f: "addrs (plug k (Nd c l y ?R)) = filter (\<lambda>z. z \<noteq> n) (addrs T)"
    unfolding T_def by (rule filter_plug) (use D(1) in auto)
  have p: "(if y = taddr ?r then y else n_parent (h y)) = kpar (ks @ FR c y l # k)"
  proof (cases "ks = []")
    case False
    then have "taddr ?r \<in> set (kaddrs ks)" using faddr_last_in [of ks] by (simp add: taddr_plug)
    then show ?thesis using False D(1) nd(1) by (auto simp: kpar_append)
  qed simp
  have "relinks ?A h ?F" by (rule relinks_final) (use G A in auto)
  then show ?thesis using u m f p nd(2) by (intro exI [of _ "(?F, taddr (plug k (Nd c l y ?R)))"]) (simp add: plug_append)
qed


section \<open>One turn of the loop of \<open>db_rebalance_erase\<close>\<close>

text \<open>The four cases for a sibling on the right.\<close>

lemma erase_left_red:
  assumes "owns (h, root) (plug (FL c xp (Nd RED a w b) # k) t)" "col a = BLACK" "a \<noteq> Lf"
  shows "\<exists>hr'. erase_left xp (h, root) = erase_left xp hr'
      \<and> turns (h, root) (plug (FL c xp (Nd RED a w b) # k) t) hr' (plug (FL RED xp a # FL BLACK w b # k) t)"
proof -
  let ?T = "plug (FL c xp (Nd RED a w b) # k) t" and ?h = "set_color xp RED (set_color w BLACK h)"
  obtain h' root' where r: "db_rotate_left xp (?h, root) = (h', root')" by force
  have 1: "turns (h, root) ?T (set_color w BLACK h, root) (plug (FL c xp (Nd BLACK a w b) # k) t)"
    by (rule turn_color_sibling(1) [OF assms(1)])
  have 2: "turns (h, root) ?T (?h, root) (plug (FL RED xp (Nd BLACK a w b) # k) t)"
    by (rule turns_trans [OF 1 turn_color_parent(1) [OF turns_owns [OF 1]]])
  have 3: "turns (h, root) ?T (h', root') (plug (FL RED xp a # FL BLACK w b # k) t)"
    by (rule turns_trans [OF 2]) (use turn_left [of ?h root k RED t xp BLACK a w b] turns_owns [OF 2] r in simp)
  have w: "n_right (h xp) = w" "n_color (h w) = RED"
    using owns_frame(4) [OF assms(1)] owns_sibling(2) [OF assms(1)] by simp_all
  have w': "n_right (h' xp) = taddr a" "n_color (h' (taddr a)) = BLACK"
    using owns_frame(4) [OF turns_owns [OF 3]] owns_sibling(2) [OF turns_owns [OF 3]] assms(2,3) by simp_all
  have "erase_left xp (h, root) = erase_left xp (h', root')"
    unfolding erase_left_def Let_def prod.case w r w' by simp
  then show ?thesis using 3 by blast
qed

text \<open>The colors of the children of the black sibling.\<close>

lemma sibling_ptr:
  assumes "owns (h, root) (plug (FL c xp (Nd d a w b) # k) t)"
  shows "n_right (h xp) = w" "n_color (h w) = d" "n_left (h w) = taddr a" "n_right (h w) = taddr b" "n_color (h xp) = c"
    and "is_black h (taddr a) \<longleftrightarrow> col a = BLACK" "is_black h (taddr b) \<longleftrightarrow> col b = BLACK" "w \<noteq> xp"
proof -
  have W: "owns (h, root) (plug (FR c xp t # k) (Nd d a w b))" using assms by simp
  show "n_right (h xp) = w" "n_color (h w) = d" "n_left (h w) = taddr a" "n_right (h w) = taddr b" "n_color (h xp) = c"
    using owns_frame(1,4) [OF assms] owns_node [OF W] by simp_all
  have "owns (h, root) (plug (FR d w a # FR c xp t # k) b)" "owns (h, root) (plug (FL d w b # FR c xp t # k) a)"
    using W by simp_all
  from this [THEN owns_sibling(4)] show "is_black h (taddr a) \<longleftrightarrow> col a = BLACK" "is_black h (taddr b) \<longleftrightarrow> col b = BLACK"
    by simp_all
  show "w \<noteq> xp" using assms by (auto simp: owns_plug)
qed

lemma erase_left_up:
  assumes "owns (h, root) (plug (FL c xp (Nd BLACK a w b) # k) t)" "col a = BLACK" "col b = BLACK"
  shows "\<exists>hr'. erase_left xp (h, root) = (True, hr')
      \<and> turns (h, root) (plug (FL c xp (Nd BLACK a w b) # k) t) hr' (plug (FL c xp (Nd RED a w b) # k) t)"
proof -
  have "erase_left xp (h, root) = (True, set_color w RED h, root)"
    unfolding erase_left_def Let_def prod.case using sibling_ptr [OF assms(1)] assms(2,3) by simp
  then show ?thesis using turn_color_sibling(1) [OF assms(1), of RED] by blast
qed

text \<open>The far child is red: a rotation at the parent ends the loop.\<close>

lemma erase_left_far:
  assumes "owns (h, root) (plug (FL c xp (Nd BLACK a w b) # k) t)" "col b = RED"
  shows "\<exists>hr'. erase_left xp (h, root) = (False, hr')
      \<and> turns (h, root) (plug (FL c xp (Nd BLACK a w b) # k) t) hr' (plug k (Nd c (Nd BLACK t xp a) w (paint BLACK b)))"
proof -
  let ?T = "plug (FL c xp (Nd BLACK a w b) # k) t"
  let ?h1 = "set_color w c h" let ?h2 = "set_color xp BLACK ?h1" let ?h3 = "blacken (taddr b) ?h2"
  have 1: "turns (h, root) ?T (?h1, root) (plug (FL c xp (Nd c a w b) # k) t)"
    by (rule turn_color_sibling(1) [OF assms(1)])
  have 2: "turns (h, root) ?T (?h2, root) (plug (FL BLACK xp (Nd c a w b) # k) t)"
    by (rule turns_trans [OF 1 turn_color_parent(1) [OF turns_owns [OF 1]]])
  have 3: "turns (h, root) ?T (?h3, root) (plug (FR c w a # FR BLACK xp t # k) (paint BLACK b))"
    by (rule turns_trans [OF 2]) (use turn_blacken [of ?h2 root "FR c w a # FR BLACK xp t # k" b] turns_owns [OF 2] in simp)
  have 4: "turns (h, root) ?T (db_rotate_left xp (?h3, root)) (plug k (Nd c (Nd BLACK t xp a) w (paint BLACK b)))"
    by (rule turns_trans [OF 3]) (use turn_left [of ?h3 root k BLACK t xp c a w "paint BLACK b"] turns_owns [OF 3] in simp)
  have "erase_left xp (h, root) = (False, db_rotate_left xp (?h3, root))"
    unfolding erase_left_def Let_def prod.case using sibling_ptr [OF assms(1)] assms(2) by simp
  then show ?thesis using 4 by blast
qed

text \<open>Only the near child is red: a rotation at the sibling makes the far one red.\<close>

lemma erase_left_near:
  assumes "owns (h, root) (plug (FL c xp (Nd BLACK (Nd RED a v b) w d) # k) t)" "col d = BLACK"
  shows "\<exists>hr'. erase_left xp (h, root) = erase_left xp hr'
      \<and> turns (h, root) (plug (FL c xp (Nd BLACK (Nd RED a v b) w d) # k) t) hr' (plug (FL c xp (Nd BLACK a v (Nd RED b w d)) # k) t)"
proof -
  let ?T = "plug (FL c xp (Nd BLACK (Nd RED a v b) w d) # k) t"
  let ?h = "set_color w RED (set_color v BLACK h)"
  obtain h' root' where r: "db_rotate_right w (?h, root) = (h', root')" by force
  have O: "owns (h, root) (plug (FL BLACK w d # FR c xp t # k) (Nd RED a v b))" using assms(1) by simp
  have 1: "turns (h, root) ?T (set_color v BLACK h, root) (plug (FL BLACK w d # FR c xp t # k) (Nd BLACK a v b))"
    using turn_color [OF O] by simp
  have 2: "turns (h, root) ?T (?h, root) (plug (FL RED w d # FR c xp t # k) (Nd BLACK a v b))"
    by (rule turns_trans [OF 1 turn_color_parent(1) [OF turns_owns [OF 1]]])
  have 3: "turns (h, root) ?T (h', root') (plug (FL c xp (Nd BLACK a v (Nd RED b w d)) # k) t)"
    by (rule turns_trans [OF 2]) (use turn_right [of ?h root "FR c xp t # k" RED BLACK a v b w d] turns_owns [OF 2] r in simp)
  have b: "blacken v h = set_color v BLACK h" using owns_node(5) [OF O] by (simp add: blacken_def)
  have "erase_left xp (h, root) = erase_left xp (h', root')"
    unfolding erase_left_def Let_def prod.case
    using sibling_ptr [OF assms(1)] sibling_ptr [OF turns_owns [OF 3]] assms(2) b r by simp
  then show ?thesis using 3 by blast
qed


section \<open>The loop of \<open>db_rebalance_erase\<close>\<close>

text \<open>A tree in which the part \<open>t\<close> lacks one black node.\<close>

definition deficient :: "frame list \<Rightarrow> ct \<Rightarrow> bool" where
  "deficient k t \<longleftrightarrow> invh t \<and> invc (paint BLACK t) \<and> kinvh k (bheight t + 1) \<and> kinvc k BLACK
     \<and> (k = [] \<or> fcol (last k) = BLACK)"

text \<open>What a turn at the parent \<open>xp\<close> of \<open>t\<close> achieves: it goes on further up or the tree is balanced.\<close>

definition turn_ok :: "nat \<Rightarrow> frame list \<Rightarrow> nat \<Rightarrow> ct \<Rightarrow> ('k, 'd) store \<times> nat \<Rightarrow> bool \<times> ('k, 'd) store \<times> nat \<Rightarrow> bool" where
  "turn_ok m k xp t hr res \<longleftrightarrow> (case res of (up, h', root') \<Rightarrow>
     if up then \<exists>k1 t1. turns hr (plug k t) (h', root') (plug k1 t1) \<and> taddr t1 = xp \<and> t1 \<noteq> Lf \<and> deficient k1 t1
       \<and> (length k1 < m \<or> col t1 = RED)
     else \<exists>t1. turns hr (plug k t) (h', root') t1 \<and> balanced t1 \<and> blacken (taddr t) h' = h')"

lemma blacken_id:
  assumes "owns (h, root) (plug k t)" "col t = BLACK"
  shows "blacken (taddr t) h = h"
proof (cases t)
  case (Nd c l a r)
  then have "n_color (h a) = BLACK" using owns_node(4) [of h root k c l a r] assms by simp
  then have "(h a)\<lparr>n_color := BLACK\<rparr> = h a" by (metis dbn.surjective dbn.update_convs(6))
  then show ?thesis using Nd by (simp add: blacken_def set_color_def fun_upd_idem)
qed (simp add: blacken_def)

lemma col_black_paint: "col t = BLACK \<Longrightarrow> paint BLACK t = t"
  by (cases t) simp_all

lemma invc_paint: "invc t \<Longrightarrow> invc (paint BLACK t)"
  by (cases t) auto

lemma paint_height: "col t = RED \<Longrightarrow> bheight (paint BLACK t) = bheight t + 1" "invh (paint c t) = invh t"
  "t \<noteq> Lf \<Longrightarrow> col (paint c t) = c"
  by (cases t; simp)+

lemma turn_ok_trans: "turns hr (plug k t) hr' (plug k' t) \<Longrightarrow> turn_ok m k' xp t hr' res \<Longrightarrow> turn_ok m k xp t hr res"
  unfolding turn_ok_def by (cases res) (auto split: if_splits intro: turns_trans)

lemma erase_left_far_ok:
  assumes "owns (h, root) (plug (FL c xp (Nd BLACK a w b) # k) t)" "deficient (FL c xp (Nd BLACK a w b) # k) t" "col t = BLACK"
    and "col b = RED"
  shows "turn_ok m (FL c xp (Nd BLACK a w b) # k) xp t (h, root) (erase_left xp (h, root))"
proof -
  let ?t = "Nd c (Nd BLACK t xp a) w (paint BLACK b)"
  obtain h' root' where E: "erase_left xp (h, root) = (False, h', root')"
    "turns (h, root) (plug (FL c xp (Nd BLACK a w b) # k) t) (h', root') (plug k ?t)"
    using erase_left_far [OF assms(1,4)] by auto
  have d: "invc t" "invh t" "bheight a = bheight t" "bheight b = bheight t" "invh a" "invh b" "invc a" "invc b"
    "kinvh k (bheight t + 1 + of_bool (c = BLACK))" "kinvc k c" "k = [] \<longrightarrow> c = BLACK" "k \<noteq> [] \<longrightarrow> fcol (last k) = BLACK"
    using assms(2,3) by (auto simp: deficient_def col_black_paint split: if_splits)
  have b: "invc (paint BLACK b)" "bheight (paint BLACK b) = bheight t + 1" "invh (paint BLACK b)" "col (paint BLACK b) = BLACK"
    using d(4,6,8) assms(4) paint_height(1) [of b] paint_height(2) [of BLACK b] by (cases b; auto)+
  have "invh (plug k ?t)" using d b by (simp add: invh_plug)
  moreover have "invc (plug k ?t)" using d b by (simp add: invc_plug)
  moreover have "col (plug k ?t) = BLACK" using d(11,12) by (simp add: col_plug)
  moreover have "blacken (taddr t) h' = h'"
    using blacken_id [of h' root' "FL BLACK xp a # FL c w (paint BLACK b) # k" t] turns_owns [OF E(2)] assms(3) by simp
  ultimately show ?thesis using E by (auto simp: turn_ok_def balanced_def)
qed

lemma erase_left_black:
  assumes "owns (h, root) (plug (FL c xp (Nd BLACK a w b) # k) t)" "deficient (FL c xp (Nd BLACK a w b) # k) t" "col t = BLACK"
    and "c = RED \<or> length k < m"
  shows "turn_ok m (FL c xp (Nd BLACK a w b) # k) xp t (h, root) (erase_left xp (h, root))"
proof (cases "col b = RED")
  case True
  then show ?thesis by (rule erase_left_far_ok [OF assms(1-3)])
next
  case False
  then have b: "col b = BLACK" by (simp add: node_color_cases)
  have d: "invc t" "invh t" "bheight a = bheight t" "bheight b = bheight t" "invh a" "invh b" "invc a" "invc b"
    "kinvh k (bheight t + 1 + of_bool (c = BLACK))" "kinvc k c" "k = [] \<or> fcol (last k) = BLACK"
    using assms(2,3) by (auto simp: deficient_def col_black_paint split: if_splits)
  show ?thesis
  proof (cases "col a = RED")
    case True
    then obtain a1 v a2 where a: "a = Nd RED a1 v a2" by (cases a) auto
    obtain h' root' where E: "erase_left xp (h, root) = erase_left xp (h', root')"
      "turns (h, root) (plug (FL c xp (Nd BLACK a w b) # k) t) (h', root') (plug (FL c xp (Nd BLACK a1 v (Nd RED a2 w b)) # k) t)"
      using erase_left_near [OF assms(1) [unfolded a] b] unfolding a by auto
    have "deficient (FL c xp (Nd BLACK a1 v (Nd RED a2 w b)) # k) t"
      using assms(2) a b by (auto simp: deficient_def)
    then show ?thesis
      unfolding E(1) by (intro turn_ok_trans [OF E(2)] erase_left_far_ok [OF turns_owns [OF E(2)] _ assms(3)]) simp_all
  next
    case False
    then have a: "col a = BLACK" by (simp add: node_color_cases)
    let ?t = "Nd c t xp (Nd RED a w b)"
    obtain h' root' where E: "erase_left xp (h, root) = (True, h', root')"
      "turns (h, root) (plug (FL c xp (Nd BLACK a w b) # k) t) (h', root') (plug k ?t)"
      using erase_left_up [OF assms(1) a b] by auto
    have "deficient k ?t" using d a b kinvc_black [OF d(10)] by (auto simp: deficient_def add.commute add.left_commute)
    then show ?thesis using E assms(4) by (auto simp: turn_ok_def intro!: exI [of _ k] exI [of _ ?t])
  qed
qed

lemma erase_left_ok:
  assumes "owns (h, root) (plug (FL c xp s # k) t)" "deficient (FL c xp s # k) t" "col t = BLACK"
  shows "turn_ok (length (FL c xp s # k)) (FL c xp s # k) xp t (h, root) (erase_left xp (h, root))"
proof -
  have s: "bheight s = bheight t + 1" using assms(2) by (simp add: deficient_def)
  then obtain d a w b where n: "s = Nd d a w b" by (cases s) auto
  show ?thesis
  proof (cases d)
    case BLACK
    then show ?thesis unfolding n by simp (rule erase_left_black, use assms n BLACK in auto)
  next
    case RED
    then have a: "a \<noteq> Lf" "col a = BLACK" "c = BLACK"
      using s n assms(2) by (auto simp: deficient_def node_color_cases)
    then obtain a1 v a2 where a': "a = Nd BLACK a1 v a2" by (cases a) auto
    obtain h' root' where E: "erase_left xp (h, root) = erase_left xp (h', root')"
      "turns (h, root) (plug (FL c xp s # k) t) (h', root') (plug (FL RED xp a # FL BLACK w b # k) t)"
      using erase_left_red [OF assms(1) [unfolded n RED] a(2,1)] unfolding n RED by auto
    have "deficient (FL RED xp a # FL BLACK w b # k) t"
      using assms(2,3) n RED a by (auto simp: deficient_def)
    then show ?thesis
      unfolding E(1) using turns_owns [OF E(2)] assms(3) a'
      by (intro turn_ok_trans [OF E(2)]) (simp add: erase_left_black)
  qed
qed


subsection \<open>The other side, and the loop\<close>

lemma erase_right_mir: "erase_right xp (h, root) = (case erase_left xp (mir h, root) of (up, hr) \<Rightarrow> (up, mr hr))"
  unfolding erase_right_def erase_left_def Let_def prod.case
  by (simp add: set_mir rotate_left_mir rotate_right_mir' split_beta conj_commute del: mir_set)

lemma invh_mirror [simp]: "invh (mirror t) = invh t"
  using mirror_height [of t] mirror_height [of "mirror t"] by auto

lemma kinvh_mirf: "kinvh k n \<Longrightarrow> kinvh (map mirf k) n"
  by (induction k arbitrary: n) (auto simp: mirror_height)

lemma kinvc_mirf: "kinvc k c \<Longrightarrow> kinvc (map mirf k) c"
  by (induction k arbitrary: c) auto

lemma deficient_mirror: "deficient k t \<Longrightarrow> deficient (map mirf k) (mirror t)"
  by (cases "k = []") (auto simp: deficient_def mirror_height last_map intro: kinvh_mirf kinvc_mirf)

lemma turn_ok_mirror:
  assumes "turn_ok m (map mirf k) xp (mirror t) (mir h, root) res"
  shows "turn_ok m k xp t (h, root) (case res of (up, hr) \<Rightarrow> (up, mr hr))"
proof -
  obtain up h' root' where r: "res = (up, h', root')" by (cases res) auto
  have t: "turns (h, root) (plug k t) (mir h', root') (mirror u)" if "turns (mir h, root) (plug (map mirf k) (mirror t)) (h', root') u" for u
    using that turns_mir' [of "(h, root)" "plug k t" "(h', root')" u] by (simp add: mirror_plug)
  show ?thesis
  proof (cases up)
    case True
    then obtain k1 t1 where "turns (mir h, root) (plug (map mirf k) (mirror t)) (h', root') (plug k1 t1)" "taddr t1 = xp" "t1 \<noteq> Lf"
      "deficient k1 t1" "length k1 < m \<or> col t1 = RED"
      using assms r by (auto simp: turn_ok_def)
    then show ?thesis
      using t [of "plug k1 t1"] deficient_mirror [of k1 t1] True r
      by (auto simp: turn_ok_def mirror_plug intro!: exI [of _ "map mirf k1"] exI [of _ "mirror t1"]) (cases t1; simp)+
  next
    case False
    then obtain t1 where "turns (mir h, root) (plug (map mirf k) (mirror t)) (h', root') t1" "balanced t1" "blacken (taddr t) h' = h'"
      using assms r by (auto simp: turn_ok_def)
    then show ?thesis
      using t [of t1] False r set_mir(6) [of "taddr t" h']
      by (auto simp: turn_ok_def balanced_def intro!: exI [of _ "mirror t1"])
  qed
qed

lemma erase_right_ok:
  assumes "owns (h, root) (plug (FR c xp s # k) t)" "deficient (FR c xp s # k) t" "col t = BLACK"
  shows "turn_ok (length (FR c xp s # k)) (FR c xp s # k) xp t (h, root) (erase_right xp (h, root))"
proof -
  have "owns (mir h, root) (plug (map mirf (FR c xp s # k)) (mirror t))"
    using assms(1) owns_mir [of "(h, root)" "plug (FR c xp s # k) t"] by (simp only: mirror_plug mir_simps)
  then have "turn_ok (length (FR c xp s # k)) (map mirf (FR c xp s # k)) xp (mirror t) (mir h, root) (erase_left xp (mir h, root))"
    using erase_left_ok [of "mir h" root c xp "mirror s" "map mirf k" "mirror t"] deficient_mirror [OF assms(2)] assms(3) by simp
  from turn_ok_mirror [OF this] show ?thesis by (simp add: erase_right_mir)
qed

lemma erase_loop_stop: "x = root \<or> \<not> is_black h x \<Longrightarrow> erase_loop x xp (h, root) = Some (x, h, root)"
  by (subst erase_loop.simps) auto

lemma balanced_paint:
  assumes "deficient k t" "k = [] \<or> col t = RED"
  shows "balanced (plug k (paint BLACK t))"
proof -
  have d: "invh t" "invc (paint BLACK t)" "kinvh k (bheight t + 1)" "kinvc k BLACK" "k = [] \<or> fcol (last k) = BLACK"
    using assms(1) by (auto simp: deficient_def)
  have c: "col (paint BLACK t) = BLACK" by (cases t) simp_all
  have "k = [] \<or> bheight (paint BLACK t) = bheight t + 1" using assms(2) paint_height(1) [of t] by auto
  then show ?thesis using d c by (auto simp: balanced_def invh_plug invc_plug col_plug paint_height(2))
qed

lemma erase_loop_ok:
  assumes "owns (h, root) (plug k t)" "deficient k t"
  shows "\<exists>x' h' root' t'. erase_loop (taddr t) (kpar k) (h, root) = Some (x', h', root')
      \<and> turns (h, root) (plug k t) (blacken x' h', root') t' \<and> balanced t'"
  using assms
proof (induction "length k" arbitrary: k h root t rule: less_induct)
  case less
  note O = less.prems(1) and D = less.prems(2)
  have tr: "tree_at h (kpar k) t" "root = taddr (plug k t)" using O by (simp_all add: owns_plug)
  have stop: "\<exists>x' h' root' t'. erase_loop (taddr t) (kpar k) (h, root) = Some (x', h', root')
      \<and> turns (h, root) (plug k t) (blacken x' h', root') t' \<and> balanced t'" if "k = [] \<or> col t = RED"
  proof -
    have "taddr t = root \<or> \<not> is_black h (taddr t)"
      using that tr O by (cases t) (auto simp: taddr_plug is_black_def)
    then show ?thesis using erase_loop_stop turn_blacken [OF O] balanced_paint [OF D that] by blast
  qed
  show ?case
  proof (cases "k = [] \<or> col t = RED")
    case True
    then show ?thesis by (rule stop)
  next
    case False
    then obtain f k' where k: "k = f # k'" and b: "col t = BLACK" by (cases k) (auto simp: node_color_cases)
    note O' = O [unfolded k] and D' = D [unfolded k]
    have s: "sibling f \<noteq> Lf" using D' by (auto simp: deficient_def)
    have ne: "taddr t \<noteq> root" "is_black h (taddr t)"
    proof -
      show "taddr t \<noteq> root"
      proof (cases t)
        case Lf
        then show ?thesis using tr(2) k O' path_at_nonzero [of h 0 k] faddr_last_in [of k] by (auto simp: taddr_plug owns_plug)
      next
        case (Nd c l a r)
        then show ?thesis using owns_node(6) [of h root k c l a r] O k by simp
      qed
      show "is_black h (taddr t)" using tr(1) b by (cases t) (auto simp: is_black_def)
    qed
    obtain up h1 root1 where E: "(if taddr t = n_left (h (faddr f)) then erase_left (faddr f) (h, root)
        else erase_right (faddr f) (h, root)) = (up, h1, root1)" "turn_ok (length k) k (faddr f) t (h, root) (up, h1, root1)"
    proof (cases f)
      case (FL c xp u)
      then show ?thesis
        using that erase_left_ok [OF O' [unfolded FL] D' [unfolded FL] b] owns_frame(4) [OF O' FL] k
        by (cases "erase_left xp (h, root)") auto
    next
      case (FR c xp u)
      have "taddr t \<noteq> taddr u" using owns_sibling(3) [OF O'] s FR by simp
      then show ?thesis
        using that erase_right_ok [OF O' [unfolded FR] D' [unfolded FR] b] owns_frame(5) [OF O' FR] k FR
        by (cases "erase_right xp (h, root)") auto
    qed
    have L: "erase_loop (taddr t) (kpar k) (h, root) =
        (if up then erase_loop (faddr f) (n_parent (h1 (faddr f))) (h1, root1) else Some (taddr t, h1, root1))"
    proof -
      have "kpar k = faddr f" using k by simp
      then show ?thesis by (subst erase_loop.simps) (simp only: ne E(1) fst_conv snd_conv prod.case simp_thms if_True)
    qed
    show ?thesis
    proof (cases up)
      case False
      then obtain t1 where "turns (h, root) (plug k t) (h1, root1) t1" "balanced t1" "blacken (taddr t) h1 = h1"
        using E(2) by (auto simp: turn_ok_def)
      then show ?thesis unfolding L using False by auto
    next
      case True
      then obtain k1 t1 where T: "turns (h, root) (plug k t) (h1, root1) (plug k1 t1)" "taddr t1 = faddr f" "t1 \<noteq> Lf"
        "deficient k1 t1" "length k1 < length k \<or> col t1 = RED"
        using E(2) by (auto simp: turn_ok_def)
      note O1 = turns_owns [OF T(1)]
      have p: "n_parent (h1 (faddr f)) = kpar k1" using T(2,3) O1 owns_node(1) by (cases t1) auto
      have "\<exists>x' h' root' t'. erase_loop (taddr t1) (kpar k1) (h1, root1) = Some (x', h', root')
          \<and> turns (h1, root1) (plug k1 t1) (blacken x' h', root') t' \<and> balanced t'"
      proof (cases "length k1 < length k")
        case True
        then show ?thesis by (rule less.hyps [OF _ O1 T(4)])
      next
        case False
        then have "col t1 = RED" using T(5) by blast
        moreover have "\<not> is_black h1 (taddr t1)" using calculation O1 T(3) by (cases t1) (auto simp: owns_plug is_black_def)
        ultimately show ?thesis using erase_loop_stop turn_blacken [OF O1] balanced_paint [OF T(4)] by blast
      qed
      then obtain x' h' root' t' where R: "erase_loop (taddr t1) (kpar k1) (h1, root1) = Some (x', h', root')"
        "turns (h1, root1) (plug k1 t1) (blacken x' h', root') t'" "balanced t'"
        by blast
      have "erase_loop (taddr t) (kpar k) (h, root) = Some (x', h', root')" unfolding L p using True R(1) T(2) by simp
      then show ?thesis using turns_trans [OF T(1) R(2)] R(3) by blast
    qed
  qed
qed


section \<open>The operation\<close>

lemma zipper: "n \<in> set (addrs t) \<Longrightarrow> \<exists>k c l r. t = plug k (Nd c l n r)"
proof (induction t)
  case (Nd c l a r)
  consider "n = a" | "n \<in> set (addrs l)" | "n \<in> set (addrs r)" using Nd.prems by auto
  then show ?case
  proof cases
    case 1
    then show ?thesis by (intro exI [of _ "[]"]) simp
  next
    case 2
    then obtain k d l' r' where "l = plug k (Nd d l' n r')" using Nd.IH(1) by blast
    then show ?thesis by (intro exI [of _ "k @ [FL c a r]"] exI [of _ d] exI [of _ l'] exI [of _ r']) (simp add: plug_append)
  next
    case 3
    then obtain k d l' r' where "r = plug k (Nd d l' n r')" using Nd.IH(2) by blast
    then show ?thesis by (intro exI [of _ "k @ [FR c a l]"] exI [of _ d] exI [of _ l'] exI [of _ r']) (simp add: plug_append)
  qed
qed simp

text \<open>What is lost when the only child takes the place of its parent.\<close>

lemma drop_balance:
  assumes "balanced (plug k (Nd c l n r))" "l = Lf \<or> r = Lf"
  shows "if c = RED then balanced (plug k (only_child l r)) else deficient k (only_child l r)"
proof -
  let ?x = "only_child l r"
  have d: "invh l" "invh r" "bheight l = bheight r" "invc l" "invc r" "c = RED \<Longrightarrow> col l = BLACK \<and> col r = BLACK"
    "kinvh k (bheight r + of_bool (c = BLACK))" "kinvc k c" "k = [] \<Longrightarrow> c = BLACK" "k \<noteq> [] \<Longrightarrow> fcol (last k) = BLACK"
    using assms(1) by (auto simp: balanced_def invh_plug invc_plug col_plug split: if_splits)
  have x: "invh ?x" "invc ?x" "bheight ?x = bheight r" "c = RED \<Longrightarrow> col ?x = BLACK"
    using d(1-6) assms(2) by (auto simp: only_child_def)
  show ?thesis
  proof (cases c)
    case RED
    then have "k \<noteq> []" using d(9) by auto
    then show ?thesis using RED x d(7,10) kinvc_black [OF d(8)] by (simp add: balanced_def invh_plug invc_plug col_plug)
  next
    case BLACK
    then show ?thesis using x d(7,8,10) by (auto simp: deficient_def invc_paint)
  qed
qed

text \<open>Taking the node out: where the store has the tree, and what is lost there.\<close>

lemma unlink_ok:
  assumes "owns (h, root) T" "balanced T" "n \<in> set (addrs T)"
  shows "\<exists>k x c hr'. unlink n (h, root) = Some (taddr x, kpar k, c, hr') \<and> owns hr' (plug k x)
      \<and> addrs (plug k x) = filter (\<lambda>z. z \<noteq> n) (addrs T) \<and> relinks (set (addrs T)) h (fst hr')
      \<and> (if c = RED then balanced (plug k x) else deficient k x)"
proof -
  obtain k c l r where T: "T = plug k (Nd c l n r)" using zipper [OF assms(3)] by blast
  show ?thesis
  proof (cases "l = Lf \<or> r = Lf")
    case True
    obtain hr' where "unlink n (h, root) = Some (taddr (only_child l r), kpar k, c, hr')" "owns hr' (plug k (only_child l r))"
      "addrs (plug k (only_child l r)) = filter (\<lambda>z. z \<noteq> n) (addrs T)" "relinks (set (addrs T)) h (fst hr')"
      using unlink_one [OF assms(1) [unfolded T] True] T by auto
    then show ?thesis using drop_balance [of k c l n r] assms(2) T True by blast
  next
    case False
    then have lr: "l \<noteq> Lf" "r \<noteq> Lf" by auto
    have "tree_at h n r" using assms(1) T by (simp add: owns_plug)
    then obtain ks cy y x where r: "r = plug ks (Nd cy Lf y x)" "\<forall>f \<in> set ks. \<exists>c a s. f = FL c a s" "leftmost h (taddr r) = Some y"
      using spine [OF _ lr(2)] by blast
    let ?K = "ks @ FR c y l # k"
    obtain hr' where U: "unlink n (h, root) = Some (taddr x, kpar ?K, cy, hr')" "owns hr' (plug ?K x)"
      "addrs (plug ?K x) = filter (\<lambda>z. z \<noteq> n) (addrs T)" "relinks (set (addrs T)) h (fst hr')"
      using unlink_two [OF assms(1) [unfolded T r(1)] lr(1) r(2) r(3) [unfolded r(1)]] T r(1) by auto
    have "balanced (plug k (Nd c l y r))"
      using assms(2) unfolding T by (auto simp: balanced_def invh_plug invc_plug col_plug split: if_splits)
    then have "balanced (plug ?K (Nd cy Lf y x))" by (simp add: plug_append r(1))
    then have "if cy = RED then balanced (plug ?K x) else deficient ?K x"
      using drop_balance [of ?K cy Lf y x] unfolding only_child_def simp_thms if_True by blast
    then show ?thesis using U by blast
  qed
qed

lemma db_rebalance_erase_ok:
  assumes "owns (h, root) T" "balanced T" "n \<in> set (addrs T)"
  shows "\<exists>h' root' t'. db_rebalance_erase n (h, root) = Some (h', root') \<and> owns (h', root') t' \<and> balanced t'
      \<and> addrs t' = filter (\<lambda>z. z \<noteq> n) (addrs T) \<and> relinks (set (addrs T)) h h'"
proof -
  obtain k x c h1 root1 where U: "unlink n (h, root) = Some (taddr x, kpar k, c, h1, root1)" "owns (h1, root1) (plug k x)"
    "addrs (plug k x) = filter (\<lambda>z. z \<noteq> n) (addrs T)" "relinks (set (addrs T)) h h1"
    "if c = RED then balanced (plug k x) else deficient k x"
    using unlink_ok [OF assms] by auto
  show ?thesis
  proof (cases "c = RED")
    case True
    then show ?thesis using U by (auto simp: db_rebalance_erase_def)
  next
    case False
    then obtain x' h' root' t' where L: "erase_loop (taddr x) (kpar k) (h1, root1) = Some (x', h', root')"
      "turns (h1, root1) (plug k x) (blacken x' h', root') t'" "balanced t'"
      using erase_loop_ok [OF U(2)] U(5) by auto
    have "relinks (set (addrs T)) h1 (blacken x' h')"
      using L(2) U(3) by (auto simp: turns_def relinks_def)
    then show ?thesis
      using L U False by (auto simp: db_rebalance_erase_def turns_def intro: relinks_trans)
  qed
qed

end
