(* ===== verification/Dbkey.thy ===== *)
theory Dbkey
  imports Prelude "HOL-Library.Word" "HOL-Library.List_Lexorder"
begin

unbundle bit_operations_syntax

text \<open>
  The keys of common/db.cpp: the key union, the comparators, the hashers and the options of a
  database. The lemmas show that every comparator is a linear order on a value that the key
  stands for, and that keys with the same value have the same hash as long as a string is not
  longer than the maximum length of the database; the hashers read one character more than the
  comparators do.
\<close>

section \<open>Types and options\<close>

datatype DBType = DB_INT | DB_UINT | DB_STRING | DB_ISTRING | DB_INT64 | DB_UINT64

text \<open>The union of the key types; a null string is \<open>Key_str None\<close>.\<close>

datatype DBKey = Key_i int | Key_ui int | Key_str "string option" | Key_i64 int | Key_ui64 int

text \<open>Reading a member of the union; a member that was not written reads as zero or empty.\<close>

fun key_i :: "DBKey \<Rightarrow> int" where
  "key_i (Key_i x) = x"
| "key_i _ = 0"

fun key_ui :: "DBKey \<Rightarrow> int" where
  "key_ui (Key_ui x) = x"
| "key_ui _ = 0"

fun key_str :: "DBKey \<Rightarrow> string" where
  "key_str (Key_str (Some s)) = s"
| "key_str _ = ''''"

fun key_i64 :: "DBKey \<Rightarrow> int" where
  "key_i64 (Key_i64 x) = x"
| "key_i64 _ = 0"

fun key_ui64 :: "DBKey \<Rightarrow> int" where
  "key_ui64 (Key_ui64 x) = x"
| "key_ui64 _ = 0"

type_synonym DBOptions = "32 word"

definition DB_OPT_DUP_KEY :: DBOptions where "DB_OPT_DUP_KEY = 1"
definition DB_OPT_RELEASE_KEY :: DBOptions where "DB_OPT_RELEASE_KEY = 2"
definition DB_OPT_RELEASE_DATA :: DBOptions where "DB_OPT_RELEASE_DATA = 4"
definition DB_OPT_ALLOW_NULL_KEY :: DBOptions where "DB_OPT_ALLOW_NULL_KEY = 8"
definition DB_OPT_ALLOW_NULL_DATA :: DBOptions where "DB_OPT_ALLOW_NULL_DATA = 16"

definition db_fix_options :: "DBType \<Rightarrow> DBOptions \<Rightarrow> DBOptions" where
  "db_fix_options t options =
     (case t of DB_STRING \<Rightarrow> options | DB_ISTRING \<Rightarrow> options
      | _ \<Rightarrow> options AND NOT (DB_OPT_DUP_KEY OR DB_OPT_RELEASE_KEY))"

definition db_is_key_null :: "DBType \<Rightarrow> DBKey \<Rightarrow> bool" where
  "db_is_key_null t key = (case t of DB_STRING \<Rightarrow> key = Key_str None | DB_ISTRING \<Rightarrow> key = Key_str None | _ \<Rightarrow> False)"

section \<open>Comparators\<close>

definition db_int_cmp :: "DBKey \<Rightarrow> DBKey \<Rightarrow> nat \<Rightarrow> int" where
  "db_int_cmp key1 key2 maxlen = (if key_i key1 < key_i key2 then - 1 else if key_i key1 > key_i key2 then 1 else 0)"

definition db_uint_cmp :: "DBKey \<Rightarrow> DBKey \<Rightarrow> nat \<Rightarrow> int" where
  "db_uint_cmp key1 key2 maxlen = (if key_ui key1 < key_ui key2 then - 1 else if key_ui key1 > key_ui key2 then 1 else 0)"

definition db_int64_cmp :: "DBKey \<Rightarrow> DBKey \<Rightarrow> nat \<Rightarrow> int" where
  "db_int64_cmp key1 key2 maxlen = (if key_i64 key1 < key_i64 key2 then - 1 else if key_i64 key1 > key_i64 key2 then 1 else 0)"

definition db_uint64_cmp :: "DBKey \<Rightarrow> DBKey \<Rightarrow> nat \<Rightarrow> int" where
  "db_uint64_cmp key1 key2 maxlen = (if key_ui64 key1 < key_ui64 key2 then - 1 else if key_ui64 key1 > key_ui64 key2 then 1 else 0)"

text \<open>\<open>strncmp\<close> of the C library on the characters before the terminating zero; its result is used by its sign.\<close>

fun strncmp :: "string \<Rightarrow> string \<Rightarrow> nat \<Rightarrow> int" where
  "strncmp _ _ 0 = 0"
| "strncmp [] [] (Suc n) = 0"
| "strncmp [] (b # t) (Suc n) = - 1"
| "strncmp (a # s) [] (Suc n) = 1"
| "strncmp (a # s) (b # t) (Suc n) =
     (if (of_char a :: int) < of_char b then - 1 else if (of_char a :: int) > of_char b then 1 else strncmp s t n)"

text \<open>\<open>tolower\<close> of the C locale and the comparison \<open>strncasecmp\<close> that goes by it.\<close>

definition tolower :: "char \<Rightarrow> char" where
  "tolower c = (let n = (of_char c :: int) in if 65 \<le> n \<and> n \<le> 90 then char_of (n + 32) else c)"

definition strncasecmp :: "string \<Rightarrow> string \<Rightarrow> nat \<Rightarrow> int" where
  "strncasecmp s t n = strncmp (map tolower s) (map tolower t) n"

definition db_string_cmp :: "DBKey \<Rightarrow> DBKey \<Rightarrow> nat \<Rightarrow> int" where
  "db_string_cmp key1 key2 maxlen = strncmp (key_str key1) (key_str key2) maxlen"

definition db_istring_cmp :: "DBKey \<Rightarrow> DBKey \<Rightarrow> nat \<Rightarrow> int" where
  "db_istring_cmp key1 key2 maxlen = strncasecmp (key_str key1) (key_str key2) maxlen"

definition db_default_cmp :: "DBType \<Rightarrow> DBKey \<Rightarrow> DBKey \<Rightarrow> nat \<Rightarrow> int" where
  "db_default_cmp t = (case t of DB_INT \<Rightarrow> db_int_cmp | DB_UINT \<Rightarrow> db_uint_cmp | DB_STRING \<Rightarrow> db_string_cmp
     | DB_ISTRING \<Rightarrow> db_istring_cmp | DB_INT64 \<Rightarrow> db_int64_cmp | DB_UINT64 \<Rightarrow> db_uint64_cmp)"

section \<open>Hashers\<close>

definition db_int_hash :: "DBKey \<Rightarrow> nat \<Rightarrow> 64 word" where
  "db_int_hash key maxlen = word_of_int (key_i key)"

definition db_uint_hash :: "DBKey \<Rightarrow> nat \<Rightarrow> 64 word" where
  "db_uint_hash key maxlen = word_of_int (key_ui key)"

definition db_int64_hash :: "DBKey \<Rightarrow> nat \<Rightarrow> 64 word" where
  "db_int64_hash key maxlen = word_of_int (key_i64 key)"

definition db_uint64_hash :: "DBKey \<Rightarrow> nat \<Rightarrow> 64 word" where
  "db_uint64_hash key maxlen = word_of_int (key_ui64 key)"

text \<open>One character; the loops stop after the character with the index \<open>maxlen\<close>.\<close>

definition hash_char :: "32 word \<Rightarrow> char \<Rightarrow> 32 word" where
  "hash_char hash c = (hash * 33 + of_char c) XOR drop_bit 24 hash"

fun string_hash_loop :: "nat \<Rightarrow> nat \<Rightarrow> string \<Rightarrow> 32 word \<Rightarrow> 32 word" where
  "string_hash_loop maxlen i [] hash = hash"
| "string_hash_loop maxlen i (c # k) hash =
     (let hash = hash_char hash c in if i = maxlen then hash else string_hash_loop maxlen (i + 1) k hash)"

fun istring_hash_loop :: "nat \<Rightarrow> nat \<Rightarrow> string \<Rightarrow> 32 word \<Rightarrow> 32 word" where
  "istring_hash_loop maxlen i [] hash = hash"
| "istring_hash_loop maxlen i (c # k) hash =
     (let hash = hash_char hash (tolower c) in if i = maxlen then hash else istring_hash_loop maxlen (i + 1) k hash)"

definition db_string_hash :: "DBKey \<Rightarrow> nat \<Rightarrow> 64 word" where
  "db_string_hash key maxlen = ucast (string_hash_loop maxlen 0 (key_str key) 0)"

definition db_istring_hash :: "DBKey \<Rightarrow> nat \<Rightarrow> 64 word" where
  "db_istring_hash key maxlen = ucast (istring_hash_loop maxlen 0 (key_str key) 0)"

definition db_default_hash :: "DBType \<Rightarrow> DBKey \<Rightarrow> nat \<Rightarrow> 64 word" where
  "db_default_hash t = (case t of DB_INT \<Rightarrow> db_int_hash | DB_UINT \<Rightarrow> db_uint_hash | DB_STRING \<Rightarrow> db_string_hash
     | DB_ISTRING \<Rightarrow> db_istring_hash | DB_INT64 \<Rightarrow> db_int64_hash | DB_UINT64 \<Rightarrow> db_uint64_hash)"

definition HASH_SIZE :: nat where
  "HASH_SIZE = 256 + 27"

text \<open>The index into the hashtable.\<close>

definition db_bucket :: "DBType \<Rightarrow> nat \<Rightarrow> DBKey \<Rightarrow> nat" where
  "db_bucket t maxlen key = unat (db_default_hash t key maxlen) mod HASH_SIZE"

lemma db_bucket_less [simp]: "db_bucket t maxlen key < HASH_SIZE"
  by (simp add: db_bucket_def HASH_SIZE_def)


section \<open>The value of a key\<close>

text \<open>What the comparator of the database can tell of a key, as a list in lexicographic order.\<close>

definition kval :: "DBType \<Rightarrow> nat \<Rightarrow> DBKey \<Rightarrow> int list" where
  "kval t maxlen key = (case t of DB_INT \<Rightarrow> [key_i key] | DB_UINT \<Rightarrow> [key_ui key]
     | DB_STRING \<Rightarrow> map of_char (take maxlen (key_str key))
     | DB_ISTRING \<Rightarrow> map (\<lambda>c. of_char (tolower c)) (take maxlen (key_str key))
     | DB_INT64 \<Rightarrow> [key_i64 key] | DB_UINT64 \<Rightarrow> [key_ui64 key])"

text \<open>A key of the type of the database whose string, if it is one, is not cut.\<close>

fun key_ok :: "DBType \<Rightarrow> nat \<Rightarrow> DBKey \<Rightarrow> bool" where
  "key_ok DB_INT maxlen (Key_i x) \<longleftrightarrow> - 2147483648 \<le> x \<and> x \<le> 2147483647"
| "key_ok DB_UINT maxlen (Key_ui x) \<longleftrightarrow> 0 \<le> x \<and> x < 4294967296"
| "key_ok DB_STRING maxlen (Key_str (Some s)) \<longleftrightarrow> length s \<le> maxlen"
| "key_ok DB_ISTRING maxlen (Key_str (Some s)) \<longleftrightarrow> length s \<le> maxlen"
| "key_ok DB_INT64 maxlen (Key_i64 x) \<longleftrightarrow> - (2 ^ 63) \<le> x \<and> x < 2 ^ 63"
| "key_ok DB_UINT64 maxlen (Key_ui64 x) \<longleftrightarrow> 0 \<le> x \<and> x < 2 ^ 64"
| "key_ok _ maxlen _ \<longleftrightarrow> False"

lemma key_ok_string:
  "key_ok t maxlen key \<Longrightarrow> t = DB_STRING \<or> t = DB_ISTRING \<Longrightarrow> length (key_str key) \<le> maxlen"
  by (induction t maxlen key rule: key_ok.induct) auto

definition ord_sign :: "'a::linorder \<Rightarrow> 'a \<Rightarrow> int" where
  "ord_sign x y = (if x < y then - 1 else if y < x then 1 else 0)"

lemma ord_sign [simp]: "ord_sign x y = 0 \<longleftrightarrow> x = y" "ord_sign x y < 0 \<longleftrightarrow> x < y" "ord_sign x y > 0 \<longleftrightarrow> y < x"
  by (auto simp: ord_sign_def)

lemma strncmp_sign: "strncmp s t n = ord_sign (map of_char (take n s) :: int list) (map of_char (take n t))"
  by (induction s t n rule: strncmp.induct) (auto simp: ord_sign_def)

text \<open>Every comparator is a linear order on the values.\<close>

lemma db_cmp_sign: "db_default_cmp t k1 k2 maxlen = ord_sign (kval t maxlen k1) (kval t maxlen k2)"
  by (cases t) (simp_all add: db_default_cmp_def kval_def db_int_cmp_def db_uint_cmp_def db_int64_cmp_def db_uint64_cmp_def
    db_string_cmp_def db_istring_cmp_def strncasecmp_def strncmp_sign take_map comp_def ord_sign_def)

lemma istring_hash_lower: "istring_hash_loop m i k h = string_hash_loop m i (map tolower k) h"
  by (induction m i k h rule: istring_hash_loop.induct) (simp_all add: Let_def)

lemma of_char_inj: "(of_char a :: int) = of_char b \<longleftrightarrow> a = b"
  by (simp add: of_char_eq_iff)

lemma map_of_char_inj: "map of_char s = (map of_char t :: int list) \<longleftrightarrow> s = t"
  by (simp add: inj_map_eq_map inj_def of_char_inj)

text \<open>Keys that the comparator does not tell apart have one hash.\<close>

lemma kval_hash:
  assumes "key_ok t maxlen k1" "key_ok t maxlen k2" "kval t maxlen k1 = kval t maxlen k2"
  shows "db_default_hash t k1 maxlen = db_default_hash t k2 maxlen"
proof (cases t)
  case DB_ISTRING
  have "map of_char (map tolower (key_str k1)) = (map of_char (map tolower (key_str k2)) :: int list)"
    using assms key_ok_string DB_ISTRING by (simp add: kval_def comp_def)
  then have "map tolower (key_str k1) = map tolower (key_str k2)" by (simp only: map_of_char_inj)
  then show ?thesis using DB_ISTRING by (simp add: db_default_hash_def db_istring_hash_def istring_hash_lower)
next
  case DB_STRING
  have "length (key_str k1) \<le> maxlen" "length (key_str k2) \<le> maxlen" using assms(1,2) key_ok_string DB_STRING by blast+
  then have "map of_char (key_str k1) = (map of_char (key_str k2) :: int list)" using assms(3) DB_STRING by (simp add: kval_def)
  then have "key_str k1 = key_str k2" by (simp only: map_of_char_inj)
  then show ?thesis using DB_STRING by (simp add: db_default_hash_def db_string_hash_def)
qed (use assms(3) in \<open>simp_all only: kval_def db_default_hash_def db_int_hash_def db_uint_hash_def db_int64_hash_def
    db_uint64_hash_def DBType.case list.inject simp_thms\<close>)

lemma kval_bucket:
  "key_ok t maxlen k1 \<Longrightarrow> key_ok t maxlen k2 \<Longrightarrow> kval t maxlen k1 = kval t maxlen k2 \<Longrightarrow> db_bucket t maxlen k1 = db_bucket t maxlen k2"
  unfolding db_bucket_def by (drule (2) kval_hash) simp

text \<open>
  A string that is longer than the maximum length: the comparator takes two keys for equal that
  the hasher sends to different trees.
\<close>

lemma hash_reads_past_maxlen:
  "db_default_cmp DB_STRING (Key_str (Some ''ab'')) (Key_str (Some ''ac'')) 1 = 0
     \<and> db_bucket DB_STRING 1 (Key_str (Some ''ab'')) \<noteq> db_bucket DB_STRING 1 (Key_str (Some ''ac''))"
  by (simp add: db_default_cmp_def db_string_cmp_def db_bucket_def db_default_hash_def db_string_hash_def hash_char_def HASH_SIZE_def)

end
