(* ===== verification/Dbmap.thy ===== *)
theory Dbmap
  imports Rberase Dbkey
begin

text \<open>
  The databases of common/db.cpp: a hashtable of red-black trees with a cache, a list of
  deleted nodes that wait for the last lock to go, and iterators. A node pointer is the address
  of a node in \<open>d_nodes\<close>, a root pointer the index of its slot in the hashtable. The
  address that \<open>ers_alloc\<close> returns for a new node is an argument of the operations that
  allocate. What is given back with \<open>aFree\<close> and \<open>ers_free\<close> is collected in
  \<open>d_freed\<close>.
\<close>

section \<open>State and results\<close>

datatype DBData = DB_DATA_INT int | DB_DATA_UINT int | DB_DATA_PTR nat

datatype freed = Freed_key DBKey | Freed_data nat | Freed_node nat

record dbmap =
  d_nodes :: "(DBKey, DBData) store"
  d_free_list :: "(nat \<times> nat) list"
  d_free_max :: int
  d_free_lock :: int
  d_ht :: "nat list"
  d_cache :: nat
  d_type :: DBType
  d_options :: DBOptions
  d_item_count :: int
  d_maxlen :: nat
  d_global_lock :: bool
  d_freed :: "freed list"

text \<open>A call ends the process with \<open>exit(EXIT_FAILURE)\<close>, does not return, or has a result.\<close>

datatype dberr = EXIT_FAILURE | NO_RETURN

type_synonym 'a dbres = "dberr + 'a"

definition dbind :: "'a dbres \<Rightarrow> ('a \<Rightarrow> 'b dbres) \<Rightarrow> 'b dbres" where
  "dbind m f = (case m of Inl e \<Rightarrow> Inl e | Inr x \<Rightarrow> f x)"

definition looping :: "'a option \<Rightarrow> 'a dbres" where
  "looping x = (case x of None \<Rightarrow> Inl NO_RETURN | Some y \<Rightarrow> Inr y)"

lemma dbind_simps [simp]: "dbind (Inl e) f = Inl e" "dbind (Inr x) f = f x" "looping (Some y) = Inr y" "looping None = Inl NO_RETURN"
  by (simp_all add: dbind_def looping_def)

definition UINT_MAX :: int where
  "UINT_MAX = 4294967295"

definition opt :: "dbmap \<Rightarrow> DBOptions \<Rightarrow> bool" where
  "opt db flag \<longleftrightarrow> d_options db AND flag \<noteq> 0"

section \<open>Releasing\<close>

definition DB_RELEASE_KEY :: "32 word" where "DB_RELEASE_KEY = 1"
definition DB_RELEASE_DATA :: "32 word" where "DB_RELEASE_DATA = 2"
definition DB_RELEASE_BOTH :: "32 word" where "DB_RELEASE_BOTH = DB_RELEASE_KEY OR DB_RELEASE_DATA"

definition release_ptr :: "DBData \<Rightarrow> freed list" where
  "release_ptr data = (case data of DB_DATA_PTR p \<Rightarrow> [Freed_data p] | _ \<Rightarrow> [])"

definition db_release_nothing :: "DBKey \<Rightarrow> DBData \<Rightarrow> 32 word \<Rightarrow> freed list" where
  "db_release_nothing key data which = []"

definition db_release_key :: "DBKey \<Rightarrow> DBData \<Rightarrow> 32 word \<Rightarrow> freed list" where
  "db_release_key key data which = (if which AND DB_RELEASE_KEY \<noteq> 0 then [Freed_key key] else [])"

definition db_release_data :: "DBKey \<Rightarrow> DBData \<Rightarrow> 32 word \<Rightarrow> freed list" where
  "db_release_data key data which = (if which AND DB_RELEASE_DATA \<noteq> 0 then release_ptr data else [])"

definition db_release_both :: "DBKey \<Rightarrow> DBData \<Rightarrow> 32 word \<Rightarrow> freed list" where
  "db_release_both key data which =
     (if which AND DB_RELEASE_KEY \<noteq> 0 then [Freed_key key] else []) @
     (if which AND DB_RELEASE_DATA \<noteq> 0 then release_ptr data else [])"

definition db_default_release :: "DBType \<Rightarrow> DBOptions \<Rightarrow> DBKey \<Rightarrow> DBData \<Rightarrow> 32 word \<Rightarrow> freed list" where
  "db_default_release t options =
     (let options = db_fix_options t options in
      if options AND DB_OPT_RELEASE_DATA \<noteq> 0 then
        if options AND (DB_OPT_DUP_KEY OR DB_OPT_RELEASE_KEY) \<noteq> 0 then db_release_both else db_release_data
      else if options AND (DB_OPT_DUP_KEY OR DB_OPT_RELEASE_KEY) \<noteq> 0 then db_release_key else db_release_nothing)"

text \<open>\<open>db->release\<close>, which \<open>db_alloc\<close> sets to the default of the type and the options.\<close>

definition release :: "DBKey \<Rightarrow> DBData \<Rightarrow> 32 word \<Rightarrow> dbmap \<Rightarrow> dbmap" where
  "release key data which db =
     db\<lparr>d_freed := d_freed db @ db_default_release (d_type db) (d_options db) key data which\<rparr>"

definition db_dup_key :: "dbmap \<Rightarrow> DBKey \<Rightarrow> DBKey" where
  "db_dup_key db key = (case d_type db of
       DB_STRING \<Rightarrow> Key_str (Some (take (d_maxlen db) (key_str key)))
     | DB_ISTRING \<Rightarrow> Key_str (Some (take (d_maxlen db) (key_str key)))
     | _ \<Rightarrow> key)"

definition db_dup_key_free :: "DBKey \<Rightarrow> dbmap \<Rightarrow> dbmap" where
  "db_dup_key_free key db = (case d_type db of
       DB_STRING \<Rightarrow> db\<lparr>d_freed := d_freed db @ [Freed_key key]\<rparr>
     | DB_ISTRING \<Rightarrow> db\<lparr>d_freed := d_freed db @ [Freed_key key]\<rparr>
     | _ \<Rightarrow> db)"

text \<open>Assignments to the fields of a node.\<close>

definition set_key :: "nat \<Rightarrow> DBKey \<Rightarrow> dbmap \<Rightarrow> dbmap" where
  "set_key a key db = db\<lparr>d_nodes := (d_nodes db)(a := (d_nodes db a)\<lparr>n_key := key\<rparr>)\<rparr>"

definition set_data :: "nat \<Rightarrow> DBData \<Rightarrow> dbmap \<Rightarrow> dbmap" where
  "set_data a data db = db\<lparr>d_nodes := (d_nodes db)(a := (d_nodes db a)\<lparr>n_data := data\<rparr>)\<rparr>"

definition set_deleted :: "nat \<Rightarrow> bool \<Rightarrow> dbmap \<Rightarrow> dbmap" where
  "set_deleted a v db = db\<lparr>d_nodes := (d_nodes db)(a := (d_nodes db a)\<lparr>n_deleted := v\<rparr>)\<rparr>"

section \<open>Deleted nodes and locks\<close>

text \<open>The length of \<open>d_free_list\<close> is \<open>free_count\<close>.\<close>

definition db_free_add :: "nat \<Rightarrow> nat \<Rightarrow> dbmap \<Rightarrow> dbmap dbres" where
  "db_free_add node root db =
     (if d_free_lock db = UINT_MAX then Inl EXIT_FAILURE else
      let db = (if \<not> opt db DB_OPT_DUP_KEY then
            let old_key = n_key (d_nodes db node); db = set_key node (db_dup_key db old_key) db
            in release old_key (n_data (d_nodes db node)) DB_RELEASE_KEY db
          else db);
          n = int (length (d_free_list db))
      in dbind (if n = d_free_max db then
             let m = u32 (u32 (d_free_max db * 4) + 3)
             in if m \<le> n then if n = UINT_MAX then Inl EXIT_FAILURE else Inr UINT_MAX else Inr m
           else Inr (d_free_max db))
         (\<lambda>m. let db = set_deleted node True (db\<lparr>d_free_max := m\<rparr>)
           in Inr (db\<lparr>d_free_list := d_free_list db @ [(node, root)], d_item_count := u32 (d_item_count db - 1)\<rparr>)))"

definition db_free_remove :: "nat \<Rightarrow> dbmap \<Rightarrow> dbmap" where
  "db_free_remove node db =
     (let i = arr_find (\<lambda>f. fst f = node) (d_free_list db);
          n = length (d_free_list db);
          xs = (if i < n - 1 then (d_free_list db)[i := d_free_list db ! (n - 1)] else d_free_list db);
          db = (if i < n then db_dup_key_free (n_key (d_nodes db node)) db else db);
          db = set_deleted node False db;
          db = (if i = n then db else db\<lparr>d_free_list := butlast xs\<rparr>)
      in db\<lparr>d_item_count := u32 (d_item_count db + 1)\<rparr>)"

definition db_free_lock :: "dbmap \<Rightarrow> dbmap dbres" where
  "db_free_lock db =
     (if d_free_lock db = UINT_MAX then Inl EXIT_FAILURE else Inr (db\<lparr>d_free_lock := d_free_lock db + 1\<rparr>))"

fun free_nodes :: "(nat \<times> nat) list \<Rightarrow> dbmap \<Rightarrow> dbmap dbres" where
  "free_nodes [] db = Inr db"
| "free_nodes ((node, root) # fs) db =
     dbind (looping (db_rebalance_erase node (d_nodes db, d_ht db ! root))) (\<lambda>(h, r).
       let db = db\<lparr>d_nodes := h, d_ht := (d_ht db)[root := r]\<rparr>;
           db = db_dup_key_free (n_key (d_nodes db node)) db
       in free_nodes fs (db\<lparr>d_freed := d_freed db @ [Freed_node node]\<rparr>))"

definition db_free_unlock :: "dbmap \<Rightarrow> dbmap dbres" where
  "db_free_unlock db =
     (let db = (if d_free_lock db = 0 then db else db\<lparr>d_free_lock := d_free_lock db - 1\<rparr>)
      in if d_free_lock db \<noteq> 0 then Inr db
         else dbind (free_nodes (d_free_list db) db) (\<lambda>db. Inr (db\<lparr>d_free_list := []\<rparr>)))"

section \<open>Looking up\<close>

text \<open>\<open>db->cmp\<close>, which \<open>db_alloc\<close> sets to the default of the type.\<close>

definition cmp :: "dbmap \<Rightarrow> DBKey \<Rightarrow> DBKey \<Rightarrow> int" where
  "cmp db key1 key2 = db_default_cmp (d_type db) key1 key2 (d_maxlen db)"

definition hash_of :: "dbmap \<Rightarrow> DBKey \<Rightarrow> nat" where
  "hash_of db key = db_bucket (d_type db) (d_maxlen db) key"

text \<open>The search loop: the node or 0, its parent, and the last result of the comparator.\<close>

partial_function (option) db_search ::
    "(DBKey \<Rightarrow> int) \<Rightarrow> (DBKey, DBData) store \<Rightarrow> nat \<Rightarrow> nat \<Rightarrow> int \<Rightarrow> (nat \<times> nat \<times> int) option" where
  "db_search f h node parent c =
     (if node = 0 then Some (0, parent, c)
      else let c = f (n_key (h node)) in
           if c = 0 then Some (node, parent, c)
           else if c < 0 then db_search f h (n_left (h node)) node c
           else db_search f h (n_right (h node)) node c)"

definition key_allowed :: "dbmap \<Rightarrow> DBKey \<Rightarrow> bool" where
  "key_allowed db key \<longleftrightarrow> opt db DB_OPT_ALLOW_NULL_KEY \<or> \<not> db_is_key_null (d_type db) key"

definition db_obj_exists :: "DBKey \<Rightarrow> dbmap \<Rightarrow> (bool \<times> dbmap) dbres" where
  "db_obj_exists key db =
     (if \<not> key_allowed db key then Inr (False, db)
      else if d_cache db \<noteq> 0 \<and> cmp db key (n_key (d_nodes db (d_cache db))) = 0 then Inr (True, db)
      else dbind (db_free_lock db) (\<lambda>db.
        dbind (looping (db_search (cmp db key) (d_nodes db) (d_ht db ! hash_of db key) 0 0)) (\<lambda>(node, parent, c).
          let (found, db) = (if node \<noteq> 0 \<and> \<not> n_deleted (d_nodes db node) then (True, db\<lparr>d_cache := node\<rparr>) else (False, db))
          in dbind (db_free_unlock db) (\<lambda>db. Inr (found, db)))))"

text \<open>A pointer to the data of an entry is the address of its node, 0 for NULL.\<close>

definition db_obj_get :: "DBKey \<Rightarrow> dbmap \<Rightarrow> (nat \<times> dbmap) dbres" where
  "db_obj_get key db =
     (if \<not> key_allowed db key then Inr (0, db)
      else if d_cache db \<noteq> 0 \<and> cmp db key (n_key (d_nodes db (d_cache db))) = 0 then Inr (d_cache db, db)
      else dbind (db_free_lock db) (\<lambda>db.
        dbind (looping (db_search (cmp db key) (d_nodes db) (d_ht db ! hash_of db key) 0 0)) (\<lambda>(node, parent, c).
          let (data, db) = (if node \<noteq> 0 \<and> \<not> n_deleted (d_nodes db node) then (node, db\<lparr>d_cache := node\<rparr>) else (0, db))
          in dbind (db_free_unlock db) (\<lambda>db. Inr (data, db)))))"

section \<open>Changing entries\<close>

text \<open>A new node at the address \<open>a\<close>, below \<open>parent\<close> on the side of \<open>c\<close>.\<close>

definition new_node :: "nat \<Rightarrow> nat \<Rightarrow> nat \<Rightarrow> int \<Rightarrow> dbmap \<Rightarrow> dbmap dbres" where
  "new_node a hash parent c db =
     (let h = set_right a 0 (set_left a 0 (d_nodes db));
          db = set_deleted a False (db\<lparr>d_nodes := h\<rparr>);
          db = db\<lparr>d_item_count := u32 (d_item_count db + 1)\<rparr>;
          h = d_nodes db
      in if c = 0 then
           Inr (db\<lparr>d_nodes := set_parent a 0 (set_color a BLACK h), d_ht := (d_ht db)[hash := a]\<rparr>)
         else
           let h = set_color a RED h;
               h = (if c < 0 then set_left parent a h else set_right parent a h);
               h = set_parent a parent h
           in if n_color (h parent) = RED
              then dbind (looping (db_rebalance a (h, d_ht db ! hash))) (\<lambda>(h, r).
                Inr (db\<lparr>d_nodes := h, d_ht := (d_ht db)[hash := r]\<rparr>))
              else Inr (db\<lparr>d_nodes := h\<rparr>))"

text \<open>Putting the key into a node.\<close>

definition put_key :: "nat \<Rightarrow> DBKey \<Rightarrow> DBData \<Rightarrow> dbmap \<Rightarrow> dbmap" where
  "put_key node key data db =
     (if opt db DB_OPT_DUP_KEY then
        let db = set_key node (db_dup_key db key) db
        in if opt db DB_OPT_RELEASE_KEY then release key data DB_RELEASE_KEY db else db
      else set_key node key db)"

text \<open>
  The results are the return value, what is written to \<open>out_data\<close> and the database; \<open>a\<close> is
  the address of the node that \<open>ers_alloc\<close> returns if it is called.
\<close>

definition db_obj_put :: "nat \<Rightarrow> DBKey \<Rightarrow> DBData \<Rightarrow> dbmap \<Rightarrow> (int \<times> DBData option \<times> dbmap) dbres" where
  "db_obj_put a key data db =
     (if d_global_lock db then Inr (0, None, db)
      else if \<not> key_allowed db key then Inr (0, None, db)
      else if \<not> opt db DB_OPT_ALLOW_NULL_DATA \<and> data = DB_DATA_PTR 0 then Inr (0, None, db)
      else if d_item_count db = UINT_MAX then Inr (0, None, db)
      else dbind (db_free_lock db) (\<lambda>db.
        let hash = hash_of db key in
        dbind (looping (db_search (cmp db key) (d_nodes db) (d_ht db ! hash) 0 0)) (\<lambda>(node, parent, c).
          let (retval, out, db) = (if node = 0 then (0, None, db)
                else if n_deleted (d_nodes db node) then (0, None, db_free_remove node db)
                else let n = d_nodes db node in (1, Some (n_data n), release (n_key n) (n_data n) DB_RELEASE_BOTH db))
          in dbind (if node = 0 then dbind (new_node a hash parent c db) (\<lambda>db. Inr (a, db)) else Inr (node, db)) (\<lambda>(node, db).
               let db = set_data node data (put_key node key data db)
               in dbind (db_free_unlock (db\<lparr>d_cache := node\<rparr>)) (\<lambda>db. Inr (retval, out, db))))))"

definition db_obj_remove :: "DBKey \<Rightarrow> dbmap \<Rightarrow> (int \<times> DBData option \<times> dbmap) dbres" where
  "db_obj_remove key db =
     (if d_global_lock db then Inr (0, None, db)
      else if \<not> key_allowed db key then Inr (0, None, db)
      else dbind (db_free_lock db) (\<lambda>db.
        let hash = hash_of db key in
        dbind (looping (db_search (cmp db key) (d_nodes db) (d_ht db ! hash) 0 0)) (\<lambda>(node, parent, c).
          dbind (if node \<noteq> 0 \<and> \<not> n_deleted (d_nodes db node) then
              let n = d_nodes db node;
                  db = (if d_cache db = node then db\<lparr>d_cache := 0\<rparr> else db);
                  db = release (n_key n) (n_data n) DB_RELEASE_DATA db
              in dbind (db_free_add node hash db) (\<lambda>db. Inr (1, Some (n_data n), db))
            else Inr (0, None, db)) (\<lambda>(retval, out, db).
          dbind (db_free_unlock db) (\<lambda>db. Inr (retval, out, db))))))"

text \<open>A null \<open>create\<close> function is None.\<close>

definition db_obj_vensure :: "nat \<Rightarrow> DBKey \<Rightarrow> (DBKey \<Rightarrow> DBData) option \<Rightarrow> dbmap \<Rightarrow> (nat \<times> dbmap) dbres" where
  "db_obj_vensure a key create db =
     (case create of None \<Rightarrow> Inr (0, db) | Some create \<Rightarrow>
      if \<not> key_allowed db key then Inr (0, db)
      else if d_cache db \<noteq> 0 \<and> cmp db key (n_key (d_nodes db (d_cache db))) = 0 then Inr (d_cache db, db)
      else dbind (db_free_lock db) (\<lambda>db.
        let hash = hash_of db key in
        dbind (looping (db_search (cmp db key) (d_nodes db) (d_ht db ! hash) 0 0)) (\<lambda>(node, parent, c).
          if node = 0 \<and> d_item_count db = UINT_MAX then Inr (0, db)
          else dbind (if node = 0 then dbind (new_node a hash parent c db) (\<lambda>db.
                   Inr (a, set_data a (create key) (put_key a key (n_data (d_nodes db a)) db))) else Inr (node, db))
               (\<lambda>(node, db). dbind (db_free_unlock (db\<lparr>d_cache := node\<rparr>)) (\<lambda>db. Inr (node, db))))))"

definition db_obj_size :: "dbmap \<Rightarrow> (int \<times> dbmap) dbres" where
  "db_obj_size db = dbind (db_free_lock db) (\<lambda>db.
     let n = d_item_count db in dbind (db_free_unlock db) (\<lambda>db. Inr (n, db)))"

text \<open>A new database; the content of its node store is arbitrary.\<close>

definition db_alloc :: "(DBKey, DBData) store \<Rightarrow> DBType \<Rightarrow> DBOptions \<Rightarrow> nat \<Rightarrow> dbmap" where
  "db_alloc h t options maxlen =
     (let options = db_fix_options t options
      in \<lparr>d_nodes = h, d_free_list = [], d_free_max = 0, d_free_lock = 0, d_ht = replicate HASH_SIZE 0, d_cache = 0,
          d_type = t, d_options = options, d_item_count = 0,
          d_maxlen = (if maxlen = 0 \<and> (t = DB_STRING \<or> t = DB_ISTRING) then 65535 else maxlen),
          d_global_lock = False, d_freed = []\<rparr>)"


section \<open>Iterators\<close>

record dbit =
  it_index :: int
  it_node :: nat

text \<open>The next node in the order of the tree, 0 after the last one.\<close>

partial_function (option) climb_next :: "('k, 'd) store \<Rightarrow> nat \<Rightarrow> nat \<Rightarrow> nat option" where
  "climb_next h node parent =
     (if parent = 0 then Some 0 else if n_right (h parent) \<noteq> node then Some parent
      else climb_next h parent (n_parent (h parent)))"

definition next_node :: "('k, 'd) store \<Rightarrow> nat \<Rightarrow> nat option" where
  "next_node h node =
     (if n_right (h node) \<noteq> 0 then leftmost h (n_right (h node)) else climb_next h node (n_parent (h node)))"

text \<open>The next node from \<open>node\<close> on, itself included, that is not deleted.\<close>

partial_function (option) skip_deleted :: "('k, 'd) store \<Rightarrow> nat \<Rightarrow> nat option" where
  "skip_deleted h node =
     (if node = 0 \<or> \<not> n_deleted (h node) then Some node
      else (case next_node h node of None \<Rightarrow> None | Some n \<Rightarrow> skip_deleted h n))"

text \<open>The loop over the slots of the hashtable; the initial node of a slot comes before its leftmost one.\<close>

function next_slot :: "dbmap \<Rightarrow> nat \<Rightarrow> nat \<Rightarrow> (nat \<times> nat) dbres" where
  "next_slot db i node =
     (if i < HASH_SIZE then
        if node = 0 \<and> d_ht db ! i = 0 then next_slot db (i + 1) 0
        else dbind (looping (if node = 0 then leftmost (d_nodes db) (d_ht db ! i) else next_node (d_nodes db) node)) (\<lambda>n.
             dbind (looping (skip_deleted (d_nodes db) n)) (\<lambda>n.
               if n = 0 then next_slot db (i + 1) 0 else Inr (i, n)))
      else Inr (i, 0))"
  by auto
termination by (relation "measure (\<lambda>(db, i, node). HASH_SIZE - i)") auto

declare next_slot.simps [simp del]

text \<open>The result is the node of the entry, 0 for NULL, and the iterator.\<close>

definition dbit_obj_next :: "dbmap \<Rightarrow> dbit \<Rightarrow> (nat \<times> dbit) dbres" where
  "dbit_obj_next db it =
     (let it = (if it_index it < 0 then \<lparr>it_index = 0, it_node = 0\<rparr> else it)
      in dbind (next_slot db (nat (it_index it)) (it_node it)) (\<lambda>(i, n). Inr (n, \<lparr>it_index = int i, it_node = n\<rparr>)))"

definition dbit_obj_first :: "dbmap \<Rightarrow> dbit \<Rightarrow> (nat \<times> dbit) dbres" where
  "dbit_obj_first db it = dbit_obj_next db \<lparr>it_index = - 1, it_node = 0\<rparr>"

text \<open>Backwards.\<close>

partial_function (option) rightmost :: "('k, 'd) store \<Rightarrow> nat \<Rightarrow> nat option" where
  "rightmost h y = (if n_right (h y) \<noteq> 0 then rightmost h (n_right (h y)) else Some y)"

partial_function (option) climb_prev :: "('k, 'd) store \<Rightarrow> nat \<Rightarrow> nat \<Rightarrow> nat option" where
  "climb_prev h node parent =
     (if parent = 0 then Some 0 else if n_left (h parent) \<noteq> node then Some parent
      else climb_prev h parent (n_parent (h parent)))"

definition prev_node :: "('k, 'd) store \<Rightarrow> nat \<Rightarrow> nat option" where
  "prev_node h node =
     (if n_left (h node) \<noteq> 0 then rightmost h (n_left (h node)) else climb_prev h node (n_parent (h node)))"

partial_function (option) skip_back :: "('k, 'd) store \<Rightarrow> nat \<Rightarrow> nat option" where
  "skip_back h node =
     (if node = 0 \<or> \<not> n_deleted (h node) then Some node
      else (case prev_node h node of None \<Rightarrow> None | Some n \<Rightarrow> skip_back h n))"

function prev_slot :: "dbmap \<Rightarrow> int \<Rightarrow> nat \<Rightarrow> (int \<times> nat) dbres" where
  "prev_slot db i node =
     (if i \<ge> 0 then
        if node = 0 \<and> d_ht db ! nat i = 0 then prev_slot db (i - 1) 0
        else dbind (looping (if node = 0 then rightmost (d_nodes db) (d_ht db ! nat i) else prev_node (d_nodes db) node)) (\<lambda>n.
             dbind (looping (skip_back (d_nodes db) n)) (\<lambda>n.
               if n = 0 then prev_slot db (i - 1) 0 else Inr (i, n)))
      else Inr (i, 0))"
  by auto
termination by (relation "measure (\<lambda>(db, i, node). nat (i + 1))") auto

declare prev_slot.simps [simp del]

definition dbit_obj_prev :: "dbmap \<Rightarrow> dbit \<Rightarrow> (nat \<times> dbit) dbres" where
  "dbit_obj_prev db it =
     (let it = (if it_index it \<ge> int HASH_SIZE then \<lparr>it_index = int HASH_SIZE - 1, it_node = 0\<rparr> else it)
      in dbind (prev_slot db (it_index it) (it_node it)) (\<lambda>(i, n). Inr (n, \<lparr>it_index = i, it_node = n\<rparr>)))"

definition dbit_obj_last :: "dbmap \<Rightarrow> dbit \<Rightarrow> (nat \<times> dbit) dbres" where
  "dbit_obj_last db it = dbit_obj_prev db \<lparr>it_index = int HASH_SIZE, it_node = 0\<rparr>"

definition dbit_obj_exists :: "dbmap \<Rightarrow> dbit \<Rightarrow> bool" where
  "dbit_obj_exists db it \<longleftrightarrow> it_node it \<noteq> 0 \<and> \<not> n_deleted (d_nodes db (it_node it))"

definition dbit_obj_remove :: "dbmap \<Rightarrow> dbit \<Rightarrow> (int \<times> DBData option \<times> dbmap) dbres" where
  "dbit_obj_remove db it =
     (let node = it_node it in
      if node \<noteq> 0 \<and> \<not> n_deleted (d_nodes db node) then
        let n = d_nodes db node;
            db = (if d_cache db = node then db\<lparr>d_cache := 0\<rparr> else db);
            db = release (n_key n) (n_data n) DB_RELEASE_DATA db
        in dbind (db_free_add node (nat (it_index it)) db) (\<lambda>db. Inr (1, Some (n_data n), db))
      else Inr (0, None, db))"

definition dbit_obj_destroy :: "dbmap \<Rightarrow> dbmap dbres" where
  "dbit_obj_destroy db = db_free_unlock db"

definition db_obj_iterator :: "dbmap \<Rightarrow> (dbit \<times> dbmap) dbres" where
  "db_obj_iterator db = dbind (db_free_lock db) (\<lambda>db. Inr (\<lparr>it_index = - 1, it_node = 0\<rparr>, db))"

text \<open>The loop \<open>for( data = dbi_first(iter); dbi_exists(iter); data = dbi_next(iter) )\<close>, in at most \<open>n\<close> turns.\<close>

fun dbi_loop :: "nat \<Rightarrow> dbmap \<Rightarrow> dbit \<Rightarrow> nat list dbres" where
  "dbi_loop 0 db it = Inl NO_RETURN"
| "dbi_loop (Suc n) db it =
     (if dbit_obj_exists db it
      then dbind (dbit_obj_next db it) (\<lambda>(_, it'). dbind (dbi_loop n db it') (\<lambda>xs. Inr (it_node it # xs)))
      else Inr [])"

end
