(* ===== verification/Dbproofs.thy ===== *)
theory Dbproofs
  imports Dbmap
begin

text \<open>
  The databases of common/db.cpp implement a finite map from the values of their keys to data:
  the invariant of a database, what a lookup finds, and that every operation keeps the
  invariant and returns.
\<close>

section \<open>The invariant\<close>

definition node_val :: "dbmap \<Rightarrow> nat \<Rightarrow> int list" where
  "node_val db a = kval (d_type db) (d_maxlen db) (n_key (d_nodes db a))"

text \<open>A tree of the hashtable: balanced, ordered, and with the keys that belong to its slot.\<close>

definition bucket_ok :: "dbmap \<Rightarrow> nat \<Rightarrow> ct \<Rightarrow> bool" where
  "bucket_ok db i t \<longleftrightarrow> owns (d_nodes db, d_ht db ! i) t \<and> balanced t
     \<and> sorted_wrt (<) (map (node_val db) (addrs t))
     \<and> (\<forall>a \<in> set (addrs t). key_ok (d_type db) (d_maxlen db) (n_key (d_nodes db a)) \<and> hash_of db (n_key (d_nodes db a)) = i)"

definition live :: "(nat \<Rightarrow> ct) \<Rightarrow> dbmap \<Rightarrow> nat set" where
  "live T db = {a. (\<exists>i < HASH_SIZE. a \<in> set (addrs (T i))) \<and> \<not> n_deleted (d_nodes db a)}"

text \<open>The deleted nodes are those of the list \<open>F\<close>, the cache is an entry, the count is right.\<close>

definition db_core :: "(nat \<Rightarrow> ct) \<Rightarrow> (nat \<times> nat) list \<Rightarrow> dbmap \<Rightarrow> bool" where
  "db_core T F db \<longleftrightarrow> length (d_ht db) = HASH_SIZE \<and> (\<forall>i < HASH_SIZE. bucket_ok db i (T i))
     \<and> distinct (map fst F) \<and> (\<forall>(a, i) \<in> set F. i < HASH_SIZE \<and> a \<in> set (addrs (T i)) \<and> n_deleted (d_nodes db a))
     \<and> (\<forall>i < HASH_SIZE. \<forall>a \<in> set (addrs (T i)). n_deleted (d_nodes db a) \<longrightarrow> (a, i) \<in> set F)
     \<and> (d_cache db \<noteq> 0 \<longrightarrow> d_cache db \<in> live T db)
     \<and> d_item_count db = int (card (live T db)) \<and> d_item_count db \<le> UINT_MAX"

definition db_inv :: "(nat \<Rightarrow> ct) \<Rightarrow> dbmap \<Rightarrow> bool" where
  "db_inv T db \<longleftrightarrow> db_core T (d_free_list db) db \<and> (d_free_lock db = 0 \<longrightarrow> d_free_list db = [])
     \<and> 0 \<le> d_free_lock db \<and> d_free_lock db \<le> UINT_MAX
     \<and> int (length (d_free_list db)) \<le> d_free_max db \<and> d_free_max db \<le> UINT_MAX"

definition nodes_of :: "(nat \<Rightarrow> ct) \<Rightarrow> nat set" where
  "nodes_of T = (\<Union>i < HASH_SIZE. set (addrs (T i)))"

text \<open>The map that a database stands for, and the addresses of its nodes.\<close>

definition contents :: "(nat \<Rightarrow> ct) \<Rightarrow> dbmap \<Rightarrow> (int list \<rightharpoonup> DBData) \<Rightarrow> bool" where
  "contents T db M \<longleftrightarrow> (\<forall>k d. M k = Some d \<longleftrightarrow> (\<exists>a \<in> live T db. node_val db a = k \<and> n_data (d_nodes db a) = d))"

definition db_repr :: "dbmap \<Rightarrow> nat set \<Rightarrow> (int list \<rightharpoonup> DBData) \<Rightarrow> bool" where
  "db_repr db A M \<longleftrightarrow> (\<exists>T. db_inv T db \<and> contents T db M \<and> A = nodes_of T)"

section \<open>Facts of the invariant\<close>

lemma bucket_unique:
  assumes "bucket_ok db i (T i)" "bucket_ok db j (T j)" "a \<in> set (addrs (T i))" "b \<in> set (addrs (T j))" "node_val db a = node_val db b"
  shows "i = j \<and> a = b"
proof -
  have k: "key_ok (d_type db) (d_maxlen db) (n_key (d_nodes db a))" "hash_of db (n_key (d_nodes db a)) = i"
    "key_ok (d_type db) (d_maxlen db) (n_key (d_nodes db b))" "hash_of db (n_key (d_nodes db b)) = j"
    using assms by (auto simp: bucket_ok_def)
  then have "i = j" using kval_bucket [OF k(1,3)] assms(5) by (simp add: node_val_def hash_of_def)
  moreover have "inj_on (node_val db) (set (addrs (T i)))"
    using assms(1) by (auto simp: bucket_ok_def distinct_map strict_sorted_iff)
  ultimately show ?thesis using assms by (auto dest: inj_onD)
qed

lemma node_in_one: "bucket_ok db i t \<Longrightarrow> bucket_ok db j u \<Longrightarrow> a \<in> set (addrs t) \<Longrightarrow> a \<in> set (addrs u) \<Longrightarrow> i = j"
  by (auto simp: bucket_ok_def)

lemma bucket_nonzero: "bucket_ok db i t \<Longrightarrow> a \<in> set (addrs t) \<Longrightarrow> a \<noteq> 0"
  using tree_at_nonzero [of "d_nodes db" 0 t] by (cases "a = 0") (auto simp: bucket_ok_def owns_def)

lemma live_finite: "finite (live T db)"
proof -
  have "live T db \<subseteq> (\<Union>i < HASH_SIZE. set (addrs (T i)))" by (auto simp: live_def)
  then show ?thesis by (rule finite_subset) simp
qed

text \<open>A tree that the change does not touch.\<close>

lemma owns_cong: "\<forall>x \<in> set (addrs t). h' x = h x \<Longrightarrow> owns (h', r) t = owns (h, r) t"
  using tree_at_cong [of t h' h 0] by (simp add: owns_def)

lemma bucket_frame:
  assumes "bucket_ok db i t" "d_ht db' ! i = d_ht db ! i" "d_type db' = d_type db" "d_maxlen db' = d_maxlen db"
    and "\<forall>x \<in> set (addrs t). d_nodes db' x = d_nodes db x"
  shows "bucket_ok db' i t"
proof -
  have m: "map (node_val db') (addrs t) = map (node_val db) (addrs t)" using assms(3-5) by (simp add: node_val_def)
  have "sorted_wrt (<) (map (node_val db') (addrs t))" unfolding m using assms(1) by (simp add: bucket_ok_def)
  then show ?thesis using assms owns_cong [OF assms(5), of "d_ht db ! i"] by (simp add: bucket_ok_def hash_of_def)
qed

text \<open>A change of keys, data and marks that keeps the values of the keys.\<close>

definition same_links :: "('k, 'd) store \<Rightarrow> ('k, 'd) store \<Rightarrow> bool" where
  "same_links h h' \<longleftrightarrow> (\<forall>x. n_parent (h' x) = n_parent (h x) \<and> n_left (h' x) = n_left (h x) \<and> n_right (h' x) = n_right (h x)
     \<and> n_color (h' x) = n_color (h x))"

lemma same_links_tree: "same_links h h' \<Longrightarrow> tree_at h' p t = tree_at h p t"
  by (induction t arbitrary: p) (auto simp: same_links_def)

lemma bucket_relabel:
  assumes "bucket_ok db i t" "same_links (d_nodes db) (d_nodes db')" "d_ht db' = d_ht db" "d_type db' = d_type db"
    "d_maxlen db' = d_maxlen db"
    and "\<forall>a \<in> set (addrs t). node_val db' a = node_val db a \<and> key_ok (d_type db) (d_maxlen db) (n_key (d_nodes db' a))"
  shows "bucket_ok db' i t"
proof -
  have m: "map (node_val db') (addrs t) = map (node_val db) (addrs t)" using assms(6) by simp
  have "hash_of db' (n_key (d_nodes db' a)) = hash_of db (n_key (d_nodes db a))" if "a \<in> set (addrs t)" for a
    using assms that kval_bucket [of "d_type db" "d_maxlen db" "n_key (d_nodes db' a)" "n_key (d_nodes db a)"]
    by (simp add: bucket_ok_def node_val_def hash_of_def)
  moreover have "sorted_wrt (<) (map (node_val db') (addrs t))" unfolding m using assms(1) by (simp add: bucket_ok_def)
  ultimately show ?thesis
    using assms same_links_tree [OF assms(2)] by (simp add: bucket_ok_def owns_def)
qed

section \<open>The search\<close>

lemma search_found:
  assumes "tree_at h p t" "sorted_wrt (<) (map g (addrs t))" "\<forall>a \<in> set (addrs t). f (n_key (h a)) = ord_sign v (g a)"
    and "a \<in> set (addrs t)" "g a = v"
  shows "\<exists>q. db_search f h (taddr t) p c = Some (a, q, 0)"
  using assms
proof (induction t arbitrary: p c)
  case (Nd col l b r)
  have cm: "f (n_key (h b)) = ord_sign v (g b)" using Nd.prems(3) by simp
  consider "a = b" | "a \<in> set (addrs l)" | "a \<in> set (addrs r)" using Nd.prems(4) by auto
  then show ?case
  proof cases
    case 1
    then show ?thesis using Nd.prems cm by (subst db_search.simps) simp
  next
    case 2
    then have "v < g b" using Nd.prems by (auto simp: sorted_wrt_append)
    then have "db_search f h b p c = db_search f h (taddr l) b (- 1)"
      using Nd.prems cm by (subst db_search.simps) (auto simp: ord_sign_def)
    then show ?thesis using Nd.IH(1) [of b "- 1"] Nd.prems 2 by (simp add: sorted_wrt_append)
  next
    case 3
    then have "g b < v" using Nd.prems by (auto simp: sorted_wrt_append)
    then have "db_search f h b p c = db_search f h (taddr r) b 1"
      using Nd.prems cm by (subst db_search.simps) (auto simp: ord_sign_def)
    then show ?thesis using Nd.IH(2) [of b 1] Nd.prems 3 by (simp add: sorted_wrt_append)
  qed
qed simp

text \<open>Where the search ends when there is no such key: the place of a new node.\<close>

definition place :: "frame list \<Rightarrow> int \<Rightarrow> int \<Rightarrow> bool" where
  "place k c c' \<longleftrightarrow> (case k of [] \<Rightarrow> c' = c | FL _ _ _ # _ \<Rightarrow> c' < 0 | FR _ _ _ # _ \<Rightarrow> 0 < c')"

lemma search_missing:
  assumes "tree_at h p t" "sorted_wrt (<) (map g (addrs t))" "\<forall>a \<in> set (addrs t). f (n_key (h a)) = ord_sign v (g a)"
    and "v \<notin> g ` set (addrs t)"
  shows "\<exists>k pre post c'. t = plug k Lf \<and> db_search f h (taddr t) p c = Some (0, if k = [] then p else kpar k, c')
    \<and> place k c c' \<and> (\<forall>u. addrs (plug k u) = pre @ addrs u @ post) \<and> (\<forall>x \<in> set pre. g x < v) \<and> (\<forall>x \<in> set post. v < g x)"
  using assms
proof (induction t arbitrary: p c)
  case Lf
  then show ?case
    by (intro exI [of _ "[]"]) (simp add: place_def, subst db_search.simps, auto)
next
  case (Nd col l b r)
  have cm: "f (n_key (h b)) = ord_sign v (g b)" using Nd.prems(3) by simp
  show ?case
  proof (cases "v < g b")
    case True
    then have s: "db_search f h b p c = db_search f h (taddr l) b (- 1)"
      using Nd.prems cm by (subst db_search.simps) (auto simp: ord_sign_def)
    obtain k pre post c' where I: "l = plug k Lf" "db_search f h (taddr l) b (- 1) = Some (0, if k = [] then b else kpar k, c')"
      "place k (- 1) c'" "\<And>u. addrs (plug k u) = pre @ addrs u @ post" "\<forall>x \<in> set pre. g x < v" "\<forall>x \<in> set post. v < g x"
    proof -
      have "tree_at h b l" "sorted_wrt (<) (map g (addrs l))" "\<forall>a \<in> set (addrs l). f (n_key (h a)) = ord_sign v (g a)"
        "v \<notin> g ` set (addrs l)"
        using Nd.prems by (auto simp: sorted_wrt_append)
      from Nd.IH(1) [OF this, of "- 1"] show ?thesis using that by blast
    qed
    have "\<forall>x \<in> set (post @ b # addrs r). v < g x" using I(6) True Nd.prems(2) by (auto simp: sorted_wrt_append)
    moreover have "place (k @ [FL col b r]) c c'" using I(3) by (cases k) (auto simp: place_def split: frame.splits)
    ultimately show ?thesis
      using I s by (intro exI [of _ "k @ [FL col b r]"] exI [of _ pre] exI [of _ "post @ b # addrs r"] exI [of _ c'])
        (auto simp: plug_append kpar_append)
  next
    case False
    then have gt: "g b < v" using Nd.prems(4) by auto
    then have s: "db_search f h b p c = db_search f h (taddr r) b 1"
      using Nd.prems cm by (subst db_search.simps) (auto simp: ord_sign_def)
    obtain k pre post c' where I: "r = plug k Lf" "db_search f h (taddr r) b 1 = Some (0, if k = [] then b else kpar k, c')"
      "place k 1 c'" "\<And>u. addrs (plug k u) = pre @ addrs u @ post" "\<forall>x \<in> set pre. g x < v" "\<forall>x \<in> set post. v < g x"
    proof -
      have "tree_at h b r" "sorted_wrt (<) (map g (addrs r))" "\<forall>a \<in> set (addrs r). f (n_key (h a)) = ord_sign v (g a)"
        "v \<notin> g ` set (addrs r)"
        using Nd.prems by (auto simp: sorted_wrt_append)
      from Nd.IH(2) [OF this, of "1"] show ?thesis using that by blast
    qed
    have "\<forall>x \<in> set (addrs l @ b # pre). g x < v" using I(5) gt Nd.prems(2) by (auto simp: sorted_wrt_append)
    moreover have "place (k @ [FR col b l]) c c'" using I(3) by (cases k) (auto simp: place_def split: frame.splits)
    ultimately show ?thesis
      using I s by (intro exI [of _ "k @ [FR col b l]"] exI [of _ "addrs l @ b # pre"] exI [of _ post] exI [of _ c'])
        (auto simp: plug_append kpar_append)
  qed
qed


section \<open>Freeing the deleted nodes\<close>

text \<open>Nothing that the users of the database see has changed.\<close>

definition same_entries :: "dbmap \<Rightarrow> dbmap \<Rightarrow> bool" where
  "same_entries db db' \<longleftrightarrow> d_type db' = d_type db \<and> d_options db' = d_options db \<and> d_maxlen db' = d_maxlen db
     \<and> d_cache db' = d_cache db \<and> d_item_count db' = d_item_count db \<and> d_global_lock db' = d_global_lock db
     \<and> d_free_max db' = d_free_max db
     \<and> (\<forall>x. n_key (d_nodes db' x) = n_key (d_nodes db x) \<and> n_data (d_nodes db' x) = n_data (d_nodes db x)
          \<and> n_deleted (d_nodes db' x) = n_deleted (d_nodes db x))"

lemma same_entries_refl [simp]: "same_entries db db"
  by (simp add: same_entries_def)

lemma same_entries_trans: "same_entries db db' \<Longrightarrow> same_entries db' db'' \<Longrightarrow> same_entries db db''"
  by (simp add: same_entries_def)

lemma same_entries_contents:
  "same_entries db db' \<Longrightarrow> live T' db' = live T db \<Longrightarrow> contents T' db' M = contents T db M"
  by (simp add: contents_def same_entries_def node_val_def)

lemma dup_key_free_simps [simp]:
  "d_nodes (db_dup_key_free key db) = d_nodes db" "d_ht (db_dup_key_free key db) = d_ht db"
  "d_cache (db_dup_key_free key db) = d_cache db" "d_type (db_dup_key_free key db) = d_type db"
  "d_options (db_dup_key_free key db) = d_options db" "d_maxlen (db_dup_key_free key db) = d_maxlen db"
  "d_item_count (db_dup_key_free key db) = d_item_count db" "d_global_lock (db_dup_key_free key db) = d_global_lock db"
  "d_free_list (db_dup_key_free key db) = d_free_list db" "d_free_lock (db_dup_key_free key db) = d_free_lock db"
  "d_free_max (db_dup_key_free key db) = d_free_max db"
  by (simp_all add: db_dup_key_free_def split: DBType.split)

lemma sorted_filter: "sorted_wrt (<) (map g xs) \<Longrightarrow> sorted_wrt (<) (map g (filter P xs))"
  by (simp add: sorted_wrt_map sorted_wrt_filter)

text \<open>Taking one node out of its tree.\<close>

lemma free_one:
  assumes "db_core T ((a, i) # F) db"
  shows "\<exists>h r t. db_rebalance_erase a (d_nodes db, d_ht db ! i) = Some (h, r)
    \<and> (\<forall>db'. same_entries db db' \<longrightarrow> d_nodes db' = h \<longrightarrow> d_ht db' = (d_ht db)[i := r] \<longrightarrow>
         db_core (T(i := t)) F db' \<and> live (T(i := t)) db' = live T db)
    \<and> (\<forall>x. n_key (h x) = n_key (d_nodes db x) \<and> n_data (h x) = n_data (d_nodes db x) \<and> n_deleted (h x) = n_deleted (d_nodes db x))
    \<and> nodes_of (T(i := t)) \<subseteq> nodes_of T"
proof -
  have C: "length (d_ht db) = HASH_SIZE" "\<And>j. j < HASH_SIZE \<Longrightarrow> bucket_ok db j (T j)"
    and ai: "i < HASH_SIZE" "a \<in> set (addrs (T i))" "n_deleted (d_nodes db a)"
    using assms by (auto simp: db_core_def)
  note B = C(2) [OF ai(1)]
  obtain h r t where E: "db_rebalance_erase a (d_nodes db, d_ht db ! i) = Some (h, r)" "owns (h, r) t" "balanced t"
    "addrs t = filter (\<lambda>z. z \<noteq> a) (addrs (T i))" "relinks (set (addrs (T i))) (d_nodes db) h"
    using db_rebalance_erase_ok [of "d_nodes db" "d_ht db ! i" "T i" a] B ai(2) by (auto simp: bucket_ok_def)
  have keep: "n_key (h x) = n_key (d_nodes db x)" "n_data (h x) = n_data (d_nodes db x)" "n_deleted (h x) = n_deleted (d_nodes db x)" for x
    using E(5) by (simp_all add: relinks_def)
  have "db_core (T(i := t)) F db' \<and> live (T(i := t)) db' = live T db"
    if S: "same_entries db db'" "d_nodes db' = h" "d_ht db' = (d_ht db)[i := r]" for db'
  proof -
    have nv: "node_val db' = node_val db" using S keep by (simp add: node_val_def same_entries_def fun_eq_iff)
    have "x \<in> set (addrs ((T(i := t)) j)) \<longleftrightarrow> x \<in> set (addrs (T j))" if "\<not> n_deleted (d_nodes db x)" for x j
      using that E(4) ai(3) by auto
    then have L: "live (T(i := t)) db' = live T db" unfolding live_def using S(2) keep by blast
    have "bucket_ok db' i t"
      using B E(2-4) S C(1) ai(1) keep nv sorted_filter [of "node_val db" "addrs (T i)"]
      by (auto simp: bucket_ok_def same_entries_def hash_of_def)
    moreover have "bucket_ok db' j (T j)" if "j < HASH_SIZE" "j \<noteq> i" for j
    proof (rule bucket_frame [OF C(2) [OF that(1)]])
      show "\<forall>x \<in> set (addrs (T j)). d_nodes db' x = d_nodes db x"
        using node_in_one [OF C(2) [OF that(1)] B] that(2) E(5) S(2) by (auto simp: relinks_def)
    qed (use S that in \<open>auto simp: same_entries_def\<close>)
    ultimately have bk: "\<forall>j < HASH_SIZE. bucket_ok db' j ((T(i := t)) j)" by simp
    have F: "distinct (map fst F)" "a \<notin> fst ` set F" using assms by (simp_all add: db_core_def)
    have F2: "j < HASH_SIZE \<and> b \<in> set (addrs ((T(i := t)) j)) \<and> n_deleted (d_nodes db' b)" if "(b, j) \<in> set F" for b j
    proof -
      have "j < HASH_SIZE \<and> b \<in> set (addrs (T j)) \<and> n_deleted (d_nodes db b)" using assms that unfolding db_core_def by auto
      moreover have "b \<noteq> a" using F(2) that by force
      ultimately show ?thesis using S(2) keep E(4) by auto
    qed
    have "(b, j) \<in> set F" if "j < HASH_SIZE" "b \<in> set (addrs ((T(i := t)) j))" "n_deleted (d_nodes db' b)" for b j
    proof -
      have b: "b \<in> set (addrs (T j))" using that(2) E(4) by (auto split: if_splits)
      then have "(b, j) \<in> set ((a, i) # F)" using that S(2) keep assms by (simp add: db_core_def)
      moreover have "(b, j) \<noteq> (a, i)" using that(2) E(4) by auto
      ultimately show ?thesis by auto
    qed
    then have F3: "\<forall>j < HASH_SIZE. \<forall>b \<in> set (addrs ((T(i := t)) j)). n_deleted (d_nodes db' b) \<longrightarrow> (b, j) \<in> set F"
      by blast
    have D: "d_cache db' = d_cache db" "d_item_count db' = d_item_count db" "length (d_ht db') = HASH_SIZE"
      using S C(1) by (simp_all add: same_entries_def)
    have "d_cache db \<noteq> 0 \<longrightarrow> d_cache db \<in> live T db" "d_item_count db = int (card (live T db))" "d_item_count db \<le> UINT_MAX"
      using assms unfolding db_core_def by blast+
    then show ?thesis unfolding db_core_def D L using bk F(1) F2 F3 by blast
  qed
  moreover have "nodes_of (T(i := t)) \<subseteq> nodes_of T" using E(4) ai(1) by (auto simp: nodes_of_def split: if_splits)
  ultimately show ?thesis using E(1) keep by blast
qed

lemma free_nodes_ok:
  assumes "db_core T F db"
  shows "\<exists>T' db'. free_nodes F db = Inr db' \<and> db_core T' [] db' \<and> live T' db' = live T db \<and> same_entries db db'
    \<and> d_free_lock db' = d_free_lock db \<and> nodes_of T' \<subseteq> nodes_of T"
  using assms
proof (induction F arbitrary: T db)
  case Nil
  then show ?case by (intro exI [of _ T] exI [of _ db]) simp
next
  case (Cons f F)
  obtain a i where f: "f = (a, i)" by (cases f)
  obtain h r t where E: "db_rebalance_erase a (d_nodes db, d_ht db ! i) = Some (h, r)"
    "\<And>db'. same_entries db db' \<Longrightarrow> d_nodes db' = h \<Longrightarrow> d_ht db' = (d_ht db)[i := r] \<Longrightarrow>
         db_core (T(i := t)) F db' \<and> live (T(i := t)) db' = live T db"
    "\<And>x. n_key (h x) = n_key (d_nodes db x) \<and> n_data (h x) = n_data (d_nodes db x) \<and> n_deleted (h x) = n_deleted (d_nodes db x)"
    "nodes_of (T(i := t)) \<subseteq> nodes_of T"
    using free_one [of T a i F db] Cons.prems f by blast
  let ?db = "db\<lparr>d_nodes := h, d_ht := (d_ht db)[i := r]\<rparr>"
  let ?db1 = "db_dup_key_free (n_key (d_nodes ?db a)) ?db"
  let ?db2 = "?db1\<lparr>d_freed := d_freed ?db1 @ [Freed_node a]\<rparr>"
  have s: "same_entries db ?db2" using E(3) by (simp add: same_entries_def)
  then have c: "db_core (T(i := t)) F ?db2" "live (T(i := t)) ?db2 = live T db" using E(2) by simp_all
  obtain T' db' where R: "free_nodes F ?db2 = Inr db'" "db_core T' [] db'" "live T' db' = live (T(i := t)) ?db2"
    "same_entries ?db2 db'" "d_free_lock db' = d_free_lock ?db2" "nodes_of T' \<subseteq> nodes_of (T(i := t))"
    using Cons.IH [OF c(1)] by blast
  have "free_nodes (f # F) db = Inr db'" using E(1) R(1) f by (simp add: Let_def)
  then show ?case using R(2,3,5,6) E(4) c(2) same_entries_trans [OF s R(4)]
    by (intro exI [of _ T'] exI [of _ db']) auto
qed

lemma db_core_cong:
  assumes "db_core T F db" "d_nodes db' = d_nodes db" "d_ht db' = d_ht db" "d_cache db' = d_cache db \<or> d_cache db' \<in> live T db \<or> d_cache db' = 0"
    "d_type db' = d_type db" "d_maxlen db' = d_maxlen db" "d_item_count db' = d_item_count db"
  shows "db_core T F db' \<and> live T db' = live T db"
proof -
  have l: "live T db' = live T db" using assms by (simp add: live_def)
  have "node_val db' = node_val db" using assms by (simp add: node_val_def fun_eq_iff)
  then have "bucket_ok db' i t = bucket_ok db i t" for i t
    using assms by (simp add: bucket_ok_def hash_of_def)
  then show ?thesis using assms l by (auto simp: db_core_def)
qed

text \<open>The last unlock frees the nodes, any other one leaves the list alone.\<close>

lemma db_free_unlock_ok:
  assumes "db_core T (d_free_list db) db" "0 < d_free_lock db" "d_free_lock db \<le> UINT_MAX"
    and "int (length (d_free_list db)) \<le> d_free_max db" "d_free_max db \<le> UINT_MAX"
  shows "\<exists>T' db'. db_free_unlock db = Inr db' \<and> db_inv T' db' \<and> live T' db' = live T db \<and> same_entries db db'
    \<and> d_free_lock db' = d_free_lock db - 1 \<and> nodes_of T' \<subseteq> nodes_of T
    \<and> (d_free_lock db' \<noteq> 0 \<longrightarrow> nodes_of T' = nodes_of T) \<and> length (d_free_list db') \<le> length (d_free_list db)"
proof -
  let ?db = "db\<lparr>d_free_lock := d_free_lock db - 1\<rparr>"
  have c: "db_core T (d_free_list db) ?db" "live T ?db = live T db" using db_core_cong [OF assms(1), of ?db] by simp_all
  have e: "same_entries db ?db" by (simp add: same_entries_def)
  show ?thesis
  proof (cases "d_free_lock db = 1")
    case False
    then have "db_free_unlock db = Inr ?db" using assms(2) by (simp add: db_free_unlock_def)
    then show ?thesis using c e assms False by (intro exI [of _ T] exI [of _ ?db]) (simp add: db_inv_def)
  next
    case True
    obtain T' db' where R: "free_nodes (d_free_list db) ?db = Inr db'" "db_core T' [] db'" "live T' db' = live T ?db"
      "same_entries ?db db'" "d_free_lock db' = d_free_lock ?db" "nodes_of T' \<subseteq> nodes_of T"
      using free_nodes_ok [OF c(1)] by blast
    let ?db' = "db'\<lparr>d_free_list := []\<rparr>"
    have u: "db_free_unlock db = Inr ?db'" using R(1) True by (simp add: db_free_unlock_def Let_def)
    have k: "db_core T' [] ?db'" "live T' ?db' = live T' db'" using db_core_cong [OF R(2), of ?db'] by simp_all
    have "same_entries db ?db'" using same_entries_trans [OF e R(4)] by (simp add: same_entries_def)
    moreover have "db_inv T' ?db'"
      using k R(4,5) True assms by (simp add: db_inv_def same_entries_def)
    ultimately show ?thesis using u k R(3,5,6) c(2) True by (intro exI [of _ T'] exI [of _ ?db']) simp
  qed
qed


section \<open>Finding the node of a key\<close>

lemma cmp_sign: "cmp db key (n_key (d_nodes db a)) = ord_sign (kval (d_type db) (d_maxlen db) key) (node_val db a)"
  by (simp add: cmp_def db_cmp_sign node_val_def)

lemma key_ok_allowed: "key_ok (d_type db) (d_maxlen db) key \<Longrightarrow> key_allowed db key"
  by (cases "d_type db"; cases key) (auto simp: key_allowed_def db_is_key_null_def split: option.splits)

lemma dup_key_id: "key_ok (d_type db) (d_maxlen db) key \<Longrightarrow> db_dup_key db key = key"
  by (induction "d_type db" "d_maxlen db" key rule: key_ok.induct) (auto simp: db_dup_key_def)

lemma db_find_hit:
  assumes "bucket_ok db i t" "i < HASH_SIZE" "a \<in> set (addrs t)" "node_val db a = kval (d_type db) (d_maxlen db) key"
  shows "\<exists>q. db_search (cmp db key) (d_nodes db) (d_ht db ! i) 0 0 = Some (a, q, 0)"
  using search_found [of "d_nodes db" 0 t "node_val db" "cmp db key" "kval (d_type db) (d_maxlen db) key" a 0] assms cmp_sign
  by (auto simp: bucket_ok_def owns_def)

lemma db_find_miss:
  assumes "bucket_ok db i t" "\<forall>a \<in> set (addrs t). node_val db a \<noteq> kval (d_type db) (d_maxlen db) key"
  shows "\<exists>k pre post c. t = plug k Lf \<and> db_search (cmp db key) (d_nodes db) (d_ht db ! i) 0 0 = Some (0, kpar k, c)
    \<and> place k 0 c \<and> (\<forall>u. addrs (plug k u) = pre @ addrs u @ post)
    \<and> (\<forall>x \<in> set pre. node_val db x < kval (d_type db) (d_maxlen db) key)
    \<and> (\<forall>x \<in> set post. kval (d_type db) (d_maxlen db) key < node_val db x)"
proof -
  have f: "\<forall>a \<in> set (addrs t). cmp db key (n_key (d_nodes db a)) = ord_sign (kval (d_type db) (d_maxlen db) key) (node_val db a)"
    by (simp add: cmp_sign)
  have v: "kval (d_type db) (d_maxlen db) key \<notin> node_val db ` set (addrs t)" using assms(2) by fastforce
  have t: "tree_at (d_nodes db) 0 t" "sorted_wrt (<) (map (node_val db) (addrs t))" "d_ht db ! i = taddr t"
    using assms(1) by (simp_all add: bucket_ok_def owns_def)
  from search_missing [OF t(1,2) f v, of 0]
  obtain k pre post c where "t = plug k Lf"
    "db_search (cmp db key) (d_nodes db) (taddr t) 0 0 = Some (0, if k = [] then 0 else kpar k, c)" "place k 0 c"
    "\<forall>u. addrs (plug k u) = pre @ addrs u @ post" "\<forall>x \<in> set pre. node_val db x < kval (d_type db) (d_maxlen db) key"
    "\<forall>x \<in> set post. kval (d_type db) (d_maxlen db) key < node_val db x"
    by blast
  then show ?thesis using t(3) by (intro exI [of _ k] exI [of _ pre] exI [of _ post] exI [of _ c]) simp
qed

text \<open>The entry of a key lies in the slot of its hash.\<close>

lemma live_slot:
  assumes "db_core T F db" "key_ok (d_type db) (d_maxlen db) key" "a \<in> nodes_of T" "node_val db a = kval (d_type db) (d_maxlen db) key"
  shows "a \<in> set (addrs (T (hash_of db key)))"
proof -
  obtain i where i: "i < HASH_SIZE" "a \<in> set (addrs (T i))" using assms(3) by (auto simp: nodes_of_def)
  then have "bucket_ok db i (T i)" using assms(1) by (simp add: db_core_def)
  then have k: "key_ok (d_type db) (d_maxlen db) (n_key (d_nodes db a))" "hash_of db (n_key (d_nodes db a)) = i"
    using i(2) by (auto simp: bucket_ok_def)
  then have "hash_of db key = i" using kval_bucket [OF k(1) assms(2)] assms(4) by (simp add: hash_of_def node_val_def)
  then show ?thesis using i(2) by simp
qed

lemma live_nodes: "a \<in> live T db \<longleftrightarrow> a \<in> nodes_of T \<and> \<not> n_deleted (d_nodes db a)"
  by (auto simp: live_def nodes_of_def)

lemma live_inj:
  assumes "db_core T F db" "a \<in> nodes_of T" "b \<in> nodes_of T" "node_val db a = node_val db b"
  shows "a = b"
proof -
  obtain i j where "i < HASH_SIZE" "a \<in> set (addrs (T i))" "j < HASH_SIZE" "b \<in> set (addrs (T j))"
    using assms(2,3) by (auto simp: nodes_of_def)
  then show ?thesis using bucket_unique [of db i T j a b] assms(1,4) by (simp add: db_core_def)
qed

lemma contents_entry:
  assumes "db_core T F db" "contents T db M" "a \<in> live T db"
  shows "M (node_val db a) = Some (n_data (d_nodes db a))"
  using assms by (auto simp: contents_def)

lemma contents_none:
  assumes "contents T db M" "M v = None" "a \<in> live T db"
  shows "node_val db a \<noteq> v"
proof
  assume "node_val db a = v"
  then have "M v = Some (n_data (d_nodes db a))" using assms(1,3) unfolding contents_def by blast
  then show False using assms(2) by simp
qed

lemma db_free_lock_ok:
  assumes "db_inv T db" "d_free_lock db < UINT_MAX"
  defines "db' \<equiv> db\<lparr>d_free_lock := d_free_lock db + 1\<rparr>"
  shows "db_free_lock db = Inr db'" "db_core T (d_free_list db') db'" "live T db' = live T db" "0 < d_free_lock db'"
    and "d_free_lock db' \<le> UINT_MAX" "int (length (d_free_list db')) \<le> d_free_max db'" "d_free_max db' \<le> UINT_MAX"
  using assms db_core_cong [of T "d_free_list db" db db'] by (simp_all add: db_free_lock_def db_inv_def)

text \<open>What the search loop of every operation finds.\<close>

lemma db_lookup:
  assumes "db_core T F db" "key_ok (d_type db) (d_maxlen db) key"
  defines "v \<equiv> kval (d_type db) (d_maxlen db) key"
    and "s \<equiv> db_search (cmp db key) (d_nodes db) (d_ht db ! hash_of db key) 0 0"
  shows "(\<exists>a q. a \<in> set (addrs (T (hash_of db key))) \<and> node_val db a = v \<and> s = Some (a, q, 0) \<and> a \<noteq> 0)
    \<or> (\<forall>a \<in> nodes_of T. node_val db a \<noteq> v)
      \<and> (\<exists>k pre post c. T (hash_of db key) = plug k Lf \<and> s = Some (0, kpar k, c) \<and> place k 0 c
           \<and> (\<forall>u. addrs (plug k u) = pre @ addrs u @ post) \<and> (\<forall>x \<in> set pre. node_val db x < v) \<and> (\<forall>x \<in> set post. v < node_val db x))"
proof (cases "\<exists>a \<in> nodes_of T. node_val db a = v")
  case True
  then obtain a where a: "a \<in> nodes_of T" "node_val db a = v" by blast
  have h: "hash_of db key < HASH_SIZE" by (simp add: hash_of_def)
  then have B: "bucket_ok db (hash_of db key) (T (hash_of db key))" using assms(1) by (simp add: db_core_def)
  have "a \<in> set (addrs (T (hash_of db key)))" using live_slot [OF assms(1,2) a(1)] a(2) by (simp add: v_def)
  then show ?thesis using db_find_hit [OF B h, of a key] a(2) bucket_nonzero [OF B] unfolding v_def s_def by blast
next
  case False
  have h: "hash_of db key < HASH_SIZE" by (simp add: hash_of_def)
  then have B: "bucket_ok db (hash_of db key) (T (hash_of db key))" using assms(1) by (simp add: db_core_def)
  have "\<forall>a \<in> set (addrs (T (hash_of db key))). node_val db a \<noteq> kval (d_type db) (d_maxlen db) key"
    using False h unfolding nodes_of_def v_def by blast
  from db_find_miss [OF B this] show ?thesis using False unfolding v_def s_def by blast
qed

lemma unlock_repr:
  assumes "db_core T (d_free_list db) db" "0 < d_free_lock db" "d_free_lock db \<le> UINT_MAX"
    and "int (length (d_free_list db)) \<le> d_free_max db" "d_free_max db \<le> UINT_MAX" "contents T db M"
  shows "\<exists>db' B. db_free_unlock db = Inr db' \<and> db_repr db' B M \<and> B \<subseteq> nodes_of T \<and> same_entries db db'
    \<and> d_free_lock db' = d_free_lock db - 1 \<and> (d_free_lock db' \<noteq> 0 \<longrightarrow> B = nodes_of T)
    \<and> length (d_free_list db') \<le> length (d_free_list db)"
proof -
  obtain T' db' where U: "db_free_unlock db = Inr db'" "db_inv T' db'" "live T' db' = live T db" "same_entries db db'"
    "d_free_lock db' = d_free_lock db - 1" "nodes_of T' \<subseteq> nodes_of T" "d_free_lock db' \<noteq> 0 \<longrightarrow> nodes_of T' = nodes_of T"
    "length (d_free_list db') \<le> length (d_free_list db)"
    using db_free_unlock_ok [OF assms(1-5)] by blast
  have "contents T' db' M" using same_entries_contents [OF U(4,3)] assms(6) by simp
  then show ?thesis using U unfolding db_repr_def by blast
qed

text \<open>
  What an operation leaves alone: the settings and the number of locks, and, while another lock
  is held, the nodes and the values of their keys.
\<close>

definition same_config :: "dbmap \<Rightarrow> dbmap \<Rightarrow> bool" where
  "same_config db db' \<longleftrightarrow> d_type db' = d_type db \<and> d_options db' = d_options db \<and> d_maxlen db' = d_maxlen db
     \<and> d_global_lock db' = d_global_lock db"

definition db_frame :: "dbmap \<Rightarrow> nat set \<Rightarrow> dbmap \<Rightarrow> nat set \<Rightarrow> bool" where
  "db_frame db A db' B \<longleftrightarrow> same_config db db' \<and> d_free_lock db' = d_free_lock db
     \<and> length (d_free_list db') \<le> length (d_free_list db) + 1
     \<and> (d_free_lock db \<noteq> 0 \<longrightarrow> A \<subseteq> B \<and> (\<forall>a \<in> A. node_val db' a = node_val db a))"

lemma frame_refl: "db_frame db A db A"
  by (simp add: db_frame_def same_config_def)

lemma frame_unlock:
  assumes "same_entries db2 db'" "d_free_lock db' = d_free_lock db2 - 1" "d_free_lock db' \<noteq> 0 \<longrightarrow> B = nodes_of T"
    "length (d_free_list db') \<le> length (d_free_list db2)"
    and "same_config db db2" "d_free_lock db2 = d_free_lock db + 1" "length (d_free_list db2) \<le> length (d_free_list db) + 1"
    "A \<subseteq> nodes_of T" "\<forall>a \<in> A. node_val db2 a = node_val db a"
  shows "db_frame db A db' B"
  using assms by (auto simp: db_frame_def same_config_def same_entries_def node_val_def)

lemma contents_cong:
  "contents T db M \<Longrightarrow> d_nodes db' = d_nodes db \<Longrightarrow> d_type db' = d_type db \<Longrightarrow> d_maxlen db' = d_maxlen db \<Longrightarrow> contents T db' M"
  by (simp add: contents_def live_def node_val_def)

text \<open>A lock that is given back at once.\<close>

lemma lock_unlock:
  assumes "db_inv T db" "contents T db M" "d_free_lock db < UINT_MAX"
  defines "db1 \<equiv> db\<lparr>d_free_lock := d_free_lock db + 1\<rparr>"
  shows "\<exists>db' B. db_free_unlock db1 = Inr db' \<and> db_repr db' B M \<and> B \<subseteq> nodes_of T \<and> db_frame db (nodes_of T) db' B"
proof -
  note L = db_free_lock_ok [OF assms(1,3), folded db1_def]
  have "contents T db1 M" using contents_cong [OF assms(2)] by (simp add: db1_def)
  then obtain db' B where U: "db_free_unlock db1 = Inr db'" "db_repr db' B M" "B \<subseteq> nodes_of T" "same_entries db1 db'"
    "d_free_lock db' = d_free_lock db1 - 1" "d_free_lock db' \<noteq> 0 \<longrightarrow> B = nodes_of T" "length (d_free_list db') \<le> length (d_free_list db1)"
    using unlock_repr [OF L(2) L(4-7)] by blast
  have "db_frame db (nodes_of T) db' B"
    by (rule frame_unlock [OF U(4-7)]) (simp_all add: db1_def same_config_def node_val_def)
  then show ?thesis using U by blast
qed

lemma db_obj_get_repr:
  assumes "db_repr db A M" "key_ok (d_type db) (d_maxlen db) key" "d_free_lock db < UINT_MAX"
  shows "\<exists>a db' B. db_obj_get key db = Inr (a, db') \<and> db_repr db' B M \<and> B \<subseteq> A \<and> db_frame db A db' B
    \<and> M (kval (d_type db) (d_maxlen db) key) = (if a = 0 then None else Some (n_data (d_nodes db' a)))"
proof -
  obtain T where T: "db_inv T db" "contents T db M" "A = nodes_of T" using assms(1) by (auto simp: db_repr_def)
  let ?v = "kval (d_type db) (d_maxlen db) key"
  have core: "db_core T (d_free_list db) db" using T(1) by (simp add: db_inv_def)
  have al: "key_allowed db key" by (rule key_ok_allowed [OF assms(2)])
  show ?thesis
  proof (cases "d_cache db \<noteq> 0 \<and> cmp db key (n_key (d_nodes db (d_cache db))) = 0")
    case True
    then have "d_cache db \<in> live T db" "node_val db (d_cache db) = ?v" using core by (auto simp: db_core_def cmp_sign)
    then have "M ?v = Some (n_data (d_nodes db (d_cache db)))" using contents_entry [OF core T(2)] by metis
    moreover have "db_obj_get key db = Inr (d_cache db, db)" using True al by (simp add: db_obj_get_def)
    ultimately show ?thesis using assms(1) True frame_refl by fastforce
  next
    case False
    let ?db = "db\<lparr>d_free_lock := d_free_lock db + 1\<rparr>"
    note L = db_free_lock_ok [OF T(1) assms(3)]
    have e: "cmp ?db = cmp db" "hash_of ?db = hash_of db" "node_val ?db = node_val db"
      by (simp_all add: cmp_def hash_of_def node_val_def fun_eq_iff)
    have c: "contents T ?db M" using contents_cong [OF T(2)] by simp
    obtain node parent cc where S: "db_search (cmp db key) (d_nodes db) (d_ht db ! hash_of db key) 0 0 = Some (node, parent, cc)"
      "if node = 0 then \<forall>a \<in> nodes_of T. node_val db a \<noteq> ?v else node \<in> nodes_of T \<and> node_val db node = ?v"
    proof -
      have h: "hash_of db key < HASH_SIZE" by (simp add: hash_of_def)
      show ?thesis using db_lookup [OF core assms(2)] h that unfolding nodes_of_def by fastforce
    qed
    define data where "data = (if node \<noteq> 0 \<and> \<not> n_deleted (d_nodes db node) then node else 0)"
    define db2 where "db2 = (if data \<noteq> 0 then ?db\<lparr>d_cache := data\<rparr> else ?db)"
    have f2: "d_nodes db2 = d_nodes ?db" "d_ht db2 = d_ht ?db" "d_type db2 = d_type ?db" "d_maxlen db2 = d_maxlen ?db"
      "d_item_count db2 = d_item_count ?db" "d_free_list db2 = d_free_list ?db" "d_free_lock db2 = d_free_lock ?db"
      "d_free_max db2 = d_free_max ?db" "d_cache db2 = (if data \<noteq> 0 then data else d_cache ?db)"
      by (simp_all add: db2_def)
    have lv: "data \<noteq> 0 \<longrightarrow> data \<in> live T db \<and> node_val db data = ?v" using S(2) by (auto simp: data_def live_nodes split: if_splits)
    have "db_core T (d_free_list ?db) db2" using db_core_cong [OF L(2) f2(1,2) _ f2(3-5)] L(3) lv f2(9) by auto
    then have c2: "db_core T (d_free_list db2) db2" by (simp only: f2(6))
    obtain db' B where U: "db_free_unlock db2 = Inr db'" "db_repr db' B M" "B \<subseteq> nodes_of T" "same_entries db2 db'"
      "d_free_lock db' = d_free_lock db2 - 1" "d_free_lock db' \<noteq> 0 \<longrightarrow> B = nodes_of T" "length (d_free_list db') \<le> length (d_free_list db2)"
      using unlock_repr [OF c2 _ _ _ _ contents_cong [OF c f2(1,3,4)]] L(4-7) unfolding f2(6-8) by blast
    have fr: "db_frame db A db' B"
      by (rule frame_unlock [OF U(4-7)]) (simp_all add: f2 T(3) same_config_def node_val_def, simp_all add: db2_def)
    have "db_obj_get key db = dbind (db_free_unlock db2) (\<lambda>db. Inr (data, db))"
      using False al L(1) S(1) e by (auto simp: db_obj_get_def data_def db2_def)
    then have "db_obj_get key db = Inr (data, db')" using U(1) by simp
    moreover have "M ?v = (if data = 0 then None else Some (n_data (d_nodes db' data)))"
    proof (cases "data = 0")
      case True
      have "node_val db a \<noteq> ?v" if "a \<in> live T db" for a
      proof
        assume "node_val db a = ?v"
        then show False using S(2) True live_inj [OF core, of a node] that by (auto simp: data_def live_nodes split: if_splits)
      qed
      then show ?thesis using T(2) True by (cases "M ?v") (auto simp: contents_def)
    next
      case False
      then show ?thesis using contents_entry [OF core T(2), of data] lv U(4) f2(1) by (simp add: same_entries_def)
    qed
    ultimately show ?thesis using U(2,3) T(3) fr by blast
  qed
qed


section \<open>Removing\<close>

lemma same_entries_core:
  assumes "db_core T F db" "contents T db M" "d_nodes db' = d_nodes db" "d_ht db' = d_ht db" "d_type db' = d_type db"
    "d_maxlen db' = d_maxlen db" "d_item_count db' = d_item_count db" "d_cache db' = d_cache db"
  shows "db_core T F db' \<and> contents T db' M"
  using db_core_cong [OF assms(1,3,4) _ assms(5-7)] contents_cong [OF assms(2,3,5,6)] assms(8) by simp

lemma release_simps [simp]:
  "d_nodes (release k d w db) = d_nodes db" "d_ht (release k d w db) = d_ht db" "d_cache (release k d w db) = d_cache db"
  "d_type (release k d w db) = d_type db" "d_options (release k d w db) = d_options db" "d_maxlen (release k d w db) = d_maxlen db"
  "d_item_count (release k d w db) = d_item_count db" "d_global_lock (release k d w db) = d_global_lock db"
  "d_free_list (release k d w db) = d_free_list db" "d_free_lock (release k d w db) = d_free_lock db"
  "d_free_max (release k d w db) = d_free_max db"
  by (simp_all add: release_def)

text \<open>Marking an entry as deleted and putting it on the list.\<close>

lemma mark_deleted:
  assumes "db_core T F db" "contents T db M" "i < HASH_SIZE" "a \<in> set (addrs (T i))" "\<not> n_deleted (d_nodes db a)" "d_cache db \<noteq> a"
    and "d_nodes db' = (d_nodes db)(a := (d_nodes db a)\<lparr>n_deleted := True\<rparr>)" "d_ht db' = d_ht db" "d_type db' = d_type db"
      "d_maxlen db' = d_maxlen db" "d_item_count db' = u32 (d_item_count db - 1)" "d_cache db' = d_cache db"
  shows "db_core T (F @ [(a, i)]) db'" "contents T db' (M(node_val db a := None))"
proof -
  have B: "\<And>j. j < HASH_SIZE \<Longrightarrow> bucket_ok db j (T j)" using assms(1) by (simp add: db_core_def)
  have nv: "node_val db' = node_val db" using assms(7-10) by (simp add: node_val_def fun_eq_iff)
  have "same_links (d_nodes db) (d_nodes db')" using assms(7) by (simp add: same_links_def)
  then have bk: "bucket_ok db' j (T j)" if "j < HASH_SIZE" for j
    using bucket_relabel [OF B [OF that] _ assms(8-10)] B [OF that] nv assms(7) by (auto simp: bucket_ok_def)
  have al: "a \<in> live T db" using assms(3-5) by (auto simp: live_def)
  have lv: "live T db' = live T db - {a}" using assms(7) by (auto simp: live_def)
  have ic: "d_item_count db' = int (card (live T db'))"
  proof -
    have "int (card (live T db)) \<le> UINT_MAX" "d_item_count db = int (card (live T db))" using assms(1) by (simp_all add: db_core_def)
    moreover have "0 < card (live T db)" using al live_finite card_gt_0_iff by blast
    moreover have "card (live T db') = card (live T db) - 1" unfolding lv using al live_finite by (simp add: card_Diff_singleton)
    ultimately show ?thesis unfolding assms(11) by (simp add: UINT_MAX_def of_nat_diff)
  qed
  have na: "a \<notin> fst ` set F" using assms(1,5) unfolding db_core_def by force
  have F: "distinct (map fst (F @ [(a, i)]))" using assms(1) na by (simp add: db_core_def)
  have F2: "\<forall>(b, j) \<in> set (F @ [(a, i)]). j < HASH_SIZE \<and> b \<in> set (addrs (T j)) \<and> n_deleted (d_nodes db' b)"
    using assms(1,3,4,7) unfolding db_core_def by auto
  have F3: "\<forall>j < HASH_SIZE. \<forall>b \<in> set (addrs (T j)). n_deleted (d_nodes db' b) \<longrightarrow> (b, j) \<in> set (F @ [(a, i)])"
  proof (intro allI impI ballI)
    fix j b assume j: "j < HASH_SIZE" "b \<in> set (addrs (T j))" "n_deleted (d_nodes db' b)"
    show "(b, j) \<in> set (F @ [(a, i)])"
    proof (cases "b = a")
      case True
      then have "j = i" using node_in_one [OF B [OF j(1)] B [OF assms(3)]] j(2) assms(4) by blast
      then show ?thesis using True by simp
    next
      case False
      then show ?thesis using j assms(1,7) unfolding db_core_def by auto
    qed
  qed
  have "d_cache db' \<noteq> 0 \<longrightarrow> d_cache db' \<in> live T db'" using assms(1,6,12) lv by (auto simp: db_core_def)
  moreover have "d_item_count db' \<le> UINT_MAX" unfolding assms(11) using u32_range(2) [of "d_item_count db - 1"] by (simp add: UINT_MAX_def)
  moreover have "length (d_ht db') = HASH_SIZE" using assms(1,8) by (simp add: db_core_def)
  ultimately show "db_core T (F @ [(a, i)]) db'" unfolding db_core_def using bk F F2 F3 ic by blast
  show "contents T db' (M(node_val db a := None))"
    unfolding contents_def
  proof (intro allI)
    fix k d
    have "node_val db b \<noteq> node_val db a" if "b \<in> live T db" "b \<noteq> a" for b
      using live_inj [OF assms(1)] that al by (auto simp: live_nodes)
    then show "(M(node_val db a := None)) k = Some d \<longleftrightarrow> (\<exists>b \<in> live T db'. node_val db' b = k \<and> n_data (d_nodes db' b) = d)"
      using assms(2) unfolding contents_def lv nv assms(7) by (auto split: if_splits)
  qed
qed

lemma set_key_self: "db_dup_key db (n_key (d_nodes db a)) = n_key (d_nodes db a) \<Longrightarrow> set_key a (db_dup_key db (n_key (d_nodes db a))) db = db"
  by (simp add: set_key_def fun_upd_idem)

lemma db_free_add_eq:
  assumes "d_free_lock db < UINT_MAX" "int (length (d_free_list db)) < UINT_MAX" "int (length (d_free_list db)) \<le> d_free_max db"
    "d_free_max db \<le> UINT_MAX" "db_dup_key db (n_key (d_nodes db a)) = n_key (d_nodes db a)"
  shows "\<exists>m fr. db_free_add a i db = Inr (db\<lparr>d_nodes := (d_nodes db)(a := (d_nodes db a)\<lparr>n_deleted := True\<rparr>),
      d_free_list := d_free_list db @ [(a, i)], d_free_max := m, d_item_count := u32 (d_item_count db - 1), d_freed := fr\<rparr>)
    \<and> int (length (d_free_list db)) + 1 \<le> m \<and> m \<le> UINT_MAX"
proof -
  let ?n = "int (length (d_free_list db))"
  define m where "m = (if ?n = d_free_max db then let m = u32 (u32 (d_free_max db * 4) + 3) in if m \<le> ?n then UINT_MAX else m else d_free_max db)"
  define fr where "fr = (if \<not> opt db DB_OPT_DUP_KEY
    then d_freed db @ db_default_release (d_type db) (d_options db) (n_key (d_nodes db a)) (n_data (d_nodes db a)) DB_RELEASE_KEY
    else d_freed db)"
  have "?n + 1 \<le> m \<and> m \<le> UINT_MAX"
    using assms(2-4) u32_range(2) [of "u32 (d_free_max db * 4) + 3"] by (auto simp: m_def Let_def UINT_MAX_def)
  moreover have "db_free_add a i db = Inr (db\<lparr>d_nodes := (d_nodes db)(a := (d_nodes db a)\<lparr>n_deleted := True\<rparr>),
      d_free_list := d_free_list db @ [(a, i)], d_free_max := m, d_item_count := u32 (d_item_count db - 1), d_freed := fr\<rparr>)"
    using assms set_key_self [OF assms(5)]
    by (simp add: db_free_add_def Let_def m_def fr_def set_deleted_def release_def)
  ultimately show ?thesis by blast
qed

text \<open>What the search finds, as the removing and the putting of a key need it.\<close>

lemma lookup_cases:
  assumes "db_core T F db" "contents T db M" "key_ok (d_type db) (d_maxlen db) key"
  defines "v \<equiv> kval (d_type db) (d_maxlen db) key"
    and "s \<equiv> db_search (cmp db key) (d_nodes db) (d_ht db ! hash_of db key) 0 0"
  obtains (live) a q where "s = Some (a, q, 0)" "a \<noteq> 0" "a \<in> set (addrs (T (hash_of db key)))" "node_val db a = v"
      "\<not> n_deleted (d_nodes db a)" "M v = Some (n_data (d_nodes db a))"
    | (deleted) a q where "s = Some (a, q, 0)" "a \<noteq> 0" "a \<in> set (addrs (T (hash_of db key)))" "node_val db a = v"
      "n_deleted (d_nodes db a)" "M v = None"
    | (missing) k pre post c where "s = Some (0, kpar k, c)" "T (hash_of db key) = plug k Lf" "place k 0 c"
      "\<And>u. addrs (plug k u) = pre @ addrs u @ post" "\<forall>x \<in> set pre. node_val db x < v" "\<forall>x \<in> set post. v < node_val db x"
      "M v = None" "\<forall>a \<in> nodes_of T. node_val db a \<noteq> v"
proof -
  have h: "hash_of db key < HASH_SIZE" by (simp add: hash_of_def)
  have none: "M v = None" if "\<forall>a \<in> live T db. node_val db a \<noteq> v"
    using that assms(2) by (cases "M v") (auto simp: contents_def)
  from db_lookup [OF assms(1,3)] consider
    (hit) a q where "s = Some (a, q, 0)" "a \<noteq> 0" "a \<in> set (addrs (T (hash_of db key)))" "node_val db a = v"
    | (miss) k pre post c where "s = Some (0, kpar k, c)" "T (hash_of db key) = plug k Lf" "place k 0 c"
      "\<forall>u. addrs (plug k u) = pre @ addrs u @ post" "\<forall>x \<in> set pre. node_val db x < v" "\<forall>x \<in> set post. v < node_val db x"
      "\<forall>a \<in> nodes_of T. node_val db a \<noteq> v"
    unfolding v_def s_def by blast
  then show thesis
  proof cases
    case hit
    have n: "a \<in> nodes_of T" using hit(3) h by (auto simp: nodes_of_def)
    show ?thesis
    proof (cases "n_deleted (d_nodes db a)")
      case True
      have "\<forall>b \<in> live T db. node_val db b \<noteq> v"
      proof (intro ballI notI)
        fix b assume b: "b \<in> live T db" "node_val db b = v"
        then have "b = a" using live_inj [OF assms(1) _ n, of b] hit(4) by (simp add: live_nodes)
        then show False using b(1) True by (simp add: live_nodes)
      qed
      then show ?thesis using deleted [OF hit(1-4) True none] by blast
    next
      case False
      then have "M v = Some (n_data (d_nodes db a))" using contents_entry [OF assms(1,2)] n hit(4) by (auto simp: live_nodes)
      then show ?thesis by (rule live [OF hit(1-4) False])
    qed
  next
    case miss
    have "M v = None" using none miss(7) by (simp add: live_nodes)
    then show ?thesis using missing [OF miss(1-3)] miss(4-7) by blast
  qed
qed

text \<open>An entry is released and put on the list.\<close>

lemma remove_node_ok:
  assumes "db_core T (d_free_list db) db" "contents T db M" "i < HASH_SIZE" "a \<in> set (addrs (T i))" "\<not> n_deleted (d_nodes db a)"
    and "d_free_lock db < UINT_MAX" "int (length (d_free_list db)) < UINT_MAX" "int (length (d_free_list db)) \<le> d_free_max db"
      "d_free_max db \<le> UINT_MAX"
  shows "\<exists>db3. db_free_add a i (release (n_key (d_nodes db a)) (n_data (d_nodes db a)) DB_RELEASE_DATA (if d_cache db = a then db\<lparr>d_cache := 0\<rparr> else db))
        = Inr db3 \<and> db_core T (d_free_list db3) db3 \<and> contents T db3 (M(node_val db a := None)) \<and> same_config db db3
    \<and> d_free_lock db3 = d_free_lock db \<and> length (d_free_list db3) = length (d_free_list db) + 1
    \<and> int (length (d_free_list db3)) \<le> d_free_max db3 \<and> d_free_max db3 \<le> UINT_MAX \<and> node_val db3 = node_val db"
proof -
  let ?n = "d_nodes db a"
  define db2 where "db2 = release (n_key ?n) (n_data ?n) DB_RELEASE_DATA (if d_cache db = a then db\<lparr>d_cache := 0\<rparr> else db)"
  have bk: "bucket_ok db i (T i)" using assms(1,3) by (simp add: db_core_def)
  have f2: "d_nodes db2 = d_nodes db" "d_ht db2 = d_ht db" "d_type db2 = d_type db" "d_maxlen db2 = d_maxlen db"
    "d_item_count db2 = d_item_count db" "d_free_list db2 = d_free_list db" "d_free_lock db2 = d_free_lock db"
    "d_free_max db2 = d_free_max db" "d_cache db2 \<noteq> a" "d_cache db2 = d_cache db \<or> d_cache db2 = 0" "d_options db2 = d_options db"
    "d_global_lock db2 = d_global_lock db"
    using bucket_nonzero [OF bk assms(4)] by (auto simp: db2_def)
  have core2: "db_core T (d_free_list db) db2" "contents T db2 M"
    using db_core_cong [OF assms(1), of db2] contents_cong [OF assms(2), of db2] f2 by auto
  have "key_ok (d_type db) (d_maxlen db) (n_key ?n)" using assms(4) bk by (simp add: bucket_ok_def)
  then have dup: "db_dup_key db2 (n_key (d_nodes db2 a)) = n_key (d_nodes db2 a)" using dup_key_id [of db2] f2 by simp
  have l: "d_free_lock db2 < UINT_MAX" "int (length (d_free_list db2)) < UINT_MAX"
    "int (length (d_free_list db2)) \<le> d_free_max db2" "d_free_max db2 \<le> UINT_MAX"
    using assms(6-9) f2(6-8) by simp_all
  obtain m fr where FA: "db_free_add a i db2 = Inr (db2\<lparr>d_nodes := (d_nodes db2)(a := (d_nodes db2 a)\<lparr>n_deleted := True\<rparr>),
      d_free_list := d_free_list db2 @ [(a, i)], d_free_max := m, d_item_count := u32 (d_item_count db2 - 1), d_freed := fr\<rparr>)"
    "int (length (d_free_list db2)) + 1 \<le> m" "m \<le> UINT_MAX"
    using db_free_add_eq [OF l dup, of i] by blast
  define db3 where "db3 = db2\<lparr>d_nodes := (d_nodes db2)(a := (d_nodes db2 a)\<lparr>n_deleted := True\<rparr>),
      d_free_list := d_free_list db2 @ [(a, i)], d_free_max := m, d_item_count := u32 (d_item_count db2 - 1), d_freed := fr\<rparr>"
  have nv: "node_val db2 = node_val db" "node_val db3 = node_val db" using f2(1,3,4) by (auto simp: node_val_def db3_def fun_eq_iff)
  have "db_core T (d_free_list db3) db3" "contents T db3 (M(node_val db a := None))"
    using mark_deleted [OF core2 assms(3,4), of db3] assms(5) f2 nv(1) by (simp_all add: db3_def)
  moreover have "same_config db db3" "d_free_lock db3 = d_free_lock db" "length (d_free_list db3) = length (d_free_list db) + 1"
    "int (length (d_free_list db3)) \<le> d_free_max db3" "d_free_max db3 \<le> UINT_MAX"
    using f2 FA(2,3) by (simp_all add: db3_def same_config_def)
  ultimately show ?thesis using FA(1) nv(2) unfolding db2_def [symmetric] db3_def [symmetric] by blast
qed

lemma db_obj_remove_repr:
  assumes "db_repr db A M" "key_ok (d_type db) (d_maxlen db) key" "d_free_lock db + 1 < UINT_MAX" "\<not> d_global_lock db"
    and "int (length (d_free_list db)) < UINT_MAX"
  defines "v \<equiv> kval (d_type db) (d_maxlen db) key"
  shows "\<exists>db' B. db_obj_remove key db = Inr (if M v = None then 0 else 1, M v, db') \<and> db_repr db' B (M(v := None)) \<and> B \<subseteq> A
    \<and> db_frame db A db' B"
proof -
  obtain T where T: "db_inv T db" "contents T db M" "A = nodes_of T" using assms(1) by (auto simp: db_repr_def)
  let ?db = "db\<lparr>d_free_lock := d_free_lock db + 1\<rparr>" and ?i = "hash_of db key"
  have lk: "d_free_lock db < UINT_MAX" using assms(3) by simp
  note L = db_free_lock_ok [OF T(1) lk]
  have e: "cmp ?db = cmp db" "hash_of ?db = hash_of db" "node_val ?db = node_val db" "opt ?db = opt db"
    by (simp_all add: cmp_def hash_of_def node_val_def fun_eq_iff opt_def)
  have c: "contents T ?db M" using contents_cong [OF T(2)] by simp
  have core: "db_core T (d_free_list db) ?db" using L(2) by simp
  have al: "key_allowed db key" by (rule key_ok_allowed [OF assms(2)])
  have h: "?i < HASH_SIZE" by (simp add: hash_of_def)
  have k: "key_ok (d_type ?db) (d_maxlen ?db) key" using assms(2) by simp
  note plain = lock_unlock [OF T(1,2) lk]
  show ?thesis
  proof (cases rule: lookup_cases [OF core c k, case_names live deleted missing])
    case (live a q)
    let ?n = "d_nodes db a" let ?db2 = "release (n_key ?n) (n_data ?n) DB_RELEASE_DATA (if d_cache ?db = a then ?db\<lparr>d_cache := 0\<rparr> else ?db)"
    have a: "a \<in> set (addrs (T ?i))" "\<not> n_deleted (d_nodes ?db a)" "node_val ?db a = v"
      using live(3-5) e(2) by (simp_all add: v_def)
    have l: "d_free_lock ?db < UINT_MAX" "int (length (d_free_list ?db)) < UINT_MAX" using assms(3,5) by simp_all
    obtain db3 where R: "db_free_add a ?i ?db2 = Inr db3" "db_core T (d_free_list db3) db3" "contents T db3 (M(v := None))" "same_config ?db db3"
      "d_free_lock db3 = d_free_lock ?db" "length (d_free_list db3) = length (d_free_list ?db) + 1"
      "int (length (d_free_list db3)) \<le> d_free_max db3" "d_free_max db3 \<le> UINT_MAX" "node_val db3 = node_val ?db"
      using remove_node_ok [OF L(2) c h a(1,2) l L(6,7)] unfolding a(3) by auto
    have b: "0 < d_free_lock db3" "d_free_lock db3 \<le> UINT_MAX" unfolding R(5) by (rule L(4,5))+
    obtain db' B where U: "db_free_unlock db3 = Inr db'" "db_repr db' B (M(v := None))" "B \<subseteq> nodes_of T" "same_entries db3 db'"
      "d_free_lock db' = d_free_lock db3 - 1" "d_free_lock db' \<noteq> 0 \<longrightarrow> B = nodes_of T" "length (d_free_list db') \<le> length (d_free_list db3)"
      using unlock_repr [OF R(2) b R(7,8,3)] by blast
    have fr: "db_frame db A db' B"
      by (rule frame_unlock [OF U(4-7)]) (use R(4-6,9) T(3) e(3) in \<open>simp_all add: same_config_def\<close>)
    have "db_obj_remove key db = Inr (1, Some (n_data ?n), db')"
      using assms(4) al L(1) live(1,2,5) e U(1) R(1) by (simp add: db_obj_remove_def Let_def)
    then show ?thesis using U(2,3) T(3) live(6) fr by (auto simp: v_def)
  next
    case (deleted a q)
    obtain db' B where U: "db_free_unlock ?db = Inr db'" "db_repr db' B M" "B \<subseteq> nodes_of T" "db_frame db A db' B"
      using plain unfolding T(3) by blast
    have "M v = None" using deleted(6) by (simp add: v_def)
    then have "M(v := None) = M" by auto
    moreover have "db_obj_remove key db = Inr (0, None, db')"
      using assms(4) al L(1) deleted(1,5) e U(1) by (simp add: db_obj_remove_def Let_def)
    ultimately show ?thesis using U(2-4) T(3) \<open>M v = None\<close> by auto
  next
    case (missing k pre post cc)
    obtain db' B where U: "db_free_unlock ?db = Inr db'" "db_repr db' B M" "B \<subseteq> nodes_of T" "db_frame db A db' B"
      using plain unfolding T(3) by blast
    have "M v = None" using missing(7) by (simp add: v_def)
    then have "M(v := None) = M" by auto
    moreover have "db_obj_remove key db = Inr (0, None, db')"
      using assms(4) al L(1) missing(1) e U(1) by (simp add: db_obj_remove_def Let_def)
    ultimately show ?thesis using U(2-4) T(3) \<open>M v = None\<close> by auto
  qed
qed

end
