(* ===== verification/Dbput.thy ===== *)
theory Dbput
  imports Dbproofs
begin

text \<open>
  Putting entries into the databases of common/db.cpp: a new node goes to its place in the tree
  and the tree is balanced again, a deleted node comes back, an entry is replaced.
\<close>

section \<open>A new node\<close>

text \<open>The new node below its parent.\<close>

definition attach :: "nat \<Rightarrow> nat \<Rightarrow> int \<Rightarrow> ('k, 'd) store \<Rightarrow> ('k, 'd) store" where
  "attach a parent c h = (let h = set_color a RED h in
     set_parent a parent (if c < 0 then set_left parent a h else set_right parent a h))"

lemma attach_owns:
  assumes "owns (h, root) (plug k Lf)" "place k 0 c" "k \<noteq> []" "a \<notin> set (addrs (plug k Lf))" "a \<noteq> 0"
    and "\<forall>x. x \<noteq> a \<longrightarrow> h1 x = h x" "n_left (h1 a) = 0" "n_right (h1 a) = 0"
  shows "owns (attach a (kpar k) c h1, root) (plug k (Nd RED Lf a Lf))"
proof -
  let ?h = "attach a (kpar k) c h1"
  have O: "path_at h 0 k" "distinct (kaddrs k)" "root = taddr (plug k Lf)" using assms(1) by (simp_all add: owns_plug)
  have a: "a \<notin> set (kaddrs k)" using assms(4) by (simp add: set_addrs_plug)
  then have ak: "a \<noteq> kpar k" using kpar_in [OF assms(3)] by auto
  have "\<forall>z \<in> set (kaddrs k). ?h z = link_child 0 a k h z"
    using a assms(2,3,6) by (auto simp: attach_def Let_def link_child_def place_def set_defs split: list.splits frame.splits)
  then have "path_at ?h a k" by (rule path_at_new_child [OF O(1,2)])
  moreover have "n_parent (?h a) = kpar k \<and> n_left (?h a) = 0 \<and> n_right (?h a) = 0 \<and> n_color (?h a) = RED"
    using ak assms(7,8) by (auto simp: attach_def Let_def)
  ultimately show ?thesis using O(2,3) a assms(3,5) by (simp add: owns_plug taddr_plug)
qed

lemma attach_fields:
  assumes "a \<noteq> parent"
  shows "n_key (attach a parent c h x) = n_key (h x)" "n_data (attach a parent c h x) = n_data (h x)"
    "n_deleted (attach a parent c h x) = n_deleted (h x)" "x \<noteq> a \<Longrightarrow> x \<noteq> parent \<Longrightarrow> attach a parent c h x = h x"
    "n_color (attach a parent c h parent) = n_color (h parent)"
  using assms by (auto simp: attach_def Let_def set_defs)

lemma new_node_ok:
  assumes "owns (d_nodes db, d_ht db ! i) (plug k Lf)" "balanced (plug k Lf)" "place k 0 c" "a \<notin> set (addrs (plug k Lf))" "a \<noteq> 0"
    and "i < length (d_ht db)"
  shows "\<exists>h r t. new_node a i (kpar k) c db = Inr (db\<lparr>d_nodes := h, d_ht := (d_ht db)[i := r], d_item_count := u32 (d_item_count db + 1)\<rparr>)
    \<and> owns (h, r) t \<and> balanced t \<and> addrs t = addrs (plug k (Nd RED Lf a Lf)) \<and> \<not> n_deleted (h a)
    \<and> (\<forall>x. x \<noteq> a \<longrightarrow> n_key (h x) = n_key (d_nodes db x) \<and> n_data (h x) = n_data (d_nodes db x) \<and> n_deleted (h x) = n_deleted (d_nodes db x))
    \<and> (\<forall>x. x \<notin> set (addrs t) \<longrightarrow> h x = d_nodes db x)"
proof -
  let ?h0 = "d_nodes db"
  define h1 where "h1 = (set_right a 0 (set_left a 0 ?h0))(a := (set_right a 0 (set_left a 0 ?h0) a)\<lparr>n_deleted := False\<rparr>)"
  have h1: "\<forall>x. x \<noteq> a \<longrightarrow> h1 x = ?h0 x" "n_left (h1 a) = 0" "n_right (h1 a) = 0" "\<not> n_deleted (h1 a)"
    by (simp_all add: h1_def set_defs)
  let ?db1 = "db\<lparr>d_nodes := h1, d_item_count := u32 (d_item_count db + 1)\<rparr>"
  show ?thesis
  proof (cases "k = []")
    case True
    then have c: "c = 0" using assms(3) by (simp add: place_def)
    let ?h = "set_parent a 0 (set_color a BLACK h1)"
    have "new_node a i (kpar k) c db = Inr (db\<lparr>d_nodes := ?h, d_ht := (d_ht db)[i := a], d_item_count := u32 (d_item_count db + 1)\<rparr>)"
      using c by (simp add: new_node_def Let_def set_deleted_def h1_def)
    moreover have "owns (?h, a) (Nd BLACK Lf a Lf)" using h1 assms(5) by (simp add: owns_def)
    moreover have "balanced (Nd BLACK Lf a Lf)" by (simp add: balanced_def)
    ultimately show ?thesis
      using True h1 by (intro exI [of _ ?h] exI [of _ a] exI [of _ "Nd BLACK Lf a Lf"]) (auto simp: set_defs)
  next
    case False
    then have c: "c \<noteq> 0" using assms(3) by (auto simp: place_def split: list.splits frame.splits)
    have ak: "a \<noteq> kpar k" using assms(4) kpar_in [OF False] by (auto simp: set_addrs_plug)
    let ?h2 = "attach a (kpar k) c h1" and ?t = "plug k (Nd RED Lf a Lf)"
    have O: "owns (?h2, d_ht db ! i) ?t" by (rule attach_owns [OF assms(1,3) False assms(4,5) h1(1-3)])
    have fields: "\<not> n_deleted (?h2 a)" "x \<noteq> a \<Longrightarrow> n_key (?h2 x) = n_key (?h0 x) \<and> n_data (?h2 x) = n_data (?h0 x) \<and> n_deleted (?h2 x) = n_deleted (?h0 x)" for x
      using h1 by (auto simp: attach_fields [OF ak])
    have out: "?h2 x = ?h0 x" if "x \<notin> set (addrs ?t)" for x
    proof -
      have "x \<noteq> a" "x \<noteq> kpar k" using that kpar_in [OF False] by (auto simp: set_addrs_plug)
      then show ?thesis using h1(1) attach_fields(4) [OF ak, of x c h1] by simp
    qed
    have n: "new_node a i (kpar k) c db = (if n_color (?h2 (kpar k)) = RED
        then dbind (looping (db_rebalance a (?h2, d_ht db ! i))) (\<lambda>(h, r). Inr (?db1\<lparr>d_nodes := h, d_ht := (d_ht db)[i := r]\<rparr>))
        else Inr (?db1\<lparr>d_nodes := ?h2\<rparr>))"
      using c by (simp add: new_node_def Let_def set_deleted_def h1_def attach_def)
    show ?thesis
    proof (cases "n_color (?h2 (kpar k)) = RED")
      case True
      obtain h r t where R: "db_rebalance a (?h2, d_ht db ! i) = Some (h, r)" "turns (?h2, d_ht db ! i) ?t (h, r) t" "balanced t"
        using db_rebalance_ok [OF O assms(2)] by auto
      have t: "owns (h, r) t" "addrs t = addrs ?t" "relinks (set (addrs ?t)) ?h2 h" using R(2) by (auto simp: turns_def)
      then show ?thesis using n True R(1,3) fields out
        by (intro exI [of _ h] exI [of _ r] exI [of _ t]) (simp add: relinks_def)
    next
      case False
      obtain f m where k: "k = f # m" using \<open>k \<noteq> []\<close> by (cases k) auto
      have "fcol f = BLACK" using owns_frame(1) [of ?h2 "d_ht db ! i" f m "Nd RED Lf a Lf"] O k False by (simp add: node_color_cases)
      then have "balanced ?t" using assms(2) k by (auto simp: balanced_def invh_plug invc_plug col_plug split: if_splits)
      then show ?thesis using n False O fields out
        by (intro exI [of _ ?h2] exI [of _ "d_ht db ! i"] exI [of _ ?t]) simp
    qed
  qed
qed


text \<open>The new node with its key and data is an entry.\<close>

lemma contents_insert:
  assumes "contents T db M" "live T' db' = insert a (live T db)" "a \<notin> live T db" "\<forall>b \<in> live T db. node_val db b \<noteq> v"
    and "\<forall>b \<in> live T db. node_val db' b = node_val db b \<and> n_data (d_nodes db' b) = n_data (d_nodes db b)"
    and "node_val db' a = v" "n_data (d_nodes db' a) = d"
  shows "contents T' db' (M(v \<mapsto> d))"
  unfolding contents_def
proof (intro allI)
  fix k e
  have "M k = Some e \<longleftrightarrow> (\<exists>b \<in> live T db. node_val db b = k \<and> n_data (d_nodes db b) = e)" using assms(1) by (simp add: contents_def)
  then show "(M(v \<mapsto> d)) k = Some e \<longleftrightarrow> (\<exists>b \<in> live T' db'. node_val db' b = k \<and> n_data (d_nodes db' b) = e)"
    unfolding assms(2) using assms(3-7) by (auto simp: fun_upd_def)
qed

lemma insert_bucket:
  assumes "bucket_ok db i u" "addrs u = pre @ post" "owns (h, r) t" "balanced t" "addrs t = pre @ a # post" "a \<notin> set (pre @ post)"
    and "key_ok (d_type db) (d_maxlen db) key" "i = hash_of db key" "\<forall>x \<in> set pre. node_val db x < v" "\<forall>x \<in> set post. v < node_val db x"
    and "v = kval (d_type db) (d_maxlen db) key" "\<And>x. x \<noteq> a \<Longrightarrow> n_key (h x) = n_key (d_nodes db x)"
    and "d_nodes db' = h(a := (h a)\<lparr>n_key := key, n_data := d\<rparr>)" "d_ht db' ! i = r" "d_type db' = d_type db" "d_maxlen db' = d_maxlen db"
  shows "bucket_ok db' i t"
proof -
  have nv: "node_val db' x = node_val db x" if "x \<noteq> a" for x using assms(12,13,15,16) that by (simp add: node_val_def)
  have nva: "node_val db' a = v" using assms(11,13,15,16) by (simp add: node_val_def)
  have sl: "same_links h (d_nodes db')" using assms(13) by (simp add: same_links_def)
  have o: "owns (d_nodes db', d_ht db' ! i) t" using assms(3,14) same_links_tree [OF sl] by (simp add: owns_def)
  have m: "map (node_val db') xs = map (node_val db) xs" if "a \<notin> set xs" for xs by (intro map_cong refl nv) (use that in auto)
  have "sorted_wrt (<) (map (node_val db) pre @ map (node_val db) post)" using assms(1,2) by (simp add: bucket_ok_def)
  then have "sorted_wrt (<) (map (node_val db') (addrs t))"
    using assms(6,9,10) nva unfolding assms(5) by (simp add: m sorted_wrt_append)
  moreover have "key_ok (d_type db') (d_maxlen db') (n_key (d_nodes db' x)) \<and> hash_of db' (n_key (d_nodes db' x)) = i"
    if "x \<in> set (addrs t)" for x
  proof (cases "x = a")
    case True
    then show ?thesis using assms(7,8,13,15,16) by (simp add: hash_of_def)
  next
    case False
    then have "x \<in> set (addrs u)" using that assms(2,5) by auto
    then show ?thesis using assms(1) False assms(12,13,15,16) by (auto simp: bucket_ok_def hash_of_def)
  qed
  ultimately show ?thesis using o assms(4) by (simp add: bucket_ok_def)
qed

lemma insert_core:
  assumes "db_core T F db" "contents T db M" "key_ok (d_type db) (d_maxlen db) key" "i = hash_of db key" "T i = plug k Lf"
    and "place k 0 c" "\<And>u. addrs (plug k u) = pre @ addrs u @ post" "\<forall>x \<in> set pre. node_val db x < v" "\<forall>x \<in> set post. v < node_val db x"
    and "\<forall>b \<in> nodes_of T. node_val db b \<noteq> v" "v = kval (d_type db) (d_maxlen db) key"
    and "a \<notin> nodes_of T" "a \<noteq> 0" "d_item_count db < UINT_MAX"
  shows "\<exists>h r t. new_node a i (kpar k) c db = Inr (db\<lparr>d_nodes := h, d_ht := (d_ht db)[i := r], d_item_count := u32 (d_item_count db + 1)\<rparr>)
    \<and> nodes_of (T(i := t)) = insert a (nodes_of T) \<and> (\<forall>x. x \<noteq> a \<longrightarrow> n_key (h x) = n_key (d_nodes db x))
    \<and> (\<forall>db'. d_nodes db' = h(a := (h a)\<lparr>n_key := key, n_data := d\<rparr>) \<longrightarrow> d_ht db' = (d_ht db)[i := r] \<longrightarrow>
         d_item_count db' = u32 (d_item_count db + 1) \<longrightarrow> d_type db' = d_type db \<longrightarrow> d_maxlen db' = d_maxlen db \<longrightarrow> d_cache db' = a \<longrightarrow>
         db_core (T(i := t)) F db' \<and> contents (T(i := t)) db' (M(v \<mapsto> d)))"
proof -
  have i: "i < HASH_SIZE" using assms(4) by (simp add: hash_of_def)
  have len: "length (d_ht db) = HASH_SIZE" and B: "\<And>j. j < HASH_SIZE \<Longrightarrow> bucket_ok db j (T j)" using assms(1) by (simp_all add: db_core_def)
  have aT: "a \<notin> set (addrs (T j))" if "j < HASH_SIZE" for j using assms(12) that by (auto simp: nodes_of_def)
  obtain h r t where N: "new_node a i (kpar k) c db = Inr (db\<lparr>d_nodes := h, d_ht := (d_ht db)[i := r], d_item_count := u32 (d_item_count db + 1)\<rparr>)"
    "owns (h, r) t" "balanced t" "addrs t = addrs (plug k (Nd RED Lf a Lf))" "\<not> n_deleted (h a)"
    "\<And>x. x \<noteq> a \<Longrightarrow> n_key (h x) = n_key (d_nodes db x) \<and> n_data (h x) = n_data (d_nodes db x) \<and> n_deleted (h x) = n_deleted (d_nodes db x)"
    "\<And>x. x \<notin> set (addrs t) \<Longrightarrow> h x = d_nodes db x"
    using new_node_ok [of db i k c a] B [OF i] aT [OF i] assms(5,6,13) i len by (auto simp: bucket_ok_def)
  have t: "addrs t = pre @ a # post" "addrs (T i) = pre @ post" using N(4) assms(5,7) by simp_all
  have nodes: "nodes_of (T(i := t)) = insert a (nodes_of T)"
  proof -
    have "set (addrs ((T(i := t)) j)) = set (addrs (T j)) \<union> (if j = i then {a} else {})" for j using t by auto
    then show ?thesis using i by (auto simp: nodes_of_def split: if_splits)
  qed
  have "db_core (T(i := t)) F db' \<and> contents (T(i := t)) db' (M(v \<mapsto> d))"
    if S: "d_nodes db' = h(a := (h a)\<lparr>n_key := key, n_data := d\<rparr>)" "d_ht db' = (d_ht db)[i := r]"
      "d_item_count db' = u32 (d_item_count db + 1)" "d_type db' = d_type db" "d_maxlen db' = d_maxlen db" "d_cache db' = a" for db'
  proof -
    have nv: "node_val db' x = node_val db x" if "x \<noteq> a" for x using S N(6) that by (simp add: node_val_def)
    have nva: "node_val db' a = v" using S assms(11) by (simp add: node_val_def)
    have ne: "a \<notin> set pre" "a \<notin> set post" using aT [OF i] t(2) by auto
    have bi: "bucket_ok db' i t"
      using insert_bucket [OF B [OF i] t(2) N(2,3) t(1) _ assms(3,4,8,9,11) _ S(1) _ S(4,5)] ne N(6) S(2) i len by simp
    have "bucket_ok db' j (T j)" if j: "j < HASH_SIZE" "j \<noteq> i" for j
    proof (rule bucket_frame [OF B [OF j(1)]])
      show "\<forall>x \<in> set (addrs (T j)). d_nodes db' x = d_nodes db x"
      proof
        fix x assume x: "x \<in> set (addrs (T j))"
        then have "x \<notin> set (addrs (T i))" using node_in_one [OF B [OF j(1)] B [OF i]] j(2) by blast
        moreover have "x \<noteq> a" using aT [OF j(1)] x by auto
        ultimately show "d_nodes db' x = d_nodes db x" using N(7) [of x] t S(1) by auto
      qed
    qed (use S j in auto)
    with bi have bk: "\<forall>j < HASH_SIZE. bucket_ok db' j ((T(i := t)) j)" by simp
    have dl: "n_deleted (d_nodes db' x) = (x \<noteq> a \<and> n_deleted (d_nodes db x))" for x using S(1) N(5,6) by auto
    have al: "a \<notin> live T db" using assms(12) by (simp add: live_nodes)
    have lv: "live (T(i := t)) db' = insert a (live T db)"
      using nodes dl assms(12) by (auto simp: live_nodes)
    have ic: "d_item_count db' = int (card (live (T(i := t)) db'))" "d_item_count db' \<le> UINT_MAX"
    proof -
      have "d_item_count db = int (card (live T db))" using assms(1) by (simp add: db_core_def)
      then show "d_item_count db' = int (card (live (T(i := t)) db'))" "d_item_count db' \<le> UINT_MAX"
        using S(3) lv al live_finite assms(14) by (simp_all add: UINT_MAX_def)
    qed
    have mem: "x \<in> set (addrs ((T(i := t)) j)) \<longleftrightarrow> x \<in> set (addrs (T j)) \<or> j = i \<and> x = a" for x j using t by auto
    have F: "distinct (map fst F)" "\<forall>(b, j) \<in> set F. j < HASH_SIZE \<and> b \<in> set (addrs (T j)) \<and> n_deleted (d_nodes db b)"
      "\<forall>j < HASH_SIZE. \<forall>b \<in> set (addrs (T j)). n_deleted (d_nodes db b) \<longrightarrow> (b, j) \<in> set F"
      using assms(1) unfolding db_core_def by blast+
    have "\<forall>(b, j) \<in> set F. j < HASH_SIZE \<and> b \<in> set (addrs ((T(i := t)) j)) \<and> n_deleted (d_nodes db' b)"
    proof (intro ballI, clarify)
      fix b j assume "(b, j) \<in> set F"
      then have "j < HASH_SIZE \<and> b \<in> set (addrs (T j)) \<and> n_deleted (d_nodes db b)" using F(2) by blast
      then have "j < HASH_SIZE" "b \<in> set (addrs (T j))" "n_deleted (d_nodes db b)" "b \<noteq> a" using aT [of j] by auto
      then show "j < HASH_SIZE \<and> b \<in> set (addrs ((T(i := t)) j)) \<and> n_deleted (d_nodes db' b)"
        by (simp only: mem dl simp_thms)
    qed
    moreover have "\<forall>j < HASH_SIZE. \<forall>b \<in> set (addrs ((T(i := t)) j)). n_deleted (d_nodes db' b) \<longrightarrow> (b, j) \<in> set F"
    proof (intro allI impI ballI)
      fix j b assume j: "j < HASH_SIZE" "b \<in> set (addrs ((T(i := t)) j))" "n_deleted (d_nodes db' b)"
      then have "b \<noteq> a" "n_deleted (d_nodes db b)" using dl by simp_all
      then show "(b, j) \<in> set F" using j(1,2) mem F(3) by simp
    qed
    moreover have "length (d_ht db') = HASH_SIZE" "d_cache db' \<noteq> 0 \<longrightarrow> d_cache db' \<in> live (T(i := t)) db'"
      using S(2,6) len lv by simp_all
    ultimately have "db_core (T(i := t)) F db'" unfolding db_core_def using bk F(1) ic by blast
    moreover have "contents (T(i := t)) db' (M(v \<mapsto> d))"
    proof (rule contents_insert [OF assms(2) lv al])
      show "\<forall>b \<in> live T db. node_val db b \<noteq> v" using assms(10) by (simp add: live_nodes)
      show "\<forall>b \<in> live T db. node_val db' b = node_val db b \<and> n_data (d_nodes db' b) = n_data (d_nodes db b)"
        using al nv S(1) N(6) by auto
    qed (use nva S(1) in simp_all)
    ultimately show ?thesis by simp
  qed
  then show ?thesis using N(1,6) nodes by blast
qed


section \<open>An existing node\<close>

text \<open>An entry gets a new key with the same value and new data.\<close>

lemma relabel_core:
  assumes "db_core T F db" "contents T db M" "a \<in> live T db" "key_ok (d_type db) (d_maxlen db) key"
    and "node_val db a = kval (d_type db) (d_maxlen db) key"
    and "d_nodes db' = (d_nodes db)(a := (d_nodes db a)\<lparr>n_key := key, n_data := d\<rparr>)" "d_ht db' = d_ht db" "d_type db' = d_type db"
      "d_maxlen db' = d_maxlen db" "d_item_count db' = d_item_count db" "d_cache db' = a"
  shows "db_core T F db'" "contents T db' (M(kval (d_type db) (d_maxlen db) key \<mapsto> d))"
proof -
  let ?v = "kval (d_type db) (d_maxlen db) key"
  have nv: "node_val db' = node_val db" using assms(5-9) by (auto simp: node_val_def fun_eq_iff)
  have sl: "same_links (d_nodes db) (d_nodes db')" using assms(6) by (simp add: same_links_def)
  have bk: "bucket_ok db' j (T j)" if "j < HASH_SIZE" for j
  proof (rule bucket_relabel [OF _ sl assms(7-9)])
    show "bucket_ok db j (T j)" using assms(1) that by (simp add: db_core_def)
    then show "\<forall>b \<in> set (addrs (T j)). node_val db' b = node_val db b \<and> key_ok (d_type db) (d_maxlen db) (n_key (d_nodes db' b))"
      using assms(4,6) nv by (auto simp: bucket_ok_def)
  qed
  have dl: "n_deleted (d_nodes db' x) = n_deleted (d_nodes db x)" for x using assms(6) by simp
  have lv: "live T db' = live T db" by (simp add: live_def dl)
  have "d_item_count db = int (card (live T db))" "d_item_count db \<le> UINT_MAX" "distinct (map fst F)"
    "\<forall>(b, j) \<in> set F. j < HASH_SIZE \<and> b \<in> set (addrs (T j)) \<and> n_deleted (d_nodes db b)"
    "\<forall>j < HASH_SIZE. \<forall>b \<in> set (addrs (T j)). n_deleted (d_nodes db b) \<longrightarrow> (b, j) \<in> set F" "length (d_ht db) = HASH_SIZE"
    using assms(1) unfolding db_core_def by blast+
  then show "db_core T F db'" unfolding db_core_def dl lv assms(7,10,11) using bk assms(3) by blast
  show "contents T db' (M(?v \<mapsto> d))"
    unfolding contents_def lv nv
  proof (intro allI)
    fix k e
    have a: "node_val db a = ?v" by (rule assms(5))
    show "(M(?v \<mapsto> d)) k = Some e \<longleftrightarrow> (\<exists>b \<in> live T db. node_val db b = k \<and> n_data (d_nodes db' b) = e)"
    proof (cases "k = ?v")
      case True
      have u: "b = a" if "b \<in> live T db" "node_val db b = k" for b
        using live_inj [OF assms(1), of b a] that assms(3) a True by (simp add: live_nodes)
      have "n_data (d_nodes db' a) = d" using assms(6) by simp
      moreover have "(\<exists>b \<in> live T db. node_val db b = k \<and> n_data (d_nodes db' b) = e) \<longleftrightarrow> n_data (d_nodes db' a) = e"
        using u assms(3) a True by metis
      ultimately show ?thesis using True by (metis fun_upd_same option.inject)
    next
      case False
      then have "n_data (d_nodes db' b) = n_data (d_nodes db b)" if "node_val db b = k" for b using that a assms(6) by (cases "b = a") simp_all
      then have "(\<exists>b \<in> live T db. node_val db b = k \<and> n_data (d_nodes db' b) = e)
          \<longleftrightarrow> (\<exists>b \<in> live T db. node_val db b = k \<and> n_data (d_nodes db b) = e)" by auto
      then show ?thesis using False assms(2) by (simp add: contents_def)
    qed
  qed
qed

text \<open>A deleted node is taken off the list: the last entry of the list takes the free place.\<close>

lemma remove_swap:
  assumes "distinct (map fst F)" "(a, i) \<in> set F"
  defines "j \<equiv> arr_find (\<lambda>f. fst f = a) F" and "n \<equiv> length F"
  defines "F' \<equiv> butlast (if j < n - 1 then F[j := F ! (n - 1)] else F)"
  shows "j < n" "mset F' + {#(a, i)#} = mset F"
proof -
  show j: "j < n" unfolding j_def n_def arr_find_lt using assms(2) by force
  have "fst (F ! j) = a" using arr_find_sat [of "\<lambda>f. fst f = a" F] j by (simp add: j_def n_def)
  then have Fj: "F ! j = (a, i)"
    using assms(1,2) j eq_key_imp_eq_value [of F a] nth_mem [of j F] by (cases "F ! j") (auto simp: n_def)
  have F: "F = butlast F @ [F ! (n - 1)]" using j by (cases F rule: rev_cases) (simp_all add: n_def)
  show "mset F' + {#(a, i)#} = mset F"
  proof (cases "j < n - 1")
    case True
    have b: "butlast (F[j := x]) = (butlast F)[j := x]" for x using True by (simp add: butlast_list_update n_def)
    have "butlast F ! j = (a, i)" using Fj True by (simp add: nth_butlast n_def)
    then have "mset ((butlast F)[j := F ! (n - 1)]) = add_mset (F ! (n - 1)) (mset (butlast F) - {#(a, i)#})" "(a, i) \<in># mset (butlast F)"
      using True mset_update [of j "butlast F"] nth_mem [of j "butlast F"] by (simp_all add: n_def)
    moreover have "mset F = add_mset (F ! (n - 1)) (mset (butlast F))" using arg_cong [OF F, of mset] by simp
    ultimately show ?thesis using True by (simp add: F'_def b)
  next
    case False
    then have "j = n - 1" using j by simp
    then have "mset F = add_mset (a, i) (mset (butlast F))" using arg_cong [OF F, of mset] Fj by simp
    then show ?thesis using False by (simp add: F'_def)
  qed
qed

lemma undelete_core:
  assumes "db_core T F db" "contents T db M" "(a, i) \<in> set F" "mset F' + {#(a, i)#} = mset F" "d_item_count db < UINT_MAX"
    and "d_nodes db' = (d_nodes db)(a := (d_nodes db a)\<lparr>n_deleted := False\<rparr>)" "d_ht db' = d_ht db" "d_type db' = d_type db"
      "d_maxlen db' = d_maxlen db" "d_item_count db' = u32 (d_item_count db + 1)" "d_cache db' = d_cache db"
  shows "db_core T F' db'" "contents T db' (M(node_val db a \<mapsto> n_data (d_nodes db a)))" "a \<in> live T db'"
proof -
  have nv: "node_val db' = node_val db" using assms(6,8,9) by (auto simp: node_val_def fun_eq_iff)
  have sl: "same_links (d_nodes db) (d_nodes db')" using assms(6) by (simp add: same_links_def)
  have C: "d_item_count db = int (card (live T db))" "distinct (map fst F)"
    "\<And>b j. (b, j) \<in> set F \<Longrightarrow> j < HASH_SIZE \<and> b \<in> set (addrs (T j)) \<and> n_deleted (d_nodes db b)"
    "\<forall>j < HASH_SIZE. \<forall>b \<in> set (addrs (T j)). n_deleted (d_nodes db b) \<longrightarrow> (b, j) \<in> set F" "length (d_ht db) = HASH_SIZE"
    "\<And>j. j < HASH_SIZE \<Longrightarrow> bucket_ok db j (T j)" "d_cache db \<noteq> 0 \<longrightarrow> d_cache db \<in> live T db"
    using assms(1) unfolding db_core_def by blast+
  have bk: "bucket_ok db' j (T j)" if "j < HASH_SIZE" for j
    by (rule bucket_relabel [OF C(6) [OF that] sl assms(7-9)]) (use C(6) [OF that] nv assms(6) in \<open>auto simp: bucket_ok_def\<close>)
  have dl: "n_deleted (d_nodes db' x) = (x \<noteq> a \<and> n_deleted (d_nodes db x))" for x using assms(6) by simp
  have an: "a \<in> nodes_of T" "n_deleted (d_nodes db a)" using C(3) [OF assms(3)] by (auto simp: nodes_of_def)
  then have lv: "live T db' = insert a (live T db)" "a \<notin> live T db" by (auto simp: live_nodes dl)
  then show "a \<in> live T db'" by simp
  have F': "set F = insert (a, i) (set F')" "distinct (a # map fst F')"
  proof -
    show "set F = insert (a, i) (set F')" using arg_cong [OF assms(4), of set_mset] by simp
    have "mset (a # map fst F') = mset (map fst F)" using arg_cong [OF assms(4), of "image_mset fst"] by simp
    then show "distinct (a # map fst F')" using C(2) mset_eq_imp_distinct_iff by blast
  qed
  have "d_item_count db' = int (card (live T db'))" "d_item_count db' \<le> UINT_MAX"
    using assms(5,10) C(1) lv live_finite by (simp_all add: UINT_MAX_def)
  moreover have "\<forall>(b, j) \<in> set F'. j < HASH_SIZE \<and> b \<in> set (addrs (T j)) \<and> n_deleted (d_nodes db' b)"
  proof (intro ballI, clarify)
    fix b j assume b: "(b, j) \<in> set F'"
    then have "b \<noteq> a" using F'(2) by force
    then show "j < HASH_SIZE \<and> b \<in> set (addrs (T j)) \<and> n_deleted (d_nodes db' b)" using C(3) [of b j] F'(1) b dl by simp
  qed
  moreover have "\<forall>j < HASH_SIZE. \<forall>b \<in> set (addrs (T j)). n_deleted (d_nodes db' b) \<longrightarrow> (b, j) \<in> set F'"
  proof (intro allI impI ballI)
    fix j b assume "j < HASH_SIZE" "b \<in> set (addrs (T j))" "n_deleted (d_nodes db' b)"
    then have "(b, j) \<in> set F" "b \<noteq> a" using C(4) dl by simp_all
    then show "(b, j) \<in> set F'" using F'(1) by simp
  qed
  moreover have "d_cache db' \<noteq> 0 \<longrightarrow> d_cache db' \<in> live T db'" using C(7) lv(1) assms(11) by simp
  ultimately show "db_core T F' db'" unfolding db_core_def using bk F'(2) C(5) assms(7) by simp
  show "contents T db' (M(node_val db a \<mapsto> n_data (d_nodes db a)))"
  proof (rule contents_insert [OF assms(2) lv])
    show "\<forall>b \<in> live T db. node_val db b \<noteq> node_val db a"
    proof (intro ballI notI)
      fix b assume b: "b \<in> live T db" "node_val db b = node_val db a"
      then have "b = a" using live_inj [OF assms(1) _ an(1)] by (simp add: live_nodes)
      then show False using b(1) lv(2) by simp
    qed
  qed (use nv assms(6) in simp_all)
qed


section \<open>The operations\<close>

text \<open>Writing the key and the data into a node.\<close>

definition write_entry :: "nat \<Rightarrow> DBKey \<Rightarrow> DBData \<Rightarrow> DBData \<Rightarrow> dbmap \<Rightarrow> dbmap" where
  "write_entry a key x data db = (set_data a data (put_key a key x db))\<lparr>d_cache := a\<rparr>"

lemma write_entry_simps:
  assumes "key_ok (d_type db) (d_maxlen db) key"
  shows "d_nodes (write_entry a key x data db) = (d_nodes db)(a := (d_nodes db a)\<lparr>n_key := key, n_data := data\<rparr>)"
    "d_ht (write_entry a key x data db) = d_ht db" "d_cache (write_entry a key x data db) = a"
    "d_type (write_entry a key x data db) = d_type db" "d_maxlen (write_entry a key x data db) = d_maxlen db"
    "d_item_count (write_entry a key x data db) = d_item_count db"
    "d_free_list (write_entry a key x data db) = d_free_list db" "d_free_lock (write_entry a key x data db) = d_free_lock db"
    "d_free_max (write_entry a key x data db) = d_free_max db" "same_config db (write_entry a key x data db)"
  using dup_key_id [OF assms] by (simp_all add: write_entry_def set_data_def put_key_def set_key_def Let_def same_config_def)

lemma set_deleted_simps [simp]:
  "d_nodes (set_deleted a v db) = (d_nodes db)(a := (d_nodes db a)\<lparr>n_deleted := v\<rparr>)"
  "d_ht (set_deleted a v db) = d_ht db" "d_cache (set_deleted a v db) = d_cache db" "d_type (set_deleted a v db) = d_type db"
  "d_options (set_deleted a v db) = d_options db" "d_maxlen (set_deleted a v db) = d_maxlen db"
  "d_item_count (set_deleted a v db) = d_item_count db" "d_free_list (set_deleted a v db) = d_free_list db"
  "d_free_lock (set_deleted a v db) = d_free_lock db" "d_free_max (set_deleted a v db) = d_free_max db"
  "d_global_lock (set_deleted a v db) = d_global_lock db"
  by (simp_all add: set_deleted_def)

lemma free_remove_simps:
  assumes "distinct (map fst (d_free_list db))" "(a, i) \<in> set (d_free_list db)"
  shows "d_nodes (db_free_remove a db) = (d_nodes db)(a := (d_nodes db a)\<lparr>n_deleted := False\<rparr>)"
    "d_ht (db_free_remove a db) = d_ht db" "d_cache (db_free_remove a db) = d_cache db" "d_type (db_free_remove a db) = d_type db"
    "d_maxlen (db_free_remove a db) = d_maxlen db" "d_item_count (db_free_remove a db) = u32 (d_item_count db + 1)"
    "d_free_lock (db_free_remove a db) = d_free_lock db" "d_free_max (db_free_remove a db) = d_free_max db"
    "mset (d_free_list (db_free_remove a db)) + {#(a, i)#} = mset (d_free_list db)" "same_config db (db_free_remove a db)"
  using remove_swap [OF assms] by (simp_all add: db_free_remove_def Let_def same_config_def db_dup_key_free_def split: DBType.split)

lemma db_obj_put_repr:
  assumes "db_repr db A M" "key_ok (d_type db) (d_maxlen db) key" "d_free_lock db < UINT_MAX" "\<not> d_global_lock db"
    and "opt db DB_OPT_ALLOW_NULL_DATA \<or> data \<noteq> DB_DATA_PTR 0" "d_item_count db < UINT_MAX" "a \<notin> A" "a \<noteq> 0"
  defines "v \<equiv> kval (d_type db) (d_maxlen db) key"
  shows "\<exists>db' B. db_obj_put a key data db = Inr (if M v = None then 0 else 1, M v, db') \<and> db_repr db' B (M(v \<mapsto> data)) \<and> B \<subseteq> insert a A
    \<and> db_frame db A db' B"
proof -
  obtain T where T: "db_inv T db" "contents T db M" "A = nodes_of T" using assms(1) by (auto simp: db_repr_def)
  let ?db = "db\<lparr>d_free_lock := d_free_lock db + 1\<rparr>" and ?i = "hash_of db key"
  note L = db_free_lock_ok [OF T(1) assms(3)]
  have e: "cmp ?db = cmp db" "hash_of ?db = hash_of db" "node_val ?db = node_val db"
    by (simp_all add: cmp_def hash_of_def node_val_def fun_eq_iff)
  have c: "contents T ?db M" using contents_cong [OF T(2)] by simp
  have core: "db_core T (d_free_list db) ?db" using L(2) by simp
  have al: "key_allowed db key" by (rule key_ok_allowed [OF assms(2)])
  have k: "key_ok (d_type ?db) (d_maxlen ?db) key" using assms(2) by simp
  have h: "?i < HASH_SIZE" by (simp add: hash_of_def)
  have g: "(\<not> opt db DB_OPT_ALLOW_NULL_DATA \<and> data = DB_DATA_PTR 0) = False" "(d_item_count db = UINT_MAX) = False"
    using assms(5,6) by auto
  have start: "db_obj_put a key data db = dbind (looping (db_search (cmp db key) (d_nodes db) (d_ht db ! ?i) 0 0)) (\<lambda>(node, parent, c).
      let (retval, out, db) = (if node = 0 then (0, None, ?db)
            else if n_deleted (d_nodes db node) then (0, None, db_free_remove node ?db)
            else let n = d_nodes db node in (1, Some (n_data n), release (n_key n) (n_data n) DB_RELEASE_BOTH ?db))
      in dbind (if node = 0 then dbind (new_node a ?i parent c db) (\<lambda>db. Inr (a, db)) else Inr (node, db)) (\<lambda>(node, db).
           dbind (db_free_unlock (write_entry node key data data db)) (\<lambda>db. Inr (retval, out, db))))"
    unfolding db_obj_put_def g L(1) write_entry_def by (simp add: Let_def e assms(4) al cong: if_cong)
  have fin: "\<exists>db' B. db_free_unlock db2 = Inr db' \<and> db_repr db' B (M(v \<mapsto> data)) \<and> B \<subseteq> nodes_of T' \<and> db_frame db A db' B"
    if "db_core T' (d_free_list db2) db2" "contents T' db2 (M(v \<mapsto> data))" "d_free_lock db2 = d_free_lock ?db"
      "length (d_free_list db2) \<le> length (d_free_list db)" "d_free_max db2 = d_free_max db"
      "same_config db db2" "A \<subseteq> nodes_of T'" "\<forall>x \<in> A. node_val db2 x = node_val db x" for T' db2
  proof -
    note P = that
    have l: "int (length (d_free_list db2)) \<le> d_free_max db2" "0 < d_free_lock db2" "d_free_lock db2 \<le> UINT_MAX" "d_free_max db2 \<le> UINT_MAX"
      using that(3-5) L(4-7) by simp_all
    obtain db' B where U: "db_free_unlock db2 = Inr db'" "db_repr db' B (M(v \<mapsto> data))" "B \<subseteq> nodes_of T'" "same_entries db2 db'"
      "d_free_lock db' = d_free_lock db2 - 1" "d_free_lock db' \<noteq> 0 \<longrightarrow> B = nodes_of T'" "length (d_free_list db') \<le> length (d_free_list db2)"
      using unlock_repr [OF P(1) l(2,3,1,4) P(2)] by blast
    have "db_frame db A db' B" by (rule frame_unlock [OF U(4-7) P(6)]) (use P(3,4,7,8) in simp_all)
    then show ?thesis using U by blast
  qed
  show ?thesis
  proof (cases rule: lookup_cases [OF core c k, case_names live deleted missing])
    case (live b q)
    let ?db1 = "release (n_key (d_nodes db b)) (n_data (d_nodes db b)) DB_RELEASE_BOTH ?db"
    let ?db2 = "write_entry b key data data ?db1"
    have k1: "key_ok (d_type ?db1) (d_maxlen ?db1) key" using k by simp
    note W = write_entry_simps [OF k1, of b data data]
    have bl: "b \<in> live T ?db" using live(3,5) h e(2) by (auto simp: live_nodes nodes_of_def)
    have "db_core T (d_free_list db) ?db2 \<and> contents T ?db2 (M(v \<mapsto> data))"
      using relabel_core [OF core c bl k live(4), of ?db2 data] W by (simp add: v_def)
    moreover have "same_config db ?db2" using W(10) by (simp add: same_config_def)
    moreover have "\<forall>x \<in> A. node_val ?db2 x = node_val db x" using W(1,4,5) live(4) e(3) by (simp add: node_val_def v_def)
    ultimately obtain db' B where U: "db_free_unlock ?db2 = Inr db'" "db_repr db' B (M(v \<mapsto> data))" "B \<subseteq> nodes_of T" "db_frame db A db' B"
      using fin [of T ?db2] W T(3) by auto
    have "db_obj_put a key data db = Inr (1, Some (n_data (d_nodes db b)), db')"
      unfolding start using live(1,2,5) e U(1) by (simp add: Let_def)
    then show ?thesis using U(2-4) T(3) live(6) by (auto simp: v_def)
  next
    case (deleted b q)
    have F: "distinct (map fst (d_free_list ?db))" "(b, ?i) \<in> set (d_free_list ?db)"
      using core deleted(3,5) h e(2) by (auto simp: db_core_def)
    note R = free_remove_simps [OF F]
    let ?db1 = "db_free_remove b ?db" let ?db2 = "write_entry b key data data ?db1"
    have core1: "db_core T (d_free_list ?db1) ?db1" "contents T ?db1 (M(node_val ?db b \<mapsto> n_data (d_nodes ?db b)))" "b \<in> live T ?db1"
      using undelete_core [OF L(2) c F(2) R(9) _ R(1,2,4,5,6,3)] assms(6) by simp_all
    have k1: "key_ok (d_type ?db1) (d_maxlen ?db1) key" using k R by simp
    note W = write_entry_simps [OF k1, of b data data]
    have nv: "node_val ?db1 b = kval (d_type ?db1) (d_maxlen ?db1) key" "node_val ?db b = v"
      using deleted(4) R by (simp_all add: node_val_def v_def)
    have "db_core T (d_free_list ?db1) ?db2 \<and> contents T ?db2 (M(v \<mapsto> data))"
      using relabel_core [OF core1 k1 nv(1), of ?db2 data] W R nv(2) by (simp add: v_def)
    moreover have "length (d_free_list ?db1) \<le> length (d_free_list db)" using arg_cong [OF R(9), of size] by simp
    moreover have "same_config db ?db2" using W(10) R(10) by (simp add: same_config_def)
    moreover have "\<forall>x \<in> A. node_val ?db2 x = node_val db x" using W(1,4,5) R(1,4,5) deleted(4) e(3) by (simp add: node_val_def v_def)
    ultimately obtain db' B where U: "db_free_unlock ?db2 = Inr db'" "db_repr db' B (M(v \<mapsto> data))" "B \<subseteq> nodes_of T" "db_frame db A db' B"
      using fin [of T ?db2] W R T(3) by auto
    have "db_obj_put a key data db = Inr (0, None, db')"
      unfolding start using deleted(1,2,5) e U(1) by (simp add: Let_def)
    then show ?thesis using U(2-4) T(3) deleted(6) by (auto simp: v_def)
  next
    case (missing kk pre post cc)
    have an: "a \<notin> nodes_of T" using assms(7) T(3) by simp
    obtain g r t where N: "new_node a ?i (kpar kk) cc ?db = Inr (?db\<lparr>d_nodes := g, d_ht := (d_ht ?db)[?i := r], d_item_count := u32 (d_item_count ?db + 1)\<rparr>)"
      "nodes_of (T(?i := t)) = insert a (nodes_of T)" "\<And>x. x \<noteq> a \<Longrightarrow> n_key (g x) = n_key (d_nodes db x)"
      "\<And>db'. d_nodes db' = g(a := (g a)\<lparr>n_key := key, n_data := data\<rparr>) \<Longrightarrow> d_ht db' = (d_ht ?db)[?i := r] \<Longrightarrow>
         d_item_count db' = u32 (d_item_count ?db + 1) \<Longrightarrow> d_type db' = d_type ?db \<Longrightarrow> d_maxlen db' = d_maxlen ?db \<Longrightarrow> d_cache db' = a \<Longrightarrow>
         db_core (T(?i := t)) (d_free_list db) db' \<and> contents (T(?i := t)) db' (M(v \<mapsto> data))"
      using insert_core [OF core c k, of ?i kk cc pre post v a data] missing an assms(6,8) e by (auto simp: v_def)
    let ?db1 = "?db\<lparr>d_nodes := g, d_ht := (d_ht ?db)[?i := r], d_item_count := u32 (d_item_count ?db + 1)\<rparr>"
    let ?db2 = "write_entry a key data data ?db1"
    have k1: "key_ok (d_type ?db1) (d_maxlen ?db1) key" using k by simp
    note W = write_entry_simps [OF k1, of a data data]
    have "db_core (T(?i := t)) (d_free_list db) ?db2 \<and> contents (T(?i := t)) ?db2 (M(v \<mapsto> data))"
      by (rule N(4)) (simp_all add: write_entry_simps assms(2))
    moreover have "same_config db ?db2" using W(10) by (simp add: same_config_def)
    moreover have "\<forall>x \<in> A. node_val ?db2 x = node_val db x" using W(1,4,5) N(3) assms(7) by (auto simp: node_val_def)
    ultimately obtain db' B where U: "db_free_unlock ?db2 = Inr db'" "db_repr db' B (M(v \<mapsto> data))" "B \<subseteq> nodes_of (T(?i := t))"
        "db_frame db A db' B"
      using fin [of "T(?i := t)" ?db2] W N(2) T(3) by auto
    have "db_obj_put a key data db = Inr (0, None, db')"
      unfolding start using missing(1) e U(1) N(1) by (simp add: Let_def)
    then show ?thesis using U(2-4) N(2) T(3) missing(7) by (auto simp: v_def)
  qed
qed

end
