(* ===== verification/Dbiter.thy ===== *)
theory Dbiter
  imports Dbput
begin

text \<open>
  The iterators of common/db.cpp: the successor of a node in the order of its tree, and the loop
  with \<open>dbi_first\<close> and \<open>dbi_next\<close>, which meets every entry once.
\<close>

section \<open>The next node\<close>

fun kpost :: "frame list \<Rightarrow> nat list" where
  "kpost [] = []"
| "kpost (FL c a s # k) = a # addrs s @ kpost k"
| "kpost (FR c a s # k) = kpost k"

fun kpre :: "frame list \<Rightarrow> nat list" where
  "kpre [] = []"
| "kpre (FL c a s # k) = kpre k"
| "kpre (FR c a s # k) = kpre k @ addrs s @ [a]"

lemma addrs_plug: "addrs (plug k t) = kpre k @ addrs t @ kpost k"
  by (induction k t rule: plug.induct) simp_all

text \<open>The first address of a list, 0 when there is none.\<close>

definition first0 :: "nat list \<Rightarrow> nat" where
  "first0 xs = (case xs of [] \<Rightarrow> 0 | x # _ \<Rightarrow> x)"

lemma first0_simps [simp]: "first0 [] = 0" "first0 (x # xs) = x" "xs \<noteq> [] \<Longrightarrow> first0 (xs @ ys) = first0 xs"
  by (auto simp: first0_def split: list.splits)

lemma leftmost_first:
  assumes "tree_at h p t" "t \<noteq> Lf"
  shows "leftmost h (taddr t) = Some (first0 (addrs t))"
proof -
  obtain ks c y x where s: "t = plug ks (Nd c Lf y x)" "\<forall>f \<in> set ks. \<exists>c a s. f = FL c a s" "leftmost h (taddr t) = Some y"
    using spine [OF assms] by blast
  obtain B where "\<And>u. addrs (plug ks u) = addrs u @ B" using addrs_plug_left [OF s(2)] by blast
  then show ?thesis using s(1,3) by simp
qed

lemma climb_post:
  assumes "owns (h, root) (plug k t)" "t \<noteq> Lf"
  shows "climb_next h (taddr t) (kpar k) = Some (first0 (kpost k))"
  using assms
proof (induction k arbitrary: t)
  case Nil
  then show ?case by (subst climb_next.simps) simp
next
  case (Cons f k)
  note F = owns_frame [OF Cons.prems(1)]
  show ?case
  proof (cases f)
    case (FL c a s)
    have "taddr s \<noteq> taddr t" using owns_sibling(3) [OF Cons.prems(1)] Cons.prems(2) FL by auto
    then show ?thesis using F(3) F(4) [OF FL] FL by (subst climb_next.simps) simp
  next
    case (FR c a s)
    have "climb_next h a (kpar k) = Some (first0 (kpost k))"
      using Cons.IH [of "Nd c s a t"] Cons.prems(1) FR by simp
    then show ?thesis using F(2,3) F(5) [OF FR] FR by (subst climb_next.simps) simp
  qed
qed

lemma next_node_in:
  assumes "owns (h, root) t" "addrs t = pre @ n # post"
  shows "next_node h n = Some (first0 post)"
proof -
  obtain k c l r where t: "t = plug k (Nd c l n r)" using zipper [of n t] assms(2) by auto
  have O: "owns (h, root) (plug k (Nd c l n r))" using assms(1) t by simp
  have "distinct (addrs t)" using assms(1) by (simp add: owns_def)
  then have np: "n \<notin> set pre" "n \<notin> set post" unfolding assms(2) by auto
  have eq: "pre @ n # post = (kpre k @ addrs l) @ n # (addrs r @ kpost k)"
    unfolding assms(2) [symmetric] t addrs_plug by simp
  have p: "post = addrs r @ kpost k" using eq unfolding append_Cons_eq_iff [OF np] by (rule conjunct2)
  show ?thesis
  proof (cases "r = Lf")
    case True
    then show ?thesis using climb_post [OF O] owns_node [OF O] p by (simp add: next_node_def)
  next
    case False
    have "tree_at h n r" using O by (simp add: owns_plug)
    then have "leftmost h (taddr r) = Some (first0 (addrs r))" "taddr r \<noteq> 0" using leftmost_first taddr_eq_0 False by blast+
    moreover have "addrs r \<noteq> []" using False by (simp add: addrs_eq_Nil)
    ultimately show ?thesis using owns_node(3) [OF O] p by (simp add: next_node_def)
  qed
qed

lemma skip_deleted_in:
  assumes "owns (h, root) t" "addrs t = pre @ post"
  shows "skip_deleted h (first0 post) = Some (first0 (filter (\<lambda>a. \<not> n_deleted (h a)) post))"
  using assms(2)
proof (induction post arbitrary: pre)
  case Nil
  then show ?case by (subst skip_deleted.simps) simp
next
  case (Cons n post)
  have n: "n \<noteq> 0" using assms(1) Cons.prems tree_at_nonzero [of h 0 t] by (cases "n = 0") (auto simp: owns_def)
  have I: "skip_deleted h (first0 post) = Some (first0 (filter (\<lambda>a. \<not> n_deleted (h a)) post))"
    using Cons.IH [of "pre @ [n]"] Cons.prems by simp
  show ?case
    using I n next_node_in [OF assms(1) Cons.prems] by (subst skip_deleted.simps) simp
qed

section \<open>The loop over an iterator\<close>

text \<open>The entries in the slots from \<open>i\<close> on.\<close>

definition entries :: "(nat \<Rightarrow> ct) \<Rightarrow> dbmap \<Rightarrow> nat \<Rightarrow> nat list" where
  "entries T db i = filter (\<lambda>a. \<not> n_deleted (d_nodes db a)) (addrs (T i))"

definition entries_from :: "(nat \<Rightarrow> ct) \<Rightarrow> dbmap \<Rightarrow> nat \<Rightarrow> nat list" where
  "entries_from T db i = concat (map (entries T db) [i..<HASH_SIZE])"

lemma entries_from_step: "i < HASH_SIZE \<Longrightarrow> entries_from T db i = entries T db i @ entries_from T db (Suc i)"
  by (simp add: entries_from_def upt_conv_Cons)

lemma entries_distinct:
  assumes "\<forall>j < HASH_SIZE. bucket_ok db j (T j)"
  shows "distinct (entries_from T db i)"
proof (induction "HASH_SIZE - i" arbitrary: i)
  case 0
  then show ?case by (simp add: entries_from_def)
next
  case (Suc m)
  then have i: "i < HASH_SIZE" by simp
  have "distinct (entries T db i)" using assms i by (auto simp: entries_def bucket_ok_def owns_def)
  moreover have "set (entries T db i) \<inter> set (entries_from T db (Suc i)) = {}"
    using node_in_one [of db i "T i"] assms i by (fastforce simp: entries_from_def entries_def)
  ultimately show ?case using Suc.hyps(1) [of "Suc i"] Suc.hyps(2) i by (simp add: entries_from_step)
qed

text \<open>Trees in all slots; nothing more is needed to go through them.\<close>

definition trees_ok :: "(nat \<Rightarrow> ct) \<Rightarrow> dbmap \<Rightarrow> bool" where
  "trees_ok T db \<longleftrightarrow> (\<forall>j < HASH_SIZE. owns (d_nodes db, d_ht db ! j) (T j))"

lemma buckets_trees: "\<forall>j < HASH_SIZE. bucket_ok db j (T j) \<Longrightarrow> trees_ok T db"
  by (simp add: trees_ok_def bucket_ok_def)

lemma trees_nonzero: "trees_ok T db \<Longrightarrow> i < HASH_SIZE \<Longrightarrow> a \<in> set (addrs (T i)) \<Longrightarrow> a \<noteq> 0"
  using tree_at_nonzero [of "d_nodes db" 0 "T i"] by (cases "a = 0") (auto simp: trees_ok_def owns_def)

text \<open>The slot in which the first entry of the rest lies.\<close>

lemma next_slot_start:
  assumes "trees_ok T db" "i \<le> HASH_SIZE"
  shows "\<exists>j. next_slot db i 0 = Inr (j, first0 (entries_from T db i)) \<and>
    (entries_from T db i = [] \<or> j < HASH_SIZE \<and> (\<exists>ys. entries T db j = first0 (entries_from T db i) # ys
       \<and> entries_from T db i = first0 (entries_from T db i) # ys @ entries_from T db (Suc j)))"
  using assms(2)
proof (induction "HASH_SIZE - i" arbitrary: i)
  case 0
  then show ?case by (subst next_slot.simps) (simp add: entries_from_def)
next
  case (Suc m)
  then have i: "i < HASH_SIZE" by simp
  have O: "owns (d_nodes db, d_ht db ! i) (T i)" using assms(1) i by (simp add: trees_ok_def)
  have r: "d_ht db ! i = taddr (T i)" "tree_at (d_nodes db) 0 (T i)" using O by (simp_all add: owns_def)
  have IH: "\<exists>j. next_slot db (Suc i) 0 = Inr (j, first0 (entries_from T db (Suc i))) \<and>
    (entries_from T db (Suc i) = [] \<or> j < HASH_SIZE \<and> (\<exists>ys. entries T db j = first0 (entries_from T db (Suc i)) # ys
       \<and> entries_from T db (Suc i) = first0 (entries_from T db (Suc i)) # ys @ entries_from T db (Suc j)))"
    using Suc.hyps(1) [of "Suc i"] Suc.hyps(2) i by simp
  show ?case
  proof (cases "entries T db i = []")
    case True
    then have e: "entries_from T db i = entries_from T db (Suc i)" using entries_from_step [OF i] by simp
    have "next_slot db i 0 = next_slot db (Suc i) 0"
    proof (cases "T i = Lf")
      case True
      then show ?thesis using r i by (subst next_slot.simps) simp
    next
      case False
      have s: "skip_deleted (d_nodes db) (first0 (addrs (T i))) = Some 0"
        using skip_deleted_in [OF O, of "[]" "addrs (T i)"] True by (simp add: entries_def)
      show ?thesis using leftmost_first [OF r(2) False] taddr_eq_0 [OF r(2)] False r(1) i s by (subst next_slot.simps) simp
    qed
    then show ?thesis using IH e by simp
  next
    case False
    then obtain x ys where e: "entries T db i = x # ys" by (cases "entries T db i") auto
    then have t: "T i \<noteq> Lf" by (auto simp: entries_def)
    have "x \<in> set (addrs (T i))" using e by (metis entries_def filter_is_subset list.set_intros(1) subsetD)
    then have x: "x \<noteq> 0" using tree_at_nonzero [OF r(2)] by (cases "x = 0") auto
    have s: "skip_deleted (d_nodes db) (first0 (addrs (T i))) = Some x"
      using skip_deleted_in [OF O, of "[]" "addrs (T i)"] e by (simp add: entries_def)
    have "next_slot db i 0 = Inr (i, x)"
      using leftmost_first [OF r(2) t] taddr_eq_0 [OF r(2)] t r(1) i s x by (subst next_slot.simps) simp
    moreover have "entries_from T db i = x # ys @ entries_from T db (Suc i)" using entries_from_step [OF i] e by simp
    ultimately show ?thesis using i e by (intro exI [of _ i]) simp
  qed
qed


text \<open>The position of an iterator: the entries that are still to come.\<close>

definition it_at :: "(nat \<Rightarrow> ct) \<Rightarrow> dbmap \<Rightarrow> dbit \<Rightarrow> nat list \<Rightarrow> bool" where
  "it_at T db it rest \<longleftrightarrow> (\<exists>i < HASH_SIZE. \<exists>xs ys. it_index it = int i \<and> entries T db i = xs @ it_node it # ys
     \<and> rest = ys @ entries_from T db (Suc i))"

text \<open>Where a call of \<open>next_slot\<close> leaves the iterator.\<close>

definition it_result :: "(nat \<Rightarrow> ct) \<Rightarrow> dbmap \<Rightarrow> nat list \<Rightarrow> nat \<times> nat \<Rightarrow> bool" where
  "it_result T db rest r \<longleftrightarrow> (case rest of [] \<Rightarrow> snd r = 0
     | a # rest \<Rightarrow> snd r = a \<and> it_at T db \<lparr>it_index = int (fst r), it_node = a\<rparr> rest)"

lemma next_slot_first:
  assumes "trees_ok T db" "i \<le> HASH_SIZE"
  shows "\<exists>r. next_slot db i 0 = Inr r \<and> it_result T db (entries_from T db i) r"
proof -
  obtain j where J: "next_slot db i 0 = Inr (j, first0 (entries_from T db i))"
    "entries_from T db i = [] \<or> j < HASH_SIZE \<and> (\<exists>ys. entries T db j = first0 (entries_from T db i) # ys
       \<and> entries_from T db i = first0 (entries_from T db i) # ys @ entries_from T db (Suc j))"
    using next_slot_start [OF assms] by blast
  show ?thesis
  proof (cases "entries_from T db i")
    case Nil
    then show ?thesis using J(1) by (simp add: it_result_def)
  next
    case (Cons a rest)
    then obtain ys where "j < HASH_SIZE" "entries T db j = a # ys" "rest = ys @ entries_from T db (Suc j)" using J(2) by auto
    then show ?thesis using J(1) Cons by (auto simp: it_result_def it_at_def)
  qed
qed

lemma next_slot_next:
  assumes "trees_ok T db" "i < HASH_SIZE" "entries T db i = xs @ n # ys"
  shows "\<exists>r. next_slot db i n = Inr r \<and> it_result T db (ys @ entries_from T db (Suc i)) r"
proof -
  have O: "owns (d_nodes db, d_ht db ! i) (T i)" using assms(1,2) by (simp add: trees_ok_def)
  have "n \<in> set (entries T db i)" using assms(3) by simp
  then have n: "n \<in> set (addrs (T i))" "n \<noteq> 0" using O tree_at_nonzero [of "d_nodes db" 0 "T i"]
    by (cases "n = 0"; auto simp: entries_def owns_def)+
  then obtain pre post where p: "addrs (T i) = pre @ n # post" by (meson split_list)
  let ?f = "filter (\<lambda>a. \<not> n_deleted (d_nodes db a))"
  have live: "\<not> n_deleted (d_nodes db n)" using \<open>n \<in> set (entries T db i)\<close> by (simp add: entries_def)
  have "distinct (addrs (T i))" using O by (simp add: owns_def)
  then have np: "n \<notin> set (?f pre)" "n \<notin> set (?f post)" unfolding p by auto
  have eq: "?f pre @ n # ?f post = xs @ n # ys" using assms(3) p live by (simp add: entries_def)
  have ys: "ys = ?f post" using eq unfolding append_Cons_eq_iff [OF np] by simp
  have N: "next_node (d_nodes db) n = Some (first0 post)" by (rule next_node_in [OF O p])
  have S: "skip_deleted (d_nodes db) (first0 post) = Some (first0 ys)"
    using skip_deleted_in [OF O, of "pre @ [n]" post] p ys by simp
  show ?thesis
  proof (cases ys)
    case Nil
    have "next_slot db i n = next_slot db (Suc i) 0" using N S n(2) assms(2) Nil by (subst next_slot.simps) simp
    then show ?thesis using next_slot_first [OF assms(1), of "Suc i"] assms(2) Nil by simp
  next
    case (Cons a zs)
    then have "a \<in> set (addrs (T i))" using p ys by (metis Un_iff filter_is_subset list.set_intros set_append subsetD)
    then have "a \<noteq> 0" using O tree_at_nonzero [of "d_nodes db" 0 "T i"] by (cases "a = 0") (auto simp: owns_def)
    then have "next_slot db i n = Inr (i, a)" using N S n(2) assms(2) Cons by (subst next_slot.simps) simp
    moreover have "entries T db i = (xs @ [n]) @ a # zs" using assms(3) Cons by simp
    ultimately show ?thesis using assms(2) Cons by (auto simp: it_result_def it_at_def)
  qed
qed

lemma it_exists: "it_at T db it rest \<Longrightarrow> trees_ok T db \<Longrightarrow> dbit_obj_exists db it"
proof -
  assume a: "it_at T db it rest" "trees_ok T db"
  then obtain i where i: "i < HASH_SIZE" "it_node it \<in> set (entries T db i)" by (auto simp: it_at_def)
  then show ?thesis using trees_nonzero [OF a(2), of i "it_node it"] by (simp add: dbit_obj_exists_def entries_def)
qed

lemma dbi_loop_all:
  assumes "trees_ok T db"
  shows "it_at T db it rest \<Longrightarrow> length rest + 2 \<le> n \<Longrightarrow> dbi_loop n db it = Inr (it_node it # rest)"
proof (induction n arbitrary: it rest)
  case (Suc n)
  obtain i xs ys where i: "i < HASH_SIZE" "it_index it = int i" "entries T db i = xs @ it_node it # ys" "rest = ys @ entries_from T db (Suc i)"
    using Suc.prems(1) by (auto simp: it_at_def)
  obtain r where R: "next_slot db i (it_node it) = Inr r" "it_result T db rest r"
    using next_slot_next [OF assms i(1,3)] i(4) by blast
  let ?it = "\<lparr>it_index = int (fst r), it_node = snd r\<rparr>"
  have nx: "dbit_obj_next db it = Inr (snd r, ?it)" using R(1) i(2) by (simp add: dbit_obj_next_def split_beta)
  have ex: "dbit_obj_exists db it" by (rule it_exists [OF Suc.prems(1) assms])
  show ?case
  proof (cases rest)
    case Nil
    then have "snd r = 0" using R(2) by (simp add: it_result_def)
    then have "dbi_loop n db ?it = Inr []" using Suc.prems(2) by (cases n) (simp_all add: dbit_obj_exists_def)
    then show ?thesis using nx ex Nil by simp
  next
    case (Cons a zs)
    then have "snd r = a" "it_at T db ?it zs" using R(2) by (simp_all add: it_result_def)
    then have "dbi_loop n db ?it = Inr (a # zs)" using Suc.IH [of ?it zs] Suc.prems(2) Cons by simp
    then show ?thesis using nx ex Cons by simp
  qed
qed simp

text \<open>The next entry from a node that may be deleted.\<close>

lemma next_slot_bound: "next_slot db i n = Inr r \<Longrightarrow> i \<le> HASH_SIZE \<Longrightarrow> fst r \<le> HASH_SIZE"
proof (induction db i n rule: next_slot.induct)
  case (1 db i n)
  show ?case
  proof (cases "i < HASH_SIZE")
    case False
    then show ?thesis using 1(3,4) by (subst (asm) next_slot.simps) auto
  next
    case True
    show ?thesis
    proof (cases "n = 0 \<and> d_ht db ! i = 0")
      case True
      have "next_slot db (i + 1) 0 = Inr r" using 1(3) True \<open>i < HASH_SIZE\<close> by (subst (asm) next_slot.simps) simp
      then show ?thesis using 1(1) True \<open>i < HASH_SIZE\<close> by simp
    next
      case False
      show ?thesis
      proof (cases "if n = 0 then leftmost (d_nodes db) (d_ht db ! i) else next_node (d_nodes db) n")
        case None
        then show ?thesis using 1(3) True False by (subst (asm) next_slot.simps) (auto split: if_splits)
      next
        case (Some k)
        show ?thesis
        proof (cases "skip_deleted (d_nodes db) k")
          case None
          then show ?thesis using 1(3) True False Some by (subst (asm) next_slot.simps) (auto split: if_splits)
        next
          case (Some l)
          show ?thesis
          proof (cases "l = 0")
            case True
            then have "next_slot db (i + 1) 0 = Inr r"
              using 1(3) \<open>i < HASH_SIZE\<close> False Some \<open>(if n = 0 then _ else _) = Some k\<close> by (subst (asm) next_slot.simps) (auto split: if_splits)
            then show ?thesis using 1(2) True False Some \<open>i < HASH_SIZE\<close> \<open>(if n = 0 then _ else _) = Some k\<close> by auto
          next
            case False
            then show ?thesis
              using 1(3) \<open>i < HASH_SIZE\<close> \<open>\<not> (n = 0 \<and> _)\<close> Some \<open>(if n = 0 then _ else _) = Some k\<close> by (subst (asm) next_slot.simps) (auto split: if_splits)
          qed
        qed
      qed
    qed
  qed
qed

lemma next_slot_any:
  assumes "trees_ok T db" "i < HASH_SIZE" "n \<in> set (addrs (T i))"
  shows "\<exists>r rest. next_slot db i n = Inr r \<and> it_result T db rest r"
proof -
  have O: "owns (d_nodes db, d_ht db ! i) (T i)" using assms(1,2) by (simp add: trees_ok_def)
  have n: "n \<noteq> 0" using trees_nonzero [OF assms] .
  obtain pre post where p: "addrs (T i) = pre @ n # post" using assms(3) by (meson split_list)
  let ?f = "filter (\<lambda>a. \<not> n_deleted (d_nodes db a))"
  have N: "next_node (d_nodes db) n = Some (first0 post)" by (rule next_node_in [OF O p])
  have S: "skip_deleted (d_nodes db) (first0 post) = Some (first0 (?f post))"
    using skip_deleted_in [OF O, of "pre @ [n]" post] p by simp
  show ?thesis
  proof (cases "?f post")
    case Nil
    have "next_slot db i n = next_slot db (Suc i) 0" using N S n assms(2) Nil by (subst next_slot.simps) simp
    then show ?thesis using next_slot_first [OF assms(1), of "Suc i"] assms(2) by auto
  next
    case (Cons a zs)
    then have "a \<in> set (?f post)" by simp
    then have "a \<noteq> 0" using trees_nonzero [OF assms(1,2), of a] p by simp
    then have "next_slot db i n = Inr (i, a)" using N S n assms(2) Cons by (subst next_slot.simps) simp
    moreover have "entries T db i = ?f (pre @ [n]) @ a # zs" using p Cons by (simp add: entries_def)
    ultimately show ?thesis using assms(2)
      by (intro exI [of _ "(i, a)"] exI [of _ "a # zs @ entries_from T db (Suc i)"]) (auto simp: it_result_def it_at_def)
  qed
qed

text \<open>An iterator meets every entry of the map once, whatever nodes wait to be freed.\<close>

lemma iterate_repr:
  assumes "db_repr db A M"
  shows "\<exists>ns n it. dbit_obj_first db it0 = Inr (n, it) \<and> (\<forall>f > card (dom M) + 1. dbi_loop f db it = Inr ns)
    \<and> distinct ns \<and> bij_betw (\<lambda>a. kval (d_type db) (d_maxlen db) (n_key (d_nodes db a))) (set ns) (dom M)
    \<and> (\<forall>a \<in> set ns. M (kval (d_type db) (d_maxlen db) (n_key (d_nodes db a))) = Some (n_data (d_nodes db a)))"
proof -
  obtain T where T: "db_inv T db" "contents T db M" using assms by (auto simp: db_repr_def)
  have core: "db_core T (d_free_list db) db" using T(1) by (simp add: db_inv_def)
  then have B: "\<forall>j < HASH_SIZE. bucket_ok db j (T j)" by (simp add: db_core_def)
  note Tr = buckets_trees [OF B]
  let ?ns = "entries_from T db 0"
  have set: "set ?ns = live T db" by (auto simp: entries_from_def entries_def live_def)
  have dist: "distinct ?ns" by (rule entries_distinct [OF B])
  have inj: "inj_on (node_val db) (live T db)" using live_inj [OF core] by (auto simp: inj_on_def live_nodes)
  have dom: "node_val db ` live T db = dom M" using T(2) by (auto simp: contents_def)
  have len: "length ?ns = card (dom M)" using distinct_card [OF dist] set card_image [OF inj] dom by simp
  obtain r where R: "next_slot db 0 0 = Inr r" "it_result T db ?ns r" using next_slot_first [OF Tr, of 0] by auto
  let ?it = "\<lparr>it_index = int (fst r), it_node = snd r\<rparr>"
  have f: "dbit_obj_first db it0 = Inr (snd r, ?it)" using R(1) by (simp add: dbit_obj_first_def dbit_obj_next_def split_beta)
  have "dbi_loop m db ?it = Inr ?ns" if "card (dom M) + 1 < m" for m
  proof (cases ?ns)
    case Nil
    then have "snd r = 0" using R(2) by (simp add: it_result_def)
    then show ?thesis using that Nil by (cases m) (simp_all add: dbit_obj_exists_def)
  next
    case (Cons a rest)
    then have "snd r = a" "it_at T db ?it rest" using R(2) by (simp_all add: it_result_def)
    then show ?thesis using dbi_loop_all [OF Tr, of ?it rest m] that len Cons by simp
  qed
  moreover have "bij_betw (node_val db) (set ?ns) (dom M)" using inj dom set by (simp add: bij_betw_def)
  moreover have "\<forall>a \<in> set ?ns. M (node_val db a) = Some (n_data (d_nodes db a))"
    using contents_entry [OF core T(2)] set by blast
  ultimately show ?thesis using f dist unfolding node_val_def by blast
qed

section \<open>The previous node\<close>

text \<open>Going back is going on in the mirror.\<close>

lemma mir_deleted [simp]: "n_deleted (mir h a) = n_deleted (h a)"
  by (simp add: mir_def)

lemma rightmost_mir:
  assumes "leftmost h' y = Some z"
  shows "\<forall>h. h' = mir h \<longrightarrow> rightmost h y = Some z"
proof (rule leftmost.raw_induct [OF _ assms, where P = "\<lambda>h' y z. \<forall>h. h' = mir h \<longrightarrow> rightmost h y = Some z"], intro allI impI)
  fix f y z and h' h :: "('a, 'b) store"
  assume "\<And>h' y z. f h' y = Some z \<Longrightarrow> \<forall>h. h' = mir h \<longrightarrow> rightmost h y = Some z" "h' = mir h"
    "(if n_left (h' y) \<noteq> 0 then f h' (n_left (h' y)) else Some y) = Some z"
  then show "rightmost h y = Some z" by (subst rightmost.simps) (auto split: if_splits)
qed

lemma climb_prev_mir:
  assumes "climb_next h' n p = Some z"
  shows "\<forall>h. h' = mir h \<longrightarrow> climb_prev h n p = Some z"
proof (rule climb_next.raw_induct [OF _ assms, where P = "\<lambda>h' n p z. \<forall>h. h' = mir h \<longrightarrow> climb_prev h n p = Some z"], intro allI impI)
  fix f n p z and h' h :: "('a, 'b) store"
  assume "\<And>h' n p z. f h' n p = Some z \<Longrightarrow> \<forall>h. h' = mir h \<longrightarrow> climb_prev h n p = Some z" "h' = mir h"
    "(if p = 0 then Some 0 else if n_right (h' p) \<noteq> n then Some p else f h' p (n_parent (h' p))) = Some z"
  then show "climb_prev h n p = Some z" by (subst climb_prev.simps) (auto split: if_splits)
qed

lemma prev_node_mir: "next_node (mir h) n = Some z \<Longrightarrow> prev_node h n = Some z"
  using rightmost_mir [of "mir h" "n_left (h n)" z] climb_prev_mir [of "mir h" n "n_parent (h n)" z]
  by (auto simp: next_node_def prev_node_def split: if_splits)

lemma skip_back_mir:
  assumes "skip_deleted h' n = Some z"
  shows "\<forall>h. h' = mir h \<longrightarrow> skip_back h n = Some z"
proof (rule skip_deleted.raw_induct [OF _ assms, where P = "\<lambda>h' n z. \<forall>h. h' = mir h \<longrightarrow> skip_back h n = Some z"], intro allI impI)
  fix f n z and h' h :: "('a, 'b) store"
  assume a: "\<And>h' n z. f h' n = Some z \<Longrightarrow> \<forall>h. h' = mir h \<longrightarrow> skip_back h n = Some z" "h' = mir h"
    "(if n = 0 \<or> \<not> n_deleted (h' n) then Some n else case next_node h' n of None \<Rightarrow> None | Some n \<Rightarrow> f h' n) = Some z"
  show "skip_back h n = Some z"
  proof (cases "n = 0 \<or> \<not> n_deleted (h n)")
    case True
    then show ?thesis using a(2,3) by (subst skip_back.simps) simp
  next
    case False
    then obtain m where m: "next_node (mir h) n = Some m" "f h' m = Some z" using a(2,3) by (auto split: option.splits)
    have "skip_back h m = Some z" using a(1) [OF m(2)] a(2) by simp
    then show ?thesis using prev_node_mir [OF m(1)] False by (subst skip_back.simps) simp
  qed
qed

text \<open>The slots in the opposite order, each with its tree in the mirror.\<close>

definition mdb :: "dbmap \<Rightarrow> dbmap" where
  "mdb db = db\<lparr>d_nodes := mir (d_nodes db), d_ht := rev (d_ht db)\<rparr>"

definition mtrees :: "(nat \<Rightarrow> ct) \<Rightarrow> nat \<Rightarrow> ct" where
  "mtrees T j = mirror (T (HASH_SIZE - 1 - j))"

lemma trees_ok_mdb:
  assumes "trees_ok T db" "length (d_ht db) = HASH_SIZE"
  shows "trees_ok (mtrees T) (mdb db)"
  unfolding trees_ok_def
proof (intro allI impI)
  fix j assume j: "j < HASH_SIZE"
  then have "owns (d_nodes db, d_ht db ! (HASH_SIZE - 1 - j)) (T (HASH_SIZE - 1 - j))" using assms(1) by (simp add: trees_ok_def)
  moreover have "rev (d_ht db) ! j = d_ht db ! (HASH_SIZE - 1 - j)" using j assms(2) by (simp add: rev_nth)
  ultimately show "owns (d_nodes (mdb db), d_ht (mdb db) ! j) (mtrees T j)"
    using owns_mir [of "(d_nodes db, d_ht db ! (HASH_SIZE - 1 - j))" "T (HASH_SIZE - 1 - j)"] by (simp add: mdb_def mtrees_def)
qed

lemma prev_slot_mir:
  assumes "next_slot (mdb db) j n = Inr r" "j \<le> HASH_SIZE" "length (d_ht db) = HASH_SIZE"
  shows "prev_slot db (int HASH_SIZE - 1 - int j) n = Inr (int HASH_SIZE - 1 - int (fst r), snd r)"
  using assms(1,2)
proof (induction "HASH_SIZE - j" arbitrary: j n)
  case 0
  then show ?case by (subst prev_slot.simps) (simp add: next_slot.simps, auto)
next
  case (Suc m)
  let ?i = "int HASH_SIZE - 1 - int j"
  have j: "j < HASH_SIZE" using Suc.hyps(2) by simp
  then have i: "?i \<ge> 0" "nat ?i = HASH_SIZE - 1 - j" "?i - 1 = int HASH_SIZE - 1 - int (Suc j)" by simp_all
  have ht: "d_ht (mdb db) ! j = d_ht db ! nat ?i" using j assms(3) i(2) by (simp add: mdb_def rev_nth)
  have step: "prev_slot db (?i - 1) 0 = Inr (int HASH_SIZE - 1 - int (fst r), snd r)" if "next_slot (mdb db) (Suc j) 0 = Inr r"
    using Suc.hyps(1) [of "Suc j" 0] Suc.hyps(2) j that unfolding i(3) by simp
  show ?case
  proof (cases "n = 0 \<and> d_ht db ! nat ?i = 0")
    case True
    then have "next_slot (mdb db) (Suc j) 0 = Inr r" using Suc.prems(1) j ht by (subst (asm) next_slot.simps) simp
    then show ?thesis using step True i(1) by (subst prev_slot.simps) simp
  next
    case False
    let ?n = "if n = 0 then leftmost (mir (d_nodes db)) (d_ht db ! nat ?i) else next_node (mir (d_nodes db)) n"
    have e: "next_slot (mdb db) j n = dbind (looping ?n) (\<lambda>n. dbind (looping (skip_deleted (mir (d_nodes db)) n)) (\<lambda>n.
        if n = 0 then next_slot (mdb db) (Suc j) 0 else Inr (j, n)))"
      using False j ht by (subst next_slot.simps) (auto simp: mdb_def cong: if_cong)
    obtain k where k: "?n = Some k" using Suc.prems(1) e by (cases ?n) (simp_all only: dbind_simps sum.simps)
    obtain l where l: "skip_deleted (mir (d_nodes db)) k = Some l"
      using Suc.prems(1) e k by (cases "skip_deleted (mir (d_nodes db)) k") (simp_all only: dbind_simps sum.simps)
    have "(if n = 0 then rightmost (d_nodes db) (d_ht db ! nat ?i) else prev_node (d_nodes db) n) = Some k"
      using k rightmost_mir prev_node_mir by (cases "n = 0") auto
    moreover have "skip_back (d_nodes db) k = Some l" using skip_back_mir [OF l] by simp
    ultimately have p: "prev_slot db ?i n = (if l = 0 then prev_slot db (?i - 1) 0 else Inr (?i, l))"
      using False i(1) by (subst prev_slot.simps) (auto cong: if_cong)
    have r: "(if l = 0 then next_slot (mdb db) (Suc j) 0 else Inr (j, l)) = Inr r" using Suc.prems(1) e k l by simp
    show ?thesis using p r step by (cases "l = 0") auto
  qed
qed

end
