(* ===== verification/Dbensure.thy ===== *)
theory Dbensure
  imports Dbput
begin

text \<open>
  A new database, its size, and \<open>db_obj_vensure\<close> of common/db.cpp, which gives out a node that
  waits to be freed as if it were an entry.
\<close>

section \<open>A new database\<close>

lemma db_alloc_repr: "db_repr (db_alloc h t options maxlen) {} Map.empty"
proof -
  let ?db = "db_alloc h t options maxlen"
  have n: "d_nodes ?db = h" "d_ht ?db = replicate HASH_SIZE 0" "d_free_list ?db = []" "d_free_lock ?db = 0"
    "d_cache ?db = 0" "d_item_count ?db = 0" "d_free_max ?db = 0"
    by (simp_all add: db_alloc_def Let_def)
  have "bucket_ok ?db i Lf" if "i < HASH_SIZE" for i
    using that by (simp add: bucket_ok_def owns_def balanced_def n)
  moreover have l: "live (\<lambda>_. Lf) ?db = {}" by (simp add: live_def)
  ultimately have "db_inv (\<lambda>_. Lf) ?db" by (simp add: db_inv_def db_core_def n UINT_MAX_def)
  moreover have "contents (\<lambda>_. Lf) ?db Map.empty" "nodes_of (\<lambda>_. Lf) = {}" by (simp_all add: contents_def l nodes_of_def)
  ultimately show ?thesis by (auto simp: db_repr_def)
qed

lemma repr_size:
  assumes "db_repr db A M"
  shows "d_item_count db = int (card (dom M))"
proof -
  obtain T where T: "db_inv T db" "contents T db M" using assms by (auto simp: db_repr_def)
  have core: "db_core T (d_free_list db) db" using T(1) by (simp add: db_inv_def)
  have "inj_on (node_val db) (live T db)" using live_inj [OF core] by (auto simp: inj_on_def live_nodes)
  moreover have "node_val db ` live T db = dom M" using T(2) by (auto simp: contents_def)
  ultimately have "card (dom M) = card (live T db)" using card_image by fastforce
  then show ?thesis using core by (simp add: db_core_def)
qed

lemma db_obj_size_repr:
  assumes "db_repr db A M" "d_free_lock db < UINT_MAX"
  shows "\<exists>db' B. db_obj_size db = Inr (int (card (dom M)), db') \<and> db_repr db' B M \<and> B \<subseteq> A \<and> db_frame db A db' B"
proof -
  obtain T where T: "db_inv T db" "contents T db M" "A = nodes_of T" using assms(1) by (auto simp: db_repr_def)
  from lock_unlock [OF T(1,2) assms(2)] obtain db' B where
    U: "db_free_unlock (db\<lparr>d_free_lock := d_free_lock db + 1\<rparr>) = Inr db'" "db_repr db' B M" "B \<subseteq> nodes_of T" "db_frame db (nodes_of T) db' B"
    by blast
  then show ?thesis using db_free_lock_ok(1) [OF T(1) assms(2)] repr_size [OF assms(1)] T(3) by (auto simp: db_obj_size_def)
qed

lemma db_obj_exists_get: "db_obj_exists key db = dbind (db_obj_get key db) (\<lambda>(a, db'). Inr (a \<noteq> 0, db'))"
proof (cases "key_allowed db key \<and> \<not> (d_cache db \<noteq> 0 \<and> cmp db key (n_key (d_nodes db (d_cache db))) = 0)")
  case False
  then show ?thesis by (auto simp: db_obj_exists_def db_obj_get_def)
next
  case True
  show ?thesis
  proof (cases "db_free_lock db")
    case (Inl e)
    then show ?thesis using True by (simp add: db_obj_exists_def db_obj_get_def)
  next
    case (Inr db1)
    show ?thesis
    proof (cases "db_search (cmp db1 key) (d_nodes db1) (d_ht db1 ! hash_of db1 key) 0 0")
      case None
      then show ?thesis using True Inr by (auto simp: db_obj_exists_def db_obj_get_def)
    next
      case (Some s)
      obtain node p c where s: "s = (node, p, c)" by (cases s)
      show ?thesis
        using True Inr Some s
        by (cases "db_free_unlock (if node \<noteq> 0 \<and> \<not> n_deleted (d_nodes db1 node) then db1\<lparr>d_cache := node\<rparr> else db1)")
          (auto simp: db_obj_exists_def db_obj_get_def split: if_splits)
    qed
  qed
qed

section \<open>\<open>db_obj_vensure\<close>\<close>

text \<open>The database as \<open>db_obj_vensure\<close> goes on after the search.\<close>

lemma vensure_start:
  assumes "db_inv T db" "d_free_lock db < UINT_MAX" "key_allowed db key"
    "d_cache db = 0 \<or> cmp db key (n_key (d_nodes db (d_cache db))) \<noteq> 0"
    "db_search (cmp db key) (d_nodes db) (d_ht db ! hash_of db key) 0 0 = Some (node, parent, c)" "node \<noteq> 0"
  shows "db_obj_vensure a key (Some create) db =
     dbind (db_free_unlock (db\<lparr>d_free_lock := d_free_lock db + 1, d_cache := node\<rparr>)) (\<lambda>db. Inr (node, db))"
proof -
  have e: "cmp (db\<lparr>d_free_lock := d_free_lock db + 1\<rparr>) = cmp db" "hash_of (db\<lparr>d_free_lock := d_free_lock db + 1\<rparr>) = hash_of db"
    by (simp_all add: cmp_def hash_of_def fun_eq_iff)
  have g: "(d_cache db \<noteq> 0 \<and> cmp db key (n_key (d_nodes db (d_cache db))) = 0) = False" using assms(4) by auto
  show ?thesis
    unfolding db_obj_vensure_def g db_free_lock_ok(1) [OF assms(1,2)] by (simp add: e assms(3,5,6))
qed

text \<open>The key of a node that waits to be freed: its data is given out although there is no such entry.\<close>

lemma vensure_pending:
  assumes "db_repr db A M" "key_ok (d_type db) (d_maxlen db) key" "d_free_lock db < UINT_MAX"
    and "(b, i) \<in> set (d_free_list db)" "kval (d_type db) (d_maxlen db) (n_key (d_nodes db b)) = kval (d_type db) (d_maxlen db) key"
  shows "\<exists>db'. db_obj_vensure a key (Some create) db = Inr (b, db') \<and> M (kval (d_type db) (d_maxlen db) key) = None
    \<and> n_deleted (d_nodes db' b) \<and> d_item_count db' = int (card (dom M)) \<and> db_obj_get key db' = Inr (b, db')"
proof -
  obtain T where T: "db_inv T db" "contents T db M" using assms(1) by (auto simp: db_repr_def)
  have core: "db_core T (d_free_list db) db" using T(1) by (simp add: db_inv_def)
  have b: "i < HASH_SIZE" "b \<in> set (addrs (T i))" "n_deleted (d_nodes db b)" "d_free_lock db \<noteq> 0"
    using core assms(4) T(1) by (auto simp: db_core_def db_inv_def)
  have bn: "b \<in> nodes_of T" "node_val db b = kval (d_type db) (d_maxlen db) key" using b assms(5) by (auto simp: nodes_of_def node_val_def)
  show ?thesis
  proof (cases rule: lookup_cases [OF core T(2) assms(2), case_names live deleted missing])
    case (live c q)
    have "c \<in> nodes_of T" using live(3) by (auto simp: nodes_of_def hash_of_def)
    then have "c = b" using live_inj [OF core _ bn(1)] bn(2) live(4) by simp
    then show ?thesis using live(5) b(3) by simp
  next
    case (deleted c q)
    have "c \<in> nodes_of T" using deleted(3) by (auto simp: nodes_of_def hash_of_def)
    then have c: "c = b" using live_inj [OF core _ bn(1)] bn(2) deleted(4) by simp
    have nc: "d_cache db = 0 \<or> cmp db key (n_key (d_nodes db (d_cache db))) \<noteq> 0"
    proof (rule ccontr)
      assume "\<not> ?thesis"
      then have "d_cache db \<in> live T db" "node_val db (d_cache db) = node_val db b"
        using core bn(2) by (auto simp: db_core_def cmp_sign)
      then show False using live_inj [OF core _ bn(1), of "d_cache db"] b(3) by (simp add: live_nodes)
    qed
    let ?db = "db\<lparr>d_cache := b\<rparr>"
    have "db_free_unlock (db\<lparr>d_free_lock := d_free_lock db + 1, d_cache := b\<rparr>) = Inr ?db"
      using b(4) T(1) by (simp add: db_free_unlock_def Let_def db_inv_def)
    then have V: "db_obj_vensure a key (Some create) db = Inr (b, ?db)"
      using vensure_start [OF T(1) assms(3) key_ok_allowed [OF assms(2)] nc deleted(1,2)] c by simp
    have "cmp db key (n_key (d_nodes db b)) = 0" using bn(2) by (simp add: cmp_sign)
    then have "key_allowed ?db key" "cmp ?db key (n_key (d_nodes ?db b)) = 0"
      using key_ok_allowed [of ?db key] assms(2) by (simp_all add: cmp_def)
    then have "db_obj_get key ?db = Inr (b, ?db)" using deleted(2) c by (simp add: db_obj_get_def)
    then show ?thesis using V deleted(6) b(3) repr_size [OF assms(1)] by auto
  next
    case (missing k pre post c)
    then show ?thesis using bn by blast
  qed
qed


text \<open>Once the last lock goes the node is freed, and the cache still points to it.\<close>

lemma free_nodes_cache:
  "free_nodes F (db\<lparr>d_cache := x\<rparr>) = map_sum id (\<lambda>db. db\<lparr>d_cache := x\<rparr>) (free_nodes F db)"
proof (induction F arbitrary: db)
  case (Cons f F)
  obtain a i where f: "f = (a, i)" by (cases f)
  show ?case
  proof (cases "db_rebalance_erase a (d_nodes db, d_ht db ! i)")
    case (Some hr)
    obtain h r where hr: "hr = (h, r)" by (cases hr)
    let ?db = "db_dup_key_free (n_key (h a)) (db\<lparr>d_nodes := h, d_ht := (d_ht db)[i := r]\<rparr>)"
    let ?db1 = "?db\<lparr>d_freed := d_freed ?db @ [Freed_node a]\<rparr>"
    have "db_dup_key_free (n_key (h a)) ((db\<lparr>d_cache := x\<rparr>)\<lparr>d_nodes := h, d_ht := (d_ht db)[i := r]\<rparr>) = ?db\<lparr>d_cache := x\<rparr>"
      by (simp add: db_dup_key_free_def split: DBType.split)
    then have "free_nodes (f # F) (db\<lparr>d_cache := x\<rparr>) = free_nodes F (?db\<lparr>d_cache := x, d_freed := d_freed ?db @ [Freed_node a]\<rparr>)"
      by (simp add: f Some hr Let_def)
    also have "?db\<lparr>d_cache := x, d_freed := d_freed ?db @ [Freed_node a]\<rparr> = ?db1\<lparr>d_cache := x\<rparr>" by (rule dbmap.equality) simp_all
    finally have "free_nodes (f # F) (db\<lparr>d_cache := x\<rparr>) = free_nodes F (?db1\<lparr>d_cache := x\<rparr>)" .
    moreover have "free_nodes (f # F) db = free_nodes F ?db1" by (simp add: f Some hr Let_def)
    ultimately show ?thesis using Cons.IH [of ?db1] by simp
  qed (simp add: f)
qed simp

lemma free_nodes_freed:
  "free_nodes F db = Inr db' \<Longrightarrow> set (d_freed db) \<union> Freed_node ` fst ` set F \<subseteq> set (d_freed db')"
proof (induction F arbitrary: db)
  case (Cons f F)
  obtain a i where f: "f = (a, i)" by (cases f)
  obtain h r where E: "db_rebalance_erase a (d_nodes db, d_ht db ! i) = Some (h, r)"
    using Cons.prems f by (cases "db_rebalance_erase a (d_nodes db, d_ht db ! i)") auto
  let ?db = "db_dup_key_free (n_key (h a)) (db\<lparr>d_nodes := h, d_ht := (d_ht db)[i := r]\<rparr>)"
  have "free_nodes F (?db\<lparr>d_freed := d_freed ?db @ [Freed_node a]\<rparr>) = Inr db'" using Cons.prems f E by (simp add: Let_def)
  from Cons.IH [OF this] have "set (d_freed ?db @ [Freed_node a]) \<union> Freed_node ` fst ` set F \<subseteq> set (d_freed db')" by simp
  moreover have "set (d_freed db) \<subseteq> set (d_freed ?db)" by (auto simp: db_dup_key_free_def split: DBType.split)
  ultimately show ?case using f by auto
qed simp

lemma cache_dangling:
  assumes "db_repr db A M" "d_free_lock db = 1" "(b, i) \<in> set (d_free_list db)"
  shows "\<exists>db'. db_free_unlock (db\<lparr>d_cache := b\<rparr>) = Inr db' \<and> Freed_node b \<in> set (d_freed db') \<and> d_cache db' = b"
proof -
  obtain T where "db_inv T db" using assms(1) by (auto simp: db_repr_def)
  then have "db_core T (d_free_list db) (db\<lparr>d_free_lock := 0\<rparr>)"
    using db_core_cong [of T "d_free_list db" db "db\<lparr>d_free_lock := 0\<rparr>"] by (simp add: db_inv_def)
  then obtain db' where R: "free_nodes (d_free_list db) (db\<lparr>d_free_lock := 0\<rparr>) = Inr db'" using free_nodes_ok by blast
  have e: "(db\<lparr>d_cache := b\<rparr>)\<lparr>d_free_lock := 0\<rparr> = (db\<lparr>d_free_lock := 0\<rparr>)\<lparr>d_cache := b\<rparr>" by (cases db) simp
  have "free_nodes (d_free_list db) ((db\<lparr>d_cache := b\<rparr>)\<lparr>d_free_lock := 0\<rparr>) = Inr (db'\<lparr>d_cache := b\<rparr>)"
    unfolding e using free_nodes_cache [where F = "d_free_list db" and db = "db\<lparr>d_free_lock := 0\<rparr>" and x = b] R by simp
  then have "db_free_unlock (db\<lparr>d_cache := b\<rparr>) = Inr ((db'\<lparr>d_cache := b\<rparr>)\<lparr>d_free_list := []\<rparr>)"
    using assms(2) by (simp add: db_free_unlock_def Let_def)
  moreover have "Freed_node b \<in> set (d_freed db')" using free_nodes_freed [OF R] assms(3) by force
  ultimately show ?thesis by simp
qed

text \<open>Otherwise \<open>db_obj_vensure\<close> does what it is for.\<close>

lemma vensure_repr:
  fixes create :: "DBKey \<Rightarrow> DBData"
  assumes "db_repr db A M" "key_ok (d_type db) (d_maxlen db) key" "d_free_lock db < UINT_MAX" "d_item_count db < UINT_MAX"
    and "a \<notin> A" "a \<noteq> 0"
    and "\<forall>(b, i) \<in> set (d_free_list db). kval (d_type db) (d_maxlen db) (n_key (d_nodes db b)) \<noteq> kval (d_type db) (d_maxlen db) key"
  defines "v \<equiv> kval (d_type db) (d_maxlen db) key"
  defines "M' \<equiv> (if M v = None then M(v \<mapsto> create key) else M)"
  shows "\<exists>b db' B. db_obj_vensure a key (Some create) db = Inr (b, db') \<and> db_repr db' B M' \<and> B \<subseteq> insert a A
    \<and> b \<noteq> 0 \<and> M' v = Some (n_data (d_nodes db' b))"
proof -
  obtain T where T: "db_inv T db" "contents T db M" "A = nodes_of T" using assms(1) by (auto simp: db_repr_def)
  let ?db = "db\<lparr>d_free_lock := d_free_lock db + 1\<rparr>" and ?i = "hash_of db key"
  note L = db_free_lock_ok [OF T(1) assms(3)]
  have core: "db_core T (d_free_list db) db" using T(1) by (simp add: db_inv_def)
  have al: "key_allowed db key" by (rule key_ok_allowed [OF assms(2)])
  have i: "?i < HASH_SIZE" by (simp add: hash_of_def)
  show ?thesis
  proof (cases "d_cache db \<noteq> 0 \<and> cmp db key (n_key (d_nodes db (d_cache db))) = 0")
    case True
    then have "d_cache db \<in> live T db" "node_val db (d_cache db) = v" using core by (auto simp: db_core_def cmp_sign v_def)
    then have "M v = Some (n_data (d_nodes db (d_cache db)))" using contents_entry [OF core T(2)] by metis
    moreover have "db_obj_vensure a key (Some create) db = Inr (d_cache db, db)" using True al by (simp add: db_obj_vensure_def)
    ultimately show ?thesis using assms(1) True by (auto simp: M'_def)
  next
    case False
    then have nc: "d_cache db = 0 \<or> cmp db key (n_key (d_nodes db (d_cache db))) \<noteq> 0" by blast
    show ?thesis
    proof (cases rule: lookup_cases [OF core T(2) assms(2), case_names live deleted missing])
      case (live b q)
      let ?db2 = "?db\<lparr>d_cache := b\<rparr>"
      have bl: "b \<in> live T db" using live(3,5) i by (auto simp: live_nodes nodes_of_def)
      have c2: "db_core T (d_free_list ?db2) ?db2" using db_core_cong [OF L(2), of ?db2] L(3) bl by simp
      have "contents T ?db2 M" using contents_cong [OF T(2)] by simp
      then obtain db' B where U: "db_free_unlock ?db2 = Inr db'" "db_repr db' B M" "B \<subseteq> nodes_of T" "same_entries ?db2 db'"
        using unlock_repr [OF c2, of M] L(4-7) \<open>contents T ?db2 M\<close> by auto
      have "db_obj_vensure a key (Some create) db = Inr (b, db')"
        using vensure_start [OF T(1) assms(3) al nc live(1,2)] U(1) by simp
      moreover have "n_data (d_nodes db' b) = n_data (d_nodes db b)" using U(4) by (simp add: same_entries_def)
      ultimately show ?thesis using U(2,3) T(3) live(2,6) by (auto simp: M'_def v_def)
    next
      case (deleted b q)
      then have "(b, ?i) \<in> set (d_free_list db)" using core i by (simp add: db_core_def)
      then show ?thesis using assms(7) deleted(4) by (auto simp: node_val_def)
    next
      case (missing kk pre post cc)
      have e: "cmp ?db = cmp db" "hash_of ?db = hash_of db" "node_val ?db = node_val db"
        by (simp_all add: cmp_def hash_of_def node_val_def fun_eq_iff)
      have k: "key_ok (d_type ?db) (d_maxlen ?db) key" using assms(2) by simp
      have c: "contents T ?db M" using contents_cong [OF T(2)] by simp
      have an: "a \<notin> nodes_of T" using assms(5) T(3) by simp
      have core': "db_core T (d_free_list db) ?db" using L(2) by simp
      obtain g r t where N: "new_node a ?i (kpar kk) cc ?db = Inr (?db\<lparr>d_nodes := g, d_ht := (d_ht ?db)[?i := r], d_item_count := u32 (d_item_count ?db + 1)\<rparr>)"
        "nodes_of (T(?i := t)) = insert a (nodes_of T)"
        "\<And>db'. d_nodes db' = g(a := (g a)\<lparr>n_key := key, n_data := create key\<rparr>) \<Longrightarrow> d_ht db' = (d_ht ?db)[?i := r] \<Longrightarrow>
           d_item_count db' = u32 (d_item_count ?db + 1) \<Longrightarrow> d_type db' = d_type ?db \<Longrightarrow> d_maxlen db' = d_maxlen ?db \<Longrightarrow> d_cache db' = a \<Longrightarrow>
           db_core (T(?i := t)) (d_free_list db) db' \<and> contents (T(?i := t)) db' (M(v \<mapsto> create key))"
        using insert_core [OF core' c k, of ?i kk cc pre post v a "create key"] missing an assms(4,6) e by (auto simp: v_def)
      let ?db1 = "?db\<lparr>d_nodes := g, d_ht := (d_ht ?db)[?i := r], d_item_count := u32 (d_item_count ?db + 1)\<rparr>"
      let ?db2 = "write_entry a key (n_data (g a)) (create key) ?db1"
      have k1: "key_ok (d_type ?db1) (d_maxlen ?db1) key" using k by simp
      note W = write_entry_simps [OF k1, of a "n_data (g a)" "create key"]
      have core2: "db_core (T(?i := t)) (d_free_list db) ?db2 \<and> contents (T(?i := t)) ?db2 (M(v \<mapsto> create key))"
        by (rule N(3)) (simp_all add: write_entry_simps assms(2))
      obtain db' B where U: "db_free_unlock ?db2 = Inr db'" "db_repr db' B (M(v \<mapsto> create key))" "B \<subseteq> nodes_of (T(?i := t))"
        "same_entries ?db2 db'"
        using unlock_repr [of "T(?i := t)" ?db2 "M(v \<mapsto> create key)"] core2 L(4-7) W by auto
      have g: "(d_cache db \<noteq> 0 \<and> cmp db key (n_key (d_nodes db (d_cache db))) = 0) = False" "(d_item_count db = UINT_MAX) = False"
        using nc assms(4) by auto
      have "db_obj_vensure a key (Some create) db = Inr (a, db')"
        unfolding db_obj_vensure_def g L(1)
        using U(1) N(1) by (simp add: e al missing(1) g write_entry_def)
      moreover have "n_data (d_nodes db' a) = create key" using U(4) W(1) by (simp add: same_entries_def)
      ultimately show ?thesis using U(2,3) N(2) T(3) missing(7) assms(6) by (auto simp: M'_def v_def)
    qed
  qed
qed

end
