(* ===== verification/Refine.thy ===== *)
theory Refine
  imports Main
begin

text \<open>
  Sequences of calls with answers: running a component, which may fail, and accepting the answers
  by a specification. The locale states the simulation of one call and has the one
  of all sequences, the count of calls included on which the bounds of a component depend.
\<close>

fun run_ops :: "('op \<Rightarrow> 'w \<Rightarrow> 'e + 'ans \<times> 'w) \<Rightarrow> 'op list \<Rightarrow> 'w \<Rightarrow> 'e + 'ans list \<times> 'w" where
  "run_ops step [] w = Inr ([], w)"
| "run_ops step (op # ops) w =
     (case step op w of Inl e \<Rightarrow> Inl e
      | Inr (ans, w) \<Rightarrow> (case run_ops step ops w of Inl e \<Rightarrow> Inl e | Inr (anss, w) \<Rightarrow> Inr (ans # anss, w)))"

text \<open>\<open>None\<close>: the specification does not allow the answer.\<close>

fun accept_ops :: "('op \<Rightarrow> 'ans \<Rightarrow> 's \<Rightarrow> 's option) \<Rightarrow> 'op list \<Rightarrow> 'ans list \<Rightarrow> 's \<Rightarrow> 's option" where
  "accept_ops spec [] [] s = Some s"
| "accept_ops spec (op # ops) (ans # anss) s = (case spec op ans s of None \<Rightarrow> None | Some s \<Rightarrow> accept_ops spec ops anss s)"
| "accept_ops spec _ _ s = None"

locale answers_as =
  fixes step :: "'op \<Rightarrow> 'w \<Rightarrow> 'e + 'ans \<times> 'w"
    and spec :: "'op \<Rightarrow> 'ans \<Rightarrow> 's \<Rightarrow> 's option"
    and rel :: "nat \<Rightarrow> 'w \<Rightarrow> 's \<Rightarrow> bool"
    and allowed :: "'op \<Rightarrow> bool"
    and bound :: nat
  assumes sim: "rel n w s \<Longrightarrow> allowed op \<Longrightarrow> n < bound \<Longrightarrow>
    \<exists>ans w' s'. step op w = Inr (ans, w') \<and> spec op ans s = Some s' \<and> rel (Suc n) w' s'"
begin

lemma run_sim:
  "rel n w s \<Longrightarrow> list_all allowed ops \<Longrightarrow> n + length ops \<le> bound \<Longrightarrow>
    \<exists>anss w' s'. run_ops step ops w = Inr (anss, w') \<and> accept_ops spec ops anss s = Some s' \<and> rel (n + length ops) w' s'"
proof (induction ops arbitrary: n w s)
  case Nil
  then show ?case by (intro exI [of _ "[]"] exI [of _ w] exI [of _ s]) simp
next
  case (Cons op ops)
  obtain ans w1 s1 where 1: "step op w = Inr (ans, w1)" "spec op ans s = Some s1" "rel (Suc n) w1 s1"
    using sim [OF Cons.prems(1), of op] Cons.prems(2,3) by auto
  obtain anss w' s' where 2: "run_ops step ops w1 = Inr (anss, w')" "accept_ops spec ops anss s1 = Some s'"
    "rel (Suc n + length ops) w' s'"
    using Cons.IH [OF 1(3)] Cons.prems(2,3) by auto
  then show ?case using 1 by (intro exI [of _ "ans # anss"] exI [of _ w'] exI [of _ s']) simp
qed

end

end
