(* ===== verification/Dbrun.thy ===== *)
theory Dbrun
  imports Dbiter Dbensure Refine
begin

text \<open>
  Sequences of calls on a database with any number of iterators open at the same time, and the
  map with cursors that they implement.
\<close>

section \<open>The nodes of a database\<close>

text \<open>What can be reached from the hashtable; \<open>ers_alloc\<close> returns an address that is not in use.\<close>

inductive db_reach :: "dbmap \<Rightarrow> nat \<Rightarrow> bool" for db where
  reach_root: "i < HASH_SIZE \<Longrightarrow> d_ht db ! i \<noteq> 0 \<Longrightarrow> db_reach db (d_ht db ! i)"
| reach_left: "db_reach db a \<Longrightarrow> n_left (d_nodes db a) \<noteq> 0 \<Longrightarrow> db_reach db (n_left (d_nodes db a))"
| reach_right: "db_reach db a \<Longrightarrow> n_right (d_nodes db a) \<noteq> 0 \<Longrightarrow> db_reach db (n_right (d_nodes db a))"

definition ers_ok :: "(dbmap \<Rightarrow> nat) \<Rightarrow> bool" where
  "ers_ok ers \<longleftrightarrow> (\<forall>db. finite {a. db_reach db a} \<longrightarrow> ers db \<noteq> 0 \<and> \<not> db_reach db (ers db))"

lemma tree_children:
  "tree_at h p t \<Longrightarrow> a \<in> set (addrs t) \<Longrightarrow> n_left (h a) \<in> insert 0 (set (addrs t)) \<and> n_right (h a) \<in> insert 0 (set (addrs t))"
proof (induction t arbitrary: p)
  case (Nd c l b r)
  have "taddr l \<in> insert 0 (set (addrs l))" by (cases l) simp_all
  moreover have "taddr r \<in> insert 0 (set (addrs r))" by (cases r) simp_all
  ultimately have b: "taddr l \<in> insert 0 (set (addrs (Nd c l b r)))" "taddr r \<in> insert 0 (set (addrs (Nd c l b r)))" by auto
  have sub: "insert 0 (set (addrs l)) \<subseteq> insert 0 (set (addrs (Nd c l b r)))" "insert 0 (set (addrs r)) \<subseteq> insert 0 (set (addrs (Nd c l b r)))"
    by auto
  consider "a = b" | "a \<in> set (addrs l)" | "a \<in> set (addrs r)" using Nd.prems(2) by auto
  then show ?case
  proof cases
    case 1
    then show ?thesis using b Nd.prems(1) by simp
  next
    case 2
    then show ?thesis using Nd.IH(1) [of b] Nd.prems(1) sub(1) by auto
  next
    case 3
    then show ?thesis using Nd.IH(2) [of b] Nd.prems(1) sub(2) by auto
  qed
qed simp

lemma tree_reach:
  "tree_at (d_nodes db) p t \<Longrightarrow> t = Lf \<or> db_reach db (taddr t) \<Longrightarrow> a \<in> set (addrs t) \<Longrightarrow> db_reach db a"
proof (induction t arbitrary: p)
  case (Nd c l b r)
  have b: "db_reach db b" using Nd.prems(2) by simp
  have "l = Lf \<or> db_reach db (taddr l)" "r = Lf \<or> db_reach db (taddr r)"
    using reach_left [OF b] reach_right [OF b] Nd.prems(1) taddr_eq_0 by auto
  then show ?case using Nd b by auto
qed simp

lemma repr_reach:
  assumes "db_repr db A M"
  shows "a \<in> A \<longleftrightarrow> db_reach db a"
proof -
  obtain T where T: "db_inv T db" "A = nodes_of T" using assms by (auto simp: db_repr_def)
  then have O: "tree_at (d_nodes db) 0 (T i)" "d_ht db ! i = taddr (T i)" if "i < HASH_SIZE" for i
    using that by (simp_all add: db_inv_def db_core_def bucket_ok_def owns_def)
  show ?thesis
  proof
    assume "a \<in> A"
    then obtain i where i: "i < HASH_SIZE" "a \<in> set (addrs (T i))" using T(2) by (auto simp: nodes_of_def)
    then have "db_reach db (taddr (T i))" using reach_root [OF i(1), of db] O [OF i(1)] taddr_eq_0 [OF O(1) [OF i(1)]] by force
    then show "db_reach db a" using tree_reach [OF O(1) [OF i(1)] _ i(2)] by blast
  next
    assume "db_reach db a"
    then have "\<exists>i < HASH_SIZE. a \<in> set (addrs (T i))"
    proof (induction rule: db_reach.induct)
      case (reach_root i)
      then show ?case using O [OF reach_root(1)] by (cases "T i") auto
    next
      case (reach_left a)
      then show ?case using tree_children [OF O(1)] by (metis insert_iff)
    next
      case (reach_right a)
      then show ?case using tree_children [OF O(1)] by (metis insert_iff)
    qed
    then show "a \<in> A" using T(2) by (auto simp: nodes_of_def)
  qed
qed

lemma ers_fresh:
  assumes "ers_ok ers" "db_repr db A M"
  shows "ers db \<notin> A \<and> ers db \<noteq> 0"
proof -
  have "finite A" using assms(2) by (auto simp: db_repr_def nodes_of_def)
  moreover have "A = {a. db_reach db a}" using repr_reach [OF assms(2)] by blast
  ultimately show ?thesis using assms(1) unfolding ers_ok_def by blast
qed

section \<open>Calls\<close>

text \<open>
  Calls of the interface \<open>DBMap\<close> and of its iterators, which are numbered; a destroyed iterator is None.
  The calls that walk the whole database or run a function of the caller (\<open>ensure\<close>, \<open>foreach\<close>,
  \<open>getall\<close>, \<open>clear\<close>) are not among them; they have theorems of their own.
\<close>

record dbw =
  w_db :: dbmap
  w_iters :: "dbit option list"

datatype db_op = Put DBKey DBData | Get DBKey | Remove DBKey | Exists DBKey | Size_of
  | Iterator | First nat | Last nat | Next nat | Prev nat | It_exists nat | It_remove nat | Destroy nat

datatype db_ans = Ans_put int "DBData option" | Ans_data "DBData option" | Ans_bool bool | Ans_int int
  | Ans_entry "(DBKey \<times> DBData) option" | Ans_none

text \<open>A call on an iterator that does not exist is not made.\<close>

definition with_iter :: "nat \<Rightarrow> dbw \<Rightarrow> (dbit \<Rightarrow> (db_ans \<times> dbw) dbres) \<Rightarrow> (db_ans \<times> dbw) dbres" where
  "with_iter j w f = (if j < length (w_iters w) then case w_iters w ! j of None \<Rightarrow> Inr (Ans_none, w) | Some it \<Rightarrow> f it
     else Inr (Ans_none, w))"

definition it_answer :: "nat \<Rightarrow> dbw \<Rightarrow> nat \<times> dbit \<Rightarrow> db_ans \<times> dbw" where
  "it_answer j w r = (case r of (n, it) \<Rightarrow>
     (Ans_entry (if n = 0 then None else Some (n_key (d_nodes (w_db w) n), n_data (d_nodes (w_db w) n))),
      w\<lparr>w_iters := (w_iters w)[j := Some it]\<rparr>))"

fun db_step :: "(dbmap \<Rightarrow> nat) \<Rightarrow> db_op \<Rightarrow> dbw \<Rightarrow> (db_ans \<times> dbw) dbres" where
  "db_step ers (Put key data) w = dbind (db_obj_put (ers (w_db w)) key data (w_db w)) (\<lambda>(r, out, db). Inr (Ans_put r out, w\<lparr>w_db := db\<rparr>))"
| "db_step ers (Get key) w = dbind (db_obj_get key (w_db w)) (\<lambda>(a, db).
     Inr (Ans_data (if a = 0 then None else Some (n_data (d_nodes db a))), w\<lparr>w_db := db\<rparr>))"
| "db_step ers (Remove key) w = dbind (db_obj_remove key (w_db w)) (\<lambda>(r, out, db). Inr (Ans_put r out, w\<lparr>w_db := db\<rparr>))"
| "db_step ers (Exists key) w = dbind (db_obj_exists key (w_db w)) (\<lambda>(b, db). Inr (Ans_bool b, w\<lparr>w_db := db\<rparr>))"
| "db_step ers Size_of w = dbind (db_obj_size (w_db w)) (\<lambda>(n, db). Inr (Ans_int n, w\<lparr>w_db := db\<rparr>))"
| "db_step ers Iterator w = dbind (db_obj_iterator (w_db w)) (\<lambda>(it, db). Inr (Ans_none, \<lparr>w_db = db, w_iters = w_iters w @ [Some it]\<rparr>))"
| "db_step ers (First j) w = with_iter j w (\<lambda>it. dbind (dbit_obj_first (w_db w) it) (\<lambda>r. Inr (it_answer j w r)))"
| "db_step ers (Last j) w = with_iter j w (\<lambda>it. dbind (dbit_obj_last (w_db w) it) (\<lambda>r. Inr (it_answer j w r)))"
| "db_step ers (Next j) w = with_iter j w (\<lambda>it. dbind (dbit_obj_next (w_db w) it) (\<lambda>r. Inr (it_answer j w r)))"
| "db_step ers (Prev j) w = with_iter j w (\<lambda>it. dbind (dbit_obj_prev (w_db w) it) (\<lambda>r. Inr (it_answer j w r)))"
| "db_step ers (It_exists j) w = with_iter j w (\<lambda>it. Inr (Ans_bool (dbit_obj_exists (w_db w) it), w))"
| "db_step ers (It_remove j) w = with_iter j w (\<lambda>it. dbind (dbit_obj_remove (w_db w) it) (\<lambda>(r, out, db).
     Inr (Ans_put r out, w\<lparr>w_db := db\<rparr>)))"
| "db_step ers (Destroy j) w = with_iter j w (\<lambda>it. dbind (dbit_obj_destroy (w_db w)) (\<lambda>db.
     Inr (Ans_none, \<lparr>w_db = db, w_iters = (w_iters w)[j := None]\<rparr>)))"

text \<open>The specification: a map, and for every iterator the key it stands on.\<close>

record dbs =
  s_map :: "int list \<rightharpoonup> DBData"
  s_iters :: "int list option option list"

definition provided :: "bool \<Rightarrow> 's \<Rightarrow> 's option" where
  "provided b s = (if b then Some s else None)"

definition with_cursor :: "nat \<Rightarrow> db_ans \<Rightarrow> dbs \<Rightarrow> (int list option \<Rightarrow> dbs option) \<Rightarrow> dbs option" where
  "with_cursor j ans s f = (if j < length (s_iters s) then case s_iters s ! j of None \<Rightarrow> provided (ans = Ans_none) s | Some c \<Rightarrow> f c
     else provided (ans = Ans_none) s)"

text \<open>An iterator may go to any entry, or report the end.\<close>

definition goto_entry :: "DBType \<Rightarrow> nat \<Rightarrow> nat \<Rightarrow> db_ans \<Rightarrow> dbs \<Rightarrow> dbs option" where
  "goto_entry t m j ans s = (case ans of
       Ans_entry None \<Rightarrow> Some (s\<lparr>s_iters := (s_iters s)[j := Some None]\<rparr>)
     | Ans_entry (Some (key, data)) \<Rightarrow>
         provided (s_map s (kval t m key) = Some data) (s\<lparr>s_iters := (s_iters s)[j := Some (Some (kval t m key))]\<rparr>)
     | _ \<Rightarrow> None)"

fun db_spec :: "DBType \<Rightarrow> nat \<Rightarrow> db_op \<Rightarrow> db_ans \<Rightarrow> dbs \<Rightarrow> dbs option" where
  "db_spec t m (Put key data) ans s = (let v = kval t m key in
     provided (ans = Ans_put (if s_map s v = None then 0 else 1) (s_map s v)) (s\<lparr>s_map := (s_map s)(v \<mapsto> data)\<rparr>))"
| "db_spec t m (Get key) ans s = provided (ans = Ans_data (s_map s (kval t m key))) s"
| "db_spec t m (Remove key) ans s = (let v = kval t m key in
     provided (ans = Ans_put (if s_map s v = None then 0 else 1) (s_map s v)) (s\<lparr>s_map := (s_map s)(v := None)\<rparr>))"
| "db_spec t m (Exists key) ans s = provided (ans = Ans_bool (s_map s (kval t m key) \<noteq> None)) s"
| "db_spec t m Size_of ans s = provided (ans = Ans_int (int (card (dom (s_map s))))) s"
| "db_spec t m Iterator ans s = provided (ans = Ans_none) (s\<lparr>s_iters := s_iters s @ [Some None]\<rparr>)"
| "db_spec t m (First j) ans s = with_cursor j ans s (\<lambda>_. if (ans = Ans_entry None) = (s_map s = Map.empty) then goto_entry t m j ans s else None)"
| "db_spec t m (Last j) ans s = with_cursor j ans s (\<lambda>_. if (ans = Ans_entry None) = (s_map s = Map.empty) then goto_entry t m j ans s else None)"
| "db_spec t m (Next j) ans s = with_cursor j ans s (\<lambda>_. goto_entry t m j ans s)"
| "db_spec t m (Prev j) ans s = with_cursor j ans s (\<lambda>_. goto_entry t m j ans s)"
| "db_spec t m (It_exists j) ans s = with_cursor j ans s (\<lambda>c. provided (ans = Ans_bool (case c of None \<Rightarrow> False | Some v \<Rightarrow> s_map s v \<noteq> None)) s)"
| "db_spec t m (It_remove j) ans s = with_cursor j ans s (\<lambda>c. case c of None \<Rightarrow> provided (ans = Ans_put 0 None) s
     | Some v \<Rightarrow> provided (ans = Ans_put (if s_map s v = None then 0 else 1) (s_map s v)) (s\<lparr>s_map := (s_map s)(v := None)\<rparr>))"
| "db_spec t m (Destroy j) ans s = with_cursor j ans s (\<lambda>_. provided (ans = Ans_none) (s\<lparr>s_iters := (s_iters s)[j := None]\<rparr>))"

text \<open>What a program may pass.\<close>

definition db_op_ok :: "dbmap \<Rightarrow> db_op \<Rightarrow> bool" where
  "db_op_ok db op = (case op of
       Put key data \<Rightarrow> key_ok (d_type db) (d_maxlen db) key \<and> (opt db DB_OPT_ALLOW_NULL_DATA \<or> data \<noteq> DB_DATA_PTR 0)
     | Get key \<Rightarrow> key_ok (d_type db) (d_maxlen db) key
     | Remove key \<Rightarrow> key_ok (d_type db) (d_maxlen db) key
     | Exists key \<Rightarrow> key_ok (d_type db) (d_maxlen db) key
     | _ \<Rightarrow> True)"

section \<open>Iterators and the nodes\<close>

text \<open>An iterator is off the entries, or on a node of the slot that it has the index of.\<close>

definition iter_at :: "dbmap \<Rightarrow> nat set \<Rightarrow> dbit \<Rightarrow> int list option \<Rightarrow> bool" where
  "iter_at db A it c \<longleftrightarrow> it_index it \<le> int HASH_SIZE \<and> (case c of None \<Rightarrow> it_node it = 0
     | Some v \<Rightarrow> it_node it \<noteq> 0 \<and> it_node it \<in> A \<and> v = node_val db (it_node it) \<and> it_index it = int (hash_of db (n_key (d_nodes db (it_node it)))))"

lemma repr_key: "db_repr db A M \<Longrightarrow> a \<in> A \<Longrightarrow> key_ok (d_type db) (d_maxlen db) (n_key (d_nodes db a))"
  by (auto simp: db_repr_def db_inv_def db_core_def bucket_ok_def nodes_of_def)

lemma iter_at_frame:
  assumes "iter_at db A it c" "db_repr db A M" "db_repr db' B M'" "same_config db db'" "A \<subseteq> B" "\<forall>a \<in> A. node_val db' a = node_val db a"
  shows "iter_at db' B it c"
proof (cases c)
  case None
  then show ?thesis using assms(1) by (simp add: iter_at_def)
next
  case (Some v)
  let ?a = "it_node it"
  have a: "?a \<in> A" using assms(1) Some by (simp add: iter_at_def)
  have k: "key_ok (d_type db) (d_maxlen db) (n_key (d_nodes db ?a))" "key_ok (d_type db) (d_maxlen db) (n_key (d_nodes db' ?a))"
    using repr_key [OF assms(2) a] repr_key [OF assms(3), of ?a] a assms(4,5) by (auto simp: same_config_def)
  have "kval (d_type db) (d_maxlen db) (n_key (d_nodes db ?a)) = kval (d_type db) (d_maxlen db) (n_key (d_nodes db' ?a))"
    using assms(4,6) a by (simp add: node_val_def same_config_def)
  from kval_bucket [OF k this] have "hash_of db' (n_key (d_nodes db' ?a)) = hash_of db (n_key (d_nodes db ?a))"
    using assms(4) by (simp add: hash_of_def same_config_def)
  then show ?thesis using assms(1,5,6) a Some by (auto simp: iter_at_def)
qed

definition iters_at :: "dbmap \<Rightarrow> nat set \<Rightarrow> dbit option list \<Rightarrow> int list option option list \<Rightarrow> bool" where
  "iters_at db A its cs \<longleftrightarrow> list_all2 (rel_option (iter_at db A)) its cs"

lemma iters_at_frame:
  assumes "iters_at db A its cs" "db_repr db A M" "db_repr db' B M'" "same_config db db'"
    and "(\<exists>it. Some it \<in> set its) \<Longrightarrow> A \<subseteq> B \<and> (\<forall>a \<in> A. node_val db' a = node_val db a)"
  shows "iters_at db' B its cs"
  unfolding iters_at_def
proof (rule list.rel_mono_strong [OF assms(1) [unfolded iters_at_def]])
  fix x y assume xy: "x \<in> set its" "rel_option (iter_at db A) x y"
  show "rel_option (iter_at db' B) x y"
  proof (cases x)
    case (Some it)
    then have "A \<subseteq> B \<and> (\<forall>a \<in> A. node_val db' a = node_val db a)" using assms(5) xy(1) by blast
    then show ?thesis using xy(2) Some iter_at_frame [OF _ assms(2-4)] by (cases y) auto
  qed (use xy(2) in simp)
qed

text \<open>The number of iterators that are open.\<close>

definition opened :: "dbit option list \<Rightarrow> int" where
  "opened its = int (length (filter (\<lambda>x. x \<noteq> None) its))"

lemma opened_update:
  "j < length its \<Longrightarrow> opened (its[j := x]) = opened its - of_bool (its ! j \<noteq> None) + of_bool (x \<noteq> None)"
proof (induction its arbitrary: j)
  case (Cons y its)
  then show ?case by (cases j) (auto simp: opened_def)
qed simp

lemma opened_bounds: "0 \<le> opened its" "opened its \<le> int (length its)" "Some it \<in> set its \<Longrightarrow> opened its \<noteq> 0"
  by (auto simp: opened_def filter_empty_conv)

lemma opened_append [simp]: "opened (its @ [Some it]) = opened its + 1"
  by (simp add: opened_def)

section \<open>The next entry\<close>

lemma result_entry:
  assumes "db_inv T db" "contents T db M" "it_result T db rest r" "snd r \<noteq> 0"
  shows "snd r \<in> nodes_of T \<and> fst r = hash_of db (n_key (d_nodes db (snd r))) \<and> M (node_val db (snd r)) = Some (n_data (d_nodes db (snd r)))"
proof -
  obtain i where i: "i < HASH_SIZE" "i = fst r" "snd r \<in> set (entries T db i)"
    using assms(3,4) by (auto simp: it_result_def it_at_def split: list.splits)
  then have n: "snd r \<in> set (addrs (T i))" "\<not> n_deleted (d_nodes db (snd r))" by (simp_all add: entries_def)
  have core: "db_core T (d_free_list db) db" using assms(1) by (simp add: db_inv_def)
  then have "bucket_ok db i (T i)" using i(1) by (simp add: db_core_def)
  then have "hash_of db (n_key (d_nodes db (snd r))) = i" using n(1) by (simp add: bucket_ok_def)
  moreover have "snd r \<in> nodes_of T" using n(1) i(1) by (auto simp: nodes_of_def)
  ultimately show ?thesis using contents_entry [OF core assms(2), of "snd r"] n(2) i(2) by (simp add: live_nodes)
qed

text \<open>The answer of an iterator: no entry, or an entry of the map on which the iterator then stands.\<close>

definition it_moved :: "dbmap \<Rightarrow> nat set \<Rightarrow> (int list \<rightharpoonup> DBData) \<Rightarrow> nat \<Rightarrow> dbit \<Rightarrow> bool" where
  "it_moved db A M n it \<longleftrightarrow> iter_at db A it (if n = 0 then None else Some (node_val db n))
     \<and> (n \<noteq> 0 \<longrightarrow> M (node_val db n) = Some (n_data (d_nodes db n)))"

lemma it_moved_result:
  assumes "db_inv T db" "contents T db M" "it_result T db rest r" "fst r \<le> HASH_SIZE"
  shows "it_moved db (nodes_of T) M (snd r) \<lparr>it_index = int (fst r), it_node = snd r\<rparr>"
  using result_entry [OF assms(1-3)] assms(4) by (auto simp: it_moved_def iter_at_def)

lemma dbit_obj_next_repr:
  assumes "db_repr db A M" "iter_at db A it c"
  shows "\<exists>n it'. dbit_obj_next db it = Inr (n, it') \<and> it_moved db A M n it'"
proof -
  obtain T where T: "db_inv T db" "contents T db M" "A = nodes_of T" using assms(1) by (auto simp: db_repr_def)
  have B: "\<forall>j < HASH_SIZE. bucket_ok db j (T j)" using T(1) by (simp add: db_inv_def db_core_def)
  let ?it = "if it_index it < 0 then \<lparr>it_index = 0, it_node = 0\<rparr> else it"
  have le: "nat (it_index ?it) \<le> HASH_SIZE" using assms(2) by (auto simp: iter_at_def)
  note Tr = buckets_trees [OF B]
  have "\<exists>r rest. next_slot db (nat (it_index ?it)) (it_node ?it) = Inr r \<and> it_result T db rest r"
  proof (cases "it_node ?it = 0")
    case True
    then show ?thesis using next_slot_first [OF Tr le] by metis
  next
    case False
    then obtain v where c: "c = Some v" "?it = it" using assms(2) by (cases c) (auto simp: iter_at_def split: if_splits)
    let ?i = "hash_of db (n_key (d_nodes db (it_node it)))"
    have it: "it_node it \<in> nodes_of T" "it_index it = int ?i" using assms(2) c T(3) by (simp_all add: iter_at_def)
    obtain i where i: "i < HASH_SIZE" "it_node it \<in> set (addrs (T i))" using it(1) by (auto simp: nodes_of_def)
    then have "?i = i" using B by (simp add: bucket_ok_def)
    then show ?thesis using next_slot_any [OF Tr i] it(2) unfolding c(2) by simp
  qed
  then obtain r rest where R: "next_slot db (nat (it_index ?it)) (it_node ?it) = Inr r" "it_result T db rest r" by blast
  have "dbit_obj_next db it = Inr (snd r, \<lparr>it_index = int (fst r), it_node = snd r\<rparr>)"
    unfolding dbit_obj_next_def Let_def R(1) by (simp add: split_beta)
  then show ?thesis using it_moved_result [OF T(1,2) R(2) next_slot_bound [OF R(1) le]] T(3) by blast
qed

lemma contents_empty:
  assumes "contents T db M"
  shows "M = Map.empty \<longleftrightarrow> live T db = {}"
proof
  assume "M = Map.empty"
  then show "live T db = {}" using assms by (auto simp: contents_def)
next
  assume "live T db = {}"
  then have "M k \<noteq> Some d" for k d using assms by (simp add: contents_def)
  then show "M = Map.empty" by fastforce
qed

lemma dbit_obj_first_repr:
  assumes "db_repr db A M"
  shows "\<exists>n it'. dbit_obj_first db it = Inr (n, it') \<and> it_moved db A M n it' \<and> (n = 0 \<longleftrightarrow> M = Map.empty)"
proof -
  obtain T where T: "db_inv T db" "contents T db M" "A = nodes_of T" using assms(1) by (auto simp: db_repr_def)
  have B: "\<forall>j < HASH_SIZE. bucket_ok db j (T j)" using T(1) by (simp add: db_inv_def db_core_def)
  note Tr = buckets_trees [OF B]
  obtain r where R: "next_slot db 0 0 = Inr r" "it_result T db (entries_from T db 0) r" using next_slot_first [OF Tr, of 0] by auto
  have set: "set (entries_from T db 0) = live T db" by (auto simp: entries_from_def entries_def live_def)
  have nz: "a \<noteq> 0" if "a \<in> live T db" for a using that B bucket_nonzero by (auto simp: live_def)
  have "snd r = 0 \<longleftrightarrow> entries_from T db 0 = []"
    using R(2) set nz by (cases "entries_from T db 0") (auto simp: it_result_def)
  moreover have "M = Map.empty \<longleftrightarrow> live T db = {}" by (rule contents_empty [OF T(2)])
  moreover have "dbit_obj_first db it = Inr (snd r, \<lparr>it_index = int (fst r), it_node = snd r\<rparr>)"
    using R(1) by (simp add: dbit_obj_first_def dbit_obj_next_def split_beta)
  ultimately show ?thesis using it_moved_result [OF T(1,2) R(2)] next_slot_bound [OF R(1)] set T(3) by auto
qed

text \<open>The previous entry is the next one in the mirror.\<close>

lemma addrs_mirror: "addrs (mirror t) = rev (addrs t)"
  by (induction t) simp_all

lemma entries_mirror: "entries (mtrees T) (mdb db) j = rev (entries T db (HASH_SIZE - 1 - j))"
  by (simp add: entries_def mtrees_def mdb_def addrs_mirror rev_filter)

lemma it_moved_back:
  assumes "db_inv T db" "contents T db M" "it_result (mtrees T) (mdb db) rest r"
  shows "it_moved db (nodes_of T) M (snd r) \<lparr>it_index = int HASH_SIZE - 1 - int (fst r), it_node = snd r\<rparr>"
proof (cases "snd r = 0")
  case True
  then show ?thesis by (simp add: it_moved_def iter_at_def)
next
  case False
  then obtain i where i: "i < HASH_SIZE" "i = fst r" "snd r \<in> set (entries T db (HASH_SIZE - 1 - i))"
    using assms(3) by (fastforce simp: it_result_def it_at_def entries_mirror split: list.splits dest: arg_cong [where f = set])
  obtain k where k: "HASH_SIZE - 1 - i = k" "k < HASH_SIZE" "int k = int HASH_SIZE - 1 - int (fst r)" using i(1,2) by simp
  obtain xs ys where "entries T db k = xs @ snd r # ys" using i(3) unfolding k(1) by (meson split_list)
  then have "it_result T db (snd r # ys @ entries_from T db (Suc k)) (k, snd r)"
    using k(2) by (auto simp: it_result_def it_at_def)
  then show ?thesis using it_moved_result [OF assms(1,2), of _ "(k, snd r)"] k(2) unfolding k(3) [symmetric] by simp
qed

lemma dbit_obj_prev_repr:
  assumes "db_repr db A M" "iter_at db A it c"
  shows "\<exists>n it'. dbit_obj_prev db it = Inr (n, it') \<and> it_moved db A M n it'"
proof -
  obtain T where T: "db_inv T db" "contents T db M" "A = nodes_of T" using assms(1) by (auto simp: db_repr_def)
  have B: "\<forall>j < HASH_SIZE. bucket_ok db j (T j)" "length (d_ht db) = HASH_SIZE" using T(1) by (simp_all add: db_inv_def db_core_def)
  note Tr = trees_ok_mdb [OF buckets_trees [OF B(1)] B(2)]
  let ?it = "if it_index it \<ge> int HASH_SIZE then \<lparr>it_index = int HASH_SIZE - 1, it_node = 0\<rparr> else it"
  have p: "dbit_obj_prev db it = dbind (prev_slot db (it_index ?it) (it_node ?it)) (\<lambda>(i, n). Inr (n, \<lparr>it_index = i, it_node = n\<rparr>))"
    by (simp add: dbit_obj_prev_def Let_def)
  show ?thesis
  proof (cases "it_index ?it < 0")
    case True
    then have "prev_slot db (it_index ?it) (it_node ?it) = Inr (it_index ?it, 0)" by (subst prev_slot.simps) simp
    then show ?thesis unfolding p using True by (simp add: it_moved_def iter_at_def)
  next
    case False
    let ?j = "HASH_SIZE - 1 - nat (it_index ?it)"
    have j: "?j < HASH_SIZE" "it_index ?it = int HASH_SIZE - 1 - int ?j" "HASH_SIZE - 1 - ?j = nat (it_index ?it)"
      using False by (simp_all split: if_splits)
    have "\<exists>r rest. next_slot (mdb db) ?j (it_node ?it) = Inr r \<and> it_result (mtrees T) (mdb db) rest r"
    proof (cases "it_node ?it = 0")
      case True
      then show ?thesis using next_slot_first [OF Tr, of ?j] j(1) by (metis less_imp_le)
    next
      case False
      then obtain v where c: "c = Some v" "?it = it" using assms(2) by (cases c) (auto simp: iter_at_def split: if_splits)
      have it: "it_node it \<in> nodes_of T" "it_index it = int (hash_of db (n_key (d_nodes db (it_node it))))"
        using assms(2) c T(3) by (simp_all add: iter_at_def)
      obtain i where i: "i < HASH_SIZE" "it_node it \<in> set (addrs (T i))" using it(1) by (auto simp: nodes_of_def)
      then have "it_index it = int i" using B(1) it(2) by (simp add: bucket_ok_def)
      then have "HASH_SIZE - 1 - ?j = i" using j(3) unfolding c(2) by simp
      then have "mtrees T ?j = mirror (T i)" unfolding mtrees_def by (rule arg_cong)
      then have "it_node ?it \<in> set (addrs (mtrees T ?j))" using i(2) unfolding c(2) by (simp only: addrs_mirror set_rev)
      then show ?thesis using next_slot_any [OF Tr j(1)] by blast
    qed
    then obtain r rest where R: "next_slot (mdb db) ?j (it_node ?it) = Inr r" "it_result (mtrees T) (mdb db) rest r" by blast
    have "prev_slot db (it_index ?it) (it_node ?it) = Inr (int HASH_SIZE - 1 - int (fst r), snd r)"
      using prev_slot_mir [OF R(1) less_imp_le [OF j(1)] B(2)] unfolding j(2) [symmetric] .
    then show ?thesis unfolding p using it_moved_back [OF T(1,2) R(2)] T(3) by simp
  qed
qed

lemma dbit_obj_last_repr:
  assumes "db_repr db A M"
  shows "\<exists>n it'. dbit_obj_last db it = Inr (n, it') \<and> it_moved db A M n it' \<and> (n = 0 \<longleftrightarrow> M = Map.empty)"
proof -
  obtain T where T: "db_inv T db" "contents T db M" "A = nodes_of T" using assms(1) by (auto simp: db_repr_def)
  have B: "\<forall>j < HASH_SIZE. bucket_ok db j (T j)" "length (d_ht db) = HASH_SIZE" using T(1) by (simp_all add: db_inv_def db_core_def)
  note Tr = trees_ok_mdb [OF buckets_trees [OF B(1)] B(2)]
  let ?es = "entries_from (mtrees T) (mdb db) 0"
  obtain r where R: "next_slot (mdb db) 0 0 = Inr r" "it_result (mtrees T) (mdb db) ?es r" using next_slot_first [OF Tr, of 0] by auto
  have "?es = [] \<longleftrightarrow> (\<forall>j < HASH_SIZE. entries T db (HASH_SIZE - 1 - j) = [])" by (auto simp: entries_from_def entries_mirror)
  also have "... \<longleftrightarrow> (\<forall>j < HASH_SIZE. entries T db j = [])"
  proof (intro iffI allI impI)
    fix j assume "\<forall>j < HASH_SIZE. entries T db (HASH_SIZE - 1 - j) = []" "j < HASH_SIZE"
    from this(1) [rule_format, of "HASH_SIZE - 1 - j"] this(2) show "entries T db j = []" by simp
  qed simp
  also have "... \<longleftrightarrow> live T db = {}" by (auto simp: live_def entries_def filter_empty_conv)
  finally have es: "?es = [] \<longleftrightarrow> M = Map.empty" using contents_empty [OF T(2)] by simp
  have "snd r = 0 \<longleftrightarrow> ?es = []"
  proof (cases ?es)
    case Nil
    then show ?thesis using R(2) by (simp add: it_result_def)
  next
    case (Cons a zs)
    then obtain i where "i < HASH_SIZE" "a \<in> set (entries (mtrees T) (mdb db) i)" "snd r = a"
      using R(2) by (fastforce simp: it_result_def it_at_def)
    then have "a \<noteq> 0" using trees_nonzero [OF Tr] by (simp add: entries_def)
    then show ?thesis using \<open>snd r = a\<close> Cons by simp
  qed
  moreover have "dbit_obj_last db it = Inr (snd r, \<lparr>it_index = int HASH_SIZE - 1 - int (fst r), it_node = snd r\<rparr>)"
    using prev_slot_mir [OF R(1) _ B(2)] by (simp add: dbit_obj_last_def dbit_obj_prev_def)
  ultimately show ?thesis using it_moved_back [OF T(1,2) R(2)] T(3) es by simp
qed

lemma iter_deleted:
  assumes "db_repr db A M" "a \<in> A"
  shows "n_deleted (d_nodes db a) \<longleftrightarrow> M (node_val db a) = None"
proof -
  obtain T where T: "db_inv T db" "contents T db M" "A = nodes_of T" using assms(1) by (auto simp: db_repr_def)
  have core: "db_core T (d_free_list db) db" using T(1) by (simp add: db_inv_def)
  show ?thesis
  proof
    assume d: "n_deleted (d_nodes db a)"
    show "M (node_val db a) = None"
    proof (rule ccontr)
      assume "M (node_val db a) \<noteq> None"
      then obtain b where "b \<in> live T db" "node_val db b = node_val db a" using T(2) by (auto simp: contents_def)
      then show False using live_inj [OF core, of b a] assms(2) T(3) d by (auto simp: live_nodes)
    qed
  next
    assume "M (node_val db a) = None"
    then show "n_deleted (d_nodes db a)" using contents_entry [OF core T(2), of a] assms(2) T(3) by (auto simp: live_nodes)
  qed
qed

lemma dbit_obj_exists_repr:
  "db_repr db A M \<Longrightarrow> iter_at db A it c \<Longrightarrow> dbit_obj_exists db it = (case c of None \<Rightarrow> False | Some v \<Rightarrow> M v \<noteq> None)"
  by (cases c) (auto simp: iter_at_def dbit_obj_exists_def iter_deleted)

section \<open>Removing, locking and unlocking\<close>

lemma dbit_obj_remove_repr:
  assumes "db_repr db A M" "iter_at db A it (Some v)" "0 < d_free_lock db" "d_free_lock db < UINT_MAX" "int (length (d_free_list db)) < UINT_MAX"
  shows "\<exists>db'. dbit_obj_remove db it = Inr (if M v = None then 0 else 1, M v, db') \<and> db_repr db' A (M(v := None)) \<and> db_frame db A db' A"
proof -
  obtain T where T: "db_inv T db" "contents T db M" "A = nodes_of T" using assms(1) by (auto simp: db_repr_def)
  have core: "db_core T (d_free_list db) db" using T(1) by (simp add: db_inv_def)
  let ?a = "it_node it" and ?i = "nat (it_index it)"
  have a: "?a \<noteq> 0" "?a \<in> A" "node_val db ?a = v" "?i = hash_of db (n_key (d_nodes db ?a))"
    using assms(2) by (simp_all add: iter_at_def)
  obtain i where "i < HASH_SIZE" "?a \<in> set (addrs (T i))" using a(2) T(3) by (auto simp: nodes_of_def)
  then have i: "?i < HASH_SIZE" "?a \<in> set (addrs (T ?i))" using core a(4) by (simp_all add: db_core_def bucket_ok_def)
  show ?thesis
  proof (cases "n_deleted (d_nodes db ?a)")
    case True
    then have n: "M v = None" using iter_deleted [OF assms(1) a(2)] a(3) by simp
    then have "M(v := None) = M" by auto
    moreover have "dbit_obj_remove db it = Inr (0, None, db)" using True by (simp add: dbit_obj_remove_def)
    ultimately show ?thesis using n assms(1) frame_refl by (intro exI [of _ db]) simp
  next
    case False
    let ?n = "d_nodes db ?a"
    let ?db2 = "release (n_key ?n) (n_data ?n) DB_RELEASE_DATA (if d_cache db = ?a then db\<lparr>d_cache := 0\<rparr> else db)"
    have l: "int (length (d_free_list db)) \<le> d_free_max db" "d_free_max db \<le> UINT_MAX" using T(1) by (simp_all add: db_inv_def)
    obtain db3 where R: "db_free_add ?a ?i ?db2 = Inr db3" "db_core T (d_free_list db3) db3" "contents T db3 (M(v := None))" "same_config db db3"
      "d_free_lock db3 = d_free_lock db" "length (d_free_list db3) = length (d_free_list db) + 1"
      "int (length (d_free_list db3)) \<le> d_free_max db3" "d_free_max db3 \<le> UINT_MAX" "node_val db3 = node_val db"
      using remove_node_ok [OF core T(2) i False assms(4,5) l] unfolding a(3) by blast
    have "db_inv T db3" using R(2,5,7,8) assms(3,4) by (simp add: db_inv_def)
    then have "db_repr db3 A (M(v := None))" using R(3) T(3) by (auto simp: db_repr_def)
    moreover have "db_frame db A db3 A" using R(4-6,9) by (simp add: db_frame_def)
    moreover have "M v = Some (n_data ?n)"
      using contents_entry [OF core T(2), of ?a] a(2,3) False T(3) by (simp add: live_nodes)
    moreover have "dbit_obj_remove db it = Inr (1, Some (n_data ?n), db3)"
      using a(1) False R(1) by (simp add: dbit_obj_remove_def Let_def)
    ultimately show ?thesis by auto
  qed
qed

lemma db_free_lock_repr:
  assumes "db_repr db A M" "d_free_lock db < UINT_MAX"
  shows "db_free_lock db = Inr (db\<lparr>d_free_lock := d_free_lock db + 1\<rparr>) \<and> db_repr (db\<lparr>d_free_lock := d_free_lock db + 1\<rparr>) A M"
proof -
  obtain T where T: "db_inv T db" "contents T db M" "A = nodes_of T" using assms(1) by (auto simp: db_repr_def)
  note L = db_free_lock_ok [OF T(1) assms(2)]
  have "db_inv T (db\<lparr>d_free_lock := d_free_lock db + 1\<rparr>)" using L(2,4-7) by (simp add: db_inv_def)
  moreover have "contents T (db\<lparr>d_free_lock := d_free_lock db + 1\<rparr>) M" using contents_cong [OF T(2)] by simp
  ultimately show ?thesis using L(1) T(3) by (auto simp: db_repr_def)
qed

lemma db_free_unlock_repr:
  assumes "db_repr db A M" "0 < d_free_lock db"
  shows "\<exists>db' B. db_free_unlock db = Inr db' \<and> db_repr db' B M \<and> same_entries db db' \<and> d_free_lock db' = d_free_lock db - 1
    \<and> (d_free_lock db' \<noteq> 0 \<longrightarrow> B = A) \<and> length (d_free_list db') \<le> length (d_free_list db)"
proof -
  obtain T where T: "db_inv T db" "contents T db M" "A = nodes_of T" using assms(1) by (auto simp: db_repr_def)
  have "db_core T (d_free_list db) db" "d_free_lock db \<le> UINT_MAX" "int (length (d_free_list db)) \<le> d_free_max db" "d_free_max db \<le> UINT_MAX"
    using T(1) by (simp_all add: db_inv_def)
  from unlock_repr [OF this(1) assms(2) this(2-4) T(2)] show ?thesis using T(3) by blast
qed

section \<open>The simulation\<close>

text \<open>After \<open>n\<close> calls on a database that was opened as \<open>db0\<close>.\<close>

definition db_rel :: "dbmap \<Rightarrow> nat \<Rightarrow> dbw \<Rightarrow> dbs \<Rightarrow> bool" where
  "db_rel db0 n w s \<longleftrightarrow> (\<exists>A. db_repr (w_db w) A (s_map s) \<and> iters_at (w_db w) A (w_iters w) (s_iters s))
     \<and> same_config db0 (w_db w) \<and> d_free_lock (w_db w) = opened (w_iters w) \<and> length (w_iters w) \<le> n
     \<and> length (d_free_list (w_db w)) \<le> n \<and> card (dom (s_map s)) \<le> n"

lemma rel_iter_frame:
  assumes "db_repr db A M" "iters_at db A its cs" "d_free_lock db = opened its" "db_frame db A db' B" "db_repr db' B M'"
  shows "iters_at db' B its cs"
proof (rule iters_at_frame [OF assms(2,1,5)])
  show "same_config db db'" using assms(4) by (simp add: db_frame_def)
  show "A \<subseteq> B \<and> (\<forall>a \<in> A. node_val db' a = node_val db a)" if "\<exists>it. Some it \<in> set its"
    using that opened_bounds(3) assms(3,4) by (auto simp: db_frame_def)
qed

text \<open>A call that keeps the iterators where they are.\<close>

lemma rel_step:
  assumes "db_rel db0 n w s" "db_repr (w_db w) A (s_map s)" "iters_at (w_db w) A (w_iters w) (s_iters s)"
    and "db_repr db' B M'" "db_frame (w_db w) A db' B" "card (dom M') \<le> Suc n"
  shows "db_rel db0 (Suc n) (w\<lparr>w_db := db'\<rparr>) (s\<lparr>s_map := M'\<rparr>)"
proof -
  have "iters_at db' B (w_iters w) (s_iters s)"
    using rel_iter_frame [OF assms(2,3) _ assms(5,4)] assms(1) by (simp add: db_rel_def)
  then show ?thesis using assms(1,4-6) by (auto simp: db_rel_def db_frame_def same_config_def)
qed

lemma card_dom_upd: "card (dom (M(k := x))) \<le> Suc (card (dom M))"
proof (cases "finite (dom M)")
  case True
  then show ?thesis using card_insert_le_m1 [of "Suc (card (dom M))" "dom M" k] card_Diff1_le [of "dom M" k]
    by (cases x) (auto simp: card_insert_if)
next
  case False
  then have "\<not> finite (dom (M(k := x)))" by (cases x) simp_all
  then show ?thesis by simp
qed

definition MAX_CALLS :: nat where
  "MAX_CALLS = 4294967290"

lemma rel_limits:
  assumes "db_rel db0 n w s" "n < MAX_CALLS" "\<not> d_global_lock db0"
  shows "d_free_lock (w_db w) + 1 < UINT_MAX" "d_free_lock (w_db w) < UINT_MAX" "int (length (d_free_list (w_db w))) < UINT_MAX"
    "d_item_count (w_db w) < UINT_MAX" "\<not> d_global_lock (w_db w)"
proof -
  obtain A where A: "db_repr (w_db w) A (s_map s)" using assms(1) by (auto simp: db_rel_def)
  have "d_free_lock (w_db w) \<le> int n" "d_item_count (w_db w) \<le> int n"
    using assms(1) opened_bounds(2) [of "w_iters w"] repr_size [OF A] by (simp_all add: db_rel_def)
  then show "d_free_lock (w_db w) + 1 < UINT_MAX" "d_free_lock (w_db w) < UINT_MAX" "int (length (d_free_list (w_db w))) < UINT_MAX"
    "d_item_count (w_db w) < UINT_MAX" "\<not> d_global_lock (w_db w)"
    using assms by (simp_all add: db_rel_def MAX_CALLS_def UINT_MAX_def same_config_def)
qed

abbreviation db_accepts :: "dbmap \<Rightarrow> db_op \<Rightarrow> db_ans \<Rightarrow> dbs \<Rightarrow> dbs option" where
  "db_accepts db0 \<equiv> db_spec (d_type db0) (d_maxlen db0)"

lemma map_step_sim:
  assumes "ers_ok ers" "\<not> d_global_lock db0" "db_rel db0 n w s" "db_op_ok db0 op" "n < MAX_CALLS"
    and "op = Put key data \<or> op = Get key \<or> op = Remove key \<or> op = Exists key \<or> op = Size_of"
  shows "\<exists>ans w' s'. db_step ers op w = Inr (ans, w') \<and> db_accepts db0 op ans s = Some s' \<and> db_rel db0 (Suc n) w' s'"
proof -
  let ?db = "w_db w" let ?v = "kval (d_type ?db) (d_maxlen ?db) key"
  obtain A where A: "db_repr ?db A (s_map s)" "iters_at ?db A (w_iters w) (s_iters s)" using assms(3) by (auto simp: db_rel_def)
  note L = rel_limits [OF assms(3,5,2)]
  have C: "d_type db0 = d_type ?db" "d_maxlen db0 = d_maxlen ?db" "d_options db0 = d_options ?db"
    using assms(3) by (simp_all add: db_rel_def same_config_def)
  have card: "card (dom (s_map s)) \<le> Suc n" "card (dom ((s_map s)(k := x))) \<le> Suc n" for k x
    using assms(3) card_dom_upd [of "s_map s" k x] by (simp_all add: db_rel_def)
  note S = rel_step [OF assms(3) A]
  have K: "op \<noteq> Size_of \<Longrightarrow> key_ok (d_type ?db) (d_maxlen ?db) key" using assms(4,6) C by (auto simp: db_op_ok_def)
  from assms(6) consider (put) "op = Put key data" | (get) "op = Get key" | (remove) "op = Remove key" | (exists) "op = Exists key" | (size) "op = Size_of"
    by blast
  then show ?thesis
  proof cases
    case put
    have "opt ?db DB_OPT_ALLOW_NULL_DATA \<or> data \<noteq> DB_DATA_PTR 0" using assms(4) put C by (simp add: db_op_ok_def opt_def)
    from db_obj_put_repr [OF A(1) K L(2,5) this L(4), of "ers ?db"] ers_fresh [OF assms(1) A(1)] put
    obtain db' B where "db_obj_put (ers ?db) key data ?db = Inr (if s_map s ?v = None then 0 else 1, s_map s ?v, db')"
      "db_repr db' B ((s_map s)(?v \<mapsto> data))" "db_frame ?db A db' B"
      by auto
    with S [OF this(2,3) card(2)] show ?thesis using put C by (simp add: provided_def Let_def)
  next
    case get
    from db_obj_get_repr [OF A(1) K L(2)] get obtain a db' B where "db_obj_get key ?db = Inr (a, db')" "db_repr db' B (s_map s)"
      "db_frame ?db A db' B" "s_map s ?v = (if a = 0 then None else Some (n_data (d_nodes db' a)))"
      by auto
    then show ?thesis using S [of db' B "s_map s"] card get C by (simp add: provided_def)
  next
    case remove
    from db_obj_remove_repr [OF A(1) K L(1,5,3)] remove
    obtain db' B where "db_obj_remove key ?db = Inr (if s_map s ?v = None then 0 else 1, s_map s ?v, db')"
      "db_repr db' B ((s_map s)(?v := None))" "db_frame ?db A db' B"
      by auto
    with S [OF this(2,3) card(2)] show ?thesis using remove C by (simp add: provided_def Let_def)
  next
    case exists
    from db_obj_get_repr [OF A(1) K L(2)] exists obtain a db' B where G: "db_obj_get key ?db = Inr (a, db')" "db_repr db' B (s_map s)"
      "db_frame ?db A db' B" "s_map s ?v = (if a = 0 then None else Some (n_data (d_nodes db' a)))"
      by auto
    then have "db_obj_exists key ?db = Inr (s_map s ?v \<noteq> None, db')" by (simp add: db_obj_exists_get)
    then show ?thesis using S [of db' B "s_map s"] G card exists C by (simp add: provided_def)
  next
    case size
    from db_obj_size_repr [OF A(1) L(2)] obtain db' B where "db_obj_size ?db = Inr (int (card (dom (s_map s))), db')"
      "db_repr db' B (s_map s)" "db_frame ?db A db' B"
      by blast
    then show ?thesis using S [of db' B "s_map s"] card size by (simp add: provided_def)
  qed
qed

text \<open>Iterators.\<close>

lemma iters_at_nth:
  assumes "iters_at db A its cs" "j < length its" "its ! j = Some it"
  shows "j < length cs \<and> (\<exists>c. cs ! j = Some c \<and> iter_at db A it c)"
proof -
  have "length its = length cs" "rel_option (iter_at db A) (its ! j) (cs ! j)"
    using assms list_all2_lengthD list_all2_nthD unfolding iters_at_def by blast+
  then show ?thesis using assms(2,3) by (cases "cs ! j") auto
qed

lemma iters_at_update:
  "iters_at db A its cs \<Longrightarrow> rel_option (iter_at db A) x y \<Longrightarrow> iters_at db A (its[j := x]) (cs[j := y])"
  by (simp add: iters_at_def list_all2_update_cong)

lemma moved_step:
  assumes "db_rel db0 n w s" "db_repr (w_db w) A (s_map s)" "iters_at (w_db w) A (w_iters w) (s_iters s)"
    and "it_moved (w_db w) A (s_map s) k it" "j < length (w_iters w)" "w_iters w ! j = Some it0"
  shows "\<exists>ans w' s'. it_answer j w (k, it) = (ans, w') \<and> goto_entry (d_type db0) (d_maxlen db0) j ans s = Some s'
    \<and> db_rel db0 (Suc n) w' s' \<and> (ans = Ans_entry None \<longleftrightarrow> k = 0) \<and> (\<exists>e. ans = Ans_entry e)"
proof -
  have C: "d_type db0 = d_type (w_db w)" "d_maxlen db0 = d_maxlen (w_db w)" using assms(1) by (simp_all add: db_rel_def same_config_def)
  let ?c = "if k = 0 then None else Some (node_val (w_db w) k)"
  have "iters_at (w_db w) A ((w_iters w)[j := Some it]) ((s_iters s)[j := Some ?c])"
    using assms(4) by (intro iters_at_update [OF assms(3)]) (simp add: it_moved_def)
  then have "db_rel db0 (Suc n) (w\<lparr>w_iters := (w_iters w)[j := Some it]\<rparr>) (s\<lparr>s_iters := (s_iters s)[j := Some ?c]\<rparr>)"
    using assms(1,2,5,6) by (auto simp: db_rel_def opened_update)
  then show ?thesis using assms(4) C by (auto simp: it_answer_def goto_entry_def it_moved_def provided_def node_val_def)
qed

lemma iter_step_sim:
  assumes "\<not> d_global_lock db0" "db_rel db0 n w s" "n < MAX_CALLS" "j < length (w_iters w)" "w_iters w ! j = Some it"
    and "op = First j \<or> op = Last j \<or> op = Next j \<or> op = Prev j \<or> op = It_exists j \<or> op = It_remove j \<or> op = Destroy j"
  shows "\<exists>ans w' s'. db_step ers op w = Inr (ans, w') \<and> db_accepts db0 op ans s = Some s' \<and> db_rel db0 (Suc n) w' s'"
proof -
  let ?db = "w_db w"
  obtain A where A: "db_repr ?db A (s_map s)" "iters_at ?db A (w_iters w) (s_iters s)" using assms(2) by (auto simp: db_rel_def)
  note L = rel_limits [OF assms(2,3,1)]
  obtain c where c: "j < length (s_iters s)" "s_iters s ! j = Some c" "iter_at ?db A it c" using iters_at_nth [OF A(2) assms(4,5)] by blast
  have wi: "with_iter j w f = f it" for f using assms(4,5) by (simp add: with_iter_def)
  have wc: "with_cursor j ans s f = f c" for ans f using c by (simp add: with_cursor_def)
  have lk: "0 < d_free_lock ?db" "d_free_lock ?db = opened (w_iters w)"
    using opened_bounds(1) [of "w_iters w"] opened_bounds(3) [of it "w_iters w"] assms(2,4,5) nth_mem [OF assms(4)]
    by (simp_all add: db_rel_def)
  have rel: "db_rel db0 (Suc n) w s" using assms(2) by (auto simp: db_rel_def)
  from assms(6) consider (first) "op = First j" | (last) "op = Last j" | (nxt) "op = Next j" | (prev) "op = Prev j" | (exists) "op = It_exists j" | (remove) "op = It_remove j" | (destroy) "op = Destroy j"
    by blast
  then show ?thesis
  proof cases
    case first
    obtain k it' where N: "dbit_obj_first ?db it = Inr (k, it')" "it_moved ?db A (s_map s) k it'" "k = 0 \<longleftrightarrow> s_map s = Map.empty"
      using dbit_obj_first_repr [OF A(1)] by blast
    from moved_step [OF assms(2) A N(2) assms(4,5)] show ?thesis using N(1,3) first by (auto simp: wi wc)
  next
    case last
    obtain k it' where N: "dbit_obj_last ?db it = Inr (k, it')" "it_moved ?db A (s_map s) k it'" "k = 0 \<longleftrightarrow> s_map s = Map.empty"
      using dbit_obj_last_repr [OF A(1)] by blast
    from moved_step [OF assms(2) A N(2) assms(4,5)] show ?thesis using N(1,3) last by (auto simp: wi wc)
  next
    case nxt
    obtain k it' where N: "dbit_obj_next ?db it = Inr (k, it')" "it_moved ?db A (s_map s) k it'"
      using dbit_obj_next_repr [OF A(1) c(3)] by blast
    from moved_step [OF assms(2) A N(2) assms(4,5)] show ?thesis using N(1) nxt by (auto simp: wi wc)
  next
    case prev
    obtain k it' where N: "dbit_obj_prev ?db it = Inr (k, it')" "it_moved ?db A (s_map s) k it'"
      using dbit_obj_prev_repr [OF A(1) c(3)] by blast
    from moved_step [OF assms(2) A N(2) assms(4,5)] show ?thesis using N(1) prev by (auto simp: wi wc)
  next
    case exists
    then show ?thesis using dbit_obj_exists_repr [OF A(1) c(3)] rel by (simp add: wi wc provided_def)
  next
    case remove
    show ?thesis
    proof (cases c)
      case None
      then have "dbit_obj_remove ?db it = Inr (0, None, ?db)" using c(3) by (simp add: iter_at_def dbit_obj_remove_def)
      then show ?thesis using remove None rel by (simp add: wi wc provided_def)
    next
      case (Some v)
      obtain db' where R: "dbit_obj_remove ?db it = Inr (if s_map s v = None then 0 else 1, s_map s v, db')"
        "db_repr db' A ((s_map s)(v := None))" "db_frame ?db A db' A"
        using dbit_obj_remove_repr [OF A(1) c(3) [unfolded Some] lk(1) L(2,3)] by blast
      have "card (dom ((s_map s)(v := None))) \<le> Suc n" using assms(2) card_dom_upd [of "s_map s" v None] by (simp add: db_rel_def)
      from rel_step [OF assms(2) A R(2,3) this] show ?thesis using remove Some R(1) by (auto simp: wi wc provided_def)
    qed
  next
    case destroy
    obtain db' B where U: "db_free_unlock ?db = Inr db'" "db_repr db' B (s_map s)" "same_entries ?db db'"
      "d_free_lock db' = d_free_lock ?db - 1" "d_free_lock db' \<noteq> 0 \<longrightarrow> B = A" "length (d_free_list db') \<le> length (d_free_list ?db)"
      using db_free_unlock_repr [OF A(1) lk(1)] by blast
    let ?its = "(w_iters w)[j := None]"
    have op: "d_free_lock db' = opened ?its" using U(4) lk(2) assms(4,5) by (simp add: opened_update)
    have conf: "same_config ?db db'" using U(3) by (simp add: same_config_def same_entries_def)
    have "iters_at ?db A ?its ((s_iters s)[j := None])" by (rule iters_at_update [OF A(2)]) simp
    then have "iters_at db' B ?its ((s_iters s)[j := None])"
    proof (rule iters_at_frame [OF _ A(1) U(2) conf])
      assume "\<exists>it. Some it \<in> set ?its"
      then have "B = A" using opened_bounds(3) U(5) op by auto
      then show "A \<subseteq> B \<and> (\<forall>a \<in> A. node_val db' a = node_val ?db a)" using U(3) by (simp add: same_entries_def node_val_def)
    qed
    then have "db_rel db0 (Suc n) \<lparr>w_db = db', w_iters = ?its\<rparr> (s\<lparr>s_iters := (s_iters s)[j := None]\<rparr>)"
      using U(2,6) op conf assms(2) by (auto simp: db_rel_def same_config_def)
    then show ?thesis using U(1) destroy by (simp add: wi wc provided_def dbit_obj_destroy_def)
  qed
qed

text \<open>One call of a program.\<close>

lemma db_step_sim:
  assumes "ers_ok ers" "\<not> d_global_lock db0" "db_rel db0 n w s" "db_op_ok db0 op" "n < MAX_CALLS"
  shows "\<exists>ans w' s'. db_step ers op w = Inr (ans, w') \<and> db_accepts db0 op ans s = Some s' \<and> db_rel db0 (Suc n) w' s'"
proof -
  let ?db = "w_db w"
  obtain A where A: "db_repr ?db A (s_map s)" "iters_at ?db A (w_iters w) (s_iters s)" using assms(3) by (auto simp: db_rel_def)
  consider (map) key data where "op = Put key data \<or> op = Get key \<or> op = Remove key \<or> op = Exists key \<or> op = Size_of"
    | (create) "op = Iterator"
    | (iter) j where "op = First j \<or> op = Last j \<or> op = Next j \<or> op = Prev j \<or> op = It_exists j \<or> op = It_remove j \<or> op = Destroy j"
    by (cases op) auto
  then show ?thesis
  proof cases
    case map
    then show ?thesis by (rule map_step_sim [OF assms])
  next
    case create
    let ?db' = "?db\<lparr>d_free_lock := d_free_lock ?db + 1\<rparr>" and ?it = "\<lparr>it_index = - 1, it_node = 0\<rparr>"
    have L: "db_free_lock ?db = Inr ?db'" "db_repr ?db' A (s_map s)"
      using db_free_lock_repr [OF A(1) rel_limits(2) [OF assms(3,5,2)]] by simp_all
    have "iters_at ?db' A (w_iters w) (s_iters s)"
      using iters_at_frame [OF A(2,1) L(2)] by (simp add: same_config_def node_val_def)
    then have "iters_at ?db' A (w_iters w @ [Some ?it]) (s_iters s @ [Some None])"
      unfolding iters_at_def by (rule list_all2_appendI) (simp add: iter_at_def)
    then have "db_rel db0 (Suc n) \<lparr>w_db = ?db', w_iters = w_iters w @ [Some ?it]\<rparr> (s\<lparr>s_iters := s_iters s @ [Some None]\<rparr>)"
      using L(2) assms(3) by (auto simp: db_rel_def same_config_def)
    then show ?thesis using L(1) create by (simp add: db_obj_iterator_def provided_def)
  next
    case iter
    show ?thesis
    proof (cases "j < length (w_iters w) \<and> w_iters w ! j \<noteq> None")
      case True
      then obtain it where "w_iters w ! j = Some it" by blast
      then show ?thesis using iter_step_sim [OF assms(2,3,5) _ _ iter] True by blast
    next
      case False
      have len: "length (s_iters s) = length (w_iters w)" using A(2) list_all2_lengthD unfolding iters_at_def by metis
      have "s_iters s ! j = None" if "j < length (w_iters w)"
        using False that list_all2_nthD [OF A(2) [unfolded iters_at_def] that] by simp
      then have "with_iter j w f = Inr (Ans_none, w)" "with_cursor j Ans_none s g = Some s" for f g
        using False len by (auto simp: with_iter_def with_cursor_def provided_def)
      moreover have "db_rel db0 (Suc n) w s" using assms(3) by (auto simp: db_rel_def)
      ultimately show ?thesis using iter by (auto intro!: exI [of _ Ans_none])
    qed
  qed
qed

interpretation db_calls: answers_as "db_step ers" "db_accepts db0" "db_rel db0"
    "\<lambda>op. ers_ok ers \<and> \<not> d_global_lock db0 \<and> db_op_ok db0 op" MAX_CALLS for ers db0
  by unfold_locales (use db_step_sim in blast)

definition db_opened :: "dbmap \<Rightarrow> dbw" where
  "db_opened db = \<lparr>w_db = db, w_iters = []\<rparr>"

definition empty_spec :: dbs where
  "empty_spec = \<lparr>s_map = Map.empty, s_iters = []\<rparr>"

lemma db_rel_alloc: "db_rel (db_alloc h t options maxlen) 0 (db_opened (db_alloc h t options maxlen)) empty_spec"
proof -
  let ?db = "db_alloc h t options maxlen"
  have "d_free_lock ?db = 0" "d_free_list ?db = []" by (simp_all add: db_alloc_def Let_def)
  moreover have "iters_at ?db {} [] []" by (simp add: iters_at_def)
  ultimately show ?thesis using db_alloc_repr [of h t options maxlen]
    by (auto simp: db_rel_def db_opened_def empty_spec_def opened_def same_config_def)
qed

lemma db_alloc_unlocked: "\<not> d_global_lock (db_alloc h t options maxlen)"
  by (simp add: db_alloc_def Let_def)

end
