(* ===== verification/Dbwalk.thy ===== *)
theory Dbwalk
  imports Dbensure
begin

text \<open>
  The functions of common/db.cpp that go over a whole database: \<open>db_obj_vforeach\<close> and
  \<open>db_obj_vgetall\<close>, which walk each tree from the root down, and \<open>db_obj_vclear\<close> and
  \<open>db_obj_vdestroy\<close>, which take the trees apart from the leaves up. The functions passed to them are
  arguments that do not call the database; one that is given a pointer to the data returns
  its result and the new data.
\<close>

section \<open>Walking\<close>

text \<open>Up to the first ancestor that was entered from the left and has a right child.\<close>

partial_function (option) walk_up :: "('k, 'd) store \<Rightarrow> nat \<Rightarrow> nat option" where
  "walk_up h node =
     (if node = 0 then Some 0
      else let parent = n_parent (h node)
           in if parent \<noteq> 0 \<and> n_right (h parent) \<noteq> 0 \<and> n_left (h parent) = node then Some (n_right (h parent))
              else walk_up h parent)"

definition walk_next :: "('k, 'd) store \<Rightarrow> nat \<Rightarrow> nat option" where
  "walk_next h node =
     (if n_left (h node) \<noteq> 0 then Some (n_left (h node)) else if n_right (h node) \<noteq> 0 then Some (n_right (h node)) else walk_up h node)"

text \<open>The loop over one tree; \<open>visit\<close> is what is done at a node.\<close>

partial_function (option) walk_loop ::
    "(nat \<Rightarrow> 's \<times> ('k, 'd) store \<Rightarrow> 's \<times> ('k, 'd) store) \<Rightarrow> nat \<Rightarrow> 's \<times> ('k, 'd) store \<Rightarrow> ('s \<times> ('k, 'd) store) option" where
  "walk_loop visit node sh =
     (if node = 0 then Some sh
      else let sh = visit node sh
           in (case walk_next (snd sh) node of None \<Rightarrow> None | Some node \<Rightarrow> walk_loop visit node sh))"

fun walk_slots :: "(nat \<Rightarrow> 's \<times> ('k, 'd) store \<Rightarrow> 's \<times> ('k, 'd) store) \<Rightarrow> nat list \<Rightarrow> 's \<times> ('k, 'd) store \<Rightarrow> ('s \<times> ('k, 'd) store) option" where
  "walk_slots visit [] sh = Some sh"
| "walk_slots visit (root # roots) sh =
     (case walk_loop visit root sh of None \<Rightarrow> None | Some sh \<Rightarrow> walk_slots visit roots sh)"

text \<open>\<open>func\<close> is applied to an entry that is not deleted.\<close>

definition foreach_visit :: "(DBKey \<Rightarrow> DBData \<Rightarrow> int \<times> DBData) \<Rightarrow> nat \<Rightarrow> int \<times> (DBKey, DBData) store \<Rightarrow> int \<times> (DBKey, DBData) store" where
  "foreach_visit func node sh = (case sh of (res, h) \<Rightarrow>
     if n_deleted (h node) then (res, h)
     else case func (n_key (h node)) (n_data (h node)) of (r, data) \<Rightarrow> (s32 (res + r), h(node := (h node)\<lparr>n_data := data\<rparr>)))"

definition db_obj_vforeach :: "(DBKey \<Rightarrow> DBData \<Rightarrow> int \<times> DBData) option \<Rightarrow> dbmap \<Rightarrow> (int \<times> dbmap) dbres" where
  "db_obj_vforeach func db = (case func of None \<Rightarrow> Inr (0, db) | Some func \<Rightarrow>
     dbind (db_free_lock db) (\<lambda>db.
       dbind (looping (walk_slots (foreach_visit func) (d_ht db) (0, d_nodes db))) (\<lambda>(res, h).
         dbind (db_free_unlock (db\<lparr>d_nodes := h\<rparr>)) (\<lambda>db. Inr (res, db)))))"

text \<open>The matches are counted in an unsigned int, the first \<open>max\<close> ones go into the buffer if there is one.\<close>

definition getall_visit :: "(DBKey \<Rightarrow> DBData \<Rightarrow> int) \<Rightarrow> bool \<Rightarrow> int \<Rightarrow> nat
    \<Rightarrow> (int \<times> nat list) \<times> (DBKey, DBData) store \<Rightarrow> (int \<times> nat list) \<times> (DBKey, DBData) store" where
  "getall_visit match buf limit node sh = (case sh of ((ret, out), h) \<Rightarrow>
     if \<not> n_deleted (h node) \<and> match (n_key (h node)) (n_data (h node)) = 0
     then ((u32 (ret + 1), if buf \<and> ret < limit then out @ [node] else out), h)
     else ((ret, out), h))"

definition db_obj_vgetall :: "bool \<Rightarrow> int \<Rightarrow> (DBKey \<Rightarrow> DBData \<Rightarrow> int) option \<Rightarrow> dbmap \<Rightarrow> (int \<times> nat list \<times> dbmap) dbres" where
  "db_obj_vgetall buf limit match db = (case match of None \<Rightarrow> Inr (0, [], db) | Some match \<Rightarrow>
     dbind (db_free_lock db) (\<lambda>db.
       dbind (looping (walk_slots (getall_visit match buf limit) (d_ht db) ((0, []), d_nodes db))) (\<lambda>((ret, out), h).
         dbind (db_free_unlock db) (\<lambda>db. Inr (ret, out, db)))))"

section \<open>Clearing\<close>

text \<open>The link of the parent to a node.\<close>

definition cut :: "nat \<Rightarrow> nat \<Rightarrow> ('k, 'd) store \<Rightarrow> ('k, 'd) store" where
  "cut node parent h = (if parent \<noteq> 0 then if n_left (h parent) = node then set_left parent 0 h else set_right parent 0 h else h)"

definition clear_node :: "(DBKey \<Rightarrow> DBData \<Rightarrow> int \<times> DBData) option \<Rightarrow> nat \<Rightarrow> int \<times> dbmap \<Rightarrow> int \<times> dbmap" where
  "clear_node func node sd = (case sd of (res, db) \<Rightarrow>
     let n = d_nodes db node;
         (res, db) = (if n_deleted n then (res, db_dup_key_free (n_key n) db)
           else let (res, db) = (case func of None \<Rightarrow> (res, db)
                     | Some func \<Rightarrow> (case func (n_key n) (n_data n) of (r, data) \<Rightarrow> (s32 (res + r), set_data node data db)))
                in (res, set_deleted node True (release (n_key n) (n_data (d_nodes db node)) DB_RELEASE_BOTH db)));
         db = db\<lparr>d_nodes := cut node (n_parent n) (d_nodes db)\<rparr>
     in (res, db\<lparr>d_freed := d_freed db @ [Freed_node node]\<rparr>))"

partial_function (option) clear_loop ::
    "(DBKey \<Rightarrow> DBData \<Rightarrow> int \<times> DBData) option \<Rightarrow> nat \<Rightarrow> int \<times> dbmap \<Rightarrow> (int \<times> dbmap) option" where
  "clear_loop func node sd =
     (if node = 0 then Some sd
      else let n = d_nodes (snd sd) node
           in if n_left n \<noteq> 0 then clear_loop func (n_left n) sd
              else if n_right n \<noteq> 0 then clear_loop func (n_right n) sd
              else clear_loop func (n_parent n) (clear_node func node sd))"

function clear_slots :: "(DBKey \<Rightarrow> DBData \<Rightarrow> int \<times> DBData) option \<Rightarrow> nat \<Rightarrow> int \<times> dbmap \<Rightarrow> (int \<times> dbmap) option" where
  "clear_slots func i sd =
     (if i < HASH_SIZE then
        let (res, db) = sd; node = d_ht db ! i
        in (case clear_loop func node (res, db\<lparr>d_ht := (d_ht db)[i := 0]\<rparr>) of None \<Rightarrow> None
            | Some (res, db) \<Rightarrow> clear_slots func (i + 1) (res, db\<lparr>d_ht := (d_ht db)[i := 0]\<rparr>))
      else Some sd)"
  by auto
termination by (relation "measure (\<lambda>(func, i, sd). HASH_SIZE - i)") auto

declare clear_slots.simps [simp del]

definition db_obj_vclear :: "(DBKey \<Rightarrow> DBData \<Rightarrow> int \<times> DBData) option \<Rightarrow> dbmap \<Rightarrow> (int \<times> dbmap) dbres" where
  "db_obj_vclear func db =
     dbind (db_free_lock db) (\<lambda>db.
       dbind (looping (clear_slots func 0 (0, db\<lparr>d_cache := 0\<rparr>))) (\<lambda>(res, db).
         dbind (db_free_unlock (db\<lparr>d_free_list := [], d_item_count := 0\<rparr>)) (\<lambda>db. Inr (res, db))))"

text \<open>The database itself, which is freed at the end, is returned as it was before.\<close>

definition db_obj_vdestroy :: "(DBKey \<Rightarrow> DBData \<Rightarrow> int \<times> DBData) option \<Rightarrow> dbmap \<Rightarrow> (int \<times> dbmap) dbres" where
  "db_obj_vdestroy func db =
     (if d_global_lock db then Inr (0, db)
      else dbind (db_free_lock db) (\<lambda>db.
        dbind (db_obj_vclear func (db\<lparr>d_global_lock := True\<rparr>)) (\<lambda>(res, db).
          dbind (db_free_unlock (db\<lparr>d_free_list := [], d_free_max := 0\<rparr>)) (\<lambda>db. Inr (res, db)))))"

section \<open>What a walk visits\<close>

fun preorder :: "ct \<Rightarrow> nat list" where
  "preorder Lf = []"
| "preorder (Nd c l a r) = a # preorder l @ preorder r"

lemma set_preorder: "mset (preorder t) = mset (addrs t)"
  by (induction t) simp_all

text \<open>A function that keeps the links of the store.\<close>

definition keeps_links :: "(nat \<Rightarrow> 's \<times> ('k, 'd) store \<Rightarrow> 's \<times> ('k, 'd) store) \<Rightarrow> bool" where
  "keeps_links visit \<longleftrightarrow> (\<forall>a s h. same_links h (snd (visit a (s, h))))"

lemma same_links_trans: "same_links h h' \<Longrightarrow> same_links h' h'' \<Longrightarrow> same_links h h''"
  by (simp add: same_links_def)

lemma same_links_refl: "same_links h h"
  by (simp add: same_links_def)

lemma fold_links: "keeps_links visit \<Longrightarrow> same_links h (snd (fold visit xs (s, h)))"
proof (induction xs arbitrary: s h)
  case (Cons x xs)
  obtain s' h' where v: "visit x (s, h) = (s', h')" by (cases "visit x (s, h)")
  then have "same_links h h'" using Cons.prems unfolding keeps_links_def by (metis snd_conv)
  then show ?case using Cons.IH [OF Cons.prems, of h' s'] v same_links_trans by simp
qed (simp add: same_links_refl)

lemma walk_up_child:
  assumes "tree_at h p (Nd c l a r)" "distinct (addrs (Nd c l a r))"
  shows "l \<noteq> Lf \<Longrightarrow> walk_up h (taddr l) = (if r = Lf then walk_up h a else Some (taddr r))"
    "r \<noteq> Lf \<Longrightarrow> walk_up h (taddr r) = walk_up h a"
proof -
  have T: "tree_at h a l" "tree_at h a r" "n_left (h a) = taddr l" "n_right (h a) = taddr r" "a \<noteq> 0" using assms(1) by simp_all
  have z: "taddr r = 0 \<longleftrightarrow> r = Lf" "taddr l = 0 \<longleftrightarrow> l = Lf" using taddr_eq_0 [OF T(1)] taddr_eq_0 [OF T(2)] by simp_all
  show "walk_up h (taddr l) = (if r = Lf then walk_up h a else Some (taddr r))" if "l \<noteq> Lf"
  proof -
    have "n_parent (h (taddr l)) = a" using T(1) that by (cases l) simp_all
    then show ?thesis using T(3-5) z that by (subst walk_up.simps) simp
  qed
  show "walk_up h (taddr r) = walk_up h a" if r: "r \<noteq> Lf"
  proof -
    have "n_parent (h (taddr r)) = a" using T(2) r by (cases r) simp_all
    moreover have "taddr l \<noteq> taddr r" using assms(2) taddr_in [OF r] taddr_in [of l] z r by (cases "l = Lf") auto
    ultimately show ?thesis using T(3-5) z r by (subst walk_up.simps) simp
  qed
qed

lemma walk_up_cong:
  assumes "walk_up h' a = Some b"
  shows "same_links h h' \<longrightarrow> walk_up h a = Some b"
proof (rule walk_up.raw_induct [OF _ assms, where P = "\<lambda>h' a b. same_links h h' \<longrightarrow> walk_up h a = Some b"], intro impI)
  fix walk h' a b
  assume I: "\<And>h' a b. walk h' a = Some b \<Longrightarrow> same_links h h' \<longrightarrow> walk_up h a = Some b" and l: "same_links h h'"
    and w: "(if a = 0 then Some 0 else let parent = n_parent (h' a)
      in if parent \<noteq> 0 \<and> n_right (h' parent) \<noteq> 0 \<and> n_left (h' parent) = a then Some (n_right (h' parent)) else walk h' parent) = Some b"
  have e: "n_parent (h' x) = n_parent (h x)" "n_right (h' x) = n_right (h x)" "n_left (h' x) = n_left (h x)" for x
    using l by (simp_all add: same_links_def)
  show "walk_up h a = Some b"
    using w I [of h' "n_parent (h a)" b] l unfolding e by (subst walk_up.simps) (auto simp: Let_def split: if_splits)
qed

text \<open>The loop does a subtree in this order and goes on where \<open>walk_up\<close> leads from its root.\<close>

lemma walk_loop_subtree:
  assumes "keeps_links visit" "tree_at h p t" "distinct (addrs t)" "t \<noteq> Lf" "same_links h (snd sh)" "walk_up h (taddr t) = Some b"
  shows "walk_loop visit (taddr t) sh = walk_loop visit b (fold visit (preorder t) sh)"
  using assms(2-)
proof (induction t arbitrary: p sh b)
  case (Nd c l a r)
  have T: "tree_at h a l" "tree_at h a r" "n_left (h a) = taddr l" "n_right (h a) = taddr r" "a \<noteq> 0"
    and D: "distinct (addrs l)" "distinct (addrs r)" using Nd.prems(1,2) by simp_all
  have z: "taddr r = 0 \<longleftrightarrow> r = Lf" "taddr l = 0 \<longleftrightarrow> l = Lf" using taddr_eq_0 [OF T(1)] taddr_eq_0 [OF T(2)] by simp_all
  note U = walk_up_child [OF Nd.prems(1,2)]
  have up: "walk_up h a = Some b" using Nd.prems(5) by simp
  have links: "same_links h (snd (fold visit xs sh'))" if "same_links h (snd sh')" for xs sh'
    using fold_links [OF assms(1), of "snd sh'" xs "fst sh'"] that same_links_trans by auto
  let ?sh = "visit a sh"
  have sl: "same_links h (snd ?sh)" using links [OF Nd.prems(4), of "[a]"] by simp
  have n: "n_left (snd ?sh a) = taddr l" "n_right (snd ?sh a) = taddr r" using sl T by (simp_all add: same_links_def)
  have up': "walk_up (snd ?sh) a = Some b"
    using walk_up_cong [OF up, of "snd ?sh"] sl by (simp add: same_links_def)
  have right: "walk_loop visit (taddr r) sh' = walk_loop visit b (fold visit (preorder r) sh')"
    if "r \<noteq> Lf" "same_links h (snd sh')" for sh'
    using Nd.IH(2) [OF T(2) D(2) that] U(2) that up by simp
  show ?case
  proof (cases "l = Lf")
    case True
    show ?thesis
    proof (cases "r = Lf")
      case True
      then have "walk_next (snd ?sh) a = Some b" using \<open>l = Lf\<close> n up' by (simp add: walk_next_def)
      then show ?thesis using T(5) True \<open>l = Lf\<close> by (subst walk_loop.simps) (simp add: Let_def)
    next
      case False
      then have "walk_next (snd ?sh) a = Some (taddr r)" using \<open>l = Lf\<close> n z by (simp add: walk_next_def)
      then show ?thesis using T(5) \<open>l = Lf\<close> right [OF False sl] by (subst walk_loop.simps) (simp add: Let_def)
    qed
  next
    case False
    then have "walk_next (snd ?sh) a = Some (taddr l)" using n z by (simp add: walk_next_def)
    then have s: "walk_loop visit a sh = walk_loop visit (taddr l) ?sh" using T(5) by (subst walk_loop.simps) (simp add: Let_def)
    let ?sh2 = "fold visit (preorder l) ?sh"
    have sl2: "same_links h (snd ?sh2)" by (rule links [OF sl])
    show ?thesis
    proof (cases "r = Lf")
      case True
      then have "walk_loop visit (taddr l) ?sh = walk_loop visit b ?sh2"
        using Nd.IH(1) [OF T(1) D(1) False sl] U(1) [OF False] up by simp
      then show ?thesis using s True by simp
    next
      case r: False
      then have "walk_loop visit (taddr l) ?sh = walk_loop visit (taddr r) ?sh2"
        using Nd.IH(1) [OF T(1) D(1) False sl] U(1) [OF False] by simp
      then show ?thesis using s right [OF r sl2] by simp
    qed
  qed
qed simp

lemma walk_loop_tree:
  assumes "keeps_links visit" "owns (h, r) t" "same_links h (snd sh)"
  shows "walk_loop visit r sh = Some (fold visit (preorder t) sh)"
proof (cases t)
  case Lf
  then show ?thesis using assms(2) by (subst walk_loop.simps) (simp add: owns_def)
next
  case (Nd c l a u)
  have T: "tree_at h 0 t" "distinct (addrs t)" "r = taddr t" using assms(2) by (simp_all add: owns_def)
  then have "walk_up h (taddr t) = Some 0"
    using Nd by (subst walk_up.simps, subst walk_up.simps) simp
  from walk_loop_subtree [OF assms(1) T(1,2) _ assms(3) this] T(3) Nd show ?thesis
    by (simp, subst walk_loop.simps) simp
qed

lemma walk_slots_trees:
  assumes "keeps_links visit"
  shows "list_all2 (\<lambda>r t. owns (h, r) t) rs ts \<Longrightarrow> same_links h (snd sh) \<Longrightarrow>
    walk_slots visit rs sh = Some (fold visit (concat (map preorder ts)) sh)"
proof (induction rs ts arbitrary: sh rule: list_all2_induct)
  case (Cons r rs t ts)
  have "same_links h (snd (fold visit (preorder t) sh))"
    using fold_links [OF assms, of "snd sh" "preorder t" "fst sh"] Cons.prems same_links_trans by auto
  then show ?case using walk_loop_tree [OF assms Cons.hyps(1) Cons.prems] Cons.IH by simp
qed simp

section \<open>\<open>db_obj_vforeach\<close> and \<open>db_obj_vgetall\<close>\<close>

text \<open>The nodes in the order of the walk.\<close>

definition walked :: "(nat \<Rightarrow> ct) \<Rightarrow> nat list" where
  "walked T = concat (map (\<lambda>i. preorder (T i)) [0..<HASH_SIZE])"

lemma mset_walked: "mset (walked T) = mset (concat (map (\<lambda>i. addrs (T i)) [0..<HASH_SIZE]))"
  by (simp add: walked_def mset_concat set_preorder comp_def)

lemma set_walked: "set (walked T) = nodes_of T"
  using arg_cong [OF mset_walked, of set_mset] by (auto simp: nodes_of_def)

lemma walked_distinct:
  assumes "\<forall>i < HASH_SIZE. bucket_ok db i (T i)"
  shows "distinct (walked T)"
proof -
  have d: "distinct (addrs (T i))" if "i < HASH_SIZE" for i using assms that by (simp add: bucket_ok_def owns_def)
  have inj: "i = j" if "a \<in> set (addrs (T i))" "a \<in> set (addrs (T j))" "i < HASH_SIZE" "j < HASH_SIZE" for a i j
    using node_in_one [OF assms [rule_format, OF that(3)] assms [rule_format, OF that(4)] that(1,2)] .
  have "distinct (concat (map (\<lambda>i. addrs (T i)) [0..<n]))" if "n \<le> HASH_SIZE" for n
    using that
  proof (induction n)
    case (Suc n)
    have "a \<notin> set (addrs (T n))" if "i < n" "a \<in> set (addrs (T i))" for a i
      using inj [OF that(2), of n] that(1) Suc.prems by auto
    then have "set (concat (map (\<lambda>i. addrs (T i)) [0..<n])) \<inter> set (addrs (T n)) = {}" by auto
    then show ?case using Suc d [of n] by simp
  qed simp
  then show ?thesis using mset_eq_imp_distinct_iff [OF mset_walked [of T]] by simp
qed

lemma walk_db:
  assumes "db_inv T db" "keeps_links visit"
  shows "walk_slots visit (d_ht db) (s, d_nodes db) = Some (fold visit (walked T) (s, d_nodes db))"
proof -
  have B: "length (d_ht db) = HASH_SIZE" "\<forall>i < HASH_SIZE. bucket_ok db i (T i)" using assms(1) by (simp_all add: db_inv_def db_core_def)
  have "list_all2 (\<lambda>r t. owns (d_nodes db, r) t) (d_ht db) (map T [0..<HASH_SIZE])"
    using B by (simp add: list_all2_conv_all_nth bucket_ok_def)
  from walk_slots_trees [OF assms(2) this, of "(s, d_nodes db)"] show ?thesis by (simp add: same_links_refl walked_def comp_def)
qed

lemma walked_live:
  assumes "db_inv T db" "contents T db M"
  defines "ns \<equiv> filter (\<lambda>a. \<not> n_deleted (d_nodes db a)) (walked T)"
  shows "distinct ns" "set ns = live T db" "bij_betw (node_val db) (set ns) (dom M)" "length ns = card (dom M)"
    and "\<forall>a \<in> set ns. M (node_val db a) = Some (n_data (d_nodes db a))"
proof -
  have core: "db_core T (d_free_list db) db" using assms(1) by (simp add: db_inv_def)
  show d: "distinct ns" using walked_distinct [of db T] core by (simp add: ns_def db_core_def)
  show s: "set ns = live T db" by (auto simp: ns_def set_walked live_nodes)
  have inj: "inj_on (node_val db) (live T db)" using live_inj [OF core] by (auto simp: inj_on_def live_nodes)
  have "node_val db ` live T db = dom M" using assms(2) by (auto simp: contents_def)
  then show b: "bij_betw (node_val db) (set ns) (dom M)" using inj s by (simp add: bij_betw_def)
  show "length ns = card (dom M)" using distinct_card [OF d] bij_betw_same_card [OF b] by simp
  show "\<forall>a \<in> set ns. M (node_val db a) = Some (n_data (d_nodes db a))" using contents_entry [OF core assms(2)] s by blast
qed

lemma fold_foreach:
  "distinct xs \<Longrightarrow> fold (foreach_visit func) xs (s, h) =
     (fold (\<lambda>a s. s32 (s + fst (func (n_key (h a)) (n_data (h a))))) (filter (\<lambda>a. \<not> n_deleted (h a)) xs) s,
      \<lambda>x. if x \<in> set xs \<and> \<not> n_deleted (h x) then (h x)\<lparr>n_data := snd (func (n_key (h x)) (n_data (h x)))\<rparr> else h x)"
proof (induction xs arbitrary: s h)
  case (Cons a xs)
  obtain r d where f: "func (n_key (h a)) (n_data (h a)) = (r, d)" by (cases "func (n_key (h a)) (n_data (h a))")
  have a: "a \<notin> set xs" and IH: "\<And>s h. fold (foreach_visit func) xs (s, h) =
     (fold (\<lambda>a s. s32 (s + fst (func (n_key (h a)) (n_data (h a))))) (filter (\<lambda>a. \<not> n_deleted (h a)) xs) s,
      \<lambda>x. if x \<in> set xs \<and> \<not> n_deleted (h x) then (h x)\<lparr>n_data := snd (func (n_key (h x)) (n_data (h x)))\<rparr> else h x)"
    using Cons by auto
  show ?case
  proof (cases "n_deleted (h a)")
    case True
    then have v: "foreach_visit func a (s, h) = (s, h)" by (simp add: foreach_visit_def)
    show ?thesis unfolding fold.simps o_apply v IH using True by (auto simp: fun_eq_iff)
  next
    case False
    let ?h = "h(a := (h a)\<lparr>n_data := d\<rparr>)"
    have v: "foreach_visit func a (s, h) = (s32 (s + r), ?h)" using False f by (simp add: foreach_visit_def)
    have c: "filter (\<lambda>a. \<not> n_deleted (?h a)) xs = filter (\<lambda>a. \<not> n_deleted (h a)) xs" using a by (intro filter_cong) auto
    have g: "fold (\<lambda>a s. s32 (s + fst (func (n_key (?h a)) (n_data (?h a))))) ys t = fold (\<lambda>a s. s32 (s + fst (func (n_key (h a)) (n_data (h a))))) ys t"
      if "set ys \<subseteq> set xs" for ys t using that a by (intro fold_cong) auto
    show ?thesis
      unfolding fold.simps o_apply v IH c using g [of "filter (\<lambda>a. \<not> n_deleted (h a)) xs"] a f False by (auto simp: fun_eq_iff)
  qed
qed simp

text \<open>New data for the entries.\<close>

lemma new_data_core:
  assumes "db_core T F db" "d_nodes db' = (\<lambda>x. if P x then (d_nodes db x)\<lparr>n_data := g x\<rparr> else d_nodes db x)" "d_ht db' = d_ht db"
    "d_type db' = d_type db" "d_maxlen db' = d_maxlen db" "d_item_count db' = d_item_count db" "d_cache db' = d_cache db"
  shows "db_core T F db'" "live T db' = live T db" "node_val db' = node_val db"
proof -
  have n: "n_deleted (d_nodes db' x) = n_deleted (d_nodes db x)" "n_key (d_nodes db' x) = n_key (d_nodes db x)" for x
    using assms(2) by simp_all
  show nv: "node_val db' = node_val db" using n assms(4,5) by (simp add: node_val_def fun_eq_iff)
  show l: "live T db' = live T db" using n by (simp add: live_def)
  have sl: "same_links (d_nodes db) (d_nodes db')" using assms(2) by (simp add: same_links_def)
  have "bucket_ok db' j (T j)" if "j < HASH_SIZE" for j
  proof (rule bucket_relabel [OF _ sl assms(3-5)])
    show "bucket_ok db j (T j)" using assms(1) that by (simp add: db_core_def)
    then show "\<forall>b \<in> set (addrs (T j)). node_val db' b = node_val db b \<and> key_ok (d_type db) (d_maxlen db) (n_key (d_nodes db' b))"
      using nv n by (simp add: bucket_ok_def)
  qed
  then show "db_core T F db'" using assms(1,3,6,7) l n by (simp add: db_core_def)
qed

lemma foreach_links: "keeps_links (foreach_visit func)"
  by (auto simp: keeps_links_def foreach_visit_def same_links_def split: prod.split)

lemma vforeach_repr:
  assumes "db_repr db A M" "d_free_lock db < UINT_MAX"
  shows "\<exists>ns M' db' B. db_obj_vforeach (Some func) db =
        Inr (fold (\<lambda>a s. s32 (s + fst (func (n_key (d_nodes db a)) (n_data (d_nodes db a))))) ns 0, db')
    \<and> distinct ns \<and> bij_betw (node_val db) (set ns) (dom M) \<and> (\<forall>a \<in> set ns. M (node_val db a) = Some (n_data (d_nodes db a)))
    \<and> db_repr db' B M' \<and> dom M' = dom M
    \<and> (\<forall>a \<in> set ns. M' (node_val db a) = Some (snd (func (n_key (d_nodes db a)) (n_data (d_nodes db a)))))"
proof -
  obtain T where T: "db_inv T db" "contents T db M" using assms(1) by (auto simp: db_repr_def)
  note L = db_free_lock_ok [OF T(1) assms(2)]
  let ?ns = "filter (\<lambda>a. \<not> n_deleted (d_nodes db a)) (walked T)"
  let ?f = "\<lambda>a s. s32 (s + fst (func (n_key (d_nodes db a)) (n_data (d_nodes db a))))"
  let ?db1 = "db\<lparr>d_free_lock := d_free_lock db + 1\<rparr>"
  let ?g = "\<lambda>x. snd (func (n_key (d_nodes db x)) (n_data (d_nodes db x)))"
  let ?h = "\<lambda>x. if x \<in> set (walked T) \<and> \<not> n_deleted (d_nodes db x) then (d_nodes db x)\<lparr>n_data := ?g x\<rparr> else d_nodes db x"
  let ?db2 = "?db1\<lparr>d_nodes := ?h\<rparr>"
  have B: "\<forall>i < HASH_SIZE. bucket_ok db i (T i)" using T(1) by (simp add: db_inv_def db_core_def)
  have W: "walk_slots (foreach_visit func) (d_ht db) (0, d_nodes db) = Some (fold ?f ?ns 0, ?h)"
    using walk_db [OF T(1) foreach_links, of func 0] fold_foreach [OF walked_distinct [OF B]] by simp
  note N = walked_live [OF T(1,2)]
  have D: "d_nodes ?db2 = (\<lambda>x. if x \<in> set (walked T) \<and> \<not> n_deleted (d_nodes db x) then (d_nodes ?db1 x)\<lparr>n_data := ?g x\<rparr> else d_nodes ?db1 x)"
    by (simp cong: if_cong)
  have C: "d_ht ?db2 = d_ht ?db1" "d_type ?db2 = d_type ?db1" "d_maxlen ?db2 = d_maxlen ?db1" "d_item_count ?db2 = d_item_count ?db1"
    "d_cache ?db2 = d_cache ?db1" by simp_all
  note C = new_data_core [OF L(2) D C]
  have nv: "node_val ?db1 = node_val db" by (simp add: node_val_def fun_eq_iff)
  have core: "db_core T (d_free_list ?db2) ?db2" "live T ?db2 = live T db" "node_val ?db2 = node_val db"
    using C(1) by simp (simp_all only: C(2,3) L(3) nv)
  define M' where "M' = (\<lambda>k. if k \<in> dom M then Some (?g (inv_into (set ?ns) (node_val db) k)) else None)"
  have M': "M' (node_val db a) = Some (?g a)" if "a \<in> set ?ns" for a
    using that N(3) by (auto simp: M'_def bij_betw_def inv_into_f_f)
  have "contents T ?db2 M'"
    unfolding contents_def core(2,3)
  proof (intro allI)
    fix k d
    have "(\<exists>a \<in> live T db. node_val db a = k \<and> n_data (d_nodes ?db2 a) = d) \<longleftrightarrow> (\<exists>a \<in> set ?ns. node_val db a = k \<and> ?g a = d)"
      unfolding N(2) by (auto simp: set_walked live_nodes)
    also have "\<dots> \<longleftrightarrow> M' k = Some d"
    proof
      assume "\<exists>a \<in> set ?ns. node_val db a = k \<and> ?g a = d"
      then show "M' k = Some d" using M' by auto
    next
      assume m: "M' k = Some d"
      then have "k \<in> dom M" by (auto simp: M'_def split: if_splits)
      then have "k \<in> node_val db ` set ?ns" using N(3) unfolding bij_betw_def by simp
      then obtain a where "a \<in> set ?ns" "node_val db a = k" by blast
      then show "\<exists>a \<in> set ?ns. node_val db a = k \<and> ?g a = d" using M' m by auto
    qed
    finally show "M' k = Some d \<longleftrightarrow> (\<exists>a \<in> live T db. node_val db a = k \<and> n_data (d_nodes ?db2 a) = d)" by simp
  qed
  then obtain db' B' where U: "db_free_unlock ?db2 = Inr db'" "db_repr db' B' M'"
    using unlock_repr [OF core(1), of M'] L(4-7) by auto
  have "db_obj_vforeach (Some func) db = Inr (fold ?f ?ns 0, db')"
    using L(1) W U(1) by (simp add: db_obj_vforeach_def)
  moreover have "dom M' = dom M" by (auto simp: M'_def split: if_splits)
  ultimately show ?thesis using N(1,3,5) U(2) M' by blast
qed

text \<open>The entries that match.\<close>

lemma getall_links: "keeps_links (getall_visit match buf limit)"
  by (auto simp: keeps_links_def getall_visit_def same_links_def split: prod.split)

lemma fold_getall:
  fixes h :: "(DBKey, DBData) store" and match :: "DBKey \<Rightarrow> DBData \<Rightarrow> int"
  assumes "0 \<le> ret" "ret + int (length xs) < 4294967296" "out = (if buf then take (nat limit) pre else [])" "int (length pre) = ret" "0 \<le> limit"
  defines "ms \<equiv> filter (\<lambda>a. \<not> n_deleted (h a) \<and> match (n_key (h a)) (n_data (h a)) = 0) xs"
  shows "fold (getall_visit match buf limit) xs ((ret, out), h) =
    ((ret + int (length ms), if buf then take (nat limit) (pre @ ms) else []), h)"
  using assms(1-4) unfolding ms_def
proof (induction xs arbitrary: ret out pre)
  case (Cons a xs)
  let ?m = "\<not> n_deleted (h a) \<and> match (n_key (h a)) (n_data (h a)) = 0"
  show ?case
  proof (cases ?m)
    case False
    then have "getall_visit match buf limit a ((ret, out), h) = ((ret, out), h)" by (auto simp: getall_visit_def)
    then show ?thesis using Cons.IH [of ret out pre] Cons.prems False by simp
  next
    case True
    let ?out = "if buf then take (nat limit) (pre @ [a]) else []"
    have "getall_visit match buf limit a ((ret, out), h) = ((ret + 1, ?out), h)"
      using True Cons.prems assms(5) by (auto simp: getall_visit_def)
    then show ?thesis using Cons.IH [of "ret + 1" ?out "pre @ [a]"] Cons.prems True by simp
  qed
qed simp

lemma vgetall_repr:
  assumes "db_repr db A M" "d_free_lock db < UINT_MAX" "0 \<le> limit" "card A \<le> 4294967295"
  shows "\<exists>ns db' B. db_obj_vgetall buf limit (Some match) db =
        (let ms = filter (\<lambda>a. match (n_key (d_nodes db a)) (n_data (d_nodes db a)) = 0) ns
         in Inr (int (length ms), if buf then take (nat limit) ms else [], db'))
    \<and> distinct ns \<and> bij_betw (node_val db) (set ns) (dom M) \<and> (\<forall>a \<in> set ns. M (node_val db a) = Some (n_data (d_nodes db a)))
    \<and> db_repr db' B M"
proof -
  obtain T where T: "db_inv T db" "contents T db M" "A = nodes_of T" using assms(1) by (auto simp: db_repr_def)
  note L = db_free_lock_ok [OF T(1) assms(2)]
  let ?ns = "filter (\<lambda>a. \<not> n_deleted (d_nodes db a)) (walked T)"
  let ?ms = "filter (\<lambda>a. match (n_key (d_nodes db a)) (n_data (d_nodes db a)) = 0) ?ns"
  have "\<forall>i < HASH_SIZE. bucket_ok db i (T i)" using T(1) by (simp add: db_inv_def db_core_def)
  then have "length (walked T) = card A" using distinct_card [OF walked_distinct] set_walked T(3) by metis
  then have W: "walk_slots (getall_visit match buf limit) (d_ht db) ((0, []), d_nodes db) =
      Some ((int (length ?ms), if buf then take (nat limit) ?ms else []), d_nodes db)"
    using walk_db [OF T(1) getall_links, of match buf limit "(0, [])"] assms(3,4)
      fold_getall [of 0 "walked T" "[]" buf limit "[]" match "d_nodes db"] by (simp add: conj_commute)
  obtain db' B where U: "db_free_unlock (db\<lparr>d_free_lock := d_free_lock db + 1\<rparr>) = Inr db'" "db_repr db' B M"
    using lock_unlock [OF T(1,2) assms(2)] by blast
  have "db_obj_vgetall buf limit (Some match) db = Inr (int (length ?ms), if buf then take (nat limit) ?ms else [], db')"
    using L(1) W U(1) by (simp add: db_obj_vgetall_def)
  then show ?thesis using walked_live [OF T(1,2)] U(2) by (intro exI [of _ ?ns] exI [of _ db'] exI [of _ B]) (simp add: Let_def)
qed

section \<open>\<open>db_obj_vclear\<close>\<close>

fun postorder :: "ct \<Rightarrow> nat list" where
  "postorder Lf = []"
| "postorder (Nd c l a r) = postorder l @ postorder r @ [a]"

lemma mset_postorder: "mset (postorder t) = mset (addrs t)"
  by (induction t) simp_all

lemma set_postorder: "set (postorder t) = set (addrs t)"
  using arg_cong [OF mset_postorder, of set_mset] by simp

fun clear_tree :: "(DBKey \<Rightarrow> DBData \<Rightarrow> int \<times> DBData) option \<Rightarrow> ct \<Rightarrow> int \<times> dbmap \<Rightarrow> int \<times> dbmap" where
  "clear_tree func Lf sd = sd"
| "clear_tree func (Nd c l a r) sd = clear_node func a (clear_tree func r (clear_tree func l sd))"

text \<open>What the function of the caller adds for a node.\<close>

definition clear_sum :: "(DBKey \<Rightarrow> DBData \<Rightarrow> int \<times> DBData) option \<Rightarrow> (DBKey, DBData) store \<Rightarrow> nat \<Rightarrow> int \<Rightarrow> int" where
  "clear_sum func h a s = (if n_deleted (h a) then s else case func of None \<Rightarrow> s | Some f \<Rightarrow> s32 (s + fst (f (n_key (h a)) (n_data (h a)))))"

definition is_node :: "freed \<Rightarrow> bool" where
  "is_node f \<longleftrightarrow> (case f of Freed_node _ \<Rightarrow> True | _ \<Rightarrow> False)"

definition node_log :: "dbmap \<Rightarrow> freed list" where
  "node_log db = filter is_node (d_freed db)"

text \<open>The nodes of \<open>as\<close> are freed and taken off; the other nodes are as in \<open>g\<close>.\<close>

definition cleared :: "(DBKey \<Rightarrow> DBData \<Rightarrow> int \<times> DBData) option \<Rightarrow> nat list \<Rightarrow> (DBKey, DBData) store \<Rightarrow> int \<times> dbmap \<Rightarrow> int \<times> dbmap \<Rightarrow> bool" where
  "cleared func xs g sd sd' \<longleftrightarrow> (\<exists>h fr. snd sd' = (snd sd)\<lparr>d_nodes := h, d_freed := fr\<rparr> \<and> (\<forall>x. x \<notin> set xs \<longrightarrow> h x = g x))
     \<and> node_log (snd sd') = node_log (snd sd) @ map Freed_node xs \<and> fst sd' = fold (clear_sum func (d_nodes (snd sd))) xs (fst sd)"

lemma node_log_release:
  "node_log (db_dup_key_free k db) = node_log db" "node_log (release k d w db) = node_log db"
  "node_log (set_data a x db) = node_log db" "node_log (set_deleted a v db) = node_log db"
  "node_log (db\<lparr>d_nodes := h, d_freed := d_freed db @ [Freed_node a]\<rparr>) = node_log db @ [Freed_node a]"
proof -
  have r: "filter is_node (release_ptr d) = []" for d by (cases d) (simp_all add: release_ptr_def is_node_def)
  have "filter is_node (db_default_release t ops k d w) = []" for t ops
    by (simp add: db_default_release_def Let_def db_release_both_def db_release_data_def db_release_key_def db_release_nothing_def r is_node_def)
  then show "node_log (release k d w db) = node_log db" by (simp add: node_log_def release_def)
qed (simp_all add: node_log_def db_dup_key_free_def is_node_def set_data_def set_deleted_def split: DBType.split)

lemma node_log_cong: "d_freed db' = d_freed db \<Longrightarrow> node_log db' = node_log db"
  by (simp add: node_log_def)

lemma clear_node_cleared:
  "n_parent (d_nodes (snd sd) a) \<noteq> a \<Longrightarrow>
     cleared func [a] (cut a (n_parent (d_nodes (snd sd) a)) (d_nodes (snd sd))) sd (clear_node func a sd)"
proof -
  obtain s db where sd: "sd = (s, db)" by (cases sd)
  let ?n = "d_nodes db a" and ?p = "n_parent (d_nodes db a)"
  assume p: "n_parent (d_nodes (snd sd) a) \<noteq> a"
  define db1 where "db1 = (if n_deleted ?n then db_dup_key_free (n_key ?n) db
    else let db = (case func of None \<Rightarrow> db | Some f \<Rightarrow> set_data a (snd (f (n_key ?n) (n_data ?n))) db)
         in set_deleted a True (release (n_key ?n) (n_data (d_nodes db a)) DB_RELEASE_BOTH db))"
  have c: "clear_node func a sd = (clear_sum func (d_nodes db) a s,
      db1\<lparr>d_nodes := cut a ?p (d_nodes db1), d_freed := d_freed db1 @ [Freed_node a]\<rparr>)"
    by (simp add: sd clear_node_def clear_sum_def db1_def Let_def split: option.split prod.split)
  have x: "d_nodes db1 x = d_nodes db x" if "x \<noteq> a" for x
    using that by (auto simp: db1_def Let_def set_data_def split: option.split)
  have f: "db1 = db\<lparr>d_nodes := d_nodes db1, d_freed := d_freed db1\<rparr>"
    by (rule dbmap.equality) (simp_all add: db1_def Let_def set_data_def set_deleted_def release_def db_dup_key_free_def
      split: option.split DBType.split)
  have lg: "node_log db1 = node_log db" by (simp add: db1_def Let_def node_log_release split: option.split)
  have "cut a ?p (d_nodes db1) x = cut a ?p (d_nodes db) x" if "x \<noteq> a" for x
    using x [OF that] x [of ?p] p that by (simp add: cut_def set_left_def set_right_def sd)
  moreover have "db1\<lparr>d_nodes := h, d_freed := fr\<rparr> = db\<lparr>d_nodes := h, d_freed := fr\<rparr>" for h fr by (subst f) simp
  ultimately show ?thesis using lg unfolding c cleared_def by (auto simp: sd node_log_def is_node_def)
qed

lemma cleared_nodes: "cleared func xs g sd sd' \<Longrightarrow> x \<notin> set xs \<Longrightarrow> d_nodes (snd sd') x = g x"
  by (auto simp: cleared_def)

lemma cleared_trans:
  assumes "cleared func xs g sd sd1" "cleared func ys g' sd1 sd2" "\<And>x. x \<notin> set xs \<Longrightarrow> x \<notin> set ys \<Longrightarrow> g' x = g'' x"
    and "\<And>y. y \<in> set ys \<Longrightarrow> n_key (d_nodes (snd sd1) y) = n_key (d_nodes (snd sd) y) \<and> n_data (d_nodes (snd sd1) y) = n_data (d_nodes (snd sd) y)
      \<and> n_deleted (d_nodes (snd sd1) y) = n_deleted (d_nodes (snd sd) y)"
  shows "cleared func (xs @ ys) g'' sd sd2"
proof -
  have "fold (clear_sum func (d_nodes (snd sd1))) ys t = fold (clear_sum func (d_nodes (snd sd))) ys t" for t
    by (rule fold_cong) (use assms(4) in \<open>auto simp: clear_sum_def split: option.split\<close>)
  then have f: "fst sd2 = fold (clear_sum func (d_nodes (snd sd))) (xs @ ys) (fst sd)"
    "node_log (snd sd2) = node_log (snd sd) @ map Freed_node (xs @ ys)"
    using assms(1,2) by (simp_all add: cleared_def)
  obtain h fr h1 fr1 where "snd sd2 = (snd sd1)\<lparr>d_nodes := h, d_freed := fr\<rparr>" "snd sd1 = (snd sd)\<lparr>d_nodes := h1, d_freed := fr1\<rparr>"
    and h: "\<forall>x. x \<notin> set ys \<longrightarrow> h x = g' x"
    using assms(1,2) unfolding cleared_def by blast
  then have "snd sd2 = (snd sd)\<lparr>d_nodes := h, d_freed := fr\<rparr>" by simp
  moreover have "\<forall>x. x \<notin> set (xs @ ys) \<longrightarrow> h x = g'' x" using h assms(3) by simp
  ultimately show ?thesis using f unfolding cleared_def by blast
qed

lemma cut_at: "p \<noteq> 0 \<Longrightarrow> x \<noteq> p \<Longrightarrow> cut a p h x = h x" "cut a 0 h = h" "x \<noteq> p \<Longrightarrow> cut a p h x = h x"
  "p \<noteq> 0 \<Longrightarrow> cut a p h p = (if n_left (h p) = a then (h p)\<lparr>n_left := 0\<rparr> else (h p)\<lparr>n_right := 0\<rparr>)"
  "n_parent (cut a p h x) = n_parent (h x)" "n_key (cut a p h x) = n_key (h x)" "n_data (cut a p h x) = n_data (h x)"
  "n_deleted (cut a p h x) = n_deleted (h x)"
  by (simp_all add: cut_def set_left_def set_right_def)

text \<open>The loop takes a subtree apart and goes on at its parent.\<close>

lemma clear_tree_ok:
  assumes "tree_at (d_nodes (snd sd)) p t" "distinct (addrs t)" "p \<notin> set (addrs t)"
  shows "cleared func (postorder t) (if t = Lf then d_nodes (snd sd) else cut (taddr t) p (d_nodes (snd sd))) sd (clear_tree func t sd)
    \<and> (t \<noteq> Lf \<longrightarrow> clear_loop func (taddr t) sd = clear_loop func p (clear_tree func t sd))"
  using assms
proof (induction t arbitrary: p sd)
  case Lf
  then show ?case by (cases sd; cases "snd sd") (auto simp: cleared_def)
next
  case (Nd c l a r)
  let ?h = "d_nodes (snd sd)" let ?sd1 = "clear_tree func l sd" let ?sd2 = "clear_tree func r ?sd1"
  let ?h1 = "d_nodes (snd ?sd1)" and ?h2 = "d_nodes (snd ?sd2)" and ?sd3 = "clear_tree func (Nd c l a r) sd"
  have T: "a \<noteq> 0" "n_parent (?h a) = p" "n_left (?h a) = taddr l" "n_right (?h a) = taddr r" "tree_at ?h a l" "tree_at ?h a r"
    and D: "distinct (addrs l)" "distinct (addrs r)" "a \<notin> set (addrs l)" "a \<notin> set (addrs r)" "set (addrs l) \<inter> set (addrs r) = {}" "p \<noteq> a"
    using Nd.prems by auto
  have z: "taddr l = 0 \<longleftrightarrow> l = Lf" "taddr r = 0 \<longleftrightarrow> r = Lf" using taddr_eq_0 [OF T(5)] taddr_eq_0 [OF T(6)] by simp_all
  note L = Nd.IH(1) [OF T(5) D(1,3), THEN conjunct1]
  have h1: "?h1 x = ?h x" if "x \<notin> set (addrs l)" "x \<noteq> a" for x
    using cleared_nodes [OF L, of x] that by (simp add: set_postorder cut_at split: if_splits)
  have a1: "?h1 a = (?h a)\<lparr>n_left := 0\<rparr>"
    using cleared_nodes [OF L, of a] D(3) T(1,3) z by (cases "?h a") (auto simp: set_postorder cut_at split: if_splits)
  have r1: "\<forall>x \<in> set (addrs r). ?h1 x = ?h x" using h1 D(4,5) by auto
  have T1: "tree_at ?h1 a r" using tree_at_cong [OF r1] T(6) by simp
  note R = Nd.IH(2) [OF T1 D(2,4), THEN conjunct1]
  have h2: "?h2 x = ?h1 x" if "x \<notin> set (addrs r)" "x \<noteq> a" for x
    using cleared_nodes [OF R, of x] that by (simp add: set_postorder cut_at split: if_splits)
  have a2: "?h2 a = (?h a)\<lparr>n_left := 0, n_right := 0\<rparr>"
    using cleared_nodes [OF R, of a] D(4) T(1,4) z a1 by (cases "?h a") (auto simp: set_postorder cut_at split: if_splits)
  have p2: "n_parent (?h2 a) = p" using a2 T(2) by simp
  have N: "cleared func [a] (cut a p ?h2) ?sd2 ?sd3" using clear_node_cleared [of ?sd2 a func] p2 D(6) by simp
  have LR: "cleared func (postorder l @ postorder r) ?h2 sd ?sd2"
    by (rule cleared_trans [OF L R]) (use cleared_nodes [OF R] r1 in \<open>simp_all add: set_postorder\<close>)
  have "cleared func ((postorder l @ postorder r) @ [a]) (cut a p ?h) sd ?sd3"
  proof (rule cleared_trans [OF LR N])
    fix x assume x: "x \<notin> set (postorder l @ postorder r)" "x \<notin> set [a]"
    have e: "?h2 y = ?h y" if "y \<notin> set (addrs l)" "y \<notin> set (addrs r)" "y \<noteq> a" for y using h1 [OF that(1,3)] h2 [OF that(2,3)] by simp
    have "?h2 p = ?h p" using e [of p] Nd.prems(3) by simp
    then show "cut a p ?h2 x = cut a p ?h x" using e [of x] x by (simp add: cut_def set_left_def set_right_def set_postorder)
  next
    fix y assume "y \<in> set [a]"
    then show "n_key (?h2 y) = n_key (?h y) \<and> n_data (?h2 y) = n_data (?h y) \<and> n_deleted (?h2 y) = n_deleted (?h y)" using a2 by simp
  qed
  moreover have "clear_loop func a sd = clear_loop func p ?sd3"
  proof -
    have "clear_loop func a sd = clear_loop func a ?sd1"
      using Nd.IH(1) [OF T(5) D(1,3)] T(1,3) z by (cases "l = Lf") (simp, subst clear_loop.simps, simp add: Let_def)
    also have "\<dots> = clear_loop func a ?sd2"
      using Nd.IH(2) [OF T1 D(2,4)] T(1,4) z a1 by (cases "r = Lf") (simp, subst clear_loop.simps, simp add: Let_def)
    also have "\<dots> = clear_loop func p ?sd3"
      using T(1) a2 p2 by (subst clear_loop.simps) (simp add: Let_def)
    finally show ?thesis .
  qed
  ultimately show ?case by simp
qed

lemma clear_loop_tree:
  assumes "owns (d_nodes (snd sd), r) t"
  shows "clear_loop func r sd = Some (clear_tree func t sd)" "cleared func (postorder t) (d_nodes (snd sd)) sd (clear_tree func t sd)"
proof -
  have T: "tree_at (d_nodes (snd sd)) 0 t" "distinct (addrs t)" "r = taddr t" using assms by (simp_all add: owns_def)
  have "0 \<notin> set (addrs t)" using tree_at_nonzero T(1) by blast
  note C = clear_tree_ok [OF T(1,2) this, of func]
  have "clear_loop func 0 sd' = Some sd'" for sd' by (subst clear_loop.simps) simp
  then show "clear_loop func r sd = Some (clear_tree func t sd)" using C T(3) by (cases "t = Lf") simp_all
  show "cleared func (postorder t) (d_nodes (snd sd)) sd (clear_tree func t sd)" using C by (simp add: cut_at(2) split: if_splits)
qed

lemma clear_slots_ok:
  assumes "length (d_ht db) = HASH_SIZE" "i \<le> HASH_SIZE" "\<forall>j < HASH_SIZE. i \<le> j \<longrightarrow> owns (d_nodes db, d_ht db ! j) (T j)"
    and "\<forall>j < HASH_SIZE. \<forall>k < HASH_SIZE. j \<noteq> k \<longrightarrow> set (addrs (T j)) \<inter> set (addrs (T k)) = {}"
  defines "xs \<equiv> \<lambda>i. concat (map (\<lambda>j. postorder (T j)) [i..<HASH_SIZE])"
  shows "\<exists>s' h fr. clear_slots func i (s, db) =
      Some (s', db\<lparr>d_nodes := h, d_ht := take i (d_ht db) @ replicate (HASH_SIZE - i) 0, d_freed := fr\<rparr>)
    \<and> filter is_node fr = node_log db @ map Freed_node (xs i) \<and> s' = fold (clear_sum func (d_nodes db)) (xs i) s"
  using assms(1-3)
proof (induction "HASH_SIZE - i" arbitrary: i s db)
  case 0
  then have "i = HASH_SIZE" by simp
  then show ?case using 0
    by (intro exI [of _ s] exI [of _ "d_nodes db"] exI [of _ "d_freed db"]) (simp add: clear_slots.simps xs_def node_log_def)
next
  case (Suc n)
  have i: "i < HASH_SIZE" using Suc.hyps(2) by simp
  let ?db0 = "db\<lparr>d_ht := (d_ht db)[i := 0]\<rparr>"
  have "owns (d_nodes (snd (s, ?db0)), d_ht db ! i) (T i)" using Suc.prems(3) i by simp
  note C = clear_loop_tree [OF this, of func]
  obtain s1 db1 where 1: "clear_tree func (T i) (s, ?db0) = (s1, db1)" by (cases "clear_tree func (T i) (s, ?db0)")
  obtain h fr where D: "db1 = ?db0\<lparr>d_nodes := h, d_freed := fr\<rparr>" "\<And>x. x \<notin> set (addrs (T i)) \<Longrightarrow> h x = d_nodes db x"
    "filter is_node fr = node_log db @ map Freed_node (postorder (T i))" "s1 = fold (clear_sum func (d_nodes db)) (postorder (T i)) s"
    using C(2) unfolding cleared_def 1 by (auto simp: set_postorder node_log_def)
  let ?db2 = "db1\<lparr>d_ht := (d_ht db1)[i := 0]\<rparr>"
  have same: "d_nodes ?db2 x = d_nodes db x" if "x \<in> set (addrs (T j))" "i < j" "j < HASH_SIZE" for x j
    using D(1,2) assms(4) i that by fastforce
  have o2: "\<forall>j < HASH_SIZE. Suc i \<le> j \<longrightarrow> owns (d_nodes ?db2, d_ht ?db2 ! j) (T j)"
  proof (intro allI impI)
    fix j assume that: "j < HASH_SIZE" "Suc i \<le> j"
    have "owns (d_nodes ?db2, d_ht db ! j) (T j) = owns (d_nodes db, d_ht db ! j) (T j)"
      by (rule owns_cong) (use same that in auto)
    then show "owns (d_nodes ?db2, d_ht ?db2 ! j) (T j)" using Suc.prems(3) that D(1) by simp
  qed
  have l2: "length (d_ht ?db2) = HASH_SIZE" "Suc i \<le> HASH_SIZE" "n = HASH_SIZE - Suc i" using Suc.prems(1) Suc.hyps(2) i D(1) by simp_all
  obtain s' h' fr' where R: "clear_slots func (Suc i) (s1, ?db2) =
      Some (s', ?db2\<lparr>d_nodes := h', d_ht := take (Suc i) (d_ht ?db2) @ replicate (HASH_SIZE - Suc i) 0, d_freed := fr'\<rparr>)"
    "filter is_node fr' = node_log ?db2 @ map Freed_node (xs (Suc i))" "s' = fold (clear_sum func (d_nodes ?db2)) (xs (Suc i)) s1"
    using Suc.hyps(1) [OF l2(3,1,2) o2, of s1] by blast
  have x: "xs i = postorder (T i) @ xs (Suc i)" using i by (simp add: xs_def upt_conv_Cons)
  have "fold (clear_sum func (d_nodes ?db2)) (xs (Suc i)) s1 = fold (clear_sum func (d_nodes db)) (xs (Suc i)) s1"
  proof (rule fold_cong)
    fix a assume "a \<in> set (xs (Suc i))"
    then obtain j where "Suc i \<le> j" "j < HASH_SIZE" "a \<in> set (addrs (T j))" unfolding xs_def by (auto simp: set_postorder)
    then show "clear_sum func (d_nodes ?db2) a = clear_sum func (d_nodes db) a" using same [of a j] by (simp add: clear_sum_def fun_eq_iff cong: option.case_cong)
  qed simp_all
  then have "s' = fold (clear_sum func (d_nodes db)) (xs i) s" using R(3) D(4) x by simp
  moreover have "take (Suc i) ((d_ht db)[i := 0, i := 0]) @ replicate (HASH_SIZE - Suc i) 0 = take i (d_ht db) @ replicate (HASH_SIZE - i) (0::nat)"
    using i Suc.prems(1) Suc_diff_Suc [OF i] by (simp add: take_Suc_conv_app_nth flip: replicate_Suc)
  moreover have "clear_slots func i (s, db) = clear_slots func (Suc i) (s1, ?db2)"
    using i C(1) 1 by (subst clear_slots.simps) simp
  ultimately show ?case using R(1,2) D x
    by (intro exI [of _ s'] exI [of _ h'] exI [of _ fr']) (simp add: node_log_def)
qed

text \<open>Every node of the database is freed once, and the entries are passed to the function of the caller.\<close>

lemma empty_repr:
  assumes "d_ht db = replicate HASH_SIZE 0" "d_free_list db = []" "d_cache db = 0" "d_item_count db = 0"
    "0 \<le> d_free_lock db" "d_free_lock db \<le> UINT_MAX" "0 \<le> d_free_max db" "d_free_max db \<le> UINT_MAX"
  shows "db_repr db {} Map.empty"
proof -
  have "bucket_ok db i Lf" if "i < HASH_SIZE" for i using that by (simp add: bucket_ok_def owns_def balanced_def assms(1))
  moreover have l: "live (\<lambda>_. Lf) db = {}" by (simp add: live_def)
  ultimately have "db_inv (\<lambda>_. Lf) db" using assms by (simp add: db_inv_def db_core_def UINT_MAX_def)
  moreover have "contents (\<lambda>_. Lf) db Map.empty" "nodes_of (\<lambda>_. Lf) = {}" by (simp_all add: contents_def l nodes_of_def)
  ultimately show ?thesis by (auto simp: db_repr_def)
qed

lemma vclear_repr:
  assumes "db_repr db A M" "d_free_lock db < UINT_MAX"
  shows "\<exists>ns db'. db_obj_vclear func db = Inr (fold (clear_sum func (d_nodes db)) ns 0, db') \<and> distinct ns \<and> set ns = A
    \<and> node_log db' = node_log db @ map Freed_node ns \<and> db_repr db' {} Map.empty \<and> same_config db db' \<and> d_free_lock db' = d_free_lock db
    \<and> d_free_list db' = []"
proof -
  obtain T where T: "db_inv T db" "A = nodes_of T" using assms(1) by (auto simp: db_repr_def)
  have B: "length (d_ht db) = HASH_SIZE" "\<forall>i < HASH_SIZE. bucket_ok db i (T i)" and m: "0 \<le> d_free_lock db" "0 \<le> d_free_max db" "d_free_max db \<le> UINT_MAX"
    using T(1) by (auto simp: db_inv_def db_core_def)
  have dj: "\<forall>j < HASH_SIZE. \<forall>k < HASH_SIZE. j \<noteq> k \<longrightarrow> set (addrs (T j)) \<inter> set (addrs (T k)) = {}"
    using node_in_one [OF B(2) [rule_format] B(2) [rule_format]] by blast
  let ?db1 = "db\<lparr>d_free_lock := d_free_lock db + 1, d_cache := 0\<rparr>"
  let ?xs = "concat (map (\<lambda>j. postorder (T j)) [0..<HASH_SIZE])"
  have "\<forall>j < HASH_SIZE. 0 \<le> j \<longrightarrow> owns (d_nodes ?db1, d_ht ?db1 ! j) (T j)" using B(2) by (simp add: bucket_ok_def)
  from clear_slots_ok [of ?db1 0 T func 0, OF _ _ this dj] B(1) obtain h fr where C: "clear_slots func 0 (0, ?db1) = Some (fold (clear_sum func (d_nodes db)) ?xs 0,
      ?db1\<lparr>d_nodes := h, d_ht := replicate HASH_SIZE 0, d_freed := fr\<rparr>)" "filter is_node fr = node_log db @ map Freed_node ?xs"
    by (simp add: node_log_def) blast
  let ?db2 = "?db1\<lparr>d_nodes := h, d_ht := replicate HASH_SIZE 0, d_freed := fr, d_free_list := [], d_item_count := 0\<rparr>"
  let ?db3 = "?db2\<lparr>d_free_lock := d_free_lock db\<rparr>"
  have u: "db_free_unlock ?db2 = Inr ?db3" using m(1) by (simp add: db_free_unlock_def Let_def)
  have "db_obj_vclear func db = Inr (fold (clear_sum func (d_nodes db)) ?xs 0, ?db3)"
    using u C(1) assms(2) by (simp add: db_obj_vclear_def db_free_lock_def)
  moreover have "mset ?xs = mset (walked T)" by (simp add: mset_walked mset_concat mset_postorder comp_def)
  then have "distinct ?xs" "set ?xs = A"
    using walked_distinct [OF B(2)] mset_eq_imp_distinct_iff set_walked T(2) mset_eq_setD by metis+
  moreover have "db_repr ?db3 {} Map.empty" by (rule empty_repr) (use m assms(2) in simp_all)
  moreover have "node_log ?db3 = node_log db @ map Freed_node ?xs" using C(2) by (simp add: node_log_def)
  ultimately show ?thesis by (intro exI [of _ ?xs] exI [of _ ?db3]) (simp add: same_config_def)
qed

lemma vdestroy_repr:
  assumes "db_repr db A M" "d_free_lock db + 1 < UINT_MAX" "\<not> d_global_lock db"
  shows "\<exists>ns db'. db_obj_vdestroy func db = Inr (fold (clear_sum func (d_nodes db)) ns 0, db') \<and> distinct ns \<and> set ns = A
    \<and> node_log db' = node_log db @ map Freed_node ns \<and> db_repr db' {} Map.empty \<and> d_global_lock db'"
proof -
  obtain T where T: "db_inv T db" "contents T db M" "A = nodes_of T" using assms(1) by (auto simp: db_repr_def)
  have lk: "d_free_lock db < UINT_MAX" using assms(2) by simp
  let ?db1 = "db\<lparr>d_free_lock := d_free_lock db + 1, d_global_lock := True\<rparr>"
  have "db_inv T ?db1"
    using db_core_cong [of T "d_free_list db" db ?db1] T(1) lk by (simp add: db_inv_def)
  moreover have "contents T ?db1 M" using contents_cong [OF T(2)] by simp
  ultimately have "db_repr ?db1 A M" using T(3) by (auto simp: db_repr_def)
  then obtain ns db2 where C: "db_obj_vclear func ?db1 = Inr (fold (clear_sum func (d_nodes db)) ns 0, db2)" "distinct ns" "set ns = A"
    "node_log db2 = node_log db @ map Freed_node ns" "db_repr db2 {} Map.empty" "same_config ?db1 db2" "d_free_lock db2 = d_free_lock db + 1"
    using vclear_repr [of ?db1 A M func] assms(2) by (auto simp: node_log_def)
  have lock: "0 \<le> d_free_lock db" using T(1) by (simp add: db_inv_def)
  let ?db3 = "db2\<lparr>d_free_list := [], d_free_max := 0\<rparr>" let ?db4 = "?db3\<lparr>d_free_lock := d_free_lock db\<rparr>"
  have u: "db_free_unlock ?db3 = Inr ?db4" using lock C(7) by (simp add: db_free_unlock_def Let_def)
  have "db_obj_vdestroy func db = Inr (fold (clear_sum func (d_nodes db)) ns 0, ?db4)"
    using u C(1) assms(3) lk by (simp add: db_obj_vdestroy_def db_free_lock_def)
  moreover have "db_repr ?db4 {} Map.empty"
  proof -
    obtain T2 where T2: "db_inv T2 db2" "contents T2 db2 Map.empty" "nodes_of T2 = {}" using C(5) by (auto simp: db_repr_def)
    have "db_core T2 [] db2" using T2(1,3) by (auto simp: db_inv_def db_core_def nodes_of_def)
    then have "db_core T2 [] ?db4" using db_core_cong [of T2 "[]" db2 ?db4] by simp
    then have "db_inv T2 ?db4" using lock lk by (simp add: db_inv_def UINT_MAX_def)
    moreover have "contents T2 ?db4 Map.empty" using contents_cong [OF T2(2)] by simp
    ultimately show ?thesis using T2(3) by (auto simp: db_repr_def)
  qed
  ultimately show ?thesis using C(2-4,6) by (intro exI [of _ ns] exI [of _ ?db4]) (simp add: same_config_def node_log_def)
qed

end
