(* ===== verification/Database.thy ===== *)
theory Database
  imports Dbrun Dbwalk
begin

text \<open>
  What the databases of common/db.cpp are relied on for, each statement with a concrete instance:
  the calls of the interface implement a map with cursors, the trees stay balanced search
  trees and no iterator dangles, a loop over an iterator meets every entry, clearing frees every node, erasing keeps a tree balanced,
  and \<open>db_obj_vensure\<close> gives out the data of a removed entry.
\<close>

section \<open>Sequences of calls\<close>

lemma db_run_rel:
  assumes "ers_ok ers" "list_all (db_op_ok (db_alloc h t options maxlen)) ops" "length ops \<le> MAX_CALLS"
  shows "\<exists>anss w s. run_ops (db_step ers) ops (db_opened (db_alloc h t options maxlen)) = Inr (anss, w)
    \<and> accept_ops (db_accepts (db_alloc h t options maxlen)) ops anss empty_spec = Some s
    \<and> db_rel (db_alloc h t options maxlen) (length ops) w s"
proof -
  have "list_all (\<lambda>op. ers_ok ers \<and> \<not> d_global_lock (db_alloc h t options maxlen) \<and> db_op_ok (db_alloc h t options maxlen) op) ops"
    using assms(1,2) db_alloc_unlocked by (simp add: list_all_iff)
  from db_calls.run_sim [OF db_rel_alloc this] show ?thesis using assms(3) by simp
qed

text \<open>
  C32. Whatever sequence of the calls put, get, remove, exists, size and those of iterators (create,
  first, last, next, prev, exists, remove, destroy) a program makes, in any order and with any number of
  iterators open at once, every call returns, and the answers are those of a map from the values of the keys to
  data with a cursor for every iterator: put and remove return the data that was there, an iterator moves only
  to entries of the map, and the entry under it can be removed and put again while others stand on it.
  The allocator returns addresses that are not in use, strings are not longer than the
  maximum length, and no more than 4294967290 calls are made, so that no counter overflows.
\<close>

theorem db_run_refines:
  assumes "ers_ok ers" "list_all (db_op_ok (db_alloc h t options maxlen)) ops" "length ops \<le> MAX_CALLS"
  shows "\<exists>anss w s. run_ops (db_step ers) ops (db_opened (db_alloc h t options maxlen)) = Inr (anss, w)
    \<and> accept_ops (db_accepts (db_alloc h t options maxlen)) ops anss empty_spec = Some s"
  using db_run_rel [OF assms] by blast

text \<open>
  C33. Whatever of these calls are made, the database stays well formed: every slot of the hashtable holds a balanced search tree of
  the keys that belong to the slot, with parent pointers that agree with the child pointers; the nodes
  that are marked as deleted are those of the free list; the cache is no deleted node and the item count is the
  number of entries. Every iterator that stands on a node stands on one that is still in the database,
  although other calls may have removed its entry.
\<close>

theorem db_run_typed:
  assumes "ers_ok ers" "list_all (db_op_ok (db_alloc h t options maxlen)) ops" "length ops \<le> MAX_CALLS"
    and "run_ops (db_step ers) ops (db_opened (db_alloc h t options maxlen)) = Inr (anss, w)"
  shows "\<exists>T. db_inv T (w_db w) \<and> (\<forall>it. Some it \<in> set (w_iters w) \<longrightarrow> it_node it = 0 \<or> it_node it \<in> nodes_of T)"
proof -
  obtain s where "db_rel (db_alloc h t options maxlen) (length ops) w s"
    using db_run_rel [OF assms(1-3)] assms(4) by auto
  then obtain A where A: "db_repr (w_db w) A (s_map s)" "iters_at (w_db w) A (w_iters w) (s_iters s)" by (auto simp: db_rel_def)
  have "it_node it = 0 \<or> it_node it \<in> A" if it: "Some it \<in> set (w_iters w)" for it
  proof -
    obtain j where j: "j < length (w_iters w)" "w_iters w ! j = Some it" using it unfolding in_set_conv_nth by blast
    then show ?thesis using iters_at_nth [OF A(2) j] by (auto simp: iter_at_def split: option.splits)
  qed
  then show ?thesis using A(1) by (auto simp: db_repr_def)
qed

text \<open>An allocator, and a program that removes an entry under an iterator and puts it again.\<close>

definition sample_ers :: "dbmap \<Rightarrow> nat" where
  "sample_ers db = Suc (Max (insert 0 {a. db_reach db a}))"

lemma sample_ers_ok: "ers_ok sample_ers"
  unfolding ers_ok_def
proof (intro allI impI)
  fix db assume f: "finite {a. db_reach db a}"
  have "a \<le> Max (insert 0 {a. db_reach db a})" if "db_reach db a" for a using f that by (intro Max_ge) auto
  then show "sample_ers db \<noteq> 0 \<and> \<not> db_reach db (sample_ers db)" unfolding sample_ers_def by (metis Suc_n_not_le_n nat.simps(3))
qed

definition blank_node :: "(DBKey, DBData) dbn" where
  "blank_node = \<lparr>n_parent = 0, n_left = 0, n_right = 0, n_key = Key_i 0, n_data = DB_DATA_INT 0, n_color = RED, n_deleted = False\<rparr>"

definition sample_db :: dbmap where
  "sample_db = db_alloc (\<lambda>_. blank_node) DB_INT 0 0"

definition sample_calls :: "db_op list" where
  "sample_calls = [Put (Key_i 5) (DB_DATA_INT 1), Iterator, First 0, Remove (Key_i 5), It_exists 0, Put (Key_i 5) (DB_DATA_INT 2),
     It_exists 0, It_remove 0, Size_of]"

lemma sample_calls_ok: "list_all (db_op_ok sample_db) sample_calls" "length sample_calls \<le> MAX_CALLS"
  by (simp_all add: sample_calls_def db_op_ok_def sample_db_def db_alloc_def Let_def MAX_CALLS_def)

lemma accept_Cons:
  "accept_ops spec (op # ops) anss s = Some s' \<longleftrightarrow>
     (\<exists>a as s1. anss = a # as \<and> spec op a s = Some s1 \<and> accept_ops spec ops as s1 = Some s')"
  by (cases anss) (auto split: option.splits)

lemma accept_Nil: "accept_ops spec [] anss s = Some s' \<longleftrightarrow> anss = [] \<and> s' = s"
  by (cases anss) auto

lemma provided_Some: "provided b s = Some s' \<longleftrightarrow> b \<and> s' = s"
  by (auto simp: provided_def)

lemma goto_Some:
  "goto_entry t m j ans s = Some s' \<longleftrightarrow> ans = Ans_entry None \<and> s' = s\<lparr>s_iters := (s_iters s)[j := Some None]\<rparr>
     \<or> (\<exists>key data. ans = Ans_entry (Some (key, data)) \<and> s_map s (kval t m key) = Some data
          \<and> s' = s\<lparr>s_iters := (s_iters s)[j := Some (Some (kval t m key))]\<rparr>)"
  by (auto simp: goto_entry_def provided_Some split: db_ans.split option.split)

lemma first_Some:
  assumes "M \<noteq> Map.empty"
  shows "db_spec t m (First 0) ans \<lparr>s_map = M, s_iters = [Some c]\<rparr> = Some s' \<longleftrightarrow>
     (\<exists>key data. ans = Ans_entry (Some (key, data)) \<and> M (kval t m key) = Some data \<and> s' = \<lparr>s_map = M, s_iters = [Some (Some (kval t m key))]\<rparr>)"
  using assms by (auto simp: with_cursor_def goto_Some)

theorem db_run_refines_witness:
  "\<exists>w e. run_ops (db_step sample_ers) sample_calls (db_opened sample_db)
     = Inr ([Ans_put 0 None, Ans_none, e, Ans_put 1 (Some (DB_DATA_INT 1)), Ans_bool False, Ans_put 0 None,
         Ans_bool True, Ans_put 1 (Some (DB_DATA_INT 2)), Ans_int 0], w)"
proof -
  obtain anss w s where R: "run_ops (db_step sample_ers) sample_calls (db_opened sample_db) = Inr (anss, w)"
    "accept_ops (db_accepts sample_db) sample_calls anss empty_spec = Some s"
    using db_run_refines [OF sample_ers_ok sample_calls_ok [unfolded sample_db_def]] unfolding sample_db_def by blast
  have t: "d_type sample_db = DB_INT" "d_maxlen sample_db = 0" by (simp_all add: sample_db_def db_alloc_def Let_def)
  have "\<exists>e. anss = [Ans_put 0 None, Ans_none, e, Ans_put 1 (Some (DB_DATA_INT 1)), Ans_bool False, Ans_put 0 None,
      Ans_bool True, Ans_put 1 (Some (DB_DATA_INT 2)), Ans_int 0]"
    using R(2) unfolding sample_calls_def t accept_Cons accept_Nil empty_spec_def
    by (simp add: provided_Some first_Some del: db_spec.simps(7)) (clarsimp simp: provided_Some with_cursor_def kval_def split: if_splits)
  then show ?thesis using R(1) by blast
qed

theorem db_run_typed_witness:
  "\<exists>anss w T. run_ops (db_step sample_ers) sample_calls (db_opened sample_db) = Inr (anss, w) \<and> db_inv T (w_db w)"
proof -
  obtain anss w s where "run_ops (db_step sample_ers) sample_calls (db_opened sample_db) = Inr (anss, w)"
    using db_run_rel [OF sample_ers_ok sample_calls_ok [unfolded sample_db_def]] unfolding sample_db_def by blast
  then show ?thesis
    using db_run_typed [OF sample_ers_ok sample_calls_ok [unfolded sample_db_def]] unfolding sample_db_def by blast
qed

section \<open>Iterating\<close>

text \<open>
  C35. The loop \<open>for( data = dbi_first(iter); dbi_exists(iter); data = dbi_next(iter) )\<close> over a
  database ends after as many turns as there are entries, and meets every entry of the map exactly once,
  whatever removed nodes still wait to be freed.
\<close>

theorem db_iterates_all:
  assumes "db_repr db A M"
  shows "\<exists>ns n it. dbit_obj_first db it0 = Inr (n, it) \<and> (\<forall>f > card (dom M) + 1. dbi_loop f db it = Inr ns)
    \<and> distinct ns \<and> bij_betw (\<lambda>a. kval (d_type db) (d_maxlen db) (n_key (d_nodes db a))) (set ns) (dom M)
    \<and> (\<forall>a \<in> set ns. M (kval (d_type db) (d_maxlen db) (n_key (d_nodes db a))) = Some (n_data (d_nodes db a)))"
  by (rule iterate_repr [OF assms])

lemma sample_put: "\<exists>db B. db_obj_put 1 (Key_i 5) (DB_DATA_INT 1) sample_db = Inr (0, None, db) \<and> db_repr db B [[5] \<mapsto> DB_DATA_INT 1]
  \<and> B \<subseteq> {1} \<and> d_free_lock db = 0"
proof -
  have f: "d_type sample_db = DB_INT" "d_maxlen sample_db = 0" "d_free_lock sample_db = 0" "\<not> d_global_lock sample_db" "d_item_count sample_db = 0"
    by (simp_all add: sample_db_def db_alloc_def Let_def)
  show ?thesis
    using db_obj_put_repr [OF db_alloc_repr [of "\<lambda>_. blank_node" DB_INT 0 0, folded sample_db_def], of "Key_i 5" "DB_DATA_INT 1" 1]
    by (auto simp: f UINT_MAX_def kval_def db_frame_def)
qed

theorem db_iterates_all_witness:
  "\<exists>db n it a. db_obj_put 1 (Key_i 5) (DB_DATA_INT 1) sample_db = Inr (0, None, db) \<and> dbit_obj_first db it = Inr (n, it)
     \<and> dbi_loop 3 db it = Inr [a] \<and> n_data (d_nodes db a) = DB_DATA_INT 1"
proof -
  obtain db B where P: "db_obj_put 1 (Key_i 5) (DB_DATA_INT 1) sample_db = Inr (0, None, db)" "db_repr db B [[5] \<mapsto> DB_DATA_INT 1]"
    using sample_put by blast
  obtain ns n it where I: "dbit_obj_first db undefined = Inr (n, it)" "dbi_loop 3 db it = Inr ns" "distinct ns"
    "bij_betw (\<lambda>a. kval (d_type db) (d_maxlen db) (n_key (d_nodes db a))) (set ns) {[5]}"
    "\<forall>a \<in> set ns. [[5] \<mapsto> DB_DATA_INT 1] (kval (d_type db) (d_maxlen db) (n_key (d_nodes db a))) = Some (n_data (d_nodes db a))"
    using db_iterates_all [OF P(2), of undefined] by auto
  have "card (set ns) = 1" using bij_betw_same_card [OF I(4)] by simp
  then obtain a where "set ns = {a}" by (rule card_1_singletonE)
  then have a: "ns = [a]" using I(3) distinct_card [OF I(3)] by (cases ns; cases "tl ns") auto
  then have "n_data (d_nodes db a) = DB_DATA_INT 1" using I(5) by (auto split: if_splits)
  moreover have "dbit_obj_first db it = Inr (n, it)" using I(1) by (simp add: dbit_obj_first_def)
  ultimately show ?thesis using P(1) I(2) a by blast
qed

section \<open>Clearing\<close>

text \<open>
  C36. \<open>db_obj_vclear\<close> takes all trees of a database apart and returns. The nodes, those of removed
  entries included, are freed once each and no other node is freed, the function of the caller gets exactly the entries and its results
  are summed up, and the database is then an empty one with nothing left to free.
\<close>

theorem db_clear_frees:
  assumes "db_repr db A M" "d_free_lock db < UINT_MAX"
  shows "\<exists>ns db'. db_obj_vclear func db = Inr (fold (clear_sum func (d_nodes db)) ns 0, db') \<and> distinct ns \<and> set ns = A
    \<and> node_log db' = node_log db @ map Freed_node ns \<and> db_repr db' {} Map.empty \<and> d_free_list db' = []"
  using vclear_repr [OF assms] by blast

lemma repr_no_nodes: "db_repr db {} M \<Longrightarrow> M = Map.empty"
  using contents_empty by (fastforce simp: db_repr_def live_def nodes_of_def)

theorem db_clear_frees_witness:
  "\<exists>db db' s. db_obj_put 1 (Key_i 5) (DB_DATA_INT 1) sample_db = Inr (0, None, db) \<and> db_obj_vclear (Some (\<lambda>k d. (7, d))) db = Inr (s, db')
     \<and> node_log db' = node_log db @ [Freed_node 1] \<and> db_repr db' {} Map.empty"
proof -
  obtain db B where P: "db_obj_put 1 (Key_i 5) (DB_DATA_INT 1) sample_db = Inr (0, None, db)" "db_repr db B [[5] \<mapsto> DB_DATA_INT 1]"
    "B \<subseteq> {1}" "d_free_lock db < UINT_MAX"
    using sample_put by (auto simp: UINT_MAX_def)
  have "B \<noteq> {}"
  proof
    assume "B = {}"
    then have "[[5] \<mapsto> DB_DATA_INT 1] = (Map.empty :: int list \<rightharpoonup> DBData)" using P(2) repr_no_nodes by blast
    then show False by simp
  qed
  then have B: "B = {1}" using P(3) by blast
  obtain ns db' s where C: "db_obj_vclear (Some (\<lambda>k d. (7, d))) db = Inr (s, db')" "distinct ns" "set ns = {1}"
    "node_log db' = node_log db @ map Freed_node ns" "db_repr db' {} Map.empty"
    using db_clear_frees [OF P(2,4)] unfolding B by blast
  have "ns = [1]" using C(2,3) distinct_card [OF C(2)] by (cases ns; cases "tl ns") auto
  then show ?thesis using P(1) C(1,4,5) by auto
qed

section \<open>Balance\<close>

fun theight :: "ct \<Rightarrow> nat" where
  "theight Lf = 0"
| "theight (Nd c l a r) = Suc (max (theight l) (theight r))"

lemma height_bheight: "invh t \<Longrightarrow> invc t \<Longrightarrow> theight t \<le> 2 * bheight t + of_bool (col t = RED)"
proof (induction t)
  case (Nd c l a r)
  then show ?case by (cases c; cases "col l"; cases "col r") auto
qed simp

lemma bheight_size: "invh t \<Longrightarrow> 2 ^ bheight t \<le> length (addrs t) + 1"
proof (induction t)
  case (Nd c l a r)
  then show ?case by (cases c) auto
qed simp

lemma balanced_height:
  assumes "balanced t"
  shows "2 ^ theight t \<le> (length (addrs t) + 1) ^ 2"
proof -
  have "theight t \<le> 2 * bheight t" using height_bheight [of t] assms by (simp add: balanced_def)
  then have "2 ^ theight t \<le> (2 ^ bheight t :: nat) ^ 2" by (simp add: power_mult [symmetric] mult.commute)
  also have "\<dots> \<le> (length (addrs t) + 1) ^ 2" using bheight_size [of t] assms by (intro power_mono) (auto simp: balanced_def)
  finally show ?thesis .
qed

text \<open>
  C34. Erasing a node from a red-black tree with \<open>db_rebalance_erase\<close> returns; it takes exactly that
  node out and keeps the order of the others, their keys and their data, all links stay consistent, and the tree stays
  balanced, so that with \<open>n\<close> nodes left no path is longer than \<open>2 * log2 (n + 1)\<close>.
\<close>

theorem db_erase_balanced:
  assumes "owns (h, root) T" "balanced T" "n \<in> set (addrs T)"
  shows "\<exists>h' root' t'. db_rebalance_erase n (h, root) = Some (h', root') \<and> owns (h', root') t' \<and> balanced t'
    \<and> addrs t' = filter (\<lambda>z. z \<noteq> n) (addrs T) \<and> relinks (set (addrs T)) h h' \<and> 2 ^ theight t' \<le> (length (addrs t') + 1) ^ 2"
  using db_rebalance_erase_ok [OF assms] balanced_height by meson

text \<open>Four nodes in a tree of height three.\<close>

definition sample_tree :: ct where
  "sample_tree = Nd BLACK (Nd BLACK (Nd RED Lf 1 Lf) 2 Lf) 3 (Nd BLACK Lf 4 Lf)"

definition sample_nodes :: "nat \<Rightarrow> (DBKey, DBData) dbn" where
  "sample_nodes = (\<lambda>_. blank_node)(
     1 := blank_node\<lparr>n_parent := 2\<rparr>,
     2 := blank_node\<lparr>n_parent := 3, n_left := 1, n_color := BLACK\<rparr>,
     3 := blank_node\<lparr>n_left := 2, n_right := 4, n_color := BLACK\<rparr>,
     4 := blank_node\<lparr>n_parent := 3, n_color := BLACK\<rparr>)"

theorem db_erase_balanced_witness:
  "\<exists>h root t. db_rebalance_erase 3 (sample_nodes, 3) = Some (h, root) \<and> owns (h, root) t \<and> balanced t \<and> addrs t = [1, 2, 4]"
proof -
  have "owns (sample_nodes, 3) sample_tree" "balanced sample_tree" "3 \<in> set (addrs sample_tree)"
    by (simp_all add: owns_def balanced_def sample_tree_def sample_nodes_def blank_node_def)
  from db_erase_balanced [OF this] have "\<exists>h root t. db_rebalance_erase 3 (sample_nodes, 3) = Some (h, root) \<and> owns (h, root) t \<and> balanced t
      \<and> addrs t = filter (\<lambda>z. z \<noteq> 3) (addrs sample_tree)" by blast
  moreover have "filter (\<lambda>z. z \<noteq> 3) (addrs sample_tree) = [1, 2, 4]" by (simp add: sample_tree_def)
  ultimately show ?thesis by simp
qed

section \<open>The data of a removed entry\<close>

text \<open>
  C37. While another lock is held, \<open>db_obj_vensure\<close> with the key of an entry that was removed under
  that lock does not create an entry. It gives out the data of the removed node and puts that node into the cache, so
  that \<open>db_obj_get\<close> finds it from then on, while the map has no such entry and the item count does not count it.
\<close>

theorem db_ensure_deleted:
  assumes "db_repr db A M" "key_ok (d_type db) (d_maxlen db) key" "d_free_lock db < UINT_MAX"
    and "(b, i) \<in> set (d_free_list db)" "kval (d_type db) (d_maxlen db) (n_key (d_nodes db b)) = kval (d_type db) (d_maxlen db) key"
  shows "\<exists>db'. db_obj_vensure a key (Some create) db = Inr (b, db') \<and> M (kval (d_type db) (d_maxlen db) key) = None
    \<and> n_deleted (d_nodes db' b) \<and> d_item_count db' = int (card (dom M)) \<and> db_obj_get key db' = Inr (b, db')"
  by (rule vensure_pending [OF assms])

text \<open>A database with the removed entry of the key 5, as an iterator keeps it.\<close>

definition pending_db :: dbmap where
  "pending_db = sample_db\<lparr>d_nodes := (\<lambda>_. blank_node)(1 := blank_node\<lparr>n_key := Key_i 5, n_color := BLACK, n_deleted := True\<rparr>),
     d_ht := (replicate HASH_SIZE 0)[5 := 1], d_free_lock := 1, d_free_list := [(1, 5)], d_free_max := 3\<rparr>"

lemma pending_db_repr: "db_repr pending_db {1} Map.empty"
proof -
  let ?T = "(\<lambda>_. Lf)(5 := Nd BLACK Lf 1 Lf)"
  have f: "d_nodes pending_db 1 = blank_node\<lparr>n_key := Key_i 5, n_color := BLACK, n_deleted := True\<rparr>" "d_free_list pending_db = [(1, 5)]"
    "d_free_lock pending_db = 1" "d_free_max pending_db = 3" "d_cache pending_db = 0" "d_item_count pending_db = 0" "d_type pending_db = DB_INT"
    "d_ht pending_db = (replicate HASH_SIZE 0)[5 := 1]" "d_maxlen pending_db = 0"
    by (simp_all add: pending_db_def sample_db_def db_alloc_def Let_def)
  have hash: "hash_of pending_db (Key_i 5) = 5"
    by (simp add: hash_of_def db_bucket_def f db_default_hash_def db_int_hash_def HASH_SIZE_def)
  have "bucket_ok pending_db j (?T j)" if "j < HASH_SIZE" for j
  proof (cases "j = 5")
    case True
    then show ?thesis using that by (simp add: bucket_ok_def owns_def balanced_def f [unfolded One_nat_def] hash) (simp add: blank_node_def)
  next
    case False
    then show ?thesis using that by (simp add: bucket_ok_def owns_def balanced_def f)
  qed
  moreover have l: "live ?T pending_db = {}" by (auto simp: live_def f [unfolded One_nat_def])
  ultimately have "db_inv ?T pending_db"
    by (auto simp: db_inv_def db_core_def f [unfolded One_nat_def] UINT_MAX_def HASH_SIZE_def)
  moreover have "contents ?T pending_db Map.empty" by (simp add: contents_def l [unfolded One_nat_def])
  moreover have "nodes_of ?T = {1}" by (auto simp: nodes_of_def HASH_SIZE_def split: if_splits)
  ultimately show ?thesis by (auto simp: db_repr_def)
qed

theorem db_ensure_deleted_witness:
  "\<exists>db. db_obj_vensure 2 (Key_i 5) (Some (\<lambda>_. DB_DATA_INT 7)) pending_db = Inr (1, db) \<and> n_deleted (d_nodes db 1)
     \<and> d_item_count db = 0 \<and> db_obj_get (Key_i 5) db = Inr (1, db)"
proof -
  have f: "d_nodes pending_db 1 = blank_node\<lparr>n_key := Key_i 5, n_color := BLACK, n_deleted := True\<rparr>" "d_free_list pending_db = [(1, 5)]"
    "d_free_lock pending_db = 1" "d_type pending_db = DB_INT" "d_maxlen pending_db = 0"
    by (simp_all add: pending_db_def sample_db_def db_alloc_def Let_def)
  show ?thesis
    using db_ensure_deleted [OF pending_db_repr, of "Key_i 5" 1 5 2 "\<lambda>_. DB_DATA_INT 7"] by (auto simp: f [unfolded One_nat_def] UINT_MAX_def)
qed

end
