(* ===== verification/Spec2Isabelle.thy ===== *)
theory Spec2Isabelle
  imports Path_Lines Des Quest_Store Levels Database
begin

text \<open>
  A model of parts of the map server of the emulator (an rAthena derivative, C++
  under src/src) with the theorems that make them correct. The server keeps one
  record per connected player (struct \<open>map_session_data\<close>), a table of maps, and
  a queue of timers; client packets and timers call handlers that change them. The model
  covers six groups of handlers and the databases that all servers keep their objects in.

  \<^bold>\<open>Items and money.\<close> Theories \<open>Items\<close>, \<open>Player\<close>, \<open>Sample\<close>, \<open>Currency\<close>,
  \<open>Inventory\<close>, \<open>Mover\<close>, \<open>Cart\<close>, \<open>Storage\<close>, \<open>Guild_Storage\<close>, \<open>Trade\<close>, \<open>Vending\<close>.
  \<open>Items\<close> has the item record (common/mmo.hpp), the item database entry and
  the restriction tests of map/itemdb.cpp. \<open>Player\<close> has the fields of a player that
  the modelled handlers use (record \<open>sd\<close>), the settings and map flags (\<open>env\<close>) and the
  invariant of a player: every slot has between 1 and MAX\_AMOUNT units, the cached
  database entries and the weights and counters agree with the slots. \<open>Currency\<close>,
  \<open>Inventory\<close> and \<open>Cart\<close> model the functions of map/pc.cpp of the same names,
  \<open>Storage\<close> and \<open>Guild_Storage\<close> those of map/storage.cpp with the lookups of
  map/guild.cpp, \<open>Trade\<close> those of map/trade.cpp over the map from account ids to
  players, \<open>Vending\<close> those of map/vending.cpp. A transfer between two containers (put a
  copy into the destination, then take the units from the source) is the locale
  \<open>item_mover\<close> of \<open>Mover\<close>; every pair of containers interprets it, and the
  conservation theorems of cart, storages and trade rest on those interpretations. The
  lemmas show the effect of every operation on what a player holds, that the invariant
  is kept, and that refused operations change no slot; the trade theorems add that money
  and items are conserved over all reachable interleavings of trade packets and of the command @trade,
  and that a request made with an open window leaves windows that do not point at each other.

  \<^bold>\<open>Timers.\<close> \<open>Bheap\<close> models the binary heap macros of common/db.hpp, in both variants, as
  implementations of the locale \<open>priority_queue\<close>; \<open>Timer\<close> models common/timer.cpp on top:
  the arrays of timers, the free list and the heap of ids are the record \<open>timers\<close>, the
  registered functions are an argument that, from the state of the program and of the queue,
  answers with further calls of the timer interface. The loop of \<open>do_timer\<close> has fuel: it may run for ever when a timer
  function keeps setting its own tick to the past. \<open>do_timer_terminates\<close> shows that
  \<open>backlog\<close>, the number of intervals the queue is late, is enough fuel when they
  do not.

  \<^bold>\<open>Maps and paths.\<close> \<open>Map_Cells\<close> models the cell flags of map/map.hpp, the tests and
  setters and the invisible walls of map/map.cpp. \<open>Path\<close> models map/path.cpp; \<open>Path_Search\<close>
  and \<open>Path_Lines\<close> hold its theorems. The A* loop has fuel, the loop is shown to end
  within \<open>astar_fuel\<close> rounds (each node of the 32 by 32 table is opened again only with a
  smaller cost) unless it starts at the cell (0,0), from where it need not end; line of sight and straight paths end by the distance that is left.

  \<^bold>\<open>Quests.\<close> \<open>Quest\<close> models map/quest.cpp with the transfer of the log to and from the
  char server in map/intif.cpp, \<open>Quest_Store\<close> the char server's char/int_quest.cpp over its table of
  rows. The log of a player is an array of open quests followed
  by completed ones; every operation, run in any order together with kills and reloads
  of the database, is shown to implement a map from quest ids to quests (\<open>quest_spec\<close>), and
  what a save and a load give back is stated exactly: the saved log, but with the old times of the quests
  that were stored before. Drops of quests go through \<open>pc_additem\<close>.

  \<^bold>\<open>Levels.\<close> \<open>Jobs\<close> has the two numberings of the job classes (the switches
  \<open>pc_jobid2mapid\<close> and \<open>pc_mapid2jobid\<close> of map/pc.cpp as tables) and shows them inverse. \<open>Levels\<close>
  models experience, level-up, raising and resetting stats (map/pc.cpp) and the guild
  tax (map/guild.cpp) over the record \<open>pcs\<close>, whose field \<open>body\<close> is the player of the item
  handlers. The loops end by the distance to the last level or to the limit of a stat. The
  lemmas show that no level-up is left pending and that status points are neither created nor
  lost.

  \<^bold>\<open>Archives.\<close> \<open>Des\<close> models the block cipher of common/des.cpp and the decoding of archive
  entries and names in common/grfio.cpp. A round is its own inverse, every content has
  an encoded form, and the decoder touches exactly the blocks of a closed schedule. The
  count of the digits of a length has fuel 10, which is enough for lengths below 10^9.

  \<^bold>\<open>Databases.\<close> common/db.cpp is the container behind most tables of the servers: a hashtable of
  283 red-black trees with a cache of the last entry, a lock counter, a list of removed nodes that are
  freed when the last lock goes, and iterators that hold a lock. \<open>Rbtree\<close> has the nodes in a store of addresses,
  the rotations and the two rebalancing functions; \<open>Rbbalance\<close> and \<open>Rberase\<close> show that insertion and
  erasure keep order and balance and return. \<open>Dbkey\<close> has keys, comparators and hashers, \<open>Dbmap\<close> the
  operations over the record \<open>dbmap\<close>. \<open>Dbproofs\<close>, \<open>Dbput\<close>, \<open>Dbiter\<close> and \<open>Dbensure\<close> show that each operation implements the one
  of a finite map (\<open>db_repr\<close>) and returns; \<open>Dbrun\<close> puts them together: for every sequence of calls the answers are
  those of a map with one cursor for each iterator, by the locale \<open>answers_as\<close> of \<open>Refine\<close>.
  Iterators go in both directions; going back is proved by mirroring the trees. \<open>Dbwalk\<close> has the walks over all entries, and clearing
  and destroying, which take the trees apart from the leaves and free every node once.
  \<open>Database\<close> has the resulting statements. Loops over pointers are partial functions whose result None
  would be not to return; the loop over an iterator has as fuel the number of its turns. The address of a new node is
  chosen by an argument (\<open>ers_ok\<close>: it is not in use). What is given back to the allocators is recorded in \<open>d_freed\<close>.

  \<^bold>\<open>Conventions.\<close> C integers are \<open>int\<close> with the conversions \<open>s16\<close>, \<open>s32\<close> and \<open>u32\<close> written
  where the code stores a value in a narrower variable; unsigned fields that are only
  compared are \<open>nat\<close>. Arrays are lists updated by index. Functions that return an
  error code return it with the state. Functions without a body in the repository
  (restocking, the organised shops), the flags of the cells that \<open>pc_is_on_cellpvp\<close> reads, the entry to the status and script
  engines (equipping, recalculating a player, what follows a new level), the C library's \<open>qsort\<close> and the rounding of double operations are
  arguments of the model; what is used of them is named (\<open>hooks_ok\<close>, \<open>fl_ok\<close>, \<open>lvconf_ok\<close>), and
  \<open>Sample\<close> has a concrete instance of each. Calls that only send packets or
  write logs and database rows are left out, but for the rows of quests.

  \<^bold>\<open>Not modelled.\<close> The login and char servers (SQL persistence and packet forwarding) except for quests, the
  battle, skill and status engines, the script engine, the client protocol, loading of
  maps and databases, job changes and skill trees, mails, auctions, parties, battlegrounds, pets and the event
  systems of the fork. They are open for later work; nothing in the theories depends on
  them except through the arguments named above.
\<close>

end
